(* ===== verification/Prelude.thy ===== *)
theory Prelude
  imports Main "HOL-Library.Word" "HOL-Library.List_Lexorder" "HOL-Library.Char_ord"
    "HOL-Library.Sublist"
begin

text \<open>
  What the components share.  A Go \<open>string\<close> is a HOL \<open>string\<close>: both are sequences
  of bytes, and the lexicographic order on \<open>char list\<close> is Go's order on strings.  A
  \<open>[]byte\<close> is a list of 8-bit words.  A function that returns a value and an error is
  a sum, the error on the left.
\<close>

type_synonym byte = "8 word"
type_synonym bytes = "byte list"
type_synonym u16 = "16 word"
type_synonym u64 = "64 word"

text \<open>Facts about accepted results, shared by the components that classify errors.\<close>

named_theorems result_simps

text \<open>
  \<open>accepted Q r\<close>: if the call returned a value, then one that satisfies \<open>Q\<close>.  The rules
  walk through the branches of an operation without simplifying its guards.
\<close>

definition accepted :: "('a \<Rightarrow> bool) \<Rightarrow> 'e + 'a \<Rightarrow> bool" where
  "accepted Q r \<longleftrightarrow> (\<forall>x. r = Inr x \<longrightarrow> Q x)"

lemma acceptedD: "accepted Q r \<Longrightarrow> r = Inr x \<Longrightarrow> Q x"
  by (simp add: accepted_def)

lemma accepted_Inr [simp]: "accepted Q (Inr x) \<longleftrightarrow> Q x"
  by (simp add: accepted_def)

lemma accepted_Inl [simp]: "accepted Q (Inl e)"
  by (simp add: accepted_def)

lemma accepted_if:
  "(b \<Longrightarrow> accepted Q x) \<Longrightarrow> (\<not> b \<Longrightarrow> accepted Q y) \<Longrightarrow> accepted Q (if b then x else y)"
  by simp

lemma accepted_bind:
  "(\<And>x. r = Inr x \<Longrightarrow> accepted Q (f x)) \<Longrightarrow> accepted Q (case r of Inl e \<Rightarrow> Inl e | Inr x \<Rightarrow> f x)"
  by (cases r) simp_all

lemma accepted_option:
  "(o' = None \<Longrightarrow> accepted Q x) \<Longrightarrow> (\<And>v. o' = Some v \<Longrightarrow> accepted Q (f v)) \<Longrightarrow>
   accepted Q (case o' of None \<Rightarrow> x | Some v \<Rightarrow> f v)"
  by (cases o') simp_all

lemma accepted_prod:
  "(\<And>a b. p = (a, b) \<Longrightarrow> accepted Q (f a b)) \<Longrightarrow> accepted Q (case p of (a, b) \<Rightarrow> f a b)"
  by (cases p) simp

lemmas accepted_rules = accepted_if accepted_bind accepted_option accepted_prod

section \<open>Conversions between strings and bytes\<close>

definition byte_of_char :: "char \<Rightarrow> byte" where
  "byte_of_char c = word_of_nat (of_char c)"

definition char_of_byte :: "byte \<Rightarrow> char" where
  "char_of_byte b = char_of (unat b)"

definition bytes_of_string :: "string \<Rightarrow> bytes" where
  "bytes_of_string s = map byte_of_char s"

definition string_of_bytes :: "bytes \<Rightarrow> string" where
  "string_of_bytes bs = map char_of_byte bs"

lemma char_of_byte_of_char [simp]: "char_of_byte (byte_of_char c) = c"
  by (simp add: char_of_byte_def byte_of_char_def unat_of_nat)

lemma byte_of_char_of_byte [simp]: "byte_of_char (char_of_byte b) = b"
proof -
  have "unat b < 256"
    using unsigned_less [of b, where ?'a = nat] by simp
  then show ?thesis
    by (simp add: char_of_byte_def byte_of_char_def)
qed

lemma string_of_bytes_of_string [simp]: "string_of_bytes (bytes_of_string s) = s"
  by (simp add: string_of_bytes_def bytes_of_string_def comp_def)

lemma bytes_of_string_of_bytes [simp]: "bytes_of_string (string_of_bytes bs) = bs"
  by (simp add: string_of_bytes_def bytes_of_string_def comp_def)

lemma length_bytes_of_string [simp]: "length (bytes_of_string s) = length s"
  by (simp add: bytes_of_string_def)

lemma length_string_of_bytes [simp]: "length (string_of_bytes bs) = length bs"
  by (simp add: string_of_bytes_def)

section \<open>Decimal numbers, as \<open>%d\<close> prints them\<close>

fun nat_decimal :: "nat \<Rightarrow> string" where
  "nat_decimal n =
     (if n < 10 then [char_of (48 + n)] else nat_decimal (n div 10) @ [char_of (48 + n mod 10)])"

declare nat_decimal.simps [simp del]

definition int_decimal :: "int \<Rightarrow> string" where
  "int_decimal n = (if n < 0 then CHR ''-'' # nat_decimal (nat (- n)) else nat_decimal (nat n))"

section \<open>Strictly ascending lists\<close>

lemma sorted_strict_distinct: "sorted_wrt (<) (xs :: 'a :: linorder list) \<Longrightarrow> distinct xs"
  by (induction xs) auto

lemma sorted_wrt_adjacent:
  fixes xs :: "'a :: order list"
  shows "sorted_wrt (<) xs \<longleftrightarrow> (\<forall>i. Suc i < length xs \<longrightarrow> xs ! i < xs ! Suc i)"
  by (simp add: sorted_wrt_iff_nth_Suc_transp)

lemma strict_ascending_unique:
  fixes xs ys :: "'a :: linorder list"
  assumes "sorted_wrt (<) xs" and "sorted_wrt (<) ys" and "set xs = set ys"
  shows "xs = ys"
  using assms by (meson strict_sorted_equal)

end
