(* ===== verification/Utf8.thy ===== *)
theory Utf8
  imports Prelude
begin

text \<open>
  The part of Go's \<open>unicode/utf8\<close> the program uses, on byte strings:
  \<open>DecodeRuneInString\<close>, \<open>Valid\<close>/\<open>ValidString\<close>, and the runes a
  \<open>for range\<close> over a string yields.  A rune is an \<open>int\<close>; an invalid encoding decodes
  to U+FFFD with width 1, an empty string to U+FFFD with width 0.
\<close>

abbreviation rune_error :: int where "rune_error \<equiv> 0xFFFD"
abbreviation max_rune :: int where "max_rune \<equiv> 0x10FFFF"

definition byte_in :: "nat \<Rightarrow> nat \<Rightarrow> char \<Rightarrow> bool" where
  "byte_in lo hi c \<longleftrightarrow> lo \<le> of_char c \<and> of_char c \<le> hi"

definition low6 :: "char \<Rightarrow> nat" where
  "low6 c = of_char c mod 64"

text \<open>The encodings of two, three and four bytes, by their first byte \<open>b0\<close>.\<close>

definition decode2 :: "nat \<Rightarrow> string \<Rightarrow> int \<times> nat" where
  "decode2 b0 rest = (case rest of
     c1 # _ \<Rightarrow>
       if byte_in 0x80 0xBF c1 then (int (b0 mod 32 * 64 + low6 c1), 2) else (rune_error, 1)
   | _ \<Rightarrow> (rune_error, 1))"

definition decode3 :: "nat \<Rightarrow> string \<Rightarrow> int \<times> nat" where
  "decode3 b0 rest = (case rest of
     c1 # c2 # _ \<Rightarrow>
       if byte_in (if b0 = 0xE0 then 0xA0 else 0x80) (if b0 = 0xED then 0x9F else 0xBF) c1
          \<and> byte_in 0x80 0xBF c2
       then (int (b0 mod 16 * 4096 + low6 c1 * 64 + low6 c2), 3)
       else (rune_error, 1)
   | _ \<Rightarrow> (rune_error, 1))"

definition decode4 :: "nat \<Rightarrow> string \<Rightarrow> int \<times> nat" where
  "decode4 b0 rest = (case rest of
     c1 # c2 # c3 # _ \<Rightarrow>
       if byte_in (if b0 = 0xF0 then 0x90 else 0x80) (if b0 = 0xF4 then 0x8F else 0xBF) c1
          \<and> byte_in 0x80 0xBF c2 \<and> byte_in 0x80 0xBF c3
       then (int (b0 mod 8 * 262144 + low6 c1 * 4096 + low6 c2 * 64 + low6 c3), 4)
       else (rune_error, 1)
   | _ \<Rightarrow> (rune_error, 1))"

definition decode_rune :: "string \<Rightarrow> int \<times> nat" where
  "decode_rune s = (case s of
     [] \<Rightarrow> (rune_error, 0)
   | c # rest \<Rightarrow>
      (let b0 = (of_char c :: nat) in
       if b0 < 0x80 then (int b0, 1)
       else if 0xC2 \<le> b0 \<and> b0 \<le> 0xDF then decode2 b0 rest
       else if 0xE0 \<le> b0 \<and> b0 \<le> 0xEF then decode3 b0 rest
       else if 0xF0 \<le> b0 \<and> b0 \<le> 0xF4 then decode4 b0 rest
       else (rune_error, 1)))"

lemma low6_less: "low6 c < 64"
  by (simp add: low6_def)

lemma decode2_size: "snd (decode2 b0 rest) \<in> {1..Suc (length rest)}"
  and decode3_size: "snd (decode3 b0 rest) \<in> {1..Suc (length rest)}"
  and decode4_size: "snd (decode4 b0 rest) \<in> {1..Suc (length rest)}"
  by (auto simp: decode2_def decode3_def decode4_def split: list.splits)

lemma decode_rune_size:
  assumes "s \<noteq> []"
  shows "0 < snd (decode_rune s)" and "snd (decode_rune s) \<le> length s"
proof -
  obtain c rest where s: "s = c # rest"
    using assms by (cases s) auto
  have "snd (decode_rune s) \<in> {1..length s}"
    using decode2_size [of "of_char c" rest] decode3_size [of "of_char c" rest]
      decode4_size [of "of_char c" rest]
    by (simp add: s decode_rune_def Let_def)
  then show "0 < snd (decode_rune s)" and "snd (decode_rune s) \<le> length s"
    by simp_all
qed

lemma decode_rune_ascii:
  "of_char c < (0x80 :: nat) \<Longrightarrow> decode_rune (c # cs) = (int (of_char c), 1)"
  by (simp add: decode_rune_def)

lemma decode_rune_size_prod:
  "s \<noteq> [] \<Longrightarrow> decode_rune s = (r, n) \<Longrightarrow> 0 < n \<and> n \<le> length s"
  using decode_rune_size [of s] by simp

definition rune_ok :: "int \<Rightarrow> bool" where
  "rune_ok r \<longleftrightarrow> 0 \<le> r \<and> r \<le> max_rune"

lemma rune_ok_nat: "n \<le> 0x10FFFF \<Longrightarrow> rune_ok (int n)"
  by (simp add: rune_ok_def)

lemma rune_ok_error: "rune_ok rune_error"
  by (simp add: rune_ok_def)

lemma decode2_ok: "rune_ok (fst (decode2 b0 rest))"
proof -
  have "b0 mod 32 * 64 + low6 c1 \<le> 0x10FFFF" for c1
    using low6_less [of c1] mod_less_divisor [of 32 b0] by linarith
  then show ?thesis
    by (auto simp: decode2_def rune_ok_error split: list.splits
        simp del: of_nat_add of_nat_mult of_nat_mod intro: rune_ok_nat)
qed

lemma decode3_ok: "rune_ok (fst (decode3 b0 rest))"
proof -
  have "b0 mod 16 * 4096 + low6 c1 * 64 + low6 c2 \<le> 0x10FFFF" for c1 c2
    using low6_less [of c1] low6_less [of c2] mod_less_divisor [of 16 b0] by linarith
  then have "rune_ok (int (b0 mod 16 * 4096 + low6 c1 * 64 + low6 c2))" for c1 c2
    by (rule rune_ok_nat)
  then have ok: "rune_ok (fst (if P then (int (b0 mod 16 * 4096 + low6 c1 * 64 + low6 c2), 3)
      else (rune_error, 1)))" for P c1 c2
    by (simp only: if_distrib [of fst] fst_conv rune_ok_error simp_thms split: if_split)
  show ?thesis
    unfolding decode3_def by (simp only: ok fst_conv rune_ok_error simp_thms split: list.split)
qed

lemma decode4_bound:
  assumes "0xF0 \<le> b0" "b0 \<le> 0xF4" and "byte_in lo (if b0 = 0xF4 then 0x8F else 0xBF) c1" "0x80 \<le> lo"
  shows "b0 mod 8 * 262144 + low6 c1 * 4096 + low6 c2 * 64 + low6 c3 \<le> 0x10FFFF"
proof (cases "b0 = 0xF4")
  case True
  have "x mod 64 < 16" if "0x80 \<le> x" "x \<le> 0x8F" for x :: nat
    using that by (simp add: le_mod_geq)
  then have "low6 c1 < 16"
    using True assms(3,4) by (simp add: byte_in_def low6_def)
  then show ?thesis
    using True low6_less [of c2] low6_less [of c3] by simp
next
  case False
  then have "b0 \<in> {0xF0, 0xF1, 0xF2, 0xF3}"
    using assms(1,2) by auto
  then have "b0 mod 8 \<le> 3"
    by auto
  then show ?thesis
    using low6_less [of c1] low6_less [of c2] low6_less [of c3] by linarith
qed

lemma decode4_ok:
  assumes "0xF0 \<le> b0" "b0 \<le> 0xF4"
  shows "rune_ok (fst (decode4 b0 rest))"
proof -
  have "rune_ok (int (b0 mod 8 * 262144 + low6 c1 * 4096 + low6 c2 * 64 + low6 c3))"
    if "byte_in (if b0 = 0xF0 then 0x90 else 0x80) (if b0 = 0xF4 then 0x8F else 0xBF) c1" for c1 c2 c3
    by (rule rune_ok_nat, rule decode4_bound [OF assms that]) simp
  then have ok: "rune_ok (fst (if byte_in (if b0 = 0xF0 then 0x90 else 0x80)
        (if b0 = 0xF4 then 0x8F else 0xBF) c1 \<and> P
      then (int (b0 mod 8 * 262144 + low6 c1 * 4096 + low6 c2 * 64 + low6 c3), 4)
      else (rune_error, 1)))" for P c1 c2 c3
    using rune_ok_error by (cases P; cases "byte_in (if b0 = 0xF0 then 0x90 else 0x80)
        (if b0 = 0xF4 then 0x8F else 0xBF) c1") (simp_all only: if_True if_False fst_conv simp_thms)
  show ?thesis
    unfolding decode4_def by (simp only: ok fst_conv rune_ok_error simp_thms split: list.split)
qed

lemma decode_rune_ok: "rune_ok (fst (decode_rune s))"
  using decode2_ok decode3_ok decode4_ok rune_ok_error rune_ok_nat
  by (cases s) (simp_all add: decode_rune_def Let_def)

section \<open>Whole strings\<close>

function valid_utf8 :: "string \<Rightarrow> bool" where
  "valid_utf8 s =
     (if s = [] then True
      else case decode_rune s of (r, n) \<Rightarrow>
        if r = rune_error \<and> n = 1 then False else valid_utf8 (drop n s))"
  by pat_completeness auto
termination
  by (relation "measure length") (auto dest: decode_rune_size_prod [OF _ sym])

function runes :: "string \<Rightarrow> int list" where
  "runes s =
     (if s = [] then []
      else case decode_rune s of (r, n) \<Rightarrow> r # runes (drop n s))"
  by pat_completeness auto
termination
  by (relation "measure length") (auto dest: decode_rune_size_prod [OF _ sym])

declare valid_utf8.simps [simp del] runes.simps [simp del]

lemma valid_utf8_Nil [simp]: "valid_utf8 []"
  by (simp add: valid_utf8.simps)

lemma runes_Nil [simp]: "runes [] = []"
  by (simp add: runes.simps)

lemma valid_utf8_ascii [simp]:
  "of_char c < (0x80 :: nat) \<Longrightarrow> valid_utf8 (c # cs) = valid_utf8 cs"
  by (simp add: valid_utf8.simps [of "c # cs"] decode_rune_ascii)

lemma runes_ascii [simp]:
  "of_char c < (0x80 :: nat) \<Longrightarrow> runes (c # cs) = int (of_char c) # runes cs"
  by (simp add: runes.simps [of "c # cs"] decode_rune_ascii)

lemma decode_rune_take:
  assumes "s \<noteq> []" and "decode_rune s = (r, n)" and "\<not> (r = rune_error \<and> n = 1)"
  shows "n = 1 \<and> r = int (of_char (hd s)) \<or> (\<forall>c \<in> set (take n s). 0x80 \<le> (of_char c :: nat))"
proof -
  obtain c0 rest where s: "s = c0 # rest"
    using assms(1) by (cases s) auto
  show ?thesis
    using assms(2,3)
    by (auto simp: s decode_rune_def decode2_def decode3_def decode4_def Let_def byte_in_def
        split: if_splits list.splits)
qed

text \<open>In a valid string every ASCII byte is a rune of its own.\<close>

lemma valid_utf8_ascii_rune:
  "valid_utf8 s \<Longrightarrow> c \<in> set s \<Longrightarrow> of_char c < (0x80 :: nat) \<Longrightarrow> int (of_char c) \<in> set (runes s)"
proof (induction s rule: runes.induct)
  case (1 s)
  obtain r n where d: "decode_rune s = (r, n)" by force
  have ne: "s \<noteq> []" using "1.prems"(2) by auto
  have v: "\<not> (r = rune_error \<and> n = 1)" "valid_utf8 (drop n s)"
    using "1.prems"(1) ne d by (simp_all add: valid_utf8.simps [of s] split: if_splits)
  have runes: "runes s = r # runes (drop n s)"
    using ne d by (simp add: runes.simps [of s])
  show ?case
  proof (cases "c \<in> set (drop n s)")
    case True
    then show ?thesis
      using "1.IH" [OF ne d [symmetric] v(2) True "1.prems"(3)] runes by simp
  next
    case False
    then have "c \<in> set (take n s)"
      using "1.prems"(2) by (metis Un_iff append_take_drop_id set_append)
    then show ?thesis
      using decode_rune_take [OF ne d v(1)] "1.prems"(3) ne runes
      by (cases s) (auto simp: take_Cons')
  qed
qed

end
