(* ===== verification/Codec.thy ===== *)
theory Codec
  imports Prelude
begin

text \<open>
  The interface of one field of a canonical encoding, over bytes or characters: an encoder, a decoder that reads a
  prefix and hands back the rest, and the values the encoding is meant for.  The two laws
  say that decoding inverts encoding whatever follows, and that the decoder accepts nothing
  but the encoding of an allowed value.  Canonicity (one encoding per value, and no value
  whose encoding is a proper prefix of another's) follows from them.
\<close>

locale prefix_codec =
  fixes enc :: "'a \<Rightarrow> 'c list"
    and dec :: "'c list \<Rightarrow> ('a \<times> 'c list) option"
    and ok :: "'a \<Rightarrow> bool"
  assumes dec_enc: "ok x \<Longrightarrow> dec (enc x @ r) = Some (x, r)"
    and enc_dec: "dec b = Some (x, r) \<Longrightarrow> ok x \<and> b = enc x @ r"
begin

lemma dec_iff: "dec b = Some (x, r) \<longleftrightarrow> ok x \<and> b = enc x @ r"
  using dec_enc enc_dec by blast

lemma canonical: "ok x \<Longrightarrow> ok y \<Longrightarrow> enc x @ r = enc y @ r' \<Longrightarrow> x = y \<and> r = r'"
  using dec_enc by (metis option.inject prod.inject)

lemma dec_whole: "ok x \<Longrightarrow> dec (enc x) = Some (x, [])"
  using dec_enc [of x "[]"] by simp

lemma dec_shrinks: "dec b = Some (x, r) \<Longrightarrow> length b = length (enc x) + length r"
  using enc_dec by fastforce

end

text \<open>A fixed number of fields one after the other.\<close>

fun read_n :: "('c list \<Rightarrow> ('a \<times> 'c list) option) \<Rightarrow> nat \<Rightarrow> 'c list \<Rightarrow> ('a list \<times> 'c list) option" where
  "read_n dec 0 b = Some ([], b)"
| "read_n dec (Suc k) b =
     (case dec b of
        None \<Rightarrow> None
      | Some (x, r) \<Rightarrow>
          (case read_n dec k r of None \<Rightarrow> None | Some (xs, r') \<Rightarrow> Some (x # xs, r')))"

context prefix_codec begin

lemma read_n_iff:
  "read_n dec k b = Some (xs, r) \<longleftrightarrow>
     length xs = k \<and> (\<forall>x \<in> set xs. ok x) \<and> b = concat (map enc xs) @ r"
proof (induction k arbitrary: b xs)
  case 0
  then show ?case by auto
next
  case (Suc k)
  show ?case
  proof
    assume "read_n dec (Suc k) b = Some (xs, r)"
    then show "length xs = Suc k \<and> (\<forall>x \<in> set xs. ok x) \<and> b = concat (map enc xs) @ r"
      by (auto simp: Suc.IH dec_iff split: option.splits)
  next
    assume a: "length xs = Suc k \<and> (\<forall>x \<in> set xs. ok x) \<and> b = concat (map enc xs) @ r"
    then obtain y ys where xs: "xs = y # ys" by (cases xs) auto
    then have "read_n dec k (concat (map enc ys) @ r) = Some (ys, r)"
      using a by (simp add: Suc.IH)
    then show "read_n dec (Suc k) b = Some (xs, r)"
      using a by (simp add: xs dec_enc)
  qed
qed

end

end
