(* ===== verification/Grant_Body.thy ===== *)
theory Grant_Body
  imports Utf8 Codec
begin

text \<open>
  \<open>auth/go/grant/grant.go\<close>: the body of a grant, the rules it is held to (\<open>check\<close>)
  and its one canonical encoding (\<open>Encode\<close>, \<open>Decode\<close>).  A fixed array
  \<open>[32]byte\<close> is a byte list, with \<open>wf_grant\<close> saying it has 32 bytes.
\<close>

unbundle bit_operations_syntax

section \<open>Data\<close>

record validity =
  Finite :: bool
  ExpiresAt :: u64

record grant =
  gDomain :: string
  gSubject :: bytes
  gParent :: "bytes option"
  gScope :: "string list"
  gActions :: "string list"
  gDelegable :: "string list"
  gDepth :: byte
  gValidity :: validity

datatype code =
    Malformed | UnsupportedVersion | EnvelopeInvalid | ChainTooLong | DomainMismatch
  | RootMismatch | ParentMismatch | IssuerMismatch | WidenedActions | WidenedScope
  | WidenedDepth | WidenedValidity | NotCovered | TimeRequired | Expired

definition version :: byte where "version = 1"
definition maxDepth :: nat where "maxDepth = 15"
definition maxChain :: nat where "maxChain = 16"
definition maxEntries :: nat where "maxEntries = 64"
definition maxEntryBytes :: nat where "maxEntryBytes = 1024"
definition maxBodyBytes :: nat where "maxBodyBytes = 65535"
definition maxDomainBytes :: nat where "maxDomainBytes = 255"

lemmas grant_bounds = maxDepth_def maxChain_def maxEntries_def maxEntryBytes_def
  maxBodyBytes_def maxDomainBytes_def

section \<open>The rules of a body\<close>

text \<open>The errors \<open>text\<close>, \<open>checkList\<close> and \<open>check\<close> return, by what their text says.\<close>

datatype text_error = BadLength nat | NotUtf8 | ControlRune int
datatype list_error = TooManyEntries nat | EntryText nat text_error | NotAscending nat
datatype check_error =
    DomainText text_error
  | BadList string list_error
  | DelegableNotActions
  | DepthAbove byte
  | UnboundedExpiry
  | BodyTooLong nat

definition text_rule :: "string \<Rightarrow> nat \<Rightarrow> text_error option" where
  "text_rule s mx =
     (if length s = 0 \<or> length s > mx then Some (BadLength (length s))
      else if \<not> valid_utf8 s then Some NotUtf8
      else map_option ControlRune (find (\<lambda>r. r < 0x20 \<or> r = 0x7f) (runes s)))"

text \<open>The loop of \<open>checkList\<close>: at entry \<open>i\<close>, with the entry before it.\<close>

fun checkList_from :: "nat \<Rightarrow> string option \<Rightarrow> string list \<Rightarrow> list_error option" where
  "checkList_from i prev [] = None"
| "checkList_from i prev (entry # rest) =
     (case text_rule entry maxEntryBytes of
        Some e \<Rightarrow> Some (EntryText i e)
      | None \<Rightarrow>
          (case prev of
             Some p \<Rightarrow> if p \<ge> entry then Some (NotAscending i)
                       else checkList_from (Suc i) (Some entry) rest
           | None \<Rightarrow> checkList_from (Suc i) (Some entry) rest))"

definition checkList :: "string list \<Rightarrow> list_error option" where
  "checkList entries =
     (if length entries > maxEntries then Some (TooManyEntries (length entries))
      else checkList_from 0 None entries)"

text \<open>
  \<open>subset\<close> walks both sorted lists at once; \<open>outer\<close> is what is left of it from
  index \<open>j\<close> on.
\<close>

fun subset :: "string list \<Rightarrow> string list \<Rightarrow> bool" where
  "subset [] outer = True"
| "subset (entry # inner) outer =
     (let rest = dropWhile (\<lambda>o'. o' < entry) outer
      in if rest = [] \<or> hd rest \<noteq> entry then False else subset inner rest)"

fun contains :: "string list \<Rightarrow> string \<Rightarrow> bool" where
  "contains [] entry = False"
| "contains (e # es) entry =
     (if e = entry then True else if e > entry then False else contains es entry)"

fun covered :: "string \<Rightarrow> string list \<Rightarrow> bool" where
  "covered scope [] = False"
| "covered scope (entry # es) =
     (if scope = entry then True
      else if length scope > length entry \<and> take (length entry) scope = entry
              \<and> scope ! length entry = CHR ''/''
      then True
      else covered scope es)"

fun allCovered :: "string list \<Rightarrow> string list \<Rightarrow> bool" where
  "allCovered [] outer = True"
| "allCovered (entry # inner) outer = (if \<not> covered entry outer then False else allCovered inner outer)"

definition check :: "grant \<Rightarrow> check_error option" where
  "check g =
     (case text_rule (gDomain g) maxDomainBytes of
        Some e \<Rightarrow> Some (DomainText e)
      | None \<Rightarrow>
     (case checkList (gScope g) of
        Some e \<Rightarrow> Some (BadList ''scope'' e)
      | None \<Rightarrow>
     (case checkList (gActions g) of
        Some e \<Rightarrow> Some (BadList ''actions'' e)
      | None \<Rightarrow>
     (case checkList (gDelegable g) of
        Some e \<Rightarrow> Some (BadList ''delegable'' e)
      | None \<Rightarrow>
        if \<not> subset (gDelegable g) (gActions g) then Some DelegableNotActions
        else if unat (gDepth g) > maxDepth then Some (DepthAbove (gDepth g))
        else if \<not> Finite (gValidity g) \<and> ExpiresAt (gValidity g) \<noteq> 0 then Some UnboundedExpiry
        else None))))"

section \<open>Encoding\<close>

definition be16 :: "u16 \<Rightarrow> bytes" where
  "be16 n = [ucast (drop_bit 8 n), ucast n]"

definition be64 :: "u64 \<Rightarrow> bytes" where
  "be64 n = [ucast (drop_bit 56 n), ucast (drop_bit 48 n), ucast (drop_bit 40 n),
     ucast (drop_bit 32 n), ucast (drop_bit 24 n), ucast (drop_bit 16 n),
     ucast (drop_bit 8 n), ucast n]"

fun appendEntries :: "bytes \<Rightarrow> string list \<Rightarrow> bytes" where
  "appendEntries body [] = body"
| "appendEntries body (entry # es) =
     appendEntries (body @ be16 (word_of_nat (length entry)) @ bytes_of_string entry) es"

definition appendList :: "bytes \<Rightarrow> string list \<Rightarrow> bytes" where
  "appendList body entries = appendEntries (body @ be16 (word_of_nat (length entries))) entries"

definition encode_body :: "grant \<Rightarrow> bytes" where
  "encode_body g =
     (let body = [version];
          body = body @ [word_of_nat (length (gDomain g))];
          body = body @ bytes_of_string (gDomain g);
          body = body @ gSubject g;
          body = (case gParent g of None \<Rightarrow> body @ [0x00] | Some p \<Rightarrow> body @ [0x01] @ p);
          body = appendList body (gScope g);
          body = appendList body (gActions g);
          body = appendList body (gDelegable g);
          body = body @ [gDepth g]
      in if Finite (gValidity g) then body @ [0x01] @ be64 (ExpiresAt (gValidity g))
         else body @ [0x00])"

definition Encode :: "grant \<Rightarrow> check_error + bytes" where
  "Encode g =
     (case check g of
        Some e \<Rightarrow> Inl e
      | None \<Rightarrow>
          let body = encode_body g
          in if length body > maxBodyBytes then Inl (BodyTooLong (length body)) else Inr body)"

section \<open>Decoding\<close>

text \<open>The reader: every read takes the rest and returns the value and what is left.\<close>

definition read_u8 :: "bytes \<Rightarrow> (byte \<times> bytes) option" where
  "read_u8 rest = (case rest of [] \<Rightarrow> None | b # bs \<Rightarrow> Some (b, bs))"

definition uint16_be :: "byte \<Rightarrow> byte \<Rightarrow> u16" where
  "uint16_be a b = ucast b OR push_bit 8 (ucast a)"

definition read_u16 :: "bytes \<Rightarrow> (u16 \<times> bytes) option" where
  "read_u16 rest = (case rest of a # b # bs \<Rightarrow> Some (uint16_be a b, bs) | _ \<Rightarrow> None)"

definition read_take :: "nat \<Rightarrow> bytes \<Rightarrow> (bytes \<times> bytes) option" where
  "read_take n rest = (if length rest < n then None else Some (take n rest, drop n rest))"

definition uint64_be :: "bytes \<Rightarrow> u64" where
  "uint64_be b =
     ucast (b ! 7) OR push_bit 8 (ucast (b ! 6)) OR push_bit 16 (ucast (b ! 5))
     OR push_bit 24 (ucast (b ! 4)) OR push_bit 32 (ucast (b ! 3)) OR push_bit 40 (ucast (b ! 2))
     OR push_bit 48 (ucast (b ! 1)) OR push_bit 56 (ucast (b ! 0))"

text \<open>One turn of the loop in \<open>list\<close>, and the loop over \<open>count\<close> entries.\<close>

definition read_entry :: "bytes \<Rightarrow> (string \<times> bytes) option" where
  "read_entry rest =
     (case read_u16 rest of
        None \<Rightarrow> None
      | Some (n, rest) \<Rightarrow>
          if unat n > maxEntryBytes then None
          else (case read_take (unat n) rest of
                  None \<Rightarrow> None
                | Some (entry, rest) \<Rightarrow> Some (string_of_bytes entry, rest)))"

fun read_entries :: "nat \<Rightarrow> bytes \<Rightarrow> (string list \<times> bytes) option" where
  "read_entries 0 rest = Some ([], rest)"
| "read_entries (Suc k) rest =
     (case read_entry rest of
        None \<Rightarrow> None
      | Some (entry, rest) \<Rightarrow>
          (case read_entries k rest of
             None \<Rightarrow> None
           | Some (entries, rest) \<Rightarrow> Some (entry # entries, rest)))"

definition read_list :: "bytes \<Rightarrow> (string list \<times> bytes) option" where
  "read_list rest =
     (case read_u16 rest of
        None \<Rightarrow> None
      | Some (count, rest) \<Rightarrow>
          if unat count > maxEntries then None
          else if count = 0 then Some ([], rest)
          else read_entries (unat count) rest)"

definition read_parent :: "bytes \<Rightarrow> (bytes option \<times> bytes) option" where
  "read_parent rest =
     (case read_u8 rest of
        None \<Rightarrow> None
      | Some (kind, rest) \<Rightarrow>
          if kind = 0x00 then Some (None, rest)
          else if kind = 0x01 then
            (case read_take 32 rest of None \<Rightarrow> None | Some (p, rest) \<Rightarrow> Some (Some p, rest))
          else None)"

definition read_validity :: "bytes \<Rightarrow> (validity \<times> bytes) option" where
  "read_validity rest =
     (case read_u8 rest of
        None \<Rightarrow> None
      | Some (kind, rest) \<Rightarrow>
          if kind = 0x00 then Some (\<lparr>Finite = False, ExpiresAt = 0\<rparr>, rest)
          else if kind = 0x01 then
            (case read_take 8 rest of
               None \<Rightarrow> None
             | Some (e, rest) \<Rightarrow> Some (\<lparr>Finite = True, ExpiresAt = uint64_be e\<rparr>, rest))
          else None)"

definition read_domain :: "bytes \<Rightarrow> (string \<times> bytes) option" where
  "read_domain rest =
     (case read_u8 rest of
        None \<Rightarrow> None
      | Some (n, rest) \<Rightarrow>
          (case read_take (unat n) rest of
             None \<Rightarrow> None
           | Some (d, rest) \<Rightarrow> Some (string_of_bytes d, rest)))"

definition read_grant :: "bytes \<Rightarrow> (grant \<times> bytes) option" where
  "read_grant rest =
     (case read_domain rest of None \<Rightarrow> None | Some (domain, rest) \<Rightarrow>
     (case read_take 32 rest of None \<Rightarrow> None | Some (subject, rest) \<Rightarrow>
     (case read_parent rest of None \<Rightarrow> None | Some (parent, rest) \<Rightarrow>
     (case read_list rest of None \<Rightarrow> None | Some (scope, rest) \<Rightarrow>
     (case read_list rest of None \<Rightarrow> None | Some (actions, rest) \<Rightarrow>
     (case read_list rest of None \<Rightarrow> None | Some (delegable, rest) \<Rightarrow>
     (case read_u8 rest of None \<Rightarrow> None | Some (depth, rest) \<Rightarrow>
     (case read_validity rest of None \<Rightarrow> None | Some (validity, rest) \<Rightarrow>
        Some (\<lparr>gDomain = domain, gSubject = subject, gParent = parent, gScope = scope,
               gActions = actions, gDelegable = delegable, gDepth = depth,
               gValidity = validity\<rparr>, rest)))))))))"

definition Decode :: "bytes \<Rightarrow> code + grant" where
  "Decode body =
     (case body of
        [] \<Rightarrow> Inl Malformed
      | first # rest \<Rightarrow>
          if first \<noteq> version then Inl UnsupportedVersion
          else if length body > maxBodyBytes then Inl Malformed
          else (case read_grant rest of
                  None \<Rightarrow> Inl Malformed
                | Some (g, left) \<Rightarrow>
                    if left \<noteq> [] then Inl Malformed
                    else if check g \<noteq> None then Inl Malformed
                    else Inr g))"

section \<open>Lists and texts: what the rules mean\<close>

definition text_ok :: "string \<Rightarrow> nat \<Rightarrow> bool" where
  "text_ok s mx \<longleftrightarrow> 0 < length s \<and> length s \<le> mx \<and> valid_utf8 s \<and>
     (\<forall>r \<in> set (runes s). 0x20 \<le> r \<and> r \<noteq> 0x7f)"

lemma text_rule_None [result_simps]: "text_rule s mx = None \<longleftrightarrow> text_ok s mx"
  by (auto simp: text_rule_def text_ok_def find_None_iff not_less)

lemma text_ok_no_control:
  assumes "text_ok s mx" and "c \<in> set s"
  shows "0x20 \<le> (of_char c :: nat) \<and> of_char c \<noteq> (0x7f :: nat)"
proof (cases "of_char c < (0x80 :: nat)")
  case True
  then have "int (of_char c) \<in> set (runes s)"
    using assms by (auto simp: text_ok_def intro: valid_utf8_ascii_rune)
  then have "0x20 \<le> int (of_char c) \<and> int (of_char c) \<noteq> 0x7f"
    using assms(1) by (auto simp: text_ok_def)
  then show ?thesis by linarith
qed simp

definition list_ok :: "string list \<Rightarrow> bool" where
  "list_ok xs \<longleftrightarrow> length xs \<le> maxEntries \<and> (\<forall>x \<in> set xs. text_ok x maxEntryBytes) \<and>
     sorted_wrt (<) xs"

lemma checkList_from_None:
  "checkList_from i prev xs = None \<longleftrightarrow>
     (\<forall>x \<in> set xs. text_ok x maxEntryBytes) \<and>
     sorted_wrt (<) (case prev of None \<Rightarrow> xs | Some p \<Rightarrow> p # xs)"
proof (induction i prev xs rule: checkList_from.induct)
  case (1 i prev)
  then show ?case by (simp split: option.split)
next
  case (2 i prev entry rest)
  then show ?case
    by (cases "text_rule entry maxEntryBytes"; cases prev)
      (auto simp: result_simps not_le dest: order.strict_trans
        simp flip: text_rule_None)
qed

lemma checkList_None [result_simps]: "checkList xs = None \<longleftrightarrow> list_ok xs"
  by (auto simp: checkList_def list_ok_def checkList_from_None)

lemma dropWhile_less_sorted:
  fixes outer :: "string list"
  assumes "sorted_wrt (<) outer"
  shows "set (dropWhile (\<lambda>o'. o' < entry) outer) = {o' \<in> set outer. entry \<le> o'}"
  using assms by (induction outer) (auto simp: not_less dest: order.strict_trans1)

lemma subset_iff_set:
  "sorted_wrt (<) inner \<Longrightarrow> sorted_wrt (<) outer \<Longrightarrow>
   subset inner outer \<longleftrightarrow> set inner \<subseteq> set outer"
proof (induction inner outer rule: subset.induct)
  case (1 outer)
  then show ?case by simp
next
  case (2 entry inner outer)
  define rest where "rest = dropWhile (\<lambda>o'. o' < entry) outer"
  have set_rest: "set rest = {o' \<in> set outer. entry \<le> o'}"
    using dropWhile_less_sorted [OF "2.prems"(2)] by (simp add: rest_def)
  have sorted_rest: "sorted_wrt (<) rest"
    using "2.prems"(2) by (simp add: rest_def sorted_wrt_dropWhile)
  have inner: "set inner \<subseteq> set outer \<longleftrightarrow> set inner \<subseteq> set rest"
    using "2.prems"(1) by (auto simp: set_rest)
  have hd: "entry \<in> set outer \<longleftrightarrow> rest \<noteq> [] \<and> hd rest = entry"
  proof
    assume "entry \<in> set outer"
    then have e: "entry \<in> set rest" by (simp add: set_rest)
    then obtain r rs where r: "rest = r # rs" by (cases rest) auto
    have "entry \<le> r" using set_rest r by auto
    moreover have "r \<le> entry" using e r sorted_rest by auto
    ultimately show "rest \<noteq> [] \<and> hd rest = entry" by (simp add: r)
  next
    assume "rest \<noteq> [] \<and> hd rest = entry"
    then have "entry \<in> set rest" by (cases rest) auto
    then show "entry \<in> set outer" by (simp add: set_rest)
  qed
  show ?case
  proof (cases "entry \<in> set outer")
    case True
    then have "subset inner rest \<longleftrightarrow> set inner \<subseteq> set rest"
      using "2.IH" [OF rest_def] "2.prems" hd sorted_rest by simp
    then show ?thesis using True hd inner by (simp flip: rest_def)
  next
    case False
    then show ?thesis using hd by (auto simp flip: rest_def)
  qed
qed

lemma contains_iff_set: "sorted_wrt (<) xs \<Longrightarrow> contains xs x \<longleftrightarrow> x \<in> set xs"
  by (induction xs) auto

text \<open>The path order: an entry covers itself and everything under it.\<close>

definition covers :: "string \<Rightarrow> string \<Rightarrow> bool" where
  "covers entry scope \<longleftrightarrow> scope = entry \<or> prefix (entry @ ''/'') scope"

lemma under_iff_prefix:
  "length scope > length entry \<and> take (length entry) scope = entry
     \<and> scope ! length entry = CHR ''/'' \<longleftrightarrow> prefix (entry @ ''/'') scope"
proof
  assume a: "length scope > length entry \<and> take (length entry) scope = entry
     \<and> scope ! length entry = CHR ''/''"
  then have "scope = entry @ CHR ''/'' # drop (Suc (length entry)) scope"
    by (metis id_take_nth_drop)
  then show "prefix (entry @ ''/'') scope"
    by (metis append.assoc append_Cons append_Nil prefixI)
next
  assume "prefix (entry @ ''/'') scope"
  then show "length scope > length entry \<and> take (length entry) scope = entry
     \<and> scope ! length entry = CHR ''/''"
    by (auto simp: prefix_def)
qed

lemma covered_iff: "covered scope entries \<longleftrightarrow> (\<exists>e \<in> set entries. covers e scope)"
  by (induction entries) (auto simp: covers_def under_iff_prefix simp del: not_less)

lemma allCovered_iff:
  "allCovered inner outer \<longleftrightarrow> (\<forall>s \<in> set inner. \<exists>e \<in> set outer. covers e s)"
  by (induction inner) (auto simp: covered_iff)

lemma covers_refl: "covers e e"
  by (simp add: covers_def)

lemma covers_trans: "covers a b \<Longrightarrow> covers b c \<Longrightarrow> covers a c"
  by (auto simp: covers_def prefix_def)

definition grant_ok :: "grant \<Rightarrow> bool" where
  "grant_ok g \<longleftrightarrow> text_ok (gDomain g) maxDomainBytes \<and> list_ok (gScope g) \<and>
     list_ok (gActions g) \<and> list_ok (gDelegable g) \<and> set (gDelegable g) \<subseteq> set (gActions g) \<and>
     unat (gDepth g) \<le> maxDepth \<and> (Finite (gValidity g) \<or> ExpiresAt (gValidity g) = 0)"

lemma check_None [result_simps]: "check g = None \<longleftrightarrow> grant_ok g"
proof -
  have "list_ok xs \<Longrightarrow> sorted_wrt (<) xs" for xs by (simp add: list_ok_def)
  then show ?thesis
    using subset_iff_set [of "gDelegable g" "gActions g"]
    by (auto simp: check_def grant_ok_def result_simps not_less split: option.split
        simp flip: text_rule_None checkList_None)
qed

section \<open>The fields of the encoding as prefix codecs\<close>

definition enc_u8 :: "byte \<Rightarrow> bytes" where "enc_u8 b = [b]"

definition enc_domain :: "string \<Rightarrow> bytes" where
  "enc_domain d = word_of_nat (length d) # bytes_of_string d"

definition enc_parent :: "bytes option \<Rightarrow> bytes" where
  "enc_parent p = (case p of None \<Rightarrow> [0x00] | Some k \<Rightarrow> 0x01 # k)"

definition enc_entry :: "string \<Rightarrow> bytes" where
  "enc_entry e = be16 (word_of_nat (length e)) @ bytes_of_string e"

definition enc_list :: "string list \<Rightarrow> bytes" where
  "enc_list es = be16 (word_of_nat (length es)) @ concat (map enc_entry es)"

definition enc_validity :: "validity \<Rightarrow> bytes" where
  "enc_validity v = (if Finite v then 0x01 # be64 (ExpiresAt v) else [0x00])"

definition enc_grant :: "grant \<Rightarrow> bytes" where
  "enc_grant g = enc_domain (gDomain g) @ gSubject g @ enc_parent (gParent g) @
     enc_list (gScope g) @ enc_list (gActions g) @ enc_list (gDelegable g) @
     enc_u8 (gDepth g) @ enc_validity (gValidity g)"

definition key_ok :: "bytes \<Rightarrow> bool" where "key_ok k \<longleftrightarrow> length k = 32"

definition parent_ok :: "bytes option \<Rightarrow> bool" where
  "parent_ok p \<longleftrightarrow> (\<forall>k. p = Some k \<longrightarrow> key_ok k)"

definition entry_ok :: "string \<Rightarrow> bool" where "entry_ok e \<longleftrightarrow> length e \<le> maxEntryBytes"

definition entries_ok :: "string list \<Rightarrow> bool" where
  "entries_ok es \<longleftrightarrow> length es \<le> maxEntries \<and> (\<forall>e \<in> set es. entry_ok e)"

definition domain_ok :: "string \<Rightarrow> bool" where "domain_ok d \<longleftrightarrow> length d \<le> maxDomainBytes"

definition validity_ok :: "validity \<Rightarrow> bool" where
  "validity_ok v \<longleftrightarrow> Finite v \<or> ExpiresAt v = 0"

definition fields_ok :: "grant \<Rightarrow> bool" where
  "fields_ok g \<longleftrightarrow> domain_ok (gDomain g) \<and> key_ok (gSubject g) \<and> parent_ok (gParent g) \<and>
     entries_ok (gScope g) \<and> entries_ok (gActions g) \<and> entries_ok (gDelegable g) \<and>
     validity_ok (gValidity g)"

lemma length_be16 [simp]: "length (be16 n) = 2"
  by (simp add: be16_def)

lemma length_be64 [simp]: "length (be64 n) = 8"
  by (simp add: be64_def)

lemma bit_byte_high [simp]: "8 \<le> n \<Longrightarrow> \<not> bit (b :: byte) n"
  by (auto dest: bit_imp_le_length)

lemma uint16_be16 [simp]: "uint16_be (ucast (drop_bit 8 n)) (ucast n) = n"
  unfolding uint16_be_def by (rule bit_word_eqI) (auto simp: bit_simps)

lemma be16_uint16 [simp]: "be16 (uint16_be a b) = [a, b]"
  unfolding uint16_be_def be16_def by (auto intro!: bit_word_eqI simp: bit_simps)

lemma uint64_be64 [simp]: "uint64_be (be64 n) = n"
proof (rule bit_word_eqI)
  fix i
  assume i: "i < LENGTH(64)"
  then consider "i < 8" | "8 \<le> i" "i < 16" | "16 \<le> i" "i < 24" | "24 \<le> i" "i < 32"
    | "32 \<le> i" "i < 40" | "40 \<le> i" "i < 48" | "48 \<le> i" "i < 56" | "56 \<le> i" "i < 64"
    by (simp, linarith)
  then show "bit (uint64_be (be64 n)) i = bit n i"
    by cases (simp_all add: uint64_be_def be64_def bit_simps less_diff_conv2)
qed

lemma length_8_eq:
  "length b = 8 \<Longrightarrow> b = [b ! 0, b ! 1, b ! 2, b ! 3, b ! 4, b ! 5, b ! 6, b ! 7]"
  by (auto simp: list_eq_iff_nth_eq nth_Cons' less_Suc_eq numeral_eq_Suc)

lemma uint64_byte:
  assumes "w = uint64_be b"
  shows "ucast (drop_bit 56 w) = b ! 0" and "ucast (drop_bit 48 w) = b ! 1"
    and "ucast (drop_bit 40 w) = b ! 2" and "ucast (drop_bit 32 w) = b ! 3"
    and "ucast (drop_bit 24 w) = b ! 4" and "ucast (drop_bit 16 w) = b ! 5"
    and "ucast (drop_bit 8 w) = b ! 6" and "ucast w = b ! 7"
  unfolding assms uint64_be_def
  by (rule bit_word_eqI; auto simp: bit_simps)+

lemma be64_uint64: "length b = 8 \<Longrightarrow> be64 (uint64_be b) = b"
  by (subst (2) length_8_eq, assumption) (simp only: be64_def uint64_byte [OF refl])

interpretation u8: prefix_codec enc_u8 read_u8 "\<lambda>_. True"
  by unfold_locales (auto simp: enc_u8_def read_u8_def split: list.splits)

interpretation u16: prefix_codec be16 read_u16 "\<lambda>_. True"
proof unfold_locales
  fix b x r
  assume "read_u16 b = Some (x, r)"
  then show "True \<and> b = be16 x @ r"
    by (auto simp: read_u16_def split: list.splits)
qed (auto simp: read_u16_def be16_def)

interpretation key: prefix_codec "\<lambda>k. k" "read_take 32" key_ok
  by unfold_locales (auto simp: read_take_def key_ok_def split: if_splits)

interpretation dom: prefix_codec enc_domain read_domain domain_ok
proof unfold_locales
  fix x r
  assume "domain_ok x"
  then show "read_domain (enc_domain x @ r) = Some (x, r)"
    by (simp add: read_domain_def enc_domain_def domain_ok_def read_u8_def read_take_def
        unat_of_nat grant_bounds)
next
  fix b x r
  assume "read_domain b = Some (x, r)"
  then obtain n rest where b: "b = n # rest" "unat n \<le> length rest"
    "x = string_of_bytes (take (unat n) rest)" "r = drop (unat n) rest"
    by (auto simp: read_domain_def read_u8_def read_take_def split: list.splits if_splits)
  moreover have "unat n \<le> 255"
    using unsigned_less [of n, where ?'a = nat] by simp
  ultimately show "domain_ok x \<and> b = enc_domain x @ r"
    by (simp add: domain_ok_def enc_domain_def grant_bounds)
qed

interpretation par: prefix_codec enc_parent read_parent parent_ok
proof unfold_locales
  fix x r
  assume "parent_ok x"
  then show "read_parent (enc_parent x @ r) = Some (x, r)"
    by (cases x) (auto simp: enc_parent_def read_parent_def read_u8_def parent_ok_def key.dec_enc)
next
  fix b x r
  assume "read_parent b = Some (x, r)"
  then show "parent_ok x \<and> b = enc_parent x @ r"
    by (auto simp: read_parent_def read_u8_def enc_parent_def parent_ok_def key.dec_iff
        split: list.splits if_splits option.splits)
qed

interpretation entry: prefix_codec enc_entry read_entry entry_ok
proof unfold_locales
  fix x r
  assume "entry_ok x"
  then show "read_entry (enc_entry x @ r) = Some (x, r)"
    by (simp add: enc_entry_def read_entry_def u16.dec_enc entry_ok_def read_take_def
        unat_of_nat grant_bounds)
next
  fix b x r
  assume "read_entry b = Some (x, r)"
  then show "entry_ok x \<and> b = enc_entry x @ r"
    by (auto simp: read_entry_def u16.dec_iff read_take_def enc_entry_def entry_ok_def
        split: option.splits if_splits)
qed

lemma read_entries_read_n: "read_entries k b = read_n read_entry k b"
  by (induction k arbitrary: b) (auto split: option.splits)

interpretation entries: prefix_codec enc_list read_list entries_ok
proof unfold_locales
  fix x r
  assume ok: "entries_ok x"
  then have n: "unat (word_of_nat (length x) :: u16) = length x"
    by (simp add: entries_ok_def unat_of_nat grant_bounds)
  then have "word_of_nat (length x) = (0 :: u16) \<Longrightarrow> x = []"
    by (metis length_0_conv unat_0)
  moreover have "read_n read_entry (length x) (concat (map enc_entry x) @ r) = Some (x, r)"
    using ok by (simp add: entry.read_n_iff entries_ok_def)
  ultimately show "read_list (enc_list x @ r) = Some (x, r)"
    using ok by (auto simp: enc_list_def read_list_def u16.dec_enc n read_entries_read_n entries_ok_def)
next
  fix b x r
  assume "read_list b = Some (x, r)"
  then obtain n rest where b: "b = be16 n @ rest" "unat n \<le> maxEntries"
    "n = 0 \<and> x = [] \<and> r = rest \<or> read_n read_entry (unat n) rest = Some (x, r)"
    by (auto simp: read_list_def u16.dec_iff read_entries_read_n split: option.splits if_splits)
  then have "length x = unat n \<and> (\<forall>e \<in> set x. entry_ok e) \<and> rest = concat (map enc_entry x) @ r"
    by (auto simp: entry.read_n_iff)
  then show "entries_ok x \<and> b = enc_list x @ r"
    using b(1,2) by (simp add: entries_ok_def enc_list_def)
qed

interpretation val: prefix_codec enc_validity read_validity validity_ok
proof unfold_locales
  fix x :: validity and r
  assume "validity_ok x"
  then show "read_validity (enc_validity x @ r) = Some (x, r)"
    by (cases x) (auto simp: enc_validity_def read_validity_def read_u8_def read_take_def
        validity_ok_def)
next
  fix b x r
  assume "read_validity b = Some (x, r)"
  then show "validity_ok x \<and> b = enc_validity x @ r"
    by (auto simp: read_validity_def read_u8_def read_take_def enc_validity_def validity_ok_def
        be64_uint64 split: list.splits if_splits option.splits)
qed

interpretation whole: prefix_codec enc_grant read_grant fields_ok
proof unfold_locales
  fix x r
  assume "fields_ok x"
  then show "read_grant (enc_grant x @ r) = Some (x, r)"
    by (simp add: read_grant_def enc_grant_def fields_ok_def dom.dec_enc key.dec_enc par.dec_enc
        entries.dec_enc u8.dec_enc val.dec_enc)
next
  fix b x r
  assume "read_grant b = Some (x, r)"
  then show "fields_ok x \<and> b = enc_grant x @ r"
    by (auto simp: read_grant_def enc_grant_def fields_ok_def dom.dec_iff key.dec_iff par.dec_iff
        entries.dec_iff u8.dec_iff val.dec_iff split: option.splits)
qed

section \<open>Encode and Decode\<close>

definition wf_grant :: "grant \<Rightarrow> bool" where
  "wf_grant g \<longleftrightarrow> key_ok (gSubject g) \<and> parent_ok (gParent g)"

lemma appendEntries_eq: "appendEntries body es = body @ concat (map enc_entry es)"
  by (induction body es rule: appendEntries.induct) (auto simp: enc_entry_def)

lemma encode_body_eq: "encode_body g = version # enc_grant g"
  by (simp add: encode_body_def Let_def appendList_def appendEntries_eq enc_grant_def
      enc_domain_def enc_parent_def enc_list_def enc_u8_def enc_validity_def split: option.split)

lemma grant_ok_fields: "grant_ok g \<Longrightarrow> wf_grant g \<Longrightarrow> fields_ok g"
  by (auto simp: grant_ok_def wf_grant_def fields_ok_def domain_ok_def validity_ok_def
      entries_ok_def entry_ok_def list_ok_def text_ok_def)

lemma fields_wf: "fields_ok g \<Longrightarrow> wf_grant g"
  by (simp add: fields_ok_def wf_grant_def)

lemma Encode_Inr_iff:
  "Encode g = Inr body \<longleftrightarrow>
     grant_ok g \<and> body = version # enc_grant g \<and> length body \<le> maxBodyBytes"
  by (auto simp: Encode_def encode_body_eq Let_def result_simps split: option.splits
      simp flip: check_None)

lemma Decode_Inr_iff:
  "Decode body = Inr g \<longleftrightarrow>
     grant_ok g \<and> wf_grant g \<and> body = version # enc_grant g \<and> length body \<le> maxBodyBytes"
proof
  assume "Decode body = Inr g"
  then show "grant_ok g \<and> wf_grant g \<and> body = version # enc_grant g \<and> length body \<le> maxBodyBytes"
    by (auto simp: Decode_def whole.dec_iff result_simps dest: fields_wf
        split: list.splits if_splits option.splits)
next
  assume "grant_ok g \<and> wf_grant g \<and> body = version # enc_grant g \<and> length body \<le> maxBodyBytes"
  then show "Decode body = Inr g"
    by (auto simp: Decode_def whole.dec_whole grant_ok_fields result_simps not_less)
qed

end
