(* ===== verification/Grant_Chain.thy ===== *)
theory Grant_Chain
  imports Grant_Body
begin

text \<open>
  \<open>auth/go/grant/chain.go\<close> and \<open>envelope.go\<close>: opening and sealing envelopes, the
  evaluation of a chain (\<open>Inspect\<close>, \<open>Verify\<close>), attenuation, and issuance
  (\<open>Issue\<close>).  The envelope package and the key functions are the archon library's and
  SHA-256 is a cryptographic primitive; they are the record \<open>envelope_lib\<close>, an argument
  of every definition that uses them.
\<close>

section \<open>Data\<close>

record envelope_lib =
  env_seal :: "bytes \<Rightarrow> string \<Rightarrow> bytes \<Rightarrow> bytes option"
  env_open :: "bytes \<Rightarrow> string \<Rightarrow> (bytes \<times> bytes) option"
  publicKeyFromSeed :: "bytes \<Rightarrow> bytes"
  seedSize :: nat
  sum256 :: "bytes \<Rightarrow> bytes"

record root =
  rootKey :: bytes
  rootDomain :: string

record request =
  reqDomain :: string
  reqAction :: string
  reqScope :: string

record decision_time =
  Present :: bool
  Now :: u64

record verified =
  vSubject :: bytes
  vDepth :: byte
  vValidity :: validity
  vHops :: nat

record refusal =
  rCode :: code
  rHop :: nat

definition grant_domain :: string where
  "grant_domain = ''nightseam-grant/1''"

datatype seal_error = EncodeFailed check_error | EnvelopeFailed

section \<open>Envelopes\<close>

definition Seal :: "envelope_lib \<Rightarrow> bytes \<Rightarrow> grant \<Rightarrow> seal_error + bytes" where
  "Seal lib issuerSeed g =
     (case Encode g of
        Inl e \<Rightarrow> Inl (EncodeFailed e)
      | Inr body \<Rightarrow>
          (case env_seal lib issuerSeed grant_domain body of
             None \<Rightarrow> Inl EnvelopeFailed
           | Some env \<Rightarrow> Inr env))"

definition Open :: "envelope_lib \<Rightarrow> bytes \<Rightarrow> code + (bytes \<times> grant)" where
  "Open lib env =
     (case env_open lib env grant_domain of
        None \<Rightarrow> Inl EnvelopeInvalid
      | Some (pubkey, payload) \<Rightarrow>
          if length pubkey \<noteq> 32 then Inl EnvelopeInvalid
          else (case Decode payload of Inl c \<Rightarrow> Inl c | Inr g \<Rightarrow> Inr (pubkey, g)))"

text \<open>\<open>copy\<close> into a fixed array of 32 bytes.\<close>

definition fit32 :: "bytes \<Rightarrow> bytes" where
  "fit32 bs = take 32 (bs @ replicate 32 0)"

definition Digest :: "envelope_lib \<Rightarrow> bytes \<Rightarrow> bytes" where
  "Digest lib env = sum256 lib env"

section \<open>Evaluation\<close>

definition attenuated :: "grant \<Rightarrow> grant \<Rightarrow> code option" where
  "attenuated child parent =
     (if gDepth parent = 0 \<or> gDepth child \<ge> gDepth parent then Some WidenedDepth
      else if \<not> subset (gActions child) (gDelegable parent) then Some WidenedActions
      else if \<not> allCovered (gScope child) (gScope parent) then Some WidenedScope
      else if Finite (gValidity parent) \<and>
              (\<not> Finite (gValidity child) \<or>
               ExpiresAt (gValidity child) > ExpiresAt (gValidity parent))
      then Some WidenedValidity
      else None)"

text \<open>The ancestry of the grant at \<open>hop\<close>, over the grants decoded so far.\<close>

definition ancestry ::
  "envelope_lib \<Rightarrow> root \<Rightarrow> bytes list \<Rightarrow> grant list \<Rightarrow> nat \<Rightarrow> bytes \<Rightarrow> grant \<Rightarrow> code option" where
  "ancestry lib root chain grants hop issuer g =
     (if hop = 0 then
        (if gParent g \<noteq> None then Some ParentMismatch
         else if issuer \<noteq> rootKey root then Some RootMismatch
         else None)
      else
        (let previous = grants ! (hop - 1) in
         if gParent g = None \<or> the (gParent g) \<noteq> Digest lib (chain ! (hop - 1))
         then Some ParentMismatch
         else if issuer \<noteq> gSubject previous then Some IssuerMismatch
         else None))"

definition evaluate_hop ::
  "envelope_lib \<Rightarrow> root \<Rightarrow> bytes list \<Rightarrow> grant list \<Rightarrow> nat \<Rightarrow> bytes \<Rightarrow> code + grant" where
  "evaluate_hop lib root chain grants hop env =
     (case Open lib env of
        Inl c \<Rightarrow> Inl c
      | Inr (issuer, g) \<Rightarrow>
          (case ancestry lib root chain grants hop issuer g of
             Some c \<Rightarrow> Inl c
           | None \<Rightarrow>
               if gDomain g \<noteq> rootDomain root then Inl DomainMismatch
               else if hop > 0 then
                 (case attenuated g (grants ! (hop - 1)) of Some c \<Rightarrow> Inl c | None \<Rightarrow> Inr g)
               else Inr g))"

fun evaluate_hops ::
  "envelope_lib \<Rightarrow> root \<Rightarrow> bytes list \<Rightarrow> grant list \<Rightarrow> nat \<Rightarrow> bytes list \<Rightarrow> refusal + grant list" where
  "evaluate_hops lib root chain grants hop [] = Inr grants"
| "evaluate_hops lib root chain grants hop (env # rest) =
     (case evaluate_hop lib root chain grants hop env of
        Inl c \<Rightarrow> Inl \<lparr>rCode = c, rHop = hop\<rparr>
      | Inr g \<Rightarrow> evaluate_hops lib root chain (grants @ [g]) (Suc hop) rest)"

fun coverage :: "nat \<Rightarrow> nat \<Rightarrow> request \<Rightarrow> grant list \<Rightarrow> refusal option" where
  "coverage n hop request [] = None"
| "coverage n hop request (g # gs) =
     (if \<not> contains (gActions g) (reqAction request) \<or> \<not> covered (reqScope request) (gScope g)
      then Some \<lparr>rCode = NotCovered, rHop = hop\<rparr>
      else if hop < n - 1 \<and> \<not> contains (gDelegable g) (reqAction request)
      then Some \<lparr>rCode = NotCovered, rHop = hop\<rparr>
      else coverage n (Suc hop) request gs)"

fun timeliness :: "decision_time \<Rightarrow> nat \<Rightarrow> validity \<Rightarrow> grant list \<Rightarrow> refusal + validity" where
  "timeliness now hop validity [] = Inr validity"
| "timeliness now hop validity (g # gs) =
     (if \<not> Finite (gValidity g) then timeliness now (Suc hop) validity gs
      else if \<not> Present now then Inl \<lparr>rCode = TimeRequired, rHop = hop\<rparr>
      else if Now now \<ge> ExpiresAt (gValidity g) then Inl \<lparr>rCode = Expired, rHop = hop\<rparr>
      else timeliness now (Suc hop)
             (if \<not> Finite validity \<or> ExpiresAt (gValidity g) < ExpiresAt validity
              then gValidity g else validity) gs)"

definition unbounded :: validity where
  "unbounded = \<lparr>Finite = False, ExpiresAt = 0\<rparr>"

definition evaluate ::
  "envelope_lib \<Rightarrow> root \<Rightarrow> bytes list \<Rightarrow> request option \<Rightarrow> decision_time \<Rightarrow>
     refusal + (verified \<times> grant list)" where
  "evaluate lib root chain request now =
     (if length chain = 0 then Inl \<lparr>rCode = Malformed, rHop = 0\<rparr>
      else if length chain > maxChain then Inl \<lparr>rCode = ChainTooLong, rHop = 0\<rparr>
      else (case evaluate_hops lib root chain [] 0 chain of
        Inl r \<Rightarrow> Inl r
      | Inr grants \<Rightarrow>
          (case (case request of
                   None \<Rightarrow> None
                 | Some rq \<Rightarrow>
                     if reqDomain rq \<noteq> rootDomain root
                     then Some \<lparr>rCode = DomainMismatch, rHop = 0\<rparr>
                     else coverage (length grants) 0 rq grants) of
             Some r \<Rightarrow> Inl r
           | None \<Rightarrow>
               (case timeliness now 0 unbounded grants of
                  Inl r \<Rightarrow> Inl r
                | Inr validity \<Rightarrow>
                    let leaf = grants ! (length grants - 1)
                    in Inr (\<lparr>vSubject = gSubject leaf, vDepth = gDepth leaf,
                             vValidity = validity, vHops = length grants\<rparr>, grants)))))"

definition Inspect :: "envelope_lib \<Rightarrow> root \<Rightarrow> bytes list \<Rightarrow> decision_time \<Rightarrow> refusal + verified" where
  "Inspect lib root chain now =
     (case evaluate lib root chain None now of Inl r \<Rightarrow> Inl r | Inr (v, _) \<Rightarrow> Inr v)"

definition Verify ::
  "envelope_lib \<Rightarrow> root \<Rightarrow> bytes list \<Rightarrow> request \<Rightarrow> decision_time \<Rightarrow> refusal + verified" where
  "Verify lib root chain request now =
     (case evaluate lib root chain (Some request) now of Inl r \<Rightarrow> Inl r | Inr (v, _) \<Rightarrow> Inr v)"

section \<open>Issuance\<close>

text \<open>
  The steps of \<open>Issue\<close> after the issuer's own chain has been evaluated: \<open>leaf\<close> is
  \<open>None\<close> for a root grant.
\<close>

definition issue_child ::
  "envelope_lib \<Rightarrow> root \<Rightarrow> bytes list \<Rightarrow> grant option \<Rightarrow> bytes \<Rightarrow> grant \<Rightarrow> bool \<Rightarrow> code + grant" where
  "issue_child lib root parents leaf issuerSeed child inherit =
     (case (case leaf of
              None \<Rightarrow> if inherit then None else Some child
            | Some l \<Rightarrow> Some (if inherit then child\<lparr>gValidity := gValidity l\<rparr> else child)) of
        None \<Rightarrow> Inl Malformed
      | Some child \<Rightarrow>
     (case (case leaf of
              None \<Rightarrow> if gParent child \<noteq> None then None else Some child
            | Some _ \<Rightarrow>
                let digest = Digest lib (parents ! (length parents - 1))
                in if gParent child \<noteq> None \<and> the (gParent child) \<noteq> digest then None
                   else Some (child\<lparr>gParent := Some digest\<rparr>)) of
        None \<Rightarrow> Inl ParentMismatch
      | Some child \<Rightarrow>
     (case Encode child of
        Inl _ \<Rightarrow> Inl Malformed
      | Inr _ \<Rightarrow>
     (let issuer = (if length issuerSeed = seedSize lib
                    then fit32 (publicKeyFromSeed lib issuerSeed) else replicate 32 0) in
      case (case leaf of
              None \<Rightarrow> if length issuerSeed \<noteq> seedSize lib \<or> issuer \<noteq> rootKey root
                      then Some RootMismatch else None
            | Some l \<Rightarrow> if length issuerSeed \<noteq> seedSize lib \<or> issuer \<noteq> gSubject l
                        then Some IssuerMismatch else None) of
        Some c \<Rightarrow> Inl c
      | None \<Rightarrow>
          if gDomain child \<noteq> rootDomain root then Inl DomainMismatch
          else (case (case leaf of None \<Rightarrow> None | Some l \<Rightarrow> attenuated child l) of
                  Some c \<Rightarrow> Inl c
                | None \<Rightarrow> Inr child)))))"

definition Issue ::
  "envelope_lib \<Rightarrow> root \<Rightarrow> bytes list \<Rightarrow> bytes \<Rightarrow> grant \<Rightarrow> bool \<Rightarrow> decision_time \<Rightarrow> refusal + bytes" where
  "Issue lib root parents issuerSeed child inherit now =
     (let hop = length parents in
      case (if hop > 0
            then (case evaluate lib root parents None now of
                    Inl r \<Rightarrow> Inl r
                  | Inr (_, grants) \<Rightarrow> Inr (Some (grants ! (hop - 1))))
            else Inr None) of
        Inl r \<Rightarrow> Inl r
      | Inr leaf \<Rightarrow>
          (case issue_child lib root parents leaf issuerSeed child inherit of
             Inl c \<Rightarrow> Inl \<lparr>rCode = c, rHop = hop\<rparr>
           | Inr child \<Rightarrow>
               (case Seal lib issuerSeed child of
                  Inl _ \<Rightarrow> Inl \<lparr>rCode = Malformed, rHop = hop\<rparr>
                | Inr sealed \<Rightarrow> Inr sealed)))"

section \<open>Attenuation as an order on authority\<close>

text \<open>
  The interface of attenuation: a relation that composes along well-formed grants and in
  which every step uses up rank.  Its consequences for a whole chain are proved once here.
\<close>

locale authority =
  fixes ok :: "'g \<Rightarrow> bool"
    and narrow :: "'g \<Rightarrow> 'g \<Rightarrow> bool"
    and rank :: "'g \<Rightarrow> nat"
  assumes narrow_trans: "ok b \<Longrightarrow> narrow a b \<Longrightarrow> narrow b c \<Longrightarrow> narrow a c"
    and narrow_rank: "narrow a b \<Longrightarrow> rank a < rank b"
begin

lemma chain_narrow:
  assumes "\<forall>g \<in> set gs. ok g" and "\<forall>i. Suc i < length gs \<longrightarrow> narrow (gs ! Suc i) (gs ! i)"
  shows "i < j \<Longrightarrow> j < length gs \<Longrightarrow> narrow (gs ! j) (gs ! i)"
proof (induction j)
  case 0
  then show ?case by simp
next
  case (Suc j)
  show ?case
  proof (cases "i = j")
    case True
    then show ?thesis using assms(2) Suc.prems by simp
  next
    case False
    then have "narrow (gs ! j) (gs ! i)" using Suc by simp
    moreover have "narrow (gs ! Suc j) (gs ! j)" using assms(2) Suc.prems by simp
    moreover have "ok (gs ! j)" using assms(1) Suc.prems by simp
    ultimately show ?thesis using narrow_trans by blast
  qed
qed

lemma chain_rank:
  assumes "\<forall>i. Suc i < length gs \<longrightarrow> narrow (gs ! Suc i) (gs ! i)"
  shows "j < length gs \<Longrightarrow> rank (gs ! j) + j \<le> rank (gs ! 0)"
proof (induction j)
  case 0
  then show ?case by simp
next
  case (Suc j)
  then have "rank (gs ! Suc j) < rank (gs ! j)"
    using assms narrow_rank by simp
  then show ?case using Suc by simp
qed

end

definition validity_le :: "validity \<Rightarrow> validity \<Rightarrow> bool" where
  "validity_le c p \<longleftrightarrow> (Finite p \<longrightarrow> Finite c \<and> ExpiresAt c \<le> ExpiresAt p)"

definition narrower :: "grant \<Rightarrow> grant \<Rightarrow> bool" where
  "narrower child parent \<longleftrightarrow>
     gDepth child < gDepth parent \<and>
     set (gActions child) \<subseteq> set (gDelegable parent) \<and>
     (\<forall>s \<in> set (gScope child). \<exists>e \<in> set (gScope parent). covers e s) \<and>
     validity_le (gValidity child) (gValidity parent)"

lemma attenuated_None:
  assumes "grant_ok child" "grant_ok parent"
  shows "attenuated child parent = None \<longleftrightarrow> narrower child parent"
proof -
  have "subset (gActions child) (gDelegable parent) \<longleftrightarrow>
      set (gActions child) \<subseteq> set (gDelegable parent)"
    using assms by (intro subset_iff_set) (simp_all add: grant_ok_def list_ok_def)
  then show ?thesis
    by (auto simp: attenuated_def narrower_def allCovered_iff validity_le_def not_le
        dest: word_gt_0_no [THEN iffD2] intro: order.strict_trans1)
qed

interpretation auth: authority grant_ok narrower "\<lambda>g. unat (gDepth g)"
proof unfold_locales
  fix a b c
  assume b: "grant_ok b" and ab: "narrower a b" and bc: "narrower b c"
  have "set (gActions a) \<subseteq> set (gDelegable c)"
    using b ab bc by (auto simp: grant_ok_def narrower_def)
  moreover have "\<forall>s \<in> set (gScope a). \<exists>e \<in> set (gScope c). covers e s"
    using ab bc covers_trans unfolding narrower_def by meson
  ultimately show "narrower a c"
    using ab bc by (auto simp: narrower_def validity_le_def)
next
  fix a b
  assume "narrower a b"
  then show "unat (gDepth a) < unat (gDepth b)"
    by (simp add: narrower_def word_less_nat_alt)
qed

section \<open>What the evaluation decides\<close>

definition hop_ok :: "envelope_lib \<Rightarrow> root \<Rightarrow> bytes list \<Rightarrow> grant list \<Rightarrow> nat \<Rightarrow> bool" where
  "hop_ok lib root chain gs i \<longleftrightarrow>
     (\<exists>issuer. Open lib (chain ! i) = Inr (issuer, gs ! i) \<and>
       gDomain (gs ! i) = rootDomain root \<and>
       (if i = 0 then gParent (gs ! i) = None \<and> issuer = rootKey root
        else gParent (gs ! i) = Some (Digest lib (chain ! (i - 1))) \<and>
             issuer = gSubject (gs ! (i - 1)) \<and> narrower (gs ! i) (gs ! (i - 1))))"

definition chain_ok :: "envelope_lib \<Rightarrow> root \<Rightarrow> bytes list \<Rightarrow> grant list \<Rightarrow> bool" where
  "chain_ok lib root chain gs \<longleftrightarrow>
     length gs = length chain \<and> (\<forall>i < length chain. hop_ok lib root chain gs i)"

lemma Open_grant_ok: "Open lib env = Inr (issuer, g) \<Longrightarrow> grant_ok g \<and> wf_grant g \<and> length issuer = 32"
  by (auto simp: Open_def Decode_Inr_iff split: option.splits if_splits sum.splits)

lemma chain_ok_grants: "chain_ok lib root chain gs \<Longrightarrow> g \<in> set gs \<Longrightarrow> grant_ok g \<and> wf_grant g"
  by (auto simp: chain_ok_def hop_ok_def in_set_conv_nth dest: Open_grant_ok)

lemma chain_ok_open:
  assumes "chain_ok lib root chain gs" "i < length chain" "Open lib (chain ! i) = Inr (issuer, g)"
  shows "g = gs ! i"
proof -
  have "hop_ok lib root chain gs i" using assms(1,2) by (simp add: chain_ok_def)
  then show ?thesis using assms(3) by (auto simp: hop_ok_def)
qed

lemma chain_ok_step:
  "chain_ok lib root chain gs \<Longrightarrow> Suc i < length gs \<Longrightarrow> narrower (gs ! Suc i) (gs ! i)"
  by (auto simp: chain_ok_def hop_ok_def)

lemma chain_ok_narrower:
  assumes "chain_ok lib root chain gs" "i < j" "j < length gs"
  shows "narrower (gs ! j) (gs ! i)"
  using assms by (intro auth.chain_narrow) (auto dest: chain_ok_grants chain_ok_step)

lemma chain_ok_depth:
  assumes "chain_ok lib root chain gs" "j < length gs"
  shows "unat (gDepth (gs ! j)) + j \<le> maxDepth"
proof -
  have "unat (gDepth (gs ! j)) + j \<le> unat (gDepth (gs ! 0))"
    using assms auth.chain_rank chain_ok_step by blast
  moreover have "0 < length gs" using assms by linarith
  then have "grant_ok (gs ! 0)"
    using assms chain_ok_grants nth_mem by blast
  ultimately show ?thesis by (simp add: grant_ok_def)
qed

lemma evaluate_hop_Inr:
  assumes "hop > 0 \<Longrightarrow> grant_ok (gs ! (hop - 1))"
  shows "evaluate_hop lib root chain gs hop (chain ! hop) = Inr g \<longleftrightarrow>
    (\<exists>issuer. Open lib (chain ! hop) = Inr (issuer, g) \<and> gDomain g = rootDomain root \<and>
       (if hop = 0 then gParent g = None \<and> issuer = rootKey root
        else gParent g = Some (Digest lib (chain ! (hop - 1))) \<and>
             issuer = gSubject (gs ! (hop - 1)) \<and> narrower g (gs ! (hop - 1))))"
proof (cases "Open lib (chain ! hop)")
  case (Inl c)
  then show ?thesis by (simp add: evaluate_hop_def)
next
  case (Inr ig)
  obtain issuer h where ig: "ig = (issuer, h)" by force
  have "attenuated h (gs ! (hop - 1)) = None \<longleftrightarrow> narrower h (gs ! (hop - 1))" if "hop > 0"
    using that assms Inr ig by (intro attenuated_None) (auto dest: Open_grant_ok)
  then show ?thesis
    using Inr ig
    by (cases "hop = 0")
      (auto simp: evaluate_hop_def ancestry_def Let_def split: option.splits if_splits)
qed

lemma evaluate_hop_hop_ok:
  assumes "take hop gs = acc" "hop > 0 \<Longrightarrow> grant_ok (acc ! (hop - 1))"
  shows "evaluate_hop lib root chain acc hop (chain ! hop) = Inr (gs ! hop) \<longleftrightarrow>
    hop_ok lib root chain gs hop"
proof -
  have "gs ! (hop - 1) = acc ! (hop - 1)" if "hop > 0"
    using that assms(1) by (metis diff_less nth_take zero_less_one)
  then show ?thesis
    using assms(2) by (subst evaluate_hop_Inr) (auto simp: hop_ok_def split: if_splits)
qed

lemma all_from_Suc:
  "hop < n \<Longrightarrow> (\<forall>i. hop \<le> i \<and> i < n \<longrightarrow> P i) \<longleftrightarrow> P hop \<and> (\<forall>i. Suc hop \<le> i \<and> i < n \<longrightarrow> P i)"
  by (metis Suc_leI Suc_leD le_eq_less_or_eq)

lemma evaluate_hops_Inr:
  assumes "\<forall>g \<in> set acc. grant_ok g"
    and "hop = length acc" "rest = drop hop chain" "hop \<le> length chain"
  shows "evaluate_hops lib root chain acc hop rest = Inr gs \<longleftrightarrow>
    length gs = length chain \<and> take hop gs = acc \<and>
    (\<forall>i. hop \<le> i \<and> i < length chain \<longrightarrow> hop_ok lib root chain gs i)"
  using assms
proof (induction rest arbitrary: acc hop)
  case Nil
  then show ?case by auto
next
  case (Cons env rest)
  have hop: "hop < length chain"
    using Cons.prems(3) by (metis drop_all list.distinct(1) not_le)
  then have env: "env = chain ! hop" and rest: "rest = drop (Suc hop) chain"
    using Cons.prems(3) by (simp_all flip: Cons_nth_drop_Suc)
  have prev: "hop > 0 \<Longrightarrow> grant_ok (acc ! (hop - 1))"
    using Cons.prems(1,2) by auto
  note ok = evaluate_hop_hop_ok [OF _ prev, where lib = lib and root = root and chain = chain]
  show ?case
  proof (cases "evaluate_hop lib root chain acc hop env")
    case (Inl c)
    then have "take hop gs = acc \<Longrightarrow> \<not> hop_ok lib root chain gs hop"
      using ok [of gs] env by auto
    then show ?thesis using Inl hop by auto
  next
    case (Inr g)
    then have "grant_ok g"
      using prev env by (auto simp: evaluate_hop_Inr dest: Open_grant_ok)
    then have IH: "evaluate_hops lib root chain (acc @ [g]) (Suc hop) rest = Inr gs \<longleftrightarrow>
        length gs = length chain \<and> take (Suc hop) gs = acc @ [g] \<and>
        (\<forall>i. Suc hop \<le> i \<and> i < length chain \<longrightarrow> hop_ok lib root chain gs i)"
      using Cons.prems hop by (intro Cons.IH) (auto simp: rest)
    have step: "take (Suc hop) gs = acc @ [g] \<longleftrightarrow> take hop gs = acc \<and> hop_ok lib root chain gs hop"
      if len: "length gs = length chain"
    proof -
      have "take (Suc hop) gs = take hop gs @ [gs ! hop]"
        using hop len by (simp add: take_Suc_conv_app_nth)
      then show ?thesis using ok [of gs] Inr env by auto
    qed
    show ?thesis
      unfolding evaluate_hops.simps Inr sum.case IH all_from_Suc [OF hop]
      using step by blast
  qed
qed

lemma evaluate_hops_chain_ok:
  "evaluate_hops lib root chain [] 0 chain = Inr gs \<longleftrightarrow> chain_ok lib root chain gs"
  by (subst evaluate_hops_Inr) (auto simp: chain_ok_def)

section \<open>Coverage, time and the leaf\<close>

definition covers_request :: "grant list \<Rightarrow> request \<Rightarrow> bool" where
  "covers_request gs rq \<longleftrightarrow>
     (\<forall>g \<in> set gs. reqAction rq \<in> set (gActions g) \<and> (\<exists>e \<in> set (gScope g). covers e (reqScope rq))) \<and>
     (\<forall>g \<in> set (butlast gs). reqAction rq \<in> set (gDelegable g))"

lemma coverage_None:
  "\<forall>g \<in> set gs. grant_ok g \<Longrightarrow> n = hop + length gs \<Longrightarrow>
   coverage n hop rq gs = None \<longleftrightarrow> covers_request gs rq"
proof (induction gs arbitrary: hop)
  case Nil
  then show ?case by (simp add: covers_request_def)
next
  case (Cons g gs)
  have "contains (gActions g) a \<longleftrightarrow> a \<in> set (gActions g)"
    "contains (gDelegable g) a \<longleftrightarrow> a \<in> set (gDelegable g)" for a
    using Cons.prems(1) by (auto intro!: contains_iff_set simp: grant_ok_def list_ok_def)
  then show ?case
    using Cons by (cases gs) (auto simp: covers_request_def covered_iff)
qed

definition timely :: "decision_time \<Rightarrow> validity \<Rightarrow> bool" where
  "timely now v \<longleftrightarrow> (Finite v \<longrightarrow> Present now \<and> Now now < ExpiresAt v)"

definition earlier :: "validity \<Rightarrow> validity \<Rightarrow> validity" where
  "earlier v u = (if Finite u \<and> (\<not> Finite v \<or> ExpiresAt u < ExpiresAt v) then u else v)"

lemma timeliness_Inr:
  "timeliness now hop v gs = Inr v' \<longleftrightarrow>
     (\<forall>g \<in> set gs. timely now (gValidity g)) \<and> v' = foldl earlier v (map gValidity gs)"
  by (induction gs arbitrary: hop v) (auto simp: timely_def earlier_def not_le)

lemma earlier_narrow:
  "validity_ok v \<Longrightarrow> validity_ok u \<Longrightarrow> validity_le u v \<Longrightarrow> earlier v u = u"
  by (cases v; cases u) (auto simp: validity_ok_def validity_le_def earlier_def word_gt_0)

lemma timely_antimono: "validity_le c p \<Longrightarrow> timely now c \<Longrightarrow> timely now p"
  by (auto simp: validity_le_def timely_def intro: order.strict_trans2)

lemma foldl_earlier_last:
  assumes "\<forall>v \<in> set vs. validity_ok v" and "\<forall>i. Suc i < length vs \<longrightarrow> validity_le (vs ! Suc i) (vs ! i)"
    and "vs \<noteq> []"
  shows "foldl earlier unbounded vs = last vs"
  using assms(3,1,2)
proof (induction vs rule: rev_nonempty_induct)
  case (single v)
  then show ?case
    by (cases v) (auto simp: earlier_def unbounded_def validity_ok_def)
next
  case (snoc v vs)
  have "foldl earlier unbounded vs = last vs"
    using snoc.prems by (intro snoc.IH) (auto simp: nth_append split: if_splits)
  moreover have "validity_le v (last vs)"
    using snoc.prems(2) [rule_format, of "length vs - 1"] snoc.hyps
    by (simp add: nth_append last_conv_nth)
  ultimately show ?case
    using snoc.prems(1) snoc.hyps by (simp add: earlier_narrow)
qed

definition chain_leaf :: "grant list \<Rightarrow> verified" where
  "chain_leaf gs = \<lparr>vSubject = gSubject (last gs), vDepth = gDepth (last gs),
     vValidity = gValidity (last gs), vHops = length gs\<rparr>"

lemma chain_ok_timeliness:
  assumes ok: "chain_ok lib root chain gs" and "chain \<noteq> []"
  shows "timeliness now 0 unbounded gs = Inr v \<longleftrightarrow>
    timely now (gValidity (last gs)) \<and> v = gValidity (last gs)"
proof -
  have ne: "gs \<noteq> []" using assms by (auto simp: chain_ok_def)
  have "foldl earlier unbounded (map gValidity gs) = last (map gValidity gs)"
    using chain_ok_grants [OF ok] chain_ok_step [OF ok] ne
    by (intro foldl_earlier_last) (auto simp: grant_ok_def validity_ok_def narrower_def)
  then have last: "foldl earlier unbounded (map gValidity gs) = gValidity (last gs)"
    using ne by (simp add: last_map)
  have le: "validity_le (gValidity (last gs)) (gValidity g)" if g: "g \<in> set gs" for g
  proof -
    obtain i where i: "i < length gs" "g = gs ! i"
      using g by (metis in_set_conv_nth)
    show ?thesis
    proof (cases "i = length gs - 1")
      case True
      then show ?thesis using i ne by (simp add: last_conv_nth validity_le_def)
    next
      case False
      then have "narrower (gs ! (length gs - 1)) (gs ! i)"
        using i by (intro chain_ok_narrower [OF ok]) auto
      then show ?thesis using i ne by (simp add: last_conv_nth narrower_def)
    qed
  qed
  show ?thesis
    unfolding timeliness_Inr last using le timely_antimono ne last_in_set by blast
qed

definition accepts ::
  "envelope_lib \<Rightarrow> root \<Rightarrow> bytes list \<Rightarrow> request option \<Rightarrow> decision_time \<Rightarrow> grant list \<Rightarrow> bool" where
  "accepts lib root chain request now gs \<longleftrightarrow>
     chain \<noteq> [] \<and> length chain \<le> maxChain \<and> chain_ok lib root chain gs \<and>
     (\<forall>rq. request = Some rq \<longrightarrow> reqDomain rq = rootDomain root \<and> covers_request gs rq) \<and>
     timely now (gValidity (last gs))"

lemma evaluate_Inr:
  "evaluate lib root chain request now = Inr (v, gs) \<longleftrightarrow>
     accepts lib root chain request now gs \<and> v = chain_leaf gs"
proof (cases "chain \<noteq> [] \<and> length chain \<le> maxChain")
  case True
  show ?thesis
  proof (cases "evaluate_hops lib root chain [] 0 chain")
    case (Inl r)
    then show ?thesis
      using evaluate_hops_chain_ok [of lib root chain gs] True
      by (simp add: evaluate_def accepts_def)
  next
    case (Inr gs')
    then have ok: "chain_ok lib root chain gs'" and uniq: "chain_ok lib root chain h \<longleftrightarrow> h = gs'" for h
      using evaluate_hops_chain_ok [of lib root chain gs']
        evaluate_hops_chain_ok [of lib root chain h] by auto
    have ne: "gs' \<noteq> []" using ok True by (auto simp: chain_ok_def)
    then have leaf: "gs' ! (length gs' - 1) = last gs'" by (simp add: last_conv_nth)
    have cov: "coverage (length gs') 0 rq gs' = None \<longleftrightarrow> covers_request gs' rq" for rq
      using chain_ok_grants [OF ok] by (intro coverage_None) auto
    have "timeliness now 0 unbounded gs' = Inr w \<longleftrightarrow>
        timely now (gValidity (last gs')) \<and> w = gValidity (last gs')" for w
      using chain_ok_timeliness [OF ok] True by blast
    then have "evaluate lib root chain request now = Inr (v, gs') \<longleftrightarrow>
        accepts lib root chain request now gs' \<and> v = chain_leaf gs'"
      using True Inr leaf ok
      by (cases "timeliness now 0 unbounded gs'")
        (auto simp: evaluate_def accepts_def chain_leaf_def Let_def
          simp flip: cov split: option.splits if_splits)
    moreover have "evaluate lib root chain request now = Inr (v, gs) \<Longrightarrow> gs = gs'"
      using True Inr by (auto simp: evaluate_def Let_def split: option.splits sum.splits if_splits)
    ultimately show ?thesis
      using uniq [of gs] by (auto simp: accepts_def)
  qed
next
  case False
  then show ?thesis by (auto simp: evaluate_def accepts_def)
qed

lemma accepts_unique:
  "accepts lib root chain request now gs \<Longrightarrow> accepts lib root chain request now h \<Longrightarrow> h = gs"
  using evaluate_Inr [of lib root chain request now] by (metis old.sum.inject(2) prod.inject)

lemma Inspect_Inr:
  "Inspect lib root chain now = Inr v \<longleftrightarrow>
     (\<exists>gs. accepts lib root chain None now gs \<and> v = chain_leaf gs)"
  using evaluate_Inr [of lib root chain None now]
  by (auto simp: Inspect_def split: sum.splits dest: accepts_unique)

lemma Verify_Inr:
  "Verify lib root chain rq now = Inr v \<longleftrightarrow>
     (\<exists>gs. accepts lib root chain (Some rq) now gs \<and> v = chain_leaf gs)"
  using evaluate_Inr [of lib root chain "Some rq" now]
  by (auto simp: Verify_def split: sum.splits dest: accepts_unique)

section \<open>Issuance continues a chain\<close>

text \<open>
  What the archon envelope package promises: what was sealed opens, in the domain it was
  sealed in, to the public key of the seed and the same payload; a seed of the right size
  has a 32-byte public key, and a digest has 32 bytes.
\<close>

definition lawful_envelopes :: "envelope_lib \<Rightarrow> bool" where
  "lawful_envelopes lib \<longleftrightarrow>
     (\<forall>seed dom body env. env_seal lib seed dom body = Some env \<longrightarrow>
        env_open lib env dom = Some (publicKeyFromSeed lib seed, body)) \<and>
     (\<forall>seed. length seed = seedSize lib \<longrightarrow> length (publicKeyFromSeed lib seed) = 32) \<and>
     (\<forall>b. length (sum256 lib b) = 32)"

lemma fit32_id: "length bs = 32 \<Longrightarrow> fit32 bs = bs"
  by (simp add: fit32_def)

lemma Seal_Open:
  assumes "lawful_envelopes lib" "Seal lib seed g = Inr env" "wf_grant g"
    and "length seed = seedSize lib"
  shows "Open lib env = Inr (publicKeyFromSeed lib seed, g)"
proof -
  obtain body where body: "Encode g = Inr body" "env_seal lib seed grant_domain body = Some env"
    using assms(2) by (auto simp: Seal_def split: sum.splits option.splits)
  then have "Decode body = Inr g"
    using assms(3) by (auto simp: Encode_Inr_iff Decode_Inr_iff)
  then show ?thesis
    using assms(1,4) body(2) by (simp add: Open_def lawful_envelopes_def)
qed

lemma hop_ok_append:
  "i < length chain \<Longrightarrow> length gs = length chain \<Longrightarrow>
   hop_ok lib root (chain @ c) (gs @ h) i \<longleftrightarrow> hop_ok lib root chain gs i"
  by (cases i) (simp_all add: hop_ok_def nth_append)

lemma chain_ok_snoc:
  "length gs = length chain \<Longrightarrow>
   chain_ok lib root (chain @ [env]) (gs @ [g]) \<longleftrightarrow>
     chain_ok lib root chain gs \<and> hop_ok lib root (chain @ [env]) (gs @ [g]) (length chain)"
  using hop_ok_append [of _ chain gs lib root "[env]" "[g]"]
  by (auto simp: chain_ok_def less_Suc_eq)

lemma chain_ok_take:
  "chain_ok lib root chain gs \<Longrightarrow> n \<le> length chain \<Longrightarrow>
   chain_ok lib root (take n chain) (take n gs)"
  using hop_ok_append [of _ "take n chain" "take n gs" lib root "drop n chain" "drop n gs"]
  by (auto simp: chain_ok_def)

lemma chain_ok_length:
  assumes "chain_ok lib root chain gs"
  shows "length chain \<le> maxChain"
proof (cases "chain = []")
  case False
  then have "length chain - 1 < length gs"
    using assms by (auto simp: chain_ok_def)
  then show ?thesis
    using chain_ok_depth [OF assms] by (fastforce simp: grant_bounds)
qed (simp add: grant_bounds)

lemma acceptsI:
  "chain_ok lib root chain gs \<Longrightarrow> chain \<noteq> [] \<Longrightarrow> timely now (gValidity (last gs)) \<Longrightarrow>
   accepts lib root chain None now gs"
  by (simp add: accepts_def chain_ok_length)

text \<open>What \<open>Issue\<close> seals: the child with its validity and its parent filled in.\<close>

definition issued_grant :: "envelope_lib \<Rightarrow> bytes list \<Rightarrow> grant list \<Rightarrow> grant \<Rightarrow> bool \<Rightarrow> grant" where
  "issued_grant lib parents gs child inherit =
     (let child = (if inherit \<and> gs \<noteq> [] then child\<lparr>gValidity := gValidity (last gs)\<rparr> else child)
      in if gs = [] then child else child\<lparr>gParent := Some (Digest lib (last parents))\<rparr>)"

lemma Issue_Inr:
  assumes "Issue lib root parents seed child inherit now = Inr sealed"
  obtains gs where "chain_ok lib root parents gs"
    and "Seal lib seed (issued_grant lib parents gs child inherit) = Inr sealed"
    and "gDomain child = rootDomain root" and "length seed = seedSize lib"
    and "grant_ok (issued_grant lib parents gs child inherit)"
    and "if parents = [] then gParent child = None \<and> fit32 (publicKeyFromSeed lib seed) = rootKey root
         else fit32 (publicKeyFromSeed lib seed) = gSubject (last gs) \<and>
              attenuated (issued_grant lib parents gs child inherit) (last gs) = None"
proof (cases "parents = []")
  case True
  then show ?thesis
    using assms that [of "[]"]
    by (auto simp: Issue_def issue_child_def issued_grant_def chain_ok_def Let_def Encode_Inr_iff
        split: sum.splits if_splits)
next
  case False
  then obtain v gs where ev: "evaluate lib root parents None now = Inr (v, gs)"
    using assms by (auto simp: Issue_def Let_def split: sum.splits)
  then have ok: "chain_ok lib root parents gs"
    by (simp add: evaluate_Inr accepts_def)
  then have len: "length gs = length parents" by (simp add: chain_ok_def)
  then have ne: "gs \<noteq> []" using False by auto
  then have last: "gs \<noteq> []" "gs ! (length parents - 1) = last gs"
    "parents ! (length parents - 1) = last parents"
    using False by (simp_all add: last_conv_nth flip: len)
  show ?thesis
    using assms False last
    by (intro that [OF ok])
      (auto simp: Issue_def ev issue_child_def issued_grant_def Let_def Encode_Inr_iff
        split: sum.splits if_splits option.splits)
qed

lemma Issue_extends:
  assumes "Issue lib root parents seed child inherit now = Inr sealed"
    and lawful: "lawful_envelopes lib" and key: "key_ok (gSubject child)"
  shows "\<exists>gs. chain_ok lib root parents gs \<and>
    chain_ok lib root (parents @ [sealed]) (gs @ [issued_grant lib parents gs child inherit])"
proof -
  obtain gs where ok: "chain_ok lib root parents gs"
    and seal: "Seal lib seed (issued_grant lib parents gs child inherit) = Inr sealed"
    and dom: "gDomain child = rootDomain root" and seed: "length seed = seedSize lib"
    and gok: "grant_ok (issued_grant lib parents gs child inherit)"
    and who: "if parents = [] then gParent child = None \<and> fit32 (publicKeyFromSeed lib seed) = rootKey root
         else fit32 (publicKeyFromSeed lib seed) = gSubject (last gs) \<and>
              attenuated (issued_grant lib parents gs child inherit) (last gs) = None"
    using assms(1) by (rule Issue_Inr)
  let ?g = "issued_grant lib parents gs child inherit"
  have len: "length gs = length parents" using ok by (simp add: chain_ok_def)
  have wf: "wf_grant ?g"
  proof (cases "gs = []")
    case True
    then show ?thesis
      using key who len by (simp add: wf_grant_def issued_grant_def parent_ok_def)
  next
    case False
    then show ?thesis
      using key lawful
      by (simp add: wf_grant_def issued_grant_def Let_def parent_ok_def key_ok_def Digest_def
          lawful_envelopes_def)
  qed
  have "fit32 (publicKeyFromSeed lib seed) = publicKeyFromSeed lib seed"
    using lawful seed by (intro fit32_id) (simp add: lawful_envelopes_def)
  then have "Open lib sealed = Inr (fit32 (publicKeyFromSeed lib seed), ?g)"
    using Seal_Open [OF lawful seal wf seed] by simp
  moreover have "narrower ?g (last gs)" if "parents \<noteq> []"
  proof -
    have "last gs \<in> set gs" using that len by (intro last_in_set) auto
    then have "grant_ok (last gs)" using chain_ok_grants [OF ok] by blast
    then show ?thesis using attenuated_None [OF gok] who that by simp
  qed
  ultimately have "hop_ok lib root (parents @ [sealed]) (gs @ [?g]) (length parents)"
    using who dom len
    by (auto simp: hop_ok_def nth_append issued_grant_def Let_def last_conv_nth split: if_splits)
  then show ?thesis
    using ok len by (auto simp: chain_ok_snoc)
qed

section \<open>The first refusal\<close>

lemma evaluate_hops_Inl:
  assumes "evaluate_hops lib root chain acc hop rest = Inl r"
    and "chain_ok lib root (take hop chain) acc" "rest = drop hop chain" "hop \<le> length chain"
  shows "rHop r < length chain \<and>
    (\<exists>gs. chain_ok lib root (take (rHop r) chain) gs \<and>
       evaluate_hop lib root chain gs (rHop r) (chain ! rHop r) = Inl (rCode r))"
  using assms
proof (induction rest arbitrary: acc hop)
  case Nil
  then show ?case by simp
next
  case (Cons env rest)
  have hop: "hop < length chain"
    using Cons.prems(3) by (metis drop_all list.distinct(1) not_le)
  then have env: "env = chain ! hop" and rest: "rest = drop (Suc hop) chain"
    using Cons.prems(3) by (simp_all flip: Cons_nth_drop_Suc)
  have len: "length acc = hop"
    using Cons.prems(2) hop by (simp add: chain_ok_def)
  show ?case
  proof (cases "evaluate_hop lib root chain acc hop env")
    case (Inl c)
    then show ?thesis
      using Cons.prems(1,2) hop env by auto
  next
    case (Inr g)
    have prev: "hop > 0 \<Longrightarrow> grant_ok (acc ! (hop - 1))"
      using chain_ok_grants [OF Cons.prems(2)] len by simp
    have "hop_ok lib root chain (acc @ [g]) hop"
      using evaluate_hop_hop_ok [of hop "acc @ [g]" acc lib root chain] prev Inr env len by auto
    then have "hop_ok lib root (take hop chain @ [chain ! hop]) (acc @ [g]) hop"
      using hop by (auto simp: hop_ok_def nth_append)
    then have "chain_ok lib root (take (Suc hop) chain) (acc @ [g])"
      using Cons.prems(2) hop len by (simp add: take_Suc_conv_app_nth chain_ok_snoc)
    then show ?thesis
      using Cons.prems(1) Inr hop rest by (intro Cons.IH) auto
  qed
qed

lemma Inspect_Inl_hop:
  assumes "Inspect lib root chain now = Inl r" "chain \<noteq> []"
    and "rCode r \<notin> {ChainTooLong, TimeRequired, Expired}"
  shows "rHop r < length chain \<and>
    (\<exists>gs. chain_ok lib root (take (rHop r) chain) gs \<and>
       evaluate_hop lib root chain gs (rHop r) (chain ! rHop r) = Inl (rCode r))"
proof -
  have time: "timeliness t h v gs = Inl r \<Longrightarrow> rCode r \<in> {TimeRequired, Expired}" for t h v gs
    by (induction t h v gs rule: timeliness.induct) (auto split: if_splits)
  have "evaluate_hops lib root chain [] 0 chain = Inl r"
    using assms time
    by (auto simp: Inspect_def evaluate_def Let_def split: sum.splits option.splits if_splits)
  then show ?thesis
    by (rule evaluate_hops_Inl) (simp_all add: chain_ok_def)
qed

end
