(* ===== verification/Grant_Spec.thy ===== *)
theory Grant_Spec
  imports Grant_Chain
begin

text \<open>
  The properties of the grant packet and of chain evaluation, with a two-hop chain as the
  concrete input of the witnesses: a root key that grants \<open>r\<close> and \<open>w\<close> under
  \<open>a\<close>, and a holder that passes \<open>r\<close> under \<open>a/b\<close> on until time 100.
\<close>

section \<open>A concrete chain\<close>

definition demo_lib :: envelope_lib where
  "demo_lib = \<lparr>
     env_seal = (\<lambda>seed dom body.
        if length seed = 32 then Some (seed @ bytes_of_string dom @ body) else None),
     env_open = (\<lambda>env dom.
        if take (length dom) (drop 32 env) = bytes_of_string dom
        then Some (take 32 env, drop (32 + length dom) env) else None),
     publicKeyFromSeed = (\<lambda>seed. take 32 (seed @ replicate 32 0)),
     seedSize = 32,
     sum256 = (\<lambda>b. take 32 (b @ replicate 32 0))\<rparr>"

definition demo_root :: root where
  "demo_root = \<lparr>rootKey = replicate 32 1, rootDomain = ''d''\<rparr>"

definition demo_g0 :: grant where
  "demo_g0 = \<lparr>gDomain = ''d'', gSubject = replicate 32 2, gParent = None, gScope = [''a''],
     gActions = [''r'', ''w''], gDelegable = [''r''], gDepth = 2, gValidity = unbounded\<rparr>"

definition demo_env0 :: bytes where
  "demo_env0 = replicate 32 1 @ bytes_of_string grant_domain @ version # enc_grant demo_g0"

definition demo_g1 :: grant where
  "demo_g1 = \<lparr>gDomain = ''d'', gSubject = replicate 32 3, gParent = Some (replicate 32 1),
     gScope = [''a/b''], gActions = [''r''], gDelegable = [], gDepth = 1,
     gValidity = \<lparr>Finite = True, ExpiresAt = 100\<rparr>\<rparr>"

definition demo_env1 :: bytes where
  "demo_env1 = replicate 32 2 @ bytes_of_string grant_domain @ version # enc_grant demo_g1"

definition demo_request :: request where
  "demo_request = \<lparr>reqDomain = ''d'', reqAction = ''r'', reqScope = ''a/b/c''\<rparr>"

definition demo_now :: decision_time where
  "demo_now = \<lparr>Present = True, Now = 50\<rparr>"

lemmas demo_defs = demo_root_def demo_g0_def demo_g1_def demo_request_def demo_now_def

lemma demo_text_ok [simp]:
  "text_ok ''d'' maxDomainBytes" "text_ok ''a'' maxEntryBytes" "text_ok ''a/b'' maxEntryBytes"
  "text_ok ''r'' maxEntryBytes" "text_ok ''w'' maxEntryBytes"
  "text_ok ''d'' 255" "text_ok ''a'' 1024" "text_ok ''a/b'' 1024"
  "text_ok ''r'' 1024" "text_ok ''w'' 1024"
  by (simp_all add: text_ok_def grant_bounds)

lemma demo_grants_ok: "grant_ok demo_g0" "grant_ok demo_g1" "wf_grant demo_g0" "wf_grant demo_g1"
  by (simp_all add: grant_ok_def list_ok_def demo_defs unbounded_def grant_bounds wf_grant_def
      key_ok_def parent_ok_def)

lemma demo_encode:
  "Encode demo_g0 = Inr (version # enc_grant demo_g0)"
  "Encode demo_g1 = Inr (version # enc_grant demo_g1)"
  by (simp_all add: Encode_Inr_iff demo_grants_ok)
    (simp_all add: enc_grant_def enc_domain_def enc_parent_def enc_list_def enc_entry_def
      enc_u8_def enc_validity_def demo_defs unbounded_def grant_bounds)

lemma demo_lawful: "lawful_envelopes demo_lib"
  by (auto simp: lawful_envelopes_def demo_lib_def split: if_splits)

lemma demo_open:
  "Open demo_lib demo_env0 = Inr (replicate 32 1, demo_g0)"
  "Open demo_lib demo_env1 = Inr (replicate 32 2, demo_g1)"
proof -
  have "Decode (version # enc_grant demo_g0) = Inr demo_g0"
    "Decode (version # enc_grant demo_g1) = Inr demo_g1"
    using demo_encode demo_grants_ok by (auto simp: Decode_Inr_iff Encode_Inr_iff)
  then show "Open demo_lib demo_env0 = Inr (replicate 32 1, demo_g0)"
    "Open demo_lib demo_env1 = Inr (replicate 32 2, demo_g1)"
    by (simp_all add: Open_def demo_lib_def demo_env0_def demo_env1_def)
qed

lemma demo_chain: "chain_ok demo_lib demo_root [demo_env0, demo_env1] [demo_g0, demo_g1]"
proof -
  have "narrower demo_g1 demo_g0"
    by (simp add: narrower_def demo_defs unbounded_def validity_le_def covers_def)
  moreover have "Digest demo_lib demo_env0 = replicate 32 1"
    by (simp add: Digest_def demo_lib_def demo_env0_def)
  ultimately show ?thesis
    by (simp add: chain_ok_def hop_ok_def demo_open less_Suc_eq)
      (simp add: demo_defs)
qed

lemma demo_accepts:
  "accepts demo_lib demo_root [demo_env0, demo_env1] None demo_now [demo_g0, demo_g1]"
  "accepts demo_lib demo_root [demo_env0, demo_env1] (Some demo_request) demo_now [demo_g0, demo_g1]"
  using demo_chain
  by (simp_all add: accepts_def grant_bounds timely_def demo_defs covers_request_def covers_def)

section \<open>Properties of the body's encoding\<close>

text \<open>C4: \<open>Decode\<close> accepts exactly the canonical encodings: a body decodes to a grant
  when and only when the grant's arrays have their 32 bytes and \<open>Encode\<close> makes that body
  of it.  So encoding then decoding is the identity, and no two bodies mean one grant.\<close>

theorem decode_inverts_encode:
  "Decode body = Inr g \<longleftrightarrow> wf_grant g \<and> Encode g = Inr body"
  by (auto simp: Decode_Inr_iff Encode_Inr_iff)

text \<open>A refused body is told apart as documented: a non-empty body whose first byte is
  not the version is \<open>UnsupportedVersion\<close>; every other refusal is \<open>Malformed\<close>, and
  is met by exactly the bodies that are empty or are no encoding of any grant.\<close>

theorem decode_refusals:
  "Decode body = Inl c \<longleftrightarrow>
     (case c of
        UnsupportedVersion \<Rightarrow> body \<noteq> [] \<and> hd body \<noteq> version
      | Malformed \<Rightarrow> body = [] \<or>
          hd body = version \<and> (\<nexists>g. wf_grant g \<and> Encode g = Inr body)
      | _ \<Rightarrow> False)"
proof -
  have iff: "(\<nexists>g. wf_grant g \<and> Encode g = Inr body) \<longleftrightarrow> (\<nexists>g. Decode body = Inr g)"
    by (auto simp: Decode_Inr_iff Encode_Inr_iff)
  show ?thesis
    unfolding iff
    by (cases body) (auto simp: Decode_def split: code.splits option.splits if_splits)
qed

text \<open>What \<open>Encode\<close> accepts, in terms of sets and orders: a domain of 1 to 255
  bytes of UTF-8 without a control byte, lists of at most 64 entries of 1 to 1024 such bytes
  in strictly ascending order, a delegable set within the actions, a depth of at most 15, no
  expiry on an unbounded validity, and a body of at most 65535 bytes.\<close>

theorem encode_accepts:
  "(\<exists>body. Encode g = Inr body) \<longleftrightarrow>
     text_ok (gDomain g) 255 \<and>
     list_ok (gScope g) \<and> list_ok (gActions g) \<and> list_ok (gDelegable g) \<and>
     set (gDelegable g) \<subseteq> set (gActions g) \<and> unat (gDepth g) \<le> 15 \<and>
     (Finite (gValidity g) \<or> ExpiresAt (gValidity g) = 0) \<and>
     length (encode_body g) \<le> 65535"
  by (auto simp: Encode_Inr_iff grant_ok_def encode_body_eq maxDepth_def maxBodyBytes_def
      maxDomainBytes_def)

section \<open>Properties of chain evaluation\<close>

text \<open>C1: \<open>Verify\<close> accepts a chain for a request exactly when it has 1 to 16 envelopes
  that open to grants linked root first (root key, parent digests, issuers, domain, each
  grant narrower than the one before), every hop covers the request and every hop but the
  last may pass its action on, and the leaf has not expired; the answer is then the leaf's
  subject, depth and validity, and the hop count.\<close>

theorem verify_decides:
  "Verify lib root chain rq now = Inr v \<longleftrightarrow>
     chain \<noteq> [] \<and> length chain \<le> 16 \<and>
     (\<exists>gs. chain_ok lib root chain gs \<and> reqDomain rq = rootDomain root \<and>
        covers_request gs rq \<and> timely now (gValidity (last gs)) \<and>
        v = \<lparr>vSubject = gSubject (last gs), vDepth = gDepth (last gs),
             vValidity = gValidity (last gs), vHops = length gs\<rparr>)"
  by (auto simp: Verify_Inr accepts_def chain_leaf_def maxChain_def)

text \<open>C2: Authority never widens along an accepted chain, however far apart two hops are:
  the later grant's actions lie in what the earlier one may delegate, its scope entries are
  covered by the earlier one's, its depth is strictly less, and it expires no later.\<close>

theorem authority_never_widens:
  assumes "Inspect lib root chain now = Inr v" and "i < j" and "j < length chain"
    and "Open lib (chain ! i) = Inr (p_issuer, parent)"
    and "Open lib (chain ! j) = Inr (c_issuer, child)"
  shows "set (gActions child) \<subseteq> set (gDelegable parent) \<and>
    (\<forall>s \<in> set (gScope child). \<exists>e \<in> set (gScope parent). covers e s) \<and>
    gDepth child < gDepth parent \<and> validity_le (gValidity child) (gValidity parent)"
proof -
  obtain gs where ok: "chain_ok lib root chain gs"
    using assms(1) by (auto simp: Inspect_Inr accepts_def)
  then have "parent = gs ! i" "child = gs ! j"
    using assms(2-5) by (auto intro: chain_ok_open)
  then show ?thesis
    using chain_ok_narrower [OF ok assms(2)] assms(3) ok
    by (simp add: narrower_def chain_ok_def)
qed

theorem authority_never_widens_witness:
  "set (gActions demo_g1) \<subseteq> set (gDelegable demo_g0) \<and> gDepth demo_g1 < gDepth demo_g0"
proof -
  have "Inspect demo_lib demo_root [demo_env0, demo_env1] demo_now = Inr (chain_leaf [demo_g0, demo_g1])"
    using demo_accepts(1) by (auto simp: Inspect_Inr)
  from authority_never_widens [OF this, of 0 1] show ?thesis
    by (simp add: demo_open)
qed

text \<open>The depth a root grants bounds the chain: the depth left at the leaf and the
  number of hops never exceed sixteen together, so a leaf at the full length of sixteen has
  no depth left and nothing can be issued below it.\<close>

theorem depth_bounds_hops:
  assumes "Inspect lib root chain now = Inr v"
  shows "unat (vDepth v) + vHops v \<le> 16"
proof -
  obtain gs where ok: "chain_ok lib root chain gs" and ne: "chain \<noteq> []" and v: "v = chain_leaf gs"
    using assms by (auto simp: Inspect_Inr accepts_def)
  then have "gs \<noteq> []" by (auto simp: chain_ok_def)
  then show ?thesis
    using chain_ok_depth [OF ok, of "length gs - 1"] v
    by (cases gs) (auto simp: chain_leaf_def last_conv_nth maxDepth_def)
qed

theorem depth_bounds_hops_witness:
  "unat (vDepth (chain_leaf [demo_g0, demo_g1])) + vHops (chain_leaf [demo_g0, demo_g1]) \<le> 16"
proof -
  have "Inspect demo_lib demo_root [demo_env0, demo_env1] demo_now = Inr (chain_leaf [demo_g0, demo_g1])"
    using demo_accepts(1) by (auto simp: Inspect_Inr)
  then show ?thesis by (rule depth_bounds_hops)
qed

text \<open>C3: What \<open>Issue\<close> seals, \<open>Inspect\<close> accepts: the sealed envelope appended
  to the issuer's own chain is a chain that holds at every time the sealed grant has not
  expired, with the child's subject and depth at its leaf.  In particular sixteen hops are
  never exceeded, although \<open>Issue\<close> does not count them.\<close>

theorem issue_extends_chain:
  assumes "Issue lib root parents seed child inherit now = Inr sealed"
    and "lawful_envelopes lib" and "length (gSubject child) = 32"
  shows "\<exists>issuer g. Open lib sealed = Inr (issuer, g) \<and>
    gSubject g = gSubject child \<and> gScope g = gScope child \<and> gActions g = gActions child \<and>
    gDelegable g = gDelegable child \<and> gDepth g = gDepth child \<and>
    (timely later (gValidity g) \<longrightarrow>
       Inspect lib root (parents @ [sealed]) later =
         Inr \<lparr>vSubject = gSubject child, vDepth = gDepth child, vValidity = gValidity g,
              vHops = Suc (length parents)\<rparr>)"
proof -
  obtain gs where gs: "chain_ok lib root parents gs"
    and ok: "chain_ok lib root (parents @ [sealed]) (gs @ [issued_grant lib parents gs child inherit])"
    using Issue_extends [OF assms(1,2)] assms(3) by (auto simp: key_ok_def)
  let ?g = "issued_grant lib parents gs child inherit"
  have len: "length gs = length parents"
    using gs by (simp add: chain_ok_def)
  then obtain issuer where "Open lib sealed = Inr (issuer, ?g)"
    using ok by (auto simp: chain_ok_def hop_ok_def nth_append dest!: spec [of _ "length parents"])
  moreover have "gSubject ?g = gSubject child \<and> gScope ?g = gScope child \<and>
      gActions ?g = gActions child \<and> gDelegable ?g = gDelegable child \<and> gDepth ?g = gDepth child"
    by (simp add: issued_grant_def Let_def)
  moreover have "timely later (gValidity ?g) \<Longrightarrow>
      Inspect lib root (parents @ [sealed]) later = Inr (chain_leaf (gs @ [?g]))"
    using acceptsI [OF ok] by (auto simp: Inspect_Inr)
  ultimately show ?thesis
    using len by (auto simp: chain_leaf_def)
qed

definition demo_child :: grant where
  "demo_child = demo_g1\<lparr>gParent := None\<rparr>"

lemma demo_issue:
  "Issue demo_lib demo_root [demo_env0] (replicate 32 2) demo_child False demo_now = Inr demo_env1"
proof -
  have "chain_ok demo_lib demo_root [demo_env0] [demo_g0]"
    using chain_ok_take [OF demo_chain, of 1] by simp
  then have "evaluate demo_lib demo_root [demo_env0] None demo_now = Inr (chain_leaf [demo_g0], [demo_g0])"
    by (simp add: evaluate_Inr acceptsI timely_def demo_defs unbounded_def)
  moreover have "demo_child\<lparr>gParent := Some (Digest demo_lib demo_env0)\<rparr> = demo_g1"
    by (simp add: demo_child_def Digest_def demo_lib_def demo_env0_def demo_g1_def)
  moreover have "attenuated demo_g1 demo_g0 = None"
    using demo_grants_ok
    by (subst attenuated_None)
      (simp_all add: narrower_def demo_defs unbounded_def validity_le_def covers_def)
  ultimately show ?thesis
    by (simp add: Issue_def issue_child_def Seal_def demo_encode Let_def)
      (simp add: demo_child_def demo_lib_def demo_defs demo_env1_def fit32_def)
qed

theorem issue_extends_chain_witness:
  "\<exists>issuer g. Open demo_lib demo_env1 = Inr (issuer, g) \<and>
    (timely demo_now (gValidity g) \<longrightarrow>
       Inspect demo_lib demo_root ([demo_env0] @ [demo_env1]) demo_now =
         Inr \<lparr>vSubject = replicate 32 3, vDepth = 1, vValidity = gValidity g, vHops = Suc 1\<rparr>)"
  using issue_extends_chain [OF demo_issue demo_lawful, of demo_now]
  by (auto simp: demo_child_def demo_g1_def)

text \<open>A chain that holds stays a chain that holds when its last hops are dropped and
  when it is evaluated earlier: every non-empty prefix is accepted at every earlier decision
  time, and a prefix never expires before the whole.\<close>

theorem inspect_prefix_and_earlier:
  assumes "Inspect lib root chain now = Inr v" and "0 < n" and "n \<le> length chain"
    and "Present now \<longrightarrow> Present now' \<and> Now now' \<le> Now now"
  shows "\<exists>v'. Inspect lib root (take n chain) now' = Inr v' \<and> vHops v' = n \<and>
    validity_le (vValidity v) (vValidity v')"
proof -
  obtain gs where ok: "chain_ok lib root chain gs" and time: "timely now (gValidity (last gs))"
    and v: "v = chain_leaf gs"
    using assms(1) by (auto simp: Inspect_Inr accepts_def)
  have len: "length gs = length chain" using ok by (simp add: chain_ok_def)
  then have "gs \<noteq> []" "take n gs \<noteq> []" using assms(2,3) by auto
  then have leaf: "last (take n gs) = gs ! (n - 1)" "last gs = gs ! (length gs - 1)"
    using assms(2,3) len by (simp_all add: last_conv_nth)
  have le: "validity_le (gValidity (last gs)) (gValidity (last (take n gs)))"
  proof (cases "n = length gs")
    case False
    then show ?thesis
      using chain_ok_narrower [OF ok, of "n - 1" "length gs - 1"] assms(2,3) len leaf
      by (simp add: narrower_def)
  qed (simp add: validity_le_def)
  then have "timely now' (gValidity (last (take n gs)))"
    using timely_antimono [OF le time] assms(4) by (auto simp: timely_def)
  then have "accepts lib root (take n chain) None now' (take n gs)"
    using chain_ok_take [OF ok assms(3)] assms(2,3) by (intro acceptsI) auto
  then show ?thesis
    using le v len assms(3) by (auto simp: Inspect_Inr chain_leaf_def)
qed

theorem inspect_prefix_and_earlier_witness:
  "\<exists>v'. Inspect demo_lib demo_root [demo_env0] \<lparr>Present = True, Now = 7\<rparr> = Inr v' \<and> vHops v' = 1"
proof -
  have "Inspect demo_lib demo_root [demo_env0, demo_env1] demo_now = Inr (chain_leaf [demo_g0, demo_g1])"
    using demo_accepts(1) by (auto simp: Inspect_Inr)
  from inspect_prefix_and_earlier [OF this, of 1 "\<lparr>Present = True, Now = 7\<rparr>"] show ?thesis
    by (auto simp: demo_now_def)
qed

text \<open>A refusal names the first hop that fails: apart from the length bound and the
  expiry checks, which come before and after the walk, the envelopes before the named hop form
  a chain that holds together, and the refusal's code is what the checks answer at that hop.\<close>

theorem inspect_refusal_is_first:
  assumes "Inspect lib root chain now = Inl r" and "chain \<noteq> []"
    and "rCode r \<notin> {ChainTooLong, TimeRequired, Expired}"
  shows "rHop r < length chain \<and>
    (\<exists>gs. chain_ok lib root (take (rHop r) chain) gs \<and>
       evaluate_hop lib root chain gs (rHop r) (chain ! rHop r) = Inl (rCode r))"
  using assms by (rule Inspect_Inl_hop)

theorem inspect_refusal_is_first_witness:
  "\<exists>gs. chain_ok demo_lib demo_root [demo_env0] gs"
proof -
  have "Inspect demo_lib demo_root [demo_env0, demo_env0] demo_now =
      Inl \<lparr>rCode = ParentMismatch, rHop = 1\<rparr>"
    by (simp add: Inspect_def evaluate_def evaluate_hop_def demo_open ancestry_def maxChain_def)
      (simp add: demo_defs)
  from inspect_refusal_is_first [OF this] show ?thesis by auto
qed

end
