(* ===== verification/Charset.thy ===== *)
theory Charset
  imports Utf8
begin

text \<open>
  The character sets of \<open>internal/pattern/compile.go\<close>: lists of closed intervals of
  runes, their normal form, complement and rendering, and the predefined classes.  A rune is
  an \<open>int\<close>, as in \<open>Utf8\<close>.
\<close>

section \<open>Operations\<close>

record interval =
  lo :: int
  hi :: int

type_synonym characters = "interval list"

definition character :: "int \<Rightarrow> characters" where
  "character r = [\<lparr>lo = r, hi = r\<rparr>]"

definition digits_class :: characters where
  "digits_class = [\<lparr>lo = 48, hi = 57\<rparr>]"

definition words_class :: characters where
  "words_class = [\<lparr>lo = 48, hi = 57\<rparr>, \<lparr>lo = 65, hi = 90\<rparr>, \<lparr>lo = 95, hi = 95\<rparr>, \<lparr>lo = 97, hi = 122\<rparr>]"

definition whitespace_class :: characters where
  "whitespace_class =
     [\<lparr>lo = 0x9, hi = 0xd\<rparr>, \<lparr>lo = 0x20, hi = 0x20\<rparr>, \<lparr>lo = 0xa0, hi = 0xa0\<rparr>,
      \<lparr>lo = 0x1680, hi = 0x1680\<rparr>, \<lparr>lo = 0x2000, hi = 0x200a\<rparr>, \<lparr>lo = 0x2028, hi = 0x2029\<rparr>,
      \<lparr>lo = 0x202f, hi = 0x202f\<rparr>, \<lparr>lo = 0x205f, hi = 0x205f\<rparr>, \<lparr>lo = 0x3000, hi = 0x3000\<rparr>,
      \<lparr>lo = 0xfeff, hi = 0xfeff\<rparr>]"

text \<open>One turn of the loop in \<open>normalized\<close>, over the result built so far.\<close>

definition add_span :: "characters \<Rightarrow> interval \<Rightarrow> characters" where
  "add_span result span =
     (if length result > 0 \<and> lo span \<le> hi (last result) + 1
      then (if hi span > hi (last result)
            then butlast result @ [(last result)\<lparr>hi := hi span\<rparr>] else result)
      else result @ [span])"

definition normalized :: "characters \<Rightarrow> characters" where
  "normalized cs = foldl add_span [] (sort_key lo cs)"

fun complement_from :: "int \<Rightarrow> characters \<Rightarrow> characters" where
  "complement_from next [] =
     (if next \<le> max_rune then [\<lparr>lo = next, hi = max_rune\<rparr>] else [])"
| "complement_from next (span # spans) =
     (if next < lo span
      then \<lparr>lo = next, hi = lo span - 1\<rparr> # complement_from (hi span + 1) spans
      else complement_from (hi span + 1) spans)"

definition complement :: "characters \<Rightarrow> characters" where
  "complement cs = complement_from 0 (normalized cs)"

fun scalars :: "characters \<Rightarrow> characters" where
  "scalars [] = []"
| "scalars (span # spans) =
     (if hi span < 0xd800 \<or> lo span > 0xdfff then span # scalars spans
      else (if lo span < 0xd800 then [\<lparr>lo = lo span, hi = 0xd7ff\<rparr>] else []) @
           (if hi span > 0xdfff then [\<lparr>lo = 0xe000, hi = hi span\<rparr>] else []) @
           scalars spans)"

text \<open>Lower-case hexadecimal, as \<open>%x\<close> prints it.\<close>

definition hex_digit :: "nat \<Rightarrow> char" where
  "hex_digit d = ''0123456789abcdef'' ! d"

fun hex_nat :: "nat \<Rightarrow> string" where
  "hex_nat n = (if n < 16 then [hex_digit n] else hex_nat (n div 16) @ [hex_digit (n mod 16)])"

definition hex_rune :: "int \<Rightarrow> string" where
  "hex_rune r = (CHR 0x5C) # ''x{'' @ hex_nat (nat r) @ ''}''"

definition span_text :: "interval \<Rightarrow> string" where
  "span_text span =
     hex_rune (lo span) @ (if hi span \<noteq> lo span then ''-'' @ hex_rune (hi span) else '''')"

definition pattern :: "characters \<Rightarrow> string" where
  "pattern cs =
     (let cs = scalars cs in
      if length cs = 0 then ''[^'' @ hex_rune 0 @ ''-'' @ hex_rune 0x10ffff @ '']''
      else ''['' @ concat (map span_text (normalized cs)) @ '']'')"

definition single :: "characters \<Rightarrow> int option" where
  "single cs = (case cs of [s] \<Rightarrow> if lo s = hi s then Some (lo s) else None | _ \<Rightarrow> None)"

declare hex_nat.simps [simp del]

section \<open>What a set contains\<close>

definition in_span :: "int \<Rightarrow> interval \<Rightarrow> bool" where
  "in_span r s \<longleftrightarrow> lo s \<le> r \<and> r \<le> hi s"

definition has_rune :: "characters \<Rightarrow> int \<Rightarrow> bool" where
  "has_rune cs r \<longleftrightarrow> (\<exists>s \<in> set cs. in_span r s)"

text \<open>Intervals that are not empty and lie within the code points.\<close>

definition spans_ok :: "characters \<Rightarrow> bool" where
  "spans_ok cs \<longleftrightarrow> (\<forall>s \<in> set cs. 0 \<le> lo s \<and> lo s \<le> hi s \<and> hi s \<le> max_rune)"

text \<open>The normal form: intervals in order with a rune missing between any two.\<close>

definition separated :: "characters \<Rightarrow> bool" where
  "separated cs \<longleftrightarrow> sorted_wrt (\<lambda>a b. hi a + 1 < lo b) cs"

lemma has_rune_simps [simp]:
  "\<not> has_rune [] r" "has_rune (s # ss) r \<longleftrightarrow> in_span r s \<or> has_rune ss r"
  "has_rune (xs @ ys) r \<longleftrightarrow> has_rune xs r \<or> has_rune ys r"
  by (auto simp: has_rune_def)

lemma spans_ok_simps [simp]:
  "spans_ok []"
  "spans_ok (s # ss) \<longleftrightarrow> (0 \<le> lo s \<and> lo s \<le> hi s \<and> hi s \<le> max_rune) \<and> spans_ok ss"
  "spans_ok (xs @ ys) \<longleftrightarrow> spans_ok xs \<and> spans_ok ys"
  by (auto simp: spans_ok_def)

lemma has_rune_character [simp]: "has_rune (character c) r \<longleftrightarrow> r = c"
  by (auto simp: character_def in_span_def)

lemma has_rune_snoc: "result \<noteq> [] \<Longrightarrow> has_rune result r \<longleftrightarrow> has_rune (butlast result) r \<or> in_span r (last result)"
  by (metis append_butlast_last_id has_rune_simps)

lemma add_span_has_rune:
  assumes "result \<noteq> [] \<longrightarrow> lo (last result) \<le> lo span"
  shows "has_rune (add_span result span) r \<longleftrightarrow> has_rune result r \<or> in_span r span"
  using assms
  by (auto simp: add_span_def has_rune_snoc in_span_def)

lemma last_add_span_lo:
  assumes "result \<noteq> [] \<longrightarrow> lo (last result) \<le> lo span"
  shows "add_span result span \<noteq> [] \<and> lo (last (add_span result span)) \<le> lo span"
  using assms by (auto simp: add_span_def)

lemma foldl_add_span_has_rune:
  assumes "sorted (map lo spans)" and "result \<noteq> [] \<longrightarrow> (\<forall>s \<in> set spans. lo (last result) \<le> lo s)"
  shows "has_rune (foldl add_span result spans) r \<longleftrightarrow> has_rune result r \<or> has_rune spans r"
  using assms
proof (induction spans arbitrary: result)
  case Nil
  then show ?case by simp
next
  case (Cons s spans)
  have first: "result \<noteq> [] \<longrightarrow> lo (last result) \<le> lo s" using Cons.prems(2) by simp
  have "has_rune (foldl add_span (add_span result s) spans) r \<longleftrightarrow>
      has_rune (add_span result s) r \<or> has_rune spans r"
    using Cons.prems(1) last_add_span_lo [OF first] by (intro Cons.IH) fastforce+
  then show ?case using add_span_has_rune [OF first] by auto
qed

lemma normalized_has_rune [simp]: "has_rune (normalized cs) r \<longleftrightarrow> has_rune cs r"
  unfolding normalized_def
  by (subst foldl_add_span_has_rune) (auto simp: has_rune_def)

lemma add_span_separated:
  assumes "separated result" and "result \<noteq> [] \<longrightarrow> lo (last result) \<le> lo span"
  shows "separated (add_span result span)"
proof (cases "result = []")
  case False
  then obtain front l where r: "result = front @ [l]" by (metis append_butlast_last_id)
  then show ?thesis
    using assms by (fastforce simp: separated_def add_span_def sorted_wrt_append)
qed (simp add: separated_def add_span_def)

lemma foldl_add_span_separated:
  assumes "sorted (map lo spans)" and "separated result"
    and "result \<noteq> [] \<longrightarrow> (\<forall>s \<in> set spans. lo (last result) \<le> lo s)"
  shows "separated (foldl add_span result spans)"
  using assms
proof (induction spans arbitrary: result)
  case (Cons s spans)
  have first: "result \<noteq> [] \<longrightarrow> lo (last result) \<le> lo s" using Cons.prems(3) by simp
  have "separated (foldl add_span (add_span result s) spans)"
    using Cons.prems(1,2) add_span_separated [OF _ first] last_add_span_lo [OF first]
    by (intro Cons.IH) fastforce+
  then show ?case by simp
qed simp

lemma normalized_separated: "separated (normalized cs)"
  unfolding normalized_def
  by (rule foldl_add_span_separated) (simp_all add: separated_def)

lemma add_span_ok:
  assumes "spans_ok result" "spans_ok [span]"
  shows "spans_ok (add_span result span)"
proof (cases "result = []")
  case False
  then obtain front l where r: "result = front @ [l]" by (metis append_butlast_last_id)
  then show ?thesis using assms by (auto simp: add_span_def)
qed (use assms in \<open>simp add: add_span_def\<close>)

lemma foldl_add_span_ok:
  "spans_ok result \<Longrightarrow> spans_ok spans \<Longrightarrow> spans_ok (foldl add_span result spans)"
proof (induction spans arbitrary: result)
  case (Cons s spans)
  have "spans_ok (add_span result s)"
    using Cons.prems by (intro add_span_ok) simp_all
  then show ?case using Cons.IH Cons.prems(2) by simp
qed simp

lemma normalized_ok: "spans_ok cs \<Longrightarrow> spans_ok (normalized cs)"
  unfolding normalized_def
  by (rule foldl_add_span_ok) (simp_all add: spans_ok_def)

lemma has_rune_ok: "spans_ok cs \<Longrightarrow> has_rune cs r \<Longrightarrow> rune_ok r"
  by (force simp: spans_ok_def has_rune_def in_span_def rune_ok_def)

text \<open>A list that is already in normal form is left alone.\<close>

lemma normalized_id:
  assumes "separated cs" "spans_ok cs"
  shows "normalized cs = cs"
proof -
  have "sorted (map lo cs)"
    using assms by (induction cs) (fastforce simp: separated_def spans_ok_def)+
  then have "sort_key lo cs = cs" by (simp add: sorted_sort_id sort_key_id_if_sorted)
  moreover have "separated (pre @ spans) \<Longrightarrow> foldl add_span pre spans = pre @ spans" for pre spans
  proof (induction spans arbitrary: pre)
    case (Cons s spans)
    then have "add_span pre s = pre @ [s]"
      by (cases pre rule: rev_cases) (auto simp: add_span_def separated_def sorted_wrt_append)
    then show ?case using Cons.IH [of "pre @ [s]"] Cons.prems by simp
  qed simp
  ultimately show ?thesis using assms(1) by (simp add: normalized_def)
qed

lemma complement_from_has_rune:
  assumes "separated spans" "spans_ok spans" "\<forall>s \<in> set spans. next \<le> lo s"
  shows "has_rune (complement_from next spans) r \<longleftrightarrow>
    next \<le> r \<and> r \<le> max_rune \<and> \<not> has_rune spans r"
  using assms
proof (induction "next" spans rule: complement_from.induct)
  case (1 "next")
  then show ?case by (auto simp: in_span_def)
next
  case (2 "next" span spans)
  have rest: "\<forall>s \<in> set spans. hi span + 1 < lo s" and sep: "separated spans"
    using "2.prems"(1) by (auto simp: separated_def)
  have no: "\<not> has_rune spans r" if "r \<le> hi span + 1"
    using rest that by (fastforce simp: has_rune_def in_span_def)
  have IH: "has_rune (complement_from (hi span + 1) spans) r \<longleftrightarrow>
      hi span + 1 \<le> r \<and> r \<le> max_rune \<and> \<not> has_rune spans r"
    using "2.IH" sep rest "2.prems"(2) by (cases "next < lo span") (auto simp: less_imp_le)
  show ?case
    using "2.prems"(2,3) IH no by (auto simp: in_span_def)
qed

lemma complement_has_rune:
  "spans_ok cs \<Longrightarrow> has_rune (complement cs) r \<longleftrightarrow> rune_ok r \<and> \<not> has_rune cs r"
  unfolding complement_def
  using normalized_ok [of cs] normalized_separated [of cs]
  by (subst complement_from_has_rune) (auto simp: spans_ok_def rune_ok_def)

lemma complement_from_ok:
  assumes "separated spans" "spans_ok spans" "0 \<le> next" "\<forall>s \<in> set spans. next \<le> lo s"
  shows "spans_ok (complement_from next spans) \<and> separated (complement_from next spans) \<and>
    (\<forall>s \<in> set (complement_from next spans). next \<le> lo s)"
  using assms
proof (induction "next" spans rule: complement_from.induct)
  case (1 "next")
  then show ?case by (auto simp: separated_def)
next
  case (2 "next" span spans)
  have rest: "\<forall>s \<in> set spans. hi span + 1 \<le> lo s" and sep: "separated spans"
    using "2.prems"(1) by (auto simp: separated_def)
  have IH: "spans_ok (complement_from (hi span + 1) spans) \<and>
      separated (complement_from (hi span + 1) spans) \<and>
      (\<forall>s \<in> set (complement_from (hi span + 1) spans). hi span + 1 \<le> lo s)"
  proof -
    have ok: "spans_ok spans" "0 \<le> hi span + 1" using "2.prems"(2) by auto
    show ?thesis
      using "2.IH"(1) [OF _ sep ok rest] "2.IH"(2) [OF _ sep ok rest] by blast
  qed
  let ?rest = "complement_from (hi span + 1) spans"
  have first: "0 \<le> lo span" "lo span \<le> hi span" "hi span \<le> max_rune" "next \<le> lo span"
    using "2.prems"(2,4) by auto
  have after: "\<forall>s \<in> set ?rest. lo span < lo s" "\<forall>s \<in> set ?rest. next \<le> lo s"
    using IH first by fastforce+
  show ?case
  proof (cases "next < lo span")
    case True
    then show ?thesis
      using IH after first "2.prems"(3) by (simp add: separated_def)
  next
    case False
    then show ?thesis using IH after by simp
  qed
qed

lemma complement_ok:
  assumes "spans_ok cs"
  shows "spans_ok (complement cs) \<and> separated (complement cs)"
proof -
  have "\<forall>s \<in> set (normalized cs). 0 \<le> lo s"
    using normalized_ok [OF assms] by (simp add: spans_ok_def)
  then show ?thesis
    using normalized_ok [OF assms] normalized_separated complement_from_ok [of "normalized cs" 0]
    by (simp add: complement_def)
qed

lemma scalars_has_rune:
  "has_rune (scalars cs) r \<longleftrightarrow> has_rune cs r \<and> \<not> (0xd800 \<le> r \<and> r \<le> 0xdfff)"
  by (induction cs rule: scalars.induct) (auto simp: in_span_def)

lemma classes_ok [simp]:
  "spans_ok digits_class" "spans_ok words_class" "spans_ok whitespace_class"
  by (simp_all add: digits_class_def words_class_def whitespace_class_def)

text \<open>Two sets in normal form with the same runes are the same list.\<close>

lemma separated_unique:
  assumes "separated xs" "separated ys" "spans_ok xs" "spans_ok ys"
    and "\<And>r. has_rune xs r \<longleftrightarrow> has_rune ys r"
  shows "xs = ys"
  using assms
proof (induction xs arbitrary: ys)
  case Nil
  have "ys = []"
  proof (rule ccontr)
    assume "ys \<noteq> []"
    then obtain y zs where "ys = y # zs" by (cases ys) auto
    then show False using Nil(4) Nil(5) [of "lo y"] by (auto simp: in_span_def)
  qed
  then show ?case by simp
next
  case (Cons x xs)
  obtain y zs where ys: "ys = y # zs"
    using Cons.prems(3) Cons.prems(5) [of "lo x"] by (cases ys) (auto simp: in_span_def)
  have xs: "has_rune xs r \<Longrightarrow> hi x + 1 < r" and zs: "has_rune zs r \<Longrightarrow> hi y + 1 < r" for r
    using Cons.prems(1,2) unfolding ys
    by (fastforce simp: separated_def has_rune_def in_span_def)+
  have okx: "lo x \<le> hi x" and oky: "lo y \<le> hi y" using Cons.prems(3,4) ys by auto
  have eq: "in_span r x \<or> has_rune xs r \<longleftrightarrow> in_span r y \<or> has_rune zs r" for r
    using Cons.prems(5) [of r] ys by simp
  have lo: "lo x = lo y"
    using eq [of "lo x"] eq [of "lo y"] xs [of "lo y"] zs [of "lo x"] okx oky
    by (auto simp: in_span_def)
  have hi: "hi x = hi y"
    using eq [of "hi x"] eq [of "hi y"] eq [of "hi x + 1"] eq [of "hi y + 1"]
      xs [of "hi x + 1"] xs [of "hi y"] zs [of "hi y + 1"] zs [of "hi x"] xs [of "hi y + 1"]
      zs [of "hi x + 1"] lo okx oky
    by (auto simp: in_span_def)
  have rest: "has_rune xs r \<longleftrightarrow> has_rune zs r" for r
    using eq [of r] xs [of r] zs [of r] lo hi by (auto simp: in_span_def)
  have "xs = zs"
    using Cons.prems(1-4) ys rest by (intro Cons.IH) (auto simp: separated_def)
  then show ?case using lo hi ys by simp
qed

lemma complement_involutive:
  assumes "spans_ok cs"
  shows "complement (complement cs) = normalized cs"
proof (rule separated_unique)
  have c: "spans_ok (complement cs)" using complement_ok [OF assms] by simp
  show "has_rune (complement (complement cs)) r \<longleftrightarrow> has_rune (normalized cs) r" for r
    using has_rune_ok [OF assms, of r]
    by (auto simp: complement_has_rune [OF c] complement_has_rune [OF assms])
  show "spans_ok (complement (complement cs))" "separated (complement (complement cs))"
    using complement_ok [OF c] by simp_all
qed (use assms normalized_ok normalized_separated in auto)

end
