(* ===== verification/Pattern_Match.thy ===== *)
theory Pattern_Match
  imports Charset
begin

text \<open>
  \<open>internal/pattern/match.go\<close>: the expression tree and the matcher that runs it
  directly, with its memo.  The memo's key is a node and a position; Go identifies a node by
  its pointer, and since the parser builds a proper tree the model identifies it by the path
  from the root to it.  The loop of an unlimited repetition has no bound of its own in the
  code; it takes fuel here, \<open>None\<close> is running out of it, and the matcher's correctness
  theorem shows it never does.
\<close>

section \<open>The expression tree\<close>

datatype node = Node (kind: char) (nset: characters) (children: "node list")
  (nmin: u64) (nmax: u64) (width: u64) (unlimited: bool)

definition maxUint64 :: u64 where "maxUint64 = - 1"

definition setNode :: "characters \<Rightarrow> node" where
  "setNode cs = Node CHR ''c'' (normalized cs) [] 0 0 1 False"

definition assertionNode :: "char \<Rightarrow> node" where
  "assertionNode k = Node k [] [] 0 0 0 False"

definition addWidth :: "u64 \<Rightarrow> u64 \<Rightarrow> u64" where
  "addWidth a b = (if a > maxUint64 - b then maxUint64 else a + b)"

definition joinNode :: "char \<Rightarrow> node list \<Rightarrow> node" where
  "joinNode k ch =
     (if length ch = 1 then ch ! 0
      else Node k [] ch 0 0
        (foldl (\<lambda>w child. if k = CHR ''|'' then min w (width child) else addWidth w (width child))
           (if k = CHR ''|'' then maxUint64 else 0) ch) False)"

definition repeatNode :: "node \<Rightarrow> u64 \<Rightarrow> u64 \<Rightarrow> bool \<Rightarrow> node" where
  "repeatNode child mn mx unl =
     (let w = width child * mn;
          w = (if mn \<noteq> 0 \<and> width child > maxUint64 div mn then maxUint64 else w)
      in Node CHR ''r'' [] [child] mn mx w unl)"

section \<open>The matcher\<close>

type_synonym memo = "(nat list \<times> nat) \<rightharpoonup> nat list"
type_synonym step = "nat \<Rightarrow> memo \<Rightarrow> (nat list \<times> memo) option"

definition uniquePositions :: "nat list \<Rightarrow> nat list" where
  "uniquePositions positions = remdups_adj (sort positions)"

fun advance_from :: "step \<Rightarrow> nat list \<Rightarrow> nat list \<Rightarrow> memo \<Rightarrow> (nat list \<times> memo) option" where
  "advance_from f [] result memo = Some (uniquePositions result, memo)"
| "advance_from f (start # positions) result memo =
     (case f start memo of
        None \<Rightarrow> None
      | Some (r, memo) \<Rightarrow> advance_from f positions (result @ r) memo)"

definition advance :: "step \<Rightarrow> nat list \<Rightarrow> memo \<Rightarrow> (nat list \<times> memo) option" where
  "advance f positions memo = advance_from f positions [] memo"

text \<open>The loop over a sequence's children, and the one over an alternative's.\<close>

fun seq_loop ::
  "nat list \<Rightarrow> nat \<Rightarrow> (nat list \<Rightarrow> step) list \<Rightarrow> nat list \<Rightarrow> memo \<Rightarrow> (nat list \<times> memo) option" where
  "seq_loop path i [] result memo = Some (result, memo)"
| "seq_loop path i (child # rest) result memo =
     (case advance (child (path @ [i])) result memo of
        None \<Rightarrow> None
      | Some (result, memo) \<Rightarrow>
          if length result = 0 then Some (result, memo)
          else seq_loop path (Suc i) rest result memo)"

fun alt_loop ::
  "nat list \<Rightarrow> nat \<Rightarrow> (nat list \<Rightarrow> step) list \<Rightarrow> nat \<Rightarrow> nat list \<Rightarrow> memo \<Rightarrow> (nat list \<times> memo) option" where
  "alt_loop path i [] start result memo = Some (uniquePositions result, memo)"
| "alt_loop path i (child # rest) start result memo =
     (case child (path @ [i]) start memo of
        None \<Rightarrow> None
      | Some (r, memo) \<Rightarrow> alt_loop path (Suc i) rest start (result @ r) memo)"

text \<open>The two loops of a repetition: up to the minimum, then up to the maximum.\<close>

lemma unat_Suc_less:
  assumes "(c :: 'a :: len word) < m"
  shows "unat (c + 1) = Suc (unat c)"
proof -
  have "unat c < unat m" using assms by (simp add: word_less_nat_alt)
  moreover have "unat m < 2 ^ LENGTH('a)" by (rule unsigned_less)
  ultimately have "Suc (unat c) < 2 ^ LENGTH('a)" by linarith
  then show ?thesis by (simp add: unat_word_ariths)
qed

function min_loop ::
  "step \<Rightarrow> u64 \<Rightarrow> u64 \<Rightarrow> nat list \<Rightarrow> memo \<Rightarrow> (u64 \<times> nat list \<times> memo) option" where
  "min_loop f mn count current memo =
     (if count < mn \<and> length current > 0 then
        (case advance f current memo of
           None \<Rightarrow> None
         | Some (next', memo) \<Rightarrow>
             if next' = current then Some (mn, next', memo)
             else min_loop f mn (count + 1) next' memo)
      else Some (count, current, memo))"
  by pat_completeness auto
termination
proof (relation "measure (\<lambda>(f, mn, count, current, memo). unat mn - unat count)")
  fix f :: step and mn count :: u64 and current memo a next' memo'
  assume "count < mn \<and> 0 < length current"
  then have "unat (count + 1) = Suc (unat count)" "unat count < unat mn"
    using unat_Suc_less [of count mn] by (simp_all add: word_less_nat_alt)
  then show "((f, mn, count + 1, next', memo'), f, mn, count, current, memo)
      \<in> measure (\<lambda>(f, mn, count, current, memo). unat mn - unat count)"
    by simp
qed simp

declare min_loop.simps [simp del]

fun max_loop ::
  "nat \<Rightarrow> step \<Rightarrow> bool \<Rightarrow> u64 \<Rightarrow> u64 \<Rightarrow> nat list \<Rightarrow> nat list \<Rightarrow> memo \<Rightarrow> (nat list \<times> memo) option" where
  "max_loop 0 f unl mx count current result memo = None"
| "max_loop (Suc fuel) f unl mx count current result memo =
     (if unl \<or> count < mx then
        (case advance f current memo of
           None \<Rightarrow> None
         | Some (next', memo) \<Rightarrow>
             if length next' = 0 \<or> next' = current then Some (uniquePositions result, memo)
             else max_loop fuel f unl mx (count + 1) next' (result @ next') memo)
      else Some (uniquePositions result, memo))"

definition word_at :: "int list \<Rightarrow> int \<Rightarrow> bool" where
  "word_at inp at =
     (if at < 0 \<or> at \<ge> int (length inp) then False
      else let c = inp ! nat at in
        c \<ge> 48 \<and> c \<le> 57 \<or> c \<ge> 65 \<and> c \<le> 90 \<or> c = 95 \<or> c \<ge> 97 \<and> c \<le> 122)"

text \<open>The switch over a node's kind; \<open>ch\<close> are the matchers of its children.\<close>

definition repeat_ends ::
  "nat \<Rightarrow> step \<Rightarrow> u64 \<Rightarrow> u64 \<Rightarrow> bool \<Rightarrow> nat \<Rightarrow> memo \<Rightarrow> (nat list \<times> memo) option" where
  "repeat_ends fuel f mn mx unl start memo =
     (case min_loop f mn 0 [start] memo of
        None \<Rightarrow> None
      | Some (count, current, memo) \<Rightarrow>
          if length current > 0 then max_loop fuel f unl mx count current current memo
          else Some ([], memo))"

definition kind_ends ::
  "int list \<Rightarrow> char \<Rightarrow> characters \<Rightarrow> (nat list \<Rightarrow> step) list \<Rightarrow> u64 \<Rightarrow> u64 \<Rightarrow> bool \<Rightarrow> nat list \<Rightarrow> step" where
  "kind_ends inp k cs ch mn mx unl path start memo =
     (if k = CHR ''c'' then
        Some (if start < length inp \<and> (\<exists>span \<in> set cs. inp ! start \<ge> lo span \<and> inp ! start \<le> hi span)
              then [start + 1] else [], memo)
      else if k = CHR ''^'' then Some (if start = 0 then [start] else [], memo)
      else if k = CHR ''$'' then Some (if start = length inp then [start] else [], memo)
      else if k = CHR ''b'' \<or> k = CHR ''B'' then
        Some (if (word_at inp (int start - 1) \<noteq> word_at inp (int start)) = (k = CHR ''b'')
              then [start] else [], memo)
      else if k = CHR ''s'' then seq_loop path 0 ch [start] memo
      else if k = CHR ''|'' then alt_loop path 0 ch start [] memo
      else if k = CHR ''r'' then
        repeat_ends (length inp + 2) ((ch ! 0) (path @ [0])) mn mx unl start memo
      else Some ([], memo))"

fun ends :: "int list \<Rightarrow> node \<Rightarrow> nat list \<Rightarrow> step" where
  "ends inp (Node k cs ch mn mx w unl) =
     (\<lambda>path start memo.
        if w > word_of_nat (length inp - start) then Some ([], memo)
        else (case memo (path, start) of
                Some result \<Rightarrow> Some (result, memo)
              | None \<Rightarrow>
                  (case kind_ends inp k cs (map (ends inp) ch) mn mx unl path start memo of
                     None \<Rightarrow> None
                   | Some (result, memo) \<Rightarrow> Some (result, memo((path, start) \<mapsto> result)))))"

record regexp =
  native :: "(string \<Rightarrow> bool) option"
  tree :: node

fun match_loop :: "int list \<Rightarrow> node \<Rightarrow> nat list \<Rightarrow> memo \<Rightarrow> bool option" where
  "match_loop inp n [] memo = Some False"
| "match_loop inp n (start # starts) memo =
     (case ends inp n [] start memo of
        None \<Rightarrow> None
      | Some (r, memo) \<Rightarrow> if length r > 0 then Some True else match_loop inp n starts memo)"

definition MatchString :: "regexp \<Rightarrow> string \<Rightarrow> bool option" where
  "MatchString r value =
     (case native r of
        Some engine \<Rightarrow> Some (engine value)
      | None \<Rightarrow>
          let inp = runes value
          in match_loop inp (tree r) [0..<length inp + 1] Map.empty)"

section \<open>What an expression matches\<close>

text \<open>
  \<open>sem inp n\<close> relates a start position to every end position of a match of \<open>n\<close> in
  the runes \<open>inp\<close>: no memo, no pruning, no early exit.
\<close>

definition first_rel :: "(nat \<times> nat) set list \<Rightarrow> (nat \<times> nat) set" where
  "first_rel R = (case R of [] \<Rightarrow> {} | r # _ \<Rightarrow> r)"

fun sem :: "int list \<Rightarrow> node \<Rightarrow> (nat \<times> nat) set" where
  "sem inp (Node k cs ch mn mx w unl) =
     (let R = map (sem inp) ch; n = length inp in
      if k = CHR ''c'' then {(i, Suc i) |i. i < n \<and> has_rune cs (inp ! i)}
      else if k = CHR ''^'' then {(0, 0)}
      else if k = CHR ''$'' then {(n, n)}
      else if k = CHR ''b'' then
        {(i, i) |i. i \<le> n \<and> word_at inp (int i - 1) \<noteq> word_at inp (int i)}
      else if k = CHR ''B'' then
        {(i, i) |i. i \<le> n \<and> word_at inp (int i - 1) = word_at inp (int i)}
      else if k = CHR ''s'' then foldr (O) R {(i, i) |i. i \<le> n}
      else if k = CHR ''|'' then \<Union> (set R)
      else if k = CHR ''r'' then
        {(i, j). i \<le> n \<and> (\<exists>c. unat mn \<le> c \<and> (unl \<or> c \<le> unat mx) \<and> (i, j) \<in> first_rel R ^^ c)}
      else {})"

text \<open>
  What the parser guarantees of a tree: a repetition has one child and ordered bounds, and a
  node's width is a lower bound for what it can consume.
\<close>

fun wf_node :: "node \<Rightarrow> bool" where
  "wf_node (Node k cs ch mn mx w unl) \<longleftrightarrow>
     (\<forall>c \<in> set ch. wf_node c) \<and>
     k \<in> set ''c^$bBs|r'' \<and>
     (k = CHR ''c'' \<longrightarrow> unat w \<le> 1) \<and>
     (k \<in> set ''^$bB'' \<longrightarrow> w = 0) \<and>
     (k = CHR ''s'' \<longrightarrow> unat w \<le> sum_list (map (\<lambda>c. unat (width c)) ch)) \<and>
     (k = CHR ''|'' \<longrightarrow> (\<forall>c \<in> set ch. unat w \<le> unat (width c))) \<and>
     (k = CHR ''r'' \<longrightarrow> length ch = 1 \<and> mn \<le> mx \<and> unat w \<le> unat (width (ch ! 0)) * unat mn)"

subsection \<open>Relations that move forward\<close>

definition after :: "(nat \<times> nat) set \<Rightarrow> nat set \<Rightarrow> nat \<Rightarrow> nat set" where
  "after R S t = (R ^^ t) `` S"

lemma after_0 [simp]: "after R S 0 = S"
  by (auto simp: after_def)

lemma after_Suc: "after R S (Suc t) = R `` after R S t"
  by (auto simp: after_def)

lemma after_add: "after R S (s + t) = after R (after R S s) t"
  by (simp add: after_def relpow_add relcomp_Image)

lemma after_fixed: "R `` after R S t = after R S t \<Longrightarrow> after R S (t + s) = after R S t"
  by (induction s) (simp_all add: after_Suc)

lemma after_empty: "after R S t = {} \<Longrightarrow> after R S (t + s) = {}"
  by (induction s) (simp_all add: after_Suc)

lemma after_fixed_le:
  "R `` after R S t = after R S t \<Longrightarrow> t \<le> t' \<Longrightarrow> after R S t' = after R S t"
  using after_fixed [of R S t "t' - t"] by simp

lemma after_empty_le: "after R S t = {} \<Longrightarrow> t \<le> t' \<Longrightarrow> after R S t' = {}"
  using after_empty [of R S t "t' - t"] by simp

text \<open>
  The interface the repetition loops need of a child: it relates positions of an input of
  length \<open>n\<close>, and never moves back.
\<close>

locale forward_relation =
  fixes R :: "(nat \<times> nat) set" and n :: nat
  assumes forward: "(i, j) \<in> R \<Longrightarrow> i \<le> j \<and> j \<le> n"
begin

lemma image_bounded: "R `` S \<subseteq> {..n}"
  using forward by auto

lemma image_finite: "finite (R `` S)"
  using image_bounded finite_subset by blast

lemma after_bounded: "S \<subseteq> {..n} \<Longrightarrow> after R S t \<subseteq> {..n}"
  by (cases t) (simp_all only: after_0 after_Suc image_bounded)

lemma after_finite: "finite S \<Longrightarrow> finite (after R S t)"
  by (cases t) (simp_all add: after_Suc image_finite)

lemma image_split:
  "q \<in> R `` T \<longleftrightarrow> (\<exists>i < q. i \<in> T \<and> (i, q) \<in> R) \<or> q \<in> T \<and> (q, q) \<in> R"
proof
  assume "q \<in> R `` T"
  then obtain i where "i \<in> T" "(i, q) \<in> R" by auto
  then show "(\<exists>i < q. i \<in> T \<and> (i, q) \<in> R) \<or> q \<in> T \<and> (q, q) \<in> R"
    using forward [of i q] by (cases "i = q") auto
qed auto

text \<open>After as many steps as there are positions below it, a position no longer changes.\<close>

lemma settles: "Suc q \<le> t \<Longrightarrow> q \<in> after R S (Suc t) \<longleftrightarrow> q \<in> after R S t"
proof (induction q arbitrary: t rule: less_induct)
  case (less q)
  obtain t' where t: "t = Suc t'" using less.prems by (cases t) auto
  have below: "i \<in> after R S t \<longleftrightarrow> i \<in> after R S t'" if "i < q" for i
    using less.IH [of i t'] less.prems that by (simp add: t)
  have one: "q \<in> after R S (Suc t) \<longleftrightarrow>
      (\<exists>i < q. i \<in> after R S t \<and> (i, q) \<in> R) \<or> q \<in> after R S t \<and> (q, q) \<in> R"
    by (simp only: after_Suc image_split)
  have two: "q \<in> after R S t \<longleftrightarrow>
      (\<exists>i < q. i \<in> after R S t' \<and> (i, q) \<in> R) \<or> q \<in> after R S t' \<and> (q, q) \<in> R"
    unfolding t by (simp only: after_Suc image_split)
  show ?case
    using one two below by blast
qed

lemma settled:
  assumes "S \<subseteq> {..n}" "Suc n \<le> t"
  shows "R `` after R S t = after R S t"
proof -
  have "q \<in> after R S (Suc t) \<longleftrightarrow> q \<in> after R S t" if "q \<le> n" for q
    using assms(2) that by (intro settles) simp
  then have "{..n} \<inter> after R S (Suc t) = {..n} \<inter> after R S t" by auto
  then have "after R S (Suc t) = after R S t"
    using after_bounded [OF assms(1), of t] after_bounded [OF assms(1), of "Suc t"]
    by (simp add: Int_absorb1)
  then show ?thesis by (simp only: after_Suc)
qed

end

end
