(* ===== verification/Pattern_Match_Correct.thy ===== *)
theory Pattern_Match_Correct
  imports Pattern_Match
begin

text \<open>
  The matcher of \<open>Pattern_Match\<close> against the meaning \<open>sem\<close> of an expression: it
  always returns, and the ends it computes for a start position are the sorted list of all
  positions \<open>sem\<close> relates to it, with memo, width pruning and early loop exits.
\<close>

abbreviation sls :: "nat set \<Rightarrow> nat list" where "sls \<equiv> sorted_list_of_set"

definition good :: "(memo \<Rightarrow> bool) \<Rightarrow> step \<Rightarrow> (nat \<times> nat) set \<Rightarrow> nat \<Rightarrow> bool" where
  "good P f R n \<longleftrightarrow>
     (\<forall>p memo. p \<le> n \<longrightarrow> P memo \<longrightarrow>
        (\<exists>memo'. f p memo = Some (sls (R `` {p}), memo') \<and> P memo'))"

lemma goodD:
  "good P f R n \<Longrightarrow> p \<le> n \<Longrightarrow> P memo \<Longrightarrow>
   \<exists>memo'. f p memo = Some (sls (R `` {p}), memo') \<and> P memo'"
  by (simp add: good_def)

section \<open>Positions as sets\<close>

lemma strict_remdups_adj: "sorted xs \<Longrightarrow> sorted_wrt (<) (remdups_adj (xs :: nat list))"
  by (induction xs rule: remdups_adj.induct) (auto simp: less_le)

lemma uniquePositions_sls: "uniquePositions xs = sls (set xs)"
proof -
  have "sorted_wrt (<) (uniquePositions xs)"
    unfolding uniquePositions_def by (rule strict_remdups_adj) simp
  then have "sls (set (uniquePositions xs)) = uniquePositions xs"
    by (intro sorted_list_of_set.idem_if_sorted_distinct) (simp_all add: strict_sorted_iff)
  then show ?thesis by (simp add: uniquePositions_def)
qed

lemma sls_eq_iff: "finite A \<Longrightarrow> finite B \<Longrightarrow> sls A = sls B \<longleftrightarrow> A = B"
  by (metis set_sorted_list_of_set)

lemma sls_empty_iff: "finite A \<Longrightarrow> sls A = [] \<longleftrightarrow> A = {}"
  by (metis set_empty set_sorted_list_of_set sorted_list_of_set.sorted_key_list_of_set_empty)

lemma advance_from_ok:
  assumes g: "good P f R n" and fr: "forward_relation R n"
  shows "set ps \<subseteq> {..n} \<Longrightarrow> P memo \<Longrightarrow>
    \<exists>memo'. advance_from f ps res memo = Some (sls (set res \<union> R `` set ps), memo') \<and> P memo'"
proof (induction ps arbitrary: res memo)
  case Nil
  then show ?case by (simp add: uniquePositions_sls)
next
  case (Cons p ps)
  obtain m1 where m1: "f p memo = Some (sls (R `` {p}), m1)" "P m1"
    using goodD [OF g _ Cons.prems(2)] Cons.prems(1) by auto
  obtain m2 where "advance_from f ps (res @ sls (R `` {p})) m1 =
      Some (sls (set (res @ sls (R `` {p})) \<union> R `` set ps), m2)" "P m2"
    using Cons.IH m1(2) Cons.prems(1) by fastforce
  moreover have "finite (R `` {p})" by (rule forward_relation.image_finite [OF fr])
  moreover have "R `` set (p # ps) = R `` {p} \<union> R `` set ps" by auto
  ultimately show ?case using m1 by (simp add: Un_assoc)
qed

lemma advance_ok:
  assumes "good P f R n" "forward_relation R n" "finite S" "S \<subseteq> {..n}" "P memo"
  shows "\<exists>memo'. advance f (sls S) memo = Some (sls (R `` S), memo') \<and> P memo'"
  using advance_from_ok [OF assms(1,2), of "sls S" memo "[]"] assms(3-5)
  by (simp add: advance_def)

section \<open>The repetition loops\<close>

lemma min_loop_ok:
  assumes g: "good P f R n" and fr: "forward_relation R n" and i: "i \<le> n"
  shows "count \<le> mn \<Longrightarrow> current = sls (after R {i} (unat count)) \<Longrightarrow> P memo \<Longrightarrow>
    \<exists>count' memo'. min_loop f mn count current memo =
        Some (count', sls (after R {i} (unat mn)), memo') \<and> P memo' \<and>
      (after R {i} (unat mn) \<noteq> {} \<longrightarrow> count' = mn)"
proof (induction "unat mn - unat count" arbitrary: count current memo rule: less_induct)
  case less
  let ?A = "\<lambda>t. after R {i} t"
  have fin: "finite (?A t)" for t by (rule forward_relation.after_finite [OF fr]) simp
  have bound: "?A t \<subseteq> {..n}" for t
    using i by (intro forward_relation.after_bounded [OF fr]) simp
  have later: "unat count \<le> unat mn"
    using less.prems(1) by (simp add: word_le_nat_alt)
  show ?case
  proof (cases "count < mn \<and> length current > 0")
    case False
    have stay: "?A (unat mn) = ?A (unat count) \<and> (?A (unat mn) \<noteq> {} \<longrightarrow> count = mn)"
    proof (cases "count = mn")
      case ne: False
      then have "count < mn" using less.prems(1) by simp
      then have "?A (unat count) = {}"
        using False less.prems(2) fin by (simp add: sls_empty_iff)
      then show ?thesis using later by (simp add: after_empty_le)
    qed simp
    have "min_loop f mn count current memo = Some (count, current, memo)"
      by (subst min_loop.simps) (simp only: False if_False)
    then have "min_loop f mn count current memo = Some (count, sls (?A (unat mn)), memo)"
      by (simp only: less.prems(2) conjunct1 [OF stay])
    then show ?thesis using less.prems(3) conjunct2 [OF stay] by blast
  next
    case True
    then have suc: "unat (count + 1) = Suc (unat count)" and lt: "unat count < unat mn"
      by (auto simp: unat_Suc_less word_less_nat_alt)
    obtain m1 where m1: "advance f current memo = Some (sls (?A (Suc (unat count))), m1)" "P m1"
      using advance_ok [OF g fr fin bound less.prems(3)] less.prems(2) by (auto simp: after_Suc)
    show ?thesis
    proof (cases "sls (?A (Suc (unat count))) = current")
      case same: True
      have "?A (Suc (unat count)) = ?A (unat count)"
        using trans [OF same less.prems(2)] by (simp only: sls_eq_iff fin)
      moreover from this have "R `` ?A (unat count) = ?A (unat count)" by (simp only: after_Suc)
      ultimately have "?A (unat mn) = ?A (Suc (unat count))"
        using after_fixed_le [OF _ later] by metis
      moreover have "min_loop f mn count current memo = Some (mn, sls (?A (Suc (unat count))), m1)"
        by (subst min_loop.simps) (use True m1(1) same in \<open>simp del: after_Suc\<close>)
      ultimately show ?thesis using m1(2) by (simp only:) blast
    next
      case False
      have "min_loop f mn count current memo =
          min_loop f mn (count + 1) (sls (?A (Suc (unat count)))) m1"
        using True m1 False by (subst min_loop.simps) simp
      moreover have "count + 1 \<le> mn" using lt suc by (simp add: word_le_nat_alt)
      ultimately show ?thesis
        using less.hyps [of "count + 1" "sls (?A (Suc (unat count)))" m1] lt suc m1(2) by simp
    qed
  qed
qed

text \<open>
  The second loop, started at the positions \<open>B\<close> after the minimum number of turns; after
  \<open>t\<close> turns of its own it holds the positions of up to \<open>t\<close> more repetitions.
\<close>

definition upto_after :: "(nat \<times> nat) set \<Rightarrow> nat set \<Rightarrow> nat \<Rightarrow> nat set" where
  "upto_after R B t = (\<Union>s \<in> {..t}. after R B s)"

lemma upto_after_Suc: "upto_after R B (Suc t) = upto_after R B t \<union> after R B (Suc t)"
  by (auto simp: upto_after_def atMost_Suc)

lemma upto_after_mono: "t \<le> t' \<Longrightarrow> upto_after R B t \<subseteq> upto_after R B t'"
  by (fastforce simp: upto_after_def)

lemma upto_after_all:
  assumes "after R B (Suc t) = {} \<or> after R B (Suc t) = after R B t"
  shows "upto_after R B t' \<subseteq> upto_after R B t"
proof -
  have "after R B s \<subseteq> upto_after R B t" for s
  proof (cases "s \<le> t")
    case True
    then show ?thesis by (auto simp: upto_after_def)
  next
    case False
    then have "after R B s = {} \<or> after R B s = after R B t"
      using assms after_empty_le [of R B "Suc t" s] after_fixed_le [of R B t s]
      by (auto simp: after_Suc)
    then show ?thesis by (auto simp: upto_after_def)
  qed
  then show ?thesis by (auto simp: upto_after_def)
qed

definition allowed :: "bool \<Rightarrow> u64 \<Rightarrow> u64 \<Rightarrow> nat \<Rightarrow> bool" where
  "allowed unl mn mx t \<longleftrightarrow> unl \<or> unat mn + t \<le> unat mx"

lemma max_loop_ok:
  assumes g: "good P f R n" and fr: "forward_relation R n" and B: "B \<subseteq> {..n}"
  shows "Suc n < fuel + t \<Longrightarrow> t \<le> Suc n \<Longrightarrow> allowed unl mn mx t \<Longrightarrow>
    (\<not> unl \<longrightarrow> unat count = unat mn + t) \<Longrightarrow>
    current = sls (after R B t) \<Longrightarrow> set result = upto_after R B t \<Longrightarrow> P memo \<Longrightarrow>
    \<exists>T memo'. max_loop fuel f unl mx count current result memo = Some (sls (upto_after R B T), memo') \<and>
      P memo' \<and> allowed unl mn mx T \<and>
      (\<forall>t'. allowed unl mn mx t' \<longrightarrow> upto_after R B t' \<subseteq> upto_after R B T)"
proof (induction fuel arbitrary: t count current result memo)
  case 0
  then show ?case by simp
next
  case (Suc fuel)
  have fin: "finite (after R B s)" for s
    using B by (intro forward_relation.after_finite [OF fr]) (auto intro: finite_subset)
  have bound: "after R B s \<subseteq> {..n}" for s by (rule forward_relation.after_bounded [OF fr B])
  obtain m1 where m1: "advance f current memo = Some (sls (after R B (Suc t)), m1)" "P m1"
    using advance_ok [OF g fr fin bound Suc.prems(7)] Suc.prems(5) by (auto simp: after_Suc)
  let ?stop = "after R B (Suc t) = {} \<or> after R B (Suc t) = after R B t"
  have stop: "length (sls (after R B (Suc t))) = 0 \<or> sls (after R B (Suc t)) = current \<longleftrightarrow> ?stop"
    using fin Suc.prems(5) by (simp add: sls_eq_iff)
  show ?case
  proof (cases "unl \<or> count < mx")
    case False
    then have "allowed unl mn mx t' \<Longrightarrow> t' \<le> t" for t'
      using Suc.prems(4) by (auto simp: allowed_def word_less_nat_alt)
    then show ?thesis
      using False Suc.prems by (auto simp: uniquePositions_sls intro!: exI [of _ t] dest: upto_after_mono)
  next
    case go: True
    show ?thesis
    proof (cases ?stop)
      case True
      then show ?thesis
        using go m1 stop Suc.prems upto_after_all [OF True]
        by (auto simp: uniquePositions_sls intro!: exI [of _ t])
    next
      case False
      then have "t < Suc n"
        using forward_relation.settled [OF fr B, of t] Suc.prems(2) by (auto simp: after_Suc)
      moreover have "\<not> unl \<longrightarrow> unat (count + 1) = unat mn + Suc t \<and> unat mn + Suc t \<le> unat mx"
        using go Suc.prems(4) by (auto simp: unat_Suc_less word_less_nat_alt)
      ultimately show ?thesis
        using Suc.IH [of "Suc t" "count + 1" "sls (after R B (Suc t))"
            "result @ sls (after R B (Suc t))" m1] Suc.prems(1,6) m1 go stop False fin
        by (auto simp: allowed_def upto_after_Suc)
    qed
  qed
qed

lemma image_repeat:
  "{(i, j). i \<le> n \<and> (\<exists>c. a \<le> c \<and> Q c \<and> (i, j) \<in> R ^^ c)} `` {start} =
   (if start \<le> n then \<Union>c \<in> {c. a \<le> c \<and> Q c}. after R {start} c else {})"
  by (auto simp: after_def)

lemma repeat_upto:
  assumes "allowed unl mn mx T"
    "\<forall>t'. allowed unl mn mx t' \<longrightarrow> upto_after R (after R S (unat mn)) t' \<subseteq> upto_after R (after R S (unat mn)) T"
  shows "(\<Union>c \<in> {c. unat mn \<le> c \<and> (unl \<or> c \<le> unat mx)}. after R S c) =
    upto_after R (after R S (unat mn)) T"
proof
  show "upto_after R (after R S (unat mn)) T \<subseteq> (\<Union>c \<in> {c. unat mn \<le> c \<and> (unl \<or> c \<le> unat mx)}. after R S c)"
  proof
    fix q assume "q \<in> upto_after R (after R S (unat mn)) T"
    then obtain s where "s \<le> T" "q \<in> after R S (unat mn + s)"
      by (auto simp: upto_after_def after_add)
    moreover from this have "unat mn + s \<in> {c. unat mn \<le> c \<and> (unl \<or> c \<le> unat mx)}"
      using assms(1) by (auto simp: allowed_def)
    ultimately show "q \<in> (\<Union>c \<in> {c. unat mn \<le> c \<and> (unl \<or> c \<le> unat mx)}. after R S c)" by blast
  qed
next
  have "after R S c \<subseteq> upto_after R (after R S (unat mn)) T"
    if c: "unat mn \<le> c" "unl \<or> c \<le> unat mx" for c
  proof -
    have "allowed unl mn mx (c - unat mn)" using c by (auto simp: allowed_def)
    moreover have "after R S c = after R (after R S (unat mn)) (c - unat mn)"
      using c(1) by (simp flip: after_add)
    ultimately show ?thesis using assms(2) by (fastforce simp: upto_after_def)
  qed
  then show "(\<Union>c \<in> {c. unat mn \<le> c \<and> (unl \<or> c \<le> unat mx)}. after R S c)
      \<subseteq> upto_after R (after R S (unat mn)) T"
    by blast
qed

lemma repeat_ends_ok:
  assumes g: "good P f R n" and fr: "forward_relation R n" and i: "start \<le> n" and P: "P memo"
    and m: "mn \<le> mx"
  shows "\<exists>memo'. repeat_ends (n + 2) f mn mx unl start memo =
     Some (sls (\<Union>c \<in> {c. unat mn \<le> c \<and> (unl \<or> c \<le> unat mx)}. after R {start} c), memo') \<and> P memo'"
proof -
  let ?B = "after R {start} (unat mn)"
  have fin: "finite ?B" by (rule forward_relation.after_finite [OF fr]) simp
  have B: "?B \<subseteq> {..n}" using i by (intro forward_relation.after_bounded [OF fr]) simp
  obtain count m1 where m1: "min_loop f mn 0 [start] memo = Some (count, sls ?B, m1)" "P m1"
    "?B \<noteq> {} \<longrightarrow> count = mn"
    using min_loop_ok [OF g fr i, of 0 mn "[start]" memo] P by auto
  show ?thesis
  proof (cases "?B = {}")
    case True
    then have "after R {start} c = {}" if "unat mn \<le> c" for c
      using that by (rule after_empty_le)
    then have "(\<Union>c \<in> {c. unat mn \<le> c \<and> (unl \<or> c \<le> unat mx)}. after R {start} c) = {}" by simp
    then show ?thesis using m1 True by (simp add: repeat_ends_def)
  next
    case False
    have "allowed unl mn mx 0" using m by (simp add: allowed_def word_le_nat_alt)
    then obtain T m2 where T: "max_loop (n + 2) f unl mx count (sls ?B) (sls ?B) m1 =
        Some (sls (upto_after R ?B T), m2)" "P m2" "allowed unl mn mx T"
        "\<forall>t'. allowed unl mn mx t' \<longrightarrow> upto_after R ?B t' \<subseteq> upto_after R ?B T"
      using max_loop_ok [OF g fr B, of "n + 2" 0 unl mn mx count "sls ?B" "sls ?B" m1] m1 False fin
      by (auto simp: upto_after_def)
    have "repeat_ends (n + 2) f mn mx unl start memo =
        max_loop (n + 2) f unl mx count (sls ?B) (sls ?B) m1"
      using m1(1) False fin by (simp add: repeat_ends_def card_gt_0_iff del: max_loop.simps)
    then show ?thesis
      using T(1,2) repeat_upto [OF T(3,4)] by (simp del: max_loop.simps)
  qed
qed

section \<open>Sequences and alternatives\<close>

lemma seq_loop_ok:
  assumes fr: "\<forall>R \<in> set Rs. forward_relation R n"
  shows "length ch = length Rs \<Longrightarrow>
    (\<forall>k < length ch. good P ((ch ! k) (path @ [i + k])) (Rs ! k) n) \<Longrightarrow>
    S \<subseteq> {..n} \<Longrightarrow> P memo \<Longrightarrow>
    \<exists>memo'. seq_loop path i ch (sls S) memo =
      Some (sls (foldr (O) Rs {(i, i) |i. i \<le> n} `` S), memo') \<and> P memo'"
  using fr
proof (induction ch Rs arbitrary: i S memo rule: list_induct2')
  case 1
  then have "{(i, i) |i. i \<le> n} `` S = S" by auto
  then show ?case using 1 by simp
next
  case (4 c ch R Rs)
  have fin: "finite S" using 4(4) finite_subset by blast
  have g: "good P (c (path @ [i])) R n" using 4(3) [rule_format, of 0] by simp
  have fr: "forward_relation R n" using 4(6) by simp
  obtain m1 where m1: "advance (c (path @ [i])) (sls S) memo = Some (sls (R `` S), m1)" "P m1"
    using advance_ok [OF g fr fin 4(4,5)] by auto
  have rest: "\<forall>k < length ch. good P ((ch ! k) (path @ [Suc i + k])) (Rs ! k) n"
  proof (intro allI impI)
    fix k assume "k < length ch"
    then show "good P ((ch ! k) (path @ [Suc i + k])) (Rs ! k) n"
      using 4(3) [rule_format, of "Suc k"] by simp
  qed
  have image: "foldr (O) (R # Rs) E `` S = foldr (O) Rs E `` (R `` S)" for E :: "(nat \<times> nat) set"
    by (simp add: relcomp_Image)
  show ?case
  proof (cases "R `` S = {}")
    case True
    then show ?thesis using m1 image by simp
  next
    case False
    have b: "R `` S \<subseteq> {..n}" and "finite (R `` S)"
      by (rule forward_relation.image_bounded [OF fr], rule forward_relation.image_finite [OF fr])
    then show ?thesis
      using 4(1) [OF _ rest b m1(2)] 4(2,6) m1(1) False image by (auto simp del: foldr.simps)
  qed
qed simp_all

lemma alt_loop_ok:
  assumes fr: "\<forall>R \<in> set Rs. forward_relation R n" and start: "start \<le> n"
  shows "length ch = length Rs \<Longrightarrow>
    (\<forall>k < length ch. good P ((ch ! k) (path @ [i + k])) (Rs ! k) n) \<Longrightarrow> P memo \<Longrightarrow>
    \<exists>memo'. alt_loop path i ch start result memo =
      Some (sls (set result \<union> \<Union> (set Rs) `` {start}), memo') \<and> P memo'"
  using fr
proof (induction ch Rs arbitrary: i result memo rule: list_induct2')
  case 1
  then show ?case by (simp add: uniquePositions_sls)
next
  case (4 c ch R Rs)
  have g: "good P (c (path @ [i])) R n" using 4(3) [rule_format, of 0] by simp
  obtain m1 where m1: "c (path @ [i]) start memo = Some (sls (R `` {start}), m1)" "P m1"
    using goodD [OF g start 4(4)] by auto
  have rest: "\<forall>k < length ch. good P ((ch ! k) (path @ [Suc i + k])) (Rs ! k) n"
  proof (intro allI impI)
    fix k assume "k < length ch"
    then show "good P ((ch ! k) (path @ [Suc i + k])) (Rs ! k) n"
      using 4(3) [rule_format, of "Suc k"] by simp
  qed
  have "finite (R `` {start})"
    using 4(5) forward_relation.image_finite [of R n "{start}"] by auto
  moreover have "\<Union> (set (R # Rs)) `` {start} = R `` {start} \<union> \<Union> (set Rs) `` {start}" by auto
  moreover obtain m2 where "alt_loop path (Suc i) ch start (result @ sls (R `` {start})) m1 =
      Some (sls (set (result @ sls (R `` {start})) \<union> \<Union> (set Rs) `` {start}), m2)" "P m2"
    using 4(1) [OF _ rest m1(2)] 4(2,5) by fastforce
  ultimately show ?case using m1 by (simp add: Un_assoc)
qed simp_all

section \<open>Every expression moves forward, by at least its width\<close>

lemma relcomp_forward:
  "\<forall>R \<in> set Rs. forward_relation R n \<Longrightarrow> (i, j) \<in> foldr (O) Rs {(i, i) |i. i \<le> n} \<Longrightarrow>
   i \<le> j \<and> j \<le> n"
proof (induction Rs arbitrary: i)
  case (Cons R Rs)
  then obtain k where "(i, k) \<in> R" "k \<le> j" "j \<le> n" by auto
  then show ?case using Cons.prems(1) forward_relation.forward [of R n i k] by auto
qed auto

lemma relpow_forward:
  assumes "forward_relation R n"
  shows "(i, j) \<in> R ^^ c \<Longrightarrow> i \<le> n \<Longrightarrow> i \<le> j \<and> j \<le> n"
proof (induction c arbitrary: j)
  case (Suc c)
  then obtain k where "i \<le> k" "(k, j) \<in> R" by auto
  then show ?case using forward_relation.forward [OF assms, of k j] by auto
qed simp

lemma sem_forward: "forward_relation (sem inp n) (length inp)"
proof (induction n)
  case (Node k cs ch mn mx w unl)
  let ?n = "length inp"
  let ?R = "map (sem inp) ch"
  have R: "\<forall>R \<in> set ?R. forward_relation R ?n" using Node by simp
  have first: "forward_relation (first_rel ?R) ?n"
    using R by (cases ch) (simp_all add: first_rel_def forward_relation_def)
  show ?case
  proof (rule forward_relation.intro)
    fix i j assume "(i, j) \<in> sem inp (Node k cs ch mn mx w unl)"
    then show "i \<le> j \<and> j \<le> ?n"
      using relcomp_forward [OF R, of i j] relpow_forward [OF first, of i j] R
        forward_relation.forward [of _ ?n i j]
      by (auto simp: Let_def split: if_splits)
  qed
qed

interpretation sem_fwd: forward_relation "sem inp n" "length inp" for inp n
  by (rule sem_forward)

lemma relpow_width:
  assumes "\<And>i j. (i, j) \<in> R \<Longrightarrow> d + i \<le> j"
  shows "(i, j) \<in> R ^^ c \<Longrightarrow> d * c + i \<le> (j :: nat)"
proof (induction c arbitrary: j)
  case (Suc c)
  then obtain k where "d * c + i \<le> k" "(k, j) \<in> R" by auto
  then show ?case using assms [of k j] by simp
qed simp

lemma relcomp_width:
  "(\<And>c i j. c \<in> set ch \<Longrightarrow> (i, j) \<in> f c \<Longrightarrow> g c + i \<le> j) \<Longrightarrow>
   (i, j) \<in> foldr (O) (map f ch) {(i, i) |i. i \<le> n} \<Longrightarrow> sum_list (map g ch) + i \<le> (j :: nat)"
proof (induction ch arbitrary: i)
  case (Cons c ch)
  then obtain k where k: "(i, k) \<in> f c" "sum_list (map g ch) + k \<le> j" by auto
  then show ?case using Cons.prems(1) [of c i k] by simp
qed auto

lemma wf_kind:
  "wf_node (Node k cs ch mn mx w unl) \<Longrightarrow>
     k = CHR ''c'' \<or> k = CHR ''^'' \<or> k = CHR ''$'' \<or> k = CHR ''b'' \<or> k = CHR ''B'' \<or>
     k = CHR ''s'' \<or> k = CHR ''|'' \<or> k = CHR ''r''"
  by (simp only: wf_node.simps list.set insert_iff empty_iff simp_thms)

lemma sem_width: "wf_node n \<Longrightarrow> (i, j) \<in> sem inp n \<Longrightarrow> unat (width n) + i \<le> j"
proof (induction n arbitrary: i j)
  case (Node k cs ch mn mx w unl)
  have IH: "unat (width c) + i \<le> j" if "c \<in> set ch" "(i, j) \<in> sem inp c" for c i j
    using Node.IH Node.prems(1) that by simp
  consider "k \<in> set ''c^$bB''" | "k = CHR ''s''" | "k = CHR ''|''" | "k = CHR ''r''"
    using wf_kind [OF Node.prems(1)] by (simp only: list.set insert_iff empty_iff simp_thms) blast
  then show ?case
  proof cases
    case 1
    then show ?thesis using Node.prems by (auto simp: Let_def split: if_splits)
  next
    case 2
    then have "sum_list (map (\<lambda>c. unat (width c)) ch) + i \<le> j"
      using Node.prems(2) IH by (intro relcomp_width [of ch "sem inp"]) auto
    then show ?thesis using Node.prems(1) 2 by simp
  next
    case 3
    then obtain c where "c \<in> set ch" "(i, j) \<in> sem inp c" using Node.prems(2) by auto
    then show ?thesis using IH [of c i j] Node.prems(1) 3 by fastforce
  next
    case 4
    then obtain child where ch: "ch = [child]"
      using Node.prems(1) by (auto simp: length_Suc_conv)
    then obtain c where c: "unat mn \<le> c" "(i, j) \<in> sem inp child ^^ c"
      using Node.prems(2) 4 by (auto simp: first_rel_def)
    have "unat (width child) * c + i \<le> j"
      using IH ch c(2) by (intro relpow_width [of "sem inp child"]) auto
    moreover have "unat w \<le> unat (width child) * c"
      using Node.prems(1) 4 ch c(1) by (auto intro: order_trans mult_le_mono2)
    ultimately show ?thesis by simp
  qed
qed

section \<open>The matcher is the meaning\<close>

fun node_at :: "node \<Rightarrow> nat list \<Rightarrow> node option" where
  "node_at n [] = Some n"
| "node_at n (i # path) = (if i < length (children n) then node_at (children n ! i) path else None)"

lemma node_at_snoc:
  "node_at n path = Some m \<Longrightarrow> i < length (children m) \<Longrightarrow>
   node_at n (path @ [i]) = Some (children m ! i)"
  by (induction n path rule: node_at.induct) (auto split: if_splits)

definition memo_ok :: "int list \<Rightarrow> node \<Rightarrow> memo \<Rightarrow> bool" where
  "memo_ok inp root memo \<longleftrightarrow>
     (\<forall>path start result n. memo (path, start) = Some result \<longrightarrow> node_at root path = Some n \<longrightarrow>
        result = sls (sem inp n `` {start}))"

lemma kind_ends_ok:
  assumes wf: "wf_node (Node k cs ch mn mx w unl)" and start: "start \<le> length inp" and P: "P memo"
    and ch: "\<forall>i < length ch. good P (ends inp (ch ! i) (path @ [i])) (sem inp (ch ! i)) (length inp)"
  shows "\<exists>memo'. kind_ends inp k cs (map (ends inp) ch) mn mx unl path start memo =
    Some (sls (sem inp (Node k cs ch mn mx w unl) `` {start}), memo') \<and> P memo'"
proof -
  have fwd: "\<forall>R \<in> set (map (sem inp) ch). forward_relation R (length inp)"
    using sem_forward by simp
  consider "k = CHR ''c''" | "k = CHR ''^''" | "k = CHR ''$''" | "k = CHR ''b'' \<or> k = CHR ''B''"
    | "k = CHR ''s''" | "k = CHR ''|''" | "k = CHR ''r''"
    using wf_kind [OF wf] by blast
  then show ?thesis
  proof cases
    case 1
    then have "sem inp (Node k cs ch mn mx w unl) `` {start} =
        (if start < length inp \<and> has_rune cs (inp ! start) then {start + 1} else {})"
      by auto
    then show ?thesis using 1 P by (auto simp: kind_ends_def has_rune_def in_span_def)
  next
    case 2
    then show ?thesis using P by (auto simp: kind_ends_def Image_def)
  next
    case 3
    then show ?thesis using P by (auto simp: kind_ends_def Image_def Let_def)
  next
    case 4
    then have "sem inp (Node k cs ch mn mx w unl) `` {start} =
        (if (word_at inp (int start - 1) \<noteq> word_at inp (int start)) = (k = CHR ''b'') then {start} else {})"
      using start by (elim disjE) (auto simp: Let_def)
    then show ?thesis using 4 P by (elim disjE) (simp_all add: kind_ends_def)
  next
    case 5
    then show ?thesis
      using seq_loop_ok [OF fwd, of "map (ends inp) ch" P path 0 "{start}" memo] ch start P
      by (simp add: kind_ends_def)
  next
    case 6
    then show ?thesis
      using alt_loop_ok [OF fwd start, of "map (ends inp) ch" P path 0 memo "[]"] ch P
      by (simp add: kind_ends_def)
  next
    case 7
    then obtain child where child: "ch = [child]" "mn \<le> mx"
      using wf by (auto simp: length_Suc_conv)
    then have g: "good P (ends inp child (path @ [0])) (sem inp child) (length inp)"
      using ch by simp
    have "sem inp (Node k cs ch mn mx w unl) `` {start} =
        (\<Union>c \<in> {c. unat mn \<le> c \<and> (unl \<or> c \<le> unat mx)}. after (sem inp child) {start} c)"
      using 7 child(1) start
        image_repeat [of "length inp" "unat mn" "\<lambda>c. unl \<or> c \<le> unat mx" "sem inp child" start]
      by (simp add: first_rel_def)
    then show ?thesis
      using repeat_ends_ok [OF g sem_forward start P child(2), of unl] 7 child(1)
      by (simp add: kind_ends_def del: sem.simps)
  qed
qed

lemma ends_good:
  assumes small: "length inp < 2 ^ 64"
  shows "wf_node n \<Longrightarrow> node_at root path = Some n \<Longrightarrow>
    good (memo_ok inp root) (ends inp n path) (sem inp n) (length inp)"
proof (induction n arbitrary: path)
  case (Node k cs ch mn mx w unl)
  let ?n = "Node k cs ch mn mx w unl"
  have kids: "\<forall>i < length ch.
      good (memo_ok inp root) (ends inp (ch ! i) (path @ [i])) (sem inp (ch ! i)) (length inp)"
    using Node.IH Node.prems node_at_snoc [OF Node.prems(2)] by (auto simp del: ends.simps sem.simps)
  show ?case
    unfolding good_def
  proof (intro allI impI)
    fix start memo assume start: "start \<le> length inp" and ok: "memo_ok inp root memo"
    show "\<exists>memo'. ends inp ?n path start memo = Some (sls (sem inp ?n `` {start}), memo') \<and>
        memo_ok inp root memo'"
    proof (cases "w > word_of_nat (length inp - start)")
      case True
      have "unat (word_of_nat (length inp - start) :: u64) = length inp - start"
        using small by (simp add: unat_of_nat)
      then have short: "length inp - start < unat w" using True by (simp add: word_less_nat_alt)
      have "sem inp ?n `` {start} = {}"
        using sem_width [OF Node.prems(1), of start _ inp] sem_fwd.forward [of start _ inp ?n] short
        by fastforce
      then show ?thesis using True ok by simp
    next
      case False
      show ?thesis
      proof (cases "memo (path, start)")
        case None
        obtain m1 where "kind_ends inp k cs (map (ends inp) ch) mn mx unl path start memo =
            Some (sls (sem inp ?n `` {start}), m1)" "memo_ok inp root m1"
          using kind_ends_ok [OF Node.prems(1) start, of "memo_ok inp root" memo path, OF ok kids] by blast
        then show ?thesis
          using False None Node.prems(2) by (auto simp: memo_ok_def simp del: sem.simps)
      next
        case (Some r)
        then have "r = sls (sem inp ?n `` {start})"
          using ok Node.prems(2) unfolding memo_ok_def by blast
        then show ?thesis using False Some ok by (simp del: sem.simps)
      qed
    qed
  qed
qed

lemma match_loop_ok:
  assumes "length inp < 2 ^ 64" "wf_node n"
  shows "set starts \<subseteq> {..length inp} \<Longrightarrow> memo_ok inp n memo \<Longrightarrow>
    match_loop inp n starts memo = Some (\<exists>i \<in> set starts. \<exists>j. (i, j) \<in> sem inp n)"
proof (induction starts arbitrary: memo)
  case (Cons s starts)
  obtain m1 where m1: "ends inp n [] s memo = Some (sls (sem inp n `` {s}), m1)" "memo_ok inp n m1"
    using goodD [OF ends_good [OF assms, of n "[]"], of s memo] Cons.prems by auto
  have "finite (sem inp n `` {s})" by (rule sem_fwd.image_finite)
  then have some: "length (sls (sem inp n `` {s})) > 0 \<longleftrightarrow> (\<exists>j. (s, j) \<in> sem inp n)"
    by (auto simp: card_gt_0_iff)
  have rest: "match_loop inp n starts m1 = Some (\<exists>i \<in> set starts. \<exists>j. (i, j) \<in> sem inp n)"
    using Cons.IH Cons.prems(1) m1(2) by simp
  show ?case
    by (simp only: match_loop.simps m1(1) option.case prod.case some rest if_bool_eq_disj list.set) auto
qed simp

end
