(* ===== verification/Pattern_Parse.thy ===== *)
theory Pattern_Parse
  imports Pattern_Match_Correct
begin

text \<open>
  The pattern parser of \<open>internal/pattern/compile.go\<close> and the refused spellings of
  \<open>dialect.go\<close>: a recursive descent over byte positions that builds the tree of
  \<open>Pattern_Match\<close> and the text handed to Go's own engine.  The engine is a parameter.
  The two mutually recursive functions take fuel, \<open>None\<close> being its exhaustion; twice the
  length of the source is enough.
\<close>

section \<open>State and errors\<close>

record parser =
  source :: string
  pos :: nat
  ptree :: node

datatype parse_error = Parse_error (message: string) (at_byte: nat)

definition fail :: "parser \<Rightarrow> string \<Rightarrow> parse_error + 'a" where
  "fail p msg = Inl (Parse_error msg (pos p))"

text \<open>The byte at the parser's position, and the rest of the source from there.\<close>

abbreviation current_byte :: "parser \<Rightarrow> char" where
  "current_byte p \<equiv> source p ! pos p"

abbreviation unread :: "parser \<Rightarrow> bool" where
  "unread p \<equiv> pos p < length (source p)"

abbreviation backslash :: char where "backslash \<equiv> CHR 0x5C"

section \<open>Refused spellings\<close>

record spelling =
  opens_with :: string
  says :: string

definition outside :: "spelling list" where
  "outside = map (\<lambda>(o', s). \<lparr>opens_with = o', says = s\<rparr>)
    [(''(?P<'', ''a named group of RE2, which ECMAScript does not read''),
     (''(?P='', ''a backreference to a named group of RE2, which ECMAScript does not read''),
     (''(?<='', ''a lookbehind of ECMAScript, which the dialect has no lookaround in''),
     (''(?<!'', ''a lookbehind of ECMAScript, which the dialect has no lookaround in''),
     (''(?<'', ''a named group of ECMAScript, which RE2 does not read''),
     (''(?='', ''a lookahead of ECMAScript, which the dialect has no lookaround in''),
     (''(?!'', ''a lookahead of ECMAScript, which the dialect has no lookaround in''),
     (''[[:'', ''a POSIX class of RE2, which ECMAScript reads as an ordinary character class and quietly means something else by''),
     (backslash # ''k<'', ''a backreference of ECMAScript, which the dialect has none of''),
     (backslash # ''p{'', ''a Unicode property class, which is outside the declared dialect''),
     (backslash # ''P{'', ''a Unicode property class, which is outside the declared dialect''),
     (backslash # ''A'', ''an anchor of RE2, which ECMAScript does not read; write ^''),
     (backslash # ''z'', ''an anchor of RE2, which ECMAScript does not read; write $''),
     (backslash # ''Z'', ''an anchor of RE2, which ECMAScript does not read; write $''),
     (backslash # ''Q'', ''a literal span of RE2, which ECMAScript does not read''),
     (backslash # ''C'', ''the any-byte of RE2, which ECMAScript does not read'')]"

definition opens :: "string \<Rightarrow> spelling option" where
  "opens rest = find (\<lambda>s. prefix (opens_with s) rest) outside"

text \<open>\<open>%q\<close> of a printable ASCII text.\<close>

definition quoted :: "string \<Rightarrow> string" where
  "quoted s = CHR 0x22 #
     concat (map (\<lambda>c. if c = backslash \<or> c = CHR 0x22 then [backslash, c] else [c]) s) @ [CHR 0x22]"

definition refused :: "spelling \<Rightarrow> string" where
  "refused found = quoted (opens_with found) @ '' is '' @ says found"

section \<open>Digits and numbers\<close>

definition is_digit :: "char \<Rightarrow> bool" where
  "is_digit c \<longleftrightarrow> CHR ''0'' \<le> c \<and> c \<le> CHR ''9''"

definition isHex :: "char \<Rightarrow> bool" where
  "isHex c \<longleftrightarrow> CHR ''0'' \<le> c \<and> c \<le> CHR ''9'' \<or> CHR ''a'' \<le> c \<and> c \<le> CHR ''f''
     \<or> CHR ''A'' \<le> c \<and> c \<le> CHR ''F''"

function scan :: "(char \<Rightarrow> bool) \<Rightarrow> string \<Rightarrow> nat \<Rightarrow> nat" where
  "scan P s i = (if i < length s \<and> P (s ! i) then scan P s (Suc i) else i)"
  by pat_completeness auto
termination by (relation "measure (\<lambda>(P, s, i). length s - i)") auto

declare scan.simps [simp del]

definition read_digits :: "parser \<Rightarrow> bool \<times> parser" where
  "read_digits p =
     (let start = pos p; p = p\<lparr>pos := scan is_digit (source p) (pos p)\<rparr> in (pos p > start, p))"

definition decimal :: "string \<Rightarrow> string" where
  "decimal value =
     (let value = dropWhile (\<lambda>c. c = CHR ''0'') value in if value = '''' then ''0'' else value)"

definition digit_value :: "char \<Rightarrow> nat" where
  "digit_value c =
     (let n = of_char c in
      if n \<le> 57 then n - 48 else if n \<le> 70 then n - 55 else n - 87)"

definition number :: "nat \<Rightarrow> string \<Rightarrow> nat" where
  "number base s = foldl (\<lambda>n c. n * base + digit_value c) 0 s"

text \<open>
  \<open>strconv.ParseUint\<close> of a text of digits: the value and whether it is in range; out of
  range it is the largest one.
\<close>

definition parse_uint :: "nat \<Rightarrow> nat \<Rightarrow> string \<Rightarrow> nat \<times> bool" where
  "parse_uint base bits s =
     (let n = number base s in if n < 2 ^ bits then (n, True) else (2 ^ bits - 1, False))"

definition slice :: "string \<Rightarrow> nat \<Rightarrow> nat \<Rightarrow> string" where
  "slice s i j = take (j - i) (drop i s)"

fun hex_loop :: "nat \<Rightarrow> parser \<Rightarrow> parse_error + parser" where
  "hex_loop 0 p = Inr p"
| "hex_loop (Suc n) p =
     (if pos p = length (source p) \<or> \<not> isHex (current_byte p)
      then fail p ''invalid hexadecimal escape''
      else hex_loop n (p\<lparr>pos := pos p + 1\<rparr>))"

definition hex :: "nat \<Rightarrow> parser \<Rightarrow> parse_error + (int \<times> parser)" where
  "hex count p =
     (case hex_loop count p of
        Inl e \<Rightarrow> Inl e
      | Inr p' \<Rightarrow> Inr (int (fst (parse_uint 16 32 (slice (source p') (pos p) (pos p')))), p'))"

section \<open>Escapes and classes\<close>

text \<open>\<open>utf16.DecodeRune\<close> of a surrogate pair.\<close>

definition utf16_decode :: "int \<Rightarrow> int \<Rightarrow> int" where
  "utf16_decode r1 r2 = (r1 - 0xd800) * 1024 + (r2 - 0xdc00) + 0x10000"

definition unicode_escape :: "parser \<Rightarrow> parse_error + (characters \<times> string \<times> parser)" where
  "unicode_escape p =
     (if unread p \<and> current_byte p = CHR ''{'' then
        (let p = p\<lparr>pos := pos p + 1\<rparr>; start = pos p;
             p = p\<lparr>pos := scan isHex (source p) (pos p)\<rparr> in
         if pos p = start \<or> pos p = length (source p) \<or> current_byte p \<noteq> CHR ''}''
         then fail p ''invalid Unicode escape''
         else
           (let (value, ok) = parse_uint 16 32 (slice (source p) start (pos p));
                p = p\<lparr>pos := pos p + 1\<rparr> in
            if \<not> ok \<or> int value > max_rune then fail p ''Unicode escape out of range''
            else Inr (character (int value), '''', p)))
      else
        (case hex 4 p of
           Inl e \<Rightarrow> Inl e
         | Inr (value, p) \<Rightarrow>
             if value \<ge> 0xd800 \<and> value \<le> 0xdbff \<and> prefix (backslash # ''u'') (drop (pos p) (source p))
             then (case hex 4 (p\<lparr>pos := pos p + 2\<rparr>) of
                     Inl _ \<Rightarrow> Inr (character value, '''', p)
                   | Inr (trail, p') \<Rightarrow>
                       if trail \<ge> 0xdc00 \<and> trail \<le> 0xdfff
                       then Inr (character (utf16_decode value trail), '''', p')
                       else Inr (character value, '''', p))
             else Inr (character value, '''', p)))"

definition escape :: "bool \<Rightarrow> parser \<Rightarrow> parse_error + (characters \<times> string \<times> parser)" where
  "escape cls p =
     (if pos p = length (source p) then fail p ''trailing escape''
      else case opens (drop (pos p - 1) (source p)) of
        Some found \<Rightarrow> fail p (refused found)
      | None \<Rightarrow>
         (let c = current_byte p; p = p\<lparr>pos := pos p + 1\<rparr> in
          if c = CHR ''d'' then Inr (digits_class, '''', p)
          else if c = CHR ''D'' then Inr (complement digits_class, '''', p)
          else if c = CHR ''w'' then Inr (words_class, '''', p)
          else if c = CHR ''W'' then Inr (complement words_class, '''', p)
          else if c = CHR ''s'' then Inr (whitespace_class, '''', p)
          else if c = CHR ''S'' then Inr (complement whitespace_class, '''', p)
          else if c = CHR ''b'' then
            (if cls then Inr (character 8, '''', p) else Inr ([], backslash # ''b'', p))
          else if c = CHR ''B'' \<and> \<not> cls then Inr ([], backslash # ''B'', p)
          else if c = CHR ''f'' then Inr (character 12, '''', p)
          else if c = CHR ''n'' then Inr (character 10, '''', p)
          else if c = CHR ''r'' then Inr (character 13, '''', p)
          else if c = CHR ''t'' then Inr (character 9, '''', p)
          else if c = CHR ''v'' then Inr (character 11, '''', p)
          else if c = CHR ''0'' then
            (if unread p \<and> current_byte p \<ge> CHR ''0'' \<and> current_byte p \<le> CHR ''9''
             then fail p ''legacy octal escape'' else Inr (character 0, '''', p))
          else if c = CHR ''c'' then
            (if unread p \<and> (current_byte p \<ge> CHR ''A'' \<and> current_byte p \<le> CHR ''Z'' \<or>
                          current_byte p \<ge> CHR ''a'' \<and> current_byte p \<le> CHR ''z'')
             then Inr (character (int (of_char (current_byte p) mod 32)), '''', p\<lparr>pos := pos p + 1\<rparr>)
             else fail p ''a control escape requires an ASCII letter'')
          else if c = CHR ''x'' then
            (case hex 2 p of Inl e \<Rightarrow> Inl e | Inr (value, p) \<Rightarrow> Inr (character value, '''', p))
          else if c = CHR ''u'' then unicode_escape p
          else if c \<in> set (''^$'' @ [backslash] @ ''.*+?()[]{}|/'') \<or> cls \<and> c = CHR ''-''
          then Inr (character (of_char c), '''', p)
          else fail p ''escape is outside Unicode pattern syntax''))"

definition classAtom :: "parser \<Rightarrow> parse_error + (characters \<times> parser)" where
  "classAtom p =
     (let (c, size) = decode_rune (drop (pos p) (source p)); p = p\<lparr>pos := pos p + size\<rparr> in
      if c \<noteq> of_char backslash then Inr (character c, p)
      else (case escape True p of Inl e \<Rightarrow> Inl e | Inr (cs, _, p) \<Rightarrow> Inr (cs, p)))"

text \<open>Every step of the parser leaves the source alone and moves forward within it.\<close>

definition moved :: "parser \<Rightarrow> parser \<Rightarrow> bool" where
  "moved p p' \<longleftrightarrow> source p' = source p \<and> pos p \<le> pos p' \<and> pos p' \<le> length (source p)"

lemma scan_bounds: "i \<le> length s \<Longrightarrow> i \<le> scan P s i \<and> scan P s i \<le> length s"
proof (induction P s i rule: scan.induct)
  case (1 P s i)
  then show ?case by (subst (1 2) scan.simps) auto
qed

lemma hex_loop_moved: "hex_loop n p = Inr p' \<Longrightarrow> pos p \<le> length (source p) \<Longrightarrow> moved p p'"
  by (induction n p rule: hex_loop.induct) (auto simp: fail_def moved_def split: if_splits)

lemma hex_moved: "hex n p = Inr (v, p') \<Longrightarrow> pos p \<le> length (source p) \<Longrightarrow> moved p p'"
  by (auto simp: hex_def hex_loop_moved split: sum.splits)

lemma unicode_escape_moved:
  assumes "unicode_escape p = Inr (cs, a, p')" "pos p \<le> length (source p)"
  shows "moved p p'"
proof (cases "unread p \<and> current_byte p = CHR ''{''")
  case True
  then show ?thesis
    using assms scan_bounds [of "pos p + 1" "source p" isHex]
    by (auto simp: unicode_escape_def Let_def fail_def moved_def split: if_splits prod.splits)
next
  case False
  then obtain v p1 where p1: "hex 4 p = Inr (v, p1)"
    using assms(1) by (auto simp: unicode_escape_def simp del: One_nat_def split: sum.splits)
  then have m1: "moved p p1" using assms(2) by (rule hex_moved)
  show ?thesis
  proof (cases "p' = p1")
    case other: False
    then have pre: "prefix (backslash # ''u'') (drop (pos p1) (source p1))"
      and "\<exists>t. hex 4 (p1\<lparr>pos := pos p1 + 2\<rparr>) = Inr (t, p')"
      using assms(1) False p1
      by (auto simp: unicode_escape_def simp del: One_nat_def split: sum.splits if_splits)
    moreover have "length (source p1) - pos p1 \<ge> 2" using prefix_length_le [OF pre] by simp
    ultimately have "moved (p1\<lparr>pos := pos p1 + 2\<rparr>) p'" using hex_moved by fastforce
    then show ?thesis using m1 by (simp add: moved_def)
  qed (use m1 in simp)
qed

lemma moved_refl: "pos p \<le> length (source p) \<Longrightarrow> moved p p"
  by (simp add: moved_def)

lemma moved_step: "unread p \<Longrightarrow> moved (p\<lparr>pos := pos p + 1\<rparr>) p' \<Longrightarrow> moved p p' \<and> pos p < pos p'"
  by (simp add: moved_def)

lemma fail_accepted [simp]: "accepted Q (fail p msg)"
  by (simp add: fail_def)

lemma escape_accepted:
  assumes "pos p \<le> length (source p)"
  shows "accepted (\<lambda>(cs, a, p'). moved p p' \<and> pos p < pos p') (escape cls p)"
proof -
  let ?p = "p\<lparr>pos := pos p + 1\<rparr>"
  have fresh: "moved p q \<and> pos p < pos q" if "moved ?p q" "pos p \<noteq> length (source p)" for q
    using that assms by (intro moved_step) simp_all
  have hex: "moved p p' \<and> pos p < pos p'" if "pos p \<noteq> length (source p)" "hex 2 ?p = Inr (v, p')" for v p'
    using hex_moved [OF that(2)] that(1) assms by (intro fresh) simp_all
  have uni: "accepted (\<lambda>(cs, a, p'). moved p p' \<and> pos p < pos p') (unicode_escape ?p)"
    if "pos p \<noteq> length (source p)"
    using that assms unicode_escape_moved [of ?p] fresh by (auto simp: accepted_def)
  show ?thesis
    unfolding escape_def Let_def
    by (insert assms, intro accepted_rules fail_accepted)
      (use hex uni in \<open>auto simp: moved_def simp del: One_nat_def\<close>)
qed

lemma escape_moved:
  assumes "escape cls p = Inr (cs, a, p')" "pos p \<le> length (source p)"
  shows "moved p p'" "pos p < pos p'"
  using acceptedD [OF escape_accepted [OF assms(2)] assms(1)] by simp_all

lemma classAtom_moved:
  assumes "classAtom p = Inr (cs, p')" "unread p"
  shows "moved p p'" "pos p < pos p'"
proof -
  obtain c n where dec: "decode_rune (drop (pos p) (source p)) = (c, n)" by fastforce
  let ?p = "p\<lparr>pos := pos p + n\<rparr>"
  have p: "moved p ?p \<and> pos p < pos ?p"
    using decode_rune_size_prod [OF _ dec] assms(2) by (auto simp: moved_def)
  have trans: "moved p q \<and> pos p < pos q" if "moved ?p q" for q
    using p that by (simp add: moved_def)
  have esc: "moved p q \<and> pos p < pos q" if "escape True ?p = Inr (cs, a, q)" for cs a q
    using escape_moved(1) [OF that] p by (intro trans) (simp add: moved_def)
  have "accepted (\<lambda>(cs, p'). moved p p' \<and> pos p < pos p') (classAtom p)"
    unfolding classAtom_def dec Let_def prod.case
    by (intro accepted_rules) (use p esc in simp_all)
  then show "moved p p'" "pos p < pos p'"
    using acceptedD [OF _ assms(1)] by blast+
qed

function class_loop :: "parser \<Rightarrow> characters \<Rightarrow> parse_error + (characters \<times> parser)" where
  "class_loop p result =
     (if unread p \<and> current_byte p \<noteq> CHR '']'' then
        (case classAtom p of
           Inl e \<Rightarrow> Inl e
         | Inr (left, p') \<Rightarrow>
             if pos p' + 1 < length (source p') \<and> current_byte p' = CHR ''-''
                \<and> source p' ! (pos p' + 1) \<noteq> CHR '']''
             then (case classAtom (p'\<lparr>pos := pos p' + 1\<rparr>) of
                     Inl e \<Rightarrow> Inl e
                   | Inr (right, p'') \<Rightarrow>
                       (case (single left, single right) of
                          (Some l, Some h) \<Rightarrow>
                            if l > h then fail p'' ''invalid character-class range''
                            else class_loop p'' (result @ [\<lparr>lo = l, hi = h\<rparr>])
                        | _ \<Rightarrow> fail p'' ''invalid character-class range''))
             else class_loop p' (result @ left))
      else Inr (result, p))"
  by pat_completeness auto
termination
proof (relation "measure (\<lambda>(p, result). length (source p) - pos p)")
  fix p :: parser and result x left p' y right p'' l h
  assume p: "unread p \<and> current_byte p \<noteq> CHR '']''" "classAtom p = Inr x" "(left, p') = x"
    and more: "pos p' + 1 < length (source p') \<and> current_byte p' = CHR ''-''
      \<and> source p' ! (pos p' + 1) \<noteq> CHR '']''"
    and p'': "classAtom (p'\<lparr>pos := pos p' + 1\<rparr>) = Inr y" "(right, p'') = y"
  have "moved p p'" "pos p < pos p'" using p classAtom_moved [of p left p'] by simp_all
  moreover have "moved (p'\<lparr>pos := pos p' + 1\<rparr>) p''"
    using p'' more classAtom_moved(1) [of "p'\<lparr>pos := pos p' + 1\<rparr>" right p''] by simp
  ultimately show "((p'', result @ [\<lparr>lo = l, hi = h\<rparr>]), p, result)
      \<in> measure (\<lambda>(p, result). length (source p) - pos p)"
    by (auto simp: moved_def)
next
  fix p :: parser and result x left p'
  assume p: "unread p \<and> current_byte p \<noteq> CHR '']''" "classAtom p = Inr x" "(left, p') = x"
  have "moved p p'" "pos p < pos p'" using p classAtom_moved [of p left p'] by simp_all
  then show "((p', result @ left), p, result) \<in> measure (\<lambda>(p, result). length (source p) - pos p)"
    by (auto simp: moved_def)
qed simp

declare class_loop.simps [simp del]

text \<open>\<open>class\<close>, which is a keyword here.\<close>

definition class_set :: "parser \<Rightarrow> parse_error + (characters \<times> parser)" where
  "class_set p =
     (let negated = unread p \<and> current_byte p = CHR ''^'';
          p = (if negated then p\<lparr>pos := pos p + 1\<rparr> else p) in
      case class_loop p [] of
        Inl e \<Rightarrow> Inl e
      | Inr (result, p) \<Rightarrow>
          if pos p = length (source p) then fail p ''unclosed character class''
          else Inr (if negated then complement result else result, p\<lparr>pos := pos p + 1\<rparr>))"

section \<open>Repetitions\<close>

text \<open>
  The quantifier at the parser's position, if there is one: the switch of \<open>disjunction\<close>.
  A quantifier carries its bounds and their decimal texts.
\<close>

record quantifier =
  minimum :: u64
  maximum :: u64
  lowerText :: string
  upperText :: string
  unbounded :: bool
  counted :: bool

definition saturated_decimal :: "string \<Rightarrow> u64" where
  "saturated_decimal s = word_of_nat (fst (parse_uint 10 64 s))"

definition reversed_bounds :: "string \<Rightarrow> string \<Rightarrow> bool" where
  "reversed_bounds lower upper \<longleftrightarrow>
     length upper < length lower \<or> length upper = length lower \<and> upper < lower"

definition counted_bounds :: "parser \<Rightarrow> parse_error + (quantifier \<times> parser)" where
  "counted_bounds p =
     (let lower = pos p; (ok, p) = read_digits p in
      if \<not> ok then fail p ''a repetition requires a lower bound''
      else
        let lowerText = decimal (slice (source p) lower (pos p));
            (upperText, unlimited, p) =
              (if unread p \<and> current_byte p = CHR '',''
               then let p = p\<lparr>pos := pos p + 1\<rparr>; upper = pos p; (ok, p) = read_digits p in
                    if ok then (decimal (slice (source p) upper (pos p)), False, p)
                    else (lowerText, True, p)
               else (lowerText, False, p))
        in
        if pos p = length (source p) \<or> current_byte p \<noteq> CHR ''}'' then fail p ''invalid repetition''
        else
          let p = p\<lparr>pos := pos p + 1\<rparr> in
          if \<not> unlimited \<and> reversed_bounds lowerText upperText
          then fail p ''repetition bounds are reversed''
          else Inr (\<lparr>minimum = saturated_decimal lowerText, maximum = saturated_decimal upperText,
                     lowerText = lowerText, upperText = upperText,
                     unbounded = unlimited, counted = True\<rparr>, p))"

definition quantifier_at :: "parser \<Rightarrow> parse_error + (quantifier option \<times> parser)" where
  "quantifier_at p =
     (let c = current_byte p in
      if c = CHR ''*'' \<or> c = CHR ''+'' \<or> c = CHR ''?'' then
        Inr (Some \<lparr>minimum = (if c = CHR ''+'' then 1 else 0), maximum = 1, lowerText = '''',
                   upperText = '''', unbounded = (c \<noteq> CHR ''?''), counted = False\<rparr>,
             p\<lparr>pos := pos p + 1\<rparr>)
      else if c = CHR ''{'' then
        (case counted_bounds (p\<lparr>pos := pos p + 1\<rparr>) of
           Inl e \<Rightarrow> Inl e | Inr (q, p) \<Rightarrow> Inr (Some q, p))
      else Inr (None, p))"

text \<open>
  The rest of a turn of \<open>disjunction\<close>'s loop after an atom: the text it writes, the node it
  appends and the parser behind it.
\<close>

definition repetition ::
  "string \<Rightarrow> bool \<Rightarrow> parser \<Rightarrow> parse_error + (string \<times> node \<times> parser)" where
  "repetition atom assertion p =
     (let atomTree = ptree p in
      if pos p = length (source p) then Inr (atom, atomTree, p)
      else
        let start = pos p in
        case quantifier_at p of
          Inl e \<Rightarrow> Inl e
        | Inr (quant, p) \<Rightarrow>
            (case quant of
               None \<Rightarrow> Inr (atom, atomTree, p)
             | Some q \<Rightarrow>
                 if assertion then fail p ''an assertion cannot be repeated''
                 else
                   let lazy = unread p \<and> current_byte p = CHR ''?'';
                       p = (if lazy then p\<lparr>pos := pos p + 1\<rparr> else p);
                       n = repeatNode atomTree (minimum q) (maximum q) (unbounded q)
                   in
                   if \<not> counted q then Inr (atom @ slice (source p) start (pos p), n, p)
                   else
                     Inr (atom @
                          (if unbounded q then ''{'' @ lowerText q @ '',}''
                           else if upperText q = lowerText q then ''{'' @ lowerText q @ ''}''
                           else ''{'' @ lowerText q @ '','' @ upperText q @ ''}'') @
                          (if lazy then ''?'' else ''''), n, p)))"

section \<open>Alternatives, sequences and atoms\<close>

definition finish :: "node list \<Rightarrow> node list \<Rightarrow> node" where
  "finish branches seq = joinNode CHR ''|'' (branches @ [joinNode CHR ''s'' seq])"

definition dot_class :: characters where
  "dot_class = complement [\<lparr>lo = 10, hi = 10\<rparr>, \<lparr>lo = 13, hi = 13\<rparr>, \<lparr>lo = 0x2028, hi = 0x2029\<rparr>]"

definition dot_text :: string where
  "dot_text = ''[^'' @ hex_rune 0xa @ hex_rune 0xd @ hex_rune 0x2028 @ hex_rune 0x2029 @ '']''"

definition group_prefix :: "parser \<Rightarrow> parse_error + parser" where
  "group_prefix p =
     (if unread p \<and> current_byte p = CHR ''?'' then
        (if \<not> prefix ''?:'' (drop (pos p) (source p)) then fail p ''unsupported group prefix''
         else Inr (p\<lparr>pos := pos p + 2\<rparr>))
      else Inr p)"

text \<open>The cases of \<open>atom\<close> that do not recurse, after the first rune \<open>c\<close> is read.\<close>

definition leaf_atom :: "int \<Rightarrow> parser \<Rightarrow> parse_error + (string \<times> bool \<times> parser)" where
  "leaf_atom c p =
     (if c = 0x5E then Inr (''^'', True, p\<lparr>ptree := assertionNode CHR ''^''\<rparr>)
      else if c = 0x24 then Inr (''$'', True, p\<lparr>ptree := assertionNode CHR ''$''\<rparr>)
      else if c = 0x2E then Inr (dot_text, False, p\<lparr>ptree := setNode dot_class\<rparr>)
      else if c = 0x5B then
        (case class_set p of
           Inl e \<Rightarrow> Inl e
         | Inr (cs, p) \<Rightarrow> Inr (pattern cs, False, p\<lparr>ptree := setNode cs\<rparr>))
      else if c = 0x5C then
        (case escape False p of
           Inl e \<Rightarrow> Inl e
         | Inr (cs, assertion, p) \<Rightarrow>
             if assertion \<noteq> ''''
             then Inr (assertion, True, p\<lparr>ptree := assertionNode (assertion ! 1)\<rparr>)
             else Inr (pattern cs, False, p\<lparr>ptree := setNode cs\<rparr>))
      else if c \<in> {0x2A, 0x2B, 0x3F, 0x7B, 0x7D, 0x5D} then fail p ''unescaped syntax character''
      else Inr (pattern (character c), False, p\<lparr>ptree := setNode (character c)\<rparr>))"

fun disjunction :: "nat \<Rightarrow> bool \<Rightarrow> string \<Rightarrow> node list \<Rightarrow> node list \<Rightarrow> parser \<Rightarrow>
    (parse_error + (string \<times> parser)) option"
and atom :: "nat \<Rightarrow> parser \<Rightarrow> (parse_error + (string \<times> bool \<times> parser)) option"
where
  "disjunction 0 grp out branches seq p = None"
| "disjunction (Suc fuel) grp out branches seq p =
     (if unread p then
        if current_byte p = CHR '')'' then
          (if \<not> grp then Some (fail p ''unmatched closing parenthesis'')
           else Some (Inr (out, p\<lparr>pos := pos p + 1, ptree := finish branches seq\<rparr>)))
        else if current_byte p = CHR ''|'' then
          disjunction fuel grp (out @ ''|'') (branches @ [joinNode CHR ''s'' seq]) []
            (p\<lparr>pos := pos p + 1\<rparr>)
        else
          (case atom fuel p of
             None \<Rightarrow> None
           | Some (Inl e) \<Rightarrow> Some (Inl e)
           | Some (Inr (a, assertion, p)) \<Rightarrow>
               (case repetition a assertion p of
                  Inl e \<Rightarrow> Some (Inl e)
                | Inr (text, n, p) \<Rightarrow> disjunction fuel grp (out @ text) branches (seq @ [n]) p))
      else if grp then Some (fail p ''unclosed group'')
      else Some (Inr (out, p\<lparr>ptree := finish branches seq\<rparr>)))"
| "atom 0 p = None"
| "atom (Suc fuel) p =
     (let rest = drop (pos p) (source p) in
      case opens rest of
        Some found \<Rightarrow> Some (fail p (refused found))
      | None \<Rightarrow>
          let (c, size) = decode_rune rest; p = p\<lparr>pos := pos p + size\<rparr> in
          if c = 0x28 then
            (case group_prefix p of
               Inl e \<Rightarrow> Some (Inl e)
             | Inr p \<Rightarrow>
                 (case disjunction fuel True [] [] [] p of
                    None \<Rightarrow> None
                  | Some (Inl e) \<Rightarrow> Some (Inl e)
                  | Some (Inr (inner, p)) \<Rightarrow> Some (Inr (''(?:'' @ inner @ '')'', False, p))))
          else Some (leaf_atom c p))"

section \<open>Compile\<close>

text \<open>What Go's engine answers to a translated expression.\<close>

datatype native_result =
    Native "string \<Rightarrow> bool"
  | Repeat_too_large
  | Native_error string

datatype compile_error =
    Not_unicode_expression parse_error
  | Not_an_expression string

definition empty_tree :: node where
  "empty_tree = Node CHR ''s'' [] [] 0 0 0 False"

definition parse :: "string \<Rightarrow> (parse_error + (string \<times> parser)) option" where
  "parse s =
     disjunction (2 * length s + 1) False [] [] [] \<lparr>source = s, pos = 0, ptree = empty_tree\<rparr>"

definition Compile :: "(string \<Rightarrow> native_result) \<Rightarrow> string \<Rightarrow> (compile_error + regexp) option" where
  "Compile engine s =
     (case parse s of
        None \<Rightarrow> None
      | Some (Inl e) \<Rightarrow> Some (Inl (Not_unicode_expression e))
      | Some (Inr (translated, p)) \<Rightarrow>
          Some (case engine translated of
                  Repeat_too_large \<Rightarrow> Inr \<lparr>native = None, tree = ptree p\<rparr>
                | Native_error e \<Rightarrow> Inl (Not_an_expression e)
                | Native f \<Rightarrow> Inr \<lparr>native = Some f, tree = ptree p\<rparr>))"

end
