(* ===== verification/Pattern_Parse_Correct.thy ===== *)
theory Pattern_Parse_Correct
  imports Pattern_Parse
begin

text \<open>
  What the parser guarantees: it returns on every source, and the tree of an accepted source
  is well formed, its character sets in normal form and within the code points.
\<close>

section \<open>The node constructors\<close>

fun tree_ok :: "node \<Rightarrow> bool" where
  "tree_ok (Node k cs ch mn mx w unl) \<longleftrightarrow>
     wf_node (Node k cs ch mn mx w unl) \<and> separated cs \<and> spans_ok cs \<and> (\<forall>c \<in> set ch. tree_ok c)"

lemma tree_ok_wf: "tree_ok n \<Longrightarrow> wf_node n"
  by (cases n) simp

lemma unat_add_le: "unat ((a :: u64) + b) \<le> unat a + unat b"
  by (simp add: unat_word_ariths)

lemma unat_mult_le: "unat ((a :: u64) * b) \<le> unat a * unat b"
  by (simp add: unat_word_ariths)

lemma unat_maxUint64: "unat maxUint64 = 2 ^ 64 - 1"
  by (simp add: maxUint64_def unsigned_minus_1_eq_mask mask_eq_exp_minus_1)

lemma addWidth_le: "unat (addWidth a b) \<le> unat a + unat b"
proof (cases "a > maxUint64 - b")
  case True
  have "b \<le> maxUint64" by (simp add: maxUint64_def)
  then have "unat (maxUint64 - b) = 2 ^ 64 - 1 - unat b" by (simp add: unat_sub unat_maxUint64)
  then show ?thesis using True by (simp add: addWidth_def word_less_nat_alt unat_maxUint64)
qed (simp add: addWidth_def unat_add_le)

lemma foldl_addWidth_le:
  "unat (foldl (\<lambda>w child. addWidth w (width child)) w ch) \<le>
   unat w + sum_list (map (\<lambda>c. unat (width c)) ch)"
proof (induction ch arbitrary: w)
  case (Cons c ch)
  show ?case using Cons [of "addWidth w (width c)"] addWidth_le [of w "width c"] by simp
qed simp

lemma foldl_min_le:
  "foldl (\<lambda>w child. min w (width child)) w ch \<le> w \<and>
   (\<forall>c \<in> set ch. foldl (\<lambda>w child. min w (width child)) w ch \<le> width c)"
proof (induction ch arbitrary: w)
  case (Cons c ch)
  show ?case using Cons [of "min w (width c)"] by auto
qed simp

lemma setNode_ok: "spans_ok cs \<Longrightarrow> tree_ok (setNode cs)"
  by (simp add: setNode_def normalized_ok normalized_separated)

lemma assertionNode_ok: "k \<in> {CHR ''^'', CHR ''$'', CHR ''b'', CHR ''B''} \<Longrightarrow> tree_ok (assertionNode k)"
  by (auto simp: assertionNode_def separated_def)

lemma joinNode_ok:
  assumes "\<forall>c \<in> set ch. tree_ok c" "k = CHR ''s'' \<or> k = CHR ''|''"
  shows "tree_ok (joinNode k ch)"
proof (cases "length ch = 1")
  case False
  then show ?thesis
    using assms foldl_addWidth_le [of 0 ch] foldl_min_le [of maxUint64 ch] tree_ok_wf
    by (auto simp: joinNode_def separated_def word_le_nat_alt)
qed (use assms in \<open>auto simp: joinNode_def length_Suc_conv\<close>)

lemma saturated_product:
  assumes "mn \<noteq> 0" "w > maxUint64 div mn"
  shows "unat maxUint64 \<le> unat w * unat mn"
proof -
  have "unat mn > 0" using assms(1) by (simp add: unat_gt_0)
  have "unat maxUint64 div unat mn < unat w"
    using assms(2) by (simp add: word_less_nat_alt unat_div)
  then have "unat maxUint64 < unat w * unat mn"
    using \<open>unat mn > 0\<close> by (simp add: div_less_iff_less_mult)
  then show ?thesis by simp
qed

lemma repeatNode_ok:
  assumes "tree_ok child" "mn \<le> mx"
  shows "tree_ok (repeatNode child mn mx unl)"
  using assms saturated_product [of mn "width child"] unat_mult_le [of "width child" mn] tree_ok_wf
  by (simp add: repeatNode_def Let_def separated_def)

section \<open>Numbers\<close>

lemma number_snoc: "number b (s @ [c]) = number b s * b + digit_value c"
  by (simp add: number_def)

lemma number_bound:
  "\<forall>c \<in> set s. digit_value c < b \<Longrightarrow> number b s < b ^ length s"
proof (induction s rule: rev_induct)
  case (snoc c s)
  then have "number b s + 1 \<le> b ^ length s" "digit_value c < b" by auto
  then have "(number b s + 1) * b \<le> b ^ length s * b" by (intro mult_le_mono1)
  then show ?case using \<open>digit_value c < b\<close> by (simp add: number_snoc mult.commute)
qed (simp add: number_def)

lemma digit_value_hex:
  assumes "isHex c"
  shows "digit_value c < 16"
  using assms by (auto simp: isHex_def digit_value_def less_eq_char_def Let_def)

lemma hex_loop_digits:
  "hex_loop n p = Inr p' \<Longrightarrow> source p' = source p \<and> pos p' = pos p + n \<and>
   (\<forall>i. pos p \<le> i \<longrightarrow> i < pos p + n \<longrightarrow> isHex (source p ! i))"
proof (induction n p rule: hex_loop.induct)
  case (2 n p)
  then have "hex_loop n (p\<lparr>pos := pos p + 1\<rparr>) = Inr p'" "isHex (current_byte p)"
    by (auto simp: fail_def split: if_splits)
  then have "source p' = source p \<and> pos p' = pos p + Suc n" and
    later: "\<forall>i. pos p + 1 \<le> i \<longrightarrow> i < pos p + Suc n \<longrightarrow> isHex (source p ! i)"
    using 2 by (auto simp: fail_def split: if_splits)
  moreover have "isHex (source p ! i)" if "pos p \<le> i" "i < pos p + Suc n" for i
    using \<open>isHex (current_byte p)\<close> later that by (cases "i = pos p") auto
  ultimately show ?case by blast
qed simp

lemma hex_bound:
  assumes "hex n p = Inr (v, p')" "n \<le> 4" "pos p \<le> length (source p)"
  shows "0 \<le> v \<and> v \<le> 0xffff"
proof -
  obtain q where q: "hex_loop n p = Inr q"
    and v: "v = int (fst (parse_uint 16 32 (slice (source q) (pos p) (pos q))))"
    using assms(1) by (auto simp: hex_def split: sum.splits)
  let ?s = "slice (source q) (pos p) (pos q)"
  have moved: "moved p q" using q assms(3) by (rule hex_loop_moved)
  have "\<forall>c \<in> set ?s. isHex c"
    using hex_loop_digits [OF q] moved by (auto simp: slice_def in_set_conv_nth moved_def)
  then have "number 16 ?s < 16 ^ length ?s" using digit_value_hex by (intro number_bound) blast
  also have "\<dots> \<le> 16 ^ 4"
    using hex_loop_digits [OF q] assms(2) by (intro power_increasing) (simp_all add: slice_def)
  finally show ?thesis using v by (simp add: parse_uint_def Let_def)
qed

section \<open>The sets the parser reads\<close>

definition escape_ok :: "parser \<Rightarrow> characters \<times> string \<times> parser \<Rightarrow> bool" where
  "escape_ok p = (\<lambda>(cs, a, p'). spans_ok cs \<and>
     (a = '''' \<or> a = backslash # ''b'' \<or> a = backslash # ''B''))"

lemma escape_okI: "spans_ok cs \<Longrightarrow> escape_ok p (cs, '''', p')"
  by (simp add: escape_ok_def)

lemma spans_ok_character: "0 \<le> r \<Longrightarrow> r \<le> max_rune \<Longrightarrow> spans_ok (character r)"
  by (simp add: character_def)

lemma of_char_spans: "spans_ok (character (of_char c))"
proof -
  have "(of_char c :: int) = int (of_char c)" by (rule of_nat_of_char [symmetric])
  then have "(of_char c :: int) < 256" "0 \<le> (of_char c :: int)"
    using nat_of_char_less_256 [of c] by linarith+
  then show ?thesis by (intro spans_ok_character) simp_all
qed

lemma unicode_escape_sets:
  assumes "pos p \<le> length (source p)"
  shows "accepted (escape_ok q) (unicode_escape p)"
proof -
  have pair: "spans_ok (character (utf16_decode v t))"
    if "0xd800 \<le> v" "v \<le> 0xdbff" "0xdc00 \<le> t" "t \<le> 0xdfff" for v t
    using that by (intro spans_ok_character) (simp_all add: utf16_decode_def)
  have hex: "spans_ok (character v)" if "hex 4 p = Inr (v, p')" for v p'
    using hex_bound [OF that _ assms] by (intro spans_ok_character) simp_all
  show ?thesis
  proof (cases "unread p \<and> current_byte p = CHR ''{''")
    case True
    then show ?thesis
      unfolding unicode_escape_def Let_def
      by (simp only: if_True simp_thms, intro accepted_rules fail_accepted)
        (simp add: escape_ok_def spans_ok_character)
  next
    case False
    have "accepted (escape_ok q) (case hex 4 (p1\<lparr>pos := pos p1 + 2\<rparr>) of
        Inl _ \<Rightarrow> Inr (character v, '''', p1)
      | Inr (trail, p') \<Rightarrow>
          if trail \<ge> 0xdc00 \<and> trail \<le> 0xdfff then Inr (character (utf16_decode v trail), '''', p')
          else Inr (character v, '''', p1))"
      if "hex 4 p = Inr (v, p1)" "v \<ge> 0xd800 \<and> v \<le> 0xdbff" for v p1
      using hex [OF that(1)] pair that(2) by (auto simp: escape_ok_def split: sum.split)
    then show ?thesis
      unfolding unicode_escape_def if_not_P [OF False]
      by (intro accepted_rules) (use hex in \<open>auto simp: escape_ok_def\<close>)
  qed
qed

lemma escape_sets:
  assumes "pos p \<le> length (source p)"
  shows "accepted (escape_ok p) (escape cls p)"
proof -
  let ?p = "p\<lparr>pos := pos p + 1\<rparr>"
  have hex: "spans_ok (character v)" if "pos p \<noteq> length (source p)" "hex 2 ?p = Inr (v, p')" for v p'
    using hex_bound [OF that(2)] that(1) assms by (intro spans_ok_character) simp_all
  have uni: "accepted (escape_ok p) (unicode_escape ?p)" if "pos p \<noteq> length (source p)"
    using that assms by (intro unicode_escape_sets) simp
  have ctl: "spans_ok (character (int (of_char c mod 32)))" for c
  proof -
    have "of_char c mod 32 < (32 :: nat)" by simp
    then show ?thesis by (intro spans_ok_character) (simp_all del: of_nat_mod mod_less_divisor)
  qed
  show ?thesis
    unfolding escape_def Let_def
    by (intro accepted_rules fail_accepted)
      (use hex uni in \<open>simp_all add: escape_okI of_char_spans ctl complement_ok spans_ok_character, simp_all add: escape_ok_def\<close>)
qed

lemma classAtom_sets:
  assumes "classAtom p = Inr (cs, p')" "unread p"
  shows "spans_ok cs"
proof -
  obtain c n where dec: "decode_rune (drop (pos p) (source p)) = (c, n)" by fastforce
  have "pos p + n \<le> length (source p)"
    using decode_rune_size_prod [OF _ dec] assms(2) by auto
  moreover have "rune_ok c" using decode_rune_ok [of "drop (pos p) (source p)"] dec by simp
  ultimately have "accepted (\<lambda>(cs, p'). spans_ok cs) (classAtom p)"
    unfolding classAtom_def dec Let_def prod.case
    using escape_sets [of "p\<lparr>pos := pos p + n\<rparr>" True]
    by (intro accepted_rules) (auto simp: spans_ok_character rune_ok_def escape_ok_def accepted_def)
  then show ?thesis using acceptedD [OF _ assms(1)] by blast
qed

lemma moved_trans: "moved p q \<Longrightarrow> moved q r \<Longrightarrow> moved p r"
  by (simp add: moved_def)

lemma accepted_moved:
  assumes "accepted (\<lambda>(x, q). Q x \<and> moved p1 q) r" "moved p p1"
  shows "accepted (\<lambda>(x, q). Q x \<and> moved p q) r"
  using assms moved_trans unfolding accepted_def by fast

lemma class_loop_sets:
  "spans_ok result \<Longrightarrow> pos p \<le> length (source p) \<Longrightarrow>
   accepted (\<lambda>(cs, p'). spans_ok cs \<and> moved p p') (class_loop p result)"
proof (induction p result rule: class_loop.induct)
  case (1 p result)
  show ?case
  proof (cases "unread p \<and> current_byte p \<noteq> CHR '']''")
    case False
    then show ?thesis using 1(3,4) by (subst class_loop.simps) (auto simp: moved_refl)
  next
    case go: True
    show ?thesis
    proof (cases "classAtom p")
      case (Inl e)
      then show ?thesis using go by (subst class_loop.simps) simp
    next
      case (Inr x)
      obtain left p' where x: "x = (left, p')" by fastforce
      have left: "spans_ok left" "moved p p'"
        using classAtom_sets classAtom_moved(1) Inr go x by auto
      let ?p = "p'\<lparr>pos := pos p' + 1\<rparr>"
      have step: "accepted (\<lambda>(cs, q). spans_ok cs \<and> moved p q) r"
        if "accepted (\<lambda>(cs, q). spans_ok cs \<and> moved p1 q) r" "moved p p1" for r p1
        using that by (rule accepted_moved)
      show ?thesis
      proof (cases "pos p' + 1 < length (source p') \<and> current_byte p' = CHR ''-''
          \<and> source p' ! (pos p' + 1) \<noteq> CHR '']''")
        case False
        have "accepted (\<lambda>(cs, q). spans_ok cs \<and> moved p' q) (class_loop p' (result @ left))"
          using 1(2) [OF go Inr x [symmetric] False] left 1(3) by (simp add: moved_def)
        moreover have "class_loop p result = class_loop p' (result @ left)"
          unfolding class_loop.simps [of p] if_P [OF go] Inr x sum.case prod.case if_not_P [OF False] ..
        ultimately show ?thesis using step [OF _ left(2)] by metis
      next
        case range: True
        have "accepted (\<lambda>(cs, q). spans_ok cs \<and> moved p q)
          (case classAtom ?p of Inl e \<Rightarrow> Inl e
           | Inr (right, p'') \<Rightarrow>
               (case (single left, single right) of
                  (Some l, Some h) \<Rightarrow>
                    if l > h then fail p'' ''invalid character-class range''
                    else class_loop p'' (result @ [\<lparr>lo = l, hi = h\<rparr>])
                | _ \<Rightarrow> fail p'' ''invalid character-class range''))"
        proof (rule accepted_bind, rule accepted_prod)
          fix y right p'' assume y: "classAtom ?p = Inr y" "y = (right, p'')"
          have right: "spans_ok right" "moved ?p p''"
            using classAtom_sets [of ?p right p''] classAtom_moved(1) [of ?p right p''] y range by auto
          show "accepted (\<lambda>(cs, q). spans_ok cs \<and> moved p q)
            (case (single left, single right) of
               (Some l, Some h) \<Rightarrow>
                 if l > h then fail p'' ''invalid character-class range''
                 else class_loop p'' (result @ [\<lparr>lo = l, hi = h\<rparr>])
             | _ \<Rightarrow> fail p'' ''invalid character-class range'')"
          proof (cases "single left = None \<or> single right = None")
            case False
            then obtain l h where lh: "single left = Some l" "single right = Some h" by auto
            then have ok: "spans_ok [\<lparr>lo = l, hi = h\<rparr>]" if "l \<le> h"
              using left(1) right(1) that
              by (auto simp: single_def split: list.splits if_splits)
            have "moved p p''" using left(2) right(2) by (simp add: moved_def)
            then have "accepted (\<lambda>(cs, q). spans_ok cs \<and> moved p q)
                (class_loop p'' (result @ [\<lparr>lo = l, hi = h\<rparr>]))" if "l \<le> h"
              using 1(1) [OF go Inr x [symmetric] range y(1) y(2) [symmetric] refl lh]
                ok [OF that] 1(3) that right(2) by (intro step [of p'']) (simp_all add: moved_def)
            then show ?thesis using lh by simp
          qed (auto split: option.split)
        qed
        then show ?thesis
          unfolding class_loop.simps [of p] if_P [OF go] Inr x sum.case prod.case if_P [OF range] .
      qed
    qed
  qed
qed

lemma class_set_sets:
  assumes "pos p \<le> length (source p)"
  shows "accepted (\<lambda>(cs, p'). spans_ok cs \<and> moved p p') (class_set p)"
proof -
  define q where "q = (if unread p \<and> current_byte p = CHR ''^'' then p\<lparr>pos := pos p + 1\<rparr> else p)"
  have q: "moved p q" using assms by (auto simp: q_def moved_def)
  then have loop: "accepted (\<lambda>(cs, p'). spans_ok cs \<and> moved q p') (class_loop q [])"
    by (intro class_loop_sets) (simp_all add: moved_def)
  show ?thesis
    unfolding class_set_def Let_def q_def [symmetric]
    by (intro accepted_rules fail_accepted)
      (use acceptedD [OF loop] q in \<open>auto simp: complement_ok moved_def\<close>)
qed

section \<open>Repetition bounds\<close>

lemma number_from: "foldl (\<lambda>n c. n * b + digit_value c) k s = k * b ^ length s + number b s"
proof (induction s rule: rev_induct)
  case (snoc c s)
  then show ?case by (simp add: number_snoc algebra_simps)
qed (simp add: number_def)

lemma number_Cons: "number b (c # s) = digit_value c * b ^ length s + number b s"
proof -
  have "number b (c # s) = foldl (\<lambda>n c. n * b + digit_value c) (digit_value c) s"
    by (simp add: number_def)
  then show ?thesis by (simp only: number_from)
qed

lemma digit_value_digit:
  assumes "is_digit c"
  shows "digit_value c = of_char c - 48" "48 \<le> (of_char c :: nat)" "of_char c \<le> (57 :: nat)"
  using assms by (simp_all add: is_digit_def digit_value_def less_eq_char_def)

lemma number_lex:
  "length a = length b \<Longrightarrow> \<forall>c \<in> set a \<union> set b. is_digit c \<Longrightarrow> a \<le> b \<Longrightarrow> number 10 a \<le> number 10 b"
proof (induction a b rule: list_induct2)
  case (Cons x xs y ys)
  have d: "digit_value z < 10" if "is_digit z" for z using digit_value_digit [OF that] by simp
  consider "x < y" | "x = y" "xs \<le> ys" using Cons.prems(2) by auto
  then show ?case
  proof cases
    case 1
    moreover have "is_digit x" "is_digit y" using Cons.prems(1) by simp_all
    ultimately have "digit_value x + 1 \<le> digit_value y"
      using digit_value_digit [of x] digit_value_digit [of y] by (simp add: less_char_def)
    then have "(digit_value x + 1) * 10 ^ length ys \<le> digit_value y * 10 ^ length ys"
      by (rule mult_le_mono1)
    moreover have "number 10 xs < 10 ^ length ys"
      using number_bound [of xs 10] d Cons.prems(1) Cons.hyps by simp
    ultimately show ?thesis using Cons.hyps by (simp add: number_Cons)
  next
    case 2
    then show ?thesis using Cons by (simp add: number_Cons)
  qed
qed simp

definition decimal_text :: "string \<Rightarrow> bool" where
  "decimal_text s \<longleftrightarrow> (\<forall>c \<in> set s. is_digit c) \<and> (s = ''0'' \<or> s \<noteq> [] \<and> hd s \<noteq> CHR ''0'')"

lemma decimal_decimal_text: "\<forall>c \<in> set s. is_digit c \<Longrightarrow> decimal_text (decimal s)"
proof -
  assume s: "\<forall>c \<in> set s. is_digit c"
  let ?t = "dropWhile (\<lambda>c. c = CHR ''0'') s"
  have "\<forall>c \<in> set ?t. is_digit c" using s set_dropWhileD by metis
  moreover have "?t \<noteq> [] \<Longrightarrow> hd ?t \<noteq> CHR ''0''" by (rule hd_dropWhile)
  moreover have "is_digit CHR ''0''" by (simp add: is_digit_def)
  ultimately show ?thesis
    by (cases "?t = []") (simp_all add: decimal_text_def decimal_def Let_def)
qed

lemma number_order:
  assumes "decimal_text a" "decimal_text b" "\<not> reversed_bounds a b"
  shows "number 10 a \<le> number 10 b"
proof -
  have digits: "\<forall>c \<in> set a \<union> set b. is_digit c" using assms(1,2) by (auto simp: decimal_text_def)
  consider "length a = length b" "a \<le> b" | "length a < length b"
    using assms(3) by (cases "length a = length b") (auto simp: reversed_bounds_def not_less)
  then show ?thesis
  proof cases
    case 1
    then show ?thesis using digits number_lex by blast
  next
    case 2
    obtain c s where b: "b = c # s" using 2 by (cases b) auto
    have "a \<noteq> []" using assms(1) by (auto simp: decimal_text_def)
    then have "s \<noteq> []" using 2 b by auto
    then have "c \<noteq> CHR ''0''" "is_digit c" using assms(2) b by (auto simp: decimal_text_def)
    then have "1 \<le> digit_value c"
      using digit_value_digit [of c] of_char_eq_iff [of c "CHR ''0''", where ?'a = nat] by fastforce
    then have "10 ^ length s \<le> number 10 b" by (simp add: b number_Cons trans_le_add1)
    moreover have "number 10 a < 10 ^ length a"
      using digits digit_value_digit by (intro number_bound) fastforce
    moreover have "(10 :: nat) ^ length a \<le> 10 ^ length s" using 2 b by (intro power_increasing) auto
    ultimately show ?thesis by linarith
  qed
qed

lemma saturated_decimal_mono:
  "number 10 a \<le> number 10 b \<Longrightarrow> saturated_decimal a \<le> saturated_decimal b"
  by (simp add: saturated_decimal_def parse_uint_def Let_def word_le_nat_alt unat_of_nat)

lemma scan_all: "i \<le> k \<Longrightarrow> k < scan P s i \<Longrightarrow> P (s ! k)"
proof (induction P s i rule: scan.induct)
  case (1 P s i)
  show ?case
  proof (cases "i < length s \<and> P (s ! i)")
    case True
    then show ?thesis using 1 by (cases "i = k") (simp_all add: scan.simps [of P s i])
  qed (use 1 scan.simps [of P s i] in auto)
qed

lemma scan_slice: "i \<le> length s \<Longrightarrow> \<forall>c \<in> set (slice s i (scan P s i)). P c"
  using scan_all [of i _ P s] scan_bounds [of i s P] by (auto simp: slice_def in_set_conv_nth)

lemma read_digits_ok:
  assumes "read_digits p = (ok, p')" "pos p \<le> length (source p)"
  shows "moved p p'" "decimal_text (decimal (slice (source p') (pos p) (pos p')))"
  using assms scan_bounds [of "pos p" "source p" is_digit] scan_slice [of "pos p" "source p" is_digit]
  by (auto simp: read_digits_def moved_def intro!: decimal_decimal_text)

lemma counted_bounds_ok:
  assumes "pos p \<le> length (source p)"
  shows "accepted (\<lambda>(q, p'). minimum q \<le> maximum q \<and> moved p p') (counted_bounds p)"
proof -
  obtain ok p1 where p1: "read_digits p = (ok, p1)" by fastforce
  note r1 = read_digits_ok [OF p1 assms]
  define lower where "lower = decimal (slice (source p1) (pos p) (pos p1))"
  define p2 where "p2 = p1\<lparr>pos := pos p1 + 1\<rparr>"
  obtain ok2 p3 where p3: "read_digits p2 = (ok2, p3)" by fastforce
  define upper where "upper = decimal (slice (source p3) (pos p2) (pos p3))"
  define rest where "rest =
    (if unread p1 \<and> current_byte p1 = CHR '',''
     then if ok2 then (upper, False, p3) else (lower, True, p3)
     else (lower, False, p1))"
  obtain u unl p4 where r: "rest = (u, unl, p4)" by (cases rest)
  have p4: "moved p1 p4 \<and> decimal_text u \<and> (unl \<longrightarrow> u = lower)"
  proof (cases "unread p1 \<and> current_byte p1 = CHR '',''")
    case True
    then have "moved p2 p3" "decimal_text upper"
      using read_digits_ok [OF p3] by (simp_all add: p2_def upper_def)
    then show ?thesis
      using r r1 True by (auto simp: rest_def moved_def p2_def lower_def split: if_splits)
  next
    case False
    then show ?thesis
      using r r1 by (auto simp: rest_def lower_def moved_def)
  qed
  have "accepted (\<lambda>(q, p'). minimum q \<le> maximum q \<and> moved p p')
    (if \<not> ok then fail p1 ''a repetition requires a lower bound''
     else case rest of (u, unl, p) \<Rightarrow>
       if pos p = length (source p) \<or> current_byte p \<noteq> CHR ''}'' then fail p ''invalid repetition''
       else
         let p = p\<lparr>pos := pos p + 1\<rparr> in
         if \<not> unl \<and> reversed_bounds lower u
         then fail p ''repetition bounds are reversed''
         else Inr (\<lparr>minimum = saturated_decimal lower, maximum = saturated_decimal u,
                    lowerText = lower, upperText = u,
                    unbounded = unl, counted = True\<rparr>, p))"
  proof -
    have "saturated_decimal lower \<le> saturated_decimal u" if "\<not> (\<not> unl \<and> reversed_bounds lower u)"
    proof (cases unl)
      case False
      then show ?thesis
        using that r1(2) p4 by (intro saturated_decimal_mono number_order) (simp_all add: lower_def)
    qed (use p4 in simp)
    moreover have "moved p (p4\<lparr>pos := pos p4 + 1\<rparr>)" if "pos p4 \<noteq> length (source p4)"
      using r1(1) p4 that by (simp add: moved_def)
    ultimately show ?thesis
      unfolding r Let_def by (intro accepted_rules fail_accepted) (simp_all add: r)
  qed
  also have "(if \<not> ok then fail p1 ''a repetition requires a lower bound''
     else case rest of (u, unl, p) \<Rightarrow>
       if pos p = length (source p) \<or> current_byte p \<noteq> CHR ''}'' then fail p ''invalid repetition''
       else
         let p = p\<lparr>pos := pos p + 1\<rparr> in
         if \<not> unl \<and> reversed_bounds lower u
         then fail p ''repetition bounds are reversed''
         else Inr (\<lparr>minimum = saturated_decimal lower, maximum = saturated_decimal u,
                    lowerText = lower, upperText = u,
                    unbounded = unl, counted = True\<rparr>, p)) = counted_bounds p"
    unfolding counted_bounds_def Let_def p1 prod.case rest_def p2_def [symmetric] p3 lower_def upper_def ..
  finally show ?thesis .
qed

lemma quantifier_at_ok:
  assumes "unread p"
  shows "accepted (\<lambda>(q, p'). (\<forall>q'. q = Some q' \<longrightarrow> minimum q' \<le> maximum q') \<and> moved p p') (quantifier_at p)"
proof -
  let ?p = "p\<lparr>pos := pos p + 1\<rparr>"
  have step: "moved p ?p" "\<And>q. moved ?p q \<Longrightarrow> moved p q" using assms by (auto simp: moved_def)
  have "minimum q \<le> maximum q" "moved p p'" if "counted_bounds ?p = Inr (q, p')" for q p'
    using acceptedD [OF counted_bounds_ok that] assms step(2) by simp_all
  then show ?thesis
    unfolding quantifier_at_def Let_def
    by (intro accepted_rules) (use step moved_refl [of p] assms in auto)
qed

lemma repetition_ok:
  assumes "pos p \<le> length (source p)" "tree_ok (ptree p)"
  shows "accepted (\<lambda>(t, n, p'). tree_ok n \<and> moved p p') (repetition a assertion p)"
proof (cases "pos p = length (source p)")
  case True
  then show ?thesis using assms by (simp add: repetition_def moved_refl)
next
  case False
  then have unread: "unread p" using assms(1) by simp
  have q: "\<forall>q'. quant = Some q' \<longrightarrow> minimum q' \<le> maximum q'" "moved p p'"
    if "quantifier_at p = Inr (quant, p')" for quant p'
    using acceptedD [OF quantifier_at_ok [OF unread] that] by simp_all
  have lazy: "moved p (if unread p' \<and> current_byte p' = CHR ''?'' then p'\<lparr>pos := pos p' + 1\<rparr> else p')"
    if "moved p p'" for p'
    using that by (auto simp: moved_def)
  show ?thesis
    unfolding repetition_def Let_def if_not_P [OF False]
    by (intro accepted_rules fail_accepted)
      (use q lazy assms(2) in \<open>auto simp del: tree_ok.simps intro!: repeatNode_ok\<close>)
qed

section \<open>Atoms, groups and whole expressions\<close>

lemma dot_class_ok: "spans_ok dot_class"
  unfolding dot_class_def using complement_ok by simp

lemma leaf_atom_ok:
  assumes "pos p \<le> length (source p)" "rune_ok c"
  shows "accepted (\<lambda>(t, a, p'). tree_ok (ptree p') \<and> moved p p') (leaf_atom c p)"
proof -
  have up: "moved p (p'\<lparr>ptree := n\<rparr>) \<longleftrightarrow> moved p p'" for p' n by (simp add: moved_def)
  have cls: "spans_ok cs" "moved p p'" if "class_set p = Inr (cs, p')" for cs p'
    using acceptedD [OF class_set_sets [OF assms(1)] that] by simp_all
  have esc: "spans_ok cs" "moved p p'" "a \<noteq> '''' \<longrightarrow> a ! 1 = CHR ''b'' \<or> a ! 1 = CHR ''B''"
    if "escape False p = Inr (cs, a, p')" for cs a p'
    using acceptedD [OF escape_sets [OF assms(1)] that] escape_moved(1) [OF that assms(1)]
    by (auto simp: escape_ok_def)
  have char: "spans_ok (character c)"
    using assms(2) by (intro spans_ok_character) (simp_all add: rune_ok_def)
  show ?thesis
    unfolding leaf_atom_def Let_def
    by (intro accepted_rules fail_accepted)
      (use moved_refl [OF assms(1)] cls esc char dot_class_ok in
        \<open>simp_all add: up setNode_ok assertionNode_ok\<close>)
qed

lemma group_prefix_moved:
  assumes "pos p \<le> length (source p)"
  shows "accepted (moved p) (group_prefix p)"
proof -
  have "pos p + 2 \<le> length (source p)" if "prefix ''?:'' (drop (pos p) (source p))"
    using prefix_length_le [OF that] by simp
  then show ?thesis
    unfolding group_prefix_def
    by (intro accepted_rules fail_accepted) (use assms in \<open>auto simp: moved_def\<close>)
qed

definition trees_ok :: "node list \<Rightarrow> bool" where
  "trees_ok ns \<longleftrightarrow> (\<forall>n \<in> set ns. tree_ok n)"

lemma trees_ok_simps [simp]:
  "trees_ok []" "trees_ok (ns @ [n]) \<longleftrightarrow> trees_ok ns \<and> tree_ok n"
  by (auto simp: trees_ok_def)

lemma finish_ok: "trees_ok branches \<Longrightarrow> trees_ok seq \<Longrightarrow> tree_ok (finish branches seq)"
  unfolding finish_def by (intro joinNode_ok) (auto simp: trees_ok_def intro: joinNode_ok)

text \<open>
  The fuel each function needs from a position: an alternative hands its fuel to an atom at the
  same position, an atom hands it to the group one byte later.
\<close>

definition disjunction_good :: "parser \<Rightarrow> (parse_error + (string \<times> parser)) option \<Rightarrow> bool" where
  "disjunction_good p res \<longleftrightarrow>
     (\<exists>r. res = Some r \<and> accepted (\<lambda>(t, p'). tree_ok (ptree p') \<and> moved p p') r)"

definition atom_good :: "parser \<Rightarrow> (parse_error + (string \<times> bool \<times> parser)) option \<Rightarrow> bool" where
  "atom_good p res \<longleftrightarrow>
     (\<exists>r. res = Some r \<and>
        accepted (\<lambda>(t, a, p'). tree_ok (ptree p') \<and> moved p p' \<and> pos p < pos p') r)"

lemma accepted_mono: "accepted Q r \<Longrightarrow> (\<And>x. Q x \<Longrightarrow> Q' x) \<Longrightarrow> accepted Q' r"
  by (simp add: accepted_def)

lemma disjunction_goodI:
  assumes "disjunction_good q res" "moved p q"
  shows "disjunction_good p res"
proof -
  obtain r where r: "res = Some r" "accepted (\<lambda>(t, p'). tree_ok (ptree p') \<and> moved q p') r"
    using assms(1) by (auto simp: disjunction_good_def)
  have "accepted (\<lambda>(t, p'). tree_ok (ptree p') \<and> moved p p') r"
    using r(2) by (rule accepted_mono) (use moved_trans [OF assms(2)] in auto)
  then show ?thesis using r(1) by (simp add: disjunction_good_def)
qed

lemma moved_later: "moved p q \<Longrightarrow> pos p < pos q \<Longrightarrow> moved q r \<Longrightarrow> moved p r \<and> pos p < pos r"
  by (simp add: moved_def)

lemma disjunction_step:
  assumes IHd: "\<And>grp out branches seq p. pos p \<le> length (source p) \<Longrightarrow>
      2 * (length (source p) - pos p) + 1 \<le> fuel \<Longrightarrow> trees_ok branches \<Longrightarrow> trees_ok seq \<Longrightarrow>
      disjunction_good p (disjunction fuel grp out branches seq p)"
    and IHa: "\<And>p. unread p \<Longrightarrow> 2 * (length (source p) - pos p) \<le> fuel \<Longrightarrow> atom_good p (atom fuel p)"
    and p: "pos p \<le> length (source p)" "2 * (length (source p) - pos p) + 1 \<le> Suc fuel"
    and ok: "trees_ok branches" "trees_ok seq"
  shows "disjunction_good p (disjunction (Suc fuel) grp out branches seq p)"
proof (cases "unread p")
  case False
  then show ?thesis
    using p(1) ok by (simp add: disjunction_good_def fail_def finish_ok moved_def)
next
  case unread: True
  let ?p = "p\<lparr>pos := pos p + 1\<rparr>"
  have step: "moved p ?p" using unread by (simp add: moved_def)
  consider "current_byte p = CHR '')''" | "current_byte p = CHR ''|''"
    | "current_byte p \<noteq> CHR '')''" "current_byte p \<noteq> CHR ''|''" by blast
  then show ?thesis
  proof cases
    case 1
    then show ?thesis
      using unread ok by (simp add: disjunction_good_def fail_def finish_ok moved_def)
  next
    case 2
    have "tree_ok (joinNode CHR ''s'' seq)"
      using ok(2) by (intro joinNode_ok) (simp_all add: trees_ok_def)
    then have "disjunction_good ?p
        (disjunction fuel grp (out @ ''|'') (branches @ [joinNode CHR ''s'' seq]) [] ?p)"
      using unread p ok by (intro IHd) simp_all
    then show ?thesis
      using 2 unread disjunction_goodI [OF _ step] by simp
  next
    case 3
    obtain r where r: "atom fuel p = Some r"
      "accepted (\<lambda>(t, a, p'). tree_ok (ptree p') \<and> moved p p' \<and> pos p < pos p') r"
      using IHa [OF unread] p(2) by (auto simp: atom_good_def)
    have body: "disjunction (Suc fuel) grp out branches seq p =
        (case r of Inl e \<Rightarrow> Some (Inl e)
         | Inr (a, assertion, p) \<Rightarrow>
             (case repetition a assertion p of
                Inl e \<Rightarrow> Some (Inl e)
              | Inr (text, n, p) \<Rightarrow> disjunction fuel grp (out @ text) branches (seq @ [n]) p))"
      using unread 3 r(1) by (simp split: sum.split)
    show ?thesis
    proof (cases r)
      case (Inl e)
      then show ?thesis by (simp only: body sum.case) (simp add: disjunction_good_def)
    next
      case (Inr x)
      obtain a assertion p1 where x: "x = (a, assertion, p1)" by (cases x) auto
      have p1: "tree_ok (ptree p1)" "moved p p1" "pos p < pos p1"
        using acceptedD [OF r(2)] Inr x by auto
      show ?thesis
      proof (cases "repetition a assertion p1")
        case Inl': (Inl e)
        then show ?thesis by (simp only: body Inr x Inl' sum.case prod.case) (simp add: disjunction_good_def)
      next
        case Inr': (Inr y)
        obtain t n p2 where y: "y = (t, n, p2)" by (cases y) auto
        have p2: "tree_ok n" "moved p1 p2"
          using acceptedD [OF repetition_ok Inr'] p1 y by (simp_all add: moved_def)
        have "disjunction_good p2 (disjunction fuel grp (out @ t) branches (seq @ [n]) p2)"
          using p p1 p2 ok by (intro IHd) (auto simp: moved_def)
        then show ?thesis
          using disjunction_goodI moved_trans [OF p1(2) p2(2)]
          by (simp only: body Inr x Inr' y sum.case prod.case)
      qed
    qed
  qed
qed

lemma atom_step:
  assumes IHd: "\<And>p. pos p \<le> length (source p) \<Longrightarrow>
      2 * (length (source p) - pos p) + 1 \<le> fuel \<Longrightarrow>
      disjunction_good p (disjunction fuel True [] [] [] p)"
    and p: "unread p" "2 * (length (source p) - pos p) \<le> Suc fuel"
  shows "atom_good p (atom (Suc fuel) p)"
proof (cases "opens (drop (pos p) (source p))")
  case (Some found)
  then show ?thesis by (simp add: atom_good_def fail_def)
next
  case None
  obtain c n where dec: "decode_rune (drop (pos p) (source p)) = (c, n)" by fastforce
  let ?p = "p\<lparr>pos := pos p + n\<rparr>"
  have q: "moved p ?p" "pos p < pos ?p" "pos ?p \<le> length (source ?p)"
    using decode_rune_size_prod [OF _ dec] p(1) by (auto simp: moved_def)
  have rune: "rune_ok c" using decode_rune_ok [of "drop (pos p) (source p)"] dec by simp
  show ?thesis
  proof (cases "c = 0x28")
    case False
    have "accepted (\<lambda>(t, a, p'). tree_ok (ptree p') \<and> moved p p' \<and> pos p < pos p') (leaf_atom c ?p)"
      using leaf_atom_ok [OF q(3) rune] by (rule accepted_mono) (use moved_later [OF q(1,2)] in auto)
    then show ?thesis using None dec False by (simp add: atom_good_def)
  next
    case True
    have body: "atom (Suc fuel) p =
        (case group_prefix ?p of
           Inl e \<Rightarrow> Some (Inl e)
         | Inr p \<Rightarrow>
             (case disjunction fuel True [] [] [] p of
                None \<Rightarrow> None
              | Some (Inl e) \<Rightarrow> Some (Inl e)
              | Some (Inr (inner, p)) \<Rightarrow> Some (Inr (''(?:'' @ inner @ '')'', False, p))))"
      using None dec True by simp
    show ?thesis
    proof (cases "group_prefix ?p")
      case (Inl e)
      then show ?thesis by (simp only: body sum.case) (simp add: atom_good_def)
    next
      case (Inr p1)
      have p1: "moved ?p p1" using acceptedD [OF group_prefix_moved [OF q(3)] Inr] .
      then have "disjunction_good p1 (disjunction fuel True [] [] [] p1)"
        using p q by (intro IHd) (auto simp: moved_def)
      then obtain r where r: "disjunction fuel True [] [] [] p1 = Some r"
        "accepted (\<lambda>(t, p'). tree_ok (ptree p') \<and> moved p1 p') r"
        by (auto simp: disjunction_good_def)
      have "accepted (\<lambda>(t, p'). tree_ok (ptree p') \<and> moved p p' \<and> pos p < pos p') r"
        using r(2)
        by (rule accepted_mono) (use moved_later [OF q(1,2) moved_trans [OF p1]] in auto)
      then show ?thesis
        unfolding body Inr sum.case r(1) option.case
        by (cases r) (auto simp: atom_good_def)
    qed
  qed
qed

lemma disjunction_atom_good:
  shows "pos p \<le> length (source p) \<Longrightarrow> 2 * (length (source p) - pos p) + 1 \<le> fuel \<Longrightarrow>
      trees_ok branches \<Longrightarrow> trees_ok seq \<Longrightarrow>
      disjunction_good p (disjunction fuel grp out branches seq p)"
    and "unread p' \<Longrightarrow> 2 * (length (source p') - pos p') \<le> fuel \<Longrightarrow> atom_good p' (atom fuel p')"
proof (induction fuel arbitrary: grp out branches seq p p')
  case (Suc fuel)
  {
    case 1
    then show ?case by (intro disjunction_step Suc.IH)
  next
    case 2
    then show ?case using Suc.IH(1) by (intro atom_step) simp_all
  }
qed simp_all

lemma parse_ok:
  "\<exists>r. parse s = Some r \<and> accepted (\<lambda>(t, p). tree_ok (ptree p)) r"
  using disjunction_atom_good(1) [of "\<lparr>source = s, pos = 0, ptree = empty_tree\<rparr>"
      "2 * length s + 1" "[]" "[]" False "[]"]
  by (auto simp: parse_def disjunction_good_def accepted_def simp del: disjunction.simps)

end
