(* ===== verification/Pattern_Spec.thy ===== *)
theory Pattern_Spec
  imports Pattern_Parse_Correct
begin

text \<open>
  The properties of the pattern component: what compiling and matching promise together.
\<close>

section \<open>Literal patterns\<close>

definition plain :: "char \<Rightarrow> bool" where
  "plain c \<longleftrightarrow> of_char c < (128 :: nat) \<and> c \<notin> set (''^$.*+?()[]{}|'' @ [backslash])"

definition literal_node :: "char \<Rightarrow> node" where
  "literal_node c = setNode (character (of_char c))"

lemma outside_heads:
  "\<forall>x \<in> set outside. opens_with x \<noteq> [] \<and> hd (opens_with x) \<in> {CHR ''('', CHR ''['', backslash}"
  by (simp add: outside_def)

lemma opens_plain:
  assumes "plain c"
  shows "opens (c # s) = None"
proof -
  have "c \<notin> {CHR ''('', CHR ''['', backslash}" using assms by (auto simp: plain_def)
  then have "\<not> prefix (opens_with x) (c # s)" if "x \<in> set outside" for x
    using outside_heads that by (cases "opens_with x") auto
  then show ?thesis by (simp add: opens_def find_None_iff)
qed

lemma atom_plain:
  assumes "source p = pre @ c # rest" "pos p = length pre" "plain c"
  shows "atom (Suc fuel) p =
    Some (Inr (pattern (character (of_char c)), False,
      p\<lparr>pos := pos p + 1, ptree := literal_node c\<rparr>))"
proof -
  have rest: "drop (pos p) (source p) = c # rest" using assms(1,2) by simp
  have char: "int (of_char c) = (of_char c :: int)" by (rule of_nat_of_char)
  have dec: "decode_rune (drop (pos p) (source p)) = (of_char c, 1)"
    using assms(3) rest decode_rune_ascii [of c rest] char by (simp add: plain_def)
  have ne: "(of_char c :: int) \<noteq> of_char d" if "c \<noteq> d" for d
    using that by simp
  have quiet: "(of_char c :: int) \<notin> {0x28, 0x5E, 0x24, 0x2E, 0x5B, 0x5C, 0x2A, 0x2B, 0x3F, 0x7B, 0x7D, 0x5D}"
    using assms(3) ne [of "CHR ''(''"] ne [of "CHR ''^''"] ne [of "CHR ''$''"] ne [of "CHR ''.''"]
      ne [of "CHR ''[''"] ne [of backslash] ne [of "CHR ''*''"] ne [of "CHR ''+''"]
      ne [of "CHR ''?''"] ne [of "CHR ''{''"] ne [of "CHR ''}''"] ne [of "CHR '']''"]
    by (simp add: plain_def)
  show ?thesis
    using opens_plain [OF assms(3), of rest] quiet
    by (simp add: rest [symmetric] dec leaf_atom_def literal_node_def)
qed

text \<open>A run of plain characters that nothing repeats, up to a byte that is no quantifier.\<close>

definition no_quantifier :: "string \<Rightarrow> bool" where
  "no_quantifier post \<longleftrightarrow> post = [] \<or> hd post \<notin> {CHR ''*'', CHR ''+'', CHR ''?'', CHR ''{''}"

lemma repetition_none:
  assumes "source p = pre @ post" "pos p = length pre" "no_quantifier post"
  shows "repetition a assertion p = Inr (a, ptree p, p)"
  using assms by (cases post) (auto simp: repetition_def quantifier_at_def no_quantifier_def Let_def)

lemma literal_run:
  assumes "no_quantifier post"
  shows "\<forall>c \<in> set s. plain c \<Longrightarrow> source p = pre @ s @ post \<Longrightarrow> pos p = length pre \<Longrightarrow>
    \<exists>out' n. disjunction (Suc fuel + length s) False out [] seq p =
      disjunction (Suc fuel) False out' [] (seq @ map literal_node s)
        (p\<lparr>pos := length pre + length s, ptree := n\<rparr>)"
proof (induction s arbitrary: p pre out seq)
  case Nil
  then have "p\<lparr>pos := length pre + length [], ptree := ptree p\<rparr> = p" by simp
  then show ?case by (metis append_Nil2 list.map(1) list.size(3) add_0_right)
next
  case (Cons c s)
  let ?p = "p\<lparr>pos := pos p + 1, ptree := literal_node c\<rparr>"
  let ?a = "pattern (character (of_char c))"
  have c: "plain c" "c \<noteq> CHR '')''" "c \<noteq> CHR ''|''" using Cons.prems(1) by (auto simp: plain_def)
  have here: "unread p" "current_byte p = c" using Cons.prems(2,3) by simp_all
  have atom: "atom (Suc fuel + length s) p = Some (Inr (?a, False, ?p))"
    using atom_plain [of p pre c "s @ post", OF _ Cons.prems(3) c(1)] Cons.prems(2) by simp
  have "no_quantifier (s @ post)"
    using assms Cons.prems(1) by (cases s) (auto simp: no_quantifier_def plain_def)
  then have rep: "repetition ?a False ?p = Inr (?a, literal_node c, ?p)"
    using repetition_none [of ?p "pre @ [c]" "s @ post"] Cons.prems(2,3) by simp
  have turn: "disjunction (Suc fuel + length (c # s)) False out [] seq p =
      disjunction (Suc fuel + length s) False (out @ ?a) [] (seq @ [literal_node c]) ?p"
    using here c atom rep by simp
  obtain out' n where "disjunction (Suc fuel + length s) False (out @ ?a) [] (seq @ [literal_node c]) ?p =
      disjunction (Suc fuel) False out' [] ((seq @ [literal_node c]) @ map literal_node s)
        (?p\<lparr>pos := length (pre @ [c]) + length s, ptree := n\<rparr>)"
    using Cons.IH [of ?p "pre @ [c]" "out @ ?a" "seq @ [literal_node c]"] Cons.prems by auto
  then show ?case unfolding turn by (intro exI [of _ out'] exI [of _ n]) simp
qed

lemma parse_literal:
  assumes "\<forall>c \<in> set s. plain c"
  shows "\<exists>t p. parse s = Some (Inr (t, p)) \<and> ptree p = joinNode CHR ''s'' (map literal_node s)"
proof -
  let ?p = "\<lparr>source = s, pos = 0, ptree = empty_tree\<rparr>"
  obtain out' n where run: "disjunction (Suc (length s) + length s) False [] [] [] ?p =
      disjunction (Suc (length s)) False out' [] ([] @ map literal_node s) (?p\<lparr>pos := 0 + length s, ptree := n\<rparr>)"
    using literal_run [of "[]" s ?p "[]" "length s" "[]" "[]"] assms
    by (auto simp: no_quantifier_def simp del: disjunction.simps)
  let ?q = "?p\<lparr>pos := 0 + length s, ptree := n\<rparr>"
  have "disjunction (Suc (length s)) False out' [] ([] @ map literal_node s) ?q =
      Some (Inr (out', ?q\<lparr>ptree := finish [] (map literal_node s)\<rparr>))"
    by simp
  moreover have "2 * length s + 1 = Suc (length s) + length s" by simp
  ultimately have "parse s = Some (Inr (out', ?q\<lparr>ptree := finish [] (map literal_node s)\<rparr>))"
    using run by (simp only: parse_def)
  then show ?thesis by (simp add: finish_def joinNode_def [of "CHR ''|''"])
qed

lemma sem_literal_node:
  "sem inp (literal_node c) = {(i, Suc i) |i. i < length inp \<and> inp ! i = of_char c}"
  by (simp add: literal_node_def setNode_def)

lemma sem_join_sequence:
  "sem inp (joinNode CHR ''s'' ns) = foldr (O) (map (sem inp) ns) {(i, i) |i. i \<le> length inp}"
proof (cases "length ns = 1")
  case True
  then obtain n where "ns = [n]" by (auto simp: length_Suc_conv)
  moreover have "sem inp n O {(i, i) |i. i \<le> length inp} = sem inp n"
    using sem_fwd.forward by fastforce
  ultimately show ?thesis by (simp add: joinNode_def del: sem.simps)
next
  case False
  then have "joinNode CHR ''s'' ns = Node CHR ''s'' [] ns 0 0
      (foldl (\<lambda>w child. addWidth w (width child)) 0 ns) False"
    by (simp add: joinNode_def)
  then show ?thesis by simp
qed

lemma literal_relation:
  "(i, j) \<in> foldr (O) (map (sem inp) (map literal_node s)) {(i, i) |i. i \<le> length inp} \<longleftrightarrow>
   j = i + length s \<and> j \<le> length inp \<and> take (length s) (drop i inp) = map of_char s"
proof (induction s arbitrary: i)
  case (Cons c s)
  have "(i, j) \<in> foldr (O) (map (sem inp) (map literal_node (c # s))) {(i, i) |i. i \<le> length inp} \<longleftrightarrow>
      i < length inp \<and> inp ! i = of_char c \<and>
      (Suc i, j) \<in> foldr (O) (map (sem inp) (map literal_node s)) {(i, i) |i. i \<le> length inp}"
    by (auto simp: sem_literal_node simp del: map_map)
  also have "\<dots> \<longleftrightarrow> j = i + length (c # s) \<and> j \<le> length inp \<and>
      take (length (c # s)) (drop i inp) = map of_char (c # s)"
    unfolding Cons.IH
    by (cases "i < length inp") (auto simp: Cons_nth_drop_Suc [symmetric])
  finally show ?case .
qed auto

lemma literal_occurs:
  "(\<exists>i j. (i, j) \<in> sem inp (joinNode CHR ''s'' (map literal_node s))) \<longleftrightarrow>
   (\<exists>before behind. inp = before @ map of_char s @ behind)"
proof
  assume "\<exists>i j. (i, j) \<in> sem inp (joinNode CHR ''s'' (map literal_node s))"
  then obtain i where "take (length s) (drop i inp) = map of_char s"
    by (auto simp: sem_join_sequence literal_relation simp del: map_map)
  then have "inp = take i inp @ map of_char s @ drop (length s) (drop i inp)"
    by (metis append_take_drop_id)
  then show "\<exists>before behind. inp = before @ map of_char s @ behind" by blast
next
  assume "\<exists>before behind. inp = before @ map of_char s @ behind"
  then obtain before behind where inp: "inp = before @ map of_char s @ behind" by blast
  have "(length before, length before + length s)
      \<in> foldr (O) (map (sem inp) (map literal_node s)) {(i, i) |i. i \<le> length inp}"
    unfolding literal_relation by (simp add: inp)
  then show "\<exists>i j. (i, j) \<in> sem inp (joinNode CHR ''s'' (map literal_node s))"
    unfolding sem_join_sequence by blast
qed

section \<open>Refused spellings\<close>

lemma parse_refused:
  assumes "\<forall>c \<in> set s. plain c" "found \<in> set outside"
  shows "\<exists>other \<in> set outside. prefix (opens_with other) (opens_with found @ rest) \<and>
    parse (s @ opens_with found @ rest) = Some (Inl (Parse_error (refused other) (length s)))"
proof -
  let ?post = "opens_with found @ rest"
  let ?s = "s @ ?post"
  let ?p = "\<lparr>source = ?s, pos = 0, ptree = empty_tree\<rparr>"
  have head: "opens_with found \<noteq> []" "hd ?post \<in> {CHR ''('', CHR ''['', backslash}"
    using outside_heads assms(2) by (auto simp: hd_append)
  have "no_quantifier ?post" using head by (auto simp: no_quantifier_def)
  then obtain out' n where run: "disjunction (Suc (length s + 2 * length ?post) + length s) False [] [] [] ?p =
      disjunction (Suc (length s + 2 * length ?post)) False out' [] ([] @ map literal_node s)
        (?p\<lparr>pos := 0 + length s, ptree := n\<rparr>)"
    using literal_run [of ?post s ?p "[]" "length s + 2 * length ?post" "[]" "[]"] assms(1)
    by (auto simp del: disjunction.simps)
  let ?q = "?p\<lparr>pos := 0 + length s, ptree := n\<rparr>"
  have "opens ?post \<noteq> None"
    using assms(2) by (auto simp: opens_def find_None_iff)
  then obtain other where other: "opens ?post = Some other" by auto
  then have o': "other \<in> set outside" "prefix (opens_with other) ?post"
    unfolding opens_def find_Some_iff by auto
  have "unread ?q" "current_byte ?q \<noteq> CHR '')''" "current_byte ?q \<noteq> CHR ''|''"
    using head by (auto simp: nth_append hd_append hd_conv_nth)
  moreover obtain k where k: "length s + 2 * length ?post = Suc k"
    using head(1) by (cases "length s + 2 * length ?post") auto
  moreover have "atom (Suc k) ?q = Some (Inl (Parse_error (refused other) (length s)))"
    using other by (simp add: fail_def)
  ultimately have "disjunction (Suc (length s + 2 * length ?post)) False out' [] ([] @ map literal_node s) ?q =
      Some (Inl (Parse_error (refused other) (length s)))"
    by (simp only: disjunction.simps k if_True if_False option.case sum.case)
  moreover have "2 * length ?s + 1 = Suc (length s + 2 * length ?post) + length s" by simp
  ultimately have "parse ?s = Some (Inl (Parse_error (refused other) (length s)))"
    using run by (simp only: parse_def)
  then show ?thesis using o' by blast
qed

section \<open>Saturated repetition bounds\<close>

definition saturated :: "nat \<Rightarrow> nat" where
  "saturated a = min a (2 ^ 64 - 1)"

lemma after_constant:
  assumes "forward_relation R n" "S \<subseteq> {..n}" "Suc n \<le> c" "Suc n \<le> d"
  shows "after R S c = after R S d"
proof -
  have "after R S t = after R S (Suc n)" if "Suc n \<le> t" for t
    using after_fixed_le [OF forward_relation.settled [OF assms(1,2) order_refl] that] .
  then show ?thesis using assms(3,4) by metis
qed

lemma saturated_images:
  assumes fr: "forward_relation R n" and S: "S \<subseteq> {..n}" and n: "n < 2 ^ 64 - 1"
    and ab: "unl \<or> a \<le> b"
  shows "(\<Union>c \<in> {c. saturated a \<le> c \<and> (unl \<or> c \<le> saturated b)}. after R S c) =
    (\<Union>c \<in> {c. a \<le> c \<and> (unl \<or> c \<le> b)}. after R S c)"
proof -
  have left: "\<exists>d. a \<le> d \<and> (unl \<or> d \<le> b) \<and> after R S c = after R S d"
    if "saturated a \<le> c" "unl \<or> c \<le> saturated b" for c
  proof (cases "a \<le> c")
    case True
    then show ?thesis using that by (intro exI [of _ c]) (auto simp: saturated_def)
  next
    case False
    then have "Suc n \<le> c" using that n by (simp add: saturated_def min_def split: if_splits)
    then show ?thesis
      using False ab after_constant [OF fr S, of c a] by (intro exI [of _ a]) auto
  qed
  have right: "\<exists>c. saturated a \<le> c \<and> (unl \<or> c \<le> saturated b) \<and> after R S d = after R S c"
    if "a \<le> d" "unl \<or> d \<le> b" for d
  proof (cases "unl \<or> d \<le> saturated b")
    case True
    then show ?thesis using that by (intro exI [of _ d]) (auto simp: saturated_def)
  next
    case False
    then have "saturated b = 2 ^ 64 - 1" "2 ^ 64 - 1 \<le> d"
      using that by (auto simp: saturated_def min_def split: if_splits)
    then show ?thesis
      using n after_constant [OF fr S, of d "saturated b"] ab
      by (intro exI [of _ "saturated b"]) (auto simp: saturated_def)
  qed
  show ?thesis
  proof (intro equalityI UN_least)
    fix c assume "c \<in> {c. saturated a \<le> c \<and> (unl \<or> c \<le> saturated b)}"
    then obtain d where "d \<in> {d. a \<le> d \<and> (unl \<or> d \<le> b)}" "after R S c = after R S d"
      using left by blast
    then show "after R S c \<subseteq> (\<Union>d \<in> {d. a \<le> d \<and> (unl \<or> d \<le> b)}. after R S d)"
      by (simp only:) blast
  next
    fix d assume "d \<in> {d. a \<le> d \<and> (unl \<or> d \<le> b)}"
    then obtain c where "c \<in> {c. saturated a \<le> c \<and> (unl \<or> c \<le> saturated b)}"
      "after R S d = after R S c"
      using right by blast
    then show "after R S d \<subseteq> (\<Union>c \<in> {c. saturated a \<le> c \<and> (unl \<or> c \<le> saturated b)}. after R S c)"
      by (simp only:) blast
  qed
qed

lemma unat_saturated_decimal: "unat (saturated_decimal s) = saturated (number 10 s)"
  by (simp add: saturated_decimal_def parse_uint_def Let_def saturated_def unat_of_nat)

lemma sem_repeatNode:
  "sem inp (repeatNode child mn mx unl) =
     {(i, j). i \<le> length inp \<and> (\<exists>c. unat mn \<le> c \<and> (unl \<or> c \<le> unat mx) \<and> (i, j) \<in> sem inp child ^^ c)}"
  by (simp add: repeatNode_def Let_def first_rel_def)

section \<open>Properties\<close>

lemma Compile_tree:
  assumes "Compile engine s = Some (Inr r)"
  shows "tree_ok (tree r)"
proof -
  obtain res where p: "parse s = Some res" "accepted (\<lambda>(t, p). tree_ok (ptree p)) res"
    using parse_ok by blast
  then obtain t p' where "res = Inr (t, p')" using assms by (cases res) (auto simp: Compile_def)
  then show ?thesis
    using assms p by (auto simp: Compile_def split: native_result.splits)
qed

text \<open>C6: \<open>Compile\<close> returns on every source and for every answer of the engine, and the
  expression tree of an accepted source is well formed: its repetitions have ordered bounds,
  its widths are lower bounds, its character sets are in normal form and within the code points.\<close>

theorem compile_returns_wellformed:
  "\<exists>result. Compile engine s = Some result \<and> accepted (\<lambda>r. tree_ok (tree r)) result"
proof -
  obtain result where "Compile engine s = Some result"
    using parse_ok [of s] by (fastforce simp: Compile_def split: sum.splits)
  then show ?thesis using Compile_tree by (auto simp: accepted_def)
qed

text \<open>C5: Where the engine refuses a pattern for its size and the tree is matched directly, the
  matcher answers on every Go string, and says true exactly if the expression has a match
  somewhere in the string.\<close>

theorem fallback_match_decides:
  assumes "Compile engine s = Some (Inr r)" "native r = None" "length (runes v) < 2 ^ 64"
  shows "MatchString r v = Some (\<exists>i j. (i, j) \<in> sem (runes v) (tree r))"
proof -
  have run: "match_loop (runes v) (tree r) [0..<length (runes v) + 1] Map.empty =
      Some (\<exists>i \<in> set [0..<length (runes v) + 1]. \<exists>j. (i, j) \<in> sem (runes v) (tree r))"
    using assms(3) tree_ok_wf [OF Compile_tree [OF assms(1)]]
    by (intro match_loop_ok) (auto simp: memo_ok_def)
  have inside: "i \<in> set [0..<length (runes v) + 1]" if "(i, j) \<in> sem (runes v) (tree r)" for i j
    using sem_fwd.forward [OF that] by auto
  have "match_loop (runes v) (tree r) [0..<length (runes v) + 1] Map.empty =
      Some (\<exists>i j. (i, j) \<in> sem (runes v) (tree r))"
  proof -
    have "(\<exists>i \<in> set [0..<length (runes v) + 1]. \<exists>j. (i, j) \<in> sem (runes v) (tree r)) \<longleftrightarrow>
        (\<exists>i j. (i, j) \<in> sem (runes v) (tree r))"
      using inside by blast
    then show ?thesis using run by (simp only:)
  qed
  then show ?thesis using assms(2) by (simp only: MatchString_def option.case Let_def)
qed

definition demo_tree :: node where
  "demo_tree = repeatNode (setNode (character 97)) 1 1 True"

lemma demo_parse:
  "parse ''a+'' = Some (Inr (''['' @ backslash # ''x{61}]+'', \<lparr>source = ''a+'', pos = 2, ptree = demo_tree\<rparr>))"
  by code_simp

theorem fallback_match_decides_witness:
  "MatchString \<lparr>native = None, tree = demo_tree\<rparr> ''ba'' =
     Some (\<exists>i j. (i, j) \<in> sem (runes ''ba'') demo_tree)"
proof -
  have "Compile (\<lambda>translated. Repeat_too_large) ''a+'' = Some (Inr \<lparr>native = None, tree = demo_tree\<rparr>)"
    by (simp add: Compile_def demo_parse)
  from fallback_match_decides [OF this, of "''ba''"] show ?thesis by simp
qed

text \<open>C7: With its memo, width pruning and early loop exits, the matcher computes for a start
  position the strictly ascending list of all end positions of the expression's matches.\<close>

theorem ends_computes_matches:
  assumes "wf_node n" "length inp < 2 ^ 64" "start \<le> length inp"
  shows "\<exists>memo. ends inp n [] start Map.empty = Some (sls {j. (start, j) \<in> sem inp n}, memo)"
proof -
  have "{j. (start, j) \<in> sem inp n} = sem inp n `` {start}" by auto
  then show ?thesis
    using goodD [OF ends_good [OF assms(2,1), of n "[]"] assms(3), of Map.empty]
    by (auto simp: memo_ok_def)
qed

theorem ends_computes_matches_witness:
  "\<exists>memo. ends [97, 97] demo_tree [] 0 Map.empty = Some (sls {j. (0, j) \<in> sem [97, 97] demo_tree}, memo)"
proof -
  have "wf_node demo_tree" by code_simp
  from ends_computes_matches [OF this, of "[97, 97]" 0] show ?thesis by simp
qed

text \<open>Reading a counted repetition's bounds with saturation at the largest 64-bit count
  does not change what the repetition matches: for any decimal bounds that are not reversed, the
  node built from the saturated counts relates the positions that the bounds as written do.\<close>

theorem saturated_bounds_keep_matches:
  assumes "decimal_text lower" "decimal_text upper" "unl \<or> \<not> reversed_bounds lower upper"
    and "length inp < 2 ^ 64 - 1"
  shows "sem inp (repeatNode child (saturated_decimal lower) (saturated_decimal upper) unl) =
    {(i, j). i \<le> length inp \<and>
       (\<exists>c. number 10 lower \<le> c \<and> (unl \<or> c \<le> number 10 upper) \<and> (i, j) \<in> sem inp child ^^ c)}"
proof -
  have "unl \<or> number 10 lower \<le> number 10 upper"
    using number_order [OF assms(1,2)] assms(3) by blast
  then have "(\<Union>c \<in> {c. saturated (number 10 lower) \<le> c \<and> (unl \<or> c \<le> saturated (number 10 upper))}.
        after (sem inp child) {i} c) =
      (\<Union>c \<in> {c. number 10 lower \<le> c \<and> (unl \<or> c \<le> number 10 upper)}. after (sem inp child) {i} c)"
    if "i \<le> length inp" for i
    using that assms(4) by (intro saturated_images [OF sem_forward]) auto
  then have "(\<exists>c. saturated (number 10 lower) \<le> c \<and> (unl \<or> c \<le> saturated (number 10 upper)) \<and>
        (i, j) \<in> sem inp child ^^ c) \<longleftrightarrow>
      (\<exists>c. number 10 lower \<le> c \<and> (unl \<or> c \<le> number 10 upper) \<and> (i, j) \<in> sem inp child ^^ c)"
    if "i \<le> length inp" for i j
    using that by (fastforce simp: after_def set_eq_iff)
  then show ?thesis unfolding sem_repeatNode unat_saturated_decimal by auto
qed

theorem saturated_bounds_keep_matches_witness:
  "sem [97] (repeatNode demo_tree (saturated_decimal ''3'') (saturated_decimal ''99999999999999999999'') False) =
    {(i, j). i \<le> 1 \<and>
       (\<exists>c. number 10 ''3'' \<le> c \<and> (False \<or> c \<le> number 10 ''99999999999999999999'') \<and>
          (i, j) \<in> sem [97] demo_tree ^^ c)}"
proof -
  have "decimal_text ''3''" "decimal_text ''99999999999999999999''"
    "False \<or> \<not> reversed_bounds ''3'' ''99999999999999999999''"
    by code_simp+
  from saturated_bounds_keep_matches [OF this, of "[97]" demo_tree] show ?thesis by simp
qed

text \<open>A pattern of ordinary ASCII characters compiles, and its direct matcher says true
  exactly of the strings whose runes contain the pattern's.\<close>

theorem literal_pattern_finds_occurrences:
  assumes "\<forall>c \<in> set s. plain c" "length (runes v) < 2 ^ 64"
  shows "\<exists>r. Compile (\<lambda>translated. Repeat_too_large) s = Some (Inr r) \<and>
    MatchString r v = Some (\<exists>before behind. runes v = before @ map of_char s @ behind)"
proof -
  obtain t p where p: "parse s = Some (Inr (t, p))" "ptree p = joinNode CHR ''s'' (map literal_node s)"
    using parse_literal [OF assms(1)] by blast
  let ?r = "\<lparr>native = None, tree = ptree p\<rparr>"
  have c: "Compile (\<lambda>translated. Repeat_too_large) s = Some (Inr ?r)" by (simp add: Compile_def p)
  then have "MatchString ?r v = Some (\<exists>i j. (i, j) \<in> sem (runes v) (ptree p))"
    using fallback_match_decides [OF c _ assms(2)] by simp
  then show ?thesis using c by (simp only: p(2) literal_occurs) blast
qed

theorem literal_pattern_finds_occurrences_witness:
  "\<exists>r. Compile (\<lambda>translated. Repeat_too_large) ''ab'' = Some (Inr r) \<and>
    MatchString r ''xaby'' = Some (\<exists>before behind. runes ''xaby'' = before @ map of_char ''ab'' @ behind)"
proof -
  have "\<forall>c \<in> set ''ab''. plain c" by (simp add: plain_def)
  from literal_pattern_finds_occurrences [OF this, of "''xaby''"] show ?thesis by simp
qed

text \<open>A spelling of one engine's own dialect is refused where it stands: after any plain
  text, the parser fails at the byte the spelling begins at, and names one of the refused
  spellings that opens the rest of the source.\<close>

theorem foreign_spelling_refused:
  assumes "\<forall>c \<in> set s. plain c" "found \<in> set outside"
  shows "\<exists>other \<in> set outside. prefix (opens_with other) (opens_with found @ rest) \<and>
    Compile engine (s @ opens_with found @ rest) =
      Some (Inl (Not_unicode_expression (Parse_error (refused other) (length s))))"
  using parse_refused [OF assms, of rest] by (auto simp: Compile_def)

theorem foreign_spelling_refused_witness:
  "\<exists>other \<in> set outside. Compile (\<lambda>translated. Repeat_too_large) ''a(?=b)'' =
      Some (Inl (Not_unicode_expression (Parse_error (refused other) 1)))"
proof -
  let ?found = "\<lparr>opens_with = ''(?='', says = ''a lookahead of ECMAScript, which the dialect has no lookaround in''\<rparr>"
  have "\<forall>c \<in> set ''a''. plain c" "?found \<in> set outside" by (simp_all add: plain_def outside_def)
  from foreign_spelling_refused [OF this, of "''b)''" "\<lambda>translated. Repeat_too_large"]
  show ?thesis by auto
qed

text \<open>The complement of a character set contains exactly the code points the set lacks, is
  in normal form, and taken twice gives the set's own normal form.\<close>

theorem complement_is_exact:
  assumes "spans_ok cs"
  shows "has_rune (complement cs) r = (rune_ok r \<and> \<not> has_rune cs r) \<and>
    normalized (complement cs) = complement cs \<and> complement (complement cs) = normalized cs"
  using complement_has_rune complement_involutive normalized_id complement_ok assms by auto

theorem complement_is_exact_witness:
  "has_rune (complement digits_class) 65 = (rune_ok 65 \<and> \<not> has_rune digits_class 65) \<and>
    normalized (complement digits_class) = complement digits_class \<and>
    complement (complement digits_class) = normalized digits_class"
  by (rule complement_is_exact) simp

end
