(* ===== verification/Base64.thy ===== *)
theory Base64
  imports Prelude
begin

text \<open>
  The standard base64 encoding, as \<open>encoding/base64\<close>'s \<open>StdEncoding\<close> writes and reads
  it: padded, carriage returns and line feeds ignored, the unused bits of the last digit not
  checked.
\<close>

definition b64_alphabet :: string where
  "b64_alphabet = ''ABCDEFGHIJKLMNOPQRSTUVWXYZabcdefghijklmnopqrstuvwxyz0123456789+/''"

definition b64_char :: "nat \<Rightarrow> char" where
  "b64_char n = b64_alphabet ! n"

definition b64_value :: "char \<Rightarrow> nat option" where
  "b64_value c =
     (let n = of_char c in
      if 65 \<le> n \<and> n \<le> 90 then Some (n - 65)
      else if 97 \<le> n \<and> n \<le> 122 then Some (n - 71)
      else if 48 \<le> n \<and> n \<le> 57 then Some (n + 4)
      else if n = 43 then Some 62 else if n = 47 then Some 63 else None)"

fun b64_encode :: "string \<Rightarrow> string" where
  "b64_encode [] = []"
| "b64_encode [a] =
     (let n = of_char a * 16 in [b64_char (n div 64), b64_char (n mod 64), CHR ''='', CHR ''=''])"
| "b64_encode [a, b] =
     (let n = of_char a * 1024 + of_char b * 4 in
      [b64_char (n div 4096), b64_char (n div 64 mod 64), b64_char (n mod 64), CHR ''=''])"
| "b64_encode (a # b # c # rest) =
     (let n = of_char a * 65536 + of_char b * 256 + of_char c in
      b64_char (n div 262144) # b64_char (n div 4096 mod 64) # b64_char (n div 64 mod 64) #
      b64_char (n mod 64) # b64_encode rest)"

fun b64_quads :: "string \<Rightarrow> string option" where
  "b64_quads [] = Some []"
| "b64_quads (p # q # r # s # rest) =
     (case (b64_value p, b64_value q) of
        (Some p, Some q) \<Rightarrow>
          if s = CHR ''='' then
            (if rest \<noteq> [] then None
             else if r = CHR ''='' then Some [char_of ((p * 64 + q) div 16)]
             else (case b64_value r of
                     None \<Rightarrow> None
                   | Some r \<Rightarrow>
                       let n = (p * 64 + q) * 64 + r in
                       Some [char_of (n div 1024), char_of (n div 4)]))
          else
            (case (b64_value r, b64_value s, b64_quads rest) of
               (Some r, Some s, Some bytes) \<Rightarrow>
                 let n = ((p * 64 + q) * 64 + r) * 64 + s in
                 Some (char_of (n div 65536) # char_of (n div 256) # char_of n # bytes)
             | _ \<Rightarrow> None)
      | _ \<Rightarrow> None)"
| "b64_quads _ = None"

definition b64_decode :: "string \<Rightarrow> string option" where
  "b64_decode s = b64_quads (filter (\<lambda>c. c \<noteq> CHR 0x0A \<and> c \<noteq> CHR 0x0D) s)"

section \<open>Decoding inverts encoding\<close>

lemma b64_alphabet_values: "map b64_value b64_alphabet = map Some [0..<64]"
  by (simp add: b64_alphabet_def b64_value_def Let_def) code_simp

lemma b64_alphabet_plain: "\<forall>c \<in> set b64_alphabet. c \<notin> {CHR ''='', CHR 0x0A, CHR 0x0D}"
  by (simp add: b64_alphabet_def)

lemma b64_digit:
  assumes "n < 64"
  shows "b64_value (b64_char n) = Some n" "b64_char n \<notin> {CHR ''='', CHR 0x0A, CHR 0x0D}"
proof -
  have len: "length b64_alphabet = 64" by (simp add: b64_alphabet_def)
  have "map b64_value b64_alphabet ! n = map Some [0..<64] ! n" by (simp only: b64_alphabet_values)
  then show "b64_value (b64_char n) = Some n" using assms len by (simp add: b64_char_def)
  show "b64_char n \<notin> {CHR ''='', CHR 0x0A, CHR 0x0D}"
    using b64_alphabet_plain nth_mem [of n b64_alphabet] assms len unfolding b64_char_def by metis
qed

lemma b64_digits:
  assumes "a < 256" "b < 256" "c < (256 :: nat)"
  shows "(a * 65536 + b * 256 + c) div 262144 < 64"
  using assms by simp

lemma b64_split2: "(n div 4096 * 64 + n div 64 mod 64) * 64 + n mod 64 = (n :: nat)"
proof -
  have "n div 4096 = n div 64 div 64" by (simp flip: div_mult2_eq)
  then show ?thesis by (simp only: div_mult_mod_eq)
qed

lemma b64_split:
  "((n div 262144 * 64 + n div 4096 mod 64) * 64 + n div 64 mod 64) * 64 + n mod 64 = (n :: nat)"
proof -
  have "n div 262144 = n div 4096 div 64" "n div 4096 = n div 64 div 64"
    by (simp_all flip: div_mult2_eq)
  then show ?thesis by (simp only: div_mult_mod_eq)
qed

lemma char_of_of_char_mult: "char_of (of_char c + 256 * k :: nat) = c"
proof -
  have "char_of (of_char c + 256 * k :: nat) = (char_of ((of_char c + 256 * k) mod 256 :: nat) :: char)"
    by (rule char_of_mod_256 [symmetric])
  also have "(of_char c + 256 * k :: nat) mod 256 = of_char c"
    by (simp add: nat_of_char_less_256)
  finally show ?thesis by simp
qed

lemma char_of_mult_of_char: "char_of (256 * k + of_char c :: nat) = c"
  by (metis add.commute char_of_of_char_mult)

lemma b64_quads_encode: "b64_quads (b64_encode s) = Some s"
proof (induction s rule: b64_encode.induct)
  case (2 a)
  have "of_char a < (256 :: nat)" by simp
  then have "of_char a * 16 div 64 < (64 :: nat)" by linarith
  moreover have "of_char a * 16 div 64 * 64 + of_char a * 16 mod 64 = (of_char a * 16 :: nat)" by presburger
  ultimately show ?case using b64_digit by (simp add: Let_def del: mult_div_mod_eq div_mult_mult2 mod_mult_mult2)
next
  case (3 a b)
  let ?n = "of_char a * 1024 + of_char b * 4 :: nat"
  have ab: "of_char a < (256 :: nat)" "of_char b < (256 :: nat)" by simp_all
  then have "?n div 4096 < 64" by linarith
  moreover have "?n div 1024 = of_char a" "?n div 4 = of_char b + 256 * of_char a" using ab by linarith+
  ultimately show ?case using b64_digit by (simp add: Let_def b64_split2 char_of_of_char_mult char_of_mult_of_char del: distrib_right_numeral)
next
  case (4 a b c rest)
  define n where "n = (of_char a * 65536 + of_char b * 256 + of_char c :: nat)"
  have abc: "of_char a < (256 :: nat)" "of_char b < (256 :: nat)" "of_char c < (256 :: nat)" by simp_all
  then have "n div 262144 < 64" unfolding n_def by (rule b64_digits)
  moreover have "n div 65536 = of_char a" "n div 256 = 256 * of_char a + of_char b"
    using abc unfolding n_def by linarith+
  moreover have "n = 256 * (of_char b + 256 * of_char a) + of_char c" by (simp add: n_def)
  then have "char_of n = c" by (simp only: char_of_mult_of_char)
  ultimately show ?case
    using b64_digit 4 char_of_mult_of_char
    by (simp add: Let_def b64_split del: distrib_right_numeral flip: n_def)
qed simp

lemma b64_encode_no_breaks: "filter (\<lambda>c. c \<noteq> CHR 0x0A \<and> c \<noteq> CHR 0x0D) (b64_encode s) = b64_encode s"
proof (induction s rule: b64_encode.induct)
  case (2 a)
  have "of_char a < (256 :: nat)" by simp
  then have "of_char a * 16 div 64 < (64 :: nat)" by linarith
  then show ?case using b64_digit(2) by (simp add: Let_def)
next
  case (3 a b)
  have "of_char a < (256 :: nat)" "of_char b < (256 :: nat)" by simp_all
  then have "(of_char a * 1024 + of_char b * 4 :: nat) div 4096 < 64" by linarith
  then show ?case using b64_digit(2) by (simp add: Let_def)
next
  case (4 a b c rest)
  have "(of_char a * 65536 + of_char b * 256 + of_char c :: nat) div 262144 < 64"
    by (rule b64_digits) simp_all
  then show ?case using b64_digit(2) 4 by (simp add: Let_def)
qed simp

lemma b64_decode_encode: "b64_decode (b64_encode s) = Some s"
  by (simp add: b64_decode_def b64_encode_no_breaks b64_quads_encode)

end
