(* ===== verification/Transitions.thy ===== *)
theory Transitions
  imports Prelude "HOL-Library.Sublist"
begin

text \<open>
  Step relations and what can be reached by them, shared by the components whose operations
  interleave, and the interface by which an invariant is carried to every reachable state.
\<close>

inductive reachable :: "('s \<Rightarrow> bool) \<Rightarrow> ('s \<Rightarrow> 's \<Rightarrow> bool) \<Rightarrow> 's \<Rightarrow> bool"
  for start :: "'s \<Rightarrow> bool" and step :: "'s \<Rightarrow> 's \<Rightarrow> bool" where
  reachable_start: "start s \<Longrightarrow> reachable start step s"
| reachable_step: "reachable start step s \<Longrightarrow> step s s' \<Longrightarrow> reachable start step s'"

locale invariant =
  fixes start :: "'s \<Rightarrow> bool" and step :: "'s \<Rightarrow> 's \<Rightarrow> bool" and holds :: "'s \<Rightarrow> bool"
  assumes initial: "start s \<Longrightarrow> holds s"
    and kept: "holds s \<Longrightarrow> step s s' \<Longrightarrow> holds s'"
begin

lemma always: "reachable start step s \<Longrightarrow> holds s"
  by (induction rule: reachable.induct) (auto intro: initial kept)

end

lemma reachable_one: "step s s' \<Longrightarrow> reachable (\<lambda>u. u = s) step s'"
  using reachable_step [OF reachable_start [of "\<lambda>u. u = s"]] by simp

text \<open>A run of steps, for the concrete sequences of witnesses.\<close>

lemma reachable_steps:
  "reachable start step s \<Longrightarrow> step s s1 \<Longrightarrow> step s1 s2 \<Longrightarrow> reachable start step s2"
  by (blast intro: reachable_step)

text \<open>What is kept of a sequence.\<close>

lemma subseq_set: "subseq xs ys \<Longrightarrow> set xs \<subseteq> set ys"
  by (induction rule: list_emb.induct) auto

lemma subseq_distinct_kept: "subseq xs ys \<Longrightarrow> distinct ys \<Longrightarrow> distinct xs"
  by (induction rule: list_emb.induct) (use subseq_set in auto)

lemma map_same: "i < length xs \<Longrightarrow> f y = f (xs ! i) \<Longrightarrow> map f (xs[i := y]) = map f xs"
  by (metis list_update_id map_update)

lemma set_update_all: "i < length xs \<Longrightarrow> \<forall>x \<in> set xs. P x \<Longrightarrow> P y \<Longrightarrow> \<forall>x \<in> set (xs[i := y]). P x"
  using set_update_subset_insert by fastforce

end
