(* ===== verification/Duplex_Frame.thy ===== *)
theory Duplex_Frame
  imports Prelude
begin

text \<open>\<open>duplex/go/duplex.go\<close>: the frames every transport carries and the close codes the code uses.\<close>

record frame =
  Kind :: int
  Data :: string

definition Text :: int where "Text = 1"
definition Binary :: int where "Binary = 2"

definition CodeNormal :: int where "CodeNormal = 1000"
definition CodeGoingAway :: int where "CodeGoingAway = 1001"
definition CodeProtocolError :: int where "CodeProtocolError = 1002"
definition CodeAbnormalClosure :: int where "CodeAbnormalClosure = 1006"
definition CodeTooLarge :: int where "CodeTooLarge = 1009"

end
