(* ===== verification/Strings.thy ===== *)
theory Strings
  imports Prelude
begin

text \<open>
  What the components use of Go's \<open>strings\<close> package, on byte strings: \<open>IndexByte\<close>,
  \<open>Index\<close>, \<open>Cut\<close>, \<open>Split\<close> at one byte, \<open>HasPrefix\<close>, and \<open>ToLower\<close> and
  \<open>ToUpper\<close> of ASCII text.
\<close>

fun index_byte :: "string \<Rightarrow> char \<Rightarrow> nat option" where
  "index_byte [] c = None"
| "index_byte (x # xs) c = (if x = c then Some 0 else map_option Suc (index_byte xs c))"

lemma index_byte_None [simp]: "index_byte s c = None \<longleftrightarrow> c \<notin> set s"
  by (induction s) auto

lemma index_byte_missing [simp]: "c \<notin> set s \<Longrightarrow> index_byte s c = None"
  by simp

lemma index_byte_Some:
  "index_byte s c = Some i \<longleftrightarrow> i < length s \<and> s ! i = c \<and> c \<notin> set (take i s)"
proof (induction s arbitrary: i)
  case (Cons x xs)
  show ?case by (cases i) (auto simp: Cons.IH)
qed simp

lemma index_byte_append [simp]: "c \<notin> set u \<Longrightarrow> index_byte (u @ c # v) c = Some (length u)"
  by (induction u) auto

lemma index_byte_split: "index_byte s c = Some i \<Longrightarrow> s = take i s @ c # drop (Suc i) s"
  by (metis index_byte_Some id_take_nth_drop)

text \<open>\<open>strings.Index\<close> of a non-empty separator.\<close>

fun index_sub :: "string \<Rightarrow> string \<Rightarrow> nat option" where
  "index_sub [] sep = (if sep = [] then Some 0 else None)"
| "index_sub (x # xs) sep =
     (if take (length sep) (x # xs) = sep then Some 0 else map_option Suc (index_sub xs sep))"

lemma index_sub_Some:
  "index_sub s sep = Some i \<Longrightarrow> s = take i s @ sep @ drop (i + length sep) s \<and> i + length sep \<le> length s"
proof (induction s sep arbitrary: i rule: index_sub.induct)
  case (2 x xs sep)
  show ?case
  proof (cases "take (length sep) (x # xs) = sep")
    case True
    then have "length sep \<le> length (x # xs)" by (metis length_take min.cobounded1)
    then show ?thesis using 2(2) True by (metis add_0 append_take_drop_id index_sub.simps(2) option.inject self_append_conv2 take0)
  next
    case False
    then obtain j where "index_sub xs sep = Some j" "i = Suc j" using 2(2) by (auto split: if_splits)
    then show ?thesis using 2(1) [OF False] by simp
  qed
qed (auto split: if_splits)

text \<open>\<open>strings.Cut\<close> at one byte: the text before it, after it, and whether it was there.\<close>

definition cut :: "string \<Rightarrow> char \<Rightarrow> string \<times> string \<times> bool" where
  "cut s c = (case index_byte s c of None \<Rightarrow> (s, [], False) | Some i \<Rightarrow> (take i s, drop (Suc i) s, True))"

lemma cut_append [simp]: "c \<notin> set u \<Longrightarrow> cut (u @ c # v) c = (u, v, True)"
  by (simp add: cut_def)

lemma cut_found: "cut s c = (u, v, True) \<longleftrightarrow> s = u @ c # v \<and> c \<notin> set u"
  by (auto simp: cut_def split: option.splits dest: index_byte_split) (auto simp: index_byte_Some)

fun split_at :: "char \<Rightarrow> string \<Rightarrow> string list" where
  "split_at c [] = [[]]"
| "split_at c (x # xs) =
     (if x = c then [] # split_at c xs
      else case split_at c xs of [] \<Rightarrow> [[x]] | u # us \<Rightarrow> (x # u) # us)"

fun join_with :: "char \<Rightarrow> string list \<Rightarrow> string" where
  "join_with c [] = []"
| "join_with c [u] = u"
| "join_with c (u # us) = u @ c # join_with c us"

lemma split_at_not_Nil [simp]: "split_at c s \<noteq> []"
  by (induction s) (auto split: list.splits)

lemma join_split [simp]: "join_with c (split_at c s) = s"
proof (induction s)
  case (Cons x xs)
  obtain u us where "split_at c xs = u # us" by (cases "split_at c xs") auto
  then show ?case using Cons by (cases us) auto
qed simp

lemma split_at_free: "u \<in> set (split_at c s) \<Longrightarrow> c \<notin> set u"
  by (induction s arbitrary: u) (auto split: if_splits list.splits)

lemma split_at_no [simp]: "c \<notin> set u \<Longrightarrow> split_at c u = [u]"
  by (induction u) auto

lemma split_at_append: "c \<notin> set u \<Longrightarrow> split_at c (u @ c # v) = u # split_at c v"
  by (induction u) auto

lemma split_join: "us \<noteq> [] \<Longrightarrow> \<forall>u \<in> set us. c \<notin> set u \<Longrightarrow> split_at c (join_with c us) = us"
  by (induction c us rule: join_with.induct) (auto simp: split_at_append)

lemma set_join_with: "set (join_with c us) \<subseteq> insert c (\<Union>(set ` set us))"
  by (induction c us rule: join_with.induct) auto

lemma set_split_at: "u \<in> set (split_at c s) \<Longrightarrow> set u \<subseteq> set s"
proof (induction s arbitrary: u)
  case (Cons x xs)
  then show ?case by (auto split: if_splits list.splits) blast+
qed simp

definition has_prefix :: "string \<Rightarrow> string \<Rightarrow> bool" where
  "has_prefix s p \<longleftrightarrow> take (length p) s = p"

lemma has_prefix_append [simp]: "has_prefix (p @ s) p"
  by (simp add: has_prefix_def)

lemma has_prefix_iff: "has_prefix s p \<longleftrightarrow> (\<exists>r. s = p @ r)"
  by (metis append_take_drop_id has_prefix_append has_prefix_def)

definition is_upper :: "char \<Rightarrow> bool" where
  "is_upper c \<longleftrightarrow> CHR ''A'' \<le> c \<and> c \<le> CHR ''Z''"

definition is_lower :: "char \<Rightarrow> bool" where
  "is_lower c \<longleftrightarrow> CHR ''a'' \<le> c \<and> c \<le> CHR ''z''"

definition is_digit :: "char \<Rightarrow> bool" where
  "is_digit c \<longleftrightarrow> CHR ''0'' \<le> c \<and> c \<le> CHR ''9''"

definition lower_char :: "char \<Rightarrow> char" where
  "lower_char c = (if is_upper c then char_of (of_char c + 32 :: nat) else c)"

definition upper_char :: "char \<Rightarrow> char" where
  "upper_char c = (if is_lower c then char_of (of_char c - 32 :: nat) else c)"

definition to_lower :: "string \<Rightarrow> string" where
  "to_lower = map lower_char"

definition to_upper :: "string \<Rightarrow> string" where
  "to_upper = map upper_char"

text \<open>The two cases of an ASCII letter differ in bit 5; evaluation uses this.\<close>

lemma of_char_bit5:
  "of_char (Char b0 b1 b2 b3 b4 True b6 b7) = (of_char (Char b0 b1 b2 b3 b4 False b6 b7) + 32 :: nat)"
  by (simp add: of_char_Char)

lemma is_upper_bit5: "is_upper (Char b0 b1 b2 b3 b4 b5 b6 b7) \<Longrightarrow> \<not> b5"
  by (cases b5; cases b6; cases b7) (auto simp: is_upper_def less_eq_char_def of_char_Char of_bool_def split: if_splits)

lemma is_lower_bit5: "is_lower (Char b0 b1 b2 b3 b4 b5 b6 b7) \<Longrightarrow> b5"
  by (cases b5; cases b6; cases b7) (auto simp: is_lower_def less_eq_char_def of_char_Char of_bool_def split: if_splits)

lemma lower_char_code [code]:
  "lower_char (Char b0 b1 b2 b3 b4 b5 b6 b7) =
     (if is_upper (Char b0 b1 b2 b3 b4 b5 b6 b7) then Char b0 b1 b2 b3 b4 True b6 b7
      else Char b0 b1 b2 b3 b4 b5 b6 b7)"
proof (cases "is_upper (Char b0 b1 b2 b3 b4 b5 b6 b7)")
  case True
  then have "\<not> b5" by (rule is_upper_bit5)
  then have "b5 = False" by simp
  then show ?thesis
    using True unfolding lower_char_def
    by (simp only: if_True of_char_bit5 [symmetric] char_of_char)
qed (simp add: lower_char_def)

lemma upper_char_code [code]:
  "upper_char (Char b0 b1 b2 b3 b4 b5 b6 b7) =
     (if is_lower (Char b0 b1 b2 b3 b4 b5 b6 b7) then Char b0 b1 b2 b3 b4 False b6 b7
      else Char b0 b1 b2 b3 b4 b5 b6 b7)"
proof (cases "is_lower (Char b0 b1 b2 b3 b4 b5 b6 b7)")
  case True
  then have "b5" by (rule is_lower_bit5)
  then have "b5 = True" by simp
  then show ?thesis
    using True unfolding upper_char_def
    by (simp only: if_True of_char_bit5 diff_add_inverse2 char_of_char)
qed (simp add: upper_char_def)

lemma lower_char_not_upper [simp]: "\<not> is_upper (lower_char c)"
  by (auto simp: lower_char_def is_upper_def less_eq_char_def)

lemma lower_char_idem [simp]: "lower_char (lower_char c) = lower_char c"
  by (subst lower_char_def) simp

lemma to_lower_idem [simp]: "to_lower (to_lower s) = to_lower s"
  by (simp add: to_lower_def)

lemma length_to_lower [simp]: "length (to_lower s) = length s"
  by (simp add: to_lower_def)

lemma to_lower_fixed: "\<forall>c \<in> set s. \<not> is_upper c \<Longrightarrow> to_lower s = s"
  by (simp add: to_lower_def lower_char_def map_idI)

end
