(* ===== verification/Decimal.thy ===== *)
theory Decimal
  imports Strings
begin

text \<open>
  Decimal texts: what \<open>strconv\<close> reads and prints, and the canonical texts, the ones it prints.
\<close>

fun decimal_value :: "int \<Rightarrow> string \<Rightarrow> int option" where
  "decimal_value n [] = Some n"
| "decimal_value n (c # cs) = (if is_digit c then decimal_value (n * 10 + (of_char c - 48)) cs else None)"

text \<open>\<open>strconv.ParseUint(s, 10, 64)\<close>: whether it answers without an error.\<close>

definition parse_uint64 :: "string \<Rightarrow> nat option" where
  "parse_uint64 s =
     (if s = [] then None
      else case decimal_value 0 s of
        None \<Rightarrow> None
      | Some n \<Rightarrow> if n < 2 ^ 64 then Some (nat n) else None)"

text \<open>\<open>strconv.ParseInt(s, 10, 64)\<close>: whether it answers without an error.\<close>

definition parse_int64 :: "string \<Rightarrow> int option" where
  "parse_int64 s =
     (let (negative, digits) =
        (case s of
           c # cs \<Rightarrow> if c = CHR ''-'' then (True, cs) else if c = CHR ''+'' then (False, cs) else (False, s)
         | [] \<Rightarrow> (False, []))
      in if digits = [] then None
      else case decimal_value 0 digits of
        None \<Rightarrow> None
      | Some n \<Rightarrow>
          let n = (if negative then - n else n) in
          if - (2 ^ 63) \<le> n \<and> n < 2 ^ 63 then Some n else None)"

section \<open>Digits\<close>

lemma is_digit_bounds: "is_digit c \<longleftrightarrow> 48 \<le> (of_char c :: nat) \<and> (of_char c :: nat) \<le> 57"
  by (simp add: is_digit_def less_eq_char_def)

lemma is_digit_int: "is_digit c \<Longrightarrow> 48 \<le> (of_char c :: int) \<and> (of_char c :: int) \<le> 57"
  by (metis is_digit_bounds of_nat_le_iff of_nat_numeral of_nat_of_char)

lemma is_digit_char_of: "n < 10 \<Longrightarrow> is_digit (char_of (48 + n :: nat))"
  by (simp add: is_digit_bounds of_char_of)

lemma of_char_char_of_int: "n < 208 \<Longrightarrow> (of_char (char_of (48 + n :: nat)) :: int) = 48 + int n"
proof -
  assume n: "n < 208"
  have "(of_char (char_of (48 + n :: nat)) :: nat) = 48 + n" using n by (simp only: of_char_of) simp
  then show ?thesis by (metis of_nat_add of_nat_numeral of_nat_of_char)
qed

lemma decimal_value_nonneg: "decimal_value n s = Some k \<Longrightarrow> 0 \<le> n \<Longrightarrow> 0 \<le> k"
proof (induction n s rule: decimal_value.induct)
  case (2 n c cs)
  have digit: "is_digit c" and rest: "decimal_value (n * 10 + (of_char c - 48)) cs = Some k"
    using 2(2) by (auto split: if_splits)
  show ?case using 2(1) [OF digit rest] 2(3) is_digit_int [OF digit] by simp
qed simp

lemma decimal_value_Some: "(\<exists>k. decimal_value n s = Some k) \<longleftrightarrow> list_all is_digit s"
  by (induction n s rule: decimal_value.induct) auto

lemma decimal_value_append: "decimal_value n (s @ t) = (case decimal_value n s of None \<Rightarrow> None | Some k \<Rightarrow> decimal_value k t)"
  by (induction n s rule: decimal_value.induct) auto

section \<open>Canonical texts\<close>

lemma nat_decimal_digits: "list_all is_digit (nat_decimal n)"
proof (induction n rule: nat_decimal.induct)
  case (1 n)
  then show ?case by (subst nat_decimal.simps) (simp add: is_digit_char_of)
qed

lemma nat_decimal_not_Nil [simp]: "nat_decimal n \<noteq> []"
  by (subst nat_decimal.simps) simp

lemma nat_decimal_value: "decimal_value 0 (nat_decimal n) = Some (int n)"
proof (induction n rule: nat_decimal.induct)
  case (1 n)
  show ?case
  proof (cases "n < 10")
    case True
    then show ?thesis by (subst nat_decimal.simps) (simp add: is_digit_char_of of_char_char_of_int)
  next
    case False
    have "n mod 10 < 10" "int (n div 10) * 10 + int (n mod 10) = int n"
      by simp (metis div_mult_mod_eq of_nat_add of_nat_mult of_nat_numeral)
    then show ?thesis using 1 [OF False] False
      by (subst nat_decimal.simps)
         (simp add: decimal_value_append is_digit_char_of of_char_char_of_int del: of_nat_mod of_nat_div)
  qed
qed

lemma nat_decimal_inj: "nat_decimal m = nat_decimal n \<Longrightarrow> m = n"
  by (metis nat_decimal_value of_nat_eq_iff option.inject)

lemma int_decimal_inj: "0 \<le> m \<Longrightarrow> 0 \<le> n \<Longrightarrow> int_decimal m = int_decimal n \<Longrightarrow> m = n"
  by (simp add: int_decimal_def) (metis nat_0_le nat_decimal_inj)

lemma nat_decimal_no_zero: "0 < n \<Longrightarrow> hd (nat_decimal n) \<noteq> CHR ''0''"
proof (induction n rule: nat_decimal.induct)
  case (1 n)
  show ?case
  proof (cases "n < 10")
    case True
    have "(of_char (char_of (48 + n)) :: nat) \<noteq> of_char CHR ''0''" using True 1(2) by (simp only: of_char_of) simp
    then have "char_of (48 + n) \<noteq> CHR ''0''" by metis
    then show ?thesis using True by (subst nat_decimal.simps) simp
  next
    case False
    then show ?thesis using 1(1) [OF False] by (subst nat_decimal.simps) (simp add: hd_append)
  qed
qed

lemma nat_decimal_first: "length (nat_decimal n) > 1 \<Longrightarrow> nat_decimal n ! 0 \<noteq> CHR ''0''"
proof -
  assume "length (nat_decimal n) > 1"
  then have "n > 0" by (cases "n = 0") (simp_all add: nat_decimal.simps [of 0])
  then show ?thesis using nat_decimal_no_zero by (metis hd_conv_nth nat_decimal_not_Nil)
qed

text \<open>A text of digits without a leading zero is the one its value prints as.\<close>

lemma nat_decimal_of_value:
  assumes "list_all is_digit s" "s \<noteq> []" "length s > 1 \<longrightarrow> s ! 0 \<noteq> CHR ''0''" "decimal_value 0 s = Some k"
  shows "nat_decimal (nat k) = s"
  using assms
proof (induction s arbitrary: k rule: rev_induct)
  case (snoc c s)
  have digit: "48 \<le> (of_char c :: nat)" "(of_char c :: nat) \<le> 57" using snoc(2) by (simp_all add: is_digit_bounds)
  obtain d where d: "(of_char c :: nat) = 48 + d" "d < 10" using digit by (auto dest: le_Suc_ex)
  have c: "c = char_of (48 + d)" "(of_char c :: int) = 48 + int d"
    using d by (metis char_of_char, metis of_nat_of_char of_nat_add of_nat_numeral)
  show ?case
  proof (cases "s = []")
    case True
    then have "k = int d" using snoc(5) snoc(2) c(2) by (simp split: if_splits)
    then show ?thesis using True c(1) d(2) by (simp add: nat_decimal.simps [of d])
  next
    case False
    obtain j where j: "decimal_value 0 s = Some j" using snoc(5) by (auto simp: decimal_value_append split: option.splits)
    have "length s > 1 \<longrightarrow> s ! 0 \<noteq> CHR ''0''" using snoc(4) False by (auto simp: nth_append)
    then have s: "nat_decimal (nat j) = s" using snoc(1) [OF _ False _ j] snoc(2) by simp
    have "0 \<le> j" using decimal_value_nonneg [OF j] by simp
    have "s ! 0 \<noteq> CHR ''0''" using snoc(4) False by (simp add: nth_append)
    moreover have "nat_decimal 0 = ''0''" by code_simp
    ultimately have "j \<noteq> 0" using s by auto
    then have pos: "0 < j" using \<open>0 \<le> j\<close> by simp
    have k: "k = j * 10 + int d" using snoc(5) snoc(2) j c(2) by (simp add: decimal_value_append)
    have nk: "nat k = nat j * 10 + d" using k \<open>0 \<le> j\<close> by (simp add: nat_add_distrib nat_mult_distrib)
    then have "\<not> nat k < 10" using pos by simp
    moreover have "nat k div 10 = nat j" "nat k mod 10 = d" using nk d(2) by simp_all
    ultimately show ?thesis using s c(1) by (subst nat_decimal.simps) simp
  qed
qed simp

lemma parse_uint64_canonical:
  "parse_uint64 s = Some n \<and> (length s > 1 \<longrightarrow> s ! 0 \<noteq> CHR ''0'') \<longleftrightarrow> s = nat_decimal n \<and> n < 2 ^ 64"
proof
  assume a: "parse_uint64 s = Some n \<and> (length s > 1 \<longrightarrow> s ! 0 \<noteq> CHR ''0'')"
  then obtain k where k: "decimal_value 0 s = Some k" "k < 2 ^ 64" "n = nat k" "s \<noteq> []"
    by (auto simp: parse_uint64_def split: if_splits option.splits)
  then have "0 \<le> k" using decimal_value_nonneg by simp
  then have "n < 2 ^ 64" using k by (simp add: nat_less_iff)
  moreover have "s = nat_decimal n" using nat_decimal_of_value [of s k] a k decimal_value_Some by blast
  ultimately show "s = nat_decimal n \<and> n < 2 ^ 64" by blast
next
  assume "s = nat_decimal n \<and> n < 2 ^ 64"
  moreover from this have "int n < 2 ^ 64" by (metis of_nat_less_iff of_nat_numeral of_nat_power)
  ultimately show "parse_uint64 s = Some n \<and> (length s > 1 \<longrightarrow> s ! 0 \<noteq> CHR ''0'')"
    using nat_decimal_first by (simp add: parse_uint64_def nat_decimal_value)
qed

end
