(* ===== verification/Json.thy ===== *)
theory Json
  imports Utf8 Strings Decimal
begin

text \<open>
  JSON text as \<open>encoding/json\<close> reads it, for the code that decodes it: the tokens of a text, a
  parser over the tokens with the stack the scanner keeps (bounded at its nesting limit), and the
  strings' escapes.  A value keeps the members of an object in the order of the text, duplicates
  included, and a number as it is spelled.  The printer is used by examples.
\<close>

datatype json =
    JNull
  | JBool bool
  | JNumber string
  | JString string
  | JArray "json list"
  | JObject "(string \<times> json) list"

section \<open>Strings\<close>

definition hex_value :: "char \<Rightarrow> nat option" where
  "hex_value c =
     (if is_digit c then Some (of_char c - 48)
      else if CHR ''a'' \<le> c \<and> c \<le> CHR ''f'' then Some (of_char c - 87)
      else if CHR ''A'' \<le> c \<and> c \<le> CHR ''F'' then Some (of_char c - 55)
      else None)"

fun hex_units :: "nat \<Rightarrow> string \<Rightarrow> nat option" where
  "hex_units n [] = Some n"
| "hex_units n (c # s) = (case hex_value c of None \<Rightarrow> None | Some d \<Rightarrow> hex_units (16 * n + d) s)"

text \<open>The unit the first four bytes spell.\<close>

definition hexUnit :: "string \<Rightarrow> nat option" where
  "hexUnit s = (if length s < 4 then None else hex_units 0 (take 4 s))"

text \<open>The body of a string, up to its closing quote, and the text after it.\<close>

function scan_body :: "string \<Rightarrow> (string \<times> string) option" where
  "scan_body s =
     (case s of
        [] \<Rightarrow> None
      | c # t \<Rightarrow>
          if c = CHR 0x22 then Some ([], t)
          else if (of_char c :: nat) < 0x20 then None
          else if c \<noteq> CHR 0x5C then map_option (apfst (Cons c)) (scan_body t)
          else (case t of
              [] \<Rightarrow> None
            | e # u \<Rightarrow>
                if e \<in> set [CHR 0x22, CHR 0x5C, CHR ''/'', CHR ''b'', CHR ''f'', CHR ''n'', CHR ''r'', CHR ''t'']
                then map_option (apfst (append [c, e])) (scan_body u)
                else if e \<noteq> CHR ''u'' \<or> hexUnit u = None then None
                else map_option (apfst (append (c # e # take 4 u))) (scan_body (drop 4 u))))"
  by pat_completeness auto
termination by (relation "measure length") (auto split: if_splits)

declare scan_body.simps [simp del]

definition encode_rune :: "nat \<Rightarrow> string" where
  "encode_rune r =
     (if r < 0x80 then [char_of r]
      else if r < 0x800 then [char_of (0xC0 + r div 64), char_of (0x80 + r mod 64)]
      else if r < 0x10000 then [char_of (0xE0 + r div 4096), char_of (0x80 + r div 64 mod 64), char_of (0x80 + r mod 64)]
      else [char_of (0xF0 + r div 262144), char_of (0x80 + r div 4096 mod 64), char_of (0x80 + r div 64 mod 64), char_of (0x80 + r mod 64)])"

definition high_surrogate :: "nat \<Rightarrow> bool" where
  "high_surrogate n \<longleftrightarrow> 0xD800 \<le> n \<and> n < 0xDC00"

definition low_surrogate :: "nat \<Rightarrow> bool" where
  "low_surrogate n \<longleftrightarrow> 0xDC00 \<le> n \<and> n < 0xE000"

definition unescape :: "char \<Rightarrow> char" where
  "unescape e =
     (if e = CHR ''b'' then CHR 0x08 else if e = CHR ''f'' then CHR 0x0C else if e = CHR ''n'' then CHR 0x0A
      else if e = CHR ''r'' then CHR 0x0D else if e = CHR ''t'' then CHR 0x09 else e)"

text \<open>
  The unit after an escape that follows: the low half of a pair, if one follows at once.
\<close>

definition low_half :: "string \<Rightarrow> nat option" where
  "low_half s =
     (case s of
        c # e # u \<Rightarrow>
          if c = CHR 0x5C \<and> e = CHR ''u''
          then (case hexUnit u of None \<Rightarrow> None | Some n \<Rightarrow> if low_surrogate n then Some n else None)
          else None
      | _ \<Rightarrow> None)"

definition replacement :: string where
  "replacement = [CHR 0xEF, CHR 0xBF, CHR 0xBD]"

lemma decode_rune_step: "(r, n) = decode_rune (c # s) \<Longrightarrow> 0 < n"
  using decode_rune_size_prod [of "c # s" r n] by simp

text \<open>
  What a body stands for.  Malformed UTF-8 and a surrogate without its half become the replacement
  character; \<open>exact\<close> selects the reading that refuses a text where that would happen.
\<close>

function unquote :: "bool \<Rightarrow> string \<Rightarrow> string option" where
  "unquote exact s =
     (case s of
        [] \<Rightarrow> Some []
      | c # t \<Rightarrow>
          if c = CHR 0x5C then
            (case t of
               [] \<Rightarrow> None
             | e # u \<Rightarrow>
                 if e \<noteq> CHR ''u'' then map_option (Cons (unescape e)) (unquote exact u)
                 else (case hexUnit u of
                     None \<Rightarrow> None
                   | Some n \<Rightarrow>
                       if high_surrogate n \<and> low_half (drop 4 u) \<noteq> None then
                         map_option (append (encode_rune (0x10000 + (n - 0xD800) * 0x400 + (the (low_half (drop 4 u)) - 0xDC00))))
                           (unquote exact (drop 10 u))
                       else if high_surrogate n \<or> low_surrogate n then
                         if exact then None else map_option (append replacement) (unquote exact (drop 4 u))
                       else map_option (append (encode_rune n)) (unquote exact (drop 4 u))))
          else (case decode_rune s of
              (r, n) \<Rightarrow>
                if r = rune_error \<and> n = 1 then
                  if exact then None else map_option (append replacement) (unquote exact t)
                else map_option (append (take n s)) (unquote exact (drop n s))))"
  by pat_completeness auto
termination
  by (relation "measure (\<lambda>(e, s). length s)") (auto dest: decode_rune_step)

declare unquote.simps [simp del]

section \<open>Tokens\<close>

datatype token =
    OpenObject | CloseObject | OpenArray | CloseArray | Colon | Comma
  | Atom json
  | Quoted string

definition json_space :: "char \<Rightarrow> bool" where
  "json_space c \<longleftrightarrow> c \<in> {CHR 0x20, CHR 0x09, CHR 0x0D, CHR 0x0A}"

definition atom_char :: "char \<Rightarrow> bool" where
  "atom_char c \<longleftrightarrow> is_digit c \<or> is_lower c \<or> c \<in> {CHR ''-'', CHR ''+'', CHR ''.'', CHR ''E''}"

text \<open>The grammar of a number: its integer, its fraction and its exponent.\<close>

definition number_exponent :: "string \<Rightarrow> bool" where
  "number_exponent s =
     (case s of
        [] \<Rightarrow> True
      | e # t \<Rightarrow> (e = CHR ''e'' \<or> e = CHR ''E'') \<and>
          (let d = (case t of c # u \<Rightarrow> if c = CHR ''+'' \<or> c = CHR ''-'' then u else t | [] \<Rightarrow> t)
           in d \<noteq> [] \<and> list_all is_digit d))"

definition number_fraction :: "string \<Rightarrow> bool" where
  "number_fraction s =
     (case s of
        [] \<Rightarrow> True
      | c # t \<Rightarrow>
          if c = CHR ''.'' then takeWhile is_digit t \<noteq> [] \<and> number_exponent (dropWhile is_digit t)
          else number_exponent s)"

definition valid_number :: "string \<Rightarrow> bool" where
  "valid_number s =
     (let t = (case s of c # u \<Rightarrow> if c = CHR ''-'' then u else s | [] \<Rightarrow> s) in
      case t of
        [] \<Rightarrow> False
      | c # u \<Rightarrow>
          if c = CHR ''0'' then number_fraction u
          else is_digit c \<and> number_fraction (dropWhile is_digit u))"

definition atom_of :: "string \<Rightarrow> json option" where
  "atom_of s =
     (if s = ''null'' then Some JNull
      else if s = ''true'' then Some (JBool True)
      else if s = ''false'' then Some (JBool False)
      else if valid_number s then Some (JNumber s)
      else None)"

definition mark_of :: "char \<Rightarrow> token option" where
  "mark_of c =
     (if c = CHR ''{'' then Some OpenObject else if c = CHR ''}'' then Some CloseObject
      else if c = CHR ''['' then Some OpenArray else if c = CHR '']'' then Some CloseArray
      else if c = CHR '':'' then Some Colon else if c = CHR '','' then Some Comma else None)"

definition plain_char :: "char \<Rightarrow> bool" where
  "plain_char c \<longleftrightarrow> 0x20 \<le> (of_char c :: nat) \<and> c \<noteq> CHR 0x22 \<and> c \<noteq> CHR 0x5C"

abbreviation escapes :: "char set" where
  "escapes \<equiv> set [CHR 0x22, CHR 0x5C, CHR ''/'', CHR ''b'', CHR ''f'', CHR ''n'', CHR ''r'', CHR ''t'']"

lemma scan_body_quote [simp]: "scan_body (CHR 0x22 # t) = Some ([], t)"
  by (simp add: scan_body.simps)

lemma scan_body_plain: "plain_char c \<Longrightarrow> scan_body (c # t) = map_option (apfst (Cons c)) (scan_body t)"
  by (simp add: scan_body.simps [of "c # t"] plain_char_def)

lemma scan_body_escape: "e \<in> escapes \<Longrightarrow> scan_body (CHR 0x5C # e # u) = map_option (apfst (append [CHR 0x5C, e])) (scan_body u)"
  by (simp add: scan_body.simps [of "CHR 0x5C # e # u"])

lemma scan_body_unit:
  "hexUnit u \<noteq> None \<Longrightarrow>
     scan_body (CHR 0x5C # CHR ''u'' # u) = map_option (apfst (append (CHR 0x5C # CHR ''u'' # take 4 u))) (scan_body (drop 4 u))"
  by (auto simp: scan_body.simps [of "CHR 0x5C # CHR ''u'' # u"])

lemma scan_body_cases:
  assumes "scan_body s = Some (b, r)"
  obtains (end_quote) "s = CHR 0x22 # r" "b = []"
  | (plain) c t b' where "plain_char c" "s = c # t" "scan_body t = Some (b', r)" "b = c # b'"
  | (escape) e u b' where "e \<in> escapes" "s = CHR 0x5C # e # u" "scan_body u = Some (b', r)" "b = CHR 0x5C # e # b'"
  | (unit_escape) u n b' where "hexUnit u = Some n" "s = CHR 0x5C # CHR ''u'' # u" "scan_body (drop 4 u) = Some (b', r)"
      "b = CHR 0x5C # CHR ''u'' # take 4 u @ b'"
proof (cases s)
  case Nil
  then show ?thesis using assms by (simp add: scan_body.simps)
next
  case (Cons c t)
  consider "c = CHR 0x22" | "plain_char c" | "c \<noteq> CHR 0x22" "(of_char c :: nat) < 0x20" | "c = CHR 0x5C"
    unfolding plain_char_def by fastforce
  then show ?thesis
  proof cases
    case 1
    then show ?thesis using assms end_quote Cons by simp
  next
    case 2
    then show ?thesis using assms plain [of c t] Cons by (auto simp: scan_body_plain)
  next
    case 3
    then show ?thesis using assms Cons by (simp add: scan_body.simps)
  next
    case 4
    then obtain e u where t: "t = e # u" using assms Cons by (cases t) (simp_all add: scan_body.simps)
    consider "e \<in> escapes" | "e \<notin> escapes" "e \<noteq> CHR ''u'' \<or> hexUnit u = None" | "e = CHR ''u''" "hexUnit u \<noteq> None" by blast
    then show ?thesis
    proof cases
      case 1
      then show ?thesis using assms escape [of e u] Cons 4 t by (auto simp: scan_body_escape)
    next
      case 2
      then show ?thesis using assms Cons 4 t by (simp add: scan_body.simps)
    next
      case 3
      then show ?thesis using assms unit_escape [of u] Cons 4 t by (auto simp: scan_body_unit)
    qed
  qed
qed

lemma scan_body_induct [consumes 1, case_names end_quote plain escape unit_escape]:
  assumes "scan_body s = Some (b, r)"
    and "P (CHR 0x22 # r) []"
    and "\<And>c t b. plain_char c \<Longrightarrow> scan_body t = Some (b, r) \<Longrightarrow> P t b \<Longrightarrow> P (c # t) (c # b)"
    and "\<And>e u b. e \<in> escapes \<Longrightarrow> scan_body u = Some (b, r) \<Longrightarrow> P u b \<Longrightarrow> P (CHR 0x5C # e # u) (CHR 0x5C # e # b)"
    and "\<And>u n b. hexUnit u = Some n \<Longrightarrow> scan_body (drop 4 u) = Some (b, r) \<Longrightarrow> P (drop 4 u) b \<Longrightarrow>
      P (CHR 0x5C # CHR ''u'' # u) (CHR 0x5C # CHR ''u'' # take 4 u @ b)"
  shows "P s b"
  using assms(1)
proof (induction "length s" arbitrary: s b rule: less_induct)
  case less
  from less.prems show ?case
  proof (cases rule: scan_body_cases)
    case end_quote
    then show ?thesis using assms(2) by simp
  next
    case (plain c t b')
    then show ?thesis using less.hyps [of t b'] assms(3) by simp
  next
    case (escape e u b')
    then show ?thesis using less.hyps [of u b'] assms(4) by simp
  next
    case (unit_escape u n b')
    then show ?thesis using less.hyps [of "drop 4 u" b'] assms(5) by simp
  qed
qed

lemma scan_body_shrinks: "scan_body s = Some (b, r) \<Longrightarrow> length r < length s"
  by (induction rule: scan_body_induct) auto

text \<open>The tokens of a text.\<close>

function lex :: "string \<Rightarrow> token list option" where
  "lex s =
     (case s of
        [] \<Rightarrow> Some []
      | c # t \<Rightarrow>
          if json_space c then lex t
          else if c = CHR 0x22 then
            (case scan_body t of None \<Rightarrow> None | Some (b, r) \<Rightarrow> map_option (Cons (Quoted b)) (lex r))
          else (case mark_of c of
              Some m \<Rightarrow> map_option (Cons m) (lex t)
            | None \<Rightarrow>
                if \<not> atom_char c then None
                else (case atom_of (c # takeWhile atom_char t) of
                    None \<Rightarrow> None
                  | Some v \<Rightarrow> map_option (Cons (Atom v)) (lex (dropWhile atom_char t)))))"
  by pat_completeness auto
termination
  by (relation "measure length") (auto dest: scan_body_shrinks simp: less_Suc_eq_le length_dropWhile_le)

declare lex.simps [simp del]

section \<open>Values\<close>

datatype nesting = InArray "json list" | InObject "(string \<times> json) list" string

datatype expect = Value | FirstValue | FirstKey | Key "(string \<times> json) list" | AfterKey "(string \<times> json) list" string | After json

definition maxNestingDepth :: int where
  "maxNestingDepth = 10000"

text \<open>One token; the result is what is expected next and the open arrays and objects.\<close>

definition open_context :: "expect \<Rightarrow> nesting list \<Rightarrow> (expect \<times> nesting list) option" where
  "open_context e stack = (if int (length stack) \<le> maxNestingDepth then Some (e, stack) else None)"

definition value_token :: "bool \<Rightarrow> token \<Rightarrow> nesting list \<Rightarrow> (expect \<times> nesting list) option" where
  "value_token exact t stack =
     (case t of
        Atom v \<Rightarrow> Some (After v, stack)
      | Quoted b \<Rightarrow> map_option (\<lambda>x. (After (JString x), stack)) (unquote exact b)
      | OpenArray \<Rightarrow> open_context FirstValue (InArray [] # stack)
      | OpenObject \<Rightarrow> open_context FirstKey (InObject [] [] # stack)
      | _ \<Rightarrow> None)"

definition key_token :: "bool \<Rightarrow> (string \<times> json) list \<Rightarrow> token \<Rightarrow> nesting list \<Rightarrow> (expect \<times> nesting list) option" where
  "key_token exact ms t stack =
     (case t of Quoted b \<Rightarrow> map_option (\<lambda>k. (AfterKey ms k, stack)) (unquote exact b) | _ \<Rightarrow> None)"

definition after_token :: "json \<Rightarrow> token \<Rightarrow> nesting list \<Rightarrow> (expect \<times> nesting list) option" where
  "after_token v t stack =
     (case stack of
        [] \<Rightarrow> None
      | InArray vs # rest \<Rightarrow>
          (case t of
             Comma \<Rightarrow> Some (Value, InArray (vs @ [v]) # rest)
           | CloseArray \<Rightarrow> Some (After (JArray (vs @ [v])), rest)
           | _ \<Rightarrow> None)
      | InObject ms k # rest \<Rightarrow>
          (case t of
             Comma \<Rightarrow> Some (Key (ms @ [(k, v)]), InObject (ms @ [(k, v)]) [] # rest)
           | CloseObject \<Rightarrow> Some (After (JObject (ms @ [(k, v)])), rest)
           | _ \<Rightarrow> None))"

definition token_step :: "bool \<Rightarrow> token \<Rightarrow> expect \<times> nesting list \<Rightarrow> (expect \<times> nesting list) option" where
  "token_step exact t s =
     (case s of (e, stack) \<Rightarrow>
        (case e of
           Value \<Rightarrow> value_token exact t stack
         | FirstValue \<Rightarrow> if t = CloseArray then Some (After (JArray []), tl stack) else value_token exact t stack
         | FirstKey \<Rightarrow> if t = CloseObject then Some (After (JObject []), tl stack) else key_token exact [] t stack
         | Key ms \<Rightarrow> key_token exact ms t stack
         | AfterKey ms k \<Rightarrow> if t = Colon then Some (Value, InObject ms k # tl stack) else None
         | After v \<Rightarrow> after_token v t stack))"

fun run_tokens :: "bool \<Rightarrow> token list \<Rightarrow> expect \<times> nesting list \<Rightarrow> (expect \<times> nesting list) option" where
  "run_tokens exact [] s = Some s"
| "run_tokens exact (t # ts) s = (case token_step exact t s of None \<Rightarrow> None | Some s' \<Rightarrow> run_tokens exact ts s')"

text \<open>The one value a text holds.\<close>

definition parse_json :: "bool \<Rightarrow> string \<Rightarrow> json option" where
  "parse_json exact s =
     (case lex s of
        None \<Rightarrow> None
      | Some ts \<Rightarrow>
          (case run_tokens exact ts (Value, []) of
             Some (After v, []) \<Rightarrow> Some v
           | _ \<Rightarrow> None))"

end
