(* ===== verification/Json_Decode.thy ===== *)
theory Json_Decode
  imports Json "HOL-Library.AList"
begin

text \<open>
  How \<open>encoding/json\<close> decodes an object into a Go struct: the member a key names, the texts and
  integers it reads, and the members one after the other, each into what the ones before it left.
\<close>

text \<open>The name \<open>encoding/json\<close> compares a member by: ASCII letters and the two runes that fold to one.\<close>

fun fold_name :: "string \<Rightarrow> string" where
  "fold_name [] = []"
| "fold_name (c # s) =
     (if c = CHR 0xC5 \<and> (case s of d # _ \<Rightarrow> d = CHR 0xBF | [] \<Rightarrow> False) then CHR ''s'' # fold_name (tl s)
      else if c = CHR 0xE2 \<and> take 2 s = [CHR 0x84, CHR 0xAA] then CHR ''k'' # fold_name (drop 2 s)
      else lower_char c # fold_name s)"

definition member_of :: "string list \<Rightarrow> string \<Rightarrow> string option" where
  "member_of names k =
     (if k \<in> set names then Some k else find (\<lambda>n. fold_name n = fold_name k) names)"

definition into_string :: "json \<Rightarrow> string \<Rightarrow> string option" where
  "into_string v old = (case v of JString s \<Rightarrow> Some s | JNull \<Rightarrow> Some old | _ \<Rightarrow> None)"

definition into_int :: "json \<Rightarrow> int \<Rightarrow> int option" where
  "into_int v old = (case v of JNumber n \<Rightarrow> parse_int64 n | JNull \<Rightarrow> Some old | _ \<Rightarrow> None)"

fun decode_members :: "('m \<Rightarrow> 'a \<Rightarrow> 'a option) \<Rightarrow> 'm list \<Rightarrow> 'a \<Rightarrow> 'a option" where
  "decode_members d [] a = Some a"
| "decode_members d (m # ms) a = (case d m a of None \<Rightarrow> None | Some a' \<Rightarrow> decode_members d ms a')"

text \<open>One field of a struct with these names.\<close>

definition decode_field :: "string list \<Rightarrow> string \<Rightarrow> (json \<Rightarrow> 'a \<Rightarrow> 'a option) \<Rightarrow> (string \<times> json) list \<Rightarrow> 'a \<Rightarrow> 'a option" where
  "decode_field names n into ms old =
     decode_members (\<lambda>(k, v) x. if member_of names k = Some n then into v x else Some x) ms old"

fun collect :: "('a \<Rightarrow> 'b option) \<Rightarrow> 'a list \<Rightarrow> 'b list option" where
  "collect f [] = Some []"
| "collect f (x # xs) = (case f x of None \<Rightarrow> None | Some y \<Rightarrow> map_option (Cons y) (collect f xs))"

definition into_bool :: "json \<Rightarrow> bool \<Rightarrow> bool option" where
  "into_bool v old = (case v of JBool b \<Rightarrow> Some b | JNull \<Rightarrow> Some old | _ \<Rightarrow> None)"

text \<open>A slice starts over; a map keeps what it has.\<close>

definition into_slice :: "(json \<Rightarrow> 'a option) \<Rightarrow> json \<Rightarrow> 'a list \<Rightarrow> 'a list option" where
  "into_slice element v old = (case v of JArray vs \<Rightarrow> collect element vs | JNull \<Rightarrow> Some [] | _ \<Rightarrow> None)"

definition into_map :: "(json \<Rightarrow> 'a option) \<Rightarrow> json \<Rightarrow> (string \<times> 'a) list \<Rightarrow> (string \<times> 'a) list option" where
  "into_map element v old =
     (case v of
        JObject ms \<Rightarrow> decode_members (\<lambda>(k, v) m. map_option (\<lambda>x. AList.update k x m) (element v)) ms old
      | JNull \<Rightarrow> Some []
      | _ \<Rightarrow> None)"

text \<open>What an \<open>any\<close> keeps of a value: of members with one name, the last.\<close>

fun decoded :: "json \<Rightarrow> json" where
  "decoded (JArray vs) = JArray (map decoded vs)"
| "decoded (JObject ms) = JObject (fold (\<lambda>(k, v). AList.update k v) (map (\<lambda>(k, v). (k, decoded v)) ms) [])"
| "decoded v = v"

end
