(* ===== verification/Tunnel_Model.thy ===== *)
theory Tunnel_Model
  imports Base64 Transitions Duplex_Frame Json_Decode
begin

text \<open>
  \<open>tunnel/go/tunnel.go\<close> and \<open>wire.go\<close>: one side of a tunnel.  A \<open>Connection\<close> is
  shared by the table, the pending list and whoever uses it, so connections live in a store and
  everything else holds their index.  An operation is a function from the tunnel to the tunnel, one
  critical section of the code.  An operation that waits is one turn of its loop, which answers
  \<open>Waiting\<close> when the code would block.  The calls that go through several critical sections
  to end a connection, \<open>Close\<close>, \<open>Abort\<close>, \<open>fail\<close>, \<open>onClose\<close>, a failed open and
  \<open>watch\<close>, run their first section and leave the others, in order, in \<open>running\<close>, from
  where \<open>continue_call\<close> takes them one by one, so that anything else can happen in between.
  A frame that arrives is one step: the lookup, which only reads the table, and then the put into
  the inbox or the end of the connection that refuses it.  What the code emits on the outer peer is
  appended to \<open>sent\<close>; \<open>up\<close> says whether that emission succeeds.  What the observer is told
  is appended to \<open>told\<close>.
\<close>

section \<open>Frames, messages and errors\<close>

record frame_payload =
  pChannel :: int
  pText :: "string option"
  pBinary :: "string option"

text \<open>
  The JSON of a frame's event.  The encoder refuses a text that is not UTF-8.  The decoder takes
  the members as \<open>encoding/json\<close> does: a pointer is absent when its member is missing or null.
\<close>

definition marshal_frame :: "frame_payload \<Rightarrow> json option" where
  "marshal_frame p =
     (let texts = (case pText p of None \<Rightarrow> [] | Some text \<Rightarrow> [(''text'', text)]) @
                  (case pBinary p of None \<Rightarrow> [] | Some encoded \<Rightarrow> [(''binary'', encoded)])
      in if \<exists>(_, text) \<in> set texts. \<not> valid_utf8 text then None
         else Some (JObject ((''channel'', JNumber (int_decimal (pChannel p))) #
           map (\<lambda>(name, text). (name, JString text)) texts)))"

definition into_text_pointer :: "json \<Rightarrow> string option \<Rightarrow> string option option" where
  "into_text_pointer v old =
     (case v of JString text \<Rightarrow> Some (Some text) | JNull \<Rightarrow> Some None | _ \<Rightarrow> None)"

definition frame_payload_member :: "string \<times> json \<Rightarrow> frame_payload \<Rightarrow> frame_payload option" where
  "frame_payload_member m p =
     (case member_of [''channel'', ''text'', ''binary''] (fst m) of
        None \<Rightarrow> Some p
      | Some name \<Rightarrow>
          if name = ''channel'' then map_option (\<lambda>n. p\<lparr>pChannel := n\<rparr>) (into_int (snd m) (pChannel p))
          else if name = ''text'' then map_option (\<lambda>x. p\<lparr>pText := x\<rparr>) (into_text_pointer (snd m) (pText p))
          else map_option (\<lambda>x. p\<lparr>pBinary := x\<rparr>) (into_text_pointer (snd m) (pBinary p)))"

definition unmarshal_frame :: "json \<Rightarrow> frame_payload option" where
  "unmarshal_frame v =
     (let zero = \<lparr>pChannel = 0, pText = None, pBinary = None\<rparr> in
      case v of
        JObject ms \<Rightarrow> decode_members frame_payload_member ms zero
      | JNull \<Rightarrow> Some zero
      | _ \<Rightarrow> None)"

datatype tunnel_message =
    FrameEvent frame_payload
  | CreditEvent int int
  | CloseEvent int int string

record open_params =
  oChannel :: int
  oFamily :: string
  oDigest :: string
  oWindow :: int

datatype tunnel_error =
    ErrClosed
  | ErrNoKind
  | ErrContext string
  | ErrEmit string
  | Remote_closed int string
  | Refused_frame int string
  | Public_error string string
  | Plain_error string

datatype tunnel_event =
    ChannelOpened string int bool
  | ChannelAccepted string int
  | ChannelClosed string int int string
  | CreditStall string int int
  | OpenRefused string string

definition ErrorRefused :: string where "ErrorRefused = ''channel_refused''"
definition ErrorExists :: string where "ErrorExists = ''channel_exists''"
definition ErrorInvalid :: string where "ErrorInvalid = ''channel_invalid''"
definition ErrorContractMismatch :: string where "ErrorContractMismatch = ''contract_mismatch''"

section \<open>Options\<close>

record options =
  Contracts :: "(string \<times> string) list"
  MaxFrameBytes :: int
  Window :: int
  AcceptCapacity :: int

definition validDigest :: "string \<Rightarrow> bool" where
  "validDigest digest \<longleftrightarrow>
     length digest = 64 \<and>
     (\<forall>c \<in> set digest. CHR ''0'' \<le> c \<and> c \<le> CHR ''9'' \<or> CHR ''a'' \<le> c \<and> c \<le> CHR ''f'')"

definition options_normalized :: "options \<Rightarrow> tunnel_error + options" where
  "options_normalized opts =
     (if \<exists>(family, digest) \<in> set (Contracts opts). family = '''' \<or> digest \<noteq> '''' \<and> \<not> validDigest digest
      then Inl (Plain_error ''a tunnel contract needs a family and an absent or lowercase SHA-256 digest'')
      else if MaxFrameBytes opts < 0 \<or> Window opts < 0 \<or> AcceptCapacity opts < 0
      then Inl (Plain_error ''tunnel limits must not be negative'')
      else Inr (opts\<lparr>MaxFrameBytes := if MaxFrameBytes opts = 0 then 1048576 else MaxFrameBytes opts,
                     Window := if Window opts = 0 then 32 else Window opts,
                     AcceptCapacity := if AcceptCapacity opts = 0 then 64 else AcceptCapacity opts\<rparr>))"

section \<open>Connections\<close>

text \<open>The presentation of a connection as a wire: the role its inner peer takes.\<close>

datatype role = ClientRole | ServerRole

record connection =
  ID :: int
  Family :: string
  Digest :: string
  raw :: bool
  channel :: "role option"
  inbox :: "frame list"
  credit :: int
  waiting :: int
  wake :: bool
  taken :: int
  closed :: bool
  remote :: "(int \<times> string) option"
  dead :: "string option"
  ended :: bool
  announced :: bool
  opened :: bool

definition newConnection :: "int \<Rightarrow> string \<Rightarrow> string \<Rightarrow> int \<Rightarrow> connection" where
  "newConnection cid family digest cr =
     \<lparr>ID = cid, Family = family, Digest = digest, raw = False, channel = None, inbox = [],
      credit = cr, waiting = 0, wake = False, taken = 0, closed = False, remote = None, dead = None,
      ended = False, announced = False, opened = False\<rparr>"

text \<open>The wrap-around of Go's \<open>int\<close>, on the one sum whose terms come from the other side.\<close>

definition int64 :: "int \<Rightarrow> int" where
  "int64 n = (n + 2 ^ 63) mod 2 ^ 64 - 2 ^ 63"

definition add_credit :: "int \<Rightarrow> connection \<Rightarrow> connection" where
  "add_credit frames c = c\<lparr>credit := int64 (credit c + frames), wake := True\<rparr>"

definition state :: "connection \<Rightarrow> tunnel_error option" where
  "state c =
     (if closed c then Some ErrClosed
      else case dead c of
        Some reason \<Rightarrow> Some (Refused_frame (ID c) reason)
      | None \<Rightarrow>
          (case remote c of
             Some (code, reason) \<Rightarrow> Some (Remote_closed code reason)
           | None \<Rightarrow> None))"

section \<open>The tunnel\<close>

text \<open>
  What a call that ends a connection has still to run, section by section: how the connection
  ends, its removal from the table by its id, the close told to the other side, and what the
  observer is told.
\<close>

datatype ending = Closing | Refusing | Remotely

datatype part =
    Ends ending nat int string
  | Removes int
  | Tells int int string
  | Observes tunnel_event

record tunnel =
  opts :: options
  ids_next :: int
  parity :: int
  table :: "int \<rightharpoonup> nat"
  pending :: "nat list"
  accept_wake :: bool
  store :: "connection list"
  sent :: "tunnel_message list"
  told :: "tunnel_event list"
  running :: "part list list"

definition New :: "role \<Rightarrow> options \<Rightarrow> tunnel_error + tunnel" where
  "New role options =
     (case options_normalized options of
        Inl e \<Rightarrow> Inl e
      | Inr o' \<Rightarrow>
          Inr \<lparr>opts = o', ids_next = (if role = ServerRole then 2 else 1),
               parity = (if role = ServerRole then 0 else 1), table = Map.empty, pending = [],
               accept_wake = False, store = [], sent = [], told = [], running = []\<rparr>)"

definition conn :: "tunnel \<Rightarrow> nat \<Rightarrow> connection" where
  "conn t r = store t ! r"

definition update_conn :: "nat \<Rightarrow> (connection \<Rightarrow> connection) \<Rightarrow> tunnel \<Rightarrow> tunnel" where
  "update_conn r f t = t\<lparr>store := (store t)[r := f (conn t r)]\<rparr>"

definition observe :: "tunnel_event \<Rightarrow> tunnel \<Rightarrow> tunnel" where
  "observe e t = t\<lparr>told := told t @ [e]\<rparr>"

definition emit :: "bool \<Rightarrow> tunnel_message \<Rightarrow> tunnel \<Rightarrow> tunnel" where
  "emit up m t = (if up then t\<lparr>sent := sent t @ [m]\<rparr> else t)"

definition observeOpened :: "nat \<Rightarrow> bool \<Rightarrow> tunnel \<Rightarrow> tunnel" where
  "observeOpened r opener t =
     (if announced (conn t r) then t
      else observe (ChannelOpened (Family (conn t r)) (ID (conn t r)) opener)
             (update_conn r (\<lambda>c. c\<lparr>announced := True, opened := True\<rparr>) t))"

definition observeAccepted :: "nat \<Rightarrow> tunnel \<Rightarrow> tunnel" where
  "observeAccepted r t = observe (ChannelAccepted (Family (conn t r)) (ID (conn t r))) t"

text \<open>\<open>end\<close>, which is a keyword here: it runs once for a connection.\<close>

definition end_conn :: "nat \<Rightarrow> int \<Rightarrow> string \<Rightarrow> (connection \<Rightarrow> connection) \<Rightarrow> tunnel \<Rightarrow> tunnel" where
  "end_conn r code reason change t =
     (if ended (conn t r) then t
      else
        let t = update_conn r (\<lambda>c. (change c)\<lparr>ended := True, announced := True\<rparr>) t in
        if opened (conn t r)
        then observe (ChannelClosed (Family (conn t r)) (ID (conn t r)) code reason) t
        else t)"

text \<open>The \<open>set\<close> of \<open>endLocal\<close>, of \<open>fail\<close> and of \<open>endRemote\<close>.\<close>

definition set_end :: "ending \<Rightarrow> int \<Rightarrow> string \<Rightarrow> connection \<Rightarrow> connection" where
  "set_end how code reason c =
     (case how of
        Closing \<Rightarrow> c\<lparr>closed := True\<rparr>
      | Refusing \<Rightarrow> c\<lparr>dead := Some reason\<rparr>
      | Remotely \<Rightarrow> c\<lparr>remote := Some (code, reason)\<rparr>)"

text \<open>\<open>remove\<close> finds the connection by its id, as the code does.\<close>

definition remove :: "int \<Rightarrow> tunnel \<Rightarrow> tunnel" where
  "remove cid t =
     (case table t cid of
        None \<Rightarrow> t
      | Some r \<Rightarrow> t\<lparr>table := (table t)(cid := None), pending := remove1 r (pending t)\<rparr>)"

text \<open>A call in progress, and its next section; a call that is through is an empty list.\<close>

definition start_call :: "part list \<Rightarrow> tunnel \<Rightarrow> tunnel" where
  "start_call parts t = t\<lparr>running := running t @ [parts]\<rparr>"

definition run_part :: "bool \<Rightarrow> part \<Rightarrow> tunnel \<Rightarrow> tunnel" where
  "run_part up p t =
     (case p of
        Ends how r code reason \<Rightarrow> end_conn r code reason (set_end how code reason) t
      | Removes cid \<Rightarrow> remove cid t
      | Tells cid code reason \<Rightarrow> emit (up \<and> valid_utf8 reason) (CloseEvent cid code reason) t
      | Observes e \<Rightarrow> observe e t)"

definition continue_call :: "bool \<Rightarrow> nat \<Rightarrow> tunnel \<Rightarrow> tunnel" where
  "continue_call up k t =
     (case running t ! k of
        [] \<Rightarrow> t
      | p # parts \<Rightarrow> run_part up p (t\<lparr>running := (running t)[k := parts]\<rparr>))"

definition fail_conn :: "nat \<Rightarrow> int \<Rightarrow> string \<Rightarrow> tunnel \<Rightarrow> tunnel" where
  "fail_conn r code reason t =
     start_call [Removes (ID (conn t r)), Tells (ID (conn t r)) code reason]
       (end_conn r code reason (set_end Refusing code reason) t)"

subsection \<open>Opening\<close>

definition refuse :: "string \<Rightarrow> string \<Rightarrow> string \<Rightarrow> tunnel \<Rightarrow> tunnel_error \<times> tunnel" where
  "refuse family code msg t = (Public_error code msg, observe (OpenRefused family msg) t)"

text \<open>The text of an error, \<open>Error\<close> of its type.\<close>

fun error_text :: "tunnel_error \<Rightarrow> string" where
  "error_text ErrClosed = ''duplex connection closed''"
| "error_text ErrNoKind = ''duplex frame of no kind''"
| "error_text (ErrContext text) = text"
| "error_text (ErrEmit text) = text"
| "error_text (Remote_closed code reason) =
     ''duplex connection closed by the remote side ('' @ int_decimal code @ '')'' @
     (if reason = [] then [] else '': '' @ reason)"
| "error_text (Refused_frame cid reason) =
     ''channel '' @ int_decimal cid @ '' refused a frame: '' @ reason"
| "error_text (Public_error code msg) = code @ '': '' @ msg"
| "error_text (Plain_error msg) = msg"

definition refused_open :: "string \<Rightarrow> tunnel_error \<Rightarrow> tunnel \<Rightarrow> tunnel_error \<times> tunnel" where
  "refused_open family e t = (e, observe (OpenRefused family (error_text e)) t)"

text \<open>
  \<open>openConnection\<close> up to its request, and from the request's answer on; in between the
  connection is in the table with no credit.
\<close>

definition open_begin :: "string \<Rightarrow> string \<Rightarrow> tunnel \<Rightarrow> (tunnel_error + (nat \<times> open_params)) \<times> tunnel" where
  "open_begin family digest t =
     (if family = '''' then
        (let (e, t) = refused_open family (Plain_error ''a channel is opened for a family'') t in (Inl e, t))
      else if digest \<noteq> '''' \<and> \<not> validDigest digest then
        (let (e, t) = refuse family ErrorInvalid ''a channel digest is lowercase SHA-256 hex'' t in (Inl e, t))
      else
        let cid = ids_next t; r = length (store t) in
        (Inr (r, \<lparr>oChannel = cid, oFamily = family, oDigest = digest, oWindow = Window (opts t)\<rparr>),
         t\<lparr>ids_next := ids_next t + 2, store := store t @ [newConnection cid family digest 0],
           table := (table t)(cid \<mapsto> r)\<rparr>))"

definition grant_credit :: "nat \<Rightarrow> int \<Rightarrow> tunnel \<Rightarrow> tunnel" where
  "grant_credit r frames = update_conn r (add_credit frames)"

definition open_failed :: "nat \<Rightarrow> tunnel_error \<Rightarrow> tunnel \<Rightarrow> tunnel" where
  "open_failed r e t =
     start_call [Removes (ID (conn t r)), Ends Closing r CodeNormal '''',
       Observes (OpenRefused (Family (conn t r)) (error_text e))] t"

definition open_finish :: "nat \<Rightarrow> tunnel_error + int \<Rightarrow> tunnel \<Rightarrow> (tunnel_error + nat) \<times> tunnel" where
  "open_finish r answer t =
     (case answer of
        Inl e \<Rightarrow> (Inl e, open_failed r e t)
      | Inr window \<Rightarrow>
          if window \<le> 0 then
            (let e = Plain_error ''the other side declared no window'' in (Inl e, open_failed r e t))
          else (Inr r, observeOpened r True (grant_credit r window t)))"

definition admit :: "open_params \<Rightarrow> tunnel \<Rightarrow> ((string \<times> string) + nat) \<times> tunnel" where
  "admit params t =
     (if oChannel params mod 2 = parity t then (Inl (ErrorInvalid, ''the channel id is of this side's parity''), t)
      else if table t (oChannel params) \<noteq> None then (Inl (ErrorExists, ''channel '' @ int_decimal (oChannel params) @ '' is open''), t)
      else if int (length (pending t)) \<ge> AcceptCapacity (opts t)
      then (Inl (ErrorRefused, ''no room for a channel nobody has accepted''), t)
      else
        let r = length (store t) in
        (Inr r, t\<lparr>store := store t @ [newConnection (oChannel params) (oFamily params) (oDigest params) (oWindow params)],
                  table := (table t)(oChannel params \<mapsto> r), pending := pending t @ [r],
                  accept_wake := True\<rparr>))"

text \<open>
  \<open>onOpen\<close> on the decoded parameters: \<open>bad\<close> is \<open>json.Unmarshal\<close>'s error, and
  \<open>digest_given\<close> whether the object has a \<open>digest\<close> member.
\<close>

definition onOpen :: "bool \<Rightarrow> bool \<Rightarrow> open_params \<Rightarrow> tunnel \<Rightarrow> (tunnel_error + int) \<times> tunnel" where
  "onOpen bad digest_given params t =
     (let refuse' = (\<lambda>code msg t. let (e, t) = refuse (oFamily params) code msg t in (Inl e, t)) in
      if bad \<or> oChannel params \<le> 0 \<or> oFamily params = '''' \<or> oWindow params \<le> 0 then
        refuse' ErrorInvalid ''channel.open needs a positive channel id of the opener's parity, a family and a window'' t
      else if digest_given \<and> \<not> validDigest (oDigest params) then
        refuse' ErrorInvalid ''a channel digest is lowercase SHA-256 hex'' t
      else
        let expected = (case map_of (Contracts (opts t)) (oFamily params) of None \<Rightarrow> '''' | Some d \<Rightarrow> d) in
        if expected \<noteq> '''' \<and> oDigest params \<noteq> '''' \<and> oDigest params \<noteq> expected then
          refuse' ErrorContractMismatch
            (''the declaration digest for '' @ oFamily params @ '' differs'') t
        else
          (case admit params t of
             (Inl (code, msg), t) \<Rightarrow> refuse' code msg t
           | (Inr r, t) \<Rightarrow> (Inr (Window (opts t)), observeOpened r False t)))"

subsection \<open>Taking channels the other side opened\<close>

datatype 'a turn = Returned 'a | Waiting

definition acceptConnection_turn :: "tunnel \<Rightarrow> nat turn \<times> tunnel" where
  "acceptConnection_turn t =
     (case pending t of
        r # rest \<Rightarrow> (Returned r, observeAccepted r (observeOpened r False (t\<lparr>pending := rest\<rparr>)))
      | [] \<Rightarrow> (Waiting, t))"

definition connection_by_id :: "int \<Rightarrow> tunnel \<Rightarrow> nat option \<times> tunnel" where
  "connection_by_id cid t =
     (case table t cid of
        None \<Rightarrow> (None, t)
      | Some r \<Rightarrow>
          if r \<in> set (pending t)
          then (Some r, observeAccepted r (observeOpened r False (t\<lparr>pending := remove1 r (pending t)\<rparr>)))
          else (Some r, t))"

subsection \<open>What arrives from the other side\<close>

definition frame_arrived :: "frame_payload \<Rightarrow> tunnel \<Rightarrow> tunnel" where
  "frame_arrived p t =
     (case table t (pChannel p) of
        None \<Rightarrow> t
      | Some r \<Rightarrow>
          let deliver = (\<lambda>f.
                if int (length (Data f)) > MaxFrameBytes (opts t)
                then fail_conn r CodeTooLarge (''a frame of '' @ int_decimal (int (length (Data f))) @
                  '' bytes exceeds the limit of '' @ int_decimal (MaxFrameBytes (opts t))) t
                else if int (length (inbox (conn t r))) < Window (opts t)
                then update_conn r (\<lambda>c. c\<lparr>inbox := inbox c @ [f]\<rparr>) t
                else fail_conn r CodeProtocolError
                  (''a frame beyond the window of '' @ int_decimal (Window (opts t))) t)
          in
          (case (pText p, pBinary p) of
             (Some text, None) \<Rightarrow> deliver \<lparr>Kind = Text, Data = text\<rparr>
           | (None, Some encoded) \<Rightarrow>
               (case b64_decode encoded of
                  None \<Rightarrow> fail_conn r CodeProtocolError ''a binary frame that is not base64'' t
                | Some bytes \<Rightarrow> deliver \<lparr>Kind = Binary, Data = bytes\<rparr>)
           | _ \<Rightarrow> fail_conn r CodeProtocolError ''a frame that is neither text nor binary'' t))"

text \<open>The event's data: the value its text is, or none when the text is no JSON.\<close>

definition onFrame :: "json option \<Rightarrow> tunnel \<Rightarrow> tunnel" where
  "onFrame value t =
     (case value of
        None \<Rightarrow> t
      | Some v \<Rightarrow> (case unmarshal_frame v of None \<Rightarrow> t | Some p \<Rightarrow> frame_arrived p t))"

definition onCredit :: "(int \<times> int) option \<Rightarrow> tunnel \<Rightarrow> tunnel" where
  "onCredit payload t =
     (case payload of
        None \<Rightarrow> t
      | Some (cid, frames) \<Rightarrow>
          if frames \<le> 0 then t
          else (case table t cid of None \<Rightarrow> t | Some r \<Rightarrow> grant_credit r frames t))"

definition onClose :: "(int \<times> int \<times> string) option \<Rightarrow> tunnel \<Rightarrow> tunnel" where
  "onClose payload t =
     (case payload of
        None \<Rightarrow> t
      | Some (cid, code, reason) \<Rightarrow>
          (case table t cid of
             None \<Rightarrow> t
           | Some r \<Rightarrow> start_call [Removes cid, Ends Remotely r code reason] t))"

text \<open>
  \<open>watch\<close>, once the outer peer is done: the table is emptied, and every channel that was in it
  is left to end, in any order, as the code ranges over a map.
\<close>

definition going_away :: "tunnel \<Rightarrow> tunnel" where
  "going_away t =
     (let channels = filter (\<lambda>r. table t (ID (conn t r)) = Some r) [0..<length (store t)] in
      t\<lparr>table := Map.empty, pending := [],
        running := running t @ map (\<lambda>r. [Ends Remotely r CodeGoingAway
          ''the connection carrying the channel closed'']) channels\<rparr>)"

subsection \<open>A connection's user\<close>

definition frame_event :: "int \<Rightarrow> frame \<Rightarrow> tunnel_message" where
  "frame_event cid f =
     FrameEvent (if Kind f = Text
       then \<lparr>pChannel = cid, pText = Some (Data f), pBinary = None\<rparr>
       else \<lparr>pChannel = cid, pText = None, pBinary = Some (b64_encode (Data f))\<rparr>)"

definition encodable :: "tunnel_message \<Rightarrow> bool" where
  "encodable m = (case m of FrameEvent p \<Rightarrow> marshal_frame p \<noteq> None | _ \<Rightarrow> True)"

text \<open>
  One turn of \<open>take\<close>'s loop.  \<open>stalled\<close> is the loop's own variable, its new value is
  returned; a turn that returns undoes the count of the waiting senders.
\<close>

definition unstall :: "bool \<Rightarrow> connection \<Rightarrow> connection" where
  "unstall stalled c = (if stalled then c\<lparr>waiting := waiting c - 1\<rparr> else c)"

definition take_turn :: "nat \<Rightarrow> bool \<Rightarrow> tunnel \<Rightarrow> tunnel_error option turn \<times> bool \<times> tunnel" where
  "take_turn r stalled t =
     (let c = conn t r in
      case state c of
        Some e \<Rightarrow> (Returned (Some e), stalled, update_conn r (unstall stalled) t)
      | None \<Rightarrow>
          if credit c > 0
          then (Returned None, stalled, update_conn r (\<lambda>c. unstall stalled (c\<lparr>credit := credit c - 1\<rparr>)) t)
          else if stalled then (Waiting, True, t)
          else
            let t = update_conn r (\<lambda>c. c\<lparr>waiting := waiting c + 1\<rparr>) t in
            (Waiting, True, observe (CreditStall (Family c) (ID c) (waiting (conn t r))) t))"

text \<open>The context of a waiting send ends.\<close>

definition take_cancelled :: "nat \<Rightarrow> bool \<Rightarrow> string \<Rightarrow> tunnel \<Rightarrow> tunnel_error \<times> tunnel" where
  "take_cancelled r stalled text t = (ErrContext text, update_conn r (unstall stalled) t)"

text \<open>
  \<open>emission\<close> is the error of \<open>Emit\<close> once the event is encoded, and \<open>unencoded\<close> the text
  of the encoder's; either way the credit is spent.
\<close>

definition Send_turn :: "string \<Rightarrow> string option \<Rightarrow> nat \<Rightarrow> frame \<Rightarrow> bool \<Rightarrow> tunnel \<Rightarrow>
    tunnel_error option turn \<times> bool \<times> tunnel" where
  "Send_turn unencoded emission r f stalled t =
     (if Kind f \<noteq> Text \<and> Kind f \<noteq> Binary then (Returned (Some ErrNoKind), stalled, t)
      else case take_turn r stalled t of
        (Waiting, stalled, t) \<Rightarrow> (Waiting, stalled, t)
      | (Returned (Some e), stalled, t) \<Rightarrow> (Returned (Some e), stalled, t)
      | (Returned None, stalled, t) \<Rightarrow>
          if \<not> encodable (frame_event (ID (conn t r)) f)
          then (Returned (Some (ErrEmit unencoded)), stalled, t)
          else (Returned (map_option ErrEmit emission), stalled,
            emit (emission = None) (frame_event (ID (conn t r)) f) t))"

definition took :: "bool \<Rightarrow> nat \<Rightarrow> tunnel \<Rightarrow> tunnel" where
  "took up r t =
     (let t = update_conn r (\<lambda>c. c\<lparr>taken := taken c + 1\<rparr>) t; frames = taken (conn t r) in
      if frames \<ge> max (Window (opts t) div 2) 1
      then emit up (CreditEvent (ID (conn t r)) frames) (update_conn r (\<lambda>c. c\<lparr>taken := 0\<rparr>) t)
      else t)"

definition Receive_turn :: "bool \<Rightarrow> nat \<Rightarrow> tunnel \<Rightarrow> (tunnel_error + frame) turn \<times> tunnel" where
  "Receive_turn up r t =
     (let c = conn t r in
      if closed c then (Returned (Inl ErrClosed), t)
      else case inbox c of
        f # rest \<Rightarrow> (Returned (Inr f), took up r (update_conn r (\<lambda>c. c\<lparr>inbox := rest\<rparr>) t))
      | [] \<Rightarrow>
          (case state c of
             None \<Rightarrow> (Waiting, t)
           | Some e \<Rightarrow> (Returned (Inl e), t)))"

text \<open>
  The first section of \<open>Close\<close> and of \<open>Abort\<close> reads whether the connection has ended;
  only one that had not is told to the other side, as the last section.
\<close>

definition Close :: "nat \<Rightarrow> int \<Rightarrow> string \<Rightarrow> tunnel \<Rightarrow> tunnel" where
  "Close r code reason t =
     (let cid = ID (conn t r) in
      start_call ([Ends Closing r code reason, Removes cid] @
        (if state (conn t r) = None then [Tells cid code reason] else [])) t)"

definition Abort :: "nat \<Rightarrow> tunnel \<Rightarrow> tunnel" where
  "Abort r t =
     (let cid = ID (conn t r) in
      start_call ([Ends Closing r CodeAbnormalClosure '''', Removes cid] @
        (if state (conn t r) = None then [Tells cid CodeAbnormalClosure ''''] else [])) t)"

subsection \<open>Presentations\<close>

definition presentationError :: tunnel_error where
  "presentationError = Public_error ErrorInvalid ''A connection already has a reader presentation.''"

definition asRaw :: "nat \<Rightarrow> tunnel \<Rightarrow> bool \<times> tunnel" where
  "asRaw r t =
     (if channel (conn t r) \<noteq> None then (False, t)
      else (True, update_conn r (\<lambda>c. c\<lparr>raw := True\<rparr>) t))"

text \<open>\<open>peer\<close> is \<open>runtime.NewPeer\<close>'s answer: its error, or none.\<close>

definition asWire :: "tunnel_error option \<Rightarrow> nat \<Rightarrow> tunnel \<Rightarrow> (tunnel_error + role) \<times> tunnel" where
  "asWire peer r t =
     (if raw (conn t r) then (Inl presentationError, t)
      else case channel (conn t r) of
        Some wire \<Rightarrow> (Inr wire, t)
      | None \<Rightarrow>
          (case peer of
             Some e \<Rightarrow> (Inl e, Abort r t)
           | None \<Rightarrow>
               let role = (if ID (conn t r) mod 2 \<noteq> parity t then ServerRole else ClientRole) in
               (Inr role, update_conn r (\<lambda>c. c\<lparr>channel := Some role\<rparr>) t)))"

definition Open_finish :: "tunnel_error option \<Rightarrow> nat \<Rightarrow> tunnel_error + int \<Rightarrow> tunnel \<Rightarrow>
    (tunnel_error + role) \<times> tunnel" where
  "Open_finish peer r answer t =
     (case open_finish r answer t of
        (Inl e, t) \<Rightarrow> (Inl e, t)
      | (Inr r, t) \<Rightarrow> asWire peer r t)"

definition Accept_turn :: "tunnel_error option \<Rightarrow> tunnel \<Rightarrow> (tunnel_error + role) turn \<times> tunnel" where
  "Accept_turn peer t =
     (case acceptConnection_turn t of
        (Waiting, t) \<Rightarrow> (Waiting, t)
      | (Returned r, t) \<Rightarrow> (let (result, t) = asWire peer r t in (Returned result, t)))"

definition Channel_by_id :: "tunnel_error option \<Rightarrow> int \<Rightarrow> tunnel \<Rightarrow>
    (tunnel_error + role) option \<times> tunnel" where
  "Channel_by_id peer cid t =
     (case connection_by_id cid t of
        (None, t) \<Rightarrow> (None, t)
      | (Some r, t) \<Rightarrow> (let (result, t) = asWire peer r t in (Some result, t)))"

definition raw_or_conflict :: "nat \<Rightarrow> tunnel \<Rightarrow> (tunnel_error + nat) \<times> tunnel" where
  "raw_or_conflict r t =
     (let (ok, t) = asRaw r t in (if ok then Inr r else Inl presentationError, t))"

definition OpenConnection_finish :: "nat \<Rightarrow> tunnel_error + int \<Rightarrow> tunnel \<Rightarrow> (tunnel_error + nat) \<times> tunnel" where
  "OpenConnection_finish r answer t =
     (case open_finish r answer t of
        (Inl e, t) \<Rightarrow> (Inl e, t)
      | (Inr r, t) \<Rightarrow> raw_or_conflict r t)"

definition AcceptConnection_turn :: "tunnel \<Rightarrow> (tunnel_error + nat) turn \<times> tunnel" where
  "AcceptConnection_turn t =
     (case acceptConnection_turn t of
        (Waiting, t) \<Rightarrow> (Waiting, t)
      | (Returned r, t) \<Rightarrow> (let (result, t) = raw_or_conflict r t in (Returned result, t)))"

definition Connection_by_id :: "int \<Rightarrow> tunnel \<Rightarrow> nat option \<times> tunnel" where
  "Connection_by_id cid t =
     (case connection_by_id cid t of
        (None, t) \<Rightarrow> (None, t)
      | (Some r, t) \<Rightarrow> (let (ok, t) = asRaw r t in (if ok then Some r else None, t)))"

end
