(* ===== verification/Tunnel_Inv.thy ===== *)
theory Tunnel_Inv
  imports Tunnel_Model
begin

text \<open>
  The steps of one side of a tunnel and what they keep: the table, the pending list, the ids and
  the bounds of every connection.
\<close>

section \<open>The invariant\<close>

definition conn_ok :: "int \<Rightarrow> connection \<Rightarrow> bool" where
  "conn_ok window c \<longleftrightarrow>
     0 < ID c \<and> int (length (inbox c)) \<le> window \<and>
     0 \<le> taken c \<and> taken c < max (window div 2) 1 \<and>
     (ended c \<longleftrightarrow> state c \<noteq> None) \<and> \<not> (raw c \<and> channel c \<noteq> None) \<and>
     (opened c \<longrightarrow> announced c) \<and> (ended c \<longrightarrow> announced c)"

definition options_ok :: "options \<Rightarrow> bool" where
  "options_ok o' \<longleftrightarrow> 0 < Window o' \<and> 0 < AcceptCapacity o' \<and> 0 < MaxFrameBytes o'"

definition ids_ok :: "tunnel \<Rightarrow> bool" where
  "ids_ok t \<longleftrightarrow>
     (parity t = 0 \<or> parity t = 1) \<and> ids_next t mod 2 = parity t \<and> 0 < ids_next t \<and>
     (\<forall>r < length (store t). ID (conn t r) mod 2 = parity t \<longrightarrow> ID (conn t r) < ids_next t) \<and>
     (\<forall>r < length (store t). \<forall>s < length (store t).
        ID (conn t r) mod 2 = parity t \<longrightarrow> ID (conn t r) = ID (conn t s) \<longrightarrow> r = s)"

definition table_ok :: "tunnel \<Rightarrow> bool" where
  "table_ok t \<longleftrightarrow>
     (\<forall>cid r. table t cid = Some r \<longrightarrow>
        r < length (store t) \<and> ID (conn t r) = cid)"

definition pending_ok :: "tunnel \<Rightarrow> bool" where
  "pending_ok t \<longleftrightarrow>
     distinct (pending t) \<and> int (length (pending t)) \<le> AcceptCapacity (opts t) \<and>
     (\<forall>r \<in> set (pending t). r < length (store t) \<and> table t (ID (conn t r)) = Some r \<and>
        ID (conn t r) mod 2 \<noteq> parity t)"

definition tunnel_ok :: "tunnel \<Rightarrow> bool" where
  "tunnel_ok t \<longleftrightarrow>
     options_ok (opts t) \<and> ids_ok t \<and> table_ok t \<and> pending_ok t \<and>
     (\<forall>r < length (store t). conn_ok (Window (opts t)) (conn t r))"

text \<open>A channel is open when the table has it and its connection has not ended.\<close>

definition live :: "tunnel \<Rightarrow> int \<Rightarrow> bool" where
  "live t cid \<longleftrightarrow> (\<exists>r. table t cid = Some r \<and> \<not> ended (conn t r))"

section \<open>The primitive updates, field by field\<close>

lemma start_call_simps [simp]:
  "opts (start_call ps t) = opts t" "ids_next (start_call ps t) = ids_next t"
  "parity (start_call ps t) = parity t" "table (start_call ps t) = table t"
  "pending (start_call ps t) = pending t" "store (start_call ps t) = store t"
  "sent (start_call ps t) = sent t" "running (start_call ps t) = running t @ [ps]"
  "conn (start_call ps t) r = conn t r"
  by (simp_all add: start_call_def conn_def)

lemma observe_simps [simp]:
  "opts (observe e t) = opts t" "ids_next (observe e t) = ids_next t" "parity (observe e t) = parity t"
  "table (observe e t) = table t" "pending (observe e t) = pending t" "store (observe e t) = store t"
  "sent (observe e t) = sent t" "conn (observe e t) r = conn t r"
  by (simp_all add: observe_def conn_def)

lemma emit_simps [simp]:
  "opts (emit up m t) = opts t" "ids_next (emit up m t) = ids_next t" "parity (emit up m t) = parity t"
  "table (emit up m t) = table t" "pending (emit up m t) = pending t" "store (emit up m t) = store t"
  "sent (emit up m t) = sent t @ (if up then [m] else [])" "conn (emit up m t) r = conn t r"
  by (simp_all add: emit_def conn_def)

lemma update_conn_simps [simp]:
  "opts (update_conn r f t) = opts t" "ids_next (update_conn r f t) = ids_next t"
  "parity (update_conn r f t) = parity t" "table (update_conn r f t) = table t"
  "pending (update_conn r f t) = pending t" "length (store (update_conn r f t)) = length (store t)"
  "sent (update_conn r f t) = sent t"
  by (simp_all add: update_conn_def)

lemma conn_update_conn [simp]:
  "s < length (store t) \<Longrightarrow> conn (update_conn r f t) s = (if s = r then f (conn t r) else conn t s)"
  by (auto simp: conn_def update_conn_def nth_list_update)

lemma table_update_simps [simp]:
  "conn (t\<lparr>table := T\<rparr>) r = conn t r" "conn (t\<lparr>pending := ps\<rparr>) r = conn t r"
  "conn (t\<lparr>accept_wake := w\<rparr>) r = conn t r" "conn (t\<lparr>running := cs\<rparr>) r = conn t r"
  by (simp_all add: conn_def)

lemma end_conn_simps [simp]:
  "opts (end_conn r code reason f t) = opts t" "ids_next (end_conn r code reason f t) = ids_next t"
  "parity (end_conn r code reason f t) = parity t" "table (end_conn r code reason f t) = table t"
  "pending (end_conn r code reason f t) = pending t"
  "length (store (end_conn r code reason f t)) = length (store t)"
  "sent (end_conn r code reason f t) = sent t"
  by (simp_all add: end_conn_def Let_def)

lemma conn_end_conn [simp]:
  "s < length (store t) \<Longrightarrow> conn (end_conn r code reason f t) s =
    (if s = r \<and> \<not> ended (conn t r) then (f (conn t r))\<lparr>ended := True, announced := True\<rparr> else conn t s)"
  by (simp add: end_conn_def Let_def)

lemma remove_simps [simp]:
  "opts (remove cid t) = opts t" "ids_next (remove cid t) = ids_next t" "parity (remove cid t) = parity t"
  "table (remove cid t) = (table t)(cid := None)" "store (remove cid t) = store t"
  "sent (remove cid t) = sent t" "conn (remove cid t) r = conn t r"
  by (auto simp: remove_def conn_def split: option.split)

lemma pending_remove:
  "pending (remove cid t) = (case table t cid of None \<Rightarrow> pending t | Some r \<Rightarrow> remove1 r (pending t))"
  by (simp add: remove_def split: option.split)

section \<open>Steps that only shrink the table\<close>

lemma state_simps [simp]:
  "state (c\<lparr>credit := n\<rparr>) = state c" "state (c\<lparr>waiting := n\<rparr>) = state c"
  "state (c\<lparr>wake := b\<rparr>) = state c" "state (c\<lparr>taken := n\<rparr>) = state c"
  "state (c\<lparr>inbox := fs\<rparr>) = state c" "state (c\<lparr>raw := b\<rparr>) = state c"
  "state (c\<lparr>channel := ch\<rparr>) = state c" "state (c\<lparr>ended := b\<rparr>) = state c"
  "state (c\<lparr>announced := b\<rparr>) = state c" "state (c\<lparr>opened := b\<rparr>) = state c"
  by (simp_all add: state_def split: option.split)

text \<open>
  Most operations leave the ids alone, forget entries of the table and of the pending list, and
  keep every connection in bounds.
\<close>

definition shrinks :: "tunnel \<Rightarrow> tunnel \<Rightarrow> bool" where
  "shrinks t t' \<longleftrightarrow>
     opts t' = opts t \<and> ids_next t' = ids_next t \<and> parity t' = parity t \<and>
     length (store t') = length (store t) \<and>
     (\<forall>s < length (store t). ID (conn t' s) = ID (conn t s) \<and>
        (conn_ok (Window (opts t)) (conn t s) \<longrightarrow> conn_ok (Window (opts t)) (conn t' s))) \<and>
     table t' \<subseteq>\<^sub>m table t \<and> subseq (pending t') (pending t) \<and>
     (\<forall>r \<in> set (pending t'). \<forall>cid. table t cid = Some r \<longrightarrow> table t' cid = Some r) \<and>
     (\<forall>s < length (store t). ended (conn t s) \<longrightarrow> ended (conn t' s))"

lemma map_le_Some: "m \<subseteq>\<^sub>m m' \<Longrightarrow> m a = Some b \<Longrightarrow> m' a = Some b"
  by (metis domI map_le_def)

lemma shrinks_table: "shrinks t t' \<Longrightarrow> table t' cid = Some r \<Longrightarrow> table t cid = Some r"
  using map_le_Some [of "table t'" "table t" cid r] by (simp add: shrinks_def)

lemma shrinks_conn:
  "shrinks t t' \<Longrightarrow> s < length (store t) \<Longrightarrow> ID (conn t' s) = ID (conn t s)"
  "shrinks t t' \<Longrightarrow> s < length (store t) \<Longrightarrow> conn_ok (Window (opts t)) (conn t s) \<Longrightarrow>
     conn_ok (Window (opts t)) (conn t' s)"
  "shrinks t t' \<Longrightarrow> s < length (store t) \<Longrightarrow> ended (conn t s) \<Longrightarrow> ended (conn t' s)"
  "shrinks t t' \<Longrightarrow> r \<in> set (pending t') \<Longrightarrow> table t cid = Some r \<Longrightarrow> table t' cid = Some r"
  unfolding shrinks_def by blast+

lemma shrinks_pending_set: "shrinks t t' \<Longrightarrow> set (pending t') \<subseteq> set (pending t)"
  unfolding shrinks_def using subseq_set by blast

lemma shrinks_ok:
  assumes "shrinks t t'" "tunnel_ok t"
  shows "tunnel_ok t'"
proof -
  have len: "length (store t') = length (store t)" and ids: "\<forall>s < length (store t). ID (conn t' s) = ID (conn t s)"
    and env: "opts t' = opts t" "ids_next t' = ids_next t" "parity t' = parity t"
    and tab: "table t' \<subseteq>\<^sub>m table t" and sub: "subseq (pending t') (pending t)"
    using assms(1) by (simp_all add: shrinks_def)
  have "ids_ok t'"
    using assms(2) len ids env by (auto simp: tunnel_ok_def ids_ok_def)
  moreover have "table_ok t'"
    unfolding table_ok_def
  proof (intro allI impI)
    fix cid r assume r: "table t' cid = Some r"
    then have "table t cid = Some r" by (rule shrinks_table [OF assms(1)])
    then have "r < length (store t) \<and> ID (conn t r) = cid"
      using assms(2) by (simp add: tunnel_ok_def table_ok_def)
    then show "r < length (store t') \<and> ID (conn t' r) = cid"
      using len ids by simp
  qed
  moreover have "pending_ok t'"
  proof -
    have old: "r < length (store t) \<and> table t (ID (conn t r)) = Some r \<and> ID (conn t r) mod 2 \<noteq> parity t"
      if "r \<in> set (pending t')" for r
      using assms(2) shrinks_pending_set [OF assms(1)] that by (auto simp: tunnel_ok_def pending_ok_def)
    have "table t' (ID (conn t' r)) = Some r" if "r \<in> set (pending t')" for r
      using shrinks_conn(4) [OF assms(1) that] old [OF that] ids by auto
    moreover have "distinct (pending t')" "int (length (pending t')) \<le> AcceptCapacity (opts t)"
      using subseq_distinct_kept [OF sub] assms(2) list_emb_length [OF sub]
      by (auto simp: tunnel_ok_def pending_ok_def)
    ultimately show ?thesis using old len ids env by (simp add: pending_ok_def)
  qed
  moreover have "options_ok (opts t')" using assms(2) env by (simp add: tunnel_ok_def)
  moreover have "\<forall>r < length (store t'). conn_ok (Window (opts t')) (conn t' r)"
    using assms(2) shrinks_conn(2) [OF assms(1)] len env by (simp add: tunnel_ok_def)
  ultimately show ?thesis by (simp add: tunnel_ok_def)
qed

lemma shrinks_refl [simp]: "shrinks t t"
  by (simp add: shrinks_def)

lemma shrinks_trans:
  assumes "shrinks t t'" "shrinks t' t''"
  shows "shrinks t t''"
  unfolding shrinks_def
proof (intro conjI allI impI ballI)
  have len: "length (store t') = length (store t)" and window: "opts t' = opts t"
    using assms(1) by (simp_all add: shrinks_def)
  show "opts t'' = opts t" "ids_next t'' = ids_next t" "parity t'' = parity t"
    "length (store t'') = length (store t)"
    using assms by (simp_all add: shrinks_def)
  show "table t'' \<subseteq>\<^sub>m table t" using assms map_le_trans by (auto simp: shrinks_def)
  show "subseq (pending t'') (pending t)"
    using assms subseq_order.trans by (auto simp: shrinks_def)
  fix s assume s: "s < length (store t)"
  show "ID (conn t'' s) = ID (conn t s)"
    using shrinks_conn(1) [OF assms(1) s] shrinks_conn(1) [OF assms(2), of s] s len by simp
  show "conn_ok (Window (opts t)) (conn t'' s)" if "conn_ok (Window (opts t)) (conn t s)"
    using shrinks_conn(2) [OF assms(1) s that] shrinks_conn(2) [OF assms(2), of s] s len window by simp
  show "ended (conn t'' s)" if "ended (conn t s)"
    using shrinks_conn(3) [OF assms(2) _ shrinks_conn(3) [OF assms(1) s that]] s len by simp
next
  fix r cid assume "r \<in> set (pending t'')" "table t cid = Some r"
  then show "table t'' cid = Some r"
    using shrinks_conn(4) [OF assms(1)] shrinks_conn(4) [OF assms(2)] shrinks_pending_set [OF assms(2)]
    by blast
qed

lemma shrinks_observe [simp]: "shrinks t (observe e t)"
  by (simp add: shrinks_def)

lemma shrinks_emit [simp]: "shrinks t (emit up m t)"
  by (simp add: shrinks_def)

lemma shrinks_pending:
  "subseq ps (pending t) \<Longrightarrow> shrinks t (t\<lparr>pending := ps\<rparr>)"
  by (simp add: shrinks_def)

lemma shrinks_update:
  assumes "\<And>c. ID (f c) = ID c \<and> ended (f c) = ended c"
    and "\<And>c. conn_ok (Window (opts t)) c \<Longrightarrow> c = conn t r \<Longrightarrow> conn_ok (Window (opts t)) (f c)"
  shows "shrinks t (update_conn r f t)"
  using assms by (auto simp: shrinks_def)

lemma subseq_remove1: "subseq (remove1 x xs) xs"
  by (induction xs) auto

lemma shrinks_remove:
  assumes "tunnel_ok t"
  shows "shrinks t (remove cid t)"
proof -
  have "cid' \<noteq> cid" if "r \<in> set (pending (remove cid t))" "table t cid' = Some r" for r cid'
    using that assms
    by (auto simp: pending_remove tunnel_ok_def pending_ok_def split: option.splits)
  moreover have "subseq (pending (remove cid t)) (pending t)"
    by (auto simp: pending_remove subseq_remove1 split: option.split)
  ultimately show ?thesis by (auto simp: shrinks_def map_le_def)
qed

lemma set_end_ok:
  "ID (set_end how code reason c) = ID c"
  "\<not> ended c \<Longrightarrow> conn_ok window c \<Longrightarrow> conn_ok window ((set_end how code reason c)\<lparr>ended := True, announced := True\<rparr>)"
  by (cases how; auto simp: set_end_def conn_ok_def state_def split: option.splits)+

lemma shrinks_end [simp]: "shrinks t (end_conn r code reason (set_end how code' reason') t)"
  by (auto simp: shrinks_def set_end_ok)

lemma shrinks_start_call [simp]: "shrinks t (start_call ps t)" "shrinks t (t\<lparr>running := cs\<rparr>)"
  by (simp_all add: shrinks_def)

lemma shrinks_fail_conn [simp]: "shrinks t (fail_conn r code reason t)"
  unfolding fail_conn_def by (rule shrinks_trans [OF shrinks_end shrinks_start_call(1)])

lemma shrinks_Close [simp]: "shrinks t (Close r code reason t)"
  by (simp add: Close_def Let_def)

lemma shrinks_Abort [simp]: "shrinks t (Abort r t)"
  by (simp add: Abort_def Let_def)

lemma tunnel_ok_running [simp]: "tunnel_ok (t\<lparr>running := cs\<rparr>) \<longleftrightarrow> tunnel_ok t"
  by (simp add: tunnel_ok_def ids_ok_def table_ok_def pending_ok_def)

lemma shrinks_run_part: "tunnel_ok t \<Longrightarrow> shrinks t (run_part up p t)"
  by (cases p) (simp_all add: run_part_def shrinks_remove)

lemma shrinks_continue_call:
  assumes "tunnel_ok t"
  shows "shrinks t (continue_call up k t)"
proof (cases "running t ! k")
  case (Cons p parts)
  have "shrinks (t\<lparr>running := (running t)[k := parts]\<rparr>) (run_part up p (t\<lparr>running := (running t)[k := parts]\<rparr>))"
    using assms by (intro shrinks_run_part) simp
  then show ?thesis using Cons shrinks_trans [OF shrinks_start_call(2)] by (simp add: continue_call_def)
qed (simp add: continue_call_def)

lemma shrinks_live:
  assumes "shrinks t t'" "tunnel_ok t" "live t' cid"
  shows "live t cid"
proof -
  obtain r where r: "table t' cid = Some r" "\<not> ended (conn t' r)" using assms(3) by (auto simp: live_def)
  have t: "table t cid = Some r" by (rule shrinks_table [OF assms(1) r(1)])
  then have "r < length (store t)" using assms(2) by (simp add: tunnel_ok_def table_ok_def)
  then show ?thesis using t r(2) shrinks_conn(3) [OF assms(1)] by (auto simp: live_def)
qed

lemma shrinks_observeOpened [simp]: "shrinks t (observeOpened r opener t)"
proof -
  have "shrinks t (update_conn r (\<lambda>c. c\<lparr>announced := True, opened := True\<rparr>) t)"
    by (intro shrinks_update) (auto simp: conn_ok_def)
  then show ?thesis by (auto simp: observeOpened_def intro: shrinks_trans)
qed

lemma shrinks_observeAccepted [simp]: "shrinks t (observeAccepted r t)"
  by (simp add: observeAccepted_def)

lemma shrinks_grant [simp]: "shrinks t (grant_credit r frames t)"
  unfolding grant_credit_def
  by (intro shrinks_update) (auto simp: conn_ok_def add_credit_def)

lemma shrinks_length: "shrinks t t' \<Longrightarrow> length (store t') = length (store t)"
  by (simp add: shrinks_def)

lemma shrinks_open_finish:
  assumes "open_finish r answer t = (res, t')"
  shows "shrinks t t'"
  using assms shrinks_trans [OF shrinks_grant shrinks_observeOpened]
  by (auto simp: open_finish_def open_failed_def split: sum.splits if_splits)

lemma shrinks_asRaw:
  assumes "asRaw r t = (ok, t')" shows "shrinks t t'"
proof -
  have "shrinks t (update_conn r (\<lambda>c. c\<lparr>raw := True\<rparr>) t)" if "channel (conn t r) = None"
    using that by (intro shrinks_update) (auto simp: conn_ok_def)
  then show ?thesis using assms by (auto simp: asRaw_def split: if_splits)
qed

lemma shrinks_asWire:
  assumes "asWire peer r t = (res, t')"
  shows "shrinks t t'"
proof -
  have "shrinks t (update_conn r (\<lambda>c. c\<lparr>channel := Some role\<rparr>) t)" if "\<not> raw (conn t r)" for role
    using that by (intro shrinks_update) (auto simp: conn_ok_def)
  then show ?thesis
    using assms by (auto simp: asWire_def Let_def split: if_splits option.splits)
qed

lemma shrinks_accept:
  assumes "acceptConnection_turn t = (res, t')"
  shows "shrinks t t'"
proof -
  have "shrinks t (t\<lparr>pending := rest\<rparr>)" if "pending t = r # rest" for r rest
    using that by (intro shrinks_pending) (auto simp: subseq_order.order_refl)
  then show ?thesis
    using assms shrinks_trans [OF shrinks_trans [OF _ shrinks_observeOpened] shrinks_observeAccepted]
    by (auto simp: acceptConnection_turn_def split: list.splits)
qed

lemma shrinks_connection_by_id:
  assumes "connection_by_id cid t = (res, t')"
  shows "shrinks t t'" "\<forall>r. res = Some r \<longrightarrow> table t cid = Some r"
proof -
  have "shrinks t (t\<lparr>pending := remove1 r (pending t)\<rparr>)" for r
    by (intro shrinks_pending subseq_remove1)
  then show "shrinks t t'" "\<forall>r. res = Some r \<longrightarrow> table t cid = Some r"
    using assms shrinks_trans [OF shrinks_trans [OF _ shrinks_observeOpened] shrinks_observeAccepted]
    by (auto simp: connection_by_id_def split: option.splits if_splits)
qed

lemma shrinks_frame_arrived [simp]: "shrinks t (frame_arrived p t)"
proof (cases "table t (pChannel p)")
  case (Some r)
  have "shrinks t (update_conn r (\<lambda>c. c\<lparr>inbox := inbox c @ [f]\<rparr>) t)"
    if "int (length (inbox (conn t r))) < Window (opts t)" for f
    using that by (intro shrinks_update) (auto simp: conn_ok_def)
  then show ?thesis using Some by (simp add: frame_arrived_def Let_def split: option.split)
qed (simp add: frame_arrived_def)

lemma shrinks_onFrame [simp]: "shrinks t (onFrame value t)"
  by (simp add: onFrame_def split: option.split)

lemma shrinks_onCredit: "shrinks t (onCredit payload t)"
  by (auto simp: onCredit_def split: option.split prod.split)

lemma shrinks_onClose [simp]: "shrinks t (onClose payload t)"
  by (auto simp: onClose_def split: option.split prod.split)

lemma shrinks_going_away: "shrinks t (going_away t)"
  by (simp add: going_away_def Let_def shrinks_def conn_def)

lemma shrinks_unstall: "shrinks t (update_conn r (unstall stalled) t)"
  by (intro shrinks_update) (auto simp: unstall_def conn_ok_def)

lemma shrinks_take_turn:
  assumes "take_turn r stalled t = (res, stalled', t')"
  shows "shrinks t t'"
proof -
  have "shrinks t (update_conn r (\<lambda>c. unstall stalled (c\<lparr>credit := credit c - 1\<rparr>)) t)"
    by (intro shrinks_update) (auto simp: unstall_def conn_ok_def)
  moreover have "shrinks t (update_conn r (\<lambda>c. c\<lparr>waiting := waiting c + 1\<rparr>) t)"
    by (intro shrinks_update) (auto simp: conn_ok_def)
  ultimately show ?thesis
    using assms shrinks_unstall shrinks_trans [OF _ shrinks_observe]
    by (auto simp: take_turn_def Let_def split: option.splits if_splits)
qed

lemma shrinks_Send_turn:
  assumes "Send_turn unencoded emission r f stalled t = (res, stalled', t')"
  shows "shrinks t t'"
  using assms shrinks_take_turn shrinks_trans [OF _ shrinks_emit]
  by (auto simp: Send_turn_def split: if_splits prod.splits turn.splits option.splits)

lemma shrinks_took_inbox:
  assumes "inbox (conn t r) = f # rest" "0 < Window (opts t)" "r < length (store t)"
  shows "shrinks t (took up r (update_conn r (\<lambda>c. c\<lparr>inbox := rest\<rparr>) t))"
proof -
  define u where "u = update_conn r (\<lambda>c. (c\<lparr>inbox := rest\<rparr>)\<lparr>taken := taken c + 1\<rparr>) t"
  have u: "update_conn r (\<lambda>c. c\<lparr>taken := taken c + 1\<rparr>) (update_conn r (\<lambda>c. c\<lparr>inbox := rest\<rparr>) t) = u"
    using assms(3) by (simp add: u_def update_conn_def conn_def)
  have all: "update_conn r (\<lambda>c. c\<lparr>taken := 0\<rparr>) u = update_conn r (\<lambda>c. (c\<lparr>inbox := rest\<rparr>)\<lparr>taken := 0\<rparr>) t"
    using assms(3) by (simp add: u_def update_conn_def conn_def)
  have "shrinks t u" if "\<not> max (Window (opts t) div 2) 1 \<le> taken (conn t r) + 1"
    unfolding u_def using assms that by (intro shrinks_update) (auto simp: conn_ok_def)
  moreover have "shrinks t (update_conn r (\<lambda>c. (c\<lparr>inbox := rest\<rparr>)\<lparr>taken := 0\<rparr>) t)"
    using assms by (intro shrinks_update) (auto simp: conn_ok_def)
  moreover have "taken (conn u r) = taken (conn t r) + 1" "opts u = opts t"
    using assms(3) by (simp_all add: u_def)
  ultimately show ?thesis
    using shrinks_trans [OF _ shrinks_emit] by (simp add: took_def Let_def u all)
qed

lemma shrinks_Receive_turn:
  assumes "tunnel_ok t" "r < length (store t)" "Receive_turn up r t = (res, t')"
  shows "shrinks t t'"
  using assms shrinks_took_inbox [of t r _ _ up]
  by (auto simp: Receive_turn_def Let_def tunnel_ok_def options_ok_def split: if_splits list.splits option.splits)

section \<open>The steps of one side\<close>

text \<open>
  What the users of a tunnel and the outer peer's reader may call, in any order.  A connection is
  used by whoever obtained it, so its index is any of the store's.
\<close>

inductive tunnel_step :: "tunnel \<Rightarrow> tunnel \<Rightarrow> bool" where
  step_open_begin: "open_begin family digest t = (res, t') \<Longrightarrow> tunnel_step t t'"
| step_Open_finish: "r < length (store t) \<Longrightarrow> Open_finish peer r answer t = (res1, t') \<Longrightarrow> tunnel_step t t'"
| step_OpenConnection_finish:
    "r < length (store t) \<Longrightarrow> OpenConnection_finish r answer t = (res2, t') \<Longrightarrow> tunnel_step t t'"
| step_Accept: "Accept_turn peer t = (res3, t') \<Longrightarrow> tunnel_step t t'"
| step_AcceptConnection: "AcceptConnection_turn t = (res4, t') \<Longrightarrow> tunnel_step t t'"
| step_Channel: "Channel_by_id peer cid t = (res5, t') \<Longrightarrow> tunnel_step t t'"
| step_Connection: "Connection_by_id cid t = (res6, t') \<Longrightarrow> tunnel_step t t'"
| step_onOpen: "onOpen bad given params t = (res7, t') \<Longrightarrow> tunnel_step t t'"
| step_onFrame: "tunnel_step t (onFrame payload1 t)"
| step_onCredit: "tunnel_step t (onCredit payload2 t)"
| step_onClose: "tunnel_step t (onClose payload3 t)"
| step_going_away: "tunnel_step t (going_away t)"
| step_Send: "r < length (store t) \<Longrightarrow> Send_turn unencoded emission r f stalled t = (res8, stalled', t') \<Longrightarrow> tunnel_step t t'"
| step_cancelled: "r < length (store t) \<Longrightarrow> take_cancelled r stalled reason t = (res9, t') \<Longrightarrow> tunnel_step t t'"
| step_Receive: "r < length (store t) \<Longrightarrow> Receive_turn up r t = (res10, t') \<Longrightarrow> tunnel_step t t'"
| step_Close: "r < length (store t) \<Longrightarrow> tunnel_step t (Close r code reason t)"
| step_Abort: "r < length (store t) \<Longrightarrow> tunnel_step t (Abort r t)"
| step_continue: "k < length (running t) \<Longrightarrow> tunnel_step t (continue_call up k t)"

lemma shrinks_wire_acquired:
  assumes "shrinks t u" "asWire peer r u = (res, t')"
  shows "shrinks t t'"
  using assms shrinks_asWire by (blast intro: shrinks_trans)

lemma shrinks_raw_acquired:
  assumes "shrinks t u" "raw_or_conflict r u = (res, t')"
  shows "shrinks t t'"
  using assms shrinks_asRaw shrinks_trans
  by (fastforce simp: raw_or_conflict_def split: prod.splits)

lemma open_finish_same: "open_finish r answer t = (Inr r', t') \<Longrightarrow> r' = r"
  by (auto simp: open_finish_def Let_def refused_open_def split: sum.splits if_splits)

lemma shrinks_public:
  "Open_finish peer r answer t = (res1, t') \<Longrightarrow> shrinks t t'"
  "OpenConnection_finish r answer t = (res2, t') \<Longrightarrow> shrinks t t'"
  "Accept_turn peer t = (res3, t') \<Longrightarrow> shrinks t t'"
  "AcceptConnection_turn t = (res4, t') \<Longrightarrow> shrinks t t'"
  "Channel_by_id peer cid t = (res5, t') \<Longrightarrow> shrinks t t'"
  "Connection_by_id cid t = (res6, t') \<Longrightarrow> shrinks t t'"
  by (auto simp: Open_finish_def OpenConnection_finish_def Accept_turn_def AcceptConnection_turn_def
      Channel_by_id_def Connection_by_id_def
      split: sum.splits prod.splits turn.splits option.splits
      dest: shrinks_open_finish shrinks_accept shrinks_connection_by_id(1) shrinks_asRaw
      intro: shrinks_wire_acquired shrinks_raw_acquired shrinks_trans)

text \<open>Opening a connection, from either side, adds an entry to the store and the table.\<close>

lemma conn_append:
  "r < length (store t) \<Longrightarrow> store t' = store t @ [c] \<Longrightarrow> conn t' r = conn t r"
  "store t' = store t @ [c] \<Longrightarrow> conn t' (length (store t)) = c"
  by (simp_all add: conn_def nth_append)

lemma newConnection_ok: "0 < cid \<Longrightarrow> 0 < window \<Longrightarrow> conn_ok window (newConnection cid family digest cr)"
  by (simp add: conn_ok_def newConnection_def state_def)

lemma newConnection_simps [simp]:
  "ID (newConnection cid family digest cr) = cid" "ended (newConnection cid family digest cr) = False"
  "credit (newConnection cid family digest cr) = cr" "inbox (newConnection cid family digest cr) = []"
  "taken (newConnection cid family digest cr) = 0"
  by (simp_all add: newConnection_def)

lemma extend_ok:
  assumes ok: "tunnel_ok t" and cid: "0 < cid" "table t cid = None"
    and t': "opts t' = opts t" "parity t' = parity t" "store t' = store t @ [newConnection cid family digest cr]"
      "table t' = (table t)(cid \<mapsto> length (store t))"
    and own: "cid mod 2 = parity t \<Longrightarrow> cid = ids_next t \<and> ids_next t' = ids_next t + 2 \<and> pending t' = pending t"
    and other: "cid mod 2 \<noteq> parity t \<Longrightarrow>
      ids_next t' = ids_next t \<and> pending t' = pending t @ [length (store t)] \<and>
      int (length (pending t)) < AcceptCapacity (opts t)"
  shows "tunnel_ok t'"
proof -
  let ?n = "length (store t)"
  have old: "conn t' r = conn t r" if "r < ?n" for r using that t'(3) by (rule conn_append(1))
  have new: "conn t' ?n = newConnection cid family digest cr" using t'(3) by (rule conn_append(2))
  have len: "r < length (store t') \<longleftrightarrow> r < ?n \<or> r = ?n" for r using t'(3) by auto
  have ids: "ids_ok t" and tab: "table_ok t" and pend: "pending_ok t" and o': "options_ok (opts t)"
    and conns: "\<forall>r < ?n. conn_ok (Window (opts t)) (conn t r)"
    using ok by (simp_all add: tunnel_ok_def)
  have below: "ID (conn t r) < cid" if "cid mod 2 = parity t" "r < ?n" "ID (conn t r) mod 2 = parity t" for r
    using ids own that by (simp add: ids_ok_def)
  have "ids_ok t'"
    unfolding ids_ok_def
  proof (intro conjI allI impI)
    show "parity t' = 0 \<or> parity t' = 1" "ids_next t' mod 2 = parity t'" "0 < ids_next t'"
      using ids own other t'(2) by (cases "cid mod 2 = parity t"; auto simp: ids_ok_def)+
    fix r assume r: "r < length (store t')" "ID (conn t' r) mod 2 = parity t'"
    show "ID (conn t' r) < ids_next t'"
    proof (cases "r = ?n")
      case True
      then show ?thesis using r own t'(2) new by auto
    next
      case False
      then have "ID (conn t r) < ids_next t" using r ids len old t'(2) by (auto simp: ids_ok_def)
      then show ?thesis using False r old len own other by (cases "cid mod 2 = parity t") auto
    qed
    fix s assume s: "s < length (store t')" "ID (conn t' r) = ID (conn t' s)"
    consider "r = ?n" "s = ?n" | "r = ?n" "s < ?n" | "r < ?n" "s = ?n" | "r < ?n" "s < ?n"
      using r s len by blast
    then show "r = s"
    proof cases
      case 2
      then have "cid mod 2 = parity t" "ID (conn t s) = cid" using r s old new t'(2) by simp_all
      then show ?thesis using below [of s] 2(2) by simp
    next
      case 3
      then have "cid mod 2 = parity t" "ID (conn t r) = cid" using r s old new t'(2) by simp_all
      then show ?thesis using below [of r] 3(1) by simp
    next
      case 4
      then show ?thesis using r s ids old t'(2) unfolding ids_ok_def by metis
    qed simp
  qed
  moreover have "table_ok t'"
    using tab len old new t'(4) by (auto simp: table_ok_def)
  moreover have "pending_ok t'"
  proof -
    have keep: "r < ?n \<and> table t' (ID (conn t r)) = Some r \<and> ID (conn t r) mod 2 \<noteq> parity t"
      if "r \<in> set (pending t)" for r
      using pend that t'(4) cid(2) by (auto simp: pending_ok_def)
    then have "?n \<notin> set (pending t)" by blast
    moreover have "ID (conn t r) \<noteq> cid" if "r \<in> set (pending t)" for r
      using pend that cid(2) by (auto simp: pending_ok_def)
    ultimately show ?thesis
      using keep pend own other t' len old new
      by (cases "cid mod 2 = parity t") (auto simp: pending_ok_def)
  qed
  moreover have "\<forall>r < length (store t'). conn_ok (Window (opts t')) (conn t' r)"
    using conns len old new t'(1) newConnection_ok [OF cid(1)] o' by (auto simp: options_ok_def)
  ultimately show ?thesis using o' t'(1) by (simp add: tunnel_ok_def)
qed

lemma tunnel_ok_next: "tunnel_ok t \<Longrightarrow> 0 < ids_next t \<and> ids_next t mod 2 = parity t"
  unfolding tunnel_ok_def ids_ok_def by blast

lemma tunnel_ok_own:
  "tunnel_ok t \<Longrightarrow> r < length (store t) \<Longrightarrow> ID (conn t r) mod 2 = parity t \<Longrightarrow> ID (conn t r) < ids_next t"
  unfolding tunnel_ok_def ids_ok_def by blast

lemma tunnel_ok_table:
  "tunnel_ok t \<Longrightarrow> table t cid = Some r \<Longrightarrow> r < length (store t) \<and> ID (conn t r) = cid"
  unfolding tunnel_ok_def table_ok_def by blast

lemma fresh_id:
  assumes "tunnel_ok t"
  shows "table t (ids_next t) = None"
proof (cases "table t (ids_next t)")
  case (Some r)
  note r = tunnel_ok_table [OF assms Some]
  then have "ID (conn t r) mod 2 = parity t" using tunnel_ok_next [OF assms] by simp
  then show ?thesis using tunnel_ok_own [OF assms, of r] r by simp
qed

lemma open_begin_ok:
  assumes "tunnel_ok t" "open_begin family digest t = (res, t')"
  shows "tunnel_ok t'"
proof -
  have "tunnel_ok (t\<lparr>ids_next := ids_next t + 2, store := store t @ [newConnection (ids_next t) family digest 0],
      table := (table t)(ids_next t \<mapsto> length (store t))\<rparr>)"
  proof (rule extend_ok [OF assms(1) _ fresh_id [OF assms(1)], where family = family and digest = digest and cr = 0])
    show "0 < ids_next t" using tunnel_ok_next [OF assms(1)] by blast
    have own: "ids_next t mod 2 = parity t" using tunnel_ok_next [OF assms(1)] by blast
    let ?t = "t\<lparr>ids_next := ids_next t + 2, store := store t @ [newConnection (ids_next t) family digest 0],
      table := (table t)(ids_next t \<mapsto> length (store t))\<rparr>"
    show "ids_next t = ids_next t \<and> ids_next ?t = ids_next t + 2 \<and> pending ?t = pending t" by simp
    show "ids_next ?t = ids_next t \<and> pending ?t = pending t @ [length (store t)] \<and>
        int (length (pending t)) < AcceptCapacity (opts t)" if "ids_next t mod 2 \<noteq> parity t"
      using own that by contradiction
  qed simp_all
  then show ?thesis
    using assms shrinks_ok [OF shrinks_observe assms(1)]
    by (auto simp: open_begin_def Let_def refused_open_def refuse_def split: if_splits)
qed

lemma admit_ok:
  assumes "tunnel_ok t" "admit params t = (res, t')" "0 < oChannel params"
  shows "tunnel_ok t'"
proof -
  let ?t = "t\<lparr>store := store t @ [newConnection (oChannel params) (oFamily params) (oDigest params) (oWindow params)],
      table := (table t)(oChannel params \<mapsto> length (store t)), pending := pending t @ [length (store t)],
      accept_wake := True\<rparr>"
  have "tunnel_ok ?t"
    if "oChannel params mod 2 \<noteq> parity t" "table t (oChannel params) = None"
      "int (length (pending t)) < AcceptCapacity (opts t)"
    using that assms(1,3)
    by (intro extend_ok [OF assms(1,3), where family = "oFamily params" and digest = "oDigest params" and cr = "oWindow params"])
      simp_all
  then show ?thesis
    using assms by (auto simp: admit_def Let_def split: if_splits)
qed

lemma onOpen_ok:
  assumes "tunnel_ok t" "onOpen bad given params t = (res, t')"
  shows "tunnel_ok t'"
proof -
  obtain a u where a: "admit params t = (a, u)" by fastforce
  have "tunnel_ok u" if "0 < oChannel params" using admit_ok [OF assms(1) a that] .
  then show ?thesis
    using assms a shrinks_ok [OF shrinks_observe] shrinks_ok [OF shrinks_observeOpened]
    by (cases a) (auto simp: onOpen_def Let_def refuse_def split: if_splits)
qed

lemma tunnel_step_ok:
  assumes ok: "tunnel_ok t" and step: "tunnel_step t t'"
  shows "tunnel_ok t'"
proof -
  note kept = shrinks_ok [OF _ ok]
  from step show ?thesis
  proof cases
    case step_open_begin then show ?thesis by (rule open_begin_ok [OF ok])
  next
    case step_Open_finish then show ?thesis by (intro kept shrinks_public(1))
  next
    case step_OpenConnection_finish then show ?thesis by (intro kept shrinks_public(2))
  next
    case step_Accept then show ?thesis by (intro kept shrinks_public(3))
  next
    case step_AcceptConnection then show ?thesis by (intro kept shrinks_public(4))
  next
    case step_Channel then show ?thesis by (intro kept shrinks_public(5))
  next
    case step_Connection then show ?thesis by (intro kept shrinks_public(6))
  next
    case step_onOpen then show ?thesis by (rule onOpen_ok [OF ok])
  next
    case step_Send then show ?thesis by (intro kept shrinks_Send_turn)
  next
    case step_Receive then show ?thesis by (intro kept shrinks_Receive_turn [OF ok])
  next
    case step_cancelled
    then show ?thesis using kept [OF shrinks_unstall] by (auto simp: take_cancelled_def)
  qed (simp_all add: kept ok shrinks_onCredit shrinks_going_away shrinks_continue_call)
qed

definition tunnel_start :: "tunnel \<Rightarrow> bool" where
  "tunnel_start t \<longleftrightarrow> (\<exists>role o'. New role o' = Inr t)"

lemma New_ok:
  assumes "New role o' = Inr t"
  shows "tunnel_ok t"
proof -
  obtain n where n: "options_normalized o' = Inr n" using assms by (auto simp: New_def split: sum.splits)
  have "accepted options_ok (options_normalized o')"
    unfolding options_normalized_def by (intro accepted_if accepted_Inl) (auto simp: options_ok_def)
  then have "options_ok n" using n by simp
  moreover have t: "t = \<lparr>opts = n, ids_next = (if role = ServerRole then 2 else 1),
      parity = (if role = ServerRole then 0 else 1), table = Map.empty, pending = [],
      accept_wake = False, store = [], sent = [], told = [], running = []\<rparr>"
    using assms n by (simp add: New_def)
  ultimately show ?thesis
    by (simp add: tunnel_ok_def ids_ok_def table_ok_def pending_ok_def options_ok_def)
qed

interpretation side: invariant tunnel_start tunnel_step tunnel_ok
  by unfold_locales (auto simp: tunnel_start_def dest: New_ok tunnel_step_ok)

end
