(* ===== verification/Tunnel_Flow.thy ===== *)
theory Tunnel_Flow
  imports Tunnel_Inv
begin

text \<open>
  Two sides of a tunnel over one outer connection, whose peers deliver every message once and in
  order.  For each channel and each direction the credit the sender holds, the frames and credits
  in flight and what the receiver holds add up to at most the receiver's window.
\<close>

section \<open>The system\<close>

text \<open>A request carries what the outer profile correlates its answer by: the opener's own index.\<close>

datatype wire_message =
    Request nat open_params
  | Response nat "tunnel_error + int"
  | Event tunnel_message

record system =
  left :: tunnel
  right :: tunnel
  to_right :: "wire_message list"
  to_left :: "wire_message list"

definition swap :: "system \<Rightarrow> system" where
  "swap s = \<lparr>left = right s, right = left s, to_right = to_left s, to_left = to_right s\<rparr>"

lemma swap_simps [simp]:
  "left (swap s) = right s" "right (swap s) = left s" "to_right (swap s) = to_left s"
  "to_left (swap s) = to_right s" "swap (swap s) = s"
  by (simp_all add: swap_def)

text \<open>
  What the users of a side do, and the calls that end a connection go on with; \<open>lossy\<close> lets an
  emission fail, also by an event that cannot be encoded.
\<close>

inductive user_step :: "bool \<Rightarrow> tunnel \<Rightarrow> tunnel \<Rightarrow> bool" for lossy where
  user_Accept: "Accept_turn peer t = (res, t') \<Longrightarrow> user_step lossy t t'"
| user_AcceptConnection: "AcceptConnection_turn t = (res1, t') \<Longrightarrow> user_step lossy t t'"
| user_Channel: "Channel_by_id peer cid t = (res2, t') \<Longrightarrow> user_step lossy t t'"
| user_Connection: "Connection_by_id cid t = (res3, t') \<Longrightarrow> user_step lossy t t'"
| user_Send: "r < length (store t) \<Longrightarrow>
    emission = None \<and> encodable (frame_event (ID (conn t r)) f) \<or> lossy \<Longrightarrow>
    Send_turn unencoded emission r f stalled t = (res4, stalled', t') \<Longrightarrow> user_step lossy t t'"
| user_cancelled: "r < length (store t) \<Longrightarrow> take_cancelled r stalled reason t = (res5, t') \<Longrightarrow> user_step lossy t t'"
| user_Receive: "r < length (store t) \<Longrightarrow> up \<or> lossy \<Longrightarrow> Receive_turn up r t = (res6, t') \<Longrightarrow> user_step lossy t t'"
| user_Close: "r < length (store t) \<Longrightarrow> user_step lossy t (Close r code reason t)"
| user_Abort: "r < length (store t) \<Longrightarrow> user_step lossy t (Abort r t)"
| user_continue: "k < length (running t) \<Longrightarrow> user_step lossy t (continue_call up k t)"

text \<open>
  What a side does with the next message; \<open>wire\<close> says which presentation the opener asked for.
  An event arrives as what was emitted: that the JSON of a frame is read back as the frame is shown
  apart.
\<close>

definition deliver :: "bool \<Rightarrow> tunnel_error option \<Rightarrow> wire_message \<Rightarrow> tunnel \<Rightarrow> wire_message list \<times> tunnel" where
  "deliver wire peer m t =
     (case m of
        Request r params \<Rightarrow>
          (case onOpen False (oDigest params \<noteq> []) params t of (answer, t) \<Rightarrow> ([Response r answer], t))
      | Response r answer \<Rightarrow>
          ([], if wire then snd (Open_finish peer r answer t) else snd (OpenConnection_finish r answer t))
      | Event (FrameEvent p) \<Rightarrow> ([], frame_arrived p t)
      | Event (CreditEvent cid n) \<Rightarrow> ([], onCredit (Some (cid, n)) t)
      | Event (CloseEvent cid code reason) \<Rightarrow> ([], onClose (Some (cid, code, reason)) t))"

inductive system_step :: "bool \<Rightarrow> system \<Rightarrow> system \<Rightarrow> bool" for lossy where
  system_user: "user_step lossy (left s) t' \<Longrightarrow>
    system_step lossy s (s\<lparr>left := t'\<lparr>sent := []\<rparr>, to_right := to_right s @ map Event (sent t')\<rparr>)"
| system_open: "open_begin family digest (left s) = (Inr (r, params), t') \<Longrightarrow>
    system_step lossy s (s\<lparr>left := t', to_right := to_right s @ [Request r params]\<rparr>)"
| system_deliver: "to_left s = m # rest \<Longrightarrow> deliver wire peer m (left s) = (replies, t') \<Longrightarrow>
    system_step lossy s (s\<lparr>left := t'\<lparr>sent := []\<rparr>, to_left := rest,
      to_right := to_right s @ replies @ map Event (sent t')\<rparr>)"
| system_mirror: "system_step lossy (swap s) s' \<Longrightarrow> system_step lossy s (swap s')"

definition system_start :: "system \<Rightarrow> bool" where
  "system_start s \<longleftrightarrow>
     (\<exists>role role' o1 o2. role \<noteq> role' \<and> New role o1 = Inr (left s) \<and> New role' o2 = Inr (right s) \<and>
        Window (opts (left s)) < 2 ^ 63 \<and> Window (opts (right s)) < 2 ^ 63) \<and>
     to_left s = [] \<and> to_right s = []"

section \<open>Quantities\<close>

definition total :: "(connection \<Rightarrow> int) \<Rightarrow> int \<Rightarrow> tunnel \<Rightarrow> int" where
  "total g cid t = (\<Sum>c \<leftarrow> store t. if ID c = cid then g c else 0)"

definition holds :: "connection \<Rightarrow> int" where
  "holds c = int (length (inbox c)) + taken c"

fun frames_in :: "int \<Rightarrow> wire_message \<Rightarrow> int" where
  "frames_in cid (Event (FrameEvent p)) = (if pChannel p = cid then 1 else 0)"
| "frames_in cid _ = 0"

fun credits_in :: "int \<Rightarrow> wire_message \<Rightarrow> int" where
  "credits_in cid (Event (CreditEvent cid' n)) = (if cid' = cid then n else 0)"
| "credits_in cid _ = 0"

fun grants_in :: "tunnel \<Rightarrow> int \<Rightarrow> wire_message \<Rightarrow> int" where
  "grants_in t cid (Response r (Inr w)) = (if ID (conn t r) = cid then w else 0)"
| "grants_in t cid _ = 0"

definition flow :: "tunnel \<Rightarrow> tunnel \<Rightarrow> wire_message list \<Rightarrow> wire_message list \<Rightarrow> int \<Rightarrow> int" where
  "flow sender receiver out inc cid =
     total credit cid sender + sum_list (map (frames_in cid) out) + total holds cid receiver +
     sum_list (map (credits_in cid) inc) + sum_list (map (grants_in sender cid) inc)"

subsection \<open>How a total changes\<close>

lemma sum_list_update_int:
  "r < length xs \<Longrightarrow> sum_list (xs[r := (y :: int)]) = sum_list xs + y - xs ! r"
  by (induction xs arbitrary: r) (auto split: nat.split)

lemma total_update_conn:
  assumes "r < length (store t)" "\<And>c. ID (f c) = ID c"
  shows "total g cid (update_conn r f t) =
    total g cid t + (if ID (conn t r) = cid then g (f (conn t r)) - g (conn t r) else 0)"
proof -
  let ?h = "\<lambda>c. if ID c = cid then g c else 0"
  have "map ?h ((store t)[r := f (conn t r)]) = (map ?h (store t))[r := ?h (f (conn t r))]"
    by (simp add: map_update)
  then show ?thesis
    using assms by (simp add: total_def update_conn_def sum_list_update_int conn_def)
qed

lemma total_same:
  assumes "length (store t') = length (store t)"
    "\<And>s. s < length (store t) \<Longrightarrow> ID (conn t' s) = ID (conn t s) \<and> g (conn t' s) = g (conn t s)"
  shows "total g cid t' = total g cid t"
proof -
  have "map (\<lambda>c. if ID c = cid then g c else 0) (store t') = map (\<lambda>c. if ID c = cid then g c else 0) (store t)"
    using assms by (intro nth_equalityI) (simp_all add: conn_def)
  then show ?thesis by (simp add: total_def)
qed

lemma total_append:
  "store t' = store t @ [c] \<Longrightarrow> total g cid t' = total g cid t + (if ID c = cid then g c else 0)"
  by (simp add: total_def)

lemma total_nonneg: "\<forall>c \<in> set (store t). 0 \<le> g c \<Longrightarrow> 0 \<le> total g cid t"
  unfolding total_def by (intro sum_list_nonneg) auto

lemma total_member:
  assumes "\<forall>c \<in> set (store t). 0 \<le> g c" "r < length (store t)" "ID (conn t r) = cid"
  shows "g (conn t r) \<le> total g cid t"
proof -
  let ?h = "\<lambda>c. if ID c = cid then g c else 0"
  have "\<forall>x \<in> set (map ?h (store t)). 0 \<le> x" using assms(1) by auto
  moreover have "?h (conn t r) \<in> set (map ?h (store t))"
    using assms(2) unfolding conn_def set_map by (intro imageI nth_mem)
  ultimately have "?h (conn t r) \<le> sum_list (map ?h (store t))" by (intro member_le_sum_list) auto
  then show ?thesis using assms(3) by (simp add: total_def)
qed

lemma total_absent: "(\<forall>r < length (store t). ID (conn t r) \<noteq> cid) \<Longrightarrow> total g cid t = 0"
proof -
  assume "\<forall>r < length (store t). ID (conn t r) \<noteq> cid"
  then have "map (\<lambda>c. if ID c = cid then g c else 0) (store t) = map (\<lambda>c. 0) (store t)"
    unfolding map_eq_conv all_set_conv_all_nth conn_def by simp
  then show ?thesis unfolding total_def by (simp only:) simp
qed

lemma total_env [simp]:
  "total g cid (observe e t) = total g cid t" "total g cid (emit up m t) = total g cid t"
  "total g cid (t\<lparr>sent := ms\<rparr>) = total g cid t" "total g cid (remove i t) = total g cid t"
  "total g cid (t\<lparr>pending := ps\<rparr>) = total g cid t" "total g cid (start_call parts t) = total g cid t"
  by (simp_all add: total_def)

section \<open>Operations that move nothing\<close>

definition still :: "tunnel \<Rightarrow> tunnel \<Rightarrow> bool" where
  "still t t' \<longleftrightarrow>
     length (store t') = length (store t) \<and>
     (\<forall>s < length (store t). ID (conn t' s) = ID (conn t s) \<and> credit (conn t' s) = credit (conn t s) \<and>
        inbox (conn t' s) = inbox (conn t s) \<and> taken (conn t' s) = taken (conn t s)) \<and>
     (\<exists>ms. sent t' = sent t @ ms \<and> (\<forall>m \<in> set ms. \<exists>cid code reason. m = CloseEvent cid code reason))"

lemma still_refl [simp]: "still t t"
  by (simp add: still_def)

lemma still_trans: "still t u \<Longrightarrow> still u v \<Longrightarrow> still t v"
  unfolding still_def by (auto simp: ball_Un)

lemma still_observe [simp]: "still t (observe e t)"
  by (simp add: still_def)

lemma still_emit_close [simp]: "still t (emit up (CloseEvent cid code reason) t)"
  by (auto simp: still_def)

lemma still_remove [simp]: "still t (remove cid t)"
  by (simp add: still_def)

lemma still_pending [simp]: "still t (t\<lparr>pending := ps\<rparr>)"
  by (simp add: still_def)

lemma still_update:
  assumes "\<And>c. ID (f c) = ID c \<and> credit (f c) = credit c \<and> inbox (f c) = inbox c \<and> taken (f c) = taken c"
  shows "still t (update_conn r f t)"
  using assms by (simp add: still_def)

lemma still_end_conn [simp]: "still t (end_conn r code reason (set_end how code' reason') t)"
  by (cases how) (auto simp: still_def set_end_def)

lemma still_start_call [simp]: "still t (start_call parts t)" "still t (t\<lparr>running := cs\<rparr>)"
  by (simp_all add: still_def)

lemma still_fail_conn [simp]: "still t (fail_conn r code reason t)"
  unfolding fail_conn_def by (rule still_trans [OF still_end_conn still_start_call(1)])

lemma still_Close [simp]: "still t (Close r code reason t)" "still t (Abort r t)"
  by (simp_all add: Close_def Abort_def Let_def)

lemma still_continue_call [simp]: "still t (continue_call up k t)"
proof (cases "running t ! k")
  case (Cons p parts)
  have "still u (run_part up p u)" for u by (cases p) (simp_all add: run_part_def)
  then have "still t (run_part up p (t\<lparr>running := (running t)[k := parts]\<rparr>))"
    by (rule still_trans [OF still_start_call(2)])
  then show ?thesis using Cons by (simp add: continue_call_def)
qed (simp add: continue_call_def)

lemma still_observeOpened [simp]: "still t (observeOpened r opener t)"
  unfolding observeOpened_def
  by (auto intro: still_trans [OF still_update still_observe])

lemma still_observeAccepted [simp]: "still t (observeAccepted r t)"
  by (simp add: observeAccepted_def)

lemma still_asRaw: "asRaw r t = (ok, t') \<Longrightarrow> still t t'"
  by (auto simp: asRaw_def split: if_splits intro: still_update)

lemma still_asWire: "asWire peer r t = (res, t') \<Longrightarrow> still t t'"
  by (auto simp: asWire_def Let_def split: if_splits option.splits intro: still_update)

lemma still_raw_or_conflict: "raw_or_conflict r t = (res, t') \<Longrightarrow> still t t'"
  by (auto simp: raw_or_conflict_def split: prod.splits if_splits intro: still_asRaw)

lemma still_accept: "acceptConnection_turn t = (res, t') \<Longrightarrow> still t t'"
  using still_trans [OF still_trans [OF still_pending still_observeOpened] still_observeAccepted]
  by (auto simp: acceptConnection_turn_def split: list.splits)

lemma still_by_id: "connection_by_id cid t = (res, t') \<Longrightarrow> still t t'"
  using still_trans [OF still_trans [OF still_pending still_observeOpened] still_observeAccepted]
  by (auto simp: connection_by_id_def split: option.splits if_splits)

lemma still_onClose [simp]: "still t (onClose payload t)"
  by (auto simp: onClose_def split: option.split prod.split)

lemma still_users:
  "Accept_turn peer t = (res1, t') \<Longrightarrow> still t t'"
  "AcceptConnection_turn t = (res2, t') \<Longrightarrow> still t t'"
  "Channel_by_id peer cid t = (res3, t') \<Longrightarrow> still t t'"
  "Connection_by_id cid t = (res4, t') \<Longrightarrow> still t t'"
  "take_cancelled r stalled reason t = (res5, t') \<Longrightarrow> still t t'"
  by (auto simp: Accept_turn_def AcceptConnection_turn_def Channel_by_id_def Connection_by_id_def
      take_cancelled_def unstall_def split: prod.splits turn.splits option.splits if_splits
      intro: still_trans [OF still_accept still_asWire] still_trans [OF still_accept still_raw_or_conflict]
        still_trans [OF still_by_id still_asWire] still_trans [OF still_by_id still_asRaw]
        still_accept still_by_id still_update)

section \<open>The invariant of the system\<close>

definition ids :: "tunnel \<Rightarrow> int set" where
  "ids t = ID ` set (store t)"

definition bounded :: "bool \<Rightarrow> tunnel \<Rightarrow> tunnel \<Rightarrow> wire_message list \<Rightarrow> wire_message list \<Rightarrow> bool" where
  "bounded lossy sender receiver out inc \<longleftrightarrow>
     (\<forall>cid. flow sender receiver out inc cid \<le> Window (opts receiver) \<and>
        (cid \<notin> ids sender \<or> cid \<notin> ids receiver \<longrightarrow> flow sender receiver out inc cid = 0) \<and>
        (\<not> lossy \<longrightarrow> live sender cid \<longrightarrow> live receiver cid \<longrightarrow>
           flow sender receiver out inc cid = Window (opts receiver)))"

fun requested :: "wire_message \<Rightarrow> int list" where
  "requested (Request r params) = [oChannel params]"
| "requested _ = []"

text \<open>What a side \<open>t\<close> has sent, in \<open>out\<close>, to a side \<open>peer\<close>.\<close>

fun message_ok :: "tunnel \<Rightarrow> tunnel \<Rightarrow> wire_message \<Rightarrow> bool" where
  "message_ok t peer (Request r params) \<longleftrightarrow>
     r < length (store t) \<and> ID (conn t r) = oChannel params \<and> oChannel params mod 2 = parity t \<and>
     oWindow params = Window (opts t) \<and> oChannel params \<notin> ids peer"
| "message_ok t peer (Response r answer) \<longleftrightarrow>
     r < length (store peer) \<and> (\<forall>w. answer = Inr w \<longrightarrow> w = Window (opts t))"
| "message_ok t peer (Event (CreditEvent cid n)) \<longleftrightarrow> 0 < n"
| "message_ok t peer (Event _) \<longleftrightarrow> True"

definition messages_ok :: "tunnel \<Rightarrow> tunnel \<Rightarrow> wire_message list \<Rightarrow> bool" where
  "messages_ok t peer out \<longleftrightarrow>
     (\<forall>m \<in> set out. message_ok t peer m) \<and> distinct (concat (map requested out))"

definition side_ok :: "tunnel \<Rightarrow> tunnel \<Rightarrow> bool" where
  "side_ok t peer \<longleftrightarrow>
     tunnel_ok t \<and> sent t = [] \<and> Window (opts t) < 2 ^ 63 \<and> distinct (map ID (store t)) \<and>
     (\<forall>c \<in> set (store t). 0 \<le> credit c) \<and>
     (\<forall>cid \<in> ids peer. cid mod 2 = parity t \<longrightarrow> cid \<in> ids t)"

definition system_ok :: "bool \<Rightarrow> system \<Rightarrow> bool" where
  "system_ok lossy s \<longleftrightarrow>
     parity (left s) \<noteq> parity (right s) \<and>
     side_ok (left s) (right s) \<and> side_ok (right s) (left s) \<and>
     messages_ok (left s) (right s) (to_right s) \<and> messages_ok (right s) (left s) (to_left s) \<and>
     bounded lossy (left s) (right s) (to_right s) (to_left s) \<and>
     bounded lossy (right s) (left s) (to_left s) (to_right s)"

lemma system_ok_swap: "system_ok lossy (swap s) \<longleftrightarrow> system_ok lossy s"
  by (auto simp: system_ok_def)

lemma message_quantities:
  assumes "message_ok receiver sender m" "0 \<le> Window (opts receiver)"
  shows "0 \<le> credits_in cid m \<and> 0 \<le> grants_in sender cid m"
proof (cases m)
  case (Response r answer)
  then show ?thesis using assms by (cases answer) simp_all
next
  case (Event e)
  then show ?thesis using assms by (cases e) simp_all
qed simp

lemma flow_parts_nonneg:
  assumes "side_ok sender receiver" "side_ok receiver sender" "messages_ok receiver sender inc"
  shows "0 \<le> total credit cid sender" "0 \<le> sum_list (map (frames_in cid) out)"
    "0 \<le> total holds cid receiver" "0 \<le> sum_list (map (credits_in cid) inc)"
    "0 \<le> sum_list (map (grants_in sender cid) inc)"
proof -
  have nonneg: "0 \<le> frames_in cid m" for m
    by (cases "(cid, m)" rule: frames_in.cases) auto
  have "0 \<le> Window (opts receiver)"
    using assms(2) by (simp add: side_ok_def tunnel_ok_def options_ok_def)
  then have "0 \<le> credits_in cid m \<and> 0 \<le> grants_in sender cid m" if "message_ok receiver sender m" for m
    using that message_quantities by blast
  then show "0 \<le> sum_list (map (credits_in cid) inc)" "0 \<le> sum_list (map (grants_in sender cid) inc)"
    using assms(3) by (auto simp: messages_ok_def intro!: sum_list_nonneg)
  show "0 \<le> total credit cid sender" using assms(1) by (intro total_nonneg) (simp add: side_ok_def)
  show "0 \<le> sum_list (map (frames_in cid) out)" using nonneg by (auto intro!: sum_list_nonneg)
  have "0 \<le> holds c" if "c \<in> set (store receiver)" for c
  proof -
    obtain r where "r < length (store receiver)" "c = conn receiver r"
      using \<open>c \<in> set (store receiver)\<close> by (auto simp: in_set_conv_nth conn_def)
    then show ?thesis using assms(2) by (auto simp: side_ok_def tunnel_ok_def conn_ok_def holds_def)
  qed
  then show "0 \<le> total holds cid receiver" by (intro total_nonneg) blast
qed

lemma flow_nonneg:
  "side_ok sender receiver \<Longrightarrow> side_ok receiver sender \<Longrightarrow> messages_ok receiver sender inc \<Longrightarrow>
   0 \<le> flow sender receiver out inc cid"
  unfolding flow_def using flow_parts_nonneg [of sender receiver inc] by (simp add: add_nonneg_nonneg)

text \<open>
  One side moves from \<open>t\<close> to \<open>t'\<close>, consuming a part of what came in and adding to
  what it sent: if neither flow grows, and none shrinks that must be kept, the system stays well.
\<close>

lemma bounded_transfer:
  assumes "bounded lossy sender receiver out inc"
    and "\<And>cid. flow sender' receiver' out' inc' cid \<le> flow sender receiver out inc cid"
    and "\<And>cid. \<not> lossy \<Longrightarrow> live sender' cid \<Longrightarrow> live receiver' cid \<Longrightarrow>
      flow sender' receiver' out' inc' cid = flow sender receiver out inc cid"
    and "\<And>cid. 0 \<le> flow sender' receiver' out' inc' cid"
    and "ids sender' = ids sender" "ids receiver' = ids receiver"
    and "\<And>cid. live sender' cid \<Longrightarrow> live sender cid" "\<And>cid. live receiver' cid \<Longrightarrow> live receiver cid"
    and "opts receiver' = opts receiver"
  shows "bounded lossy sender' receiver' out' inc'"
  unfolding bounded_def
proof (intro allI conjI impI)
  fix cid
  show "flow sender' receiver' out' inc' cid \<le> Window (opts receiver')"
    using assms(1,9) assms(2) [of cid] unfolding bounded_def by (metis order_trans)
  show "flow sender' receiver' out' inc' cid = 0" if "cid \<notin> ids sender' \<or> cid \<notin> ids receiver'"
    using assms(1,5,6) assms(2) [of cid] assms(4) [of cid] that unfolding bounded_def by (metis order_antisym)
  assume lossless: "\<not> lossy" and live: "live sender' cid" "live receiver' cid"
  then have "live sender cid" "live receiver cid" using assms(7,8) by blast+
  then have "flow sender receiver out inc cid = Window (opts receiver)"
    using assms(1) lossless unfolding bounded_def by blast
  then show "flow sender' receiver' out' inc' cid = Window (opts receiver')"
    using assms(3) [OF lossless live] assms(9) by simp
qed

section \<open>What each operation moves\<close>

abbreviation out_of :: "tunnel \<Rightarrow> wire_message list" where
  "out_of t \<equiv> map Event (sent t)"

text \<open>
  \<open>absorbs strict ms t t'\<close>: from the messages \<open>ms\<close> a side with nothing yet sent goes to
  \<open>t'\<close>, and the credit and the frames it then holds or has sent are no more than those it
  had and was given; as many, if \<open>strict\<close>, on every channel that is still open.
\<close>

definition absorbs :: "bool \<Rightarrow> wire_message list \<Rightarrow> tunnel \<Rightarrow> tunnel \<Rightarrow> bool" where
  "absorbs strict ms t t' \<longleftrightarrow>
     length (store t') = length (store t) \<and>
     (\<forall>r < length (store t). ID (conn t' r) = ID (conn t r)) \<and>
     (\<forall>c \<in> set (store t'). 0 \<le> credit c) \<and>
     (\<forall>cid n. CreditEvent cid n \<in> set (sent t') \<longrightarrow> 0 < n) \<and>
     (\<forall>cid.
        total credit cid t' + sum_list (map (frames_in cid) (out_of t')) \<le>
          total credit cid t + sum_list (map (credits_in cid) ms) + sum_list (map (grants_in t cid) ms) \<and>
        total holds cid t' + sum_list (map (credits_in cid) (out_of t')) \<le>
          total holds cid t + sum_list (map (frames_in cid) ms) \<and>
        (strict \<longrightarrow> live t' cid \<longrightarrow>
           total credit cid t' + sum_list (map (frames_in cid) (out_of t')) =
             total credit cid t + sum_list (map (credits_in cid) ms) + sum_list (map (grants_in t cid) ms) \<and>
           total holds cid t' + sum_list (map (credits_in cid) (out_of t')) =
             total holds cid t + sum_list (map (frames_in cid) ms)))"

abbreviation credits_nonneg :: "tunnel \<Rightarrow> bool" where
  "credits_nonneg t \<equiv> (\<forall>c \<in> set (store t). 0 \<le> credit c)"

lemma credits_nonneg_conn: "credits_nonneg t \<longleftrightarrow> (\<forall>r < length (store t). 0 \<le> credit (conn t r))"
  by (simp add: all_set_conv_all_nth conn_def)

lemma still_totals:
  assumes "still t t'"
  shows "total credit cid t' = total credit cid t" "total holds cid t' = total holds cid t"
proof -
  have "length (store t') = length (store t)"
    "\<And>s. s < length (store t) \<Longrightarrow> ID (conn t' s) = ID (conn t s) \<and> credit (conn t' s) = credit (conn t s)"
    "\<And>s. s < length (store t) \<Longrightarrow> ID (conn t' s) = ID (conn t s) \<and> holds (conn t' s) = holds (conn t s)"
    using assms by (simp_all add: still_def holds_def)
  then show "total credit cid t' = total credit cid t" "total holds cid t' = total holds cid t"
    by (intro total_same; simp)+
qed

lemma still_sent:
  assumes "still t t'" "sent t = []"
  shows "sum_list (map (frames_in cid) (out_of t')) = 0" "sum_list (map (credits_in cid) (out_of t')) = 0"
    "CreditEvent cid n \<notin> set (sent t')"
proof -
  have close: "\<exists>cid code reason. m = CloseEvent cid code reason" if "m \<in> set (sent t')" for m
    using assms that by (auto simp: still_def)
  then have "map (frames_in cid) (out_of t') = map (\<lambda>_. 0) (sent t')"
    "map (credits_in cid) (out_of t') = map (\<lambda>_. 0) (sent t')"
    by (auto dest!: close)
  then show "sum_list (map (frames_in cid) (out_of t')) = 0" "sum_list (map (credits_in cid) (out_of t')) = 0"
    by (simp_all only: sum_list_triv)
  show "CreditEvent cid n \<notin> set (sent t')" using close by blast
qed

lemma still_absorbs:
  assumes "still t t'" "sent t = []" "credits_nonneg t"
    and "\<And>cid. 0 \<le> sum_list (map (credits_in cid) ms) \<and> 0 \<le> sum_list (map (grants_in t cid) ms) \<and>
      0 \<le> sum_list (map (frames_in cid) ms)"
    and "\<And>cid. strict \<Longrightarrow> live t' cid \<Longrightarrow>
      sum_list (map (credits_in cid) ms) = 0 \<and> sum_list (map (grants_in t cid) ms) = 0 \<and>
      sum_list (map (frames_in cid) ms) = 0"
  shows "absorbs strict ms t t'"
  using assms(1) assms(3)
  unfolding absorbs_def still_totals [OF assms(1)] still_sent(1,2) [OF assms(1,2)] credits_nonneg_conn
  using still_sent(3) [OF assms(1,2)] assms(4,5) by (auto simp: still_def)

lemma still_absorbs_none:
  "still t t' \<Longrightarrow> sent t = [] \<Longrightarrow> credits_nonneg t \<Longrightarrow> absorbs strict [] t t'"
  by (rule still_absorbs) simp_all

lemma Send_turn_absorbs:
  assumes "Send_turn unencoded emission r f stalled t = (res, stalled', t')" "sent t = []" "credits_nonneg t"
    and "r < length (store t)" "strict \<longrightarrow> emission = None \<and> encodable (frame_event (ID (conn t r)) f)"
  shows "absorbs strict [] t t'"
proof (cases "still t t'")
  case True
  then show ?thesis using assms(2,3) by (rule still_absorbs_none)
next
  case False
  let ?f = "\<lambda>c. unstall stalled (c\<lparr>credit := credit c - 1\<rparr>)"
  let ?u = "update_conn r ?f t"
  define ok where "ok \<longleftrightarrow> emission = None \<and> encodable (frame_event (ID (conn ?u r)) f)"
  have "still t (update_conn r (unstall stalled) t)"
    by (intro still_update) (simp add: unstall_def)
  moreover have "still t (observe e (update_conn r (\<lambda>c. c\<lparr>waiting := waiting c + 1\<rparr>) t))" for e
    by (intro still_trans [OF still_update still_observe]) simp
  ultimately have t': "t' = emit ok (frame_event (ID (conn ?u r)) f) ?u"
    and pos: "0 < credit (conn t r)"
    using assms(1) False
    by (auto simp: ok_def emit_def Send_turn_def take_turn_def Let_def split: if_splits option.splits)
  have f: "ID (?f c) = ID c" "credit (?f c) = credit c - 1" "holds (?f c) = holds c" for c
    by (simp_all add: unstall_def holds_def)
  have id: "ID (conn ?u r) = ID (conn t r)" using assms(4) f by simp
  have weigh: "frames_in cid (Event (frame_event i f)) = (if i = cid then 1 else 0)"
    "credits_in cid (Event (frame_event i f)) = 0" for cid i
    by (simp_all add: frame_event_def)
  have totals: "total credit cid t' = total credit cid t - (if ID (conn t r) = cid then 1 else 0)"
    "total holds cid t' = total holds cid t" for cid
    using assms(4) f by (simp_all add: t' total_update_conn)
  have "sent t' = (if ok then [frame_event (ID (conn t r)) f] else [])"
    using assms(2) id by (simp add: t')
  then have "length (store t') = length (store t)"
    "\<forall>s < length (store t). ID (conn t' s) = ID (conn t s) \<and> 0 \<le> credit (conn t' s)"
    "\<forall>cid n. CreditEvent cid n \<notin> set (sent t')"
    using assms(3) pos f by (auto simp: t' credits_nonneg_conn frame_event_def)
  then show ?thesis
    using assms(2,5) unfolding absorbs_def credits_nonneg_conn totals
    by (auto simp: t' id weigh ok_def)
qed

lemma took_absorbs:
  assumes "inbox (conn t r) = f # rest" "0 < Window (opts t)" "r < length (store t)"
    and "sent t = []" "credits_nonneg t" "0 \<le> taken (conn t r)" "strict \<longrightarrow> up"
    and t': "t' = took up r (update_conn r (\<lambda>c. c\<lparr>inbox := rest\<rparr>) t)"
  shows "absorbs strict [] t t'"
proof -
  define n where "n = taken (conn t r) + 1"
  define full where "full \<longleftrightarrow> max (Window (opts t) div 2) 1 \<le> n"
  define g where "g = (\<lambda>c :: connection. (c\<lparr>inbox := rest\<rparr>)\<lparr>taken := (if full then 0 else n)\<rparr>)"
  have t'_eq: "t' = (if full then emit up (CreditEvent (ID (conn t r)) n) (update_conn r g t) else update_conn r g t)"
    using assms(3) by (auto simp: t' took_def Let_def g_def n_def full_def update_conn_def conn_def)
  have g: "ID (g c) = ID c" "credit (g c) = credit c" for c by (simp_all add: g_def)
  have n: "0 < n" using assms(6) by (simp add: n_def)
  have h: "holds (g (conn t r)) - holds (conn t r) = (if full then - n else 0)"
    using assms(1) by (simp add: g_def holds_def n_def)
  have store': "length (store t') = length (store t)"
    "s < length (store t) \<Longrightarrow> conn t' s = (if s = r then g (conn t r) else conn t s)" for s
    by (simp_all add: t'_eq)
  have totals: "total credit cid t' = total credit cid t"
    "total holds cid t' = total holds cid t - (if full \<and> ID (conn t r) = cid then n else 0)" for cid
    using assms(3) g h by (auto simp: t'_eq total_update_conn)
  have sent': "sent t' = (if full \<and> up then [CreditEvent (ID (conn t r)) n] else [])"
    using assms(4) by (simp add: t'_eq)
  have "\<forall>s < length (store t'). 0 \<le> credit (conn t' s)"
    using assms(5) store' g by (simp add: credits_nonneg_conn)
  then show ?thesis
    using assms(7) n store' g unfolding absorbs_def credits_nonneg_conn totals sent' by auto
qed

lemma Receive_turn_absorbs:
  assumes "Receive_turn up r t = (res, t')" "tunnel_ok t" "r < length (store t)"
    and "sent t = []" "credits_nonneg t" "strict \<longrightarrow> up"
  shows "absorbs strict [] t t'"
proof -
  have "0 < Window (opts t)" "0 \<le> taken (conn t r)"
    using assms(2,3) by (simp_all add: tunnel_ok_def options_ok_def conn_ok_def)
  then have "absorbs strict [] t (took up r (update_conn r (\<lambda>c. c\<lparr>inbox := rest\<rparr>) t))"
    if "inbox (conn t r) = f # rest" for f rest
    using that assms(3-6) took_absorbs by blast
  moreover have "absorbs strict [] t t" using still_absorbs_none [OF still_refl assms(4,5)] .
  ultimately show ?thesis
    using assms(1) by (auto simp: Receive_turn_def Let_def split: if_splits list.splits option.splits)
qed

lemma user_step_absorbs:
  assumes "user_step lossy t t'" "tunnel_ok t" "sent t = []" "credits_nonneg t"
  shows "absorbs (\<not> lossy) [] t t' \<and> shrinks t t'"
proof -
  note quiet = still_absorbs_none [OF _ assms(3,4)]
  from assms(1) show ?thesis
  proof cases
    case user_Accept
    then show ?thesis by (intro conjI quiet still_users(1) shrinks_public(3))
  next
    case user_AcceptConnection
    then show ?thesis by (intro conjI quiet still_users(2) shrinks_public(4))
  next
    case user_Channel
    then show ?thesis by (intro conjI quiet still_users(3) shrinks_public(5))
  next
    case user_Connection
    then show ?thesis by (intro conjI quiet still_users(4) shrinks_public(6))
  next
    case user_cancelled
    then show ?thesis
      using quiet [OF still_users(5)] shrinks_unstall by (auto simp: take_cancelled_def)
  next
    case user_Send
    then show ?thesis using assms(3,4) by (auto intro: Send_turn_absorbs shrinks_Send_turn)
  next
    case user_Receive
    then show ?thesis
      using assms(2-4) by (auto intro: Receive_turn_absorbs shrinks_Receive_turn)
  next
    case user_Close
    then show ?thesis using quiet [OF still_Close(1)] by simp
  next
    case user_Abort
    then show ?thesis using quiet [OF still_Close(2)] by simp
  next
    case user_continue
    then show ?thesis using quiet [OF still_continue_call] shrinks_continue_call [OF assms(2)] by simp
  qed
qed

subsection \<open>Deliveries\<close>

lemma frame_arrived_absorbs:
  assumes ok: "tunnel_ok t" and "sent t = []" "credits_nonneg t"
  shows "absorbs strict [Event (FrameEvent p)] t (frame_arrived p t)"
proof (cases "still t (frame_arrived p t) \<and> \<not> live (frame_arrived p t) (pChannel p)")
  case True
  then show ?thesis
    using assms(2,3) by (intro still_absorbs) auto
next
  case False
  have "\<not> live (fail_conn r code reason t) (pChannel p)" if "table t (pChannel p) = Some r" for r code reason
    using that tunnel_ok_table [OF ok that] by (simp add: fail_conn_def live_def)
  then obtain r f where r: "table t (pChannel p) = Some r"
    and t': "frame_arrived p t = update_conn r (\<lambda>c. c\<lparr>inbox := inbox c @ [f]\<rparr>) t"
    using False by (auto simp: frame_arrived_def Let_def live_def split: option.splits if_splits)
  have "r < length (store t)" "ID (conn t r) = pChannel p" using tunnel_ok_table [OF ok r] by simp_all
  then show ?thesis
    using assms(2,3) unfolding absorbs_def credits_nonneg_conn t'
    by (auto simp: total_update_conn holds_def)
qed

lemma int64_id: "- (2 ^ 63) \<le> n \<Longrightarrow> n < 2 ^ 63 \<Longrightarrow> int64 n = n"
  by (simp add: int64_def)

lemma grant_absorbs:
  assumes "r < length (store t)" "sent t = []" "credits_nonneg t" "0 < n" "credit (conn t r) + n < 2 ^ 63"
    and "\<And>cid. sum_list (map (credits_in cid) ms) + sum_list (map (grants_in t cid) ms) =
      (if ID (conn t r) = cid then n else 0)"
    and "\<And>cid. sum_list (map (frames_in cid) ms) = 0"
  shows "absorbs strict ms t (grant_credit r n t)"
proof -
  have "0 \<le> credit (conn t r)" using assms(1,3) by (simp add: credits_nonneg_conn)
  then have n: "int64 (credit (conn t r) + n) = credit (conn t r) + n"
    using assms(4,5) by (intro int64_id) simp_all
  have "total credit cid (grant_credit r n t) =
      total credit cid t + (sum_list (map (credits_in cid) ms) + sum_list (map (grants_in t cid) ms))" for cid
    using assms(1) n unfolding assms(6) by (simp add: grant_credit_def total_update_conn add_credit_def)
  moreover have "total holds cid (grant_credit r n t) = total holds cid t" for cid
    using assms(1) by (simp add: grant_credit_def total_update_conn add_credit_def holds_def)
  moreover have "\<forall>s < length (store t). 0 \<le> credit (conn (grant_credit r n t) s)"
    using assms(1,3,4) n by (auto simp: grant_credit_def add_credit_def credits_nonneg_conn)
  ultimately show ?thesis
    using assms(2,7) unfolding absorbs_def credits_nonneg_conn
    by (auto simp: grant_credit_def add_credit_def)
qed

lemma onCredit_absorbs:
  assumes ok: "tunnel_ok t" and "sent t = []" "credits_nonneg t" "0 < n"
    and small: "\<And>r. table t cid = Some r \<Longrightarrow> credit (conn t r) + n < 2 ^ 63"
  shows "absorbs strict [Event (CreditEvent cid n)] t (onCredit (Some (cid, n)) t)"
proof (cases "table t cid")
  case None
  then show ?thesis using assms(2-4) by (intro still_absorbs) (auto simp: onCredit_def live_def)
next
  case (Some r)
  note r = tunnel_ok_table [OF ok Some]
  have "absorbs strict [Event (CreditEvent cid n)] t (grant_credit r n t)"
    using r assms(2-4) small [OF Some] by (intro grant_absorbs) auto
  then show ?thesis using Some assms(4) by (simp add: onCredit_def)
qed

lemma onClose_absorbs:
  assumes "sent t = []" "credits_nonneg t"
  shows "absorbs strict [Event (CloseEvent cid code reason)] t (onClose (Some (cid, code, reason)) t)"
  using assms by (intro still_absorbs) simp_all

lemma absorbs_still:
  assumes "absorbs strict ms t u" "still u t'" "\<And>cid. live t' cid \<Longrightarrow> live u cid"
  shows "absorbs strict ms t t'"
proof -
  obtain cs where cs: "sent t' = sent u @ cs" "\<forall>m \<in> set cs. \<exists>cid code reason. m = CloseEvent cid code reason"
    using assms(2) by (auto simp: still_def)
  have "map (frames_in cid) (map Event cs) = map (\<lambda>_. 0) cs" "map (credits_in cid) (map Event cs) = map (\<lambda>_. 0) cs" for cid
    using cs(2) by auto
  then have sums: "sum_list (map (frames_in cid) (out_of t')) = sum_list (map (frames_in cid) (out_of u))"
    "sum_list (map (credits_in cid) (out_of t')) = sum_list (map (credits_in cid) (out_of u))" for cid
    unfolding cs(1) map_append sum_list_append by (simp_all only: sum_list_triv)
  have "\<forall>c \<in> set (store t'). 0 \<le> credit c"
    using assms(1,2) by (simp add: absorbs_def credits_nonneg_conn still_def)
  moreover have "CreditEvent cid n \<in> set (sent t') \<Longrightarrow> CreditEvent cid n \<in> set (sent u)" for cid n
    using cs by auto
  moreover have "length (store t') = length (store t)" "\<forall>r < length (store t). ID (conn t' r) = ID (conn t r)"
    using assms(1,2) by (simp_all add: absorbs_def still_def)
  ultimately show ?thesis
    using assms(1,3) unfolding absorbs_def still_totals [OF assms(2)] sums by blast
qed

lemma still_open_finish_error: "open_finish r answer t = (Inl e, t') \<Longrightarrow> still t t'"
  by (auto simp: open_finish_def open_failed_def Let_def split: sum.splits if_splits)

lemma shrinks_table_le: "shrinks t t' \<Longrightarrow> table t' \<subseteq>\<^sub>m table t"
  by (simp add: shrinks_def)

lemma Response_absorbs:
  assumes ok: "tunnel_ok t" and "sent t = []" "credits_nonneg t" "r < length (store t)"
    and small: "\<And>w. answer = Inr w \<Longrightarrow> 0 < w \<and> credit (conn t r) + w < 2 ^ 63"
    and d: "deliver wire peer (Response r answer) t = (replies, t')"
  shows "absorbs strict [Response r answer] t t'" "shrinks t t'" "replies = []"
proof -
  show replies: "replies = []" using d by (simp add: deliver_def)
  obtain x u where x: "open_finish r answer t = (x, u)" by fastforce
  have t': "t' = (if wire then snd (Open_finish peer r answer t) else snd (OpenConnection_finish r answer t))"
    using d by (simp add: deliver_def)
  have "shrinks t (snd (Open_finish peer r answer t))" "shrinks t (snd (OpenConnection_finish r answer t))"
    using shrinks_public(1,2) by (metis prod.collapse)+
  then show "shrinks t t'" by (simp add: t')
  show "absorbs strict [Response r answer] t t'"
  proof (cases x)
    case (Inl e)
    then have "t' = u" using x t' by (simp add: Open_finish_def OpenConnection_finish_def)
    moreover have "still t u" using x Inl still_open_finish_error by blast
    moreover have "answer \<noteq> Inr w" for w
      using small [of w] x Inl by (auto simp: open_finish_def Let_def)
    then obtain e' where "answer = Inl e'" by (cases answer) auto
    ultimately show ?thesis using assms(2,3) by (intro still_absorbs) simp_all
  next
    case (Inr r')
    then obtain w where w: "answer = Inr w" "r' = r" "u = observeOpened r True (grant_credit r w t)"
      using x by (auto simp: open_finish_def Let_def split: sum.splits if_splits)
    have "absorbs strict [Response r answer] t (grant_credit r w t)"
      using small [OF w(1)] assms(2-4) w(1) by (intro grant_absorbs) auto
    moreover have "tunnel_ok (grant_credit r w t)" by (rule shrinks_ok [OF shrinks_grant ok])
    ultimately have "absorbs strict [Response r answer] t u"
      using w(3) shrinks_live [OF shrinks_observeOpened] by (auto intro: absorbs_still)
    moreover have "still u t' \<and> shrinks u t'"
    proof (cases wire)
      case True
      then obtain y where y: "asWire peer r u = (y, t')"
        using x t' Inr w(2) by (cases "asWire peer r u") (auto simp: Open_finish_def)
      then show ?thesis using still_asWire shrinks_asWire by blast
    next
      case False
      then obtain y where y: "asRaw r u = (y, t')"
        using x t' Inr w(2)
        by (cases "asRaw r u") (auto simp: OpenConnection_finish_def raw_or_conflict_def)
      then show ?thesis using still_asRaw shrinks_asRaw by blast
    qed
    moreover have "tunnel_ok u" by (rule shrinks_ok [OF shrinks_open_finish [OF x] ok])
    ultimately show ?thesis using shrinks_live by (blast intro: absorbs_still)
  qed
qed

section \<open>Preservation\<close>

lemma tunnel_ok_sent [simp]: "tunnel_ok (t\<lparr>sent := ms\<rparr>) \<longleftrightarrow> tunnel_ok t"
  by (simp add: tunnel_ok_def ids_ok_def table_ok_def pending_ok_def conn_def)

lemma conn_sent [simp]: "conn (t\<lparr>sent := ms\<rparr>) r = conn t r"
  by (simp add: conn_def)

lemma ids_same:
  assumes "length (store t') = length (store t)" "\<forall>r < length (store t). ID (conn t' r) = ID (conn t r)"
  shows "map ID (store t') = map ID (store t)"
  using assms by (intro nth_equalityI) (simp_all add: conn_def)

lemma ids_map: "ids t = set (map ID (store t))"
  by (simp add: ids_def)

lemma requested_replies:
  assumes "\<forall>m \<in> set replies. \<exists>r answer. m = Response r answer"
  shows "concat (map requested (replies @ map Event es)) = []"
  using assms by fastforce

lemma message_ok_move:
  assumes "map ID (store t') = map ID (store t)" "parity t' = parity t" "opts t' = opts t"
  shows "message_ok t peer m \<Longrightarrow> message_ok t' peer m" "message_ok peer t m \<Longrightarrow> message_ok peer t' m"
proof -
  have len: "length (store t') = length (store t)" using assms(1) by (metis length_map)
  moreover have "r < length (store t) \<Longrightarrow> ID (conn t' r) = ID (conn t r)" for r
    using assms(1) len by (metis conn_def nth_map)
  moreover have "ids t' = ids t" using assms(1) by (simp only: ids_map)
  ultimately show "message_ok t peer m \<Longrightarrow> message_ok t' peer m" "message_ok peer t m \<Longrightarrow> message_ok peer t' m"
    using assms(2,3) by (cases "(t, peer, m)" rule: message_ok.cases; auto)+
qed

lemma grants_same:
  assumes "map ID (store t') = map ID (store t)" "\<forall>m \<in> set ms. message_ok peer t m"
  shows "map (grants_in t' cid) ms = map (grants_in t cid) ms"
proof -
  have len: "length (store t') = length (store t)" using assms(1) by (metis length_map)
  then have same: "r < length (store t) \<Longrightarrow> ID (conn t' r) = ID (conn t r)" for r
    using assms(1) by (metis conn_def nth_map)
  have "grants_in t' cid m = grants_in t cid m" if "message_ok peer t m" for m
  proof (cases m)
    case (Response r answer)
    then show ?thesis using that same by (cases answer) simp_all
  qed simp_all
  then show ?thesis using assms(2) by simp
qed

lemma grants_in_events [simp]: "sum_list (map (grants_in t cid \<circ> Event) es) = 0"
  by (induction es) simp_all

text \<open>A reply that refuses an open weighs nothing.\<close>

definition refusals :: "tunnel \<Rightarrow> wire_message list \<Rightarrow> bool" where
  "refusals peer replies \<longleftrightarrow> (\<forall>m \<in> set replies. \<exists>r e. m = Response r (Inl e) \<and> r < length (store peer))"

lemma refusals_weigh:
  assumes "refusals peer replies"
  shows "sum_list (map (frames_in cid) replies) = 0" "sum_list (map (credits_in cid) replies) = 0"
    "sum_list (map (grants_in t cid) replies) = 0"
proof -
  have "map (frames_in cid) replies = map (\<lambda>_. 0) replies" "map (credits_in cid) replies = map (\<lambda>_. 0) replies"
    "map (grants_in t cid) replies = map (\<lambda>_. 0) replies"
    using assms by (auto simp: refusals_def)
  then show "sum_list (map (frames_in cid) replies) = 0" "sum_list (map (credits_in cid) replies) = 0"
    "sum_list (map (grants_in t cid) replies) = 0"
    by (simp_all only: sum_list_triv)
qed

lemma absorb_system:
  assumes ok: "system_ok lossy s" and ab: "absorbs (\<not> lossy) ms (left s) t'" and sh: "shrinks (left s) t'"
    and inc: "to_left s = ms @ rest" and rep: "refusals (right s) replies"
  shows "system_ok lossy (s\<lparr>left := t'\<lparr>sent := []\<rparr>, to_left := rest,
    to_right := to_right s @ replies @ out_of t'\<rparr>)"
proof -
  let ?L = "left s" and ?R = "right s" and ?T = "t'\<lparr>sent := []\<rparr>" and ?out = "to_right s @ replies @ out_of t'"
  have sides: "side_ok ?L ?R" "side_ok ?R ?L" and msgs: "messages_ok ?L ?R (to_right s)" "messages_ok ?R ?L (ms @ rest)"
    and bounds: "bounded lossy ?L ?R (to_right s) (ms @ rest)" "bounded lossy ?R ?L (ms @ rest) (to_right s)"
    using ok unfolding system_ok_def inc by blast+
  have ids_eq: "map ID (store ?T) = map ID (store ?L)"
    using ab by (intro ids_same) (simp_all add: absorbs_def)
  have env: "parity ?T = parity ?L" "opts ?T = opts ?L" using sh by (simp_all add: shrinks_def)
  have ids: "ids ?T = ids ?L" using ids_eq by (simp only: ids_map)
  have tab: "live ?T cid \<Longrightarrow> live ?L cid" for cid
    using shrinks_live [OF sh] sides(1) by (simp add: side_ok_def live_def)
  have T: "tunnel_ok ?T" using shrinks_ok [OF sh] sides(1) by (simp add: side_ok_def)
  note move = message_ok_move [OF ids_eq env]
  have sides': "side_ok ?T ?R" "side_ok ?R ?T"
    using sides T ids_eq ids env ab by (simp_all add: side_ok_def absorbs_def)
  have "message_ok ?T ?R m" if "m \<in> set ?out" for m
  proof -
    from that consider "m \<in> set (to_right s)" | "m \<in> set replies" | e where "m = Event e" "e \<in> set (sent t')" by auto
    then show ?thesis
    proof cases
      case 1
      then show ?thesis using msgs(1) by (intro move(1)) (simp add: messages_ok_def)
    next
      case 2
      then show ?thesis using rep by (auto simp: refusals_def)
    next
      case 3
      then show ?thesis using ab by (cases e) (auto simp: absorbs_def)
    qed
  qed
  moreover have "concat (map requested ?out) = concat (map requested (to_right s))"
    using requested_replies [of replies "sent t'"] rep by (fastforce simp: refusals_def)
  ultimately have out': "messages_ok ?T ?R ?out"
    using msgs(1) unfolding messages_ok_def by (simp only:) blast
  have inc': "messages_ok ?R ?T rest" using msgs(2) move(2) by (auto simp: messages_ok_def)
  have "\<forall>m \<in> set rest. message_ok ?R ?L m" using msgs(2) by (simp add: messages_ok_def)
  then have grants: "map (grants_in ?T cid) rest = map (grants_in ?L cid) rest" for cid by (rule grants_same [OF ids_eq])
  note weigh = refusals_weigh [OF rep]
  have le: "total credit cid t' + sum_list (map (frames_in cid) (out_of t')) \<le>
      total credit cid ?L + sum_list (map (credits_in cid) ms) + sum_list (map (grants_in ?L cid) ms)"
    "total holds cid t' + sum_list (map (credits_in cid) (out_of t')) \<le>
      total holds cid ?L + sum_list (map (frames_in cid) ms)" for cid
    using ab unfolding absorbs_def by blast+
  have eq: "total credit cid t' + sum_list (map (frames_in cid) (out_of t')) =
      total credit cid ?L + sum_list (map (credits_in cid) ms) + sum_list (map (grants_in ?L cid) ms)"
    "total holds cid t' + sum_list (map (credits_in cid) (out_of t')) =
      total holds cid ?L + sum_list (map (frames_in cid) ms)" if "\<not> lossy" "live ?T cid" for cid
    using ab that unfolding absorbs_def by (auto simp: live_def)
  have "bounded lossy ?T ?R ?out rest"
  proof (rule bounded_transfer [OF bounds(1)])
    show "flow ?T ?R ?out rest cid \<le> flow ?L ?R (to_right s) (ms @ rest) cid" for cid
      using le(1) [of cid] by (simp add: flow_def grants weigh)
    show "flow ?T ?R ?out rest cid = flow ?L ?R (to_right s) (ms @ rest) cid"
      if "\<not> lossy" "live ?T cid" for cid
      using eq(1) [OF that] by (simp add: flow_def grants weigh)
    show "0 \<le> flow ?T ?R ?out rest cid" for cid by (rule flow_nonneg [OF sides' inc'])
  qed (use ids tab in simp_all)
  moreover have "bounded lossy ?R ?T rest ?out"
  proof (rule bounded_transfer [OF bounds(2)])
    show "flow ?R ?T rest ?out cid \<le> flow ?R ?L (ms @ rest) (to_right s) cid" for cid
      using le(2) [of cid] by (simp add: flow_def weigh)
    show "flow ?R ?T rest ?out cid = flow ?R ?L (ms @ rest) (to_right s) cid"
      if "\<not> lossy" "live ?T cid" for cid
      using eq(2) [OF that] by (simp add: flow_def weigh)
    show "0 \<le> flow ?R ?T rest ?out cid" for cid by (rule flow_nonneg [OF sides'(2,1) out'])
  qed (use ids tab env in simp_all)
  ultimately show ?thesis
    using ok sides' out' inc' env by (simp add: system_ok_def)
qed

subsection \<open>Opening a channel\<close>

lemma table_known:
  assumes "tunnel_ok t" "table t cid \<noteq> None"
  shows "cid \<in> ids t"
proof -
  obtain r where "table t cid = Some r" using assms(2) by auto
  then have "r < length (store t)" "ID (conn t r) = cid" using tunnel_ok_table [OF assms(1)] by auto
  then show ?thesis by (force simp: ids_def conn_def)
qed

lemma live_known: "tunnel_ok t \<Longrightarrow> live t cid \<Longrightarrow> cid \<in> ids t"
  using table_known by (auto simp: live_def)

text \<open>Adding a connection opens no other channel.\<close>

lemma live_added:
  assumes "tunnel_ok t" "store t' = store t @ [c]" "table t' = (table t)(cid \<mapsto> length (store t))"
    and "i \<noteq> cid"
  shows "live t' i \<longleftrightarrow> live t i"
proof -
  have "conn t' r = conn t r" if "table t i = Some r" for r
    using tunnel_ok_table [OF assms(1) that] assms(2) by (simp add: conn_def nth_append)
  then show ?thesis using assms(3,4) by (auto simp: live_def)
qed

lemma id_known: "r < length (store t) \<Longrightarrow> ID (conn t r) \<in> ids t"
  by (simp add: ids_def conn_def)

lemma ids_append: "store t' = store t @ [c] \<Longrightarrow> ids t' = insert (ID c) (ids t)"
  by (auto simp: ids_def)

lemma grants_append:
  assumes "store t' = store t @ [c]" "\<forall>m \<in> set ms. message_ok peer t m"
  shows "map (grants_in t' cid) ms = map (grants_in t cid) ms"
proof -
  have "grants_in t' cid m = grants_in t cid m" if "message_ok peer t m" for m
  proof (cases m)
    case (Response r answer)
    then show ?thesis using that conn_append(1) [OF _ assms(1)] by (cases answer) simp_all
  qed simp_all
  then show ?thesis using assms(2) by simp
qed

lemma message_ok_extend:
  assumes "store t' = store t @ [c]" "parity t' = parity t" "opts t' = opts t"
  shows "message_ok t peer m \<Longrightarrow> message_ok t' peer m"
    and "message_ok peer t m \<Longrightarrow> ID c \<notin> set (requested m) \<Longrightarrow> message_ok peer t' m"
  using assms conn_append(1) [OF _ assms(1)] ids_append [OF assms(1)]
  by (cases "(t, peer, m)" rule: message_ok.cases; auto)+

lemma requested_own:
  assumes "message_ok t peer m" "cid \<in> set (requested m)"
  shows "cid \<in> ids t \<and> cid mod 2 = parity t \<and> cid \<notin> ids peer"
proof (cases m)
  case (Request r params)
  then show ?thesis using assms id_known [of r t] by simp
qed (use assms in simp_all)

lemma open_system:
  assumes ok: "system_ok lossy s" and op: "open_begin family digest (left s) = (Inr (r, params), t')"
  shows "system_ok lossy (s\<lparr>left := t', to_right := to_right s @ [Request r params]\<rparr>)"
proof -
  let ?L = "left s" and ?R = "right s" and ?out = "to_right s @ [Request r params]"
  define cid where "cid = ids_next ?L"
  have t': "t' = ?L\<lparr>ids_next := cid + 2, store := store ?L @ [newConnection cid family digest 0],
      table := (table ?L)(cid \<mapsto> length (store ?L))\<rparr>"
    and r: "r = length (store ?L)" and params: "oChannel params = cid" "oWindow params = Window (opts ?L)"
    using op by (auto simp: open_begin_def Let_def refused_open_def refuse_def cid_def split: if_splits)
  have sides: "side_ok ?L ?R" "side_ok ?R ?L"
    and msgs: "messages_ok ?L ?R (to_right s)" "messages_ok ?R ?L (to_left s)"
    and bounds: "bounded lossy ?L ?R (to_right s) (to_left s)" "bounded lossy ?R ?L (to_left s) (to_right s)"
    and par: "parity ?L \<noteq> parity ?R"
    using ok unfolding system_ok_def by blast+
  have L: "tunnel_ok ?L" using sides(1) by (simp add: side_ok_def)
  have own: "cid mod 2 = parity ?L" "0 < cid" using tunnel_ok_next [OF L] by (simp_all add: cid_def)
  have fresh: "cid \<notin> ids ?L"
    using tunnel_ok_own [OF L] own(1) by (auto simp: ids_def in_set_conv_nth cid_def conn_def) blast
  then have freshR: "cid \<notin> ids ?R" using sides(1) own(1) by (auto simp: side_ok_def)
  let ?c = "newConnection cid family digest 0"
  have store': "store t' = store ?L @ [?c]" and env: "parity t' = parity ?L" "opts t' = opts ?L"
    by (simp_all add: t')
  have ids': "ids t' = insert cid (ids ?L)" using ids_append [OF store'] by simp
  have "tunnel_ok t'" using open_begin_ok [OF L op] .
  moreover have "sent t' = []" using sides(1) by (simp add: t' side_ok_def)
  moreover have "distinct (map ID (store t'))" "credits_nonneg t'"
    using sides(1) fresh by (simp_all add: side_ok_def store' ids_def)
  ultimately have side1: "side_ok t' ?R"
    using sides(1) unfolding side_ok_def env ids' by blast
  have side2: "side_ok ?R t'" using sides(2) own par by (auto simp: side_ok_def ids')
  have noreq: "ID ?c \<notin> set (requested m)" if "message_ok ?R ?L m" for m
    using requested_own [OF that] own par by fastforce
  have out': "messages_ok t' ?R ?out"
  proof -
    have "message_ok t' ?R (Request r params)"
      using conn_append(2) [OF store'] params own freshR by (simp add: r store' env)
    moreover have "message_ok t' ?R m" if "m \<in> set (to_right s)" for m
      using msgs(1) that message_ok_extend(1) [OF store' env] by (simp add: messages_ok_def)
    moreover have "cid \<notin> set (concat (map requested (to_right s)))"
      using msgs(1) requested_own [of ?L ?R] fresh by (fastforce simp: messages_ok_def)
    ultimately show ?thesis using msgs(1) params by (auto simp: messages_ok_def)
  qed
  have inc': "messages_ok ?R t' (to_left s)"
    using msgs(2) message_ok_extend(2) [OF store' env] noreq by (simp add: messages_ok_def)
  have grants: "map (grants_in t' i) (to_left s) = map (grants_in ?L i) (to_left s)" for i
    using msgs(2) by (intro grants_append [OF store', where peer = ?R]) (simp add: messages_ok_def)
  have flows: "flow t' ?R ?out (to_left s) i = flow ?L ?R (to_right s) (to_left s) i"
    "flow ?R t' (to_left s) ?out i = flow ?R ?L (to_left s) (to_right s) i" for i
    by (simp_all add: flow_def grants total_append [OF store'] holds_def)
  have tab': "table t' = (table ?L)(cid \<mapsto> length (store ?L))" by (simp add: t')
  have notR: "\<not> live ?R cid"
    using live_known [of ?R cid] freshR sides(2) unfolding side_ok_def by blast
  have live': "live t' i \<Longrightarrow> live ?R i \<Longrightarrow> live ?L i" for i
    using live_added [OF L store' tab', of i] notR by (cases "i = cid") auto
  have "bounded lossy t' ?R ?out (to_left s)" "bounded lossy ?R t' (to_left s) ?out"
    using bounds live' env(2) unfolding bounded_def flows by (auto simp: ids')
  then show ?thesis
    using side1 side2 out' inc' par env by (simp add: system_ok_def)
qed

lemma observeOpened_weighs:
  assumes "r < length (store t)"
  shows "total credit cid (observeOpened r opener t) = total credit cid t"
    "total holds cid (observeOpened r opener t) = total holds cid t"
    "map ID (store (observeOpened r opener t)) = map ID (store t)"
    "credits_nonneg (observeOpened r opener t) \<longleftrightarrow> credits_nonneg t"
    "sent (observeOpened r opener t) = sent t" "table (observeOpened r opener t) = table t"
    "opts (observeOpened r opener t) = opts t" "parity (observeOpened r opener t) = parity t"
proof -
  have st: "still t (observeOpened r opener t)" by simp
  show "total credit cid (observeOpened r opener t) = total credit cid t"
    "total holds cid (observeOpened r opener t) = total holds cid t"
    by (rule still_totals [OF st])+
  have "length (store (observeOpened r opener t)) = length (store t)"
    "\<forall>s < length (store t). ID (conn (observeOpened r opener t) s) = ID (conn t s)"
    "\<forall>s < length (store t). credit (conn (observeOpened r opener t) s) = credit (conn t s)"
    using st unfolding still_def by blast+
  then show "map ID (store (observeOpened r opener t)) = map ID (store t)"
    "credits_nonneg (observeOpened r opener t) \<longleftrightarrow> credits_nonneg t"
    using ids_same unfolding credits_nonneg_conn by (blast, simp)
qed (simp_all add: observeOpened_def)

lemma observeOpened_live:
  assumes "r < length (store t)"
  shows "live (observeOpened r opener t) cid \<longleftrightarrow> live t cid"
proof -
  have "ended (conn (observeOpened r opener t) q) = ended (conn t q)" for q
    using assms by (cases "q = r") (simp_all add: observeOpened_def update_conn_def conn_def observe_def)
  then show ?thesis using observeOpened_weighs(6) [OF assms] by (simp add: live_def)
qed

lemma admit_Inr:
  assumes "admit params t = (Inr r, u)"
  shows "r = length (store t) \<and>
    u = t\<lparr>store := store t @ [newConnection (oChannel params) (oFamily params) (oDigest params) (oWindow params)],
      table := (table t)(oChannel params \<mapsto> r), pending := pending t @ [r], accept_wake := True\<rparr>"
  using assms unfolding admit_def Let_def
  by (cases "oChannel params mod 2 = parity t"; cases "table t (oChannel params) \<noteq> None";
      cases "AcceptCapacity (opts t) \<le> int (length (pending t))";
      simp only: if_True if_False prod.inject sum.distinct sum.inject simp_thms)

lemma onOpen_Inr:
  assumes "onOpen bad given params t = (Inr w, t')"
  shows "w = Window (opts t) \<and>
    t' = observeOpened (length (store t)) False
      (t\<lparr>store := store t @ [newConnection (oChannel params) (oFamily params) (oDigest params) (oWindow params)],
         table := (table t)(oChannel params \<mapsto> length (store t)), pending := pending t @ [length (store t)],
         accept_wake := True\<rparr>)"
proof -
  let ?bad = "bad \<or> oChannel params \<le> 0 \<or> oFamily params = [] \<or> oWindow params \<le> 0"
  let ?digest = "given \<and> \<not> validDigest (oDigest params)"
  obtain a u where a: "admit params t = (a, u)" by fastforce
  let ?expected = "case map_of (Contracts (opts t)) (oFamily params) of None \<Rightarrow> [] | Some d \<Rightarrow> d"
  let ?differs = "?expected \<noteq> [] \<and> oDigest params \<noteq> [] \<and> oDigest params \<noteq> ?expected"
  have sane: "\<not> ?bad" "\<not> ?digest" "\<not> ?differs"
    using assms unfolding onOpen_def refuse_def Let_def prod.case
    by (rule_tac notI; simp only: if_P if_True if_False if_cancel prod.inject sum.distinct simp_thms split: if_split_asm)+
  have taken: "(Inr w, t') = (case a of
      Inl (code, msg) \<Rightarrow> (Inl (Public_error code msg), observe (OpenRefused (oFamily params) msg) u)
    | Inr r \<Rightarrow> (Inr (Window (opts u)), observeOpened r False u))"
    using assms unfolding onOpen_def refuse_def Let_def a prod.case if_not_P [OF sane(1)]
      if_not_P [OF sane(2)] if_not_P [OF sane(3)]
    by (auto split: sum.splits)
  obtain r where r: "a = Inr r" "w = Window (opts u)" "t' = observeOpened r False u"
    using taken by (cases a) (auto split: prod.splits)
  show ?thesis using admit_Inr [of params t r u] a r by simp
qed

lemma admit_system:
  assumes ok: "system_ok lossy s" and inc: "to_left s = Request r params # rest"
    and op: "onOpen False given params (left s) = (Inr w, t')"
  shows "system_ok lossy (s\<lparr>left := t'\<lparr>sent := []\<rparr>, to_left := rest,
    to_right := to_right s @ [Response r (Inr w)] @ out_of t'\<rparr>)"
proof -
  let ?L = "left s" and ?R = "right s"
  define cid where "cid = oChannel params"
  let ?c = "newConnection cid (oFamily params) (oDigest params) (oWindow params)"
  define u where "u = ?L\<lparr>store := store ?L @ [?c], table := (table ?L)(cid \<mapsto> length (store ?L)),
      pending := pending ?L @ [length (store ?L)], accept_wake := True\<rparr>"
  have sides: "side_ok ?L ?R" "side_ok ?R ?L"
    and msgs: "messages_ok ?L ?R (to_right s)" "messages_ok ?R ?L (Request r params # rest)"
    and bounds: "bounded lossy ?L ?R (to_right s) (Request r params # rest)"
      "bounded lossy ?R ?L (Request r params # rest) (to_right s)"
    and par: "parity ?L \<noteq> parity ?R"
    using ok unfolding system_ok_def inc by blast+
  have t': "t' = observeOpened (length (store ?L)) False u" and w: "w = Window (opts ?L)"
    using onOpen_Inr [OF op] by (auto simp: u_def cid_def)
  have req: "message_ok ?R ?L (Request r params)" using msgs(2) by (simp add: messages_ok_def)
  then have r: "r < length (store ?R)" "ID (conn ?R r) = cid" "oWindow params = Window (opts ?R)"
    "cid \<notin> ids ?L" "cid mod 2 = parity ?R"
    by (simp_all add: cid_def)
  then have known: "cid \<in> ids ?R" using id_known by blast
  have L: "tunnel_ok ?L" and R: "tunnel_ok ?R" using sides by (simp_all add: side_ok_def)
  have windows: "0 < Window (opts ?L)" "0 < Window (opts ?R)"
    using L R by (simp_all add: tunnel_ok_def options_ok_def)
  let ?T = "t'\<lparr>sent := []\<rparr>" and ?out = "to_right s @ [Response r (Inr w)] @ out_of t'"
  have same: "total credit i t' = total credit i u" "total holds i t' = total holds i u"
    "map ID (store t') = map ID (store u)" "credits_nonneg t' \<longleftrightarrow> credits_nonneg u" "sent t' = sent u"
    "table t' = table u" "opts t' = opts u" "parity t' = parity u" for i
    unfolding t' by (rule observeOpened_weighs; simp add: u_def)+
  have u: "store u = store ?L @ [?c]" "parity u = parity ?L" "opts u = opts ?L" "sent u = []"
    using sides(1) by (simp_all add: u_def side_ok_def)
  have ids': "ids t' = insert cid (ids ?L)"
    using ids_append [OF u(1)] same(3) by (simp add: ids_map)
  have out: "?out = to_right s @ [Response r (Inr w)]" using same(5) u(4) by simp
  have side1: "side_ok ?T ?R"
  proof -
    have "tunnel_ok t'" using onOpen_ok [OF L op] .
    moreover have "distinct (map ID (store t'))" "credits_nonneg t'"
      using sides(1) r(3,4) windows(2) by (simp_all add: same u side_ok_def ids_def)
    moreover have "ids ?T = insert cid (ids ?L)" using ids' by (simp add: ids_def)
    ultimately show ?thesis
      using sides(1) by (simp add: side_ok_def same(7,8) u)
  qed
  have side2: "side_ok ?R ?T"
    using sides(2) known ids' by (simp add: side_ok_def ids_def)
  have eq: "map ID (store ?T) = map ID (store u)" "parity ?T = parity u" "opts ?T = opts u"
    using same(3,7,8) by simp_all
  note move = message_ok_move [OF eq] message_ok_extend [OF u(1-3)]
  have out': "messages_ok ?T ?R ?out"
  proof -
    have "message_ok ?T ?R (Response r (Inr w))" using r w same(7) u by simp
    moreover have "message_ok ?T ?R m" if "m \<in> set (to_right s)" for m
      using msgs(1) that move(1,3) by (simp add: messages_ok_def)
    ultimately show ?thesis using msgs(1) unfolding out by (auto simp: messages_ok_def)
  qed
  have inc': "messages_ok ?R ?T rest"
  proof -
    have "message_ok ?R ?T m" if "m \<in> set rest" for m
    proof (intro move(2,4))
      show "message_ok ?R ?L m" using msgs(2) that by (simp add: messages_ok_def)
      show "ID ?c \<notin> set (requested m)" using msgs(2) that by (auto simp: messages_ok_def cid_def)
    qed
    then show ?thesis using msgs(2) by (simp add: messages_ok_def)
  qed
  have rest: "\<forall>m \<in> set rest. message_ok ?R ?L m" using msgs(2) by (simp add: messages_ok_def)
  then have "\<forall>m \<in> set rest. message_ok ?R u m"
    using move(4) msgs(2) by (fastforce simp: messages_ok_def cid_def)
  then have grants: "map (grants_in ?T i) rest = map (grants_in ?L i) rest" for i
    using grants_same [OF eq(1)] grants_append [OF u(1) rest] by simp
  have flows: "flow ?T ?R ?out rest i =
      flow ?L ?R (to_right s) (Request r params # rest) i + (if i = cid then Window (opts ?R) else 0)"
    "flow ?R ?T rest ?out i =
      flow ?R ?L (Request r params # rest) (to_right s) i + (if i = cid then Window (opts ?L) else 0)" for i
    using r w unfolding out
    by (simp_all add: flow_def same(1,2) total_append [OF u(1)] grants holds_def)
  have zero: "flow ?L ?R (to_right s) (Request r params # rest) cid = 0"
    "flow ?R ?L (Request r params # rest) (to_right s) cid = 0"
    using bounds r(4) unfolding bounded_def by blast+
  have tab: "live ?T i \<longleftrightarrow> live ?L i" if "i \<noteq> cid" for i
  proof -
    have "live ?T i \<longleftrightarrow> live t' i" by (simp add: live_def)
    also have "\<dots> \<longleftrightarrow> live u i" unfolding t' by (rule observeOpened_live) (simp add: u_def)
    also have "\<dots> \<longleftrightarrow> live ?L i" by (rule live_added [OF L u(1) _ that]) (simp add: u_def)
    finally show ?thesis .
  qed
  have idT: "ids ?T = insert cid (ids ?L)" using ids' by (simp add: ids_def)
  have "bounded lossy ?T ?R ?out rest"
    unfolding bounded_def
  proof (rule allI)
    fix i
    show "flow ?T ?R ?out rest i \<le> Window (opts ?R) \<and>
        (i \<notin> ids ?T \<or> i \<notin> ids ?R \<longrightarrow> flow ?T ?R ?out rest i = 0) \<and>
        (\<not> lossy \<longrightarrow> live ?T i \<longrightarrow> live ?R i \<longrightarrow> flow ?T ?R ?out rest i = Window (opts ?R))"
    proof (cases "i = cid")
      case True
      then show ?thesis using flows(1) [of cid] zero(1) known idT by simp
    next
      case False
      then have "flow ?T ?R ?out rest i = flow ?L ?R (to_right s) (Request r params # rest) i" using flows(1) by simp
      then show ?thesis using False bounds(1) tab [OF False] idT unfolding bounded_def by (metis insert_iff)
    qed
  qed
  moreover have "bounded lossy ?R ?T rest ?out"
    unfolding bounded_def
  proof (rule allI)
    fix i
    show "flow ?R ?T rest ?out i \<le> Window (opts ?T) \<and>
        (i \<notin> ids ?R \<or> i \<notin> ids ?T \<longrightarrow> flow ?R ?T rest ?out i = 0) \<and>
        (\<not> lossy \<longrightarrow> live ?R i \<longrightarrow> live ?T i \<longrightarrow> flow ?R ?T rest ?out i = Window (opts ?T))"
    proof (cases "i = cid")
      case True
      then show ?thesis using flows(2) [of cid] zero(2) known idT same(7) u by simp
    next
      case False
      then have "flow ?R ?T rest ?out i = flow ?R ?L (Request r params # rest) (to_right s) i" using flows(2) by simp
      moreover have "opts ?T = opts ?L" using same(7) u by simp
      ultimately show ?thesis
        using False bounds(2) tab [OF False] idT unfolding bounded_def by (metis insert_iff)
    qed
  qed
  ultimately show ?thesis
    using side1 side2 out' inc' par same(8) u by (simp add: system_ok_def)
qed

subsection \<open>Every step\<close>

lemma onOpen_Inl:
  assumes "onOpen bad given params t = (Inl e, t')"
  shows "still t t' \<and> shrinks t t'"
proof -
  obtain a u where a: "admit params t = (a, u)" by fastforce
  have refusal: "still t (observe x t) \<and> shrinks t (observe x t)" for x by simp
  show ?thesis
  proof (cases a)
    case (Inl x)
    have "u = t" using a Inl by (auto simp: admit_def Let_def split: if_splits)
    then show ?thesis
      using assms refusal unfolding onOpen_def refuse_def Let_def a Inl
      by (cases x) (auto simp del: still_observe shrinks_observe split: if_splits)
  next
    case (Inr r)
    then show ?thesis
      using assms refusal unfolding onOpen_def refuse_def Let_def a Inr
      by (auto simp del: still_observe shrinks_observe split: if_splits)
  qed
qed

lemma inflow_small:
  assumes sides: "side_ok t peer" "side_ok peer t" and msgs: "messages_ok peer t (m # rest)"
    and bound: "bounded lossy t peer out (m # rest)" and r: "r < length (store t)" "ID (conn t r) = cid"
  shows "credit (conn t r) + credits_in cid m + grants_in t cid m < 2 ^ 63"
proof -
  have rest: "messages_ok peer t rest" using msgs by (simp add: messages_ok_def)
  have "0 \<le> sum_list (map (frames_in cid) out)" by (rule flow_parts_nonneg(2) [OF sides rest])
  note nonneg = this flow_parts_nonneg(1,3,4,5) [OF sides rest, of cid]
  have "credit (conn t r) \<le> total credit cid t"
    using sides(1) r by (intro total_member) (simp_all add: side_ok_def)
  then have "credit (conn t r) + credits_in cid m + grants_in t cid m \<le> flow t peer out (m # rest) cid"
    using nonneg by (simp add: flow_def)
  also have "\<dots> \<le> Window (opts peer)" using bound by (simp add: bounded_def)
  also have "\<dots> < 2 ^ 63" using sides(2) by (simp add: side_ok_def)
  finally show ?thesis .
qed

lemma deliver_system:
  assumes ok: "system_ok lossy s" and inc: "to_left s = m # rest"
    and d: "deliver wire peer m (left s) = (replies, t')"
  shows "system_ok lossy (s\<lparr>left := t'\<lparr>sent := []\<rparr>, to_left := rest,
    to_right := to_right s @ replies @ out_of t'\<rparr>)"
proof -
  let ?L = "left s" and ?R = "right s"
  have sides: "side_ok ?L ?R" "side_ok ?R ?L" and msgs: "messages_ok ?R ?L (m # rest)"
    and bound: "bounded lossy ?L ?R (to_right s) (m # rest)"
    using ok unfolding system_ok_def inc by blast+
  have L: "tunnel_ok ?L" and sent: "sent ?L = []" and nonneg: "credits_nonneg ?L"
    using sides(1) by (simp_all add: side_ok_def)
  have m: "message_ok ?R ?L m" using msgs by (simp add: messages_ok_def)
  have small: "credit (conn ?L r) + credits_in (ID (conn ?L r)) m + grants_in ?L (ID (conn ?L r)) m < 2 ^ 63"
    if "r < length (store ?L)" for r
    using inflow_small [OF sides msgs bound that] by simp
  have none: "refusals ?R []" by (simp add: refusals_def)
  have inc': "to_left s = [m] @ rest" using inc by simp
  show ?thesis
  proof (cases m)
    case (Request r params)
    obtain a u where a: "onOpen False (oDigest params \<noteq> []) params ?L = (a, u)" by fastforce
    then have res: "replies = [Response r a]" "t' = u" using d Request by (simp_all add: deliver_def)
    show ?thesis
    proof (cases a)
      case (Inl e)
      have st: "still ?L t' \<and> shrinks ?L t'" using onOpen_Inl a Inl res(2) by blast
      have "absorbs (\<not> lossy) [m] ?L t'"
        using st sent nonneg Request by (intro still_absorbs) simp_all
      moreover have "refusals ?R replies" using m Request res(1) Inl by (simp add: refusals_def)
      ultimately show ?thesis using st absorb_system [OF ok _ _ inc'] by blast
    next
      case (Inr w)
      then show ?thesis
        using admit_system [OF ok] inc a Request res by simp
    qed
  next
    case (Response r answer)
    have r: "r < length (store ?L)" and w: "\<forall>w. answer = Inr w \<longrightarrow> w = Window (opts ?R)"
      using m Response by simp_all
    have "0 < w \<and> credit (conn ?L r) + w < 2 ^ 63" if "answer = Inr w" for w
      using small [OF r] Response that w sides(2)
      by (auto simp: side_ok_def tunnel_ok_def options_ok_def)
    from Response_absorbs [OF L sent nonneg r this] d Response
    have "absorbs (\<not> lossy) [m] ?L t'" "shrinks ?L t'" "replies = []" by blast+
    then show ?thesis using absorb_system [OF ok _ _ inc' none] by simp
  next
    case (Event e)
    have "replies = [] \<and> absorbs (\<not> lossy) [m] ?L t' \<and> shrinks ?L t'"
    proof (cases e)
      case (FrameEvent p)
      then show ?thesis
        using d Event frame_arrived_absorbs [OF L sent nonneg] by (auto simp: deliver_def)
    next
      case (CreditEvent cid n)
      have "credit (conn ?L r) + n < 2 ^ 63" if "table ?L cid = Some r" for r
        using small [of r] tunnel_ok_table [OF L that] Event CreditEvent by simp
      then show ?thesis
        using d m Event CreditEvent onCredit_absorbs [OF L sent nonneg, of n cid] shrinks_onCredit
        by (auto simp: deliver_def)
    next
      case (CloseEvent cid code reason)
      then show ?thesis
        using d Event onClose_absorbs [OF sent nonneg] by (auto simp: deliver_def)
    qed
    then show ?thesis using absorb_system [OF ok _ _ inc' none] by simp
  qed
qed

lemma user_system:
  assumes ok: "system_ok lossy s" and "user_step lossy (left s) t'"
  shows "system_ok lossy (s\<lparr>left := t'\<lparr>sent := []\<rparr>, to_right := to_right s @ out_of t'\<rparr>)"
proof -
  have "side_ok (left s) (right s)" using ok by (simp add: system_ok_def)
  then have "absorbs (\<not> lossy) [] (left s) t'" "shrinks (left s) t'"
    using user_step_absorbs [OF assms(2)] by (simp_all add: side_ok_def)
  then have "system_ok lossy (s\<lparr>left := t'\<lparr>sent := []\<rparr>, to_left := to_left s,
      to_right := to_right s @ [] @ out_of t'\<rparr>)"
    using ok by (intro absorb_system) (simp_all add: refusals_def)
  then show ?thesis by simp
qed

lemma system_step_ok: "system_step lossy s s' \<Longrightarrow> system_ok lossy s \<Longrightarrow> system_ok lossy s'"
proof (induction rule: system_step.induct)
  case (system_user s t')
  then show ?case by (intro user_system)
next
  case (system_open family digest s r params t')
  then show ?case by (intro open_system)
next
  case (system_deliver s m rest wire peer replies t')
  then show ?case by (intro deliver_system)
next
  case (system_mirror s s')
  then show ?case by (simp add: system_ok_swap)
qed

lemma New_simps:
  assumes "New role o' = Inr t"
  shows "store t = []" "table t = Map.empty" "sent t = []" "parity t = (if role = ServerRole then 0 else 1)"
  using assms by (auto simp: New_def split: sum.splits)

lemma system_start_ok: "system_start s \<Longrightarrow> system_ok lossy s"
proof -
  assume "system_start s"
  then obtain role role' o1 o2 where roles: "role \<noteq> role'"
    and new: "New role o1 = Inr (left s)" "New role' o2 = Inr (right s)"
    and windows: "Window (opts (left s)) < 2 ^ 63" "Window (opts (right s)) < 2 ^ 63"
    and empty: "to_left s = []" "to_right s = []"
    by (auto simp: system_start_def)
  note facts = New_simps [OF new(1)] New_simps [OF new(2)]
  have "parity (left s) \<noteq> parity (right s)" using roles facts by (cases role; cases role') simp_all
  moreover have "0 \<le> Window (opts (left s))" "0 \<le> Window (opts (right s))"
    using New_ok [OF new(1)] New_ok [OF new(2)] by (simp_all add: tunnel_ok_def options_ok_def)
  ultimately show ?thesis
    using New_ok [OF new(1)] New_ok [OF new(2)] windows empty facts
    by (simp add: system_ok_def side_ok_def messages_ok_def bounded_def flow_def total_def ids_def live_def)
qed

interpretation network: invariant system_start "system_step lossy" "system_ok lossy" for lossy
  by unfold_locales (auto intro: system_start_ok system_step_ok)

end
