(* ===== verification/Tunnel_Wake.thy ===== *)
theory Tunnel_Wake
  imports Tunnel_Inv
begin

text \<open>
  The waits of \<open>acceptConnection\<close> and \<open>take\<close>: a caller looks under the lock, and blocks on
  a channel of capacity one when there is nothing; whoever supplies something puts a token in.
  Every look, block, wake, cancellation and supply is a step of its own, with any number of callers
  up to a limit between them.
\<close>

record 's waiters =
  shared :: 's
  looking :: nat
  blocked :: nat

text \<open>\<open>look\<close> is one turn of the loop, and says whether it returns; \<open>drain\<close> takes the token.\<close>

inductive wait_step ::
  "('s \<Rightarrow> bool) \<Rightarrow> ('s \<Rightarrow> bool \<Rightarrow> 's \<Rightarrow> bool) \<Rightarrow> ('s \<Rightarrow> 's) \<Rightarrow> ('s \<Rightarrow> 's \<Rightarrow> bool) \<Rightarrow> ('s \<Rightarrow> 's \<Rightarrow> bool) \<Rightarrow> nat \<Rightarrow>
   's waiters \<Rightarrow> 's waiters \<Rightarrow> bool"
  for token :: "'s \<Rightarrow> bool" and look :: "'s \<Rightarrow> bool \<Rightarrow> 's \<Rightarrow> bool" and drain :: "'s \<Rightarrow> 's"
    and leave :: "'s \<Rightarrow> 's \<Rightarrow> bool" and refill :: "'s \<Rightarrow> 's \<Rightarrow> bool" and limit :: nat where
  wait_call: "looking w + blocked w < limit \<Longrightarrow>
    wait_step token look drain leave refill limit w (w\<lparr>looking := looking w + 1\<rparr>)"
| wait_return: "looking w = Suc n \<Longrightarrow> look (shared w) True s' \<Longrightarrow>
    wait_step token look drain leave refill limit w (w\<lparr>looking := n, shared := s'\<rparr>)"
| wait_block: "looking w = Suc n \<Longrightarrow> look (shared w) False s' \<Longrightarrow>
    wait_step token look drain leave refill limit w (w\<lparr>looking := n, blocked := blocked w + 1, shared := s'\<rparr>)"
| wait_wake: "blocked w = Suc n \<Longrightarrow> token (shared w) \<Longrightarrow>
    wait_step token look drain leave refill limit w
      (w\<lparr>blocked := n, looking := looking w + 1, shared := drain (shared w)\<rparr>)"
| wait_leave: "blocked w = Suc n \<Longrightarrow> leave (shared w) s' \<Longrightarrow>
    wait_step token look drain leave refill limit w (w\<lparr>blocked := n, shared := s'\<rparr>)"
| wait_supply: "refill (shared w) s' \<Longrightarrow>
    wait_step token look drain leave refill limit w (w\<lparr>shared := s'\<rparr>)"

inductive_cases wait_stepE: "wait_step token look drain leave refill limit w w'"

abbreviation no_waiters :: "'s waiters \<Rightarrow> bool" where
  "no_waiters w \<equiv> looking w = 0 \<and> blocked w = 0"

text \<open>At most one caller, and when it is blocked on something available, a token is there.\<close>

definition alone :: "('s \<Rightarrow> bool) \<Rightarrow> ('s \<Rightarrow> bool) \<Rightarrow> 's waiters \<Rightarrow> bool" where
  "alone avail token w \<longleftrightarrow>
     looking w + blocked w \<le> 1 \<and> (blocked w > 0 \<longrightarrow> avail (shared w) \<longrightarrow> token (shared w))"

text \<open>What the protocol needs of the shared state: a supply leaves a token, and a turn only waits
  when nothing is available.\<close>

locale wake_protocol =
  fixes avail :: "'s \<Rightarrow> bool" and token :: "'s \<Rightarrow> bool" and look :: "'s \<Rightarrow> bool \<Rightarrow> 's \<Rightarrow> bool"
    and drain :: "'s \<Rightarrow> 's" and leave :: "'s \<Rightarrow> 's \<Rightarrow> bool" and refill :: "'s \<Rightarrow> 's \<Rightarrow> bool"
  assumes refilled: "refill s s' \<Longrightarrow> token s'"
    and waits_for_more: "look s False s' \<Longrightarrow> \<not> avail s'"
begin

lemma alone_step:
  "alone avail token w \<Longrightarrow> wait_step token look drain leave refill 1 w w' \<Longrightarrow> alone avail token w'"
  by (erule wait_stepE) (auto simp: alone_def refilled waits_for_more)

lemma alone_always:
  "reachable no_waiters (wait_step token look drain leave refill 1) w \<Longrightarrow> alone avail token w"
proof (induction rule: reachable.induct)
  case (reachable_step w w')
  show ?case by (rule alone_step [OF reachable_step.IH reachable_step.hyps(2)])
qed (simp add: alone_def)

lemma never_lost:
  "reachable no_waiters (wait_step token look drain leave refill 1) w \<Longrightarrow>
   blocked w > 0 \<Longrightarrow> avail (shared w) \<Longrightarrow> token (shared w)"
  using alone_always by (auto simp: alone_def)

end

section \<open>Accepting\<close>

definition accept_avail :: "tunnel \<Rightarrow> bool" where
  "accept_avail t \<longleftrightarrow> pending t \<noteq> []"

definition accept_look :: "tunnel \<Rightarrow> bool \<Rightarrow> tunnel \<Rightarrow> bool" where
  "accept_look t returns t' \<longleftrightarrow>
     (case acceptConnection_turn t of
        (Returned r, u) \<Rightarrow> returns \<and> t' = u
      | (Waiting, u) \<Rightarrow> \<not> returns \<and> t' = u)"

definition accept_drain :: "tunnel \<Rightarrow> tunnel" where
  "accept_drain t = t\<lparr>accept_wake := False\<rparr>"

definition accept_leave :: "tunnel \<Rightarrow> tunnel \<Rightarrow> bool" where
  "accept_leave t t' \<longleftrightarrow> t' = t"

definition accept_refill :: "tunnel \<Rightarrow> tunnel \<Rightarrow> bool" where
  "accept_refill t t' \<longleftrightarrow> (\<exists>params r. admit params t = (Inr r, t'))"

abbreviation accept_step :: "nat \<Rightarrow> tunnel waiters \<Rightarrow> tunnel waiters \<Rightarrow> bool" where
  "accept_step \<equiv> wait_step accept_wake accept_look accept_drain accept_leave accept_refill"

interpretation accepting: wake_protocol accept_avail accept_wake accept_look accept_drain accept_leave accept_refill
  by unfold_locales
    (auto simp: accept_refill_def admit_def Let_def accept_look_def accept_avail_def acceptConnection_turn_def
      split: if_splits list.splits)

section \<open>Sending\<close>

definition send_avail :: "nat \<Rightarrow> tunnel \<Rightarrow> bool" where
  "send_avail r t \<longleftrightarrow> r < length (store t) \<and> (state (conn t r) \<noteq> None \<or> credit (conn t r) > 0)"

definition send_token :: "nat \<Rightarrow> tunnel \<Rightarrow> bool" where
  "send_token r t \<longleftrightarrow> wake (conn t r)"

definition send_look :: "nat \<Rightarrow> tunnel \<Rightarrow> bool \<Rightarrow> tunnel \<Rightarrow> bool" where
  "send_look r t returns t' \<longleftrightarrow>
     (\<exists>stalled. case take_turn r stalled t of
        (Returned res, stalled', u) \<Rightarrow> returns \<and> t' = u
      | (Waiting, stalled', u) \<Rightarrow> \<not> returns \<and> t' = u)"

definition send_drain :: "nat \<Rightarrow> tunnel \<Rightarrow> tunnel" where
  "send_drain r = update_conn r (\<lambda>c. c\<lparr>wake := False\<rparr>)"

definition send_leave :: "nat \<Rightarrow> tunnel \<Rightarrow> tunnel \<Rightarrow> bool" where
  "send_leave r t t' \<longleftrightarrow> (\<exists>reason. t' = snd (take_cancelled r True reason t))"

definition send_refill :: "nat \<Rightarrow> tunnel \<Rightarrow> tunnel \<Rightarrow> bool" where
  "send_refill r t t' \<longleftrightarrow> r < length (store t) \<and> (\<exists>n. t' = grant_credit r n t)"

abbreviation send_step :: "nat \<Rightarrow> nat \<Rightarrow> tunnel waiters \<Rightarrow> tunnel waiters \<Rightarrow> bool" where
  "send_step r \<equiv> wait_step (send_token r) (send_look r) (send_drain r) (send_leave r) (send_refill r)"

lemma take_turn_waits:
  "take_turn r stalled t = (Waiting, stalled', t') \<Longrightarrow> \<not> send_avail r t'"
  by (auto simp: take_turn_def send_avail_def Let_def split: if_splits option.splits)

lemma send_look_waits: "send_look r t False t' \<Longrightarrow> \<not> send_avail r t'"
  using take_turn_waits unfolding send_look_def by (fastforce split: prod.splits turn.splits)

interpretation sending: wake_protocol "send_avail r" "send_token r" "send_look r" "send_drain r" "send_leave r" "send_refill r" for r
  by unfold_locales
    (auto simp: send_refill_def send_token_def grant_credit_def add_credit_def send_look_waits)

end
