(* ===== verification/Tunnel_Ends.thy ===== *)
theory Tunnel_Ends
  imports Tunnel_Inv
begin

text \<open>
  How connections end: a call that ends one goes through several critical sections, and other calls
  run between them.  The invariant here is that a connection that has ended while the table still
  has it is one that some call in progress has yet to remove.
\<close>

section \<open>The invariant\<close>

definition removing :: "tunnel \<Rightarrow> int \<Rightarrow> bool" where
  "removing t cid \<longleftrightarrow> (\<exists>parts \<in> set (running t). Removes cid \<in> set parts)"

definition forgets :: "tunnel \<Rightarrow> part list \<Rightarrow> nat \<Rightarrow> bool" where
  "forgets t parts r \<longleftrightarrow> Removes (ID (conn t r)) \<in> set parts \<or> table t (ID (conn t r)) \<noteq> Some r"

definition parts_ok :: "tunnel \<Rightarrow> part list \<Rightarrow> bool" where
  "parts_ok t parts \<longleftrightarrow>
     (\<forall>how r code reason. Ends how r code reason \<in> set parts \<longrightarrow> r < length (store t) \<and> forgets t parts r)"

definition calls_ok :: "tunnel \<Rightarrow> bool" where
  "calls_ok t \<longleftrightarrow>
     (\<forall>cid r. table t cid = Some r \<longrightarrow> ended (conn t r) \<longrightarrow> removing t cid) \<and>
     (\<forall>parts \<in> set (running t). parts_ok t parts)"

section \<open>Operations that may start a call\<close>

definition starts :: "tunnel \<Rightarrow> tunnel \<Rightarrow> bool" where
  "starts t t' \<longleftrightarrow>
     length (store t') = length (store t) \<and> (\<forall>s < length (store t). ID (conn t' s) = ID (conn t s)) \<and>
     table t' \<subseteq>\<^sub>m table t \<and>
     (\<exists>new. running t' = running t @ new \<and> (\<forall>parts \<in> set new. parts_ok t' parts) \<and>
        (\<forall>s < length (store t). ended (conn t' s) \<longrightarrow>
           ended (conn t s) \<or> table t' (ID (conn t s)) \<noteq> Some s \<or>
           (\<exists>parts \<in> set new. Removes (ID (conn t s)) \<in> set parts)))"

lemma parts_ok_kept:
  assumes "parts_ok t parts" "length (store t') = length (store t)"
    and "\<forall>s < length (store t). ID (conn t' s) = ID (conn t s)" "table t' \<subseteq>\<^sub>m table t"
  shows "parts_ok t' parts"
  unfolding parts_ok_def
proof (intro allI impI)
  fix how r code reason assume "Ends how r code reason \<in> set parts"
  then have r: "r < length (store t)" "forgets t parts r" using assms(1) by (auto simp: parts_ok_def)
  then have "ID (conn t' r) = ID (conn t r)" using assms(3) by blast
  moreover have "table t' (ID (conn t r)) = Some r \<Longrightarrow> table t (ID (conn t r)) = Some r"
    by (rule map_le_Some [OF assms(4)])
  ultimately show "r < length (store t') \<and> forgets t' parts r"
    using r assms(2) by (auto simp: forgets_def)
qed

lemma startsI:
  assumes "running t' = running t" "length (store t') = length (store t)"
    and "\<And>s. s < length (store t) \<Longrightarrow> ID (conn t' s) = ID (conn t s) \<and> ended (conn t' s) = ended (conn t s)"
    and "table t' \<subseteq>\<^sub>m table t"
  shows "starts t t'"
  using assms by (auto simp: starts_def)

lemma starts_refl [simp]: "starts t t"
  by (intro startsI) simp_all

lemma starts_trans:
  assumes "starts t u" "starts u v"
  shows "starts t v"
proof -
  obtain a where a: "running u = running t @ a" "\<forall>parts \<in> set a. parts_ok u parts"
    "\<forall>s < length (store t). ended (conn u s) \<longrightarrow> ended (conn t s) \<or> table u (ID (conn t s)) \<noteq> Some s \<or>
       (\<exists>parts \<in> set a. Removes (ID (conn t s)) \<in> set parts)"
    using assms(1) by (auto simp: starts_def)
  obtain b where b: "running v = running u @ b" "\<forall>parts \<in> set b. parts_ok v parts"
    "\<forall>s < length (store u). ended (conn v s) \<longrightarrow> ended (conn u s) \<or> table v (ID (conn u s)) \<noteq> Some s \<or>
       (\<exists>parts \<in> set b. Removes (ID (conn u s)) \<in> set parts)"
    using assms(2) by (auto simp: starts_def)
  have same: "length (store u) = length (store t)" "length (store v) = length (store t)"
    "\<forall>s < length (store t). ID (conn u s) = ID (conn t s)" "\<forall>s < length (store t). ID (conn v s) = ID (conn t s)"
    and tab: "table u \<subseteq>\<^sub>m table t" "table v \<subseteq>\<^sub>m table u"
    using assms by (simp_all add: starts_def)
  have "\<forall>parts \<in> set a. parts_ok v parts"
    using a(2) parts_ok_kept [of u _ v] assms(2) by (auto simp: starts_def)
  moreover have "\<forall>s < length (store t). ended (conn v s) \<longrightarrow> ended (conn t s) \<or> table v (ID (conn t s)) \<noteq> Some s \<or>
      (\<exists>parts \<in> set (a @ b). Removes (ID (conn t s)) \<in> set parts)"
    using a(3) b(3) same(1,3) map_le_Some [OF tab(2)] by (auto simp: Bex_def) metis+
  ultimately show ?thesis
    unfolding starts_def using a(1) b(1,2) same map_le_trans [OF tab(2,1)] by (auto simp: ball_Un)
qed

lemma starts_ok:
  assumes "starts t t'" "tunnel_ok t" "calls_ok t"
  shows "calls_ok t'"
proof -
  obtain new where new: "running t' = running t @ new" "\<forall>parts \<in> set new. parts_ok t' parts"
    "\<forall>s < length (store t). ended (conn t' s) \<longrightarrow> ended (conn t s) \<or> table t' (ID (conn t s)) \<noteq> Some s \<or>
       (\<exists>parts \<in> set new. Removes (ID (conn t s)) \<in> set parts)"
    using assms(1) by (auto simp: starts_def)
  have tab: "table t' \<subseteq>\<^sub>m table t" using assms(1) by (simp add: starts_def)
  have "removing t' cid" if "table t' cid = Some r" "ended (conn t' r)" for cid r
  proof -
    have "table t cid = Some r" by (rule map_le_Some [OF tab that(1)])
    then have "r < length (store t)" "ID (conn t r) = cid" using tunnel_ok_table [OF assms(2)] by blast+
    then have "ended (conn t r) \<or> (\<exists>parts \<in> set new. Removes cid \<in> set parts)" using new(3) that by blast
    moreover have "ended (conn t r) \<Longrightarrow> removing t cid"
      using assms(3) \<open>table t cid = Some r\<close> by (simp add: calls_ok_def)
    ultimately show ?thesis using new(1) by (auto simp: removing_def)
  qed
  moreover have "\<forall>parts \<in> set (running t). parts_ok t' parts"
    using assms(1,3) parts_ok_kept by (auto simp: starts_def calls_ok_def)
  ultimately show ?thesis using new(1,2) by (auto simp: calls_ok_def)
qed

lemma running_simps [simp]:
  "running (observe e t) = running t" "running (emit up m t) = running t"
  "running (update_conn r f t) = running t" "running (end_conn r code reason f t) = running t"
  "running (remove cid t) = running t"
  by (simp_all add: observe_def emit_def update_conn_def end_conn_def remove_def Let_def split: option.split)

lemma starts_observe [simp]: "starts t (observe e t)"
  by (intro startsI) simp_all

lemma starts_emit [simp]: "starts t (emit up m t)"
  by (intro startsI) simp_all

lemma starts_pending [simp]: "starts t (t\<lparr>pending := ps\<rparr>)"
  by (intro startsI) simp_all

lemma starts_update:
  assumes "\<And>c. ID (f c) = ID c \<and> ended (f c) = ended c"
  shows "starts t (update_conn r f t)"
  using assms by (intro startsI) simp_all

lemma starts_call:
  assumes "parts_ok t parts"
  shows "starts t (start_call parts t)"
proof -
  have "parts_ok (start_call parts t) parts" using assms by (intro parts_ok_kept [OF assms]) simp_all
  then show ?thesis by (simp add: starts_def)
qed

lemma starts_fail_conn [simp]: "starts t (fail_conn r code reason t)"
proof -
  have "parts_ok (fail_conn r code reason t) [Removes (ID (conn t r)), Tells (ID (conn t r)) code reason]"
    by (simp add: parts_ok_def)
  then show ?thesis by (auto simp: starts_def fail_conn_def set_end_ok)
qed

lemma starts_Close [simp]: "r < length (store t) \<Longrightarrow> starts t (Close r code reason t)"
  unfolding Close_def Let_def by (intro starts_call) (auto simp: parts_ok_def forgets_def)

lemma starts_Abort [simp]: "r < length (store t) \<Longrightarrow> starts t (Abort r t)"
  unfolding Abort_def Let_def by (intro starts_call) (auto simp: parts_ok_def forgets_def)

lemma starts_observeOpened [simp]: "starts t (observeOpened r opener t)"
  unfolding observeOpened_def by (auto intro: starts_trans [OF starts_update starts_observe])

lemma starts_grant [simp]: "starts t (grant_credit r frames t)"
  unfolding grant_credit_def by (intro starts_update) (simp add: add_credit_def)

lemma starts_asWire:
  "asWire peer r t = (res, t') \<Longrightarrow> r < length (store t) \<Longrightarrow> starts t t'"
  by (auto simp: asWire_def Let_def split: if_splits option.splits intro: starts_update)

lemma starts_asRaw: "asRaw r t = (ok, t') \<Longrightarrow> starts t t'"
  by (auto simp: asRaw_def split: if_splits intro: starts_update)

lemma starts_raw_or_conflict: "raw_or_conflict r t = (res, t') \<Longrightarrow> starts t t'"
  by (auto simp: raw_or_conflict_def split: prod.splits if_splits intro: starts_asRaw)

lemma starts_open_finish:
  "open_finish r answer t = (res, t') \<Longrightarrow> r < length (store t) \<Longrightarrow> starts t t' \<and> (\<forall>r'. res = Inr r' \<longrightarrow> r' = r)"
proof -
  assume "open_finish r answer t = (res, t')" "r < length (store t)"
  moreover have "r < length (store t) \<Longrightarrow> starts t (open_failed r e t)" for e
    unfolding open_failed_def by (intro starts_call) (auto simp: parts_ok_def forgets_def)
  ultimately show ?thesis
    using starts_trans [OF starts_grant starts_observeOpened]
    by (auto simp: open_finish_def Let_def split: sum.splits if_splits)
qed

lemma starts_taken: "starts t (observeAccepted r (observeOpened r opener (t\<lparr>pending := ps\<rparr>)))"
  unfolding observeAccepted_def
  by (rule starts_trans [OF starts_trans [OF starts_pending starts_observeOpened] starts_observe])

lemma starts_accept:
  "acceptConnection_turn t = (res, t') \<Longrightarrow> starts t t' \<and> (\<forall>r. res = Returned r \<longrightarrow> r \<in> set (pending t))"
  by (auto simp: acceptConnection_turn_def starts_taken split: list.splits)

lemma starts_by_id:
  "connection_by_id cid t = (res, t') \<Longrightarrow> starts t t' \<and> (\<forall>r. res = Some r \<longrightarrow> table t cid = Some r)"
  by (auto simp: connection_by_id_def starts_taken split: option.splits if_splits)

lemma starts_length: "starts t u \<Longrightarrow> length (store u) = length (store t)"
  by (simp add: starts_def)

lemma starts_wire_acquired:
  "starts t u \<Longrightarrow> r < length (store t) \<Longrightarrow> asWire peer r u = (res, t') \<Longrightarrow> starts t t'"
  using starts_asWire starts_length starts_trans by metis

lemma in_store:
  "tunnel_ok t \<Longrightarrow> r \<in> set (pending t) \<Longrightarrow> r < length (store t)"
  "tunnel_ok t \<Longrightarrow> table t cid = Some r \<Longrightarrow> r < length (store t)"
  by (simp_all add: tunnel_ok_def pending_ok_def table_ok_def)

lemma starts_public:
  "Open_finish peer r answer t = (res1, t') \<Longrightarrow> r < length (store t) \<Longrightarrow> starts t t'"
  "OpenConnection_finish r answer t = (res2, t') \<Longrightarrow> r < length (store t) \<Longrightarrow> starts t t'"
  "Accept_turn peer t = (res3, t') \<Longrightarrow> tunnel_ok t \<Longrightarrow> starts t t'"
  "AcceptConnection_turn t = (res4, t') \<Longrightarrow> tunnel_ok t \<Longrightarrow> starts t t'"
  "Channel_by_id peer cid t = (res5, t') \<Longrightarrow> tunnel_ok t \<Longrightarrow> starts t t'"
  "Connection_by_id cid t = (res6, t') \<Longrightarrow> tunnel_ok t \<Longrightarrow> starts t t'"
  by (auto simp: Open_finish_def OpenConnection_finish_def Accept_turn_def AcceptConnection_turn_def
      Channel_by_id_def Connection_by_id_def
      split: sum.splits prod.splits turn.splits option.splits
      dest!: starts_open_finish starts_accept starts_by_id
      intro: starts_wire_acquired starts_trans [OF _ starts_raw_or_conflict] starts_trans [OF _ starts_asRaw] in_store)

lemma starts_take_turn: "take_turn r stalled t = (res, stalled', t') \<Longrightarrow> starts t t'"
  by (auto simp: take_turn_def Let_def unstall_def split: if_splits option.splits
      intro!: starts_update starts_trans [OF starts_update starts_observe])

lemma starts_Send_turn: "Send_turn unencoded emission r f stalled t = (res, stalled', t') \<Longrightarrow> starts t t'"
  by (auto simp: Send_turn_def split: if_splits prod.splits turn.splits option.splits
      dest: starts_take_turn intro: starts_trans [OF starts_take_turn starts_emit])

lemma starts_took: "starts t (took up r t)"
proof -
  have "starts t (update_conn r (\<lambda>c. c\<lparr>taken := n\<rparr>) (update_conn r (\<lambda>c. c\<lparr>taken := taken c + 1\<rparr>) t))" for n
    by (rule starts_trans [OF starts_update starts_update]) simp_all
  then show ?thesis
    unfolding took_def Let_def by (auto intro: starts_update starts_trans [OF _ starts_emit])
qed

lemma starts_Receive_turn: "Receive_turn up r t = (res, t') \<Longrightarrow> starts t t'"
  by (auto simp: Receive_turn_def Let_def split: if_splits list.splits option.splits
      intro: starts_trans [OF starts_update starts_took])

lemma starts_arrivals:
  "starts t (onFrame payload1 t)" "starts t (onCredit payload2 t)"
  by (auto simp: onFrame_def frame_arrived_def onCredit_def Let_def split: option.split prod.split intro: starts_update)

lemma starts_onClose:
  assumes "tunnel_ok t"
  shows "starts t (onClose payload t)"
proof -
  have "parts_ok t [Removes cid, Ends Remotely r code reason]" if "table t cid = Some r" for cid r code reason
    using tunnel_ok_table [OF assms that] by (auto simp: parts_ok_def forgets_def)
  then show ?thesis by (auto simp: onClose_def split: option.split prod.split intro: starts_call)
qed

lemma starts_going_away: "starts t (going_away t)"
  by (auto simp: starts_def going_away_def Let_def parts_ok_def forgets_def conn_def)

section \<open>The other steps\<close>

text \<open>A connection that is added is open, and no call in progress ends it.\<close>

lemma added_ok:
  assumes "tunnel_ok t" "calls_ok t" "running t' = running t"
    and "store t' = store t @ [c]" "\<not> ended c" "table t' = (table t)(cid \<mapsto> length (store t))"
  shows "calls_ok t'"
proof -
  have old: "s < length (store t) \<Longrightarrow> conn t' s = conn t s" for s
    using assms(4) by (simp add: conn_def nth_append)
  have new: "conn t' (length (store t)) = c" using assms(4) by (simp add: conn_def)
  have "removing t' i" if "table t' i = Some r" "ended (conn t' r)" for i r
  proof (cases "i = cid")
    case True
    then show ?thesis using that new assms(5,6) by simp
  next
    case False
    then have r: "table t i = Some r" using that assms(6) by simp
    then have "ended (conn t r)" using that(2) old in_store(2) [OF assms(1)] by simp
    then show ?thesis using r assms(2,3) by (simp add: calls_ok_def removing_def)
  qed
  moreover have "parts_ok t' parts" if "parts \<in> set (running t)" for parts
  proof -
    have "forgets t' parts r" if "forgets t parts r" "r < length (store t)" for r
      using that old [OF that(2)] assms(6) by (auto simp: forgets_def)
    moreover have "parts_ok t parts" using assms(2) that by (simp add: calls_ok_def)
    ultimately show ?thesis using assms(4) by (auto simp: parts_ok_def less_SucI)
  qed
  ultimately show ?thesis using assms(3) by (simp add: calls_ok_def)
qed

lemma open_begin_calls:
  assumes "tunnel_ok t" "calls_ok t" "open_begin family digest t = (res, t')"
  shows "calls_ok t'"
proof -
  have refused: "calls_ok (observe e t)" for e by (rule starts_ok [OF starts_observe assms(1,2)])
  have "calls_ok (t\<lparr>ids_next := ids_next t + 2, store := store t @ [newConnection (ids_next t) family digest 0],
      table := (table t)(ids_next t \<mapsto> length (store t))\<rparr>)"
    by (rule added_ok [OF assms(1,2), where c = "newConnection (ids_next t) family digest 0"]) simp_all
  then show ?thesis
    using assms(3) refused by (auto simp: open_begin_def Let_def refused_open_def refuse_def split: if_splits)
qed

lemma onOpen_calls:
  assumes "tunnel_ok t" "calls_ok t" "onOpen bad given params t = (res, t')"
  shows "calls_ok t'"
proof -
  have refused: "calls_ok (observe e t)" for e by (rule starts_ok [OF starts_observe assms(1,2)])
  obtain a u where a: "admit params t = (a, u)" by fastforce
  have "calls_ok u \<and> tunnel_ok u" if "a = Inr r" "0 < oChannel params" for r
    using a that admit_ok [OF assms(1) a that(2)]
    by (auto simp: admit_def Let_def split: if_splits intro: added_ok [OF assms(1,2)])
  moreover have "u = t" if "a = Inl e" for e
    using a that by (auto simp: admit_def Let_def split: if_splits)
  ultimately show ?thesis
    using assms(3) a refused starts_ok [OF starts_observeOpened]
    by (cases a) (auto simp: onOpen_def Let_def refuse_def split: if_splits)
qed

lemma continue_calls:
  assumes ok: "tunnel_ok t" "calls_ok t" and k: "k < length (running t)"
  shows "calls_ok (continue_call up k t)"
proof (cases "running t ! k")
  case Nil
  then show ?thesis using ok by (simp add: continue_call_def)
next
  case (Cons p parts)
  define u where "u = t\<lparr>running := (running t)[k := parts]\<rparr>"
  have t': "continue_call up k t = run_part up p u" using Cons by (simp add: continue_call_def u_def)
  have u: "table u = table t" "store u = store t" "conn u = conn t" by (simp_all add: u_def conn_def fun_eq_iff)
  have head: "parts_ok t (p # parts)" using ok(2) k Cons nth_mem by (fastforce simp: calls_ok_def)
  have other: "parts_ok t ps" if "ps \<in> set (running u)" "ps \<noteq> parts" for ps
    using that ok(2) set_update_subset_insert [of "running t" k parts] by (auto simp: u_def calls_ok_def)
  have still: "removing u cid" if "removing t cid" "p \<noteq> Removes cid" for cid
  proof -
    obtain ps where ps: "ps \<in> set (running t)" "Removes cid \<in> set ps" using \<open>removing t cid\<close> by (auto simp: removing_def)
    then obtain j where j: "j < length (running t)" "running t ! j = ps" by (auto simp: in_set_conv_nth)
    have "(running u) ! j \<in> set (running u)" using j(1) by (simp add: u_def)
    moreover have "Removes cid \<in> set (running u ! j)"
      using j k ps(2) Cons that(2) by (cases "j = k") (auto simp: u_def)
    ultimately show ?thesis by (auto simp: removing_def)
  qed
  have entry: "removing t cid" if "table t cid = Some r" "ended (conn t r)" for cid r
    using ok(2) that by (simp add: calls_ok_def)
  have running': "running (run_part up p u) = running u" by (cases p) (simp_all add: run_part_def)
  show ?thesis
  proof (cases p)
    case (Ends how r code reason)
    let ?t = "end_conn r code reason (set_end how code reason) u"
    have conns: "ID (conn ?t s) = ID (conn t s)" "ended (conn ?t s) \<longleftrightarrow> ended (conn t s) \<or> s = r"
      if "s < length (store t)" for s
      using that by (auto simp: u set_end_ok)
    have r: "r < length (store t)" "forgets t (p # parts) r" using head Ends by (auto simp: parts_ok_def)
    have "removing u cid" if "table t cid = Some s" "ended (conn ?t s)" for cid s
    proof (cases "s = r")
      case True
      then have "Removes cid \<in> set parts"
        using r(2) that(1) tunnel_ok_table [OF ok(1) that(1)] Ends by (auto simp: forgets_def)
      then show ?thesis using k by (auto simp: removing_def u_def set_update_memI)
    next
      case False
      then have "ended (conn t s)" using that conns(2) in_store(2) [OF ok(1) that(1)] by blast
      then show ?thesis using still entry [OF that(1)] Ends by simp
    qed
    moreover have "parts_ok ?t ps" if "ps \<in> set (running u)" for ps
    proof -
      have "parts_ok t parts" using head Ends by (auto simp: parts_ok_def forgets_def)
      then have "parts_ok t ps" using other [OF that] by blast
      then show ?thesis by (rule parts_ok_kept) (use conns in \<open>simp_all add: u\<close>)
    qed
    ultimately show ?thesis
      unfolding t' using Ends by (simp add: run_part_def calls_ok_def u removing_def)
  next
    case (Removes cid)
    have "removing u i" if "((table t)(cid := None)) i = Some s" "ended (conn t s)" for i s
      using that still entry [of i s] Removes by (auto split: if_splits)
    moreover have "parts_ok (remove cid u) ps" if "ps \<in> set (running u)" for ps
    proof (cases "ps = parts")
      case True
      then show ?thesis using head Removes by (auto simp: parts_ok_def forgets_def u)
    next
      case False
      show ?thesis by (rule parts_ok_kept [OF other [OF that False]]) (auto simp: u map_le_def)
    qed
    ultimately show ?thesis
      unfolding t' using Removes by (auto simp: run_part_def calls_ok_def u removing_def)
  next
    case (Tells cid code reason)
    then have "parts_ok t ps" if "ps \<in> set (running u)" for ps
      using head other [OF that] by (cases "ps = parts") (auto simp: parts_ok_def forgets_def)
    moreover have "removing u i" if "table t i = Some s" "ended (conn t s)" for i s
      using that still entry Tells by simp
    ultimately show ?thesis
      unfolding t' using Tells by (simp add: run_part_def calls_ok_def u removing_def parts_ok_def forgets_def)
  next
    case (Observes e)
    then have "parts_ok t ps" if "ps \<in> set (running u)" for ps
      using head other [OF that] by (cases "ps = parts") (auto simp: parts_ok_def forgets_def)
    moreover have "removing u i" if "table t i = Some s" "ended (conn t s)" for i s
      using that still entry Observes by simp
    ultimately show ?thesis
      unfolding t' using Observes by (simp add: run_part_def calls_ok_def u removing_def parts_ok_def forgets_def)
  qed
qed

section \<open>Every step\<close>

lemma tunnel_step_calls:
  assumes ok: "tunnel_ok t" "calls_ok t" and step: "tunnel_step t t'"
  shows "calls_ok t'"
proof -
  note kept = starts_ok [OF _ ok]
  from step show ?thesis
  proof cases
    case step_open_begin then show ?thesis by (rule open_begin_calls [OF ok])
  next
    case step_onOpen then show ?thesis by (rule onOpen_calls [OF ok])
  next
    case step_continue then show ?thesis using continue_calls [OF ok] by simp
  next
    case step_cancelled
    then show ?thesis using kept [OF starts_update] by (auto simp: take_cancelled_def unstall_def)
  qed (auto intro!: kept simp: starts_arrivals starts_onClose starts_going_away ok
      intro: starts_public starts_Send_turn starts_Receive_turn)
qed

interpretation ending: invariant tunnel_start tunnel_step "\<lambda>t. tunnel_ok t \<and> calls_ok t"
proof unfold_locales
  show "tunnel_ok t \<and> calls_ok t" if t: "tunnel_start t" for t
  proof -
    obtain role o' where new: "New role o' = Inr t" using t by (auto simp: tunnel_start_def)
    then have "table t = Map.empty" "running t = []" by (auto simp: New_def split: sum.splits)
    then show ?thesis using New_ok [OF new] by (simp add: calls_ok_def)
  qed
qed (auto dest: tunnel_step_ok tunnel_step_calls)

end
