(* ===== verification/Tunnel_Json.thy ===== *)
theory Tunnel_Json
  imports Tunnel_Model
begin

text \<open>
  The JSON of a frame's event: a channel id is read back from its decimal text, base64 is a text
  the encoder takes, and what \<open>Send\<close> encodes is what \<open>onFrame\<close> decodes.
\<close>

lemma nat_decimal_sign: "hd (nat_decimal n) \<noteq> CHR ''-''" "hd (nat_decimal n) \<noteq> CHR ''+''"
proof -
  have "is_digit (hd (nat_decimal n))"
    using nat_decimal_digits [of n] by (cases "nat_decimal n") auto
  then show "hd (nat_decimal n) \<noteq> CHR ''-''" "hd (nat_decimal n) \<noteq> CHR ''+''"
    by (auto simp: is_digit_def less_eq_char_def)
qed

lemma parse_int64_decimal:
  assumes "- (2 ^ 63) \<le> n" "n < 2 ^ 63"
  shows "parse_int64 (int_decimal n) = Some n"
proof (cases "n < 0")
  case True
  then show ?thesis using assms by (simp add: parse_int64_def int_decimal_def nat_decimal_value)
next
  case False
  obtain c cs where c: "nat_decimal (nat n) = c # cs" by (cases "nat_decimal (nat n)") auto
  then have "c \<noteq> CHR ''-''" "c \<noteq> CHR ''+''" using nat_decimal_sign [of "nat n"] by auto
  moreover have "decimal_value 0 (c # cs) = Some n" using nat_decimal_value [of "nat n"] c False by simp
  ultimately show ?thesis
    using False assms c unfolding parse_int64_def int_decimal_def by (simp del: decimal_value.simps)
qed

section \<open>Base64 is ASCII\<close>

lemma b64_alphabet_ascii: "\<forall>c \<in> set b64_alphabet. of_char c < (0x80 :: nat)"
  by code_simp

lemma b64_char_ascii: "n < 64 \<Longrightarrow> of_char (b64_char n) < (0x80 :: nat)"
proof -
  assume "n < 64"
  moreover have "length b64_alphabet = 64" by code_simp
  ultimately show ?thesis unfolding b64_char_def using b64_alphabet_ascii nth_mem by metis
qed

lemma b64_encode_utf8 [simp]: "valid_utf8 (b64_encode s)"
proof (induction s rule: b64_encode.induct)
  case (2 a)
  have "of_char a < (256 :: nat)" by simp
  then have "of_char a * 16 div 64 < (64 :: nat)" by linarith
  then show ?case using b64_char_ascii by (simp add: Let_def)
next
  case (3 a b)
  have "of_char a < (256 :: nat)" "of_char b < (256 :: nat)" by simp_all
  then have "(of_char a * 1024 + of_char b * 4 :: nat) div 4096 < 64" by linarith
  then show ?case using b64_char_ascii by (simp add: Let_def)
next
  case (4 a b c rest)
  have "(of_char a * 65536 + of_char b * 256 + of_char c :: nat) div 262144 < 64"
    by (rule b64_digits) simp_all
  then show ?case using b64_char_ascii 4 by (simp add: Let_def)
qed simp

section \<open>The event of a frame\<close>

lemma frame_payload_names [simp]:
  "member_of [''channel'', ''text'', ''binary''] ''channel'' = Some ''channel''"
  "member_of [''channel'', ''text'', ''binary''] ''text'' = Some ''text''"
  "member_of [''channel'', ''text'', ''binary''] ''binary'' = Some ''binary''"
  by (simp_all add: member_of_def)

lemma unmarshal_marshal:
  assumes "marshal_frame p = Some v" "- (2 ^ 63) \<le> pChannel p" "pChannel p < 2 ^ 63"
  shows "unmarshal_frame v = Some p"
  using assms parse_int64_decimal [OF assms(2,3)]
  by (cases p; cases "pText p"; cases "pBinary p")
    (auto simp: marshal_frame_def unmarshal_frame_def frame_payload_member_def into_int_def
      into_text_pointer_def split: if_splits)

lemma marshal_frame_event:
  assumes "frame_event cid f = FrameEvent p"
  shows "marshal_frame p = None \<longleftrightarrow> Kind f = Text \<and> \<not> valid_utf8 (Data f)" "pChannel p = cid"
  using assms by (auto simp: frame_event_def marshal_frame_def split: if_splits)

end
