(* ===== verification/Tunnel_Spec.thy ===== *)
theory Tunnel_Spec
  imports Tunnel_Flow Tunnel_Wake Tunnel_Ends Tunnel_Json
begin

text \<open>
  What a tunnel promises: credit is conserved, a window is never overrun and, while no emission
  fails, never stalls for good, the bookkeeping of a side stays consistent, an open is decided by
  its checks, frames arrive as they were sent, and a lone waiting caller is never left asleep.
\<close>

section \<open>Credit\<close>

lemma total_alone:
  assumes "distinct (map ID (store t))" "r < length (store t)" "ID (conn t r) = cid"
  shows "total g cid t = g (conn t r)"
proof -
  have "(if ID (store t ! s) = cid then g (store t ! s) else 0) = (if s = r then g (conn t r) else 0)"
    if "s < length (store t)" for s
    using that assms nth_eq_iff_index_eq [OF assms(1), of s r] by (auto simp: conn_def)
  then have "total g cid t = (\<Sum>s < length (store t). if s = r then g (conn t r) else 0)"
    unfolding total_def by (simp add: sum_list_sum_nth atLeast0LessThan cong: sum.cong_simp)
  then show ?thesis using assms(2) by simp
qed

text \<open>What the interface of the invariant gives of two open ends of one channel.\<close>

lemma ends_of_channel:
  assumes "reachable system_start (system_step lossy) s"
    and "table (left s) cid = Some r" and "table (right s) cid = Some q"
  shows "total credit cid (left s) = credit (conn (left s) r)"
    and "total holds cid (right s) = int (length (inbox (conn (right s) q))) + taken (conn (right s) q)"
proof -
  have "side_ok (left s) (right s)" "side_ok (right s) (left s)"
    using network.always [OF assms(1)] by (simp_all add: system_ok_def)
  then have "distinct (map ID (store (left s)))" "distinct (map ID (store (right s)))"
    "r < length (store (left s)) \<and> ID (conn (left s) r) = cid"
    "q < length (store (right s)) \<and> ID (conn (right s) q) = cid"
    using assms(2,3) by (auto simp: side_ok_def tunnel_ok_def table_ok_def)
  then show "total credit cid (left s) = credit (conn (left s) r)"
    and "total holds cid (right s) = int (length (inbox (conn (right s) q))) + taken (conn (right s) q)"
    using total_alone [of "left s" r cid] total_alone [of "right s" q cid] by (simp_all add: holds_def)
qed

lemma open_live:
  assumes "reachable system_start (system_step lossy) s" "table (left s) cid = Some r" "state (conn (left s) r) = None"
  shows "live (left s) cid"
proof -
  have "tunnel_ok (left s)" using network.always [OF assms(1)] by (simp add: system_ok_def side_ok_def)
  then have "conn_ok (Window (opts (left s))) (conn (left s) r)"
    using tunnel_ok_table [OF _ assms(2)] by (simp add: tunnel_ok_def)
  then show ?thesis using assms(2,3) by (simp add: live_def conn_ok_def)
qed

lemma system_start_swap: "system_start s \<Longrightarrow> system_start (swap s)"
  by (auto simp: system_start_def) metis

lemma reachable_swap:
  "reachable system_start (system_step lossy) s \<Longrightarrow> reachable system_start (system_step lossy) (swap s)"
proof (induction rule: reachable.induct)
  case (reachable_start s)
  then show ?case by (intro reachable.reachable_start system_start_swap)
next
  case (reachable_step s s')
  have "system_step lossy (swap s) (swap s')"
    using reachable_step.hyps(2) by (intro system_mirror) simp
  then show ?case by (rule reachable.reachable_step [OF reachable_step.IH])
qed

lemma open_flow:
  assumes "reachable system_start (system_step False) s"
    and "table (left s) cid = Some r" "state (conn (left s) r) = None"
    and "table (right s) cid = Some q" "state (conn (right s) q) = None"
  shows "flow (left s) (right s) (to_right s) (to_left s) cid = Window (opts (right s))"
proof -
  have "bounded False (left s) (right s) (to_right s) (to_left s)"
    using network.always [OF assms(1)] by (simp add: system_ok_def)
  moreover have "live (left s) cid" "live (right s) cid"
    using open_live [OF assms(1,2,3)] open_live [OF reachable_swap [OF assms(1)], of cid q] assms(4,5) by simp_all
  ultimately show ?thesis by (simp add: bounded_def)
qed

text \<open>C8: While both sides have a channel open, the sender's credit, the frames on their way, the
  frames in the receiver's inbox, those it took and has not yet reported, the credit on its way back
  and an open's answer on its way back add up to exactly the receiver's window, in every reachable
  state of two sides none of whose emissions fails.\<close>

theorem credit_is_conserved:
  assumes "reachable system_start (system_step False) s"
    and "table (left s) cid = Some r" and "state (conn (left s) r) = None"
    and "table (right s) cid = Some q" and "state (conn (right s) q) = None"
  shows "credit (conn (left s) r) + sum_list (map (frames_in cid) (to_right s)) +
    int (length (inbox (conn (right s) q))) + taken (conn (right s) q) +
    sum_list (map (credits_in cid) (to_left s)) + sum_list (map (grants_in (left s) cid) (to_left s)) =
    Window (opts (right s))"
  using open_flow [OF assms] ends_of_channel [OF assms(1,2,4)] by (simp add: flow_def)

text \<open>C9: No frame ever overruns a window: when the next message for a side is a frame of an open
  channel, its inbox has room, in every reachable state, even if emissions fail; so \<open>onFrame\<close>
  never ends a channel for a frame beyond the window.\<close>

theorem window_never_overrun:
  assumes "reachable system_start (system_step lossy) s"
    and "to_left s = Event (FrameEvent p) # rest" and "table (left s) (pChannel p) = Some r"
  shows "int (length (inbox (conn (left s) r))) < Window (opts (left s))"
proof -
  let ?cid = "pChannel p"
  have ok: "side_ok (right s) (left s)" "side_ok (left s) (right s)"
    "messages_ok (left s) (right s) (to_right s)"
    "bounded lossy (right s) (left s) (to_left s) (to_right s)"
    using network.always [OF assms(1)] by (simp_all add: system_ok_def)
  have frames: "0 \<le> sum_list (map (frames_in ?cid) rest)" by (rule flow_parts_nonneg(2) [OF ok(1,2,3)])
  note nonneg = flow_parts_nonneg [OF ok(1,2,3), of ?cid]
  have r: "r < length (store (left s))" "ID (conn (left s) r) = ?cid" "0 \<le> taken (conn (left s) r)"
    "distinct (map ID (store (left s)))"
    using ok(2) assms(3) by (auto simp: side_ok_def tunnel_ok_def table_ok_def conn_ok_def)
  have "1 + total holds ?cid (left s) \<le> flow (right s) (left s) (to_left s) (to_right s) ?cid"
    using nonneg(1,4,5) frames by (simp add: flow_def assms(2))
  also have "\<dots> \<le> Window (opts (left s))" using ok(4) by (simp add: bounded_def)
  finally show ?thesis using total_alone [OF r(4,1,2), of holds] r(3) by (simp add: holds_def)
qed

text \<open>C10: In a run in which no emission has failed, a sender out of credit is not stuck behind an idle
  receiver: while both sides have the channel open, with nothing of the channel on its way, the
  receiver has a frame to take, and taking what is there returns credit.  A send whose emission
  fails has spent its credit for nothing, and \<open>failed_send_leaks_credit\<close> shows that the
  statement is false once one has.\<close>

theorem stalled_sender_has_reader_work:
  assumes "reachable system_start (system_step False) s"
    and "table (left s) cid = Some r" and "state (conn (left s) r) = None"
    and "table (right s) cid = Some q" and "state (conn (right s) q) = None"
    and "credit (conn (left s) r) = 0"
    and "\<forall>m \<in> set (to_right s). frames_in cid m = 0"
    and "\<forall>m \<in> set (to_left s). credits_in cid m = 0 \<and> grants_in (left s) cid m = 0"
  shows "inbox (conn (right s) q) \<noteq> []"
proof
  assume empty: "inbox (conn (right s) q) = []"
  have none: "sum_list (map (frames_in cid) (to_right s)) = 0"
    "sum_list (map (credits_in cid) (to_left s)) = 0"
    "sum_list (map (grants_in (left s) cid) (to_left s)) = 0"
    using assms(7,8) by (simp_all cong: map_cong)
  have flow: "total credit cid (left s) + total holds cid (right s) = Window (opts (right s))"
    using open_flow [OF assms(1-5)] none by (simp add: flow_def)
  have ok: "side_ok (right s) (left s)"
    using network.always [OF assms(1)] by (simp add: system_ok_def)
  have "q < length (store (right s))" "0 < Window (opts (right s))"
    using ok assms(4) by (auto simp: side_ok_def tunnel_ok_def table_ok_def options_ok_def)
  moreover from this have "taken (conn (right s) q) < max (Window (opts (right s)) div 2) 1"
    using ok by (simp add: side_ok_def tunnel_ok_def conn_ok_def)
  ultimately show False
    using flow ends_of_channel [OF assms(1,2,4)] assms(6) empty by simp
qed

section \<open>A sample run\<close>

text \<open>Steps of the left side as functions, to build concrete runs; \<open>swap\<close> gives the right side's.\<close>

definition run_open :: "string \<Rightarrow> system \<Rightarrow> system" where
  "run_open family s =
     (case open_begin family [] (left s) of
        (Inr (r, params), t') \<Rightarrow> s\<lparr>left := t', to_right := to_right s @ [Request r params]\<rparr>
      | _ \<Rightarrow> s)"

definition run_deliver :: "system \<Rightarrow> system" where
  "run_deliver s =
     (case to_left s of
        [] \<Rightarrow> s
      | m # rest \<Rightarrow>
          (case deliver False None m (left s) of
             (replies, t') \<Rightarrow> s\<lparr>left := t'\<lparr>sent := []\<rparr>, to_left := rest,
               to_right := to_right s @ replies @ map Event (sent t')\<rparr>))"

definition run_send :: "string option \<Rightarrow> nat \<Rightarrow> frame \<Rightarrow> system \<Rightarrow> system" where
  "run_send emission r f s =
     (case Send_turn [] emission r f False (left s) of
        (_, _, t') \<Rightarrow> s\<lparr>left := t'\<lparr>sent := []\<rparr>, to_right := to_right s @ map Event (sent t')\<rparr>)"

lemma run_open_reachable:
  assumes "reachable system_start (system_step lossy) s"
  shows "reachable system_start (system_step lossy) (run_open family s)"
  using assms
  by (auto simp: run_open_def split: prod.split sum.split intro: reachable_step [OF assms] system_open)

lemma run_deliver_reachable:
  assumes "reachable system_start (system_step lossy) s"
  shows "reachable system_start (system_step lossy) (run_deliver s)"
proof (cases "to_left s")
  case (Cons m rest)
  obtain replies t' where d: "deliver False None m (left s) = (replies, t')" by fastforce
  show ?thesis
    using reachable_step [OF assms system_deliver [OF Cons d]] by (simp add: run_deliver_def Cons d)
qed (simp add: run_deliver_def assms)

lemma run_send_reachable:
  assumes "reachable system_start (system_step lossy) s" "r < length (store (left s))"
    and "emission = None \<and> encodable (frame_event (ID (conn (left s) r)) f) \<or> lossy"
  shows "reachable system_start (system_step lossy) (run_send emission r f s)"
proof -
  obtain res stalled t' where d: "Send_turn [] emission r f False (left s) = (res, stalled, t')"
    by (cases "Send_turn [] emission r f False (left s)") auto
  show ?thesis
    using reachable_step [OF assms(1) system_user [OF user_Send [OF assms(2,3) d]]]
    by (simp add: run_send_def d)
qed

definition sample_options :: options where
  "sample_options = \<lparr>Contracts = [], MaxFrameBytes = 8, Window = 1, AcceptCapacity = 1\<rparr>"

definition sample_side :: "role \<Rightarrow> tunnel" where
  "sample_side role =
     \<lparr>opts = sample_options, ids_next = (if role = ServerRole then 2 else 1),
      parity = (if role = ServerRole then 0 else 1), table = Map.empty, pending = [],
      accept_wake = False, store = [], sent = [], told = [], running = []\<rparr>"

definition sample_start :: system where
  "sample_start = \<lparr>left = sample_side ClientRole, right = sample_side ServerRole, to_right = [], to_left = []\<rparr>"

text \<open>The client opens channel 1, the server answers, the client spends its one credit.\<close>

definition sample_open :: system where
  "sample_open = run_deliver (swap (run_deliver (swap (run_open ''probe'' sample_start))))"

definition sample_sent :: system where
  "sample_sent = run_send None 0 \<lparr>Kind = Text, Data = ''hi''\<rparr> sample_open"

lemma sample_start_reachable: "reachable system_start (system_step lossy) sample_start"
proof (rule reachable_start)
  have "New role sample_options = Inr (sample_side role)" for role
    by (simp add: New_def options_normalized_def sample_options_def sample_side_def)
  then show "system_start sample_start"
    unfolding system_start_def sample_start_def
    by (intro conjI exI [of _ ClientRole] exI [of _ ServerRole] exI [of _ sample_options])
      (simp_all add: sample_side_def sample_options_def)
qed

lemmas sample_eval = sample_sent_def sample_open_def sample_start_def sample_side_def sample_options_def
  run_open_def run_deliver_def run_send_def open_begin_def deliver_def onOpen_def admit_def
  OpenConnection_finish_def open_finish_def raw_or_conflict_def asRaw_def observeOpened_def
  grant_credit_def add_credit_def update_conn_def conn_def newConnection_def observe_def emit_def
  Send_turn_def take_turn_def unstall_def frame_event_def state_def Let_def Text_def Binary_def
  swap_def int64_def frame_arrived_def refuse_def encodable_def marshal_frame_def

lemma sample_open_facts:
  "table (left sample_open) 1 = Some 0" "table (right sample_open) 1 = Some 0"
  "store (left sample_open) \<noteq> []" "ID (conn (left sample_open) 0) = 1"
  "state (conn (left sample_open) 0) = None" "state (conn (right sample_open) 0) = None"
  by (simp_all add: sample_eval)

lemma sample_sent_facts:
  "table (right sample_sent) 1 = Some 0"
  "to_right sample_sent = [Event (FrameEvent \<lparr>pChannel = 1, pText = Some ''hi'', pBinary = None\<rparr>)]"
  by (simp_all add: sample_eval)

lemma sample_open_reachable: "reachable system_start (system_step lossy) sample_open"
  unfolding sample_open_def
  by (intro run_deliver_reachable reachable_swap run_open_reachable sample_start_reachable)

lemma sample_sent_reachable: "reachable system_start (system_step lossy) sample_sent"
  unfolding sample_sent_def
  by (intro run_send_reachable sample_open_reachable)
    (simp_all add: sample_open_facts encodable_def frame_event_def marshal_frame_def)

lemma credit_is_conserved_witness:
  "credit (conn (left sample_open) 0) + sum_list (map (frames_in 1) (to_right sample_open)) +
    int (length (inbox (conn (right sample_open) 0))) + taken (conn (right sample_open) 0) +
    sum_list (map (credits_in 1) (to_left sample_open)) +
    sum_list (map (grants_in (left sample_open) 1) (to_left sample_open)) =
    Window (opts (right sample_open))"
  by (rule credit_is_conserved [OF sample_open_reachable sample_open_facts(1,5,2,6)])

lemma window_never_overrun_witness:
  "int (length (inbox (conn (right sample_sent) 0))) < Window (opts (right sample_sent))"
  using window_never_overrun [OF reachable_swap [OF sample_sent_reachable [of True]], unfolded swap_simps,
      OF sample_sent_facts(2)] sample_sent_facts(1)
  by simp

definition sample_arrived :: system where
  "sample_arrived = swap (run_deliver (swap sample_sent))"

lemma sample_arrived_facts:
  "table (left sample_arrived) 1 = Some 0" "table (right sample_arrived) 1 = Some 0"
  "state (conn (left sample_arrived) 0) = None" "state (conn (right sample_arrived) 0) = None"
  "credit (conn (left sample_arrived) 0) = 0" "to_left sample_arrived = []" "to_right sample_arrived = []"
  by (simp_all add: sample_arrived_def sample_eval)

lemma sample_arrived_reachable: "reachable system_start (system_step lossy) sample_arrived"
  unfolding sample_arrived_def by (intro run_deliver_reachable reachable_swap sample_sent_reachable)

lemma stalled_sender_has_reader_work_witness: "inbox (conn (right sample_arrived) 0) \<noteq> []"
  by (rule stalled_sender_has_reader_work [OF sample_arrived_reachable sample_arrived_facts(1,3,2,4,5)])
    (simp_all add: sample_arrived_facts)

text \<open>
  A frame that cannot be emitted, here one whose text is not UTF-8, still costs its credit: with a
  window of one the sender then has none, nothing is on its way, and the receiver has nothing to
  take and nothing to report.
\<close>

definition sample_leak :: system where
  "sample_leak = run_send None 0 \<lparr>Kind = Text, Data = [CHR 0xFF]\<rparr> sample_open"

theorem failed_send_leaks_credit:
  "reachable system_start (system_step True) sample_leak \<and>
   table (left sample_leak) 1 = Some 0 \<and> state (conn (left sample_leak) 0) = None \<and>
   table (right sample_leak) 1 = Some 0 \<and> state (conn (right sample_leak) 0) = None \<and>
   credit (conn (left sample_leak) 0) = 0 \<and> to_right sample_leak = [] \<and> to_left sample_leak = [] \<and>
   inbox (conn (right sample_leak) 0) = [] \<and> taken (conn (right sample_leak) 0) = 0"
proof -
  have "\<not> valid_utf8 [CHR 0xFF]" by code_simp
  moreover have "reachable system_start (system_step True) sample_leak"
    unfolding sample_leak_def
    by (intro run_send_reachable sample_open_reachable) (simp_all add: sample_open_facts)
  ultimately show ?thesis by (simp add: sample_leak_def sample_eval)
qed

section \<open>One side's bookkeeping\<close>

text \<open>C11: In every reachable state of a side, whatever its users and the other side do, and however the
  sections of the calls that end connections interleave with everything else: the table maps an id
  only to a connection of that id, which is open or which a call in progress has still to remove
  from the table; no two connections this side opened share an id and all are below the next one
  to give; the pending list holds, once each and within the accept capacity, only channels of the
  other side that are in the table; and every connection's inbox is within the window, its
  unreported frames below the reporting threshold, and its presentation raw or wire, never both.\<close>

theorem bookkeeping_consistent:
  assumes "reachable tunnel_start tunnel_step t"
  shows "(\<forall>cid r. table t cid = Some r \<longrightarrow>
      r < length (store t) \<and> ID (conn t r) = cid \<and>
      (state (conn t r) = None \<or> (\<exists>parts \<in> set (running t). Removes cid \<in> set parts))) \<and>
    (\<forall>r < length (store t). \<forall>q < length (store t). ID (conn t r) mod 2 = parity t \<longrightarrow>
      ID (conn t r) < ids_next t \<and> (ID (conn t r) = ID (conn t q) \<longrightarrow> r = q)) \<and>
    distinct (pending t) \<and> int (length (pending t)) \<le> AcceptCapacity (opts t) \<and>
    (\<forall>r \<in> set (pending t). table t (ID (conn t r)) = Some r \<and> ID (conn t r) mod 2 \<noteq> parity t) \<and>
    (\<forall>r < length (store t). int (length (inbox (conn t r))) \<le> Window (opts t) \<and>
      0 \<le> taken (conn t r) \<and> taken (conn t r) < max (Window (opts t) div 2) 1 \<and>
      \<not> (raw (conn t r) \<and> channel (conn t r) \<noteq> None))"
proof -
  have ok: "ids_ok t" "table_ok t" "pending_ok t"
    and conns: "\<forall>r < length (store t). conn_ok (Window (opts t)) (conn t r)"
    using side.always [OF assms] by (simp_all add: tunnel_ok_def)
  have "calls_ok t" using ending.always [OF assms] by blast
  then have "\<forall>cid r. table t cid = Some r \<longrightarrow>
      r < length (store t) \<and> ID (conn t r) = cid \<and>
      (state (conn t r) = None \<or> (\<exists>parts \<in> set (running t). Removes cid \<in> set parts))"
    using ok(2) conns unfolding table_ok_def conn_ok_def calls_ok_def removing_def by blast
  moreover have "\<forall>r < length (store t). \<forall>q < length (store t). ID (conn t r) mod 2 = parity t \<longrightarrow>
      ID (conn t r) < ids_next t \<and> (ID (conn t r) = ID (conn t q) \<longrightarrow> r = q)"
    using ok(1) unfolding ids_ok_def by blast
  ultimately show ?thesis using ok(3) conns unfolding pending_ok_def conn_ok_def by blast
qed

lemma bookkeeping_consistent_witness:
  "int (length (pending (snd (onOpen False False \<lparr>oChannel = 1, oFamily = ''probe'', oDigest = [], oWindow = 4\<rparr>
     (sample_side ServerRole))))) \<le> 1"
proof -
  let ?t = "snd (onOpen False False \<lparr>oChannel = 1, oFamily = ''probe'', oDigest = [], oWindow = 4\<rparr>
     (sample_side ServerRole))"
  have "tunnel_start (sample_side ServerRole)"
    unfolding tunnel_start_def
    by (intro exI [of _ ServerRole] exI [of _ sample_options])
      (simp add: New_def options_normalized_def sample_options_def sample_side_def)
  moreover obtain res where "onOpen False False \<lparr>oChannel = 1, oFamily = ''probe'', oDigest = [], oWindow = 4\<rparr>
     (sample_side ServerRole) = (res, ?t)" by (metis surjective_pairing)
  ultimately have "reachable tunnel_start tunnel_step ?t"
    by (intro reachable_step [OF reachable_start] step_onOpen)
  from bookkeeping_consistent [OF this] show ?thesis
    by (simp add: sample_eval)
qed

section \<open>How a connection ends\<close>

text \<open>Ended connections keep what they ended with.\<close>

definition settles :: "tunnel \<Rightarrow> tunnel \<Rightarrow> bool" where
  "settles t t' \<longleftrightarrow>
     length (store t) \<le> length (store t') \<and>
     (\<forall>r < length (store t). ended (conn t r) \<longrightarrow> ended (conn t' r) \<and> state (conn t' r) = state (conn t r))"

lemma settles_refl [simp]: "settles t t"
  by (simp add: settles_def)

lemma settles_trans: "settles t u \<Longrightarrow> settles u v \<Longrightarrow> settles t v"
  unfolding settles_def by auto

lemma settles_same: "store t' = store t \<Longrightarrow> settles t t'"
  by (simp add: settles_def conn_def)

lemma settles_simps [simp]:
  "settles t (observe e t)" "settles t (emit up m t)" "settles t (remove cid t)" "settles t (t\<lparr>pending := ps\<rparr>)"
  "settles t (start_call parts t)" "settles t (t\<lparr>running := cs\<rparr>)"
  by (simp_all add: settles_same)

lemma settles_update:
  assumes "\<And>c. ended c \<Longrightarrow> ended (f c) \<and> state (f c) = state c"
  shows "settles t (update_conn r f t)"
  using assms by (simp add: settles_def)

lemma settles_end_conn [simp]: "settles t (end_conn r code reason f t)"
  by (simp add: settles_def)

lemma settles_fail_conn [simp]: "settles t (fail_conn r code reason t)"
  unfolding fail_conn_def by (rule settles_trans [OF settles_end_conn settles_simps(5)])

lemma settles_closes [simp]: "settles t (Close r code reason t)" "settles t (Abort r t)"
  by (simp_all add: Close_def Abort_def Let_def)

lemma settles_continue_call [simp]: "settles t (continue_call up k t)"
proof (cases "running t ! k")
  case (Cons p parts)
  have "settles u (run_part up p u)" for u by (cases p) (simp_all add: run_part_def)
  then have "settles t (run_part up p (t\<lparr>running := (running t)[k := parts]\<rparr>))"
    by (rule settles_trans [OF settles_simps(6)])
  then show ?thesis using Cons by (simp add: continue_call_def)
qed (simp add: continue_call_def)

lemma settles_observeOpened [simp]: "settles t (observeOpened r opener t)"
  unfolding observeOpened_def by (auto intro: settles_trans [OF settles_update settles_simps(1)])

lemma settles_accepting: "settles t (observeAccepted r (observeOpened r opener (t\<lparr>pending := ps\<rparr>)))"
  unfolding observeAccepted_def
  by (rule settles_trans [OF settles_trans [OF settles_simps(4) settles_observeOpened] settles_simps(1)])

lemma settles_asWire: "asWire peer r t = (res, t') \<Longrightarrow> settles t t'"
  by (auto simp: asWire_def Let_def split: if_splits option.splits intro: settles_update)

lemma settles_asRaw: "asRaw r t = (ok, t') \<Longrightarrow> settles t t'"
  by (auto simp: asRaw_def split: if_splits intro: settles_update)

lemma settles_raw_or_conflict: "raw_or_conflict r t = (res, t') \<Longrightarrow> settles t t'"
  by (auto simp: raw_or_conflict_def split: prod.splits if_splits intro: settles_asRaw)

lemma settles_accept: "acceptConnection_turn t = (res, t') \<Longrightarrow> settles t t'"
  by (auto simp: acceptConnection_turn_def settles_accepting split: list.splits)

lemma settles_by_id: "connection_by_id cid t = (res, t') \<Longrightarrow> settles t t'"
  by (auto simp: connection_by_id_def settles_accepting split: option.splits if_splits)

lemma settles_grant [simp]: "settles t (grant_credit r frames t)"
  by (simp add: grant_credit_def add_credit_def settles_update)

lemma settles_open_finish: "open_finish r answer t = (res, t') \<Longrightarrow> settles t t'"
  unfolding open_finish_def open_failed_def Let_def
  by (auto split: sum.splits if_splits intro: settles_trans [OF settles_grant settles_observeOpened])

lemma settles_take_turn: "take_turn r stalled t = (res, stalled', t') \<Longrightarrow> settles t t'"
  by (auto simp: take_turn_def Let_def unstall_def split: if_splits option.splits
      intro!: settles_update settles_trans [OF settles_update settles_simps(1)])

lemma settles_Send_turn: "Send_turn unencoded emission r f stalled t = (res, stalled', t') \<Longrightarrow> settles t t'"
  by (auto simp: Send_turn_def split: if_splits prod.splits turn.splits option.splits
      dest: settles_take_turn intro: settles_trans [OF settles_take_turn settles_simps(2)])

lemma settles_Receive_turn: "Receive_turn up r t = (res, t') \<Longrightarrow> settles t t'"
  unfolding Receive_turn_def took_def Let_def
  by (auto split: if_splits list.splits option.splits
      intro!: settles_update settles_trans [OF settles_trans [OF settles_trans
        [OF settles_update settles_update] settles_update] settles_simps(2)]
        settles_trans [OF settles_update settles_update])

lemma settles_append: "store t' = store t @ cs \<Longrightarrow> settles t t'"
  by (simp add: settles_def conn_def nth_append)

lemma settles_onOpen: "onOpen bad given params t = (res, t') \<Longrightarrow> settles t t'"
proof (cases res)
  case (Inr w)
  assume "onOpen bad given params t = (res, t')"
  from onOpen_Inr [OF this [unfolded Inr]] show ?thesis
    by (auto intro: settles_trans [OF settles_append settles_observeOpened])
next
  case (Inl e)
  assume "onOpen bad given params t = (res, t')"
  then have "settles t t'"
    using Inl unfolding onOpen_def refuse_def Let_def admit_def
    by (auto split: if_splits)
  then show ?thesis .
qed

lemma settles_going_away: "settles t (going_away t)"
  by (simp add: going_away_def Let_def settles_same)

lemma settles_arrivals [simp]:
  "settles t (onFrame payload1 t)" "settles t (onCredit payload2 t)" "settles t (onClose payload3 t)"
  by (auto simp: onFrame_def frame_arrived_def onCredit_def onClose_def Let_def intro: settles_update
      split: option.split prod.split)

lemma settles_step: "tunnel_step t t' \<Longrightarrow> settles t t'"
proof (induction rule: tunnel_step.induct)
  case (step_open_begin family digest t res t')
  then show ?case
    by (auto simp: open_begin_def refused_open_def refuse_def Let_def settles_def conn_def nth_append split: if_splits)
next
  case (step_cancelled r t stalled reason res t')
  then show ?case by (auto simp: take_cancelled_def unstall_def intro!: settles_update)
qed (auto simp: Open_finish_def OpenConnection_finish_def Accept_turn_def AcceptConnection_turn_def
    Channel_by_id_def Connection_by_id_def settles_going_away
    split: sum.splits prod.splits turn.splits option.splits
    intro: settles_onOpen settles_Send_turn settles_Receive_turn settles_accept settles_by_id settles_open_finish
      settles_trans [OF settles_open_finish settles_asWire] settles_trans [OF settles_open_finish settles_raw_or_conflict]
      settles_trans [OF settles_accept settles_asWire] settles_trans [OF settles_accept settles_raw_or_conflict]
      settles_trans [OF settles_by_id settles_asWire] settles_trans [OF settles_by_id settles_asRaw])

lemma settles_reachable:
  "reachable (\<lambda>u. u = t) tunnel_step t' \<Longrightarrow> settles t t'"
proof (induction rule: reachable.induct)
  case (reachable_step u v)
  show ?case by (rule settles_trans [OF reachable_step.IH settles_step [OF reachable_step.hyps(2)]])
qed simp

text \<open>The first end of a connection is final: once it has ended, by a local close, a close of the
  other side, a refused frame or the outer peer going away, every later state reports that same end,
  and every send of a frame of either kind returns it and emits nothing.\<close>

theorem first_end_is_final:
  assumes "reachable tunnel_start tunnel_step t" and "r < length (store t)"
    and "state (conn t r) = Some e" and "reachable (\<lambda>u. u = t) tunnel_step t'"
    and "Kind f = Text \<or> Kind f = Binary"
  shows "state (conn t' r) = Some e \<and>
    fst (Send_turn unencoded emission r f stalled t') = Returned (Some e) \<and>
    sent (snd (snd (Send_turn unencoded emission r f stalled t'))) = sent t'"
proof -
  have "conn_ok (Window (opts t)) (conn t r)"
    using side.always [OF assms(1)] assms(2) by (simp add: tunnel_ok_def)
  then have "ended (conn t r)" using assms(3) by (simp add: conn_ok_def)
  then have "state (conn t' r) = Some e"
    using settles_reachable [OF assms(4)] assms(2,3) by (simp add: settles_def)
  then show ?thesis using assms(5) by (auto simp: Send_turn_def take_turn_def Let_def)
qed

lemma sample_side_start: "reachable tunnel_start tunnel_step (sample_side role)"
  by (intro reachable_start, unfold tunnel_start_def, intro exI [of _ role] exI [of _ sample_options])
    (simp add: New_def options_normalized_def sample_options_def sample_side_def)

section \<open>Opens and frames\<close>

text \<open>The opens that pass every check.\<close>

definition acceptable :: "bool \<Rightarrow> bool \<Rightarrow> open_params \<Rightarrow> tunnel \<Rightarrow> bool" where
  "acceptable bad given params t \<longleftrightarrow>
     \<not> bad \<and> 0 < oChannel params \<and> oFamily params \<noteq> [] \<and> 0 < oWindow params \<and>
     (given \<longrightarrow> validDigest (oDigest params)) \<and>
     (case map_of (Contracts (opts t)) (oFamily params) of
        None \<Rightarrow> True
      | Some expected \<Rightarrow> expected = [] \<or> oDigest params = [] \<or> oDigest params = expected) \<and>
     oChannel params mod 2 \<noteq> parity t \<and> table t (oChannel params) = None \<and>
     int (length (pending t)) < AcceptCapacity (opts t)"

text \<open>C12: \<open>onOpen\<close> accepts exactly the opens that pass its checks: parameters that decode, with a
  positive id, a family and a positive window, a valid digest if one is given, no declared digest
  that differs, an id of the other side's parity that no channel of the table has, and room among
  the untaken channels.  It then answers this side's window and puts the new connection, with the
  opener's window as its credit, into the table and at the end of the untaken ones.  A refusal
  changes nothing and is told with the family and the message the other side receives.  The id need
  not be new, though the comment of \<open>onOpen\<close> asks for an unused one: one whose channel has
  closed is accepted again, and the run at the end of this theory shows what follows.\<close>

theorem onOpen_decides:
  "case onOpen bad given params t of
     (Inr window, t') \<Rightarrow>
       acceptable bad given params t \<and> window = Window (opts t) \<and>
       table t' = (table t)(oChannel params \<mapsto> length (store t)) \<and>
       pending t' = pending t @ [length (store t)] \<and>
       credit (conn t' (length (store t))) = oWindow params \<and> inbox (conn t' (length (store t))) = []
   | (Inl e, t') \<Rightarrow>
       \<not> acceptable bad given params t \<and>
       (\<exists>code msg. e = Public_error code msg \<and>
          code \<in> {ErrorInvalid, ErrorContractMismatch, ErrorExists, ErrorRefused} \<and>
          t' = t\<lparr>told := told t @ [OpenRefused (oFamily params) msg]\<rparr>)"
proof -
  have shape: "case onOpen bad given params t of
     (Inr window, t') \<Rightarrow> acceptable bad given params t
   | (Inl e, t') \<Rightarrow>
       \<not> acceptable bad given params t \<and>
       (\<exists>code msg. e = Public_error code msg \<and>
          code \<in> {ErrorInvalid, ErrorContractMismatch, ErrorExists, ErrorRefused} \<and>
          t' = t\<lparr>told := told t @ [OpenRefused (oFamily params) msg]\<rparr>)"
    unfolding acceptable_def onOpen_def refuse_def admit_def observe_def Let_def
    by (cases "map_of (Contracts (opts t)) (oFamily params)") auto
  obtain res t' where op: "onOpen bad given params t = (res, t')" by fastforce
  show ?thesis
  proof (cases res)
    case (Inr w)
    then show ?thesis
      using shape onOpen_Inr [OF op [unfolded Inr]] op
      by (simp add: observeOpened_def update_conn_def observe_def conn_def newConnection_def nth_append)
  qed (use shape op in simp)
qed




section \<open>Waiting\<close>

text \<open>A lone caller of \<open>Accept\<close>, or a lone sender of a connection, is never left asleep: when it
  is blocked and a channel is pending, or credit is there, a wake-up is in the channel it blocks on,
  however its calls, wake-ups and cancellations interleave with what the other side does.\<close>

theorem lone_waiter_is_woken:
  assumes "reachable no_waiters (accept_step 1) w" and "reachable no_waiters (send_step r 1) v"
  shows "(blocked w = 0 \<or> pending (shared w) = [] \<or> accept_wake (shared w)) \<and>
    (blocked v = 0 \<or> \<not> send_avail r (shared v) \<or> wake (conn (shared v) r))"
  using accepting.never_lost [OF assms(1)] sending.never_lost [OF assms(2)]
  by (auto simp: accept_avail_def send_token_def)

text \<open>Runs of one caller that blocks before something arrives.\<close>

definition sample_pending :: tunnel where
  "sample_pending = snd (admit \<lparr>oChannel = 1, oFamily = ''probe'', oDigest = [], oWindow = 1\<rparr> (sample_side ServerRole))"

lemma sample_accept_blocked:
  "reachable no_waiters (accept_step 1) \<lparr>shared = sample_pending, looking = 0, blocked = 1\<rparr>"
proof -
  let ?w = "\<lambda>s l b. \<lparr>shared = s, looking = l, blocked = b\<rparr>"
  have "reachable no_waiters (accept_step 1) (?w (sample_side ServerRole) 0 0)"
    by (rule reachable_start) simp
  moreover have "accept_step 1 (?w (sample_side ServerRole) 0 0) (?w (sample_side ServerRole) 1 0)"
    using wait_call [of "?w (sample_side ServerRole) 0 0"] by simp
  moreover have "accept_step 1 (?w (sample_side ServerRole) 1 0) (?w (sample_side ServerRole) 0 1)"
    using wait_block [of "?w (sample_side ServerRole) 1 0" 0 accept_look "sample_side ServerRole"]
    by (simp add: accept_look_def acceptConnection_turn_def sample_side_def)
  moreover have "accept_step 1 (?w (sample_side ServerRole) 0 1) (?w sample_pending 0 1)"
  proof -
    have "admit \<lparr>oChannel = 1, oFamily = ''probe'', oDigest = [], oWindow = 1\<rparr> (sample_side ServerRole) =
        (Inr 0, sample_pending)"
      by (simp add: sample_pending_def sample_eval)
    then have "accept_refill (sample_side ServerRole) sample_pending"
      unfolding accept_refill_def by blast
    then show ?thesis
      using wait_supply [of accept_refill "?w (sample_side ServerRole) 0 1" sample_pending] by simp
  qed
  ultimately show ?thesis by (blast intro: reachable_step)
qed

lemma sample_send_blocked:
  "\<exists>v. reachable no_waiters (send_step 0 1) v \<and> blocked v = 1 \<and> send_avail 0 (shared v)"
proof -
  let ?w = "\<lambda>s l b. \<lparr>shared = s, looking = l, blocked = b\<rparr>"
  let ?s = "left sample_sent"
  obtain u where u: "take_turn 0 False ?s = (Waiting, True, u)"
    by (simp add: sample_eval)
  then have u': "u = snd (snd (take_turn 0 False ?s))" by simp
  have avail: "0 < length (store u)" "send_avail 0 (grant_credit 0 1 u)"
    unfolding u' by (simp_all add: sample_eval send_avail_def)
  have "reachable no_waiters (send_step 0 1) (?w ?s 0 0)"
    by (rule reachable_start) simp
  moreover have "send_step 0 1 (?w ?s 0 0) (?w ?s 1 0)"
    using wait_call [of "?w ?s 0 0"] by simp
  moreover have "send_step 0 1 (?w ?s 1 0) (?w u 0 1)"
  proof -
    have "send_look 0 ?s False u" unfolding send_look_def using u by (intro exI [of _ False]) simp
    then show ?thesis using wait_block [of "?w ?s 1 0" 0 "send_look 0" u] by simp
  qed
  moreover have "send_step 0 1 (?w u 0 1) (?w (grant_credit 0 1 u) 0 1)"
  proof -
    have "send_refill 0 u (grant_credit 0 1 u)" unfolding send_refill_def using avail(1) by blast
    then show ?thesis using wait_supply [of "send_refill 0" "?w u 0 1" "grant_credit 0 1 u"] by simp
  qed
  ultimately have "reachable no_waiters (send_step 0 1) (?w (grant_credit 0 1 u) 0 1)"
    by (blast intro: reachable_step)
  then show ?thesis using avail(2) by (intro exI [of _ "?w (grant_credit 0 1 u) 0 1"]) simp
qed

lemma lone_waiter_is_woken_witness:
  "accept_wake sample_pending \<and> (\<exists>v :: tunnel waiters. send_avail 0 (shared v) \<and> blocked v = 1 \<and> wake (conn (shared v) 0))"
proof -
  obtain v where v: "reachable no_waiters (send_step 0 1) v" "blocked v = 1" "send_avail 0 (shared v)"
    using sample_send_blocked by blast
  have "pending sample_pending \<noteq> []" by (simp add: sample_pending_def sample_eval)
  then show ?thesis using lone_waiter_is_woken [OF sample_accept_blocked v(1)] v
    by (intro conjI exI [of _ v]) auto
qed

text \<open>C14: With two callers a wake-up can be lost: both block, two channels arrive and leave one token between
  them, one caller wakes and takes the first channel, and the other stays blocked on an empty
  token channel with the second channel pending.\<close>

theorem two_accepts_lose_a_wake:
  "\<exists>w. reachable no_waiters (accept_step 2) w \<and>
     looking w = 0 \<and> blocked w = 1 \<and> pending (shared w) \<noteq> [] \<and> \<not> accept_wake (shared w)"
proof -
  let ?w = "\<lambda>s l b. \<lparr>shared = s, looking = l, blocked = b\<rparr> :: tunnel waiters"
  let ?params = "\<lambda>cid. \<lparr>oChannel = cid, oFamily = ''probe'', oDigest = [], oWindow = 1\<rparr>"
  define t0 where "t0 = (sample_side ServerRole)\<lparr>opts := sample_options\<lparr>AcceptCapacity := 2\<rparr>\<rparr>"
  define t1 where "t1 = snd (admit (?params 1) t0)"
  define t2 where "t2 = snd (admit (?params 3) t1)"
  define t3 where "t3 = accept_drain t2"
  define t4 where "t4 = snd (acceptConnection_turn t3)"
  note eval = t0_def t1_def t2_def t3_def t4_def sample_eval accept_drain_def acceptConnection_turn_def
    observeAccepted_def
  have refills: "accept_refill t0 t1" "accept_refill t1 t2"
    unfolding accept_refill_def
    by (intro exI [of _ "?params 1"] exI [of _ 0], simp add: eval)
      (intro exI [of _ "?params 3"] exI [of _ 1], simp add: eval)
  have looks: "accept_look t0 False t0" "accept_look t3 True t4" "accept_wake t2"
    by (simp_all add: accept_look_def eval)
  have "reachable no_waiters (accept_step 2) (?w t0 0 0)" by (rule reachable_start) simp
  moreover have "accept_step 2 (?w t0 0 0) (?w t0 1 0)" using wait_call [of "?w t0 0 0" 2] by simp
  moreover have "accept_step 2 (?w t0 1 0) (?w t0 0 1)"
    using wait_block [of "?w t0 1 0" 0 accept_look t0] looks(1) by simp
  ultimately have "reachable no_waiters (accept_step 2) (?w t0 0 1)" by (rule reachable_steps)
  moreover have "accept_step 2 (?w t0 0 1) (?w t0 1 1)" using wait_call [of "?w t0 0 1" 2] by simp
  moreover have "accept_step 2 (?w t0 1 1) (?w t0 0 2)"
    using wait_block [of "?w t0 1 1" 0 accept_look t0] looks(1) by (simp add: numeral_2_eq_2)
  ultimately have "reachable no_waiters (accept_step 2) (?w t0 0 2)" by (rule reachable_steps)
  moreover have "accept_step 2 (?w t0 0 2) (?w t1 0 2)"
    using wait_supply [of accept_refill "?w t0 0 2" t1] refills(1) by simp
  moreover have "accept_step 2 (?w t1 0 2) (?w t2 0 2)"
    using wait_supply [of accept_refill "?w t1 0 2" t2] refills(2) by simp
  ultimately have "reachable no_waiters (accept_step 2) (?w t2 0 2)" by (rule reachable_steps)
  moreover have "accept_step 2 (?w t2 0 2) (?w t3 1 1)"
    using wait_wake [of "?w t2 0 2" 1 accept_wake] looks(3) by (simp add: t3_def)
  moreover have "accept_step 2 (?w t3 1 1) (?w t4 0 1)"
    using wait_return [of "?w t3 1 1" 0 accept_look t4] looks(2) by simp
  ultimately have "reachable no_waiters (accept_step 2) (?w t4 0 1)" by (rule reachable_steps)
  moreover have "pending t4 \<noteq> [] \<and> \<not> accept_wake t4" by (simp add: eval)
  ultimately show ?thesis by (intro exI [of _ "?w t4 0 1"]) simp
qed

text \<open>An id that is used again after its channel closed.\<close>
definition sample_reopen :: "tunnel \<Rightarrow> tunnel" where
  "sample_reopen t = snd (onOpen False False \<lparr>oChannel = 1, oFamily = ''probe'', oDigest = [], oWindow = 1\<rparr> t)"

definition sample_ended :: tunnel where
  "sample_ended = continue_call True 0 (continue_call True 0
     (onClose (Some (1, 1000, [])) (sample_reopen (sample_side ServerRole))))"

lemma sample_reopen_step: "tunnel_step t (sample_reopen t)"
  unfolding sample_reopen_def by (rule step_onOpen) (rule surjective_pairing)

lemma sample_ended_reachable: "reachable tunnel_start tunnel_step sample_ended"
proof -
  let ?t = "onClose (Some (1, 1000, [])) (sample_reopen (sample_side ServerRole))"
  have "running ?t \<noteq> []" by (simp add: sample_reopen_def onClose_def sample_eval)
  then have k: "0 < length (running ?t)" "0 < length (running (continue_call True 0 ?t))"
    by (simp_all add: continue_call_def run_part_def split: list.split part.split)
  have "reachable tunnel_start tunnel_step ?t"
    by (rule reachable_steps [OF sample_side_start [of ServerRole] sample_reopen_step step_onClose])
  then show ?thesis
    unfolding sample_ended_def by (rule reachable_steps) (rule step_continue [OF k(1)], rule step_continue [OF k(2)])
qed

lemma sample_reopened_facts:
  "ID (conn (sample_reopen sample_ended) 0) = 1" "state (conn (sample_reopen sample_ended) 0) \<noteq> None"
  "ended (conn (sample_reopen sample_ended) 0)" "table (sample_reopen sample_ended) 1 = Some 1"
  "ID (conn (sample_reopen sample_ended) 1) = 1" "state (conn (sample_reopen sample_ended) 1) = None"
proof -
  let ?c = "(newConnection 1 ''probe'' [] 1)\<lparr>announced := True, opened := True\<rparr>"
  let ?t1 = "sample_reopen (sample_side ServerRole)"
  have t1: "store ?t1 = [?c]" "table ?t1 = [1 \<mapsto> 0]" "pending ?t1 = [0]" "opts ?t1 = sample_options" "parity ?t1 = 0"
    "running ?t1 = []"
    by (simp_all add: sample_reopen_def sample_eval)
  have t2: "store sample_ended = [?c\<lparr>remote := Some (1000, []), ended := True\<rparr>]" "table sample_ended = Map.empty"
    "pending sample_ended = []" "opts sample_ended = sample_options" "parity sample_ended = 0"
    by (simp_all add: sample_ended_def t1 onClose_def start_call_def continue_call_def run_part_def remove_def
        set_end_def end_conn_def update_conn_def conn_def observe_def newConnection_def Let_def)
  have "store (sample_reopen sample_ended) = store sample_ended @ [?c]" "table (sample_reopen sample_ended) = [1 \<mapsto> 1]"
    by (simp_all add: t2 sample_reopen_def onOpen_def admit_def observeOpened_def update_conn_def conn_def
        newConnection_def observe_def Let_def sample_options_def)
  then show "ID (conn (sample_reopen sample_ended) 0) = 1" "state (conn (sample_reopen sample_ended) 0) \<noteq> None"
    "ended (conn (sample_reopen sample_ended) 0)" "table (sample_reopen sample_ended) 1 = Some 1"
    "ID (conn (sample_reopen sample_ended) 1) = 1" "state (conn (sample_reopen sample_ended) 1) = None"
    by (simp_all add: t2(1) conn_def newConnection_def state_def)
qed

text \<open>A \<open>Close\<close> that runs through its sections with nothing in between.\<close>

definition run_close :: "nat \<Rightarrow> tunnel \<Rightarrow> tunnel" where
  "run_close r t =
     (let next = continue_call True (length (running t)) in next (next (Close r CodeNormal [] t)))"

lemma run_close_reachable:
  assumes "reachable tunnel_start tunnel_step t" "r < length (store t)"
  shows "reachable tunnel_start tunnel_step (run_close r t)"
proof -
  let ?t = "Close r CodeNormal [] t" and ?k = "length (running t)"
  have kept: "length (running (continue_call up k u)) = length (running u)" for up k u
    by (simp add: continue_call_def run_part_def split: list.split part.split)
  have k: "?k < length (running ?t)" by (simp add: Close_def Let_def)
  then have k': "?k < length (running (continue_call True ?k ?t))" by (simp add: kept)
  have "reachable tunnel_start tunnel_step ?t" by (rule reachable_step [OF assms(1) step_Close [OF assms(2)]])
  then show ?thesis
    unfolding run_close_def Let_def by (rule reachable_steps) (rule step_continue [OF k], rule step_continue [OF k'])
qed

lemma run_close_drops_id:
  assumes "ended (conn t r)" "state (conn t r) \<noteq> None" "table t (ID (conn t r)) = Some q"
  shows "running (run_close r t) = running t @ [[]]" "table (run_close r t) (ID (conn t r)) = None"
    "state (conn (run_close r t) s) = state (conn t s)"
  using assms
  by (simp_all add: run_close_def Close_def Let_def start_call_def continue_call_def run_part_def
      end_conn_def conn_def remove_def)

text \<open>C15: An id is refused while it is open, not once it was used: after the other side closed channel 1 and
  opened it again, this side's own \<open>Close\<close> of the first connection, run through to its end,
  removes the second from the table, whose \<open>state\<close> is still open.\<close>

theorem stale_close_drops_successor:
  "\<exists>t. reachable tunnel_start tunnel_step t \<and> ID (conn t 0) = 1 \<and> state (conn t 0) \<noteq> None \<and>
     ID (conn t 1) = 1 \<and> state (conn t 1) = None \<and> table t 1 = Some 1 \<and>
     reachable tunnel_start tunnel_step (run_close 0 t) \<and> running (run_close 0 t) = running t @ [[]] \<and>
     table (run_close 0 t) 1 = None \<and> state (conn (run_close 0 t) 1) = None"
proof -
  let ?t = "sample_reopen sample_ended"
  have t: "reachable tunnel_start tunnel_step ?t"
    by (rule reachable_step [OF sample_ended_reachable sample_reopen_step])
  have "1 < length (store ?t)"
    using ending.always [OF t] in_store(2) sample_reopened_facts(4) by blast
  then have "0 < length (store ?t)" by linarith
  then have "reachable tunnel_start tunnel_step (run_close 0 ?t)" by (rule run_close_reachable [OF t])
  then show ?thesis
    using t sample_reopened_facts run_close_drops_id [of ?t 0 1]
    by (intro exI [of _ ?t] conjI) simp_all
qed

end
