(* ===== verification/Auth_Audience.thy ===== *)
theory Auth_Audience
  imports Strings
begin

text \<open>
  \<open>auth/go/audience.go\<close>: the audience of a connection URL and the bytes a connection proof is
  bound to.  An error is a constructor for each message of the code.
\<close>

datatype audience_error =
    UrlByte nat
  | NoScheme
  | UnknownScheme string
  | QueryOrFragment
  | UserInfo
  | NoHost
  | UnterminatedLiteral
  | MalformedLiteral
  | LiteralByte char
  | AfterLiteral
  | BadPort string
  | EmptyLabel
  | HostByte char
  | PathSegment nat audience_error
  | EmptySegment
  | DotSegment
  | MalformedEscape
  | SegmentByte char

definition isHexLower :: "char \<Rightarrow> bool" where
  "isHexLower c \<longleftrightarrow> CHR ''0'' \<le> c \<and> c \<le> CHR ''9'' \<or> CHR ''a'' \<le> c \<and> c \<le> CHR ''f''"

definition isHexDigit :: "char \<Rightarrow> bool" where
  "isHexDigit c \<longleftrightarrow> isHexLower c \<or> CHR ''A'' \<le> c \<and> c \<le> CHR ''F''"

definition foldScheme :: "string \<Rightarrow> audience_error + (string \<times> string)" where
  "foldScheme s =
     (if to_lower s = ''http'' \<or> to_lower s = ''ws'' then Inr (''http'', ''80'')
      else if to_lower s = ''https'' \<or> to_lower s = ''wss'' then Inr (''https'', ''443'')
      else Inl (UnknownScheme s))"

fun port_number :: "int \<Rightarrow> string \<Rightarrow> int option" where
  "port_number n [] = Some n"
| "port_number n (c # cs) =
     (if is_digit c then port_number (n * 10 + (of_char c - 48)) cs else None)"

definition checkPort :: "string \<Rightarrow> audience_error + string" where
  "checkPort p =
     (if p = [] \<or> length p > 5 \<or> hd p = CHR ''0'' then Inl (BadPort p)
      else case port_number 0 p of
        None \<Rightarrow> Inl (BadPort p)
      | Some n \<Rightarrow> if n < 1 \<or> n > 65535 then Inl (BadPort p) else Inr p)"

text \<open>The byte loops: the first byte that is refused.\<close>

definition literal_byte :: "char \<Rightarrow> bool" where
  "literal_byte c \<longleftrightarrow> isHexLower c \<or> c = CHR '':'' \<or> c = CHR ''.''"

definition host_byte :: "char \<Rightarrow> bool" where
  "host_byte c \<longleftrightarrow> is_lower c \<or> is_digit c \<or> c = CHR ''-''"

fun check_labels :: "string list \<Rightarrow> audience_error option" where
  "check_labels [] = None"
| "check_labels (label # labels) =
     (if label = [] then Some EmptyLabel
      else case find (\<lambda>c. \<not> host_byte c) label of
        Some c \<Rightarrow> Some (HostByte c)
      | None \<Rightarrow> check_labels labels)"

definition parseAuthority :: "string \<Rightarrow> audience_error + (string \<times> string)" where
  "parseAuthority authority =
     (if CHR ''@'' \<in> set authority then Inl UserInfo
      else if authority = [] then Inl NoHost
      else if hd authority = CHR ''['' then
        (case index_byte authority CHR '']'' of
           None \<Rightarrow> Inl UnterminatedLiteral
         | Some n \<Rightarrow>
             let literal = to_lower (take (n - 1) (drop 1 authority)) in
             if length literal < 2 \<or> CHR '':'' \<notin> set literal then Inl MalformedLiteral
             else case find (\<lambda>c. \<not> literal_byte c) literal of
               Some c \<Rightarrow> Inl (LiteralByte c)
             | None \<Rightarrow>
                 let host = ''['' @ literal @ '']''; tail = drop (n + 1) authority in
                 if tail = [] then Inr (host, [])
                 else if hd tail \<noteq> CHR '':'' then Inl AfterLiteral
                 else (case checkPort (tl tail) of Inl e \<Rightarrow> Inl e | Inr port \<Rightarrow> Inr (host, port)))
      else
        let checked =
          (case index_byte authority CHR '':'' of
             None \<Rightarrow> Inr (authority, [])
           | Some colon \<Rightarrow>
               (case checkPort (drop (colon + 1) authority) of
                  Inl e \<Rightarrow> Inl e
                | Inr port \<Rightarrow> Inr (take colon authority, port)))
        in case checked of
          Inl e \<Rightarrow> Inl e
        | Inr (name, port) \<Rightarrow>
            let host = to_lower name in
            (case check_labels (split_at CHR ''.'' host) of
               Some e \<Rightarrow> Inl e
             | None \<Rightarrow> Inr (host, port)))"

definition segment_mark :: "char \<Rightarrow> bool" where
  "segment_mark c \<longleftrightarrow> c \<in> set (''-._~!$&'' @ [CHR 0x27] @ ''()*+,;=:@'')"

fun segment_bytes :: "string \<Rightarrow> audience_error option" where
  "segment_bytes [] = None"
| "segment_bytes (c # cs) =
     (if is_lower c \<or> is_upper c \<or> is_digit c then segment_bytes cs
      else if segment_mark c then segment_bytes cs
      else if c = CHR ''%'' then
        (case cs of
           h # l # rest \<Rightarrow> if isHexDigit h \<and> isHexDigit l then segment_bytes rest else Some MalformedEscape
         | _ \<Rightarrow> Some MalformedEscape)
      else Some (SegmentByte c))"

definition checkSegment :: "string \<Rightarrow> audience_error option" where
  "checkSegment segment =
     (if segment = [] then Some EmptySegment
      else if segment = ''.'' \<or> segment = ''..'' then Some DotSegment
      else segment_bytes segment)"

text \<open>The loop over the path's segments, which writes each after its slash.\<close>

fun write_segments :: "nat \<Rightarrow> string list \<Rightarrow> audience_error + string" where
  "write_segments i [] = Inr []"
| "write_segments i (segment # segments) =
     (case checkSegment segment of
        Some e \<Rightarrow> Inl (PathSegment i e)
      | None \<Rightarrow>
          (case write_segments (i + 1) segments of
             Inl e \<Rightarrow> Inl e
           | Inr written \<Rightarrow> Inr (CHR ''/'' # segment @ written)))"

definition printable :: "char \<Rightarrow> bool" where
  "printable c \<longleftrightarrow> 0x20 < (of_char c :: nat) \<and> of_char c < (0x7f :: nat)"

definition Audience :: "string \<Rightarrow> audience_error + string" where
  "Audience url =
     (case find (\<lambda>i. \<not> printable (url ! i)) [0..<length url] of
        Some i \<Rightarrow> Inl (UrlByte i)
      | None \<Rightarrow>
     (case index_sub url ''://'' of
        None \<Rightarrow> Inl NoScheme
      | Some sep \<Rightarrow>
     (case foldScheme (take sep url) of
        Inl e \<Rightarrow> Inl e
      | Inr (scheme, defaultPort) \<Rightarrow>
          let rest = drop (sep + 3) url in
          if CHR ''?'' \<in> set rest \<or> CHR ''#'' \<in> set rest then Inl QueryOrFragment
          else
            let (authority, path) =
              (case index_byte rest CHR ''/'' of
                 None \<Rightarrow> (rest, [])
               | Some slash \<Rightarrow> (take slash rest, drop slash rest))
            in case parseAuthority authority of
              Inl e \<Rightarrow> Inl e
            | Inr (host, port) \<Rightarrow>
                let base = scheme @ ''://'' @ host @
                  (if port \<noteq> [] \<and> port \<noteq> defaultPort then CHR '':'' # port else [])
                in if path = [] then Inr base
                   else (case write_segments 0 (split_at CHR ''/'' (tl path)) of
                     Inl e \<Rightarrow> Inl e
                   | Inr written \<Rightarrow> Inr (base @ written)))))"

section \<open>The binding\<close>

definition auth_domain :: string where
  "auth_domain = ''nightseam-auth/1''"

definition binding_role :: byte where
  "binding_role = 0x01"

text \<open>\<open>binary.BigEndian.AppendUint16\<close> of the length, cut to 16 bits.\<close>

definition length_u16 :: "nat \<Rightarrow> bytes" where
  "length_u16 n = [word_of_nat (n mod 65536 div 256), word_of_nat (n mod 256)]"

definition ConnectionBinding :: "string \<Rightarrow> bytes option" where
  "ConnectionBinding audience =
     (if audience = [] then None
      else if Audience audience \<noteq> Inr audience then None
      else Some (binding_role # length_u16 (length audience) @ bytes_of_string audience))"

text \<open>Archon's possession scheme: the key's proof and its verification, over a domain, a nonce and a binding.\<close>

record possession_lib =
  pos_prove :: "bytes \<Rightarrow> string \<Rightarrow> bytes \<Rightarrow> bytes \<Rightarrow> bytes option"
  pos_verify :: "bytes \<Rightarrow> string \<Rightarrow> bytes \<Rightarrow> bytes \<Rightarrow> bytes \<Rightarrow> bool"

definition ProvePossession :: "possession_lib \<Rightarrow> bytes \<Rightarrow> string \<Rightarrow> bytes \<Rightarrow> bytes option" where
  "ProvePossession lib seed audience nonce =
     (case ConnectionBinding audience of
        None \<Rightarrow> None
      | Some b \<Rightarrow> pos_prove lib seed auth_domain nonce b)"

definition VerifyPossession :: "possession_lib \<Rightarrow> bytes \<Rightarrow> string \<Rightarrow> bytes \<Rightarrow> bytes \<Rightarrow> bool" where
  "VerifyPossession lib pubkey audience nonce proof =
     (case ConnectionBinding audience of
        None \<Rightarrow> False
      | Some b \<Rightarrow> pos_verify lib pubkey auth_domain nonce b proof)"

section \<open>What an audience is\<close>

lemmas char_classes = is_lower_def is_upper_def is_digit_def isHexLower_def isHexDigit_def literal_byte_def
  host_byte_def less_eq_char_def

lemma port_number_digits: "port_number n p = Some m \<Longrightarrow> \<forall>c \<in> set p. is_digit c"
  by (induction n p rule: port_number.induct) (auto split: if_splits)

lemma checkPort_Inr: "checkPort p = Inr q \<Longrightarrow> q = p \<and> p \<noteq> [] \<and> (\<forall>c \<in> set p. is_digit c)"
  by (auto simp: checkPort_def split: if_splits option.splits dest: port_number_digits)

lemma checkPort_fixed: "checkPort p = Inr q \<Longrightarrow> checkPort q = Inr q"
  using checkPort_Inr by blast

text \<open>A byte of a host as \<open>parseAuthority\<close> answers it.\<close>

definition host_text :: "char \<Rightarrow> bool" where
  "host_text c \<longleftrightarrow> host_byte c \<or> literal_byte c \<or> c = CHR ''['' \<or> c = CHR '']''"

lemma host_text_excludes:
  "host_text c \<Longrightarrow> c \<noteq> CHR ''@'' \<and> c \<noteq> CHR ''/'' \<and> c \<noteq> CHR ''?'' \<and> c \<noteq> CHR ''#'' \<and> printable c \<and> \<not> is_upper c"
  by (auto simp: host_text_def char_classes printable_def)

lemma digit_text: "is_digit c \<Longrightarrow> host_text c"
  by (simp add: host_text_def host_byte_def)

lemma literal_not_upper: "\<forall>c \<in> set l. literal_byte c \<Longrightarrow> to_lower l = l"
  by (intro to_lower_fixed) (auto simp: char_classes)

lemma check_labels_None:
  "check_labels ls = None \<longleftrightarrow> (\<forall>l \<in> set ls. l \<noteq> [] \<and> (\<forall>c \<in> set l. host_byte c))"
  by (induction ls rule: check_labels.induct) (auto split: option.splits simp: find_None_iff find_Some_iff)

lemma checked_host:
  assumes "check_labels (split_at CHR ''.'' host) = None"
  shows "host \<noteq> []" and "\<forall>c \<in> set host. host_byte c \<or> c = CHR ''.''"
proof -
  have labels: "\<forall>l \<in> set (split_at CHR ''.'' host). l \<noteq> [] \<and> (\<forall>c \<in> set l. host_byte c)"
    using assms by (simp add: check_labels_None)
  then show "host \<noteq> []" by auto
  have "set host \<subseteq> insert CHR ''.'' (\<Union>(set ` set (split_at CHR ''.'' host)))"
    using set_join_with [of "CHR ''.''" "split_at CHR ''.'' host"] by simp
  then show "\<forall>c \<in> set host. host_byte c \<or> c = CHR ''.''" using labels by blast
qed

definition with_port :: "string \<Rightarrow> string" where
  "with_port p = (if p = [] then [] else CHR '':'' # p)"

lemma parseAuthority_literal:
  assumes "length l \<ge> 2" "CHR '':'' \<in> set l" "\<forall>c \<in> set l. literal_byte c" "p = [] \<or> checkPort p = Inr p"
  shows "parseAuthority (''['' @ l @ '']'' @ with_port p) = Inr (''['' @ l @ '']'', p)"
proof -
  let ?a = "''['' @ l @ '']'' @ with_port p"
  have bytes: "CHR '']'' \<notin> set l" "CHR ''@'' \<notin> set l"
    using assms(3) by (auto simp: char_classes)
  have port: "\<forall>c \<in> set p. is_digit c" using assms(4) checkPort_Inr by fastforce
  have "CHR ''@'' \<notin> set ?a" using bytes port by (auto simp: with_port_def is_digit_def less_eq_char_def)
  moreover have "index_byte ?a CHR '']'' = Some (Suc (length l))"
    using index_byte_append [of "CHR '']''" "''['' @ l" "with_port p"] bytes by simp
  moreover have "find (\<lambda>c. \<not> literal_byte c) l = None" using assms(3) by (simp add: find_None_iff)
  ultimately show ?thesis
    using assms(1,2,4) literal_not_upper [OF assms(3)]
    by (auto simp: parseAuthority_def Let_def with_port_def split: option.splits)
qed

lemma parseAuthority_name:
  assumes "check_labels (split_at CHR ''.'' host) = None" "to_lower host = host" "p = [] \<or> checkPort p = Inr p"
  shows "parseAuthority (host @ with_port p) = Inr (host, p)"
proof -
  note host = checked_host [OF assms(1)]
  have bytes: "CHR '':'' \<notin> set host" "CHR ''@'' \<notin> set host" "hd host \<noteq> CHR ''[''"
    using host by (auto simp: char_classes dest!: hd_in_set)
  have port: "\<forall>c \<in> set p. is_digit c" using assms(3) checkPort_Inr by fastforce
  have "CHR ''@'' \<notin> set (host @ with_port p)"
    using bytes port by (auto simp: with_port_def is_digit_def less_eq_char_def)
  then show ?thesis
    using assms host bytes by (auto simp: parseAuthority_def Let_def with_port_def)
qed

lemma parseAuthority_Inr:
  assumes "parseAuthority authority = Inr (host, port)"
  shows "host \<noteq> [] \<and> (\<forall>c \<in> set host. host_text c) \<and> (\<forall>c \<in> set port. is_digit c) \<and>
    parseAuthority (host @ with_port port) = Inr (host, port) \<and> parseAuthority host = Inr (host, [])"
proof (cases "hd authority = CHR ''[''")
  case True
  then obtain n where n: "index_byte authority CHR '']'' = Some n"
    using assms by (auto simp: parseAuthority_def split: if_splits option.splits)
  define l where "l = to_lower (take (n - 1) (drop 1 authority))"
  have l: "length l \<ge> 2" "CHR '':'' \<in> set l" "\<forall>c \<in> set l. literal_byte c" "host = ''['' @ l @ '']''"
    "port = [] \<or> checkPort port = Inr port"
    using assms n True
    by (auto simp: parseAuthority_def Let_def l_def find_None_iff
        split: if_splits option.splits sum.splits dest: checkPort_Inr)
  have "\<forall>c \<in> set port. is_digit c" using l(5) checkPort_Inr by fastforce
  then show ?thesis
    using parseAuthority_literal [OF l(1,2,3,5)] parseAuthority_literal [OF l(1,2,3), of "[]"] l(3,4)
    by (auto simp: host_text_def with_port_def)
next
  case False
  then have name: "to_lower host = host" "check_labels (split_at CHR ''.'' host) = None"
    "port = [] \<or> checkPort port = Inr port"
    using assms
    by (auto simp: parseAuthority_def Let_def split: if_splits option.splits sum.splits intro: checkPort_fixed)
  note host = checked_host [OF name(2)]
  have "\<forall>c \<in> set port. is_digit c" using name(3) checkPort_Inr by fastforce
  then show ?thesis
    using parseAuthority_name [OF name(2,1,3)] parseAuthority_name [OF name(2,1), of "[]"] host
    by (auto simp: host_text_def host_byte_def literal_byte_def with_port_def)
qed

subsection \<open>The derivation is idempotent\<close>

lemma segment_bytes_ok: "segment_bytes s = None \<Longrightarrow> \<forall>c \<in> set s. printable c \<and> c \<noteq> CHR ''?'' \<and> c \<noteq> CHR ''#''"
proof (induction s rule: segment_bytes.induct)
  case (2 c cs)
  show ?case
  proof (cases "is_lower c \<or> is_upper c \<or> is_digit c \<or> segment_mark c")
    case True
    then have "segment_bytes cs = None" using 2(4) by (auto split: if_splits)
    moreover have "printable c \<and> c \<noteq> CHR ''?'' \<and> c \<noteq> CHR ''#''"
      using True by (auto simp: char_classes printable_def segment_mark_def)
    ultimately show ?thesis using 2(1,2) True by auto
  next
    case False
    then obtain h l rest where cs: "cs = h # l # rest" "c = CHR ''%''" "isHexDigit h" "isHexDigit l" "segment_bytes rest = None"
      using 2(4) by (auto split: if_splits list.splits)
    have "printable h \<and> h \<noteq> CHR ''?'' \<and> h \<noteq> CHR ''#''" "printable l \<and> l \<noteq> CHR ''?'' \<and> l \<noteq> CHR ''#''"
      using cs(3,4) by (auto simp: char_classes printable_def)
    moreover have "\<forall>c \<in> set rest. printable c \<and> c \<noteq> CHR ''?'' \<and> c \<noteq> CHR ''#''"
      using 2(3) False cs by auto
    ultimately show ?thesis using cs(1,2) by (auto simp: printable_def)
  qed
qed simp

lemma write_segments_Inr:
  "write_segments i segs = Inr w \<Longrightarrow> segs \<noteq> [] \<Longrightarrow>
   w = CHR ''/'' # join_with CHR ''/'' segs \<and> (\<forall>s \<in> set segs. checkSegment s = None)"
proof (induction i segs arbitrary: w rule: write_segments.induct)
  case (2 i segment segments)
  obtain w' where w: "checkSegment segment = None" "write_segments (i + 1) segments = Inr w'"
    "w = CHR ''/'' # segment @ w'"
    using 2(2) by (auto split: option.splits sum.splits)
  show ?case
  proof (cases "segments = []")
    case False
    then have "w' = CHR ''/'' # join_with CHR ''/'' segments \<and> (\<forall>s \<in> set segments. checkSegment s = None)"
      using 2(1) w(1,2) by blast
    then show ?thesis using w(1,3) False by (cases segments) auto
  qed (use w in simp)
qed simp

lemma write_segments_again:
  "\<forall>s \<in> set segs. checkSegment s = None \<Longrightarrow> segs \<noteq> [] \<Longrightarrow>
   write_segments i segs = Inr (CHR ''/'' # join_with CHR ''/'' segs)"
proof (induction i segs rule: write_segments.induct)
  case (2 i segment segments)
  then show ?case by (cases segments) auto
qed simp

lemma segment_text: "checkSegment s = None \<Longrightarrow> c \<in> set s \<Longrightarrow> printable c \<and> c \<noteq> CHR ''?'' \<and> c \<noteq> CHR ''#''"
  using segment_bytes_ok [of s] by (auto simp: checkSegment_def printable_def split: if_splits)

lemma path_text:
  assumes "\<forall>s \<in> set (split_at CHR ''/'' path). checkSegment s = None"
  shows "\<forall>c \<in> set path. printable c \<and> c \<noteq> CHR ''?'' \<and> c \<noteq> CHR ''#''"
proof
  fix c assume "c \<in> set path"
  moreover have "set path \<subseteq> insert CHR ''/'' (\<Union>(set ` set (split_at CHR ''/'' path)))"
    using set_join_with [of "CHR ''/''" "split_at CHR ''/'' path"] by simp
  ultimately consider "c = CHR ''/''" | seg where "seg \<in> set (split_at CHR ''/'' path)" "c \<in> set seg" by blast
  then show "printable c \<and> c \<noteq> CHR ''?'' \<and> c \<noteq> CHR ''#''"
  proof cases
    case 1
    then show ?thesis by (simp add: printable_def)
  next
    case 2
    then show ?thesis using assms segment_text by blast
  qed
qed

lemma index_scheme:
  "CHR '':'' \<notin> set s \<Longrightarrow> index_sub (s @ ''://'' @ r) ''://'' = Some (length s)"
proof (induction s)
  case (Cons c s)
  then show ?case by auto
qed simp

text \<open>An answer: its scheme, its host and port text, and its path, and what each satisfies.\<close>

lemma Audience_Inr:
  assumes "Audience url = Inr a"
  obtains scheme default host port path where
    "scheme = ''http'' \<and> default = ''80'' \<or> scheme = ''https'' \<and> default = ''443''"
    "parseAuthority (host @ with_port port) = Inr (host, port)" "parseAuthority host = Inr (host, [])"
    "\<forall>c \<in> set host. host_text c" "\<forall>c \<in> set port. is_digit c"
    "path = [] \<or> (\<exists>p. path = CHR ''/'' # p \<and> (\<forall>s \<in> set (split_at CHR ''/'' p). checkSegment s = None))"
    "a = scheme @ ''://'' @ host @ with_port (if port = default then [] else port) @ path"
proof -
  have nobad: "find (\<lambda>i. \<not> printable (url ! i)) [0..<length url] = None"
    using assms by (cases "find (\<lambda>i. \<not> printable (url ! i)) [0..<length url]") (simp_all add: Audience_def)
  note open1 = assms [unfolded Audience_def nobad option.case]
  obtain sep where sep: "index_sub url ''://'' = Some sep"
    using open1 by (cases "index_sub url ''://''") simp_all
  note open2 = open1 [unfolded sep option.case]
  obtain scheme default where scheme: "foldScheme (take sep url) = Inr (scheme, default)"
    using open2 by (cases "foldScheme (take sep url)") auto
  define rest where "rest = drop (sep + 3) url"
  note open3 = open2 [unfolded scheme sum.case prod.case Let_def, folded rest_def]
  have clean: "\<not> (CHR ''?'' \<in> set rest \<or> CHR ''#'' \<in> set rest)"
    by (rule notI) (use open3 in \<open>simp only: if_True sum.distinct\<close>)
  obtain authority path where ap: "(case index_byte rest CHR ''/'' of None \<Rightarrow> (rest, [])
      | Some slash \<Rightarrow> (take slash rest, drop slash rest)) = (authority, path)" by fastforce
  note open4 = open3 [unfolded if_not_P [OF clean] ap prod.case]
  obtain host port where hp: "parseAuthority authority = Inr (host, port)"
    using open4 by (cases "parseAuthority authority") auto
  note a = open4 [unfolded hp sum.case prod.case, symmetric]
  have port: "(if port \<noteq> [] \<and> port \<noteq> default then CHR '':'' # port else []) = with_port (if port = default then [] else port)"
    by (simp add: with_port_def)
  have sch: "scheme = ''http'' \<and> default = ''80'' \<or> scheme = ''https'' \<and> default = ''443''"
    using scheme by (auto simp: foldScheme_def split: if_splits)
  note facts = parseAuthority_Inr [OF hp]
  show ?thesis
  proof (cases "path = []")
    case True
    then show ?thesis using that [OF sch, of host port "[]"] facts a port by simp
  next
    case False
    then obtain p where p: "path = CHR ''/'' # p"
      using ap by (auto split: option.splits) (metis Cons_nth_drop_Suc index_byte_Some)
    obtain w where w: "write_segments 0 (split_at CHR ''/'' p) = Inr w"
      using a False p by (auto simp: Let_def split: sum.splits)
    note seg = write_segments_Inr [OF w]
    show ?thesis
      using that [OF sch, of host port path] facts a port p w seg by (simp add: Let_def)
  qed
qed

lemma foldScheme_fixed:
  "foldScheme ''http'' = Inr (''http'', ''80'')" "foldScheme ''https'' = Inr (''https'', ''443'')"
  by code_simp+

lemma Audience_fixed:
  assumes "Audience url = Inr a"
  shows "Audience a = Inr a"
proof (rule Audience_Inr [OF assms])
  fix scheme default host port path
  assume sch: "scheme = ''http'' \<and> default = ''80'' \<or> scheme = ''https'' \<and> default = ''443''"
    and auth: "parseAuthority (host @ with_port port) = Inr (host, port)" "parseAuthority host = Inr (host, [])"
    and host: "\<forall>c \<in> set host. host_text c" and port: "\<forall>c \<in> set port. is_digit c"
    and path: "path = [] \<or> (\<exists>p. path = CHR ''/'' # p \<and> (\<forall>s \<in> set (split_at CHR ''/'' p). checkSegment s = None))"
    and a: "a = scheme @ ''://'' @ host @ with_port (if port = default then [] else port) @ path"
  define port' where "port' = (if port = default then [] else port)"
  define authority where "authority = host @ with_port port'"
  have auth': "parseAuthority authority = Inr (host, port')"
    using auth by (simp add: authority_def port'_def with_port_def)
  have authority: "\<forall>c \<in> set authority. printable c \<and> c \<noteq> CHR ''/'' \<and> c \<noteq> CHR ''?'' \<and> c \<noteq> CHR ''#''"
  proof
    fix c assume "c \<in> set authority"
    then have "c \<in> set host \<or> c \<in> set port \<or> c = CHR '':''"
      by (auto simp: authority_def port'_def with_port_def split: if_splits)
    then have "host_text c \<or> c = CHR '':''" using host port digit_text by blast
    moreover have "printable CHR '':'' \<and> CHR '':'' \<noteq> CHR ''/'' \<and> CHR '':'' \<noteq> CHR ''?'' \<and> CHR '':'' \<noteq> CHR ''#''"
      by (simp add: printable_def)
    ultimately show "printable c \<and> c \<noteq> CHR ''/'' \<and> c \<noteq> CHR ''?'' \<and> c \<noteq> CHR ''#''"
      using host_text_excludes by blast
  qed
  have path_ok: "\<forall>c \<in> set path. printable c \<and> c \<noteq> CHR ''?'' \<and> c \<noteq> CHR ''#''"
  proof (cases "path = []")
    case False
    then obtain p where p: "path = CHR ''/'' # p" "\<forall>s \<in> set (split_at CHR ''/'' p). checkSegment s = None"
      using path by blast
    show ?thesis using path_text [OF p(2)] by (simp add: p(1) printable_def)
  qed simp
  have a': "a = scheme @ ''://'' @ authority @ path" by (simp add: a authority_def port'_def)
  have "\<forall>c \<in> set (scheme @ ''://''). printable c" using sch by (auto simp: printable_def)
  then have "\<forall>c \<in> set a. printable c" using authority path_ok unfolding a' set_append by blast
  then have nobad: "find (\<lambda>i. \<not> printable (a ! i)) [0..<length a] = None"
    by (auto simp: find_None_iff)
  have sep: "index_sub a ''://'' = Some (length scheme)"
    unfolding a' using sch by (intro index_scheme) auto
  have rest: "drop (length scheme + 3) a = authority @ path" by (simp add: a')
  have fold: "foldScheme (take (length scheme) a) = Inr (scheme, default)"
    using sch foldScheme_fixed by (auto simp: a')
  have cut: "(case index_byte (authority @ path) CHR ''/'' of None \<Rightarrow> (authority @ path, [])
      | Some slash \<Rightarrow> (take slash (authority @ path), drop slash (authority @ path))) = (authority, path)"
  proof (cases "path = []")
    case False
    then obtain p where "path = CHR ''/'' # p" using path by blast
    moreover have "CHR ''/'' \<notin> set authority" using authority by blast
    ultimately show ?thesis by simp
  next
    case True
    moreover have "CHR ''/'' \<notin> set authority" using authority by blast
    ultimately show ?thesis by simp
  qed
  have clean: "\<not> (CHR ''?'' \<in> set (authority @ path) \<or> CHR ''#'' \<in> set (authority @ path))"
    using authority path_ok unfolding set_append by blast
  have base: "(if port' \<noteq> [] \<and> port' \<noteq> default then CHR '':'' # port' else []) = with_port port'"
    by (simp add: with_port_def port'_def)
  have "Audience a = (if path = [] then Inr (scheme @ ''://'' @ authority)
      else (case write_segments 0 (split_at CHR ''/'' (tl path)) of Inl e \<Rightarrow> Inl e
        | Inr w \<Rightarrow> Inr ((scheme @ ''://'' @ authority) @ w)))"
    unfolding Audience_def nobad option.case sep fold sum.case prod.case Let_def rest if_not_P [OF clean] cut auth' base
    by (simp only: authority_def)
  also have "\<dots> = Inr a"
  proof (cases "path = []")
    case False
    then obtain p where p: "path = CHR ''/'' # p" "\<forall>s \<in> set (split_at CHR ''/'' p). checkSegment s = None"
      using path by blast
    show ?thesis using write_segments_again [OF p(2)] by (simp add: p(1) a')
  qed (simp add: a')
  finally show ?thesis .
qed

end
