(* ===== verification/Auth_Connection.thy ===== *)
theory Auth_Connection
  imports Auth_Audience Grant_Chain Transitions
begin

text \<open>
  \<open>auth/go/code.go\<close> and \<open>connection.go\<close>: the refusal codes, the exchange of one connection
  as a state machine over its pending nonce and its one context, and the decision at a protected
  call.
\<close>

section \<open>Codes and refusals\<close>

datatype auth_code =
    Unsupported | Established | AuthMalformed | NoChallenge | PossessionInvalid | ChainRefused
  | SubjectMismatch | Unauthenticated | AuthDenied
  | ContractMismatch | MemberUnbound | MemberUndeclared | TemplateInvalid | UnknownMember
  | MemberDenied | SelectorInvalid | ReferenceUnknown
  | OwnerCode string

fun code_text :: "auth_code \<Rightarrow> string" where
  "code_text Unsupported = ''auth.unsupported''"
| "code_text Established = ''auth.established''"
| "code_text AuthMalformed = ''auth.malformed''"
| "code_text NoChallenge = ''auth.no_challenge''"
| "code_text PossessionInvalid = ''auth.possession_invalid''"
| "code_text ChainRefused = ''auth.chain_refused''"
| "code_text SubjectMismatch = ''auth.subject_mismatch''"
| "code_text Unauthenticated = ''auth.unauthenticated''"
| "code_text AuthDenied = ''auth.denied''"
| "code_text ContractMismatch = ''auth.contract_mismatch''"
| "code_text MemberUnbound = ''auth.member_unbound''"
| "code_text MemberUndeclared = ''auth.member_undeclared''"
| "code_text TemplateInvalid = ''auth.template_invalid''"
| "code_text UnknownMember = ''auth.unknown_member''"
| "code_text MemberDenied = ''auth.member_denied''"
| "code_text SelectorInvalid = ''auth.selector_invalid''"
| "code_text ReferenceUnknown = ''auth.reference_unknown''"
| "code_text (OwnerCode reason) = ''owner:'' @ reason"

fun message :: "auth_code \<Rightarrow> string" where
  "message Unsupported = ''This connection has no audience and cannot run the exchange.''"
| "message Established = ''This connection already has a context.''"
| "message AuthMalformed = ''A parameter is malformed.''"
| "message NoChallenge = ''No challenge is pending.''"
| "message PossessionInvalid = ''The possession proof does not verify.''"
| "message ChainRefused = ''The chain does not hold.''"
| "message SubjectMismatch = ''The chain does not end at the connection'' @ [CHR 0x27] @ ''s subject.''"
| "message Unauthenticated = ''The connection has no context.''"
| "message AuthDenied = ''The chain does not permit the request.''"
| "message ContractMismatch = ''The policy is for another declaration.''"
| "message MemberUnbound = ''A declared member has no treatment.''"
| "message MemberUndeclared = ''A treatment names no declared member.''"
| "message TemplateInvalid = ''A treatment is invalid.''"
| "message UnknownMember = ''Unknown member.''"
| "message MemberDenied = ''The member is denied.''"
| "message SelectorInvalid = ''The request does not select a scope.''"
| "message ReferenceUnknown = ''Unknown reference.''"
| "message (OwnerCode reason) = ''The owner refused the effect.''"

record auth_refusal =
  aCode :: auth_code
  aGrant :: "refusal option"

definition refused :: "auth_code \<Rightarrow> auth_refusal" where
  "refused c = \<lparr>aCode = c, aGrant = None\<rparr>"

text \<open>What crosses the wire: the code, its one sentence, and the grant's code and hop as data.\<close>

record public_error =
  peCode :: string
  peMessage :: string
  peData :: "(code \<times> nat) option"

definition public_refusal :: "auth_refusal \<Rightarrow> public_error" where
  "public_refusal r =
     \<lparr>peCode = code_text (aCode r), peMessage = message (aCode r),
      peData = map_option (\<lambda>g. (rCode g, rHop g)) (aGrant r)\<rparr>"

section \<open>The exchange\<close>

definition nonceSize :: nat where "nonceSize = 32"
definition proofSize :: nat where "proofSize = 64"

record auth_context =
  cSubject :: bytes
  cChain :: "bytes list"
  cValidity :: validity
  cSince :: u64

record auth_connection =
  audience :: string
  challenge :: "bytes option"
  established :: "auth_context option"

definition NewConnection :: "string \<Rightarrow> auth_connection option" where
  "NewConnection aud =
     (if aud \<noteq> [] \<and> ConnectionBinding aud = None then None
      else Some \<lparr>audience = aud, challenge = None, established = None\<rparr>)"

definition Challenge :: "bytes \<Rightarrow> auth_connection \<Rightarrow> (auth_refusal + bytes) \<times> auth_connection" where
  "Challenge nonce c =
     (if audience c = [] then (Inl (refused Unsupported), c)
      else if established c \<noteq> None then (Inl (refused Established), c)
      else if length nonce \<noteq> nonceSize then (Inl (refused AuthMalformed), c)
      else (Inr nonce, c\<lparr>challenge := Some nonce\<rparr>))"

definition Prove ::
  "envelope_lib \<Rightarrow> possession_lib \<Rightarrow> root \<Rightarrow> bytes \<Rightarrow> bytes \<Rightarrow> bytes list \<Rightarrow> decision_time \<Rightarrow>
     auth_connection \<Rightarrow> (auth_refusal + auth_context) \<times> auth_connection" where
  "Prove lib pos root subject proof chain now c =
     (if audience c = [] then (Inl (refused Unsupported), c)
      else if established c \<noteq> None then (Inl (refused Established), c)
      else if length proof \<noteq> proofSize then (Inl (refused AuthMalformed), c)
      else case challenge c of
        None \<Rightarrow> (Inl (refused NoChallenge), c)
      | Some nonce \<Rightarrow>
          let c = c\<lparr>challenge := None\<rparr> in
          if \<not> VerifyPossession pos subject (audience c) nonce proof
          then (Inl (refused PossessionInvalid), c)
          else (case Inspect lib root chain now of
            Inl r \<Rightarrow> (Inl \<lparr>aCode = ChainRefused, aGrant = Some r\<rparr>, c)
          | Inr held \<Rightarrow>
              if vSubject held \<noteq> subject then (Inl (refused SubjectMismatch), c)
              else
                let ctx = \<lparr>cSubject = subject, cChain = chain, cValidity = vValidity held, cSince = Now now\<rparr>
                in (Inr ctx, c\<lparr>established := Some ctx\<rparr>)))"

section \<open>The decision at a call\<close>

definition Call ::
  "envelope_lib \<Rightarrow> root \<Rightarrow> auth_context option \<Rightarrow> request \<Rightarrow> decision_time \<Rightarrow> auth_refusal + verified" where
  "Call lib root ctx request now =
     (case ctx of
        None \<Rightarrow> Inl (refused Unauthenticated)
      | Some ctx \<Rightarrow>
          (case Inspect lib root (cChain ctx) now of
             Inl r \<Rightarrow> Inl \<lparr>aCode = AuthDenied, aGrant = Some r\<rparr>
           | Inr held \<Rightarrow>
               if vSubject held \<noteq> cSubject ctx then Inl (refused SubjectMismatch)
               else (case Verify lib root (cChain ctx) request now of
                 Inl r \<Rightarrow> Inl \<lparr>aCode = AuthDenied, aGrant = Some r\<rparr>
               | Inr v \<Rightarrow> Inr v)))"

section \<open>The exchange as a step relation\<close>

inductive exchange_step ::
  "envelope_lib \<Rightarrow> possession_lib \<Rightarrow> root \<Rightarrow> auth_connection \<Rightarrow> auth_connection \<Rightarrow> bool"
  for lib pos root where
  exchange_challenge: "Challenge nonce c = (res, c') \<Longrightarrow> exchange_step lib pos root c c'"
| exchange_prove: "Prove lib pos root subject proof chain now c = (res1, c') \<Longrightarrow> exchange_step lib pos root c c'"

inductive_cases exchange_stepE: "exchange_step lib pos root c c'"

text \<open>What a context was made from: a proof of possession over some nonce, and a chain that held.\<close>

definition proved_context :: "envelope_lib \<Rightarrow> possession_lib \<Rightarrow> root \<Rightarrow> string \<Rightarrow> auth_context \<Rightarrow> bool" where
  "proved_context lib pos root aud ctx \<longleftrightarrow>
     (\<exists>nonce proof now held. length nonce = nonceSize \<and> VerifyPossession pos (cSubject ctx) aud nonce proof \<and>
        Inspect lib root (cChain ctx) now = Inr held \<and> vSubject held = cSubject ctx \<and>
        vValidity held = cValidity ctx \<and> Now now = cSince ctx)"

definition exchange_ok :: "envelope_lib \<Rightarrow> possession_lib \<Rightarrow> root \<Rightarrow> auth_connection \<Rightarrow> bool" where
  "exchange_ok lib pos root c \<longleftrightarrow>
     (audience c \<noteq> [] \<longrightarrow> ConnectionBinding (audience c) \<noteq> None) \<and>
     (\<forall>n. challenge c = Some n \<longrightarrow> length n = nonceSize \<and> established c = None \<and> audience c \<noteq> []) \<and>
     (\<forall>ctx. established c = Some ctx \<longrightarrow> proved_context lib pos root (audience c) ctx)"

lemma Challenge_ok: "exchange_ok lib pos root c \<Longrightarrow> Challenge nonce c = (res, c') \<Longrightarrow> exchange_ok lib pos root c'"
  by (auto simp: Challenge_def exchange_ok_def split: if_splits)

text \<open>The three ways \<open>Prove\<close> leaves the connection.\<close>

lemma Prove_state:
  "snd (Prove lib pos root subject proof chain now c) =
     (if audience c = [] \<or> established c \<noteq> None \<or> length proof \<noteq> proofSize then c
      else case challenge c of
        None \<Rightarrow> c
      | Some nonce \<Rightarrow>
          (case Inspect lib root chain now of
             Inl r \<Rightarrow> c\<lparr>challenge := None\<rparr>
           | Inr held \<Rightarrow>
               if VerifyPossession pos subject (audience c) nonce proof \<and> vSubject held = subject
               then c\<lparr>challenge := None, established := Some \<lparr>cSubject = subject, cChain = chain,
                 cValidity = vValidity held, cSince = Now now\<rparr>\<rparr>
               else c\<lparr>challenge := None\<rparr>))"
  by (simp add: Prove_def Let_def split: option.split sum.split)

lemma Prove_ok:
  assumes ok: "exchange_ok lib pos root c" and step: "Prove lib pos root subject proof chain now c = (res, c')"
  shows "exchange_ok lib pos root c'"
proof -
  have c': "c' = snd (Prove lib pos root subject proof chain now c)" using step by simp
  have dropped: "exchange_ok lib pos root (c\<lparr>challenge := None\<rparr>)" using ok by (simp add: exchange_ok_def)
  have made: "exchange_ok lib pos root (c\<lparr>challenge := None, established := Some ctx\<rparr>)"
    if "challenge c = Some nonce" "VerifyPossession pos subject (audience c) nonce proof"
      "Inspect lib root chain now = Inr held" "vSubject held = subject"
      "ctx = \<lparr>cSubject = subject, cChain = chain, cValidity = vValidity held, cSince = Now now\<rparr>"
    for nonce held ctx
  proof -
    have "length nonce = nonceSize" using ok that(1) by (simp add: exchange_ok_def)
    then have "proved_context lib pos root (audience c) ctx"
      unfolding proved_context_def using that(2-5)
      by (intro exI [of _ nonce] exI [of _ "proof"] exI [of _ now] exI [of _ held]) simp
    then show ?thesis using ok by (simp add: exchange_ok_def)
  qed
  show ?thesis
    unfolding c' Prove_state
    by (cases "challenge c"; cases "Inspect lib root chain now") (simp_all add: ok dropped made)
qed

lemma exchange_audience: "exchange_step lib pos root c c' \<Longrightarrow> audience c' = audience c"
  by (erule exchange_stepE)
    (auto simp: Challenge_def Prove_def Let_def split: if_splits option.splits sum.splits)

lemma exchange_established: "exchange_step lib pos root c c' \<Longrightarrow> established c = Some ctx \<Longrightarrow> c' = c"
  by (erule exchange_stepE) (auto simp: Challenge_def Prove_def split: if_splits)

interpretation exchange: invariant "\<lambda>c. NewConnection aud = Some c" "exchange_step lib pos root"
  "\<lambda>c. exchange_ok lib pos root c \<and> audience c = aud" for aud lib pos root
proof unfold_locales
  show "NewConnection aud = Some c \<Longrightarrow> exchange_ok lib pos root c \<and> audience c = aud" for c
    by (auto simp: NewConnection_def exchange_ok_def split: if_splits)
  show "exchange_ok lib pos root c \<and> audience c = aud \<Longrightarrow> exchange_step lib pos root c c' \<Longrightarrow>
      exchange_ok lib pos root c' \<and> audience c' = aud" for c c'
    using exchange_audience by (auto elim: exchange_stepE intro: Challenge_ok Prove_ok)
qed

end
