(* ===== verification/Auth_Exposure.thy ===== *)
theory Auth_Exposure
  imports Auth_Connection Decimal
begin

text \<open>
  \<open>auth/go/exposure.go\<close>: a policy bound to a surface, the scope templates, the decision at
  dispatch and at the effect, export records and emissions.
\<close>

section \<open>Surfaces and policies\<close>

record surface_member =
  mKey :: string
  mFields :: "string list"

record surface =
  sFamily :: string
  sDigest :: string
  sMembers :: "surface_member list"

datatype kind = KindGuarded | KindPublic | KindDenied | OtherKind string

record treatment =
  tKind :: kind
  tAction :: string
  tScope :: string

text \<open>The treatments as an association list: what a Go map holds, each key once.\<close>

record policy =
  pFamily :: string
  pDigest :: string
  Treatments :: "(string \<times> treatment) list"

record construction_error =
  ceCode :: auth_code
  ceMembers :: "string list"

text \<open>\<open>ConstructionError.Error\<close>.\<close>

fun joined :: "string list \<Rightarrow> string" where
  "joined [] = []"
| "joined [m] = m"
| "joined (m # ms) = m @ '', '' @ joined ms"

definition construction_text :: "construction_error \<Rightarrow> string" where
  "construction_text e =
     (if ceMembers e = [] then code_text (ceCode e)
      else code_text (ceCode e) @ '': '' @ joined (ceMembers e))"

datatype part = Literal string | Hole string

record bound_member =
  bCallable :: bool
  bFields :: "string set"
  bTreatment :: treatment
  bTemplate :: "part list"

record export_record =
  eMember :: string
  eScope :: string

record binding =
  routes :: "string list"
  members :: "string \<rightharpoonup> bound_member"
  exports :: "string \<rightharpoonup> export_record"

section \<open>Templates\<close>

datatype template_error =
    ClosesNoHole | NeverCloses | MalformedHole string
  | CarriesTerms | UnknownKind string | BadAction check_error | NoTemplate
  | LiteralText text_error | ExportOutsideCallable | UnknownField string

function parseTemplate :: "string \<Rightarrow> template_error + part list" where
  "parseTemplate template =
     (if template = [] then Inr []
      else case index_byte template CHR ''{'' of
        None \<Rightarrow> if CHR ''}'' \<in> set template then Inl ClosesNoHole else Inr [Literal template]
      | Some n \<Rightarrow>
          if n > 0 \<and> CHR ''}'' \<in> set (take n template) then Inl ClosesNoHole
          else
            (case index_byte (drop n template) CHR ''}'' of
               None \<Rightarrow> Inl NeverCloses
             | Some m \<Rightarrow>
                 let hole = take (m - 1) (drop (n + 1) template) in
                 if hole = [] \<or> CHR ''{'' \<in> set hole then Inl (MalformedHole hole)
                 else (case parseTemplate (drop (n + m + 1) template) of
                   Inl e \<Rightarrow> Inl e
                 | Inr parts \<Rightarrow>
                     Inr ((if n > 0 then [Literal (take n template)] else []) @ Hole hole # parts))))"
  by pat_completeness auto
termination by (relation "measure length") auto

declare parseTemplate.simps [simp del]

definition text_check :: "string \<Rightarrow> text_error option" where
  "text_check s =
     (if \<not> valid_utf8 s then Some NotUtf8
      else map_option ControlRune (find (\<lambda>r. r < 0x20 \<or> r = 0x7f) (runes s)))"

text \<open>\<open>entry\<close>: the rule of one action or scope entry, by the grant's own encoder.\<close>

definition entry_grant :: "string \<Rightarrow> grant" where
  "entry_grant s =
     \<lparr>gDomain = ''entry'', gSubject = replicate 32 0, gParent = None, gScope = [], gActions = [s],
      gDelegable = [], gDepth = 0, gValidity = \<lparr>Finite = False, ExpiresAt = 0\<rparr>\<rparr>"

definition entry :: "string \<Rightarrow> check_error option" where
  "entry s = (case Encode (entry_grant s) of Inl e \<Rightarrow> Some e | Inr body \<Rightarrow> None)"

fun hold_parts :: "bound_member \<Rightarrow> part list \<Rightarrow> template_error option" where
  "hold_parts m [] = None"
| "hold_parts m (Literal l # parts) =
     (case text_check l of Some e \<Rightarrow> Some (LiteralText e) | None \<Rightarrow> hold_parts m parts)"
| "hold_parts m (Hole h # parts) =
     (if h = ''export'' then (if \<not> bCallable m then Some ExportOutsideCallable else hold_parts m parts)
      else if h \<notin> bFields m then Some (UnknownField h)
      else hold_parts m parts)"

definition hold :: "treatment \<Rightarrow> bound_member \<Rightarrow> template_error + part list" where
  "hold t m =
     (case tKind t of
        OtherKind k \<Rightarrow> Inl (UnknownKind k)
      | KindGuarded \<Rightarrow>
          (case entry (tAction t) of
             Some e \<Rightarrow> Inl (BadAction e)
           | None \<Rightarrow>
               if tScope t = [] then Inl NoTemplate
               else (case parseTemplate (tScope t) of
                 Inl e \<Rightarrow> Inl e
               | Inr parts \<Rightarrow>
                   (case hold_parts m parts of Some e \<Rightarrow> Inl e | None \<Rightarrow> Inr parts)))
      | _ \<Rightarrow> if tAction t \<noteq> [] \<or> tScope t \<noteq> [] then Inl CarriesTerms else Inr [])"

section \<open>Binding\<close>

definition no_treatment :: treatment where
  "no_treatment = \<lparr>tKind = OtherKind [], tAction = [], tScope = []\<rparr>"

definition declared_member :: "surface_member \<Rightarrow> bound_member" where
  "declared_member m =
     \<lparr>bCallable = has_prefix (mKey m) ''callable:'', bFields = set (mFields m), bTreatment = no_treatment, bTemplate = []\<rparr>"

text \<open>The loop over the surface's members: the first of each key is declared, the others are duplicates.\<close>

fun declare_members ::
  "surface_member list \<Rightarrow> binding \<Rightarrow> string list \<Rightarrow> binding \<times> string list" where
  "declare_members [] b duplicates = (b, duplicates)"
| "declare_members (m # ms) b duplicates =
     (if members b (mKey m) \<noteq> None then declare_members ms b (duplicates @ [mKey m])
      else declare_members ms
        (b\<lparr>members := (members b)(mKey m \<mapsto> declared_member m), routes := routes b @ [mKey m]\<rparr>) duplicates)"

text \<open>The loop over the routes: each member is held to its treatment.\<close>

fun bind_members ::
  "policy \<Rightarrow> string list \<Rightarrow> binding \<Rightarrow> string list \<Rightarrow> string list \<Rightarrow> binding \<times> string list \<times> string list" where
  "bind_members p [] b unbound invalid = (b, unbound, invalid)"
| "bind_members p (key # keys) b unbound invalid =
     (case map_of (Treatments p) key of
        None \<Rightarrow> bind_members p keys b (unbound @ [key]) invalid
      | Some t \<Rightarrow>
          (case members b key of
             None \<Rightarrow> bind_members p keys b unbound invalid
           | Some m \<Rightarrow>
               (case hold t m of
                  Inl e \<Rightarrow> bind_members p keys b unbound (invalid @ [key])
                | Inr parts \<Rightarrow>
                    bind_members p keys
                      (b\<lparr>members := (members b)(key \<mapsto> m\<lparr>bTreatment := t, bTemplate := parts\<rparr>)\<rparr>)
                      unbound invalid)))"

definition Bind :: "surface \<Rightarrow> policy \<Rightarrow> construction_error + binding" where
  "Bind s p =
     (if sFamily s \<noteq> pFamily p \<or> sDigest s \<noteq> pDigest p
      then Inl \<lparr>ceCode = ContractMismatch, ceMembers = []\<rparr>
      else
        let (b, duplicates) = declare_members (sMembers s)
              \<lparr>routes = [], members = Map.empty, exports = Map.empty\<rparr> [] in
        if duplicates \<noteq> [] then Inl \<lparr>ceCode = ContractMismatch, ceMembers = sort duplicates\<rparr>
        else
          let undeclared = filter (\<lambda>key. members b key = None) (map fst (Treatments p));
              (b, unbound, invalid) = bind_members p (routes b) b [] [] in
          if unbound \<noteq> [] then Inl \<lparr>ceCode = MemberUnbound, ceMembers = sort unbound\<rparr>
          else if undeclared \<noteq> [] then Inl \<lparr>ceCode = MemberUndeclared, ceMembers = sort undeclared\<rparr>
          else if invalid \<noteq> [] then Inl \<lparr>ceCode = TemplateInvalid, ceMembers = sort invalid\<rparr>
          else Inr b)"

definition Routes :: "binding \<Rightarrow> string list" where
  "Routes b = routes b"

section \<open>Rendering a scope\<close>

text \<open>
  A member of a decoded payload.  A finite \<open>float64\<close> is \<open>m * 2 ^ e\<close>; every kind of Go
  integer is an \<open>int\<close>, since only its decimal spelling is used; anything that is not a string or
  a number is one constructor.
\<close>

datatype payload_value =
    StringValue string
  | NumberText string
  | Float int int
  | NonFinite
  | IntegerValue int
  | OtherValue

datatype render_error =
    BadTemplate template_error
  | NoExport | ExportText text_error
  | NoMember string
  | NotInteger | NotScalar | EmptyText | Separator | SegmentText text_error
  | EmptyScope | ScopeText text_error

definition float_integer :: "int \<Rightarrow> int \<Rightarrow> int option" where
  "float_integer m e =
     (if e < 0 \<and> m mod 2 ^ nat (- e) \<noteq> 0 then None
      else
        let v = (if e < 0 then m div 2 ^ nat (- e) else m * 2 ^ nat e) in
        if \<bar>v\<bar> \<ge> 2 ^ 53 then None else Some v)"

definition scalar_text :: "payload_value \<Rightarrow> render_error + string" where
  "scalar_text v =
     (case v of
        StringValue s \<Rightarrow> Inr s
      | NumberText n \<Rightarrow> if parse_int64 n = None then Inl NotInteger else Inr n
      | Float m e \<Rightarrow> (case float_integer m e of None \<Rightarrow> Inl NotInteger | Some n \<Rightarrow> Inr (int_decimal n))
      | NonFinite \<Rightarrow> Inl NotInteger
      | IntegerValue n \<Rightarrow> Inr (int_decimal n)
      | OtherValue \<Rightarrow> Inl NotScalar)"

definition scalar :: "payload_value \<Rightarrow> render_error + string" where
  "scalar v =
     (case scalar_text v of
        Inl e \<Rightarrow> Inl e
      | Inr segment \<Rightarrow>
          if segment = [] then Inl EmptyText
          else if CHR ''/'' \<in> set segment then Inl Separator
          else (case text_check segment of Some e \<Rightarrow> Inl (SegmentText e) | None \<Rightarrow> Inr segment))"

type_synonym payload = "string \<rightharpoonup> payload_value"

text \<open>The loop of \<open>render\<close>, which answers what the builder holds.\<close>

fun render_parts :: "part list \<Rightarrow> payload \<Rightarrow> string \<Rightarrow> render_error + string" where
  "render_parts [] payload exported = Inr []"
| "render_parts (p # parts) payload exported =
     (case (case p of
              Literal l \<Rightarrow> Inr l
            | Hole h \<Rightarrow>
                if h = ''export'' then
                  (if exported = [] then Inl NoExport
                   else case text_check exported of Some e \<Rightarrow> Inl (ExportText e) | None \<Rightarrow> Inr exported)
                else
                  (case payload h of
                     None \<Rightarrow> Inl (NoMember h)
                   | Some v \<Rightarrow> scalar v)) of
        Inl e \<Rightarrow> Inl e
      | Inr written \<Rightarrow>
          (case render_parts parts payload exported of
             Inl e \<Rightarrow> Inl e
           | Inr rest \<Rightarrow> Inr (written @ rest)))"

definition render :: "part list \<Rightarrow> payload \<Rightarrow> string \<Rightarrow> render_error + string" where
  "render parts payload exported =
     (case render_parts parts payload exported of
        Inl e \<Rightarrow> Inl e
      | Inr s \<Rightarrow>
          if s = [] then Inl EmptyScope
          else (case text_check s of Some e \<Rightarrow> Inl (ScopeText e) | None \<Rightarrow> Inr s))"

definition Render :: "string \<Rightarrow> payload \<Rightarrow> string \<Rightarrow> render_error + string" where
  "Render t payload exported =
     (case parseTemplate t of Inl e \<Rightarrow> Inl (BadTemplate e) | Inr parts \<Rightarrow> render parts payload exported)"

section \<open>Decisions\<close>

record decision =
  dMember :: string
  dKind :: kind
  dSubject :: "bytes option"
  dAction :: string
  dScope :: string
  dGrant :: "verified option"

definition Decide ::
  "envelope_lib \<Rightarrow> root \<Rightarrow> binding \<Rightarrow> string \<Rightarrow> payload \<Rightarrow> string \<Rightarrow> auth_context option \<Rightarrow> decision_time \<Rightarrow>
     auth_refusal + decision" where
  "Decide lib root b key payload exported ctx now =
     (case members b key of
        None \<Rightarrow> Inl (refused UnknownMember)
      | Some m \<Rightarrow>
          if tKind (bTreatment m) = KindDenied then Inl (refused MemberDenied)
          else if tKind (bTreatment m) = KindPublic then
            Inr \<lparr>dMember = key, dKind = KindPublic, dSubject = map_option cSubject ctx, dAction = [],
                 dScope = [], dGrant = None\<rparr>
          else (case ctx of
            None \<Rightarrow> Inl (refused Unauthenticated)
          | Some c \<Rightarrow>
              (case render (bTemplate m) payload exported of
                 Inl e \<Rightarrow> Inl (refused SelectorInvalid)
               | Inr scope \<Rightarrow>
                   (case Call lib root ctx
                       \<lparr>reqDomain = rootDomain root, reqAction = tAction (bTreatment m), reqScope = scope\<rparr> now of
                      Inl r \<Rightarrow> Inl r
                    | Inr v \<Rightarrow>
                        Inr \<lparr>dMember = key, dKind = KindGuarded, dSubject = Some (cSubject c),
                             dAction = tAction (bTreatment m), dScope = scope, dGrant = Some v\<rparr>))))"

text \<open>The owner's condition answers nothing when it holds, and its reason when it does not.\<close>

definition Effect ::
  "envelope_lib \<Rightarrow> root \<Rightarrow> binding \<Rightarrow> decision option \<Rightarrow> auth_context option \<Rightarrow> decision_time \<Rightarrow>
     (string \<Rightarrow> string option) option \<Rightarrow> auth_refusal option" where
  "Effect lib root b d ctx now cond =
     (case d of
        None \<Rightarrow> Some (refused UnknownMember)
      | Some d \<Rightarrow>
          if members b (dMember d) = None then Some (refused UnknownMember)
          else
            case (case dKind d of
                KindPublic \<Rightarrow> None
              | KindGuarded \<Rightarrow>
                  (case ctx of
                     None \<Rightarrow> Some (refused Unauthenticated)
                   | Some c \<Rightarrow>
                       if dSubject d \<noteq> Some (cSubject c) then Some (refused SubjectMismatch)
                       else (case Call lib root ctx
                           \<lparr>reqDomain = rootDomain root, reqAction = dAction d, reqScope = dScope d\<rparr> now of
                         Inl r \<Rightarrow> Some r
                       | Inr v \<Rightarrow> None))
              | _ \<Rightarrow> Some (refused MemberDenied)) of
              Some r \<Rightarrow> Some r
            | None \<Rightarrow>
                (case cond of
                   None \<Rightarrow> None
                 | Some holds \<Rightarrow> map_option (\<lambda>reason. refused (OwnerCode reason)) (holds (dScope d))))"

section \<open>Exported references\<close>

datatype export_error =
    NoReference | NotDeclared string | NotCallable string | BadScope check_error | AlreadyExported export_record

definition Export_ref :: "string \<Rightarrow> string \<Rightarrow> string \<Rightarrow> binding \<Rightarrow> export_error option \<times> binding" where
  "Export_ref ref key scope b =
     (if ref = [] then (Some NoReference, b)
      else case members b key of
        None \<Rightarrow> (Some (NotDeclared key), b)
      | Some m \<Rightarrow>
          if \<not> bCallable m then (Some (NotCallable key), b)
          else (case entry scope of
            Some e \<Rightarrow> (Some (BadScope e), b)
          | None \<Rightarrow>
              let record' = \<lparr>eMember = key, eScope = scope\<rparr> in
              (case exports b ref of
                 Some existing \<Rightarrow>
                   if existing \<noteq> record' then (Some (AlreadyExported existing), b)
                   else (None, b\<lparr>exports := (exports b)(ref \<mapsto> record')\<rparr>)
               | None \<Rightarrow> (None, b\<lparr>exports := (exports b)(ref \<mapsto> record')\<rparr>))))"

definition Invoke_ref ::
  "envelope_lib \<Rightarrow> root \<Rightarrow> binding \<Rightarrow> string \<Rightarrow> payload \<Rightarrow> auth_context option \<Rightarrow> decision_time \<Rightarrow>
     auth_refusal + decision" where
  "Invoke_ref lib root b ref payload ctx now =
     (case exports b ref of
        None \<Rightarrow> Inl (refused ReferenceUnknown)
      | Some r \<Rightarrow> Decide lib root b (eMember r) payload (eScope r) ctx now)"

section \<open>Emission\<close>

record recipient =
  rName :: string
  rCtx :: "auth_context option"

record delivery =
  dRecipient :: string
  dRefused :: "auth_refusal option"

definition Emit ::
  "envelope_lib \<Rightarrow> root \<Rightarrow> binding \<Rightarrow> string \<Rightarrow> payload \<Rightarrow> recipient list \<Rightarrow> decision_time \<Rightarrow> delivery list" where
  "Emit lib root b event data to now =
     map (\<lambda>r. \<lparr>dRecipient = rName r,
         dRefused =
           (if \<not> has_prefix event ''event:'' then Some (refused UnknownMember)
            else case Decide lib root b event data [] (rCtx r) now of Inl refusal \<Rightarrow> Some refusal | Inr d \<Rightarrow> None)\<rparr>) to"

end
