(* ===== verification/Auth_Binding.thy ===== *)
theory Auth_Binding
  imports Auth_Exposure
begin

text \<open>What \<open>Bind\<close> constructs, and what a rendered scope is.\<close>

section \<open>What binding constructs\<close>

lemma declare_members_duplicates:
  "\<exists>extra. snd (declare_members ms b duplicates) = duplicates @ extra \<and>
     (extra = [] \<longleftrightarrow> distinct (map mKey ms) \<and> (\<forall>m \<in> set ms. members b (mKey m) = None))"
proof (induction ms b duplicates rule: declare_members.induct)
  case (2 m ms b duplicates)
  show ?case
  proof (cases "members b (mKey m) = None")
    case True
    let ?b = "b\<lparr>members := (members b)(mKey m \<mapsto> declared_member m), routes := routes b @ [mKey m]\<rparr>"
    have "(\<forall>ma \<in> set ms. members ?b (mKey ma) = None) \<longleftrightarrow>
        mKey m \<notin> mKey ` set ms \<and> (\<forall>ma \<in> set ms. members b (mKey ma) = None)"
      by (auto intro: rev_image_eqI)
    then show ?thesis using 2(2) True by auto
  next
    case False
    then show ?thesis using 2(1) by auto
  qed
qed simp

lemma declare_members_result:
  "distinct (map mKey ms) \<Longrightarrow> \<forall>m \<in> set ms. members b (mKey m) = None \<Longrightarrow>
   routes (fst (declare_members ms b duplicates)) = routes b @ map mKey ms \<and>
   exports (fst (declare_members ms b duplicates)) = exports b \<and>
   members (fst (declare_members ms b duplicates)) =
     members b ++ map_of (map (\<lambda>m. (mKey m, declared_member m)) ms)"
proof (induction ms b duplicates rule: declare_members.induct)
  case (2 m ms b duplicates)
  have "map_of (map (\<lambda>m. (mKey m, declared_member m)) ms) (mKey m) = None"
    using 2(3) by (force simp: map_of_eq_None_iff)
  then have "(members b)(mKey m \<mapsto> declared_member m) ++ map_of (map (\<lambda>m. (mKey m, declared_member m)) ms) =
      members b ++ map_of (map (\<lambda>m. (mKey m, declared_member m)) (m # ms))"
    by (intro ext) (auto simp: map_add_def split: option.split)
  moreover have "\<forall>ma \<in> set ms. members (b\<lparr>members := (members b)(mKey m \<mapsto> declared_member m),
      routes := routes b @ [mKey m]\<rparr>) (mKey ma) = None"
    using 2(3,4) by (auto intro: rev_image_eqI)
  moreover have "distinct (map mKey ms)" "members b (mKey m) = None" "map mKey (m # ms) = mKey m # map mKey ms"
    using 2(3,4) by simp_all
  ultimately show ?case using 2(2) by (simp del: fun_upd_apply map_of.simps list.map)
qed simp

text \<open>What holding a route to its treatment makes of it.\<close>

definition held_member :: "policy \<Rightarrow> string \<Rightarrow> bound_member \<Rightarrow> bound_member option" where
  "held_member p key m =
     (case map_of (Treatments p) key of
        None \<Rightarrow> None
      | Some t \<Rightarrow>
          (case hold t m of
             Inl e \<Rightarrow> None
           | Inr parts \<Rightarrow> Some (m\<lparr>bTreatment := t, bTemplate := parts\<rparr>)))"

definition bound_as :: "policy \<Rightarrow> string list \<Rightarrow> binding \<Rightarrow> string list \<Rightarrow> string list \<Rightarrow> binding \<Rightarrow> bool" where
  "bound_as p keys b u i b' \<longleftrightarrow>
     routes b' = routes b \<and> exports b' = exports b \<and>
     (u = [] \<longleftrightarrow> (\<forall>k \<in> set keys. map_of (Treatments p) k \<noteq> None)) \<and>
     (u = [] \<longrightarrow> (i = [] \<longleftrightarrow> (\<forall>k \<in> set keys. held_member p k (the (members b k)) \<noteq> None))) \<and>
     (u = [] \<longrightarrow> i = [] \<longrightarrow> (\<forall>k. members b' k =
        (if k \<in> set keys then held_member p k (the (members b k)) else members b k)))"

lemma bind_members_result:
  assumes "distinct keys" "\<forall>k \<in> set keys. members b k \<noteq> None"
  shows "\<exists>b' u i. bind_members p keys b unbound invalid = (b', unbound @ u, invalid @ i) \<and> bound_as p keys b u i b'"
  using assms
proof (induction p keys b unbound invalid rule: bind_members.induct)
  case (2 p key keys b unbound invalid)
  have prem: "distinct keys" "\<forall>k \<in> set keys. members b k \<noteq> None" "key \<notin> set keys"
    using 2(5,6) by auto
  obtain m where m: "members b key = Some m" using 2(6) by auto
  show ?case
  proof (cases "map_of (Treatments p) key")
    case None
    from 2(1) [OF None prem(1,2)] obtain b' u i where
      ih: "bind_members p keys b (unbound @ [key]) invalid = (b', (unbound @ [key]) @ u, invalid @ i)"
        "bound_as p keys b u i b'" by blast
    then have "bound_as p (key # keys) b (key # u) i b'" using None by (simp add: bound_as_def)
    then show ?thesis
      using None ih(1) by (intro exI [of _ b'] exI [of _ "key # u"] exI [of _ i]) simp
  next
    case (Some t)
    show ?thesis
    proof (cases "hold t m")
      case (Inl e)
      then have bad: "held_member p key m = None" by (simp add: held_member_def Some)
      from 2(3) [OF Some m Inl prem(1,2)] obtain b' u i where
        ih: "bind_members p keys b unbound (invalid @ [key]) = (b', unbound @ u, (invalid @ [key]) @ i)"
          "bound_as p keys b u i b'" by blast
      then have "bound_as p (key # keys) b u (key # i) b'" using Some bad m by (simp add: bound_as_def)
      then show ?thesis
        using Some m Inl ih(1) by (intro exI [of _ b'] exI [of _ u] exI [of _ "key # i"]) simp
    next
      case (Inr parts)
      let ?m = "m\<lparr>bTreatment := t, bTemplate := parts\<rparr>"
      let ?b = "b\<lparr>members := (members b)(key \<mapsto> ?m)\<rparr>"
      have good: "held_member p key m = Some ?m" by (simp add: held_member_def Some Inr)
      have other: "k \<in> set keys \<Longrightarrow> members ?b k = members b k" for k using prem(3) by auto
      have "\<forall>k \<in> set keys. members ?b k \<noteq> None" using prem(2) by simp
      from 2(4) [OF Some m Inr prem(1) this] obtain b' u i where
        ih: "bind_members p keys ?b unbound invalid = (b', unbound @ u, invalid @ i)"
          "bound_as p keys ?b u i b'" by blast
      have "bound_as p (key # keys) b u i b'"
        using ih(2) prem(3) Some good m unfolding bound_as_def by (auto simp: other)
      then show ?thesis
        using Some m Inr ih(1) by (intro exI [of _ b'] exI [of _ u] exI [of _ i]) simp
    qed
  qed
qed (simp add: bound_as_def)

lemma Bind_Inr:
  "Bind s p = Inr b \<longleftrightarrow>
     sFamily s = pFamily p \<and> sDigest s = pDigest p \<and> distinct (map mKey (sMembers s)) \<and>
     set (map fst (Treatments p)) = set (map mKey (sMembers s)) \<and>
     (\<forall>m \<in> set (sMembers s). held_member p (mKey m) (declared_member m) \<noteq> None) \<and>
     routes b = map mKey (sMembers s) \<and> exports b = Map.empty \<and>
     (\<forall>k. members b k = Option.bind (map_of (map (\<lambda>m. (mKey m, declared_member m)) (sMembers s)) k) (held_member p k))"
proof -
  let ?b0 = "\<lparr>routes = [], members = Map.empty, exports = Map.empty\<rparr> :: binding"
  let ?M = "map_of (map (\<lambda>m. (mKey m, declared_member m)) (sMembers s))"
  obtain b1 dups where d: "declare_members (sMembers s) ?b0 [] = (b1, dups)" by fastforce
  have dups: "dups = [] \<longleftrightarrow> distinct (map mKey (sMembers s))"
    using declare_members_duplicates [of "sMembers s" ?b0 "[]"] d by auto
  show ?thesis
  proof (cases "sFamily s = pFamily p \<and> sDigest s = pDigest p \<and> dups = []")
    case True
    then have dist: "distinct (map mKey (sMembers s))" using dups by simp
    have b1: "routes b1 = map mKey (sMembers s)" "exports b1 = Map.empty" "members b1 = ?M"
      using declare_members_result [OF dist, of ?b0 "[]"] d by auto
    have M: "m \<in> set (sMembers s) \<Longrightarrow> ?M (mKey m) = Some (declared_member m)" for m
      using dist by (intro map_of_is_SomeI) (auto simp: comp_def)
    have domM: "?M k = None \<longleftrightarrow> k \<notin> set (map mKey (sMembers s))" for k
      by (force simp: map_of_eq_None_iff)
    have "\<forall>k \<in> set (routes b1). members b1 k \<noteq> None" using domM by (auto simp: b1)
    from bind_members_result [of "routes b1" b1 p "[]" "[]", OF _ this] dist
    obtain b2 u i where r1: "bind_members p (routes b1) b1 [] [] = (b2, u, i)" and r: "bound_as p (routes b1) b1 u i b2"
      by (auto simp: b1(1))
    have r2: "routes b2 = routes b1" "exports b2 = exports b1"
      "u = [] \<longleftrightarrow> (\<forall>k \<in> set (routes b1). map_of (Treatments p) k \<noteq> None)"
      "u = [] \<Longrightarrow> i = [] \<longleftrightarrow> (\<forall>k \<in> set (routes b1). held_member p k (the (members b1 k)) \<noteq> None)"
      "u = [] \<Longrightarrow> i = [] \<Longrightarrow> members b2 k =
        (if k \<in> set (routes b1) then held_member p k (the (members b1 k)) else members b1 k)" for k
      using r unfolding bound_as_def by blast+
    let ?und = "filter (\<lambda>key. members b1 key = None) (map fst (Treatments p))"
    have und: "?und = [] \<longleftrightarrow> set (map fst (Treatments p)) \<subseteq> set (map mKey (sMembers s))"
      using domM by (auto simp: b1 filter_empty_conv)
    have u: "u = [] \<longleftrightarrow> set (map mKey (sMembers s)) \<subseteq> set (map fst (Treatments p))"
      unfolding r2(3) by (auto simp: b1 map_of_eq_None_iff)
    have i: "u = [] \<Longrightarrow> i = [] \<longleftrightarrow> (\<forall>m \<in> set (sMembers s). held_member p (mKey m) (declared_member m) \<noteq> None)"
      using r2(4) M by (simp add: b1)
    have mem: "members b2 k = Option.bind (?M k) (held_member p k)" if "u = []" "i = []" for k
      using r2(5) [OF that, of k] domM [of k] by (cases "?M k") (auto simp: b1)
    have eq: "b2 = b \<longleftrightarrow> routes b = map mKey (sMembers s) \<and> exports b = Map.empty \<and>
        (\<forall>k. members b k = Option.bind (?M k) (held_member p k))" if "u = []" "i = []"
      using r2(1,2) b1(1,2) mem [OF that] by (auto intro!: binding.equality ext)
    have "Bind s p = (if u \<noteq> [] then Inl \<lparr>ceCode = MemberUnbound, ceMembers = sort u\<rparr>
        else if ?und \<noteq> [] then Inl \<lparr>ceCode = MemberUndeclared, ceMembers = sort ?und\<rparr>
        else if i \<noteq> [] then Inl \<lparr>ceCode = TemplateInvalid, ceMembers = sort i\<rparr> else Inr b2)"
      using True d r1 by (simp add: Bind_def Let_def)
    then have "Bind s p = Inr b \<longleftrightarrow> u = [] \<and> ?und = [] \<and> i = [] \<and> b2 = b" by simp
    also have "\<dots> \<longleftrightarrow> set (map fst (Treatments p)) = set (map mKey (sMembers s)) \<and>
        (\<forall>m \<in> set (sMembers s). held_member p (mKey m) (declared_member m) \<noteq> None) \<and>
        routes b = map mKey (sMembers s) \<and> exports b = Map.empty \<and>
        (\<forall>k. members b k = Option.bind (?M k) (held_member p k))"
      using u und i eq by blast
    finally show ?thesis using True dist by simp
  next
    case False
    then have "Bind s p \<noteq> Inr b" using d by (auto simp: Bind_def)
    then show ?thesis using False dups by blast
  qed
qed

section \<open>What a rendered scope is\<close>

lemma scalar_segment: "scalar v = Inr s \<Longrightarrow> s \<noteq> [] \<and> CHR ''/'' \<notin> set s \<and> text_check s = None"
  by (auto simp: scalar_def split: sum.splits if_splits option.splits)

text \<open>What may stand where a part of a template was.\<close>

fun filled :: "string \<Rightarrow> part \<Rightarrow> string \<Rightarrow> bool" where
  "filled exported (Literal l) s \<longleftrightarrow> s = l"
| "filled exported (Hole h) s \<longleftrightarrow>
     (if h = ''export'' then s = exported else s \<noteq> [] \<and> CHR ''/'' \<notin> set s)"

lemma render_parts_filled:
  "render_parts parts payload exported = Inr s \<Longrightarrow>
   \<exists>fills. list_all2 (filled exported) parts fills \<and> s = concat fills"
proof (induction parts arbitrary: s)
  case (Cons p parts)
  obtain w rest where w: "render_parts parts payload exported = Inr rest" "s = w @ rest" "filled exported p w"
  proof (cases p)
    case (Literal l)
    then show ?thesis using Cons.prems that by (auto split: sum.splits)
  next
    case (Hole h)
    then show ?thesis
      using Cons.prems that scalar_segment
      by (cases "h = ''export''") (fastforce split: sum.splits if_splits option.splits)+
  qed
  then obtain fills where "list_all2 (filled exported) parts fills" "rest = concat fills" using Cons.IH by blast
  then show ?case using w by (intro exI [of _ "w # fills"]) simp
qed simp

lemma Render_filled:
  assumes "Render t payload exported = Inr s"
  obtains parts fills where "parseTemplate t = Inr parts" "list_all2 (filled exported) parts fills"
    "s = concat fills" "s \<noteq> []" "text_check s = None"
proof -
  obtain parts where parts: "parseTemplate t = Inr parts" "render parts payload exported = Inr s"
    using assms by (auto simp: Render_def split: sum.splits)
  then have "render_parts parts payload exported = Inr s" "s \<noteq> []" "text_check s = None"
    by (auto simp: render_def split: sum.splits if_splits option.splits)
  then show ?thesis using that parts(1) render_parts_filled by blast
qed

text \<open>The commonest template: a fixed path and one hole.\<close>

lemma parse_segment_template:
  assumes "CHR ''{'' \<notin> set p" "CHR ''}'' \<notin> set p" "h \<noteq> []" "CHR ''{'' \<notin> set h" "CHR ''}'' \<notin> set h"
  shows "parseTemplate (p @ ''/{'' @ h @ ''}'') = Inr [Literal (p @ ''/''), Hole h]"
proof -
  let ?t = "p @ ''/{'' @ h @ ''}''"
  have opens: "index_byte ?t CHR ''{'' = Some (Suc (length p))"
    using index_byte_append [of "CHR ''{''" "p @ ''/''" "h @ ''}''"] assms by simp
  have "drop (Suc (length p)) ?t = (CHR ''{'' # h) @ CHR ''}'' # []" by simp
  then have closes: "index_byte (drop (Suc (length p)) ?t) CHR ''}'' = Some (Suc (length h))"
    using index_byte_append [of "CHR ''}''" "CHR ''{'' # h" "[]"] assms(5) by simp
  have "parseTemplate [] = Inr []" by (simp add: parseTemplate.simps)
  then show ?thesis
    using assms opens closes by (subst parseTemplate.simps) (simp add: Let_def)
qed

section \<open>What a decision rests on\<close>

lemma Call_Inr:
  "Call lib root ctx rq now = Inr v \<longleftrightarrow>
     (\<exists>c held. ctx = Some c \<and> Inspect lib root (cChain c) now = Inr held \<and> vSubject held = cSubject c \<and>
        Verify lib root (cChain c) rq now = Inr v)"
  by (auto simp: Call_def split: option.splits sum.splits)

lemma Verify_subject:
  assumes "Verify lib root chain rq now = Inr v" "Inspect lib root chain now = Inr held"
  shows "v = held"
proof -
  from assms(1) obtain gs where gs: "evaluate lib root chain (Some rq) now = Inr (v, gs)"
    by (auto simp: Verify_def split: sum.splits)
  from assms(2) obtain gs' where gs': "evaluate lib root chain None now = Inr (held, gs')"
    by (auto simp: Inspect_def split: sum.splits)
  have "chain_ok lib root chain gs" "chain_ok lib root chain gs'" "v = chain_leaf gs" "held = chain_leaf gs'"
    using gs gs' by (simp_all add: evaluate_Inr accepts_def)
  moreover from this have "gs = gs'" by (metis evaluate_hops_chain_ok sum.inject(2))
  ultimately show ?thesis by simp
qed

lemma Decide_Inr:
  assumes "Decide lib root b key payload exported ctx now = Inr d"
  shows "\<exists>m. members b key = Some m \<and> dMember d = key \<and> tKind (bTreatment m) \<noteq> KindDenied \<and>
    (tKind (bTreatment m) = KindPublic \<and> dKind d = KindPublic \<and> dGrant d = None \<and> dSubject d = map_option cSubject ctx \<or>
     tKind (bTreatment m) \<noteq> KindPublic \<and> dKind d = KindGuarded \<and>
     (\<exists>c v. ctx = Some c \<and> dSubject d = Some (cSubject c) \<and> dAction d = tAction (bTreatment m) \<and>
        render (bTemplate m) payload exported = Inr (dScope d) \<and> dGrant d = Some v \<and>
        Call lib root ctx \<lparr>reqDomain = rootDomain root, reqAction = dAction d, reqScope = dScope d\<rparr> now = Inr v))"
proof -
  obtain m where m: "members b key = Some m" "tKind (bTreatment m) \<noteq> KindDenied"
    using assms by (auto simp: Decide_def split: option.splits if_splits)
  show ?thesis
  proof (cases "tKind (bTreatment m) = KindPublic")
    case True
    then show ?thesis using assms m by (auto simp: Decide_def)
  next
    case False
    then obtain c scope v where c: "ctx = Some c" "render (bTemplate m) payload exported = Inr scope"
      "Call lib root ctx \<lparr>reqDomain = rootDomain root, reqAction = tAction (bTreatment m), reqScope = scope\<rparr> now = Inr v"
      "d = \<lparr>dMember = key, dKind = KindGuarded, dSubject = Some (cSubject c), dAction = tAction (bTreatment m),
        dScope = scope, dGrant = Some v\<rparr>"
      using assms m by (auto simp: Decide_def split: option.splits sum.splits)
    then show ?thesis using m False by auto
  qed
qed

text \<open>A member of a binding carries the policy's treatment and its parsed template.\<close>

lemma bound_treatment:
  assumes "Bind s p = Inr b" "members b key = Some m"
  shows "key \<in> set (map mKey (sMembers s)) \<and> map_of (Treatments p) key = Some (bTreatment m) \<and>
    (tKind (bTreatment m) = KindPublic \<or> tKind (bTreatment m) = KindDenied \<or>
     tKind (bTreatment m) = KindGuarded \<and> parseTemplate (tScope (bTreatment m)) = Inr (bTemplate m))"
proof -
  let ?M = "map_of (map (\<lambda>m. (mKey m, declared_member m)) (sMembers s)) key"
  have "Option.bind ?M (held_member p key) = Some m" using assms by (simp add: Bind_Inr)
  then obtain m0 where m0: "?M = Some m0" "held_member p key m0 = Some m" by (auto simp: bind_eq_Some_conv)
  then have "key \<in> set (map mKey (sMembers s))" by (force dest: map_of_SomeD)
  moreover from m0(2) obtain t parts where t: "map_of (Treatments p) key = Some t" "hold t m0 = Inr parts"
    "m = m0\<lparr>bTreatment := t, bTemplate := parts\<rparr>"
    by (auto simp: held_member_def split: option.splits sum.splits)
  moreover from t(2) have "tKind t = KindPublic \<or> tKind t = KindDenied \<or>
      tKind t = KindGuarded \<and> parseTemplate (tScope t) = Inr parts"
    by (cases "tKind t") (auto simp: hold_def split: option.splits sum.splits if_splits)
  ultimately show ?thesis by simp
qed

end
