(* ===== verification/Auth_Spec.thy ===== *)
theory Auth_Spec
  imports Auth_Binding Grant_Spec
begin

text \<open>
  The properties of the audience, the exchange and the exposure.  The witnesses use the chain of
  \<open>Grant_Spec\<close>, a possession scheme whose proof is the key followed by the nonce, and a surface
  of one callable and one event.
\<close>

section \<open>Helpers\<close>

lemma accepts_covers:
  "accepts lib root chain (Some rq) now gs \<Longrightarrow>
     chain \<noteq> [] \<and> chain_ok lib root chain gs \<and> reqDomain rq = rootDomain root \<and>
     (\<forall>g \<in> set gs. reqAction rq \<in> set (gActions g) \<and> (\<exists>e \<in> set (gScope g). covers e (reqScope rq)))"
  by (simp add: accepts_def covers_request_def)

lemma accepts_later:
  "accepts lib root chain rq now gs \<Longrightarrow> accepts lib root chain rq now' gs \<longleftrightarrow> timely now' (gValidity (last gs))"
  by (auto simp: accepts_def)

lemma Call_later:
  assumes "Call lib root ctx rq now = Inr v"
  shows "(\<exists>w. Call lib root ctx rq now' = Inr w) \<longleftrightarrow> timely now' (vValidity v)"
proof -
  obtain c held where c: "ctx = Some c" "Inspect lib root (cChain c) now = Inr held" "vSubject held = cSubject c"
    "Verify lib root (cChain c) rq now = Inr v"
    using assms unfolding Call_Inr by blast
  obtain gs where gs: "accepts lib root (cChain c) (Some rq) now gs" "v = chain_leaf gs"
    using c(4) unfolding Verify_Inr by blast
  obtain hs where hs: "accepts lib root (cChain c) None now hs" "held = chain_leaf hs"
    using c(2) unfolding Inspect_Inr by blast
  have same: "hs = gs" using c(2,4) gs(1) hs(1)
    by (metis accepts_def evaluate_hops_chain_ok sum.inject(2))
  have valid: "vValidity v = gValidity (last gs)" by (simp add: gs(2) chain_leaf_def)
  show ?thesis
  proof
    assume "\<exists>w. Call lib root ctx rq now' = Inr w"
    then obtain ks where "accepts lib root (cChain c) None now' ks"
      unfolding Call_Inr Inspect_Inr using c(1) by auto
    moreover from this have "ks = gs"
      using hs(1) unfolding same [symmetric] by (metis accepts_def evaluate_hops_chain_ok sum.inject(2))
    ultimately show "timely now' (vValidity v)" by (simp add: accepts_def valid)
  next
    assume "timely now' (vValidity v)"
    then have "accepts lib root (cChain c) (Some rq) now' gs" "accepts lib root (cChain c) None now' gs"
      using gs(1) hs(1) by (simp_all add: accepts_later same valid)
    then have "Verify lib root (cChain c) rq now' = Inr v" "Inspect lib root (cChain c) now' = Inr v"
      unfolding Verify_Inr Inspect_Inr gs(2) by blast+
    moreover have "vSubject v = cSubject c" using c(3) gs(2) hs(2) same by simp
    ultimately show "\<exists>w. Call lib root ctx rq now' = Inr w" unfolding Call_Inr c(1) by blast
  qed
qed

lemma bind_members_unbound:
  "\<forall>k \<in> set keys. members b k \<noteq> None \<Longrightarrow>
   fst (snd (bind_members p keys b unbound invalid)) =
     unbound @ filter (\<lambda>k. k \<notin> fst ` set (Treatments p)) keys"
proof (induction p keys b unbound invalid rule: bind_members.induct)
  case (2 p key keys b unbound invalid)
  have out: "map_of (Treatments p) key = None \<longleftrightarrow> key \<notin> fst ` set (Treatments p)"
    by (simp add: map_of_eq_None_iff)
  show ?case
  proof (cases "map_of (Treatments p) key")
    case None
    then show ?thesis using 2(1) 2(5) out by simp
  next
    case (Some t)
    then have key: "\<not> key \<notin> fst ` set (Treatments p)" using out by simp
    obtain m where m: "members b key = Some m" using 2(5) by auto
    show ?thesis
    proof (cases "hold t m")
      case (Inl e)
      then show ?thesis using 2(3) [OF Some m Inl] 2(5) Some m key by simp
    next
      case (Inr parts)
      have "\<forall>k \<in> set keys. members (b\<lparr>members := (members b)(key \<mapsto> m\<lparr>bTreatment := t, bTemplate := parts\<rparr>)\<rparr>) k \<noteq> None"
        using 2(5) by simp
      from 2(4) [OF Some m Inr this] show ?thesis using Some m Inr key by simp
    qed
  qed
qed simp

lemma entry_None: "entry s = None \<longleftrightarrow> text_ok s maxEntryBytes"
proof -
  have "text_ok ''entry'' maxDomainBytes" by (simp add: text_ok_def grant_bounds)
  then have "grant_ok (entry_grant s) \<longleftrightarrow> text_ok s maxEntryBytes"
    by (simp add: grant_ok_def list_ok_def entry_grant_def grant_bounds)
  moreover have "length (version # enc_grant (entry_grant s)) \<le> maxBodyBytes" if "text_ok s maxEntryBytes"
  proof -
    have "length (enc_grant (entry_grant s)) = 49 + length s"
      by (simp add: enc_grant_def enc_domain_def enc_parent_def enc_list_def enc_entry_def enc_u8_def
          enc_validity_def entry_grant_def)
    then show ?thesis using that by (simp add: text_ok_def grant_bounds)
  qed
  moreover have "entry s = None \<longleftrightarrow> (\<exists>body. Encode (entry_grant s) = Inr body)"
    by (simp add: entry_def split: sum.split)
  ultimately show ?thesis unfolding Encode_Inr_iff by blast
qed

section \<open>A concrete connection\<close>

definition demo_pos :: possession_lib where
  "demo_pos = \<lparr>pos_prove = (\<lambda>seed dom nonce b. Some (seed @ nonce)),
     pos_verify = (\<lambda>key dom nonce b p. p = key @ nonce)\<rparr>"

definition demo_key :: bytes where "demo_key = replicate 32 3"
definition demo_nonce :: bytes where "demo_nonce = replicate 32 9"
definition demo_audience :: string where "demo_audience = ''https://ex.com/a''"

definition demo_context :: auth_context where
  "demo_context = \<lparr>cSubject = demo_key, cChain = [demo_env0, demo_env1],
     cValidity = \<lparr>Finite = True, ExpiresAt = 100\<rparr>, cSince = 50\<rparr>"

definition demo_connection :: "bytes option \<Rightarrow> auth_context option \<Rightarrow> auth_connection" where
  "demo_connection n ctx = \<lparr>audience = demo_audience, challenge = n, established = ctx\<rparr>"

definition demo_surface :: surface where
  "demo_surface = \<lparr>sFamily = ''f'', sDigest = ''1'',
     sMembers = [\<lparr>mKey = ''callable:get'', mFields = [''id'']\<rparr>, \<lparr>mKey = ''event:up'', mFields = []\<rparr>]\<rparr>"

definition demo_guard :: treatment where
  "demo_guard = \<lparr>tKind = KindGuarded, tAction = ''r'', tScope = ''a/b/{id}''\<rparr>"

definition demo_policy :: policy where
  "demo_policy = \<lparr>pFamily = ''f'', pDigest = ''1'', Treatments =
     [(''event:up'', \<lparr>tKind = KindPublic, tAction = [], tScope = []\<rparr>), (''callable:get'', demo_guard)]\<rparr>"

definition demo_binding :: binding where
  "demo_binding = (case Bind demo_surface demo_policy of Inr b \<Rightarrow> b | Inl e \<Rightarrow> \<lparr>routes = [], members = Map.empty, exports = Map.empty\<rparr>)"

definition demo_payload :: payload where
  "demo_payload = [''id'' \<mapsto> StringValue ''c'']"

lemma demo_audience_fixed: "Audience demo_audience = Inr demo_audience" by code_simp

lemma demo_entry: "entry ''r'' = None" by (simp add: entry_None grant_bounds)

lemma demo_literal: "text_check ''a/b/'' = None" "text_check ''c'' = None" "text_check ''a/b/c'' = None"
  by (simp_all add: text_check_def)

lemma demo_template: "parseTemplate ''a/b/{id}'' = Inr [Literal ''a/b/'', Hole ''id'']"
  using parse_segment_template [of "''a/b''" "''id''"] by simp

lemma demo_bind: "Bind demo_surface demo_policy = Inr demo_binding"
proof -
  have "\<exists>b. Bind demo_surface demo_policy = Inr b"
    by (simp add: Bind_def demo_surface_def demo_policy_def demo_guard_def declared_member_def hold_def
        demo_entry demo_template demo_literal has_prefix_def)
  then show ?thesis by (auto simp: demo_binding_def)
qed

lemma demo_scope: "render [Literal ''a/b/'', Hole ''id''] demo_payload [] = Inr ''a/b/c''"
  by (simp add: render_def demo_payload_def scalar_def scalar_text_def demo_literal)

lemma demo_members:
  "members demo_binding ''callable:get'' =
     Some \<lparr>bCallable = True, bFields = {''id''}, bTreatment = demo_guard, bTemplate = [Literal ''a/b/'', Hole ''id'']\<rparr>"
proof -
  have "members demo_binding ''callable:get'' =
      Option.bind (map_of (map (\<lambda>m. (mKey m, declared_member m)) (sMembers demo_surface)) ''callable:get'')
        (held_member demo_policy ''callable:get'')"
    using demo_bind by (simp add: Bind_Inr)
  then show ?thesis
    by (simp add: demo_surface_def held_member_def demo_policy_def demo_guard_def declared_member_def hold_def
        demo_entry demo_template demo_literal has_prefix_def)
qed

lemma demo_call:
  "Call demo_lib demo_root (Some demo_context) demo_request demo_now = Inr (chain_leaf [demo_g0, demo_g1])"
  unfolding Call_Inr
  using demo_accepts by (intro exI [of _ demo_context] exI [of _ "chain_leaf [demo_g0, demo_g1]"] conjI)
      (auto simp: Inspect_Inr Verify_Inr demo_context_def demo_key_def chain_leaf_def demo_g1_def)

definition demo_decision :: decision where
  "demo_decision = \<lparr>dMember = ''callable:get'', dKind = KindGuarded, dSubject = Some demo_key, dAction = ''r'',
     dScope = ''a/b/c'', dGrant = Some (chain_leaf [demo_g0, demo_g1])\<rparr>"

lemma demo_decide:
  "Decide demo_lib demo_root demo_binding ''callable:get'' demo_payload [] (Some demo_context) demo_now = Inr demo_decision"
  using demo_call
  by (simp add: Decide_def demo_members demo_guard_def demo_scope demo_decision_def demo_context_def demo_request_def demo_root_def)

lemma demo_challenged: "Challenge demo_nonce (demo_connection None None) = (Inr demo_nonce, demo_connection (Some demo_nonce) None)"
  by (simp add: Challenge_def demo_connection_def demo_audience_def demo_nonce_def nonceSize_def)

lemma demo_binding_ok: "\<exists>b. ConnectionBinding demo_audience = Some b"
  using demo_audience_fixed by (simp add: ConnectionBinding_def demo_audience_def)

lemma demo_proved:
  "Prove demo_lib demo_pos demo_root demo_key (demo_key @ demo_nonce) [demo_env0, demo_env1] demo_now
     (demo_connection (Some demo_nonce) None) = (Inr demo_context, demo_connection None (Some demo_context))"
proof -
  have "Inspect demo_lib demo_root [demo_env0, demo_env1] demo_now = Inr (chain_leaf [demo_g0, demo_g1])"
    using demo_accepts(1) by (auto simp: Inspect_Inr)
  moreover have "VerifyPossession demo_pos demo_key demo_audience demo_nonce (demo_key @ demo_nonce)"
    using demo_binding_ok by (auto simp: VerifyPossession_def demo_pos_def)
  moreover have "demo_audience \<noteq> []" by (simp add: demo_audience_def)
  ultimately show ?thesis
    by (simp add: Prove_def Let_def demo_connection_def demo_key_def demo_nonce_def proofSize_def chain_leaf_def
        demo_g1_def demo_context_def demo_now_def)
qed

lemma demo_connected: "NewConnection demo_audience = Some (demo_connection None None)"
  using demo_binding_ok by (auto simp: NewConnection_def demo_connection_def)

lemma demo_reached:
  "reachable (\<lambda>c. NewConnection demo_audience = Some c) (exchange_step demo_lib demo_pos demo_root)
     (demo_connection None (Some demo_context))"
  using demo_connected exchange_challenge [OF demo_challenged] exchange_prove [OF demo_proved]
  by (rule reachable_steps [OF reachable_start])

section \<open>The audience\<close>

text \<open>C16: The audience derived from a URL is canonical: deriving it again answers the same
  spelling, so every derived audience has a connection binding, and two audiences that fit in the
  binding's 16-bit length have the same binding only if they are equal.\<close>

theorem audience_is_canonical:
  assumes "Audience url = Inr a" and "a \<noteq> []"
  shows "Audience a = Inr a \<and> ConnectionBinding a \<noteq> None \<and>
    (\<forall>a'. ConnectionBinding a' = ConnectionBinding a \<longrightarrow> a' = a)"
proof -
  have fixed: "Audience a = Inr a" using assms(1) by (rule Audience_fixed)
  have "a' = a" if "ConnectionBinding a' = ConnectionBinding a" for a'
  proof -
    have "bytes_of_string a' = bytes_of_string a"
      using that fixed assms(2) by (auto simp: ConnectionBinding_def length_u16_def split: if_splits)
    then show ?thesis by (metis string_of_bytes_of_string)
  qed
  then show ?thesis using fixed assms(2) by (simp add: ConnectionBinding_def)
qed

theorem audience_is_canonical_witness:
  "ConnectionBinding ''https://ex.com/a%2F/b'' \<noteq> None"
proof -
  have "Audience ''WSS://Ex.com:443/a%2F/b'' = Inr ''https://ex.com/a%2F/b''" by code_simp
  from audience_is_canonical [OF this] show ?thesis by simp
qed

section \<open>The exchange\<close>

text \<open>C17: A connection has a context only by the exchange: whatever challenges and proofs came
  before, it holds one only if its subject proved possession, for this audience, over a 32-byte
  nonce, and presented a chain that held at the recorded time and ended at that subject.  No
  challenge is then pending and no step changes the connection any more.\<close>

theorem context_is_proved:
  assumes "reachable (\<lambda>c. NewConnection aud = Some c) (exchange_step lib pos root) c"
    and "established c = Some ctx"
  shows "(\<exists>nonce proof now held. length nonce = 32 \<and> VerifyPossession pos (cSubject ctx) aud nonce proof \<and>
        Inspect lib root (cChain ctx) now = Inr held \<and> vSubject held = cSubject ctx \<and>
        vValidity held = cValidity ctx \<and> Now now = cSince ctx) \<and>
      challenge c = None \<and> (\<forall>c'. exchange_step lib pos root c c' \<longrightarrow> c' = c)"
proof -
  have ok: "exchange_ok lib pos root c" "audience c = aud" using exchange.always [OF assms(1)] by simp_all
  then have "proved_context lib pos root aud ctx" using assms(2) by (simp add: exchange_ok_def)
  moreover have "challenge c = None" using ok(1) assms(2) by (cases "challenge c") (auto simp: exchange_ok_def)
  ultimately show ?thesis
    using exchange_established assms(2) by (auto simp: proved_context_def nonceSize_def)
qed

theorem context_is_proved_witness:
  "\<exists>nonce proof now held. length nonce = 32 \<and> VerifyPossession demo_pos demo_key demo_audience nonce proof \<and>
     Inspect demo_lib demo_root [demo_env0, demo_env1] now = Inr held"
  using context_is_proved [OF demo_reached, of demo_context]
  by (auto simp: demo_connection_def demo_context_def)

section \<open>What binding decides\<close>

lemma held_member_Some:
  "held_member p k m \<noteq> None \<longleftrightarrow> (\<exists>t parts. map_of (Treatments p) k = Some t \<and> hold t m = Inr parts)"
  by (auto simp: held_member_def split: option.splits sum.splits)

lemma binding_exists: "\<exists>b :: binding. routes b = R \<and> exports b = E \<and> (\<forall>k. members b k = F k)"
  by (rule exI [of _ "\<lparr>routes = R, members = F, exports = E\<rparr>"]) simp

lemma Bind_accepts:
  "(\<exists>b. Bind s p = Inr b) \<longleftrightarrow>
      sFamily s = pFamily p \<and> sDigest s = pDigest p \<and> distinct (map mKey (sMembers s)) \<and>
      fst ` set (Treatments p) = mKey ` set (sMembers s) \<and>
      (\<forall>m \<in> set (sMembers s). \<exists>t parts. map_of (Treatments p) (mKey m) = Some t \<and>
         hold t (declared_member m) = Inr parts)"
  unfolding Bind_Inr held_member_Some set_map
  using binding_exists [of "map mKey (sMembers s)" Map.empty "\<lambda>k. Option.bind
      (map_of (map (\<lambda>m. (mKey m, declared_member m)) (sMembers s)) k) (held_member p k)"] by blast

lemma Bind_members:
  assumes "Bind s p = Inr b" shows "members b key \<noteq> None \<longleftrightarrow> key \<in> mKey ` set (sMembers s)"
proof
  assume "members b key \<noteq> None"
  then show "key \<in> mKey ` set (sMembers s)" using bound_treatment [OF assms] by auto
next
  let ?M = "map_of (map (\<lambda>m. (mKey m, declared_member m)) (sMembers s))"
  assume "key \<in> mKey ` set (sMembers s)"
  then obtain m where m: "m \<in> set (sMembers s)" "key = mKey m" by blast
  have "distinct (map mKey (sMembers s))" using assms by (simp add: Bind_Inr)
  then have "?M key = Some (declared_member m)"
    unfolding m(2) using m(1) by (intro map_of_is_SomeI) (auto simp: comp_def)
  moreover have "held_member p key (declared_member m) \<noteq> None" using assms m by (simp add: Bind_Inr)
  moreover have "members b key = Option.bind (?M key) (held_member p key)" using assms by (simp add: Bind_Inr)
  ultimately show "members b key \<noteq> None" by simp
qed

lemma Bind_contents:
  "\<forall>b. Bind s p = Inr b \<longrightarrow> Routes b = map mKey (sMembers s) \<and> exports b = Map.empty \<and>
      (\<forall>key. (members b key \<noteq> None) = (key \<in> mKey ` set (sMembers s))) \<and>
      (\<forall>key m. members b key = Some m \<longrightarrow> map_of (Treatments p) key = Some (bTreatment m))"
  using Bind_members bound_treatment by (auto simp: Bind_Inr Routes_def)

lemma Bind_unbound:
  "sFamily s = pFamily p \<and> sDigest s = pDigest p \<and> distinct (map mKey (sMembers s)) \<and>
      \<not> mKey ` set (sMembers s) \<subseteq> fst ` set (Treatments p) \<longrightarrow>
      Bind s p = Inl \<lparr>ceCode = MemberUnbound,
        ceMembers = sort (filter (\<lambda>k. k \<notin> fst ` set (Treatments p)) (map mKey (sMembers s)))\<rparr>"
proof (intro impI, elim conjE)
  assume fam: "sFamily s = pFamily p" "sDigest s = pDigest p" and dist: "distinct (map mKey (sMembers s))"
    and missing: "\<not> mKey ` set (sMembers s) \<subseteq> fst ` set (Treatments p)"
  let ?b0 = "\<lparr>routes = [], members = Map.empty, exports = Map.empty\<rparr> :: binding"
  let ?u = "filter (\<lambda>k. k \<notin> fst ` set (Treatments p)) (map mKey (sMembers s))"
  obtain b1 dups where d: "declare_members (sMembers s) ?b0 [] = (b1, dups)" by fastforce
  have dups: "dups = []" using declare_members_duplicates [of "sMembers s" ?b0 "[]"] d dist by auto
  have b1: "routes b1 = map mKey (sMembers s)"
    "members b1 = map_of (map (\<lambda>m. (mKey m, declared_member m)) (sMembers s))"
    using declare_members_result [OF dist, of ?b0 "[]"] d by auto
  have "\<forall>k \<in> set (routes b1). members b1 k \<noteq> None"
    unfolding b1 map_of_eq_None_iff by (simp add: image_comp)
  from bind_members_unbound [OF this, of p "[]" "[]"] obtain b2 i where
    "bind_members p (routes b1) b1 [] [] = (b2, ?u, i)"
    unfolding b1(1) by (metis append_Nil prod.collapse)
  moreover have "?u \<noteq> []" using missing by (auto simp: filter_empty_conv)
  ultimately show "Bind s p = Inl \<lparr>ceCode = MemberUnbound, ceMembers = sort ?u\<rparr>"
    using fam d dups by (simp add: Bind_def)
qed

section \<open>The exposure\<close>

text \<open>C18: \<open>Bind\<close> accepts a policy exactly if it is for the surface's family and digest, the
  surface names each member once, the policy treats exactly the declared members, and every
  treatment holds for its member; the routes are then the members in their order, each carrying its
  policy's treatment, and nothing is exported.  A policy of the right family that leaves members
  without a treatment is refused with exactly those members, sorted, whatever else is wrong with it.\<close>

theorem bind_decides:
  "((\<exists>b. Bind s p = Inr b) \<longleftrightarrow>
      sFamily s = pFamily p \<and> sDigest s = pDigest p \<and> distinct (map mKey (sMembers s)) \<and>
      fst ` set (Treatments p) = mKey ` set (sMembers s) \<and>
      (\<forall>m \<in> set (sMembers s). \<exists>t parts. map_of (Treatments p) (mKey m) = Some t \<and>
         hold t (declared_member m) = Inr parts)) \<and>
   (\<forall>b. Bind s p = Inr b \<longrightarrow> Routes b = map mKey (sMembers s) \<and> exports b = Map.empty \<and>
      (\<forall>key. (members b key \<noteq> None) = (key \<in> mKey ` set (sMembers s))) \<and>
      (\<forall>key m. members b key = Some m \<longrightarrow> map_of (Treatments p) key = Some (bTreatment m))) \<and>
   (sFamily s = pFamily p \<and> sDigest s = pDigest p \<and> distinct (map mKey (sMembers s)) \<and>
      \<not> mKey ` set (sMembers s) \<subseteq> fst ` set (Treatments p) \<longrightarrow>
      Bind s p = Inl \<lparr>ceCode = MemberUnbound,
        ceMembers = sort (filter (\<lambda>k. k \<notin> fst ` set (Treatments p)) (map mKey (sMembers s)))\<rparr>)"
  by (rule conjI [OF Bind_accepts conjI [OF Bind_contents Bind_unbound]])

theorem bind_decides_witness:
  "Bind demo_surface (demo_policy\<lparr>Treatments := []\<rparr>) =
     Inl \<lparr>ceCode = MemberUnbound, ceMembers = [''callable:get'', ''event:up'']\<rparr>"
proof -
  have "sort [''callable:get'', ''event:up''] = [''callable:get'', ''event:up'']" by code_simp
  moreover have "Bind demo_surface (demo_policy\<lparr>Treatments := []\<rparr>) = Inl \<lparr>ceCode = MemberUnbound,
      ceMembers = sort (filter (\<lambda>k. k \<notin> fst ` set (Treatments (demo_policy\<lparr>Treatments := []\<rparr>))) (map mKey (sMembers demo_surface)))\<rparr>"
    by (rule mp [OF conjunct2 [OF conjunct2 [OF bind_decides]]]) (simp add: demo_surface_def demo_policy_def)
  ultimately show ?thesis by (simp add: demo_surface_def)
qed

text \<open>C19: A guarded member is dispatched only to a connection whose chain covers it: the chain is
  accepted under the root at this moment, ends at the connection's subject, and every grant of it
  permits the action the policy names at the scope the policy's template renders for this payload.\<close>

theorem guarded_calls_are_covered:
  assumes "Bind s p = Inr b" and "map_of (Treatments p) key = Some t" and "tKind t = KindGuarded"
    and "Decide lib root b key payload exported ctx now = Inr d"
  shows "\<exists>c gs. ctx = Some c \<and> dSubject d = Some (cSubject c) \<and>
    Render (tScope t) payload exported = Inr (dScope d) \<and>
    chain_ok lib root (cChain c) gs \<and> gs \<noteq> [] \<and> gSubject (last gs) = cSubject c \<and> timely now (gValidity (last gs)) \<and>
    (\<forall>g \<in> set gs. tAction t \<in> set (gActions g) \<and> (\<exists>e \<in> set (gScope g). covers e (dScope d)))"
proof -
  obtain m where m: "members b key = Some m" using Decide_Inr [OF assms(4)] by blast
  have t: "bTreatment m = t" "parseTemplate (tScope t) = Inr (bTemplate m)"
    using bound_treatment [OF assms(1) m] assms(2,3) by auto
  let ?rq = "\<lparr>reqDomain = rootDomain root, reqAction = tAction t, reqScope = dScope d\<rparr>"
  obtain c v where c: "ctx = Some c" "dSubject d = Some (cSubject c)"
    "render (bTemplate m) payload exported = Inr (dScope d)" "Call lib root ctx ?rq now = Inr v"
    using Decide_Inr [OF assms(4)] m t(1) assms(3) by auto
  obtain held where held: "Inspect lib root (cChain c) now = Inr held" "vSubject held = cSubject c"
    "Verify lib root (cChain c) ?rq now = Inr v"
    using c(4) unfolding Call_Inr c(1) by blast
  obtain gs where gs: "accepts lib root (cChain c) (Some ?rq) now gs" "v = chain_leaf gs"
    using held(3) unfolding Verify_Inr by blast
  have "gSubject (last gs) = cSubject c"
    unfolding held(2) [symmetric] Verify_subject [OF held(3,1), symmetric] gs(2) by (simp add: chain_leaf_def)
  moreover have "gs \<noteq> []" "timely now (gValidity (last gs))" using gs(1) by (auto simp: accepts_def chain_ok_def)
  moreover have "Render (tScope t) payload exported = Inr (dScope d)" using c(3) t(2) by (simp add: Render_def)
  ultimately show ?thesis using c(1,2) accepts_covers [OF gs(1)] by auto
qed

theorem guarded_calls_are_covered_witness:
  "\<exists>gs. chain_ok demo_lib demo_root [demo_env0, demo_env1] gs \<and>
     (\<forall>g \<in> set gs. ''r'' \<in> set (gActions g) \<and> (\<exists>e \<in> set (gScope g). covers e ''a/b/c''))"
  using guarded_calls_are_covered [OF demo_bind _ _ demo_decide, of demo_guard]
  by (auto simp: demo_policy_def demo_guard_def demo_context_def demo_decision_def)

text \<open>One tenant's scope never stands for another's: a template of a fixed path and a hole
  renders to the path and exactly one segment, so the scope lies under the path and a scope entry
  for one segment covers the rendered scope only if the payload selected that segment.\<close>

theorem segment_scopes_are_separate:
  assumes "Render (p @ ''/{'' @ h @ ''}'') payload exported = Inr s" and "h \<noteq> ''export''"
    and "\<forall>c \<in> {CHR ''{'', CHR ''}''}. c \<notin> set p \<and> c \<notin> set h" and "h \<noteq> []"
  shows "\<exists>seg. s = p @ ''/'' @ seg \<and> seg \<noteq> [] \<and> CHR ''/'' \<notin> set seg \<and> covers p s \<and>
    (\<forall>other. CHR ''/'' \<notin> set other \<and> covers (p @ ''/'' @ other) s \<longrightarrow> other = seg)"
proof -
  have "parseTemplate (p @ ''/{'' @ h @ ''}'') = Inr [Literal (p @ ''/''), Hole h]"
    using assms(3,4) by (intro parse_segment_template) auto
  then obtain fills where fills: "list_all2 (filled exported) [Literal (p @ ''/''), Hole h] fills" "s = concat fills"
    using Render_filled [OF assms(1)] by (metis sum.inject(2))
  then obtain seg where seg: "s = p @ ''/'' @ seg" "seg \<noteq> []" "CHR ''/'' \<notin> set seg"
    using assms(2) by (auto simp: list_all2_Cons1)
  moreover have "covers p s" by (auto simp: covers_def seg(1))
  moreover have "other = seg" if "CHR ''/'' \<notin> set other" "covers (p @ ''/'' @ other) s" for other
  proof -
    have "other = seg \<or> (\<exists>z. seg = other @ ''/'' @ z)"
      using that(2) unfolding seg(1) by (auto simp: covers_def prefix_def)
    then show ?thesis using seg(3) by auto
  qed
  ultimately show ?thesis by blast
qed

theorem segment_scopes_are_separate_witness:
  "\<not> covers ''a/b/d'' ''a/b/c''"
proof -
  have "Render (''a/b'' @ ''/{'' @ ''id'' @ ''}'') demo_payload [] = Inr ''a/b/c''"
    using demo_template demo_scope by (simp add: Render_def)
  from segment_scopes_are_separate [OF this] obtain seg where seg: "''a/b/c'' = ''a/b'' @ ''/'' @ seg"
    "\<And>other. CHR ''/'' \<notin> set other \<Longrightarrow> covers (''a/b'' @ ''/'' @ other) ''a/b/c'' \<Longrightarrow> other = seg" by auto
  show ?thesis using seg(2) [of "''d''"] seg(1) by auto
qed

text \<open>The effect is decided again on what the decision named: for a decision of this
  connection the effect is permitted exactly if the member is public or the chain that was accepted
  is still in its time, and the owner's condition, when there is one, holds for the decided scope.\<close>

theorem effect_follows_decision:
  assumes "Decide lib root b key payload exported ctx now = Inr d"
  shows "Effect lib root b (Some d) ctx now' cond = None \<longleftrightarrow>
    (dKind d = KindPublic \<or> (\<exists>v. dGrant d = Some v \<and> timely now' (vValidity v))) \<and>
    (\<forall>holds. cond = Some holds \<longrightarrow> holds (dScope d) = None)"
proof -
  obtain m where m: "members b key = Some m" "dMember d = key" using Decide_Inr [OF assms] by blast
  let ?rq = "\<lparr>reqDomain = rootDomain root, reqAction = dAction d, reqScope = dScope d\<rparr>"
  consider (public) "dKind d = KindPublic"
    | (guarded) c v where "dKind d = KindGuarded" "ctx = Some c" "dSubject d = Some (cSubject c)"
        "dGrant d = Some v" "Call lib root ctx ?rq now = Inr v"
    using Decide_Inr [OF assms] by blast
  then show ?thesis
  proof cases
    case public
    then show ?thesis using m by (auto simp: Effect_def split: option.split)
  next
    case guarded
    have "(\<exists>w. Call lib root ctx ?rq now' = Inr w) \<longleftrightarrow> timely now' (vValidity v)"
      using guarded(5) by (rule Call_later)
    then show ?thesis
      using m guarded(1-4) by (auto simp: Effect_def split: option.split sum.split)
  qed
qed

theorem effect_follows_decision_witness:
  "Effect demo_lib demo_root demo_binding (Some demo_decision) (Some demo_context) \<lparr>Present = True, Now = 99\<rparr> None = None \<and>
   Effect demo_lib demo_root demo_binding (Some demo_decision) (Some demo_context) \<lparr>Present = True, Now = 100\<rparr> None \<noteq> None"
  unfolding effect_follows_decision [OF demo_decide]
  by (simp add: demo_decision_def chain_leaf_def timely_def demo_g1_def)

section \<open>Exported references\<close>

inductive export_step :: "binding \<Rightarrow> binding \<Rightarrow> bool" where
  exports_ref: "Export_ref ref key scope b = (e, b') \<Longrightarrow> export_step b b'"

inductive_cases export_stepE: "export_step b b'"

definition exports_ok :: "surface \<Rightarrow> policy \<Rightarrow> binding \<Rightarrow> bool" where
  "exports_ok s p b \<longleftrightarrow> (\<exists>b0. Bind s p = Inr b0 \<and> members b = members b0) \<and>
     (\<forall>ref r. exports b ref = Some r \<longrightarrow> text_ok (eScope r) maxEntryBytes \<and>
        (\<exists>m. members b (eMember r) = Some m \<and> bCallable m))"

lemma Export_ref_state:
  "snd (Export_ref ref key scope b) =
     (if ref \<noteq> [] \<and> (\<exists>m. members b key = Some m \<and> bCallable m) \<and> text_ok scope maxEntryBytes \<and>
         (exports b ref = None \<or> exports b ref = Some \<lparr>eMember = key, eScope = scope\<rparr>)
      then b\<lparr>exports := (exports b)(ref \<mapsto> \<lparr>eMember = key, eScope = scope\<rparr>)\<rparr> else b)"
  by (auto simp: Export_ref_def Let_def simp flip: entry_None split: option.split)

lemma export_step_kept:
  assumes "export_step b b'" and "exports b ref = Some r"
  shows "exports b' ref = Some r"
proof -
  obtain ref' key scope where "b' = snd (Export_ref ref' key scope b)"
    using assms(1) by (metis export_stepE snd_conv)
  then show ?thesis using assms(2) by (auto simp: Export_ref_state)
qed

interpretation exporting: invariant "\<lambda>b. Bind s p = Inr b" export_step "exports_ok s p" for s p
proof unfold_locales
  show "Bind s p = Inr b \<Longrightarrow> exports_ok s p b" for b by (auto simp: exports_ok_def Bind_Inr)
  fix b b' assume ok: "exports_ok s p b" and "export_step b b'"
  then obtain ref key scope where b': "b' = snd (Export_ref ref key scope b)" by (metis export_stepE snd_conv)
  show "exports_ok s p b'" unfolding b' Export_ref_state using ok by (auto simp: exports_ok_def)
qed

text \<open>What was exported stays what it was: in a binding reached by exports, a reference names a
  declared callable member and a scope by the grant's own rule, no later export gives it another
  record, and a call on it is decided as a call of that member with that very scope as its export.\<close>

theorem exports_are_fixed:
  assumes "reachable (\<lambda>b. Bind s p = Inr b) export_step b" and "exports b ref = Some r"
  shows "eMember r \<in> mKey ` set (sMembers s) \<and> has_prefix (eMember r) ''callable:'' \<and>
    text_ok (eScope r) maxEntryBytes \<and>
    (\<forall>b'. reachable (\<lambda>u. u = b) export_step b' \<longrightarrow> exports b' ref = Some r \<and>
       Invoke_ref lib root b' ref payload ctx now = Decide lib root b' (eMember r) payload (eScope r) ctx now)"
proof -
  have ok: "exports_ok s p b" using assms(1) by (rule exporting.always)
  obtain b0 m where b0: "Bind s p = Inr b0" "members b0 (eMember r) = Some m" "bCallable m" "text_ok (eScope r) maxEntryBytes"
    using ok assms(2) unfolding exports_ok_def by fastforce
  have mem: "eMember r \<in> set (map mKey (sMembers s))" using bound_treatment [OF b0(1,2)] by simp
  have "Option.bind (map_of (map (\<lambda>m. (mKey m, declared_member m)) (sMembers s)) (eMember r)) (held_member p (eMember r)) = Some m"
    using b0 by (simp add: Bind_Inr)
  then obtain m0 where m0: "map_of (map (\<lambda>m. (mKey m, declared_member m)) (sMembers s)) (eMember r) = Some m0"
    "held_member p (eMember r) m0 = Some m" by (auto simp: bind_eq_Some_conv)
  have "bCallable m0 = has_prefix (eMember r) ''callable:''"
    using map_of_SomeD [OF m0(1)] by (auto simp: declared_member_def)
  moreover have "bCallable m = bCallable m0"
    using m0(2) by (auto simp: held_member_def split: option.splits sum.splits)
  moreover have "exports b' ref = Some r" if "reachable (\<lambda>u. u = b) export_step b'" for b'
    using that by (induction rule: reachable.induct) (auto simp: assms(2) dest: export_step_kept)
  ultimately show ?thesis
    using b0(3,4) mem by (simp add: Invoke_ref_def)
qed

theorem exports_are_fixed_witness:
  "Invoke_ref demo_lib demo_root (snd (Export_ref ''ref'' ''callable:get'' ''a/b'' demo_binding)) ''ref'' demo_payload
     (Some demo_context) demo_now =
   Decide demo_lib demo_root (snd (Export_ref ''ref'' ''callable:get'' ''a/b'' demo_binding)) ''callable:get'' demo_payload
     ''a/b'' (Some demo_context) demo_now"
proof -
  let ?b = "snd (Export_ref ''ref'' ''callable:get'' ''a/b'' demo_binding)"
  have "exports demo_binding = Map.empty" using demo_bind by (simp add: Bind_Inr)
  then have exported: "exports ?b ''ref'' = Some \<lparr>eMember = ''callable:get'', eScope = ''a/b''\<rparr>"
    by (simp add: Export_ref_state demo_members grant_bounds)
  have "export_step demo_binding ?b" by (rule exports_ref [OF prod.collapse [symmetric]])
  then have "reachable (\<lambda>b. Bind demo_surface demo_policy = Inr b) export_step ?b"
    using reachable_start [of "\<lambda>b. Bind demo_surface demo_policy = Inr b", OF demo_bind] by (rule reachable_step [rotated])
  from exports_are_fixed [OF this exported] show ?thesis
    using reachable_start [of "\<lambda>u. u = ?b", OF refl, of export_step] by auto
qed

end
