(* ===== verification/Auth_Login.thy ===== *)
theory Auth_Login
  imports Auth_Exposure
begin

text \<open>
  \<open>auth/go/login.go\<close>: the terms of a login, the record of a pending one, and the service over
  a store that offers a versioned compare-and-set.  The store is the consumer's and Archon's login
  scheme is a library: both are records of operations, arguments of the definitions.  A service
  operation reads the store and writes it in two calls; \<open>others\<close> is what other replicas do to the
  store in between.
\<close>

type_synonym u32 = "32 word"

definition idSize :: nat where "idSize = 16"
definition loginNonceSize :: nat where "loginNonceSize = 32"
definition loginExpiresIn :: u64 where "loginExpiresIn = 300"
definition answerRetention :: u64 where "answerRetention = 300"
definition collectInterval :: u64 where "collectInterval = 5"
definition issuerClockSkew :: u64 where "issuerClockSkew = 60"
definition maxValidFor :: u32 where "maxValidFor = 2592000"
definition maxPendingLogins :: int where "maxPendingLogins = 4096"

datatype login_code = InvalidRequest | InvalidGrant | ExpiredToken | AuthorizationPending | SlowDown

section \<open>Terms\<close>

record terms =
  tmActions :: "string list"
  tmDelegable :: "string list"
  tmScope :: "string list"
  tmDepth :: byte

definition no_terms :: terms where
  "no_terms = \<lparr>tmActions = [], tmDelegable = [], tmScope = [], tmDepth = 0\<rparr>"

definition tags :: "string list" where
  "tags = [''action'', ''delegable'', ''scope'', ''depth'']"

datatype terms_error =
    NoTag nat | UnknownTag nat string | OutOfOrder nat | BadDepth string | OutsideGrant check_error

text \<open>The rank of a tag: the last index of \<open>tags\<close> that holds it.\<close>

definition tag_rank :: "string \<Rightarrow> int" where
  "tag_rank tag = foldl (\<lambda>r (j, known). if tag = known then int j else r) (- 1) (enumerate 0 tags)"

text \<open>\<open>strconv.ParseUint(value, 10, 8)\<close>.\<close>

definition parse_uint8 :: "string \<Rightarrow> int option" where
  "parse_uint8 value =
     (if value = [] then None
      else case decimal_value 0 value of
        None \<Rightarrow> None
      | Some n \<Rightarrow> if n < 256 then Some n else None)"

definition terms_depth :: "string \<Rightarrow> byte option" where
  "terms_depth value =
     (case parse_uint8 value of
        None \<Rightarrow> None
      | Some n \<Rightarrow> if int_decimal n \<noteq> value \<or> n > 15 then None else Some (word_of_int n))"

fun parse_terms :: "nat \<Rightarrow> int \<Rightarrow> bool \<Rightarrow> terms \<Rightarrow> string list \<Rightarrow> terms_error + (terms \<times> bool)" where
  "parse_terms i rank seenDepth t [] = Inr (t, seenDepth)"
| "parse_terms i rank seenDepth t (term # entries) =
     (case cut term CHR '':'' of (tag, value, found) \<Rightarrow>
        if \<not> found then Inl (NoTag i)
        else
          let r = tag_rank tag in
          if r < 0 then Inl (UnknownTag i tag)
          else if r < rank \<or> r = rank \<and> r = 3 \<and> seenDepth then Inl (OutOfOrder i)
          else if tag = ''action'' then
            parse_terms (i + 1) r seenDepth (t\<lparr>tmActions := tmActions t @ [value]\<rparr>) entries
          else if tag = ''delegable'' then
            parse_terms (i + 1) r seenDepth (t\<lparr>tmDelegable := tmDelegable t @ [value]\<rparr>) entries
          else if tag = ''scope'' then
            parse_terms (i + 1) r seenDepth (t\<lparr>tmScope := tmScope t @ [value]\<rparr>) entries
          else
            (case terms_depth value of
               None \<Rightarrow> Inl (BadDepth value)
             | Some n \<Rightarrow> parse_terms (i + 1) r True (t\<lparr>tmDepth := n\<rparr>) entries))"

definition terms_grant :: "terms \<Rightarrow> grant" where
  "terms_grant t =
     \<lparr>gDomain = ''terms'', gSubject = replicate 32 0, gParent = None, gScope = tmScope t,
      gActions = tmActions t, gDelegable = tmDelegable t, gDepth = tmDepth t,
      gValidity = \<lparr>Finite = False, ExpiresAt = 0\<rparr>\<rparr>"

definition ParseTerms :: "string list \<Rightarrow> terms_error + terms" where
  "ParseTerms entries =
     (case parse_terms 0 0 False no_terms entries of
        Inl e \<Rightarrow> Inl e
      | Inr (t, seen) \<Rightarrow>
          (case Encode (terms_grant t) of Inl e \<Rightarrow> Inl (OutsideGrant e) | Inr body \<Rightarrow> Inr t))"

definition RenderTerms :: "terms \<Rightarrow> bool \<Rightarrow> string list" where
  "RenderTerms t withDepth =
     map (\<lambda>a. ''action:'' @ a) (tmActions t) @ map (\<lambda>d. ''delegable:'' @ d) (tmDelegable t) @
     map (\<lambda>s. ''scope:'' @ s) (tmScope t) @
     (if withDepth \<or> tmDepth t \<noteq> 0 then [''depth:'' @ int_decimal (uint (tmDepth t))] else [])"

section \<open>Records and the store\<close>

datatype login_state = PendingLogin | AnsweredLogin | CollectedLogin | OtherState string

record answer =
  ansPrincipal :: bytes
  ansPossession :: bytes
  ansAuthority :: "bytes list"

definition no_answer :: answer where
  "no_answer = \<lparr>ansPrincipal = replicate 32 0, ansPossession = [], ansAuthority = []\<rparr>"

record login_record =
  lID :: bytes
  lVersion :: int
  lState :: login_state
  lNonce :: bytes
  lBrowser :: bytes
  lScope :: "string list"
  lTerms :: terms
  lValidFor :: u32
  lExpiresAt :: u64
  lRetainedTo :: u64
  lPolled :: bool
  lLastPoll :: u64
  lAnswer :: answer

definition Gone :: "login_record \<Rightarrow> u64 \<Rightarrow> bool" where
  "Gone r now =
     (case lState r of
        PendingLogin \<Rightarrow> now \<ge> lExpiresAt r
      | AnsweredLogin \<Rightarrow> now \<ge> lRetainedTo r
      | CollectedLogin \<Rightarrow> now \<ge> lRetainedTo r
      | OtherState s \<Rightarrow> True)"

record login_request =
  lrID :: bytes
  lrNonce :: bytes
  lrBrowser :: bytes
  lrScope :: "string list"
  lrValidFor :: u32

definition login_request :: "login_record \<Rightarrow> login_request" where
  "login_request r =
     \<lparr>lrID = lID r, lrNonce = lNonce r, lrBrowser = lBrowser r, lrScope = lScope r, lrValidFor = lValidFor r\<rparr>"

record login_lib =
  lg_verify :: "bytes \<Rightarrow> string \<Rightarrow> login_request \<Rightarrow> bytes \<Rightarrow> bool"
  lg_verify_collect :: "string \<Rightarrow> login_request \<Rightarrow> bytes \<Rightarrow> bool"

record 's login_store =
  st_get :: "'s \<Rightarrow> bytes \<Rightarrow> login_record option"
  st_put :: "login_record \<Rightarrow> int \<Rightarrow> 's \<Rightarrow> bool \<times> 's"
  st_sweep :: "u64 \<Rightarrow> 's \<Rightarrow> bytes list \<times> 's"
  st_count :: "'s \<Rightarrow> int"

record 's service =
  svRoot :: root
  svAudience :: string
  svStore :: "'s login_store option"

section \<open>The transitions\<close>

definition Begin ::
  "'s service \<Rightarrow> ('s \<Rightarrow> 's) \<Rightarrow> u64 \<Rightarrow> bytes \<Rightarrow> bytes \<Rightarrow> bytes \<Rightarrow> string list \<Rightarrow> u32 \<Rightarrow> 's \<Rightarrow>
     (login_code + login_record) \<times> 's" where
  "Begin sv others now lid nonce browser scope validFor st =
     (case svStore sv of
        None \<Rightarrow> (Inl InvalidRequest, st)
      | Some ops \<Rightarrow>
          if length lid \<noteq> idSize \<or> length nonce \<noteq> loginNonceSize \<or> length browser \<noteq> 32
          then (Inl InvalidRequest, st)
          else (case ParseTerms scope of
            Inl e \<Rightarrow> (Inl InvalidRequest, st)
          | Inr terms \<Rightarrow>
              if validFor < 1 \<or> validFor > maxValidFor then (Inl InvalidRequest, st)
              else
                let existing = st_get ops st lid in
                if (case existing of None \<Rightarrow> False | Some r \<Rightarrow> \<not> Gone r now) then (Inl InvalidRequest, st)
                else
                  let expect = (case existing of None \<Rightarrow> 0 | Some r \<Rightarrow> lVersion r) in
                  if st_count ops st \<ge> maxPendingLogins then (Inl SlowDown, st)
                  else
                    let r = \<lparr>lID = lid, lVersion = expect + 1, lState = PendingLogin, lNonce = nonce,
                             lBrowser = browser, lScope = scope, lTerms = terms, lValidFor = validFor,
                             lExpiresAt = now + loginExpiresIn, lRetainedTo = 0, lPolled = False, lLastPoll = 0,
                             lAnswer = no_answer\<rparr>;
                        (stored, st) = st_put ops r expect (others st)
                    in if \<not> stored then (Inl InvalidRequest, st) else (Inr r, st)))"

definition Read :: "'s service \<Rightarrow> u64 \<Rightarrow> bytes \<Rightarrow> 's \<Rightarrow> login_code + login_record" where
  "Read sv now lid st =
     (case svStore sv of
        None \<Rightarrow> Inl ExpiredToken
      | Some ops \<Rightarrow>
          (case st_get ops st lid of
             None \<Rightarrow> Inl ExpiredToken
           | Some r \<Rightarrow>
               if Gone r now then Inl ExpiredToken
               else if lState r \<noteq> PendingLogin then Inl InvalidRequest
               else Inr r))"

fun within :: "string list \<Rightarrow> string list \<Rightarrow> bool" where
  "within [] outer = True"
| "within (e # inner) outer = (if e \<notin> set outer then False else within inner outer)"

definition entry_covers :: "string \<Rightarrow> string \<Rightarrow> bool" where
  "entry_covers outer e \<longleftrightarrow>
     e = outer \<or>
     length e > length outer \<and> take (length outer) e = outer \<and> e ! length outer = CHR ''/''"

fun coveredBy :: "string list \<Rightarrow> string list \<Rightarrow> bool" where
  "coveredBy [] outer = True"
| "coveredBy (e # inner) outer =
     (if \<not> list_ex (\<lambda>o'. entry_covers o' e) outer then False else coveredBy inner outer)"

text \<open>A refusal of \<open>admit\<close>; \<open>NoCode\<close> is the one whose hop is below zero.\<close>

datatype admission_refusal = NoCode | GrantRefusal refusal

fun admit_same :: "envelope_lib \<Rightarrow> root \<Rightarrow> bytes list \<Rightarrow> decision_time \<Rightarrow> (string \<times> string) list \<Rightarrow> refusal option" where
  "admit_same lib root chain at [] = None"
| "admit_same lib root chain at ((action, scope) # rest) =
     (case Verify lib root chain \<lparr>reqDomain = rootDomain root, reqAction = action, reqScope = scope\<rparr> at of
        Inl r \<Rightarrow> Some r
      | Inr v \<Rightarrow> admit_same lib root chain at rest)"

definition admit_login ::
  "envelope_lib \<Rightarrow> root \<Rightarrow> login_record \<Rightarrow> bytes \<Rightarrow> bytes list \<Rightarrow> u64 \<Rightarrow> admission_refusal option" where
  "admit_login lib root r prin chain now =
     (let at = \<lparr>Present = True, Now = now\<rparr> in
      case Inspect lib root chain at of
        Inl refusal \<Rightarrow> Some (GrantRefusal refusal)
      | Inr held \<Rightarrow>
          if vSubject held \<noteq> lBrowser r then Some NoCode
          else if lBrowser r = prin then
            map_option GrantRefusal
              (admit_same lib root chain at (List.product (tmActions (lTerms r)) (tmScope (lTerms r))))
          else
            let hop = length chain - 1; refuse = (\<lambda>c. Some (GrantRefusal \<lparr>rCode = c, rHop = hop\<rparr>)) in
            (case Open lib (chain ! hop) of
               Inl c \<Rightarrow> refuse c
             | Inr (issuer, leaf) \<Rightarrow>
                 if issuer \<noteq> prin then refuse IssuerMismatch
                 else if \<not> within (gActions leaf) (tmActions (lTerms r)) \<or>
                         \<not> within (gDelegable leaf) (tmDelegable (lTerms r)) then refuse WidenedActions
                 else if \<not> coveredBy (gScope leaf) (tmScope (lTerms r)) then refuse WidenedScope
                 else if gDepth leaf > tmDepth (lTerms r) then refuse WidenedDepth
                 else if \<not> Finite (gValidity leaf) \<or>
                         ExpiresAt (gValidity leaf) > now + ucast (lValidFor r) + issuerClockSkew
                 then refuse WidenedValidity
                 else None))"

text \<open>\<open>Answer\<close>: no code is success; a refused chain comes with the grant's refusal.\<close>

definition Answer ::
  "envelope_lib \<Rightarrow> login_lib \<Rightarrow> 's service \<Rightarrow> ('s \<Rightarrow> 's) \<Rightarrow> u64 \<Rightarrow> bytes \<Rightarrow> bytes \<Rightarrow> bytes \<Rightarrow> bytes list \<Rightarrow> int \<Rightarrow> 's \<Rightarrow>
     (login_code option \<times> refusal option) \<times> 's" where
  "Answer lib lg sv others now lid prin proof chain expectVersion st =
     (case svStore sv of
        None \<Rightarrow> ((Some ExpiredToken, None), st)
      | Some ops \<Rightarrow>
          (case st_get ops st lid of
             None \<Rightarrow> ((Some ExpiredToken, None), st)
           | Some r \<Rightarrow>
               if Gone r now then ((Some ExpiredToken, None), st)
               else if lState r \<noteq> PendingLogin \<or> lVersion r \<noteq> expectVersion then ((Some InvalidRequest, None), st)
               else if \<not> lg_verify lg prin (svAudience sv) (login_request r) proof
               then ((Some InvalidGrant, None), st)
               else (case admit_login lib (svRoot sv) r prin chain now of
                 Some NoCode \<Rightarrow> ((Some InvalidGrant, None), st)
               | Some (GrantRefusal refusal) \<Rightarrow> ((Some InvalidGrant, Some refusal), st)
               | None \<Rightarrow>
                   let r = r\<lparr>lState := AnsweredLogin,
                             lAnswer := \<lparr>ansPrincipal = prin, ansPossession = proof, ansAuthority = chain\<rparr>,
                             lRetainedTo := now + answerRetention, lVersion := expectVersion + 1\<rparr>;
                       (stored, st) = st_put ops r expectVersion (others st)
                   in if \<not> stored then ((Some InvalidRequest, None), st) else ((None, None), st))))"

definition Collect ::
  "login_lib \<Rightarrow> 's service \<Rightarrow> ('s \<Rightarrow> 's) \<Rightarrow> ('s \<Rightarrow> 's) \<Rightarrow> u64 \<Rightarrow> bytes \<Rightarrow> bytes \<Rightarrow> 's \<Rightarrow> (login_code + answer) \<times> 's" where
  "Collect lg sv others again now lid proof st =
     (case svStore sv of
        None \<Rightarrow> (Inl ExpiredToken, st)
      | Some ops \<Rightarrow>
          (case st_get ops st lid of
             None \<Rightarrow> (Inl ExpiredToken, st)
           | Some r \<Rightarrow>
               if Gone r now then (Inl ExpiredToken, st)
               else if \<not> lg_verify_collect lg (svAudience sv) (login_request r) proof then (Inl InvalidGrant, st)
               else if lPolled r \<and> now < lLastPoll r + collectInterval then (Inl SlowDown, st)
               else
                 let r = r\<lparr>lPolled := True, lLastPoll := now\<rparr> in
                 (case lState r of
                    PendingLogin \<Rightarrow> (Inl AuthorizationPending, snd (st_put ops r (lVersion r) (others st)))
                  | AnsweredLogin \<Rightarrow>
                      let expect = lVersion r; r = r\<lparr>lState := CollectedLogin, lVersion := expect + 1\<rparr>;
                          (stored, st) = st_put ops r expect (others st)
                      in if stored then (Inr (lAnswer r), st)
                         else
                           let st = again st in
                           (case st_get ops st lid of
                              None \<Rightarrow> (Inl InvalidRequest, st)
                            | Some found \<Rightarrow>
                                if lState found \<noteq> CollectedLogin then (Inl InvalidRequest, st)
                                else (Inr (lAnswer found), st))
                  | CollectedLogin \<Rightarrow> (Inr (lAnswer r), snd (st_put ops r (lVersion r) (others st)))
                  | OtherState s \<Rightarrow> (Inl ExpiredToken, st))))"

definition Sweep :: "'s service \<Rightarrow> u64 \<Rightarrow> 's \<Rightarrow> bytes list \<times> 's" where
  "Sweep sv now st = (case svStore sv of None \<Rightarrow> ([], st) | Some ops \<Rightarrow> st_sweep ops now st)"

end
