(* ===== verification/Login_Store.thy ===== *)
theory Login_Store
  imports Auth_Login "HOL-Library.AList"
begin

text \<open>
  What the service asks of its store and what it then promises: the laws of a versioned
  compare-and-set (\<open>Store\<close> of \<open>auth/go/login.go\<close>), the lifecycle of one login as a client sees it,
  the proof that every transition of the service follows that lifecycle over any lawful store, and
  the store of \<open>auth/go/boot_test.go\<close>, which is lawful.
\<close>

section \<open>The lifecycle of a login\<close>

datatype phase = Waiting | Ready answer | Delivered answer

record login_view =
  vwPhase :: phase
  vwUntil :: u64
  vwPolled :: "u64 option"

definition view_of :: "login_record \<Rightarrow> login_view option" where
  "view_of r =
     (let made = (\<lambda>p until. Some \<lparr>vwPhase = p, vwUntil = until, vwPolled = (if lPolled r then Some (lLastPoll r) else None)\<rparr>)
      in case lState r of
        PendingLogin \<Rightarrow> made Waiting (lExpiresAt r)
      | AnsweredLogin \<Rightarrow> made (Ready (lAnswer r)) (lRetainedTo r)
      | CollectedLogin \<Rightarrow> made (Delivered (lAnswer r)) (lRetainedTo r)
      | OtherState s \<Rightarrow> None)"

definition login_view :: "'s login_store \<Rightarrow> 's \<Rightarrow> bytes \<Rightarrow> login_view option" where
  "login_view ops st i = Option.bind (st_get ops st i) view_of"

definition live :: "u64 \<Rightarrow> login_view option \<Rightarrow> bool" where
  "live now v = (case v of None \<Rightarrow> False | Some w \<Rightarrow> now < vwUntil w)"

definition paced :: "u64 \<Rightarrow> login_view \<Rightarrow> bool" where
  "paced now w = (case vwPolled w of None \<Rightarrow> False | Some p \<Rightarrow> now < p + collectInterval)"

definition life_begin :: "u64 \<Rightarrow> bool \<Rightarrow> bool \<Rightarrow> login_view option \<Rightarrow> login_code option \<times> login_view option" where
  "life_begin now ok full v =
     (if \<not> ok \<or> live now v then (Some InvalidRequest, v)
      else if full then (Some SlowDown, v)
      else (None, Some \<lparr>vwPhase = Waiting, vwUntil = now + loginExpiresIn, vwPolled = None\<rparr>))"

definition life_answer :: "u64 \<Rightarrow> bool \<Rightarrow> bool \<Rightarrow> answer \<Rightarrow> login_view option \<Rightarrow> login_code option \<times> login_view option" where
  "life_answer now current admitted a v =
     (if \<not> live now v then (Some ExpiredToken, v)
      else let w = the v in
        if vwPhase w \<noteq> Waiting \<or> \<not> current then (Some InvalidRequest, v)
        else if \<not> admitted then (Some InvalidGrant, v)
        else (None, Some (w\<lparr>vwPhase := Ready a, vwUntil := now + answerRetention\<rparr>)))"

definition life_collect :: "u64 \<Rightarrow> bool \<Rightarrow> login_view option \<Rightarrow> (login_code + answer) \<times> login_view option" where
  "life_collect now proved v =
     (if \<not> live now v then (Inl ExpiredToken, v)
      else let w = the v in
        if \<not> proved then (Inl InvalidGrant, v)
        else if paced now w then (Inl SlowDown, v)
        else case vwPhase w of
            Waiting \<Rightarrow> (Inl AuthorizationPending, Some (w\<lparr>vwPolled := Some now\<rparr>))
          | Ready a \<Rightarrow> (Inr a, Some (w\<lparr>vwPhase := Delivered a, vwPolled := Some now\<rparr>))
          | Delivered a \<Rightarrow> (Inr a, Some (w\<lparr>vwPolled := Some now\<rparr>)))"

definition life_sweep :: "u64 \<Rightarrow> login_view option \<Rightarrow> login_view option" where
  "life_sweep now v = (if live now v then v else None)"

lemma Gone_live: "Gone r now \<longleftrightarrow> \<not> live now (view_of r)"
  by (auto simp: Gone_def live_def view_of_def Let_def not_less split: login_state.split)

text \<open>A verified poll of a record is too early within five seconds of the last; the record a collector
  stores, and what the store holds once the answer was handed over: one transition, however many collect.\<close>

definition early :: "login_record \<Rightarrow> u64 \<Rightarrow> bool" where
  "early r now \<longleftrightarrow> lPolled r \<and> now < lLastPoll r + collectInterval"

definition handed :: "login_record \<Rightarrow> u64 \<Rightarrow> login_record" where
  "handed r now = r\<lparr>lPolled := True, lLastPoll := now, lState := CollectedLogin,
     lVersion := (if lState r = CollectedLogin then lVersion r else lVersion r + 1)\<rparr>"

definition handed_over :: "'s login_store \<Rightarrow> bytes \<Rightarrow> login_record \<Rightarrow> 's \<Rightarrow> bool" where
  "handed_over ops lid r st \<longleftrightarrow>
     (\<exists>r'. st_get ops st lid = Some r' \<and> lState r' = CollectedLogin \<and> lAnswer r' = lAnswer r \<and>
        lVersion r' = (if lState r = AnsweredLogin then lVersion r + 1 else lVersion r))"

section \<open>Lawful stores\<close>

locale cas_store =
  fixes ops :: "'s login_store" and good :: "'s \<Rightarrow> bool"
  assumes put_accepts: "good st \<Longrightarrow> st_put ops r e st = (b, st') \<Longrightarrow>
      b \<longleftrightarrow> (case st_get ops st (lID r) of None \<Rightarrow> e = 0 | Some c \<Rightarrow> lVersion c = e)"
    and put_get: "good st \<Longrightarrow> st_put ops r e st = (True, st') \<Longrightarrow>
      st_get ops st' i = (if i = lID r then Some r else st_get ops st i)"
    and put_refused: "st_put ops r e st = (False, st') \<Longrightarrow> st' = st"
    and put_good: "good st \<Longrightarrow> st_put ops r e st = (b, st') \<Longrightarrow> good st'"
    and get_id: "good st \<Longrightarrow> st_get ops st i = Some r \<Longrightarrow> lID r = i"
    and sweep_get: "good st \<Longrightarrow> st_sweep ops now st = (ids, st') \<Longrightarrow>
      st_get ops st' i = Option.bind (st_get ops st i) (\<lambda>r. if Gone r now then None else Some r)"
    and sweep_good: "good st \<Longrightarrow> st_sweep ops now st = (ids, st') \<Longrightarrow> good st'"
begin

text \<open>Every put of the service is of one of two kinds: a record read is put back at its version,
  or a new one replaces what was there.\<close>

lemma put_new:
  assumes "good st" "case st_get ops st (lID r) of None \<Rightarrow> e = 0 | Some c \<Rightarrow> lVersion c = e"
  shows "\<exists>st'. st_put ops r e st = (True, st') \<and> good st' \<and>
    login_view ops st' = (login_view ops st)(lID r := view_of r)"
proof -
  obtain b st' where p: "st_put ops r e st = (b, st')" by fastforce
  then have "b" using put_accepts [OF assms(1) p] assms(2) by simp
  then show ?thesis
    using p put_get [OF assms(1)] put_good [OF assms(1) p] by (auto simp: login_view_def)
qed

lemma put_back:
  assumes "good st" "st_get ops st i = Some r" "lID r' = i" "e = lVersion r"
  shows "\<exists>st'. st_put ops r' e st = (True, st') \<and> good st' \<and>
    login_view ops st' = (login_view ops st)(i := view_of r')"
  using put_new [OF assms(1), where r = r' and e = e] assms(2-4) by simp

lemma Begin_follows:
  assumes good: "good st" and ops: "svStore sv = Some ops"
    and run: "Begin sv (\<lambda>s. s) now lid nonce browser scope validFor st = (res, st')"
    and life: "life_begin now (length lid = 16 \<and> length nonce = 32 \<and> length browser = 32 \<and>
        (\<exists>t. ParseTerms scope = Inr t) \<and> 1 \<le> validFor \<and> validFor \<le> 2592000)
        (st_count ops st \<ge> 4096) (login_view ops st lid) = (code, v)"
  shows "good st' \<and> login_view ops st' = (login_view ops st)(lid := v) \<and>
    code = (case res of Inl c \<Rightarrow> Some c | Inr r \<Rightarrow> None)"
proof (cases "length lid = 16 \<and> length nonce = 32 \<and> length browser = 32 \<and> (\<exists>t. ParseTerms scope = Inr t) \<and>
    1 \<le> validFor \<and> validFor \<le> 2592000 \<and> \<not> live now (login_view ops st lid) \<and> st_count ops st < 4096")
  case False
  have "st' = st \<and> (case res of Inl c \<Rightarrow> code = Some c | Inr r \<Rightarrow> False) \<and> v = login_view ops st lid"
    using run life False
    by (auto simp: Begin_def ops life_begin_def Let_def idSize_def loginNonceSize_def maxValidFor_def
        maxPendingLogins_def login_view_def Gone_live live_def not_less not_le
        split: if_splits sum.splits option.splits)
  then show ?thesis using good by (auto split: sum.splits)
next
  case True
  then obtain t where t: "ParseTerms scope = Inr t" by blast
  let ?e = "case st_get ops st lid of None \<Rightarrow> 0 | Some r \<Rightarrow> lVersion r"
  let ?r = "\<lparr>lID = lid, lVersion = ?e + 1, lState = PendingLogin, lNonce = nonce,
      lBrowser = browser, lScope = scope, lTerms = t, lValidFor = validFor,
      lExpiresAt = now + loginExpiresIn, lRetainedTo = 0, lPolled = False, lLastPoll = 0, lAnswer = no_answer\<rparr>"
  have positive: "validFor \<noteq> 0" using True by auto
  have gone: "(case st_get ops st lid of None \<Rightarrow> False | Some r \<Rightarrow> \<not> Gone r now) = False"
    using True by (auto simp: login_view_def Gone_live live_def split: option.splits)
  have "case st_get ops st (lID ?r) of None \<Rightarrow> ?e = 0 | Some c \<Rightarrow> lVersion c = ?e"
    by (cases "st_get ops st lid") simp_all
  from put_new [OF good this] obtain st2 where p: "st_put ops ?r ?e st = (True, st2)" "good st2"
    "login_view ops st2 = (login_view ops st)(lid := view_of ?r)" by auto
  have "Begin sv (\<lambda>s. s) now lid nonce browser scope validFor st = (Inr ?r, st2)"
    using True p(1) positive unfolding Begin_def ops
    by (simp add: t gone idSize_def loginNonceSize_def maxValidFor_def maxPendingLogins_def Let_def not_less not_le)
  then show ?thesis
    using run life True p(2,3) by (auto simp: life_begin_def view_of_def)
qed

lemma Answer_follows:
  assumes good: "good st" and ops: "svStore sv = Some ops"
    and run: "Answer lib lg sv (\<lambda>s. s) now lid prin proof chain expectVersion st = ((code', refusal), st')"
    and life: "life_answer now (lVersion r = expectVersion)
        (lg_verify lg prin (svAudience sv) (login_request r) proof \<and> admit_login lib (svRoot sv) r prin chain now = None)
        \<lparr>ansPrincipal = prin, ansPossession = proof, ansAuthority = chain\<rparr> (login_view ops st lid) = (code, v)"
    and read: "st_get ops st lid = None \<or> st_get ops st lid = Some r"
  shows "good st' \<and> login_view ops st' = (login_view ops st)(lid := v) \<and> code = code'"
proof (cases "st_get ops st lid = Some r \<and> \<not> Gone r now \<and> lState r = PendingLogin \<and> lVersion r = expectVersion \<and>
    lg_verify lg prin (svAudience sv) (login_request r) proof \<and> admit_login lib (svRoot sv) r prin chain now = None")
  case False
  have "st' = st \<and> code = code' \<and> v = login_view ops st lid"
  proof (cases "st_get ops st lid = Some r \<and> \<not> Gone r now")
    case True
    then obtain w where w: "login_view ops st lid = Some w" "view_of r = Some w" "now < vwUntil w"
      by (auto simp: login_view_def Gone_live live_def split: option.splits)
    have phase: "vwPhase w = Waiting \<longleftrightarrow> lState r = PendingLogin"
      using w(2) by (auto simp: view_of_def Let_def split: login_state.splits)
    show ?thesis
      using run life True False w(1,3) phase
      by (auto simp: Answer_def ops life_answer_def live_def Let_def split: if_splits option.splits admission_refusal.splits)
  next
    case gone: False
    then have "\<not> live now (login_view ops st lid)" using read by (auto simp: login_view_def Gone_live live_def)
    then show ?thesis using run life gone read by (auto simp: Answer_def ops life_answer_def)
  qed
  then show ?thesis using good by simp
next
  case True
  let ?r = "r\<lparr>lState := AnsweredLogin, lAnswer := \<lparr>ansPrincipal = prin, ansPossession = proof, ansAuthority = chain\<rparr>,
      lRetainedTo := now + answerRetention, lVersion := expectVersion + 1\<rparr>"
  have "lID ?r = lid" "expectVersion = lVersion r" using True get_id [OF good] by auto
  from put_back [OF good _ this] True obtain st2 where p: "st_put ops ?r expectVersion st = (True, st2)" "good st2"
    "login_view ops st2 = (login_view ops st)(lid := view_of ?r)" by auto
  have "((code', refusal), st') = ((None, None), st2)"
    unfolding run [symmetric] using True p(1) by (simp add: Answer_def ops Let_def)
  moreover have "life_answer now True True a (view_of r) = (None, view_of (r\<lparr>lState := AnsweredLogin, lAnswer := a,
      lRetainedTo := now + answerRetention, lVersion := expectVersion + 1\<rparr>))" for a
    using True by (auto simp: Gone_live live_def life_answer_def view_of_def Let_def)
  ultimately show ?thesis using life True p(2,3) by (simp add: login_view_def)
qed

lemma Collect_follows:
  assumes good: "good st" and ops: "svStore sv = Some ops"
    and run: "Collect lg sv (\<lambda>s. s) (\<lambda>s. s) now lid proof st = (res, st')"
    and life: "life_collect now (lg_verify_collect lg (svAudience sv) (login_request r) proof) (login_view ops st lid) = (res2, v)"
    and read: "st_get ops st lid = None \<or> st_get ops st lid = Some r"
  shows "good st' \<and> login_view ops st' = (login_view ops st)(lid := v) \<and> res2 = res"
proof (cases "st_get ops st lid = Some r \<and> \<not> Gone r now")
  case False
  then have "\<not> live now (login_view ops st lid)" using read by (auto simp: login_view_def Gone_live live_def)
  then have "st' = st \<and> res2 = res \<and> v = login_view ops st lid"
    using run life False read by (auto simp: Collect_def ops life_collect_def)
  then show ?thesis using good by simp
next
  case True
  then obtain w where w: "login_view ops st lid = Some w" "view_of r = Some w" "now < vwUntil w"
    by (auto simp: login_view_def Gone_live live_def split: option.splits)
  have pace: "paced now w \<longleftrightarrow> lPolled r \<and> now < lLastPoll r + collectInterval"
    using w(2) by (auto simp: view_of_def paced_def Let_def split: login_state.splits if_splits)
  have id: "lID r = lid" using True get_id [OF good] by blast
  show ?thesis
  proof (cases "lg_verify_collect lg (svAudience sv) (login_request r) proof \<and> \<not> paced now w")
    case False
    then have "st' = st \<and> res2 = res \<and> v = login_view ops st lid"
      using run life True w(1,3) pace
      by (cases "lg_verify_collect lg (svAudience sv) (login_request r) proof")
        (auto simp: Collect_def ops life_collect_def live_def Let_def)
    then show ?thesis using good by simp
  next
    case polled: True
    let ?r = "r\<lparr>lPolled := True, lLastPoll := now\<rparr>"
    let ?c = "?r\<lparr>lState := CollectedLogin, lVersion := lVersion r + 1\<rparr>"
    obtain st1 where p1: "st_put ops ?r (lVersion r) st = (True, st1)" "good st1"
      "login_view ops st1 = (login_view ops st)(lid := view_of ?r)"
      using put_back [OF good, of lid r ?r] True id by auto
    obtain st2 where p2: "st_put ops ?c (lVersion r) st = (True, st2)" "good st2"
      "login_view ops st2 = (login_view ops st)(lid := view_of ?c)"
      using put_back [OF good, of lid r ?c] True id by auto
    have res: "(res, st') = (case lState r of PendingLogin \<Rightarrow> (Inl AuthorizationPending, st1)
        | AnsweredLogin \<Rightarrow> (Inr (lAnswer r), st2) | CollectedLogin \<Rightarrow> (Inr (lAnswer r), st1)
        | OtherState s \<Rightarrow> (Inl ExpiredToken, st))"
      unfolding run [symmetric] using True polled pace p1(1) p2(1)
      by (simp add: Collect_def ops Let_def split: login_state.split)
    have "life_collect now True (Some w) = (res2, v)" using life polled w(1) by simp
    then have spec: "(res2, v) = (case vwPhase w of
            Waiting \<Rightarrow> (Inl AuthorizationPending, Some (w\<lparr>vwPolled := Some now\<rparr>))
          | Ready a \<Rightarrow> (Inr a, Some (w\<lparr>vwPhase := Delivered a, vwPolled := Some now\<rparr>))
          | Delivered a \<Rightarrow> (Inr a, Some (w\<lparr>vwPolled := Some now\<rparr>)))"
      using polled w(3) by (simp add: life_collect_def live_def)
    show ?thesis
      using w(2) res spec p1(2,3) p2(2,3)
      by (cases "lState r") (auto simp: view_of_def Let_def)
  qed
qed

lemma Sweep_follows:
  assumes good: "good st" and ops: "svStore sv = Some ops" and run: "Sweep sv now st = (ids, st')"
  shows "good st' \<and> login_view ops st' = (\<lambda>i. life_sweep now (login_view ops st i))"
proof -
  have run': "st_sweep ops now st = (ids, st')" using run by (simp add: Sweep_def ops)
  have "login_view ops st' i = life_sweep now (login_view ops st i)" for i
    using sweep_get [OF good run', of i]
    by (cases "st_get ops st i") (auto simp: login_view_def life_sweep_def Gone_live live_def)
  then show ?thesis using sweep_good [OF good run'] by blast
qed

text \<open>A collector that loses the race for the transition answers what the other one stored.\<close>

lemma Collect_of_answer:
  assumes ops: "svStore sv = Some ops" and read: "st_get ops st lid = Some r"
    and state: "lState r = AnsweredLogin \<or> lState r = CollectedLogin" "\<not> Gone r now"
    and possession: "lg_verify_collect lg (svAudience sv) (login_request r) proof"
  shows "Collect lg sv others (\<lambda>s. s) now lid proof st =
    (if early r now then (Inl SlowDown, st)
     else if lState r = CollectedLogin then (Inr (lAnswer r), snd (st_put ops (handed r now) (lVersion r) (others st)))
     else case st_put ops (handed r now) (lVersion r) (others st) of
        (True, st') \<Rightarrow> (Inr (lAnswer r), st')
      | (False, st') \<Rightarrow>
          (case st_get ops st' lid of
             None \<Rightarrow> (Inl InvalidRequest, st')
           | Some found \<Rightarrow> if lState found \<noteq> CollectedLogin then (Inl InvalidRequest, st') else (Inr (lAnswer found), st')))"
  using state
proof (elim disjE)
  assume "lState r = AnsweredLogin"
  then show ?thesis
    using ops read state(2) possession
    by (auto simp: Collect_def early_def handed_def Let_def split: prod.split option.split)
next
  assume collected: "lState r = CollectedLogin"
  then have "handed r now = r\<lparr>lPolled := True, lLastPoll := now\<rparr>" by (cases r) (simp add: handed_def)
  then show ?thesis
    using collected ops read state(2) possession by (auto simp: Collect_def early_def Let_def)
qed

lemma Collect_race:
  assumes good: "good st" and ops: "svStore sv = Some ops" and read: "st_get ops st lid = Some r"
    and state: "lState r = AnsweredLogin \<or> lState r = CollectedLogin" "\<not> Gone r now" "\<not> Gone r now2"
    and proofs: "lg_verify_collect lg (svAudience sv) (login_request r) proof"
      "lg_verify_collect lg (svAudience sv) (login_request r) proof2"
  shows "\<exists>st2 st1.
    Collect lg sv (\<lambda>s. s) (\<lambda>s. s) now2 lid proof2 st = (if early r now2 then (Inl SlowDown, st) else (Inr (lAnswer r), st2)) \<and>
    Collect lg sv (\<lambda>s. snd (Collect lg sv (\<lambda>s. s) (\<lambda>s. s) now2 lid proof2 s)) (\<lambda>s. s) now lid proof st
      = (if early r now then (Inl SlowDown, st) else (Inr (lAnswer r), st1)) \<and>
    handed_over ops lid r st1 \<and> handed_over ops lid r st2"
proof -
  have id: "lID r = lid" using read get_id [OF good] by blast
  have put: "\<exists>s'. st_put ops (handed r t) (lVersion r) s = (True, s') \<and> good s' \<and> st_get ops s' lid = Some (handed r t)"
    if "good s" "st_get ops s lid = Some c" "lVersion c = lVersion r" for s c t
  proof -
    have "case st_get ops s (lID (handed r t)) of None \<Rightarrow> lVersion r = 0 | Some c \<Rightarrow> lVersion c = lVersion r"
      using that id by (simp add: handed_def)
    from put_new [OF that(1) this] obtain s' where s': "st_put ops (handed r t) (lVersion r) s = (True, s')" "good s'" by blast
    then have "st_get ops s' lid = Some (handed r t)" using put_get [OF that(1) s'(1)] id by (simp add: handed_def)
    then show ?thesis using s' by blast
  qed
  note alone = Collect_of_answer [OF ops read state(1)]
  obtain st2 where p2: "st_put ops (handed r now2) (lVersion r) st = (True, st2)" "good st2" "st_get ops st2 lid = Some (handed r now2)"
    using put [OF good read refl] by blast
  have over: "handed_over ops lid r s" if "st_get ops s lid = Some (handed r t)" for s t
    using that state(1) by (auto simp: handed_over_def handed_def)
  have second: "Collect lg sv (\<lambda>s. s) (\<lambda>s. s) now2 lid proof2 st = (if early r now2 then (Inl SlowDown, st) else (Inr (lAnswer r), st2))"
    using p2(1) by (simp add: alone [OF state(3) proofs(2)])
  show ?thesis
  proof (cases "early r now2 \<or> lState r = CollectedLogin")
    case True
    let ?s = "if early r now2 then st else st2"
    have "\<exists>c. good ?s \<and> st_get ops ?s lid = Some c \<and> lVersion c = lVersion r"
      using good read p2(2,3) True by (auto simp: handed_def)
    then obtain st1 where p1: "st_put ops (handed r now) (lVersion r) ?s = (True, st1)" "st_get ops st1 lid = Some (handed r now)"
      using put by metis
    have "snd (Collect lg sv (\<lambda>s. s) (\<lambda>s. s) now2 lid proof2 st) = ?s" using second by simp
    then have "Collect lg sv (\<lambda>s. snd (Collect lg sv (\<lambda>s. s) (\<lambda>s. s) now2 lid proof2 s)) (\<lambda>s. s) now lid proof st
      = (if early r now then (Inl SlowDown, st) else (Inr (lAnswer r), st1))"
      using p1(1) by (simp add: alone [OF state(2) proofs(1)])
    then show ?thesis using second over [OF p1(2)] over [OF p2(3)] by blast
  next
    case False
    then have s: "snd (Collect lg sv (\<lambda>s. s) (\<lambda>s. s) now2 lid proof2 st) = st2" using second by simp
    obtain b st3 where p3: "st_put ops (handed r now) (lVersion r) st2 = (b, st3)" by fastforce
    have version: "lVersion (handed r now2) \<noteq> lVersion r" using False by (simp add: handed_def)
    have "lID (handed r now) = lid" using id by (simp add: handed_def)
    then have "\<not> b" using put_accepts [OF p2(2) p3] p2(3) version by simp
    then have lost: "st_put ops (handed r now) (lVersion r) st2 = (False, st2)" using p3 put_refused by simp
    have "lState (handed r now2) = CollectedLogin" "lAnswer (handed r now2) = lAnswer r" by (simp_all add: handed_def)
    then have "Collect lg sv (\<lambda>s. snd (Collect lg sv (\<lambda>s. s) (\<lambda>s. s) now2 lid proof2 s)) (\<lambda>s. s) now lid proof st
      = (if early r now then (Inl SlowDown, st) else (Inr (lAnswer r), st2))"
      using False lost p2(3) s by (simp add: alone [OF state(2) proofs(1)])
    then show ?thesis using second over [OF p2(3)] by blast
  qed
qed

end

section \<open>The store kept in memory\<close>

text \<open>
  \<open>memoryStore\<close>: a Go map from the hexadecimal of an id to its record, as an association list that
  holds each key once.
\<close>

definition hex_digit :: "nat \<Rightarrow> char" where
  "hex_digit n = ''0123456789abcdef'' ! n"

definition hex_string :: "bytes \<Rightarrow> string" where
  "hex_string bs = concat (map (\<lambda>b. [hex_digit (unat b div 16), hex_digit (unat b mod 16)]) bs)"

type_synonym memory = "(string \<times> login_record) list"

definition memory_get :: "memory \<Rightarrow> bytes \<Rightarrow> login_record option" where
  "memory_get s i = map_of s (hex_string i)"

definition memory_put :: "login_record \<Rightarrow> int \<Rightarrow> memory \<Rightarrow> bool \<times> memory" where
  "memory_put r expectVersion s =
     (let key = hex_string (lID r) in
      case map_of s key of
        None \<Rightarrow> if expectVersion \<noteq> 0 then (False, s) else (True, AList.update key r s)
      | Some current \<Rightarrow>
          if lVersion current \<noteq> expectVersion then (False, s) else (True, AList.update key r s))"

fun memory_sweep_keys :: "u64 \<Rightarrow> string list \<Rightarrow> memory \<Rightarrow> bytes list \<times> memory" where
  "memory_sweep_keys now [] s = ([], s)"
| "memory_sweep_keys now (key # keys) s =
     (case map_of s key of
        None \<Rightarrow> memory_sweep_keys now keys s
      | Some r \<Rightarrow>
          if Gone r now then
            (case memory_sweep_keys now keys (AList.delete key s) of (dropped, s) \<Rightarrow> (lID r # dropped, s))
          else memory_sweep_keys now keys s)"

definition memory_sweep :: "u64 \<Rightarrow> memory \<Rightarrow> bytes list \<times> memory" where
  "memory_sweep now s = memory_sweep_keys now (sort (map fst s)) s"

definition memory_count :: "memory \<Rightarrow> int" where
  "memory_count s = int (length s)"

definition memory_ops :: "memory login_store" where
  "memory_ops = \<lparr>st_get = memory_get, st_put = memory_put, st_sweep = memory_sweep, st_count = memory_count\<rparr>"

definition memory_good :: "memory \<Rightarrow> bool" where
  "memory_good s \<longleftrightarrow> (\<forall>key r. map_of s key = Some r \<longrightarrow> key = hex_string (lID r))"

lemma hex_digit_inj: "m < 16 \<Longrightarrow> n < 16 \<Longrightarrow> hex_digit m = hex_digit n \<longleftrightarrow> m = n"
proof -
  have "distinct ''0123456789abcdef''" by simp
  then show "m < 16 \<Longrightarrow> n < 16 \<Longrightarrow> hex_digit m = hex_digit n \<longleftrightarrow> m = n"
    unfolding hex_digit_def by (subst nth_eq_iff_index_eq) simp_all
qed

lemma hex_byte_inj:
  assumes "hex_digit (unat (a :: byte) div 16) = hex_digit (unat b div 16)"
    and "hex_digit (unat a mod 16) = hex_digit (unat b mod 16)"
  shows "a = b"
proof -
  have "unat a < 256" "unat b < 256"
    using unsigned_less [of a, where ?'a = nat] unsigned_less [of b, where ?'a = nat] by simp_all
  then have "unat a div 16 < 16" "unat b div 16 < 16" by (simp_all add: less_mult_imp_div_less)
  then have "unat a div 16 = unat b div 16" "unat a mod 16 = unat b mod 16"
    using assms hex_digit_inj by simp_all
  then have "unat a = unat b" by (metis div_mult_mod_eq)
  then show ?thesis by (simp add: word_unat_eq_iff)
qed

lemma hex_string_inj [simp]: "hex_string a = hex_string b \<longleftrightarrow> a = b"
proof
  show "hex_string a = hex_string b \<Longrightarrow> a = b"
  proof (induction a arbitrary: b)
    case Nil
    then show ?case by (cases b) (simp_all add: hex_string_def)
  next
    case (Cons x a)
    then obtain y b' where b: "b = y # b'" by (cases b) (simp_all add: hex_string_def)
    then have "x = y" "hex_string a = hex_string b'"
      using Cons.prems hex_byte_inj by (auto simp: hex_string_def)
    then show ?case using Cons.IH b by simp
  qed
qed simp

lemma memory_sweep_keys_get:
  "memory_sweep_keys now keys s = (ids, s') \<Longrightarrow>
   map_of s' k = (if k \<in> set keys then Option.bind (map_of s k) (\<lambda>r. if Gone r now then None else Some r) else map_of s k)"
proof (induction now keys s arbitrary: ids s' rule: memory_sweep_keys.induct)
  case (2 now key keys s)
  show ?case
  proof (cases "map_of s key")
    case None
    then show ?thesis using 2(1) [OF None] 2(4) by (auto simp: bind_eq_None_conv)
  next
    case (Some r)
    show ?thesis
    proof (cases "Gone r now")
      case True
      obtain ids1 s1 where "memory_sweep_keys now keys (AList.delete key s) = (ids1, s1)" by fastforce
      then show ?thesis using 2(2) [OF Some True] 2(4) Some True by (auto simp: delete_conv)
    next
      case False
      then show ?thesis using 2(3) [OF Some False] 2(4) Some by auto
    qed
  qed
qed simp

interpretation memory: cas_store memory_ops memory_good
proof unfold_locales
  fix st st' :: memory and r c :: login_record and e :: int and b i now ids
  show "memory_good st \<Longrightarrow> st_put memory_ops r e st = (b, st') \<Longrightarrow>
      b \<longleftrightarrow> (case st_get memory_ops st (lID r) of None \<Rightarrow> e = 0 | Some c \<Rightarrow> lVersion c = e)"
    by (auto simp: memory_ops_def memory_put_def memory_get_def Let_def split: option.splits if_splits)
  show "memory_good st \<Longrightarrow> st_put memory_ops r e st = (True, st') \<Longrightarrow>
      st_get memory_ops st' i = (if i = lID r then Some r else st_get memory_ops st i)"
    by (auto simp: memory_ops_def memory_put_def memory_get_def Let_def update_conv split: option.splits if_splits)
  show "st_put memory_ops r e st = (False, st') \<Longrightarrow> st' = st"
    by (auto simp: memory_ops_def memory_put_def Let_def split: option.splits if_splits)
  show "memory_good st \<Longrightarrow> st_put memory_ops r e st = (b, st') \<Longrightarrow> memory_good st'"
    by (auto simp: memory_ops_def memory_put_def memory_good_def Let_def update_conv split: option.splits if_splits)
  show "memory_good st \<Longrightarrow> st_get memory_ops st i = Some r \<Longrightarrow> lID r = i"
    by (metis hex_string_inj login_store.select_convs(1) memory_get_def memory_good_def memory_ops_def)
  assume good: "memory_good st" and run: "st_sweep memory_ops now st = (ids, st')"
  have swept: "map_of st' k = Option.bind (map_of st k) (\<lambda>r. if Gone r now then None else Some r)" for k
  proof (cases "map_of st k")
    case None
    then show ?thesis
      using run memory_sweep_keys_get [of now "sort (map fst st)" st ids st' k]
      by (auto simp: memory_ops_def memory_sweep_def)
  next
    case (Some r)
    then have "k \<in> set (sort (map fst st))" by (force dest: map_of_SomeD)
    then show ?thesis
      using run memory_sweep_keys_get [of now "sort (map fst st)" st ids st' k]
      by (simp add: memory_ops_def memory_sweep_def)
  qed
  show "st_get memory_ops st' i = Option.bind (st_get memory_ops st i) (\<lambda>r. if Gone r now then None else Some r)"
    using swept by (simp add: memory_ops_def memory_get_def)
  show "memory_good st'" using good by (auto simp: memory_good_def swept bind_eq_Some_conv split: if_splits)
qed

end
