(* ===== verification/Login_Spec.thy ===== *)
theory Login_Spec
  imports Login_Store Grant_Spec
begin

text \<open>
  The properties of the login bootstrap: the terms' grammar, the admission of an answer, and the
  lifecycle the service keeps over any store that offers a versioned compare-and-set.  The store of
  the witnesses is \<open>memoryStore\<close> of \<open>auth/go/boot_test.go\<close>.
\<close>

section \<open>The grammar of terms\<close>

lemma tag_rank_eq:
  "tag_rank tag = (if tag = ''action'' then 0 else if tag = ''delegable'' then 1
     else if tag = ''scope'' then 2 else if tag = ''depth'' then 3 else - 1)"
  by (simp add: tag_rank_def tags_def)

lemma depth_spelled: "\<forall>k \<in> set [0..15]. terms_depth (int_decimal k) = Some (word_of_int k)"
  by code_simp

lemma terms_depth_Some:
  "terms_depth value = Some n \<longleftrightarrow> (value = int_decimal (uint n) \<and> uint n \<le> 15)"
proof
  assume "terms_depth value = Some n"
  then obtain k where k: "parse_uint8 value = Some k" "value = int_decimal k" "k \<le> 15" "n = word_of_int k"
    by (auto simp: terms_depth_def split: option.splits if_splits)
  have "0 \<le> k" using k(1) decimal_value_nonneg by (auto simp: parse_uint8_def split: if_splits option.splits)
  then have "uint n = k" using k(3,4) by (simp add: uint_word_of_int)
  then show "value = int_decimal (uint n) \<and> uint n \<le> 15" using k by simp
next
  assume "value = int_decimal (uint n) \<and> uint n \<le> 15"
  moreover have "0 \<le> uint n" by simp
  ultimately show "terms_depth value = Some n"
    using depth_spelled by (metis atLeastAtMost_iff set_upto word_of_int_uint)
qed


definition tagged :: "string \<Rightarrow> string list \<Rightarrow> string list" where
  "tagged tag = map (\<lambda>v. tag @ '':'' @ v)"

lemma tagged_simps [simp]: "tagged tag [] = []" "tagged tag (v # vs) = (tag @ '':'' @ v) # tagged tag vs"
  by (simp_all add: tagged_def)

lemma cut_tag: "cut (tag @ '':'' @ v) CHR '':'' = (tag, v, True)" if "tag \<in> set tags"
proof -
  have "CHR '':'' \<notin> set tag" using that by (auto simp: tags_def)
  then show ?thesis using cut_append [of "CHR '':''" tag v] by simp
qed

text \<open>What the loop has read of the entries when it is done.\<close>

definition depth_read :: "bool \<Rightarrow> byte \<Rightarrow> string list \<Rightarrow> byte \<Rightarrow> bool" where
  "depth_read seen before es n \<longleftrightarrow>
     es = [] \<and> n = before \<or> \<not> seen \<and> es = [''depth:'' @ int_decimal (uint n)] \<and> uint n \<le> 15"

definition terms_read :: "int \<Rightarrow> bool \<Rightarrow> terms \<Rightarrow> string list \<Rightarrow> terms \<Rightarrow> bool" where
  "terms_read rank seen t es t' \<longleftrightarrow>
     (\<exists>as ds ss dp. es = tagged ''action'' as @ tagged ''delegable'' ds @ tagged ''scope'' ss @ dp \<and>
        (rank > 0 \<longrightarrow> as = []) \<and> (rank > 1 \<longrightarrow> ds = []) \<and> (rank > 2 \<longrightarrow> ss = []) \<and>
        tmActions t' = tmActions t @ as \<and> tmDelegable t' = tmDelegable t @ ds \<and> tmScope t' = tmScope t @ ss \<and>
        depth_read seen (tmDepth t) dp (tmDepth t'))"

lemma terms_read_cons:
  assumes "terms_read r seen' t1 es t'" and "rank \<le> r"
  shows "r = 0 \<Longrightarrow> seen' = seen \<Longrightarrow> t1 = t\<lparr>tmActions := tmActions t @ [v]\<rparr> \<Longrightarrow> terms_read rank seen t ((''action'' @ '':'' @ v) # es) t'"
    and "r = 1 \<Longrightarrow> seen' = seen \<Longrightarrow> t1 = t\<lparr>tmDelegable := tmDelegable t @ [v]\<rparr> \<Longrightarrow> terms_read rank seen t ((''delegable'' @ '':'' @ v) # es) t'"
    and "r = 2 \<Longrightarrow> seen' = seen \<Longrightarrow> t1 = t\<lparr>tmScope := tmScope t @ [v]\<rparr> \<Longrightarrow> terms_read rank seen t ((''scope'' @ '':'' @ v) # es) t'"
    and "r = 3 \<Longrightarrow> seen' \<Longrightarrow> \<not> seen \<Longrightarrow> t1 = t\<lparr>tmDepth := n\<rparr> \<Longrightarrow> uint n \<le> 15 \<Longrightarrow>
      terms_read rank seen t ((''depth'' @ '':'' @ int_decimal (uint n)) # es) t'"
proof -
  obtain as ds ss dp where r: "es = tagged ''action'' as @ tagged ''delegable'' ds @ tagged ''scope'' ss @ dp"
    "r > 0 \<longrightarrow> as = []" "r > 1 \<longrightarrow> ds = []" "r > 2 \<longrightarrow> ss = []"
    "tmActions t' = tmActions t1 @ as" "tmDelegable t' = tmDelegable t1 @ ds" "tmScope t' = tmScope t1 @ ss"
    "depth_read seen' (tmDepth t1) dp (tmDepth t')"
    using assms(1) unfolding terms_read_def by blast
  show "terms_read rank seen t ((''action'' @ '':'' @ v) # es) t'"
    if "r = 0" "seen' = seen" "t1 = t\<lparr>tmActions := tmActions t @ [v]\<rparr>"
    unfolding terms_read_def using r that assms(2)
    by (intro exI [of _ "v # as"] exI [of _ ds] exI [of _ ss] exI [of _ dp]) simp
  show "terms_read rank seen t ((''delegable'' @ '':'' @ v) # es) t'"
    if "r = 1" "seen' = seen" "t1 = t\<lparr>tmDelegable := tmDelegable t @ [v]\<rparr>"
    unfolding terms_read_def using r that assms(2)
    by (intro exI [of _ "[]"] exI [of _ "v # ds"] exI [of _ ss] exI [of _ dp]) simp
  show "terms_read rank seen t ((''scope'' @ '':'' @ v) # es) t'"
    if "r = 2" "seen' = seen" "t1 = t\<lparr>tmScope := tmScope t @ [v]\<rparr>"
    unfolding terms_read_def using r that assms(2)
    by (intro exI [of _ "[]"] exI [of _ "[]"] exI [of _ "v # ss"] exI [of _ dp]) simp
  show "terms_read rank seen t ((''depth'' @ '':'' @ int_decimal (uint n)) # es) t'"
    if "r = 3" "seen'" "\<not> seen" "t1 = t\<lparr>tmDepth := n\<rparr>" "uint n \<le> 15"
    unfolding terms_read_def using r that assms(2)
    by (intro exI [of _ "[]"] exI [of _ "[]"] exI [of _ "[]"] exI [of _ "[''depth:'' @ int_decimal (uint n)]"])
      (simp add: depth_read_def)
qed

lemma parse_terms_read:
  "parse_terms i rank seen t es = Inr (t', seen') \<Longrightarrow> (seen \<longrightarrow> rank = 3) \<Longrightarrow> terms_read rank seen t es t'"
proof (induction es arbitrary: i rank seen t)
  case Nil
  then show ?case unfolding terms_read_def by (intro exI [of _ "[]"]) (simp add: depth_read_def)
next
  case (Cons e es)
  obtain tag v found where cut: "cut e CHR '':'' = (tag, v, found)" by (metis prod_cases3)
  have found: "found" using Cons.prems(1) cut by (auto split: if_splits)
  then have e: "e = tag @ '':'' @ v" using cut by (simp add: cut_found)
  let ?r = "tag_rank tag"
  have ok: "\<not> ?r < 0" "rank \<le> ?r" "\<not> (?r = 3 \<and> rank = 3 \<and> seen)"
    using Cons.prems(1) cut found by (auto simp: Let_def split: if_splits)
  note step = Cons.prems(1) [simplified, unfolded cut, simplified, unfolded Let_def]
  consider "tag = ''action''" "?r = 0" | "tag = ''delegable''" "?r = 1" | "tag = ''scope''" "?r = 2"
    | "tag = ''depth''" "?r = 3"
    using ok(1) by (auto simp: tag_rank_eq split: if_splits)
  then show ?case
  proof cases
    case 1
    then have "parse_terms (i + 1) 0 seen (t\<lparr>tmActions := tmActions t @ [v]\<rparr>) es = Inr (t', seen')"
      using step found by (simp split: if_splits)
    from Cons.IH [OF this] show ?thesis
      unfolding e 1(1) using ok(2) Cons.prems(2) 1(2) by (intro terms_read_cons(1) [OF _ _ refl refl refl]) auto
  next
    case 2
    then have "parse_terms (i + 1) 1 seen (t\<lparr>tmDelegable := tmDelegable t @ [v]\<rparr>) es = Inr (t', seen')"
      using step found by (simp split: if_splits)
    from Cons.IH [OF this] show ?thesis
      unfolding e 2(1) using ok(2) Cons.prems(2) 2(2) by (intro terms_read_cons(2) [OF _ _ refl refl refl]) auto
  next
    case 3
    then have "parse_terms (i + 1) 2 seen (t\<lparr>tmScope := tmScope t @ [v]\<rparr>) es = Inr (t', seen')"
      using step found by (simp split: if_splits)
    from Cons.IH [OF this] show ?thesis
      unfolding e 3(1) using ok(2) Cons.prems(2) 3(2) by (intro terms_read_cons(3) [OF _ _ refl refl refl]) auto
  next
    case 4
    then obtain n where n: "terms_depth v = Some n" "parse_terms (i + 1) 3 True (t\<lparr>tmDepth := n\<rparr>) es = Inr (t', seen')"
      using step found by (auto split: if_splits option.splits)
    then have v: "v = int_decimal (uint n)" "uint n \<le> 15" by (simp_all add: terms_depth_Some)
    have "\<not> seen" using ok(3) Cons.prems(2) 4(2) by blast
    with Cons.IH [OF n(2)] show ?thesis
      unfolding e 4(1) v(1) using ok(2) v(2) 4(2) by (intro terms_read_cons(4) [OF _ _ refl _ _ refl]) auto
  qed
qed

text \<open>And the loop reads what is written in that order.\<close>

definition add_term :: "string \<Rightarrow> string \<Rightarrow> terms \<Rightarrow> terms" where
  "add_term tag v t =
     (if tag = ''action'' then t\<lparr>tmActions := tmActions t @ [v]\<rparr>
      else if tag = ''delegable'' then t\<lparr>tmDelegable := tmDelegable t @ [v]\<rparr>
      else t\<lparr>tmScope := tmScope t @ [v]\<rparr>)"

lemma fold_add_term:
  "fold (add_term ''action'') vs t = t\<lparr>tmActions := tmActions t @ vs\<rparr>"
  "fold (add_term ''delegable'') vs t = t\<lparr>tmDelegable := tmDelegable t @ vs\<rparr>"
  "fold (add_term ''scope'') vs t = t\<lparr>tmScope := tmScope t @ vs\<rparr>"
  by (induction vs arbitrary: t) (simp_all add: add_term_def)

lemma parse_tagged:
  assumes "tag \<in> set tags" "tag \<noteq> ''depth''"
  shows "rank \<le> tag_rank tag \<Longrightarrow> \<exists>r \<le> tag_rank tag.
    parse_terms i rank False t (tagged tag vs @ es) = parse_terms (i + length vs) r False (fold (add_term tag) vs t) es"
proof (induction vs arbitrary: i rank t)
  case (Cons v vs)
  have "parse_terms i rank False t (tagged tag (v # vs) @ es) =
      parse_terms (i + 1) (tag_rank tag) False (add_term tag v t) (tagged tag vs @ es)"
    using Cons.prems assms cut_tag [OF assms(1), of v] by (auto simp: tags_def Let_def add_term_def tag_rank_eq)
  then show ?case using Cons.IH [OF order_refl, of "i + 1" "add_term tag v t"] by simp
qed auto

lemma parse_rendered:
  assumes "tmDepth t \<le> 15"
  shows "parse_terms 0 0 False no_terms (RenderTerms t withDepth) = Inr (t, withDepth \<or> tmDepth t \<noteq> 0)"
proof -
  let ?dp = "if withDepth \<or> tmDepth t \<noteq> 0 then [''depth:'' @ int_decimal (uint (tmDepth t))] else []"
  let ?t = "no_terms\<lparr>tmActions := tmActions t, tmDelegable := tmDelegable t, tmScope := tmScope t\<rparr>"
  have render: "RenderTerms t withDepth =
      tagged ''action'' (tmActions t) @ tagged ''delegable'' (tmDelegable t) @ tagged ''scope'' (tmScope t) @ ?dp"
    by (simp add: RenderTerms_def tagged_def)
  obtain r1 where r1: "r1 \<le> 0" "parse_terms 0 0 False no_terms (RenderTerms t withDepth) =
      parse_terms (0 + length (tmActions t)) r1 False (no_terms\<lparr>tmActions := tmActions t\<rparr>)
        (tagged ''delegable'' (tmDelegable t) @ tagged ''scope'' (tmScope t) @ ?dp)"
    using parse_tagged [of "''action''" 0 0 no_terms "tmActions t"
        "tagged ''delegable'' (tmDelegable t) @ tagged ''scope'' (tmScope t) @ ?dp"]
    by (auto simp: tags_def tag_rank_eq fold_add_term no_terms_def render)
  obtain r2 where r2: "r2 \<le> 1" "parse_terms (0 + length (tmActions t)) r1 False (no_terms\<lparr>tmActions := tmActions t\<rparr>)
        (tagged ''delegable'' (tmDelegable t) @ tagged ''scope'' (tmScope t) @ ?dp) =
      parse_terms (0 + length (tmActions t) + length (tmDelegable t)) r2 False
        (no_terms\<lparr>tmActions := tmActions t, tmDelegable := tmDelegable t\<rparr>) (tagged ''scope'' (tmScope t) @ ?dp)"
    using r1(1) parse_tagged [of "''delegable''" r1 "0 + length (tmActions t)" "no_terms\<lparr>tmActions := tmActions t\<rparr>"
        "tmDelegable t" "tagged ''scope'' (tmScope t) @ ?dp"]
    by (auto simp: tags_def tag_rank_eq fold_add_term no_terms_def)
  let ?i = "0 + length (tmActions t) + length (tmDelegable t)"
  obtain r3 where r3: "r3 \<le> 2" "parse_terms ?i r2 False
        (no_terms\<lparr>tmActions := tmActions t, tmDelegable := tmDelegable t\<rparr>) (tagged ''scope'' (tmScope t) @ ?dp) =
      parse_terms (?i + length (tmScope t)) r3 False ?t ?dp"
    using r2(1) parse_tagged [of "''scope''" r2 ?i
        "no_terms\<lparr>tmActions := tmActions t, tmDelegable := tmDelegable t\<rparr>" "tmScope t" ?dp]
    by (auto simp: tags_def tag_rank_eq fold_add_term no_terms_def)
  have "uint (tmDepth t) \<le> 15" using assms by (simp add: word_le_def)
  then have "terms_depth (int_decimal (uint (tmDepth t))) = Some (tmDepth t)" by (simp add: terms_depth_Some)
  then have "parse_terms j r3 False ?t ?dp = Inr (t, withDepth \<or> tmDepth t \<noteq> 0)" for j
    using r3(1) cut_tag [of "''depth''" "int_decimal (uint (tmDepth t))"]
    by (auto simp: tags_def tag_rank_eq Let_def no_terms_def)
  then show ?thesis using r1(2) r2(2) r3(2) by simp
qed

lemma terms_readD:
  assumes "terms_read 0 False no_terms es t"
  shows "\<exists>withDepth. es = RenderTerms t withDepth"
proof -
  obtain as ds ss dp where r: "es = tagged ''action'' as @ tagged ''delegable'' ds @ tagged ''scope'' ss @ dp"
    "tmActions t = as" "tmDelegable t = ds" "tmScope t = ss" "depth_read False 0 dp (tmDepth t)"
    using assms unfolding terms_read_def by (auto simp: no_terms_def)
  then show ?thesis
    by (intro exI [of _ "dp \<noteq> []"]) (auto simp: RenderTerms_def tagged_def depth_read_def)
qed

text \<open>C20: The terms' spelling is canonical: a list of entries is accepted, as certain terms,
  exactly if a grant can carry those terms and the list is what \<open>RenderTerms\<close> makes of them, with
  or without the entry of a depth of 0.  So what the person reads is what the terms are, and two
  lists mean the same terms only if they differ in that entry.\<close>

theorem terms_spelling_is_canonical:
  "ParseTerms es = Inr t \<longleftrightarrow> grant_ok (terms_grant t) \<and> length (enc_grant (terms_grant t)) < maxBodyBytes \<and>
     (\<exists>withDepth. es = RenderTerms t withDepth)"
proof -
  have carried: "(\<exists>body. Encode (terms_grant t) = Inr body) \<longleftrightarrow>
      grant_ok (terms_grant t) \<and> length (enc_grant (terms_grant t)) < maxBodyBytes"
    by (auto simp: Encode_Inr_iff)
  show ?thesis
  proof
    assume "ParseTerms es = Inr t"
    then obtain seen where "parse_terms 0 0 False no_terms es = Inr (t, seen)" "\<exists>body. Encode (terms_grant t) = Inr body"
      by (auto simp: ParseTerms_def split: sum.splits)
    then show "grant_ok (terms_grant t) \<and> length (enc_grant (terms_grant t)) < maxBodyBytes \<and>
        (\<exists>withDepth. es = RenderTerms t withDepth)"
      using parse_terms_read terms_readD unfolding carried by blast
  next
    assume ok: "grant_ok (terms_grant t) \<and> length (enc_grant (terms_grant t)) < maxBodyBytes \<and>
        (\<exists>withDepth. es = RenderTerms t withDepth)"
    then have "unat (tmDepth t) \<le> 15" by (simp add: grant_ok_def terms_grant_def maxDepth_def)
    then have "tmDepth t \<le> 15" by (simp add: word_le_nat_alt)
    moreover obtain withDepth body where "es = RenderTerms t withDepth" "Encode (terms_grant t) = Inr body"
      using ok carried by blast
    ultimately show "ParseTerms es = Inr t" using parse_rendered by (simp add: ParseTerms_def)
  qed
qed

section \<open>The lifecycle\<close>

text \<open>C21: Over any store that keeps the laws of a versioned compare-and-set the service is the
  lifecycle of a login: what each transition answers, and what becomes of the login as its client
  sees it, is what the abstract step says of the phase, the deadline and the last poll alone, and no
  other login changes.  A sweep drops exactly the logins that have come to their end.\<close>

theorem service_follows_lifecycle:
  fixes ops :: "'s login_store"
  assumes "cas_store ops good" and "good st" and "svStore sv = Some ops"
    and "Begin sv (\<lambda>s. s) now lid nonce browser scope validFor st = (begun, st1)"
    and "Answer lib lg sv (\<lambda>s. s) now lid prin proof chain expectVersion st = ((answered, refusal), st2)"
    and "Collect lg sv (\<lambda>s. s) (\<lambda>s. s) now lid proof st = (collected, st3)"
    and "Sweep sv now st = (ids, st4)"
    and "st_get ops st lid = None \<or> st_get ops st lid = Some r"
  defines "b \<equiv> life_begin now (length lid = 16 \<and> length nonce = 32 \<and> length browser = 32 \<and>
        (\<exists>t. ParseTerms scope = Inr t) \<and> 1 \<le> validFor \<and> validFor \<le> 2592000)
        (st_count ops st \<ge> 4096) (login_view ops st lid)"
    and "a \<equiv> life_answer now (lVersion r = expectVersion)
        (lg_verify lg prin (svAudience sv) (login_request r) proof \<and> admit_login lib (svRoot sv) r prin chain now = None)
        \<lparr>ansPrincipal = prin, ansPossession = proof, ansAuthority = chain\<rparr> (login_view ops st lid)"
    and "c \<equiv> life_collect now (lg_verify_collect lg (svAudience sv) (login_request r) proof) (login_view ops st lid)"
  shows "(case begun of Inl code \<Rightarrow> fst b = Some code | Inr new \<Rightarrow> fst b = None) \<and>
      login_view ops st1 = (login_view ops st)(lid := snd b) \<and> good st1 \<and>
    answered = fst a \<and> login_view ops st2 = (login_view ops st)(lid := snd a) \<and> good st2 \<and>
    collected = fst c \<and> login_view ops st3 = (login_view ops st)(lid := snd c) \<and> good st3 \<and>
    login_view ops st4 = (\<lambda>i. life_sweep now (login_view ops st i)) \<and> good st4"
proof -
  have "good st1 \<and> login_view ops st1 = (login_view ops st)(lid := snd b) \<and>
      fst b = (case begun of Inl code \<Rightarrow> Some code | Inr new \<Rightarrow> None)"
    using cas_store.Begin_follows [OF assms(1-4)] unfolding b_def by (metis prod.collapse)
  moreover have "good st2 \<and> login_view ops st2 = (login_view ops st)(lid := snd a) \<and> fst a = answered"
    using cas_store.Answer_follows [OF assms(1-3,5) _ assms(8)] unfolding a_def by (metis prod.collapse)
  moreover have "good st3 \<and> login_view ops st3 = (login_view ops st)(lid := snd c) \<and> fst c = collected"
    using cas_store.Collect_follows [OF assms(1-3,6) _ assms(8)] unfolding c_def by (metis prod.collapse)
  moreover have "good st4 \<and> login_view ops st4 = (\<lambda>i. life_sweep now (login_view ops st i))"
    using cas_store.Sweep_follows [OF assms(1-3,7)] .
  ultimately show ?thesis by (simp split: sum.split)
qed

section \<open>Concrete logins\<close>

definition demo_id :: bytes where "demo_id = replicate 16 7"
definition demo_browser :: bytes where "demo_browser = replicate 32 3"

text \<open>A login scheme that takes the browser key as the collect proof and the nonce as the login proof.\<close>

definition demo_login :: login_lib where
  "demo_login = \<lparr>lg_verify = (\<lambda>key aud rq p. p = lrNonce rq), lg_verify_collect = (\<lambda>aud rq p. p = lrBrowser rq)\<rparr>"

definition demo_service :: "memory service" where
  "demo_service = \<lparr>svRoot = demo_root, svAudience = ''https://ex.com'', svStore = Some memory_ops\<rparr>"

definition demo_terms :: terms where
  "demo_terms = \<lparr>tmActions = [''r''], tmDelegable = [], tmScope = [''a/b''], tmDepth = 1\<rparr>"

definition demo_record :: login_record where
  "demo_record = \<lparr>lID = demo_id, lVersion = 2, lState = AnsweredLogin, lNonce = replicate 32 9, lBrowser = demo_browser,
     lScope = [''action:r'', ''scope:a/b'', ''depth:1''], lTerms = demo_terms, lValidFor = 60, lExpiresAt = 350,
     lRetainedTo = 400, lPolled = False, lLastPoll = 0,
     lAnswer = \<lparr>ansPrincipal = replicate 32 2, ansPossession = replicate 32 9, ansAuthority = [demo_env0, demo_env1]\<rparr>\<rparr>"

definition demo_memory :: "login_record \<Rightarrow> memory" where
  "demo_memory r = [(hex_string (lID r), r)]"

lemma demo_memory_good: "memory_good (demo_memory r)"
  by (simp add: memory_good_def demo_memory_def)

lemma demo_memory_get: "st_get memory_ops (demo_memory r) (lID r) = Some r"
  by (simp add: memory_ops_def memory_get_def demo_memory_def)

theorem service_follows_lifecycle_witness:
  "fst (Collect demo_login demo_service (\<lambda>s. s) (\<lambda>s. s) 100 demo_id demo_browser (demo_memory demo_record)) =
     Inr (lAnswer demo_record)"
proof -
  obtain begun st1 where b: "Begin demo_service (\<lambda>s. s) 100 demo_id [] [] [] 0 (demo_memory demo_record) = (begun, st1)"
    by fastforce
  obtain answered refusal st2 where a:
    "Answer demo_lib demo_login demo_service (\<lambda>s. s) 100 demo_id [] demo_browser [] 0 (demo_memory demo_record) =
      ((answered, refusal), st2)" by (metis surj_pair)
  obtain collected st3 where c:
    "Collect demo_login demo_service (\<lambda>s. s) (\<lambda>s. s) 100 demo_id demo_browser (demo_memory demo_record) = (collected, st3)"
    by fastforce
  obtain ids st4 where w: "Sweep demo_service 100 (demo_memory demo_record) = (ids, st4)" by fastforce
  have ops: "svStore demo_service = Some memory_ops" by (simp add: demo_service_def)
  have id: "lID demo_record = demo_id" by (simp add: demo_record_def)
  have got: "st_get memory_ops (demo_memory demo_record) demo_id = Some demo_record"
    using demo_memory_get [of demo_record] id by simp
  have "collected = fst (life_collect 100 (lg_verify_collect demo_login (svAudience demo_service) (login_request demo_record)
      demo_browser) (login_view memory_ops (demo_memory demo_record) demo_id))"
    using service_follows_lifecycle [OF memory.cas_store_axioms demo_memory_good ops b a c w disjI2 [OF got]] by blast
  moreover have "login_view memory_ops (demo_memory demo_record) demo_id =
      Some \<lparr>vwPhase = Ready (lAnswer demo_record), vwUntil = 400, vwPolled = None\<rparr>"
    unfolding login_view_def got by (simp add: view_of_def demo_record_def)
  moreover have "lg_verify_collect demo_login aud (login_request demo_record) demo_browser" for aud
    by (simp add: demo_login_def login_request_def demo_record_def)
  ultimately show ?thesis
    unfolding c by (simp add: life_collect_def live_def paced_def)
qed

text \<open>C22: Two collectors make one transition and receive the same bytes: when one of them collects
  an answered or collected login between the other's read and its write, each, if its proof verifies,
  receives the very answer that was stored, or \<open>slow_down\<close> when it comes within five seconds of the
  last verified poll the record held; and the record a collector leaves is collected, with that
  answer, and with exactly one transition counted if the login was answered and none if it was
  collected.\<close>

theorem collectors_agree:
  fixes ops :: "'s login_store"
  assumes "cas_store ops good" and "good st" and "svStore sv = Some ops" and "st_get ops st lid = Some r"
    and "lState r = AnsweredLogin \<or> lState r = CollectedLogin" and "\<not> Gone r now" and "\<not> Gone r now2"
    and "lg_verify_collect lg (svAudience sv) (login_request r) proof"
    and "lg_verify_collect lg (svAudience sv) (login_request r) proof2"
  shows "\<exists>st2 st1.
    Collect lg sv (\<lambda>s. s) (\<lambda>s. s) now2 lid proof2 st = (if early r now2 then (Inl SlowDown, st) else (Inr (lAnswer r), st2)) \<and>
    Collect lg sv (\<lambda>s. snd (Collect lg sv (\<lambda>s. s) (\<lambda>s. s) now2 lid proof2 s)) (\<lambda>s. s) now lid proof st
      = (if early r now then (Inl SlowDown, st) else (Inr (lAnswer r), st1)) \<and>
    handed_over ops lid r st1 \<and> handed_over ops lid r st2"
  using assms by (rule cas_store.Collect_race)

theorem collectors_agree_witness:
  "\<exists>st1. Collect demo_login demo_service (\<lambda>s. snd (Collect demo_login demo_service (\<lambda>s. s) (\<lambda>s. s) 101 demo_id demo_browser s))
     (\<lambda>s. s) 100 demo_id demo_browser (demo_memory (demo_record\<lparr>lPolled := True, lLastPoll := 90\<rparr>)) = (Inr (lAnswer demo_record), st1)"
proof -
  let ?r = "demo_record\<lparr>lPolled := True, lLastPoll := 90\<rparr>"
  have "lg_verify_collect demo_login aud (login_request ?r) demo_browser" for aud
    by (simp add: demo_login_def login_request_def demo_record_def)
  moreover have "st_get memory_ops (demo_memory ?r) demo_id = Some ?r"
    using demo_memory_get [of ?r] by (simp add: demo_record_def)
  moreover have "svStore demo_service = Some memory_ops" "lState ?r = AnsweredLogin" "\<not> Gone ?r 100" "\<not> Gone ?r 101"
    by (simp_all add: demo_service_def demo_record_def Gone_def)
  ultimately have "\<exists>st2 st1.
    Collect demo_login demo_service (\<lambda>s. s) (\<lambda>s. s) 101 demo_id demo_browser (demo_memory ?r)
      = (if early ?r 101 then (Inl SlowDown, demo_memory ?r) else (Inr (lAnswer ?r), st2)) \<and>
    Collect demo_login demo_service (\<lambda>s. snd (Collect demo_login demo_service (\<lambda>s. s) (\<lambda>s. s) 101 demo_id demo_browser s)) (\<lambda>s. s) 100
      demo_id demo_browser (demo_memory ?r) = (if early ?r 100 then (Inl SlowDown, demo_memory ?r) else (Inr (lAnswer ?r), st1)) \<and>
    handed_over memory_ops demo_id ?r st1 \<and> handed_over memory_ops demo_id ?r st2"
    by (intro collectors_agree [OF memory.cas_store_axioms demo_memory_good]) simp_all
  moreover have "\<not> early ?r 100" by (simp add: early_def collectInterval_def)
  ultimately show ?thesis by auto
qed

section \<open>Admission\<close>

lemma entry_covers_iff: "entry_covers e s \<longleftrightarrow> covers e s"
proof (cases "length s > length e \<and> take (length e) s = e")
  case True
  then have "s = e @ drop (length e) s" by (metis append_take_drop_id)
  then have "s ! length e = CHR ''/'' \<longleftrightarrow> prefix (e @ ''/'') s"
    using True by (cases "drop (length e) s") (auto simp: prefix_def nth_append)
  then show ?thesis using True by (auto simp: entry_covers_def covers_def)
next
  case False
  then show ?thesis by (auto simp: entry_covers_def covers_def prefix_def)
qed

lemma within_iff: "within inner outer \<longleftrightarrow> set inner \<subseteq> set outer"
  by (induction inner) auto

lemma coveredBy_iff: "coveredBy inner outer \<longleftrightarrow> (\<forall>s \<in> set inner. \<exists>e \<in> set outer. covers e s)"
  by (induction inner) (auto simp: list_ex_iff entry_covers_iff)

lemma admit_same_None:
  "admit_same lib root chain at pairs = None \<longleftrightarrow>
     (\<forall>(action, scope) \<in> set pairs. \<exists>gs. accepts lib root chain
        (Some \<lparr>reqDomain = rootDomain root, reqAction = action, reqScope = scope\<rparr>) at gs)"
proof (induction pairs)
  case (Cons p pairs)
  obtain action scope where p: "p = (action, scope)" by fastforce
  have "(\<exists>gs. accepts lib root chain (Some \<lparr>reqDomain = rootDomain root, reqAction = action, reqScope = scope\<rparr>) at gs) \<longleftrightarrow>
      (\<exists>v. Verify lib root chain \<lparr>reqDomain = rootDomain root, reqAction = action, reqScope = scope\<rparr> at = Inr v)"
    unfolding Verify_Inr by blast
  then show ?case unfolding p using Cons.IH by (simp split: sum.split)
qed simp

lemma admit_login_None:
  "admit_login lib root r prin chain now = None \<longleftrightarrow>
     (\<exists>gs. accepts lib root chain None \<lparr>Present = True, Now = now\<rparr> gs \<and> gSubject (last gs) = lBrowser r \<and>
       (if lBrowser r = prin
        then \<forall>action \<in> set (tmActions (lTerms r)). \<forall>scope \<in> set (tmScope (lTerms r)). \<exists>hs. accepts lib root chain
          (Some \<lparr>reqDomain = rootDomain root, reqAction = action, reqScope = scope\<rparr>) \<lparr>Present = True, Now = now\<rparr> hs
        else (\<exists>leaf. Open lib (last chain) = Inr (prin, leaf) \<and>
         set (gActions leaf) \<subseteq> set (tmActions (lTerms r)) \<and> set (gDelegable leaf) \<subseteq> set (tmDelegable (lTerms r)) \<and>
         (\<forall>s \<in> set (gScope leaf). \<exists>e \<in> set (tmScope (lTerms r)). covers e s) \<and>
         gDepth leaf \<le> tmDepth (lTerms r) \<and> Finite (gValidity leaf) \<and>
         ExpiresAt (gValidity leaf) \<le> now + ucast (lValidFor r) + 60)))"
proof (cases "Inspect lib root chain \<lparr>Present = True, Now = now\<rparr>")
  case (Inl e)
  then have "\<not> accepts lib root chain None \<lparr>Present = True, Now = now\<rparr> gs" for gs
    using Inspect_Inr [of lib root chain "\<lparr>Present = True, Now = now\<rparr>" "chain_leaf gs"] by auto
  then show ?thesis using Inl by (simp add: admit_login_def)
next
  case (Inr held)
  then obtain gs where gs: "accepts lib root chain None \<lparr>Present = True, Now = now\<rparr> gs" "held = chain_leaf gs"
    unfolding Inspect_Inr by blast
  have uniq: "accepts lib root chain None \<lparr>Present = True, Now = now\<rparr> hs \<longleftrightarrow> hs = gs" for hs
    using accepts_unique gs(1) by blast
  have "chain \<noteq> []" using gs(1) by (simp add: accepts_def)
  then have last: "chain ! (length chain - 1) = last chain" by (simp add: last_conv_nth)
  show ?thesis
    unfolding uniq using Inr gs(2) last
    by (cases "Open lib (last chain)")
      (auto simp: admit_login_def chain_leaf_def Let_def admit_same_None within_iff coveredBy_iff issuerClockSkew_def not_less
        split: if_splits)
qed

text \<open>C23: An answer is admitted only by the admission law.  If the service stores an answer, the
  login was pending, live and at the expected version; the principal's proof verified for the stored
  request and the service's own audience; the chain is accepted under the root now and ends at the
  browser key; and either the browser acts for itself and the chain covers every requested action at
  every requested scope, or the last grant was issued by the principal and is no wider than the
  request: its actions, what it may delegate, its scope and its depth lie within the terms, and it
  expires within the requested time and the clock skew.  A refused answer changes nothing.\<close>

theorem answer_admission:
  assumes "Answer lib lg sv (\<lambda>s. s) now lid prin proof chain expectVersion st = ((code, refusal), st')"
    and "svStore sv = Some ops" and "cas_store ops good" and "good st"
  shows "(code \<noteq> None \<longrightarrow> st' = st) \<and>
    (code = None \<longrightarrow> (\<exists>r gs. st_get ops st lid = Some r \<and> lState r = PendingLogin \<and> now < lExpiresAt r \<and>
      lVersion r = expectVersion \<and> lg_verify lg prin (svAudience sv) (login_request r) proof \<and>
      chain_ok lib (svRoot sv) chain gs \<and> gs \<noteq> [] \<and> timely \<lparr>Present = True, Now = now\<rparr> (gValidity (last gs)) \<and>
      gSubject (last gs) = lBrowser r \<and>
      (if lBrowser r = prin
       then \<forall>action \<in> set (tmActions (lTerms r)). \<forall>scope \<in> set (tmScope (lTerms r)). \<forall>g \<in> set gs.
         action \<in> set (gActions g) \<and> (\<exists>e \<in> set (gScope g). covers e scope)
       else (\<exists>leaf. Open lib (last chain) = Inr (prin, leaf) \<and>
         set (gActions leaf) \<subseteq> set (tmActions (lTerms r)) \<and> set (gDelegable leaf) \<subseteq> set (tmDelegable (lTerms r)) \<and>
         (\<forall>s \<in> set (gScope leaf). \<exists>e \<in> set (tmScope (lTerms r)). covers e s) \<and>
         gDepth leaf \<le> tmDepth (lTerms r) \<and> Finite (gValidity leaf) \<and>
         ExpiresAt (gValidity leaf) \<le> now + ucast (lValidFor r) + 60))))"
  (is "_ \<and> (_ \<longrightarrow> ?admitted)" is "_ \<and> (_ \<longrightarrow> (\<exists>r gs. _ \<and> _ \<and> _ \<and> _ \<and> _ \<and> _ \<and> _ \<and> _ \<and> _ \<and> (if _ then _ else ?delegated r)))")
proof (intro conjI impI)
  show "code \<noteq> None \<Longrightarrow> st' = st"
    using assms by (auto simp: Answer_def Let_def dest: cas_store.put_refused split: option.splits if_splits admission_refusal.splits prod.splits)
next
  assume "code = None"
  then obtain r where r: "st_get ops st lid = Some r" "\<not> Gone r now" "lState r = PendingLogin" "lVersion r = expectVersion"
    "lg_verify lg prin (svAudience sv) (login_request r) proof" "admit_login lib (svRoot sv) r prin chain now = None"
    using assms(1,2) by (auto simp: Answer_def Let_def split: option.splits if_splits admission_refusal.splits)
  let ?at = "\<lparr>Present = True, Now = now\<rparr>"
  from r(6) obtain gs where gs: "accepts lib (svRoot sv) chain None ?at gs" "gSubject (last gs) = lBrowser r"
    and law: "if lBrowser r = prin
        then \<forall>action \<in> set (tmActions (lTerms r)). \<forall>scope \<in> set (tmScope (lTerms r)). \<exists>hs. accepts lib (svRoot sv) chain
          (Some \<lparr>reqDomain = rootDomain (svRoot sv), reqAction = action, reqScope = scope\<rparr>) ?at hs
        else ?delegated r"
    unfolding admit_login_None by blast
  have same: "\<forall>g \<in> set gs. action \<in> set (gActions g) \<and> (\<exists>e \<in> set (gScope g). covers e scope)"
    if "accepts lib (svRoot sv) chain (Some \<lparr>reqDomain = rootDomain (svRoot sv), reqAction = action, reqScope = scope\<rparr>) ?at hs"
    for action scope hs
  proof -
    have "hs = gs" using that gs(1) by (metis accepts_def evaluate_hops_chain_ok sum.inject(2))
    then show ?thesis using that by (simp add: accepts_def covers_request_def)
  qed
  have chain: "chain_ok lib (svRoot sv) chain gs" "gs \<noteq> []" "timely ?at (gValidity (last gs))"
    using gs(1) by (auto simp: accepts_def chain_ok_def)
  have "if lBrowser r = prin
       then \<forall>action \<in> set (tmActions (lTerms r)). \<forall>scope \<in> set (tmScope (lTerms r)). \<forall>g \<in> set gs.
         action \<in> set (gActions g) \<and> (\<exists>e \<in> set (gScope g). covers e scope)
       else ?delegated r"
    using law same by (cases "lBrowser r = prin") (simp_all, blast)
  moreover have "now < lExpiresAt r" using r(2,3) by (simp add: Gone_def not_le)
  ultimately show ?admitted using r(1,3-5) gs(2) chain by blast
qed

definition demo_pending :: login_record where
  "demo_pending = demo_record\<lparr>lState := PendingLogin, lVersion := 1\<rparr>"

lemma demo_admitted: "admit_login demo_lib demo_root demo_pending (replicate 32 2) [demo_env0, demo_env1] 50 = None"
proof -
  have "lBrowser demo_pending \<noteq> replicate 32 2"
    by (simp add: demo_pending_def demo_record_def demo_browser_def)
  moreover have "accepts demo_lib demo_root [demo_env0, demo_env1] None \<lparr>Present = True, Now = 50\<rparr> [demo_g0, demo_g1]"
    using demo_accepts(1) by (simp add: demo_now_def)
  moreover have "gSubject demo_g1 = lBrowser demo_pending"
    by (simp add: demo_pending_def demo_record_def demo_browser_def demo_g1_def)
  moreover have "lTerms demo_pending = demo_terms" "lValidFor demo_pending = 60"
    by (simp_all add: demo_pending_def demo_record_def)
  ultimately show ?thesis
    unfolding admit_login_None
    by (intro exI [of _ "[demo_g0, demo_g1]"])
      (simp add: demo_open, simp add: demo_g1_def demo_terms_def covers_def)
qed

theorem answer_admission_witness:
  "\<exists>gs. chain_ok demo_lib demo_root [demo_env0, demo_env1] gs \<and> gSubject (last gs) = demo_browser"
proof -
  have id: "lID demo_pending = demo_id" by (simp add: demo_pending_def demo_record_def)
  have got: "st_get memory_ops (demo_memory demo_pending) demo_id = Some demo_pending"
    using demo_memory_get [of demo_pending] id by simp
  have facts: "\<not> Gone demo_pending 50" "lState demo_pending = PendingLogin" "lVersion demo_pending = 1"
    "lg_verify demo_login (replicate 32 2) aud (login_request demo_pending) (replicate 32 9)" for aud
    by (simp_all add: Gone_def demo_pending_def demo_record_def demo_login_def login_request_def)
  let ?r = "demo_pending\<lparr>lState := AnsweredLogin, lAnswer := \<lparr>ansPrincipal = replicate 32 2,
      ansPossession = replicate 32 9, ansAuthority = [demo_env0, demo_env1]\<rparr>, lRetainedTo := 50 + answerRetention, lVersion := 2\<rparr>"
  obtain st' where put: "st_put memory_ops ?r 1 (demo_memory demo_pending) = (True, st')"
    using memory.put_new [OF demo_memory_good [of demo_pending], where r = ?r and e = 1] got id facts(3) by auto
  have "Answer demo_lib demo_login demo_service (\<lambda>s. s) 50 demo_id (replicate 32 2) (replicate 32 9)
      [demo_env0, demo_env1] 1 (demo_memory demo_pending) = ((None, None), st')"
    using demo_admitted put facts by (simp add: Answer_def demo_service_def got Let_def)
  from answer_admission [OF this _ memory.cas_store_axioms demo_memory_good] show ?thesis
    by (auto simp: demo_service_def got, auto simp: demo_pending_def demo_record_def)
qed

end
