(* ===== verification/Live_Model.thy ===== *)
theory Live_Model
  imports Transitions "HOL-Library.AList"
begin

text \<open>
  \<open>live/go/live.go\<close>, \<open>owner.go\<close> and \<open>export.go\<close>: one scope over one peer.  What Go keeps as
  pointers (owners, bindings, attachments, batches) are indices into lists that only grow, so two
  tables can be asked whether they hold the same object; a Go map that is counted is an association
  list that holds each key once.  Each operation that takes the scope's mutex is one step; the
  events an operation tells its observer, the frames it emits and the invocations it cancels are
  appended to a log.  The order in which Go ranges over a map is not specified; here it is the order
  of insertion.
\<close>

section \<open>Data\<close>

datatype live_code =
    LiveContractInvalid | LiveContractMismatch | ReferenceIsUnknown | ReferenceForeign
  | ReferenceReleased | ScopeClosed | TooManyExports | TooManyImports

fun live_code_text :: "live_code \<Rightarrow> string" where
  "live_code_text LiveContractInvalid = ''contract_invalid''"
| "live_code_text LiveContractMismatch = ''contract_mismatch''"
| "live_code_text ReferenceIsUnknown = ''reference_unknown''"
| "live_code_text ReferenceForeign = ''reference_foreign''"
| "live_code_text ReferenceReleased = ''reference_released''"
| "live_code_text ScopeClosed = ''scope_closed''"
| "live_code_text TooManyExports = ''too_many_exports''"
| "live_code_text TooManyImports = ''too_many_imports''"

record live_error =
  leCode :: live_code
  leMessage :: string

record live_options =
  MaxExports :: int
  MaxImports :: int

definition live_normalized :: "live_options \<Rightarrow> live_options option" where
  "live_normalized o' =
     (if MaxExports o' < 0 \<or> MaxImports o' < 0 then None
      else Some \<lparr>MaxExports = (if MaxExports o' = 0 then 1024 else MaxExports o'),
                 MaxImports = (if MaxImports o' = 0 then 1024 else MaxImports o')\<rparr>)"

text \<open>What can be called: a function of the program, or the closure \<open>local\<close> or \<open>remote\<close> made.\<close>

datatype invoke = Native nat | LocalTo nat | RemoteTo string nat

record reference =
  refBinding :: string
  refContract :: string
  refDigest :: string
  refScope :: "nat option"

record live_binding =
  bOwner :: nat
  bContract :: string
  bDigest :: string
  bInvoke :: invoke
  bReleased :: bool

record attachment =
  atOwner :: nat
  atContract :: string
  atDigest :: string
  atReleased :: bool

record owner_state =
  oParent :: "nat option"
  oChildren :: "nat list"
  oOwned :: "(string \<times> bool) list"
  oReleased :: bool

record allocation =
  alId :: string
  alImported :: bool
  alBinding :: "nat option"
  alAttachment :: "nat option"

record value_batch =
  vbParent :: "nat option"
  vbActive :: bool
  vbAllocations :: "allocation list"

record owner_handle =
  hState :: nat
  hBatch :: "nat option"

datatype live_note =
    LiveExported string string | LiveImported string string | LiveReleased string string
  | LiveRefused string live_code string | EmitRelease string | Cancel int

record live_scope =
  lvId :: nat
  lvOptions :: live_options
  lvNonce :: string
  lvNext :: int
  lvClosed :: bool
  lvExports :: "(string \<times> nat) list"
  lvImports :: "(string \<times> nat) list"
  lvGone :: "string set"
  lvOrder :: "string list"
  lvInflight :: "int list"
  lvCall :: int
  lvOwner :: "nat option"
  lvOwners :: "owner_state list"
  lvBindings :: "live_binding list"
  lvAttachments :: "attachment list"
  lvBatches :: "value_batch list"
  lvLog :: "live_note list"

definition note_live :: "live_note list \<Rightarrow> live_scope \<Rightarrow> live_scope" where
  "note_live ns s = s\<lparr>lvLog := lvLog s @ ns\<rparr>"

definition live_refuse :: "string \<Rightarrow> live_code \<Rightarrow> string \<Rightarrow> live_scope \<Rightarrow> (live_error + 'a) \<times> live_scope" where
  "live_refuse contract code message s =
     (Inl \<lparr>leCode = code, leMessage = message\<rparr>, note_live [LiveRefused contract code message] s)"

text \<open>\<open>Over\<close>, once the peer has taken the handlers and the nonce was read.\<close>

definition Over :: "nat \<Rightarrow> string \<Rightarrow> live_options \<Rightarrow> live_scope option" where
  "Over ident nonce options =
     map_option (\<lambda>o'. \<lparr>lvId = ident, lvOptions = o', lvNonce = nonce, lvNext = 1, lvClosed = False, lvExports = [],
       lvImports = [], lvGone = {}, lvOrder = [], lvInflight = [], lvCall = 0, lvOwner = None, lvOwners = [],
       lvBindings = [], lvAttachments = [], lvBatches = [], lvLog = []\<rparr>) (live_normalized options)"

definition scope_counts :: "live_scope \<Rightarrow> int \<times> int" where
  "scope_counts s = (int (length (lvExports s)), int (length (lvImports s)))"

section \<open>Digests\<close>

definition live_validDigest :: "string \<Rightarrow> bool" where
  "live_validDigest digest \<longleftrightarrow>
     digest = [] \<or> length digest = 64 \<and>
     list_all (\<lambda>c. CHR ''0'' \<le> c \<and> c \<le> CHR ''9'' \<or> CHR ''a'' \<le> c \<and> c \<le> CHR ''f'') digest"

definition digestMismatch :: "string \<Rightarrow> string \<Rightarrow> bool" where
  "digestMismatch left right \<longleftrightarrow> left \<noteq> [] \<and> right \<noteq> [] \<and> left \<noteq> right"

definition knownDigest :: "string \<Rightarrow> string \<Rightarrow> string" where
  "knownDigest received expected = (if received \<noteq> [] then received else expected)"

section \<open>Owners\<close>

text \<open>
  The loops that climb to the root and the recursion down the tree take the number of owners as
  fuel; a parent is made before its children, so no chain is longer.
\<close>

fun ended_up :: "nat \<Rightarrow> owner_state list \<Rightarrow> nat \<Rightarrow> bool" where
  "ended_up 0 os i = False"
| "ended_up (Suc n) os i =
     (oReleased (os ! i) \<or> (case oParent (os ! i) of None \<Rightarrow> False | Some p \<Rightarrow> ended_up n os p))"

definition ended :: "owner_state list \<Rightarrow> nat \<Rightarrow> bool" where
  "ended os i = ended_up (length os) os i"

fun prune_up :: "nat \<Rightarrow> nat \<Rightarrow> owner_state list \<Rightarrow> owner_state list" where
  "prune_up 0 i os = os"
| "prune_up (Suc n) i os =
     (case oParent (os ! i) of
        None \<Rightarrow> os
      | Some p \<Rightarrow>
          if oOwned (os ! i) = [] \<and> oChildren (os ! i) = []
          then prune_up n p (os[p := (os ! p)\<lparr>oChildren := removeAll i (oChildren (os ! p))\<rparr>])
          else os)"

definition prune :: "nat \<Rightarrow> owner_state list \<Rightarrow> owner_state list" where
  "prune i os = prune_up (length os) i os"

definition forget :: "nat \<Rightarrow> string \<Rightarrow> owner_state list \<Rightarrow> owner_state list" where
  "forget i key os = prune i (os[i := (os ! i)\<lparr>oOwned := AList.delete key (oOwned (os ! i))\<rparr>])"

fun end_tree :: "nat \<Rightarrow> nat \<Rightarrow> owner_state list \<Rightarrow> string list \<times> owner_state list" where
  "end_tree 0 i os = ([], os)"
| "end_tree (Suc n) i os =
     (if oReleased (os ! i) then ([], os)
      else
        let os = os[i := (os ! i)\<lparr>oReleased := True\<rparr>];
            (ids, os) = fold (\<lambda>child (ids, os). case end_tree n child os of (its, os) \<Rightarrow> (ids @ its, os))
                          (oChildren (os ! i)) ([], os);
            ids = ids @ map fst (oOwned (os ! i));
            os = os[i := (os ! i)\<lparr>oOwned := [], oChildren := []\<rparr>]
        in (ids, prune i os))"

definition end_owner :: "nat \<Rightarrow> owner_state list \<Rightarrow> string list \<times> owner_state list" where
  "end_owner i os = end_tree (length os) i os"

fun link_up :: "nat \<Rightarrow> nat \<Rightarrow> owner_state list \<Rightarrow> owner_state list" where
  "link_up 0 i os = os"
| "link_up (Suc n) i os =
     (case oParent (os ! i) of
        None \<Rightarrow> os
      | Some p \<Rightarrow> link_up n p (os[p := (os ! p)\<lparr>oChildren := removeAll i (oChildren (os ! p)) @ [i]\<rparr>]))"

definition record_allocation :: "owner_handle \<Rightarrow> string \<Rightarrow> bool \<Rightarrow> live_scope \<Rightarrow> live_scope" where
  "record_allocation h key imported s =
     (let i = hState h; os = lvOwners s;
          os = os[i := (os ! i)\<lparr>oOwned := AList.update key imported (oOwned (os ! i))\<rparr>];
          s = s\<lparr>lvOwners := link_up (length os) i os\<rparr>
      in case hBatch h of
        None \<Rightarrow> s
      | Some b \<Rightarrow>
          if vbActive (lvBatches s ! b) then
            s\<lparr>lvBatches := (lvBatches s)[b := (lvBatches s ! b)\<lparr>vbAllocations := vbAllocations (lvBatches s ! b) @
              [\<lparr>alId = key, alImported = imported, alBinding = map_of (lvExports s) key,
                alAttachment = map_of (lvImports s) key\<rparr>]\<rparr>]\<rparr>
          else s)"

definition Owner_root :: "live_scope \<Rightarrow> owner_handle \<times> live_scope" where
  "Owner_root s =
     (case (case lvOwner s of None \<Rightarrow> None | Some i \<Rightarrow> if oReleased (lvOwners s ! i) then None else Some i) of
        Some i \<Rightarrow> (\<lparr>hState = i, hBatch = None\<rparr>, s)
      | None \<Rightarrow>
          (\<lparr>hState = length (lvOwners s), hBatch = None\<rparr>,
           s\<lparr>lvOwner := Some (length (lvOwners s)),
             lvOwners := lvOwners s @ [\<lparr>oParent = None, oChildren = [], oOwned = [], oReleased = False\<rparr>]\<rparr>))"

definition Child :: "owner_handle \<Rightarrow> live_scope \<Rightarrow> owner_handle \<times> live_scope" where
  "Child h s =
     (\<lparr>hState = length (lvOwners s), hBatch = hBatch h\<rparr>,
      s\<lparr>lvOwners := lvOwners s @ [\<lparr>oParent = Some (hState h), oChildren = [], oOwned = [], oReleased = False\<rparr>]\<rparr>)"

definition owner_counts :: "owner_handle \<Rightarrow> live_scope \<Rightarrow> int \<times> int" where
  "owner_counts h s =
     (let owned = oOwned (lvOwners s ! hState h) in
      (int (length (filter (\<lambda>(key, imported). \<not> imported) owned)), int (length (filter (\<lambda>(key, imported). imported) owned))))"

section \<open>Releasing\<close>

record release_notice =
  nId :: string
  nContract :: string
  nFound :: bool
  nTell :: bool

definition no_notice :: release_notice where
  "no_notice = \<lparr>nId = [], nContract = [], nFound = False, nTell = False\<rparr>"

fun trim_gone :: "int \<Rightarrow> string set \<Rightarrow> string list \<Rightarrow> string set \<times> string list" where
  "trim_gone limit gone [] = (gone, [])"
| "trim_gone limit gone (x # xs) =
     (if int (length (x # xs)) > limit then trim_gone limit (gone - {x}) xs else (gone, x # xs))"

definition take_export :: "string \<Rightarrow> live_scope \<Rightarrow> string option \<times> live_scope" where
  "take_export key s =
     (case map_of (lvExports s) key of
        None \<Rightarrow> (None, s)
      | Some b \<Rightarrow>
          let own = lvBindings s ! b in
          (Some (bContract own),
           s\<lparr>lvBindings := (lvBindings s)[b := own\<lparr>bReleased := True\<rparr>], lvExports := AList.delete key (lvExports s),
             lvOwners := forget (bOwner own) key (lvOwners s)\<rparr>))"

definition take_import :: "string \<Rightarrow> live_scope \<Rightarrow> string option \<times> live_scope" where
  "take_import key s =
     (case map_of (lvImports s) key of
        None \<Rightarrow> (None, s)
      | Some a \<Rightarrow>
          let held = lvAttachments s ! a in
          (Some (atContract held),
           s\<lparr>lvAttachments := (lvAttachments s)[a := held\<lparr>atReleased := True\<rparr>], lvImports := AList.delete key (lvImports s),
             lvOwners := forget (atOwner held) key (lvOwners s)\<rparr>))"

definition takeRelease :: "string \<Rightarrow> bool \<Rightarrow> live_scope \<Rightarrow> release_notice \<times> live_scope" where
  "takeRelease key tell s =
     (if lvClosed s then (no_notice, s)
      else
        let (exported, s) = take_export key s; (imported, s) = take_import key s;
            found = (exported \<noteq> None \<or> imported \<noteq> None);
            contract = (case imported of Some c \<Rightarrow> c | None \<Rightarrow> (case exported of Some c \<Rightarrow> c | None \<Rightarrow> []));
            tombstoned = (key \<in> lvGone s)
        in if tombstoned \<and> \<not> found then (no_notice, s)
        else
          let s = (if tombstoned then s
                   else case trim_gone (MaxExports (lvOptions s) + MaxImports (lvOptions s)) (insert key (lvGone s))
                          (lvOrder s @ [key]) of
                     (gone, order) \<Rightarrow> s\<lparr>lvGone := gone, lvOrder := order\<rparr>)
          in (\<lparr>nId = key, nContract = contract, nFound = found, nTell = tell\<rparr>, s))"

definition notifyRelease :: "release_notice \<Rightarrow> live_scope \<Rightarrow> live_scope" where
  "notifyRelease n s =
     note_live ((if nFound n then [LiveReleased (nContract n) (nId n)] else []) @
       (if nTell n then [EmitRelease (nId n)] else [])) s"

definition release_key :: "string \<Rightarrow> bool \<Rightarrow> live_scope \<Rightarrow> live_scope" where
  "release_key key tell s = (case takeRelease key tell s of (n, s) \<Rightarrow> notifyRelease n s)"

definition Release_reference :: "reference \<Rightarrow> live_scope \<Rightarrow> (live_error + unit) \<times> live_scope" where
  "Release_reference r s =
     (if refScope r \<noteq> Some (lvId s)
      then live_refuse (refContract r) ReferenceForeign ''the reference was minted in another scope'' s
      else (Inr (), release_key (refBinding r) True s))"

text \<open>\<open>onRelease\<close>: \<open>None\<close> is data that does not unmarshal.\<close>

definition onRelease :: "string option \<Rightarrow> live_scope \<Rightarrow> live_scope" where
  "onRelease data s =
     (case data of None \<Rightarrow> s | Some key \<Rightarrow> if key = [] then s else release_key key False s)"

fun take_all :: "(string \<times> bool) list \<Rightarrow> live_scope \<Rightarrow> release_notice list \<times> live_scope" where
  "take_all [] s = ([], s)"
| "take_all ((key, tell) # ks) s =
     (case takeRelease key tell s of (n, s) \<Rightarrow> case take_all ks s of (ns, s) \<Rightarrow> (n # ns, s))"

definition Owner_release :: "owner_handle \<Rightarrow> live_scope \<Rightarrow> live_scope" where
  "Owner_release h s =
     (case end_owner (hState h) (lvOwners s) of (ids, os) \<Rightarrow>
        case take_all (map (\<lambda>key. (key, True)) ids) (s\<lparr>lvOwners := os\<rparr>) of (ns, s) \<Rightarrow> fold notifyRelease ns s)"

text \<open>\<open>end\<close>, which \<open>Close\<close> and \<open>watch\<close> run.\<close>

definition end_scope :: "live_scope \<Rightarrow> live_scope" where
  "end_scope s =
     (if lvClosed s then s
      else note_live (map Cancel (lvInflight s))
        (s\<lparr>lvClosed := True, lvInflight := [],
           lvOwners := (case lvOwner s of None \<Rightarrow> lvOwners s | Some i \<Rightarrow> snd (end_owner i (lvOwners s))),
           lvExports := [], lvImports := []\<rparr>))"

section \<open>Exporting and importing\<close>

definition Export_live ::
  "owner_handle \<Rightarrow> string \<Rightarrow> string \<Rightarrow> invoke option \<Rightarrow> live_scope \<Rightarrow> (live_error + reference) \<times> live_scope" where
  "Export_live h contract digest f s =
     (if contract = [] then live_refuse contract LiveContractInvalid ''a binding is exported for a contract'' s
      else if \<not> live_validDigest digest
      then live_refuse contract LiveContractInvalid ''a declaration digest is lower-case SHA-256 hex'' s
      else case f of
        None \<Rightarrow> live_refuse contract LiveContractInvalid ''a binding is a function'' s
      | Some f \<Rightarrow>
          if lvClosed s then live_refuse contract ScopeClosed ''the scope ended'' s
          else if ended (lvOwners s) (hState h) then live_refuse contract ReferenceReleased ''the owner was released'' s
          else if int (length (lvExports s)) \<ge> MaxExports (lvOptions s)
          then live_refuse contract TooManyExports ''no room for another exported binding'' s
          else
            let key = lvNonce s @ ''.'' @ int_decimal (lvNext s);
                b = length (lvBindings s);
                s = s\<lparr>lvNext := lvNext s + 1,
                      lvBindings := lvBindings s @ [\<lparr>bOwner = hState h, bContract = contract, bDigest = digest,
                        bInvoke = f, bReleased = False\<rparr>],
                      lvExports := AList.update key b (lvExports s)\<rparr>;
                s = record_allocation h key False s
            in (Inr \<lparr>refBinding = key, refContract = contract, refDigest = digest, refScope = Some (lvId s)\<rparr>,
                note_live [LiveExported contract key] s))"

text \<open>
  \<open>Decode\<close>: what \<open>json.Unmarshal\<close> made of the bytes is an argument.  The digest is \<open>None\<close> when the
  member is absent, and \<open>Some None\<close> when it is there and not a string.
\<close>

definition Decode_reference ::
  "(string \<times> string \<times> string option option) option \<Rightarrow> live_scope \<Rightarrow> live_error + reference" where
  "Decode_reference wire s =
     (let shape = Inl \<lparr>leCode = LiveContractInvalid, leMessage = ''a live reference is a binding and a contract''\<rparr>;
          hex = Inl \<lparr>leCode = LiveContractInvalid, leMessage = ''a declaration digest is lower-case SHA-256 hex''\<rparr>;
          made = (\<lambda>key contract digest.
            Inr \<lparr>refBinding = key, refContract = contract, refDigest = digest, refScope = Some (lvId s)\<rparr>)
      in case wire of
        None \<Rightarrow> shape
      | Some (key, contract, digest) \<Rightarrow>
          if key = [] \<or> contract = [] then shape
          else (case digest of
            None \<Rightarrow> made key contract []
          | Some None \<Rightarrow> hex
          | Some (Some d) \<Rightarrow> if d = [] \<or> \<not> live_validDigest d then hex else made key contract d))"

text \<open>\<open>attach\<close>: the function, whether the attachment is new, or a refusal.\<close>

definition attach ::
  "owner_handle \<Rightarrow> reference \<Rightarrow> string \<Rightarrow> string \<Rightarrow> live_scope \<Rightarrow>
     ((live_code \<times> string) + (invoke \<times> bool)) \<times> live_scope" where
  "attach h r contract digest s =
     (if lvClosed s then (Inl (ScopeClosed, ''the scope ended''), s)
      else if ended (lvOwners s) (hState h) then (Inl (ReferenceReleased, ''the owner was released''), s)
      else if refBinding r \<in> lvGone s then (Inl (ReferenceReleased, ''the binding was released''), s)
      else case map_of (lvExports s) (refBinding r) of
        Some b \<Rightarrow>
          let own = lvBindings s ! b in
          if bContract own \<noteq> contract then (Inl (LiveContractMismatch, ''the binding carries '' @ bContract own), s)
          else if digestMismatch (bDigest own) (refDigest r) \<or> digestMismatch (bDigest own) digest
          then (Inl (LiveContractMismatch, ''the binding carries a different declaration digest for '' @ contract), s)
          else (Inr (LocalTo b, False), s)
      | None \<Rightarrow>
          (case map_of (lvImports s) (refBinding r) of
             Some a \<Rightarrow>
               let held = lvAttachments s ! a in
               if atContract held \<noteq> contract
               then (Inl (LiveContractMismatch, ''the binding is attached as '' @ atContract held), s)
               else if digestMismatch (atDigest held) (refDigest r) \<or> digestMismatch (atDigest held) digest
               then (Inl (LiveContractMismatch,
                     ''the binding is attached with a different declaration digest for '' @ contract), s)
               else (Inr (RemoteTo (refBinding r) a, False),
                 if atDigest held = []
                 then s\<lparr>lvAttachments := (lvAttachments s)[a := held\<lparr>atDigest := knownDigest (refDigest r) digest\<rparr>]\<rparr>
                 else s)
           | None \<Rightarrow>
               if int (length (lvImports s)) \<ge> MaxImports (lvOptions s)
               then (Inl (TooManyImports, ''no room for another imported binding''), s)
               else
                 let a = length (lvAttachments s);
                     s = s\<lparr>lvAttachments := lvAttachments s @ [\<lparr>atOwner = hState h, atContract = contract,
                             atDigest = knownDigest (refDigest r) digest, atReleased = False\<rparr>],
                           lvImports := AList.update (refBinding r) a (lvImports s)\<rparr>
                 in (Inr (RemoteTo (refBinding r) a, True), record_allocation h (refBinding r) True s)))"

definition Import_live ::
  "owner_handle \<Rightarrow> reference \<Rightarrow> string \<Rightarrow> string \<Rightarrow> live_scope \<Rightarrow> (live_error + invoke) \<times> live_scope" where
  "Import_live h r contract digest s =
     (if contract = [] then live_refuse contract LiveContractInvalid ''a binding is imported for a contract'' s
      else if \<not> live_validDigest digest
      then live_refuse contract LiveContractInvalid ''a declaration digest is lower-case SHA-256 hex'' s
      else if refScope r \<noteq> Some (lvId s)
      then live_refuse contract ReferenceForeign ''the reference was minted in another scope'' s
      else if refContract r \<noteq> contract
      then live_refuse contract LiveContractMismatch
        (''the reference carries '' @ refContract r @ '' where '' @ contract @ '' is expected'') s
      else if digestMismatch (refDigest r) digest
      then live_refuse contract LiveContractMismatch
        (''the reference carries a different declaration digest for '' @ contract) s
      else case attach h r contract digest s of
        (Inl (code, message), s) \<Rightarrow> live_refuse contract code message s
      | (Inr (f, fresh), s) \<Rightarrow>
          (Inr f, if fresh then note_live [LiveImported contract (refBinding r)] s else s))"

definition Forward ::
  "owner_handle option \<Rightarrow> string \<Rightarrow> string \<Rightarrow> invoke option \<Rightarrow> live_scope \<Rightarrow>
     (live_error option + reference) \<times> live_scope" where
  "Forward destination contract digest origin s =
     (case destination of
        None \<Rightarrow> (Inl None, s)
      | Some h \<Rightarrow>
          if origin = None
          then (Inl (Some \<lparr>leCode = LiveContractInvalid, leMessage = ''forwarding needs the origin'' @ [CHR 0x27] @ ''s function''\<rparr>), s)
          else (case Export_live h contract digest origin s of
            (Inl e, s) \<Rightarrow> (Inl (Some e), s)
          | (Inr r, s) \<Rightarrow> (Inr r, s)))"

section \<open>Invocation\<close>

text \<open>
  What an invocation decides under the mutex before a function runs or a request is sent: a refusal,
  which proves that nothing was published, or the function or request it goes on with.
\<close>

definition local_turn :: "nat \<Rightarrow> live_scope \<Rightarrow> live_error + invoke" where
  "local_turn b s =
     (if lvClosed s then Inl \<lparr>leCode = ScopeClosed, leMessage = ''the scope ended''\<rparr>
      else if bReleased (lvBindings s ! b) then Inl \<lparr>leCode = ReferenceReleased, leMessage = ''the binding was released''\<rparr>
      else Inr (bInvoke (lvBindings s ! b)))"

definition take_ticket :: "live_scope \<Rightarrow> int \<times> live_scope" where
  "take_ticket s = (lvCall s, s\<lparr>lvCall := lvCall s + 1, lvInflight := lvInflight s @ [lvCall s]\<rparr>)"

definition settle_ticket :: "int \<Rightarrow> live_scope \<Rightarrow> live_scope" where
  "settle_ticket t s = s\<lparr>lvInflight := removeAll t (lvInflight s)\<rparr>"

text \<open>What \<open>live.invoke\<close> is sent with, beside the request: the binding and the contract.\<close>

definition remote_turn :: "string \<Rightarrow> nat \<Rightarrow> live_scope \<Rightarrow> (live_error + (int \<times> string \<times> string)) \<times> live_scope" where
  "remote_turn key a s =
     (if lvClosed s then (Inl \<lparr>leCode = ScopeClosed, leMessage = ''the scope ended''\<rparr>, s)
      else if atReleased (lvAttachments s ! a)
      then (Inl \<lparr>leCode = ReferenceReleased, leMessage = ''the binding was released''\<rparr>, s)
      else (case take_ticket s of (t, s) \<Rightarrow> (Inr (t, key, atContract (lvAttachments s ! a)), s)))"

text \<open>\<open>onInvoke\<close> up to the call of the function; \<open>None\<close> is parameters that do not unmarshal.\<close>

definition onInvoke_turn :: "(string \<times> string) option \<Rightarrow> live_scope \<Rightarrow> (live_error + invoke) \<times> live_scope" where
  "onInvoke_turn params s =
     (let invalid = (Inl \<lparr>leCode = LiveContractInvalid, leMessage = ''live.invoke names a binding and a contract''\<rparr>, s) in
      case params of
        None \<Rightarrow> invalid
      | Some (key, contract) \<Rightarrow>
          if key = [] \<or> contract = [] then invalid
          else if lvClosed s then live_refuse contract ScopeClosed ''the scope ended'' s
          else (case map_of (lvExports s) key of
            None \<Rightarrow> live_refuse contract ReferenceIsUnknown (''no binding '' @ key @ '' in this scope'') s
          | Some b \<Rightarrow>
              let own = lvBindings s ! b in
              if bContract own \<noteq> contract
              then live_refuse contract LiveContractMismatch (''the binding carries '' @ bContract own) s
              else if bReleased own
              then live_refuse (bContract own) ReferenceReleased ''the binding was released'' s
              else (Inr (bInvoke own), s)))"

text \<open>The first section of \<open>invokeScoped\<close>, which takes the ticket of a function about to run.\<close>

definition invoke_turn :: "bool \<Rightarrow> live_scope \<Rightarrow> (live_error option + int) \<times> live_scope" where
  "invoke_turn cancelled s =
     (if cancelled then (Inl None, s)
      else if lvClosed s then (Inl (Some \<lparr>leCode = ScopeClosed, leMessage = ''the scope ended''\<rparr>), s)
      else (case take_ticket s of (t, s) \<Rightarrow> (Inr t, s)))"

section \<open>Building a value\<close>

definition current_allocation :: "allocation \<Rightarrow> live_scope \<Rightarrow> bool" where
  "current_allocation a s =
     (if alImported a then alAttachment a \<noteq> None \<and> map_of (lvImports s) (alId a) = alAttachment a
      else alBinding a \<noteq> None \<and> map_of (lvExports s) (alId a) = alBinding a)"

definition begin_batch :: "owner_handle \<Rightarrow> live_scope \<Rightarrow> (live_error + owner_handle) \<times> live_scope" where
  "begin_batch h s =
     (if lvClosed s then live_refuse [] ScopeClosed ''the scope ended'' s
      else if ended (lvOwners s) (hState h) then live_refuse [] ReferenceReleased ''the owner was released'' s
      else
        let up = (case hBatch h of None \<Rightarrow> None | Some b \<Rightarrow> if vbActive (lvBatches s ! b) then Some b else None) in
        (Inr \<lparr>hState = hState h, hBatch = Some (length (lvBatches s))\<rparr>,
         s\<lparr>lvBatches := lvBatches s @ [\<lparr>vbParent = up, vbActive = True, vbAllocations = []\<rparr>]\<rparr>))"

fun discard_all :: "allocation list \<Rightarrow> live_scope \<Rightarrow> release_notice list \<times> live_scope" where
  "discard_all [] s = ([], s)"
| "discard_all (a # as) s =
     (if \<not> current_allocation a s then discard_all as s
      else case takeRelease (alId a) (alImported a) s of (n, s) \<Rightarrow>
        case discard_all as s of (ns, s) \<Rightarrow> (n # ns, s))"

definition discard :: "allocation list \<Rightarrow> live_scope \<Rightarrow> live_scope" where
  "discard as s = (case discard_all as s of (ns, s) \<Rightarrow> fold notifyRelease ns s)"

definition finish_batch :: "nat \<Rightarrow> bool \<Rightarrow> live_scope \<Rightarrow> allocation list \<times> live_scope" where
  "finish_batch b committed s =
     (let allocations = vbAllocations (lvBatches s ! b);
          s = (case vbParent (lvBatches s ! b) of
                 Some p \<Rightarrow>
                   if committed \<and> vbActive (lvBatches s ! p)
                   then s\<lparr>lvBatches := (lvBatches s)[p := (lvBatches s ! p)\<lparr>vbAllocations :=
                     vbAllocations (lvBatches s ! p) @ allocations\<rparr>]\<rparr>
                   else s
               | None \<Rightarrow> s);
          s = s\<lparr>lvBatches := (lvBatches s)[b := \<lparr>vbParent = None, vbActive = False, vbAllocations = []\<rparr>]\<rparr>
      in (allocations, if committed then s else discard allocations s))"

text \<open>How a build ends: with an error of its own, in a panic, or with a value or none.\<close>

datatype build_result = BuildError string | BuildPanic string | Built "string option"

datatype export_failure = NotBegun live_error | BuildFailed string | InvalidJSON | Panicked string

definition buildExport ::
  "(string \<Rightarrow> bool) \<Rightarrow> owner_handle \<Rightarrow> (owner_handle \<Rightarrow> live_scope \<Rightarrow> build_result \<times> live_scope) \<Rightarrow> live_scope \<Rightarrow>
     (export_failure + (string option \<times> allocation list)) \<times> live_scope" where
  "buildExport valid h build s =
     (case begin_batch h s of
        (Inl e, s) \<Rightarrow> (Inl (NotBegun e), s)
      | (Inr view, s) \<Rightarrow>
          (case build view s of (result, s) \<Rightarrow>
             let b = the (hBatch view); fail = (\<lambda>e. (Inl e, snd (finish_batch b False s))) in
             case result of
               BuildError e \<Rightarrow> fail (BuildFailed e)
             | BuildPanic p \<Rightarrow> fail (Panicked p)
             | Built value \<Rightarrow>
                 if (case value of None \<Rightarrow> False | Some v \<Rightarrow> \<not> valid v) then fail InvalidJSON
                 else (case finish_batch b True s of (allocations, s) \<Rightarrow> (Inr (value, allocations), s))))"

definition ExportValue ::
  "(string \<Rightarrow> bool) \<Rightarrow> owner_handle \<Rightarrow> (owner_handle \<Rightarrow> live_scope \<Rightarrow> build_result \<times> live_scope) \<Rightarrow> live_scope \<Rightarrow>
     (export_failure + string option) \<times> live_scope" where
  "ExportValue valid h build s =
     (case buildExport valid h build s of
        (Inl e, s) \<Rightarrow> (Inl e, s)
      | (Inr (value, allocations), s) \<Rightarrow> (Inr value, s))"

text \<open>The publication answers, and whether its error proves that nothing was published.\<close>

definition PublishValue ::
  "(string \<Rightarrow> bool) \<Rightarrow> owner_handle \<Rightarrow> (owner_handle \<Rightarrow> live_scope \<Rightarrow> build_result \<times> live_scope) \<Rightarrow>
     (string option \<Rightarrow> live_scope \<Rightarrow> ((bool \<times> string) option \<times> string option) \<times> live_scope) \<Rightarrow> live_scope \<Rightarrow>
     (export_failure + ((bool \<times> string) option \<times> string option)) \<times> live_scope" where
  "PublishValue valid h build publish s =
     (case buildExport valid h build s of
        (Inl e, s) \<Rightarrow> (Inl e, s)
      | (Inr (value, allocations), s) \<Rightarrow>
          (case publish value s of ((err, result), s) \<Rightarrow>
             (Inr (err, result),
              case err of Some (unpublished, e) \<Rightarrow> if unpublished then discard allocations s else s | None \<Rightarrow> s)))"

definition ImportValue ::
  "owner_handle \<Rightarrow> (owner_handle \<Rightarrow> live_scope \<Rightarrow> build_result \<times> live_scope) \<Rightarrow> live_scope \<Rightarrow>
     export_failure option \<times> live_scope" where
  "ImportValue h build s =
     (case begin_batch h s of
        (Inl e, s) \<Rightarrow> (Some (NotBegun e), s)
      | (Inr view, s) \<Rightarrow>
          (case build view s of (result, s) \<Rightarrow>
             let b = the (hBatch view) in
             case result of
               BuildError e \<Rightarrow> (Some (BuildFailed e), snd (finish_batch b False s))
             | BuildPanic p \<Rightarrow> (Some (Panicked p), snd (finish_batch b False s))
             | Built value \<Rightarrow> (None, snd (finish_batch b True s))))"

end
