(* ===== verification/Live_Tree.thy ===== *)
theory Live_Tree
  imports Live_Model
begin

text \<open>
  The tree of owners: parents come before their children, an owner that holds something is linked
  from its parent, and ending an owner empties exactly what descends from it.
\<close>

section \<open>Descent\<close>

inductive below :: "owner_state list \<Rightarrow> nat \<Rightarrow> nat \<Rightarrow> bool" for os i where
  below_self: "i < length os \<Longrightarrow> below os i i"
| below_child: "below os i p \<Longrightarrow> j < length os \<Longrightarrow> oParent (os ! j) = Some p \<Longrightarrow> below os i j"

inductive_simps below_iff: "below os i j"

definition holds_any :: "owner_state \<Rightarrow> bool" where
  "holds_any o' \<longleftrightarrow> oOwned o' \<noteq> [] \<or> oChildren o' \<noteq> []"

definition tree_ok :: "owner_state list \<Rightarrow> bool" where
  "tree_ok os \<longleftrightarrow>
     (\<forall>i < length os. \<forall>p. oParent (os ! i) = Some p \<longrightarrow>
        p < i \<and> (holds_any (os ! i) \<longrightarrow> i \<in> set (oChildren (os ! p)))) \<and>
     (\<forall>i < length os. \<forall>c \<in> set (oChildren (os ! i)). c < length os \<and> oParent (os ! c) = Some i)"

lemma tree_okI:
  assumes "\<And>i p. i < length os \<Longrightarrow> oParent (os ! i) = Some p \<Longrightarrow> p < i"
    and "\<And>i p. i < length os \<Longrightarrow> oParent (os ! i) = Some p \<Longrightarrow> holds_any (os ! i) \<Longrightarrow> i \<in> set (oChildren (os ! p))"
    and "\<And>i c. i < length os \<Longrightarrow> c \<in> set (oChildren (os ! i)) \<Longrightarrow> c < length os \<and> oParent (os ! c) = Some i"
  shows "tree_ok os"
  using assms unfolding tree_ok_def by blast

lemma tree_parent: "tree_ok os \<Longrightarrow> i < length os \<Longrightarrow> oParent (os ! i) = Some p \<Longrightarrow> p < i"
  unfolding tree_ok_def by blast

lemma tree_link:
  "tree_ok os \<Longrightarrow> i < length os \<Longrightarrow> oParent (os ! i) = Some p \<Longrightarrow> holds_any (os ! i) \<Longrightarrow> i \<in> set (oChildren (os ! p))"
  unfolding tree_ok_def by blast

lemma tree_child: "tree_ok os \<Longrightarrow> i < length os \<Longrightarrow> c \<in> set (oChildren (os ! i)) \<Longrightarrow> c < length os \<and> oParent (os ! c) = Some i"
  unfolding tree_ok_def by blast

text \<open>An owner that comes to hold no more than before keeps the tree.\<close>

lemma tree_ok_update:
  assumes "tree_ok os" "oParent o' = oParent (os ! i)" "oChildren o' = oChildren (os ! i)"
    and "holds_any o' \<Longrightarrow> holds_any (os ! i)"
  shows "tree_ok (os[i := o'])" (is "tree_ok ?os")
proof -
  have same: "oParent (?os ! j) = oParent (os ! j)" "oChildren (?os ! j) = oChildren (os ! j)"
    "holds_any (?os ! j) \<Longrightarrow> holds_any (os ! j)" if "j < length os" for j
    using that assms(2-4) by (cases "i = j"; simp)+
  show ?thesis
  proof (rule tree_okI)
    show "j < length ?os \<Longrightarrow> oParent (?os ! j) = Some q \<Longrightarrow> q < j" for j q
      using same(1) tree_parent [OF assms(1)] by simp
    show "j < length ?os \<Longrightarrow> oParent (?os ! j) = Some q \<Longrightarrow> holds_any (?os ! j) \<Longrightarrow> j \<in> set (oChildren (?os ! q))" for j q
      using same [of j] same(2) [of q] tree_link [OF assms(1), of j q] tree_parent [OF assms(1), of j q] by simp
    show "j < length ?os \<Longrightarrow> c \<in> set (oChildren (?os ! j)) \<Longrightarrow> c < length ?os \<and> oParent (?os ! c) = Some j" for j c
      using same(2) [of j] same(1) [of c] tree_child [OF assms(1), of j c] by simp
  qed
qed

text \<open>What never changes, and what only the links change.\<close>

definition same_parents :: "owner_state list \<Rightarrow> owner_state list \<Rightarrow> bool" where
  "same_parents os os' \<longleftrightarrow> length os' = length os \<and> (\<forall>i < length os. oParent (os' ! i) = oParent (os ! i))"

definition relinked :: "owner_state list \<Rightarrow> owner_state list \<Rightarrow> bool" where
  "relinked os os' \<longleftrightarrow> same_parents os os' \<and>
     (\<forall>i < length os. oOwned (os' ! i) = oOwned (os ! i) \<and> oReleased (os' ! i) = oReleased (os ! i))"

lemma same_parents_refl [simp]: "same_parents os os"
  by (simp add: same_parents_def)

lemma same_parents_trans: "same_parents a b \<Longrightarrow> same_parents b c \<Longrightarrow> same_parents a c"
  by (simp add: same_parents_def)

lemma relinked_refl [simp]: "relinked os os"
  by (simp add: relinked_def)

lemma relinked_trans: "relinked a b \<Longrightarrow> relinked b c \<Longrightarrow> relinked a c"
  by (simp add: relinked_def same_parents_def)

lemma relinked_children: "relinked os (os[i := (os ! i)\<lparr>oChildren := cs\<rparr>])"
  by (cases "i < length os") (auto simp: relinked_def same_parents_def nth_list_update)

lemma same_parents_update: "oParent o' = oParent (os ! i) \<Longrightarrow> same_parents os (os[i := o'])"
  by (cases "i < length os") (auto simp: same_parents_def nth_list_update)

lemma below_bounds: "below os i j \<Longrightarrow> j < length os \<and> i < length os"
  by (induction rule: below.induct) auto

lemma below_same: "same_parents os os' \<Longrightarrow> below os' i j \<longleftrightarrow> below os i j"
proof -
  have "below b i j" if "below a i j" "same_parents a b" for a b
    using that by (induction rule: below.induct) (auto simp: same_parents_def intro: below.intros)
  then show "same_parents os os' \<Longrightarrow> below os' i j \<longleftrightarrow> below os i j"
    by (auto simp: same_parents_def)
qed

lemma below_trans: "below os j k \<Longrightarrow> below os i j \<Longrightarrow> below os i k"
  by (induction rule: below.induct) (auto intro: below.intros)

lemma below_le: "below os i j \<Longrightarrow> tree_ok os \<Longrightarrow> i \<le> j"
  by (induction rule: below.induct) (auto dest: tree_parent)

lemma below_parent:
  "oParent (os ! j) = Some p \<Longrightarrow> j \<noteq> i \<Longrightarrow> below os i j \<longleftrightarrow> below os i p \<and> j < length os"
proof -
  assume a: "oParent (os ! j) = Some p" "j \<noteq> i"
  show "below os i j \<longleftrightarrow> below os i p \<and> j < length os"
    using a by (subst below_iff [of os i j]) auto
qed

text \<open>An owner that holds something is reached from every ancestor by its links.\<close>

lemma below_linked:
  assumes "below os i j" "tree_ok os"
  shows "holds_any (os ! j) \<Longrightarrow> j = i \<or> holds_any (os ! i) \<and> (\<exists>c \<in> set (oChildren (os ! i)). below os c j)"
  using assms(1)
proof (induction rule: below.induct)
  case (below_child p j)
  have j: "j \<in> set (oChildren (os ! p))" "p < length os"
    using below_child.hyps below_child.prems assms(2) below_bounds tree_link by blast+
  then have p: "holds_any (os ! p)" by (auto simp: holds_any_def)
  show ?case
  proof (cases "p = i")
    case True
    then show ?thesis using j p below_child(2) below_self by blast
  next
    case False
    then obtain c where "c \<in> set (oChildren (os ! i))" "below os c p" "holds_any (os ! i)"
      using below_child.IH p by blast
    then show ?thesis using below_child(2,3) below.below_child by blast
  qed
qed simp

section \<open>Whether an owner ended\<close>

lemma ended_up_iff:
  "tree_ok os \<Longrightarrow> j < length os \<Longrightarrow> j < n \<Longrightarrow> ended_up n os j \<longleftrightarrow> (\<exists>i. below os i j \<and> oReleased (os ! i))"
proof (induction n os j rule: ended_up.induct)
  case (2 n os j)
  show ?case
  proof (cases "oParent (os ! j)")
    case None
    then have "below os i j \<longleftrightarrow> i = j" for i using 2(3) by (subst below_iff [of os i j]) auto
    then show ?thesis using None by auto
  next
    case (Some p)
    then have p: "p < j" using 2(2,3) tree_parent by blast
    then have "p < length os" "p < n" using 2(3,4) by simp_all
    with 2(1) [OF Some 2(2)] have ih: "ended_up n os p \<longleftrightarrow> (\<exists>i. below os i p \<and> oReleased (os ! i))" .
    have "below os i j \<longleftrightarrow> i = j \<or> below os i p" for i
      using Some 2(3) by (subst below_iff [of os i j]) auto
    then show ?thesis using ih Some by auto
  qed
qed simp

lemma ended_iff: "tree_ok os \<Longrightarrow> j < length os \<Longrightarrow> ended os j \<longleftrightarrow> (\<exists>i. below os i j \<and> oReleased (os ! i))"
  by (simp add: ended_def ended_up_iff)

section \<open>Pruning and linking\<close>

definition shrunk :: "owner_state list \<Rightarrow> owner_state list \<Rightarrow> bool" where
  "shrunk os os' \<longleftrightarrow> relinked os os' \<and> (\<forall>i < length os. set (oChildren (os' ! i)) \<subseteq> set (oChildren (os ! i)))"

lemma shrunk_refl [simp]: "shrunk os os"
  by (simp add: shrunk_def)

lemma shrunk_trans: "shrunk a b \<Longrightarrow> shrunk b c \<Longrightarrow> shrunk a c"
proof -
  assume a: "shrunk a b" "shrunk b c"
  then have "length b = length a" by (simp add: shrunk_def relinked_def same_parents_def)
  then have "set (oChildren (c ! i)) \<subseteq> set (oChildren (a ! i))" if "i < length a" for i
    using a that unfolding shrunk_def by (metis subset_trans)
  moreover have "relinked a c" using a relinked_trans by (simp add: shrunk_def) blast
  ultimately show "shrunk a c" by (simp add: shrunk_def)
qed

lemma shrunk_children: "set cs \<subseteq> set (oChildren (os ! i)) \<Longrightarrow> shrunk os (os[i := (os ! i)\<lparr>oChildren := cs\<rparr>])"
  using relinked_children by (cases "i < length os") (auto simp: shrunk_def nth_list_update)

lemma shrunk_holds: "shrunk os os' \<Longrightarrow> j < length os \<Longrightarrow> holds_any (os' ! j) \<Longrightarrow> holds_any (os ! j)"
  by (auto simp: shrunk_def relinked_def holds_any_def)

lemma prune_up_shrunk: "shrunk os (prune_up n i os)"
proof (induction n i os rule: prune_up.induct)
  case (2 n i os)
  show ?case
  proof (cases "oParent (os ! i)")
    case (Some p)
    show ?thesis
    proof (cases "oOwned (os ! i) = [] \<and> oChildren (os ! i) = []")
      case True
      have "shrunk os (os[p := (os ! p)\<lparr>oChildren := removeAll i (oChildren (os ! p))\<rparr>])"
        by (rule shrunk_children) auto
      from shrunk_trans [OF this 2 [OF Some True]] show ?thesis using Some True by simp
    next
      case False
      then show ?thesis using Some by auto
    qed
  qed simp
qed simp

lemma unlink_tree_ok:
  assumes "tree_ok os" "i < length os" "oParent (os ! i) = Some p" "\<not> holds_any (os ! i)"
  shows "tree_ok (os[p := (os ! p)\<lparr>oChildren := removeAll i (oChildren (os ! p))\<rparr>])"
proof -
  let ?os = "os[p := (os ! p)\<lparr>oChildren := removeAll i (oChildren (os ! p))\<rparr>]"
  have p: "p < i" using assms tree_parent by blast
  have same: "oParent (?os ! j) = oParent (os ! j)" "holds_any (?os ! j) \<Longrightarrow> holds_any (os ! j)"
    "set (oChildren (?os ! j)) = (if j = p then set (oChildren (os ! j)) - {i} else set (oChildren (os ! j)))" if "j < length os" for j
    using that p assms(2) by (auto simp: nth_list_update holds_any_def)
  show ?thesis
  proof (rule tree_okI)
    show "j < length ?os \<Longrightarrow> oParent (?os ! j) = Some q \<Longrightarrow> q < j" for j q
      using same(1) [of j] tree_parent [OF assms(1), of j q] by simp
    show "j < length ?os \<Longrightarrow> c \<in> set (oChildren (?os ! j)) \<Longrightarrow> c < length ?os \<and> oParent (?os ! c) = Some j" for j c
      using same(1) [of c] same(3) [of j] tree_child [OF assms(1), of j c] by (auto split: if_splits)
    fix j q assume j: "j < length ?os" "oParent (?os ! j) = Some q" "holds_any (?os ! j)"
    then have "j \<in> set (oChildren (os ! q))" "q < length os" "j \<noteq> i"
      using same(1,2) [of j] tree_link [OF assms(1), of j q] tree_parent [OF assms(1), of j q] assms(4) by auto
    then show "j \<in> set (oChildren (?os ! q))" using same(3) [of q] by (cases "q = p") simp_all
  qed
qed

lemma prune_up_tree_ok: "tree_ok os \<Longrightarrow> i < length os \<Longrightarrow> tree_ok (prune_up n i os)"
proof (induction n i os rule: prune_up.induct)
  case (2 n i os)
  show ?case
  proof (cases "oParent (os ! i)")
    case (Some p)
    then have "p < length os" using tree_parent [OF 2(2,3)] 2(3) by fastforce
    then show ?thesis
      using 2(1) [OF Some] 2(2) Some unlink_tree_ok [OF 2(2,3) Some] by (simp add: holds_any_def)
  qed (simp add: 2)
qed simp

lemma prune_shrunk: "shrunk os (prune i os)"
  by (simp add: prune_def prune_up_shrunk)

lemma prune_tree_ok: "tree_ok os \<Longrightarrow> i < length os \<Longrightarrow> tree_ok (prune i os)"
  by (simp add: prune_def prune_up_tree_ok)

lemma link_up_relinked: "relinked os (link_up n i os)"
proof (induction n i os rule: link_up.induct)
  case (2 n i os)
  show ?case
  proof (cases "oParent (os ! i)")
    case (Some p)
    show ?thesis using relinked_trans [OF relinked_children 2 [OF Some]] Some by simp
  qed simp
qed simp

text \<open>Linking repairs the one owner that came to hold something.\<close>

definition tree_but :: "nat \<Rightarrow> owner_state list \<Rightarrow> bool" where
  "tree_but k os \<longleftrightarrow>
     (\<forall>i < length os. \<forall>p. oParent (os ! i) = Some p \<longrightarrow>
        p < i \<and> (i \<noteq> k \<and> holds_any (os ! i) \<longrightarrow> i \<in> set (oChildren (os ! p)))) \<and>
     (\<forall>i < length os. \<forall>c \<in> set (oChildren (os ! i)). c < length os \<and> oParent (os ! c) = Some i)"

lemma tree_butD:
  assumes "tree_but k os" "i < length os"
  shows "oParent (os ! i) = Some p \<Longrightarrow> p < i"
    and "oParent (os ! i) = Some p \<Longrightarrow> i \<noteq> k \<Longrightarrow> holds_any (os ! i) \<Longrightarrow> i \<in> set (oChildren (os ! p))"
    and "c \<in> set (oChildren (os ! i)) \<Longrightarrow> c < length os \<and> oParent (os ! c) = Some i"
  using assms unfolding tree_but_def by blast+

lemma tree_but_ok: "tree_ok os \<Longrightarrow> tree_but k os"
  unfolding tree_but_def tree_ok_def by blast

lemma link_step:
  assumes "tree_but i os" "i < length os" "oParent (os ! i) = Some p"
  shows "tree_but p (os[p := (os ! p)\<lparr>oChildren := removeAll i (oChildren (os ! p)) @ [i]\<rparr>])"
    (is "tree_but p ?os")
proof -
  have p: "p < i" using assms tree_butD(1) by blast
  have same: "oParent (?os ! j) = oParent (os ! j)" "j \<noteq> p \<Longrightarrow> ?os ! j = os ! j"
    "set (oChildren (?os ! j)) = (if j = p then insert i (set (oChildren (os ! j))) else set (oChildren (os ! j)))"
    if "j < length os" for j
    using that p assms(2) by (auto simp: nth_list_update)
  have "q < j \<and> (j \<noteq> p \<and> holds_any (?os ! j) \<longrightarrow> j \<in> set (oChildren (?os ! q)))"
    if "j < length os" "oParent (?os ! j) = Some q" for j q
  proof -
    have q: "oParent (os ! j) = Some q" using that same(1) by simp
    then have "q < j" using tree_butD(1) [OF assms(1) that(1)] by blast
    moreover have "j \<in> set (oChildren (?os ! q))" if "j \<noteq> p" "holds_any (?os ! j)"
    proof (cases "j = i")
      case True
      then show ?thesis using q assms(3) same(3) [of p] p assms(2) by simp
    next
      case False
      then have "j \<in> set (oChildren (os ! q))"
        using tree_butD(2) [OF assms(1) \<open>j < length os\<close> q False] that same(2) \<open>j < length os\<close> by simp
      then show ?thesis using same(3) [of q] \<open>q < j\<close> \<open>j < length os\<close> by (cases "q = p") simp_all
    qed
    ultimately show ?thesis by blast
  qed
  moreover have "c < length os \<and> oParent (?os ! c) = Some j" if "j < length os" "c \<in> set (oChildren (?os ! j))" for j c
    using that same(3) [of j] same(1) [of c] tree_butD(3) [OF assms(1), of j c] assms(2,3) by (auto split: if_splits)
  ultimately show ?thesis unfolding tree_but_def length_list_update by blast
qed

lemma link_up_tree_ok: "tree_but i os \<Longrightarrow> i < length os \<Longrightarrow> i < n \<Longrightarrow> tree_ok (link_up n i os)"
proof (induction n i os rule: link_up.induct)
  case (2 n i os)
  show ?case
  proof (cases "oParent (os ! i)")
    case None
    have "tree_ok os"
      using tree_butD [OF 2(2)] None by (intro tree_okI) (blast, metis option.distinct(1), blast)
    then show ?thesis using None by simp
  next
    case (Some p)
    have "p < i" using tree_butD(1) [OF 2(2,3) Some] .
    then show ?thesis using 2(1) [OF Some link_step [OF 2(2,3) Some]] 2(3,4) Some by simp
  qed
qed simp

section \<open>Ending\<close>

text \<open>\<open>emptied D os ids os'\<close>: what descends from \<open>D\<close> holds nothing any more, \<open>ids\<close> names all it held,
  and nothing else changed but links that were dropped.\<close>

definition emptied :: "nat set \<Rightarrow> owner_state list \<Rightarrow> string list \<Rightarrow> owner_state list \<Rightarrow> bool" where
  "emptied D os ids os' \<longleftrightarrow> same_parents os os' \<and> tree_ok os' \<and>
     (\<forall>j < length os. if \<exists>k \<in> D. below os k j then \<not> holds_any (os' ! j)
        else oOwned (os' ! j) = oOwned (os ! j) \<and> oReleased (os' ! j) = oReleased (os ! j) \<and>
             (holds_any (os' ! j) \<longrightarrow> holds_any (os ! j))) \<and>
     set ids = (\<Union>j \<in> {j. \<exists>k \<in> D. below os k j}. fst ` set (oOwned (os ! j)))"

definition quiet :: "nat \<Rightarrow> owner_state list \<Rightarrow> bool" where
  "quiet i os \<longleftrightarrow> (\<forall>j l. below os i j \<longrightarrow> oReleased (os ! j) \<longrightarrow> below os j l \<longrightarrow> \<not> holds_any (os ! l))"

lemma emptiedD:
  assumes "emptied D os ids os'"
  shows "same_parents os os'" "tree_ok os'" "length os' = length os" "below os' = below os"
    "j < length os \<Longrightarrow> \<exists>k \<in> D. below os k j \<Longrightarrow> \<not> holds_any (os' ! j)"
    "j < length os \<Longrightarrow> \<not> (\<exists>k \<in> D. below os k j) \<Longrightarrow> oOwned (os' ! j) = oOwned (os ! j) \<and>
      oReleased (os' ! j) = oReleased (os ! j) \<and> (holds_any (os' ! j) \<longrightarrow> holds_any (os ! j))"
    "set ids = (\<Union>j \<in> {j. \<exists>k \<in> D. below os k j}. fst ` set (oOwned (os ! j)))"
proof -
  note d = assms [unfolded emptied_def]
  show "same_parents os os'" "tree_ok os'"
    "set ids = (\<Union>j \<in> {j. \<exists>k \<in> D. below os k j}. fst ` set (oOwned (os ! j)))" using d by blast+
  then show "length os' = length os" "below os' = below os"
    using below_same by (auto simp: same_parents_def intro!: ext)
  show "j < length os \<Longrightarrow> \<exists>k \<in> D. below os k j \<Longrightarrow> \<not> holds_any (os' ! j)" using d by presburger
  show "j < length os \<Longrightarrow> \<not> (\<exists>k \<in> D. below os k j) \<Longrightarrow> oOwned (os' ! j) = oOwned (os ! j) \<and>
      oReleased (os' ! j) = oReleased (os ! j) \<and> (holds_any (os' ! j) \<longrightarrow> holds_any (os ! j))"
    using d by presburger
qed

lemma emptied_more:
  assumes "emptied D os ids os1" "emptied {k} os1 its os2"
  shows "emptied (insert k D) os (ids @ its) os2"
proof -
  note a = emptiedD [OF assms(1)] and b = emptiedD [OF assms(2)]
  have owned: "fst ` set (oOwned (os1 ! j)) = (if \<exists>k \<in> D. below os k j then {} else fst ` set (oOwned (os ! j)))"
    if "j < length os" for j
    using a(5,6) [OF that] by (auto simp: holds_any_def)
  have "set its = (\<Union>j \<in> {j. below os k j}. fst ` set (oOwned (os1 ! j)))" using b(7) a(4) by simp
  also have "\<dots> = (\<Union>j \<in> {j. below os k j \<and> \<not> (\<exists>k \<in> D. below os k j)}. fst ` set (oOwned (os ! j)))"
    using owned below_bounds by (auto split: if_splits)
  finally have ids: "set (ids @ its) = (\<Union>j \<in> {j. \<exists>k \<in> insert k D. below os k j}. fst ` set (oOwned (os ! j)))"
    unfolding set_append a(7) by blast
  have "if \<exists>k \<in> insert k D. below os k j then \<not> holds_any (os2 ! j)
        else oOwned (os2 ! j) = oOwned (os ! j) \<and> oReleased (os2 ! j) = oReleased (os ! j) \<and>
             (holds_any (os2 ! j) \<longrightarrow> holds_any (os ! j))" if j: "j < length os" for j
  proof -
    note b5 = b(5) [of j, unfolded a(3,4)] and b6 = b(6) [of j, unfolded a(3,4)]
    show ?thesis using a(5,6) [OF j] b5 [OF j] b6 [OF j] by (cases "below os k j") auto
  qed
  then show ?thesis
    unfolding emptied_def using ids b(2) same_parents_trans [OF a(1) b(1)] by blast
qed

lemma quiet_emptied:
  assumes "emptied D os ids os'" "quiet i os"
  shows "quiet i os'"
  unfolding quiet_def
proof (intro allI impI)
  note e = emptiedD [OF assms(1)]
  fix j l assume "below os' i j" "oReleased (os' ! j)" "below os' j l"
  then have h: "below os i j" "oReleased (os' ! j)" "below os j l" by (simp_all add: e(4))
  then have l: "l < length os" "j < length os" using below_bounds by blast+
  show "\<not> holds_any (os' ! l)"
  proof (cases "\<exists>k \<in> D. below os k l")
    case True
    then show ?thesis using e(5) [OF l(1)] by blast
  next
    case False
    then have "\<not> (\<exists>k \<in> D. below os k j)" using h(3) below_trans by blast
    then have "oReleased (os ! j)" using e(6) [OF l(2)] h(2) by blast
    then have "\<not> holds_any (os ! l)" using assms(2) h(1,3) by (auto simp: quiet_def)
    then show ?thesis using e(6) [OF l(1) False] by blast
  qed
qed

lemma quiet_child: "quiet i os \<Longrightarrow> below os i k \<Longrightarrow> quiet k os"
  unfolding quiet_def using below_trans by blast

lemma emptied_none: "tree_ok os \<Longrightarrow> emptied {} os [] os"
  by (simp add: emptied_def)

text \<open>The loop over the children, given that each child's recursive call empties its own tree.\<close>

lemma fold_end:
  assumes each: "\<And>k osc its os'. k \<in> set kids \<Longrightarrow> same_parents os osc \<Longrightarrow> tree_ok osc \<Longrightarrow> quiet k osc \<Longrightarrow>
      end_tree n k osc = (its, os') \<Longrightarrow> emptied {k} osc its os'"
    and quiet: "\<And>k. k \<in> set kids \<Longrightarrow> quiet k os"
  shows "emptied D os ids osc \<Longrightarrow>
    fold (\<lambda>child (ids, os). case end_tree n child os of (its, os) \<Rightarrow> (ids @ its, os)) kids (ids, osc) = (ids', os') \<Longrightarrow>
    emptied (D \<union> set kids) os ids' os'"
  using each quiet
proof (induction kids arbitrary: D ids osc)
  case (Cons k kids)
  obtain its os1 where t: "end_tree n k osc = (its, os1)" by fastforce
  have "emptied {k} osc its os1"
    using emptiedD(1,2) [OF Cons.prems(1)] quiet_emptied [OF Cons.prems(1) Cons.prems(4)] t
    by (intro Cons.prems(3)) simp_all
  then have "emptied (insert k D) os (ids @ its) os1" using Cons.prems(1) emptied_more by blast
  from Cons.IH [OF this] show ?case using Cons.prems(2-4) t by simp
qed simp

lemma set_released_tree: "tree_ok os \<Longrightarrow> tree_ok (os[i := (os ! i)\<lparr>oReleased := True\<rparr>])"
  by (rule tree_ok_update) (simp_all add: holds_any_def)

lemma clear_tree:
  assumes ok: "tree_ok os" and i: "i < length os"
    and free: "\<And>c. c < length os \<Longrightarrow> oParent (os ! c) = Some i \<Longrightarrow> \<not> holds_any (os ! c)"
  shows "tree_ok (os[i := (os ! i)\<lparr>oOwned := [], oChildren := []\<rparr>])" (is "tree_ok ?os")
proof -
  have same: "oParent (?os ! j) = oParent (os ! j)" "j \<noteq> i \<Longrightarrow> ?os ! j = os ! j"
    "oChildren (?os ! i) = []" "\<not> holds_any (?os ! i)" if "j < length os" for j
    using that i by (auto simp: nth_list_update holds_any_def)
  show ?thesis
  proof (rule tree_okI)
    show "j < length ?os \<Longrightarrow> oParent (?os ! j) = Some q \<Longrightarrow> q < j" for j q
      using same(1) tree_parent [OF ok] by simp
    show "j < length ?os \<Longrightarrow> c \<in> set (oChildren (?os ! j)) \<Longrightarrow> c < length ?os \<and> oParent (?os ! c) = Some j" for j c
      using same [of j] same(1) [of c] tree_child [OF ok, of j c] by (cases "j = i") simp_all
    fix j q assume j: "j < length ?os" "oParent (?os ! j) = Some q" "holds_any (?os ! j)"
    then have jlen: "j < length os" by simp
    have "j \<noteq> i" using j(3) same(4) [OF i] by blast
    then have h: "holds_any (os ! j)" "oParent (os ! j) = Some q" using j(2,3) same(1,2) [OF jlen] by simp_all
    then have "q \<noteq> i" using free [OF jlen] by blast
    moreover have "q < length os" using tree_parent [OF ok jlen h(2)] jlen by simp
    ultimately show "j \<in> set (oChildren (?os ! q))" using tree_link [OF ok jlen h(2,1)] same(2) [of q] by simp
  qed
qed

text \<open>After the loop the owner itself is cleared and pruned.\<close>

lemma ending_owner:
  fixes os defines "os1 \<equiv> \<lambda>i. os[i := (os ! i)\<lparr>oReleased := True\<rparr>]"
  assumes ok: "tree_ok os" and i: "i < length os"
    and e: "emptied (set (oChildren (os ! i))) (os1 i) ids os2"
    and os3: "os3 = os2[i := (os2 ! i)\<lparr>oOwned := [], oChildren := []\<rparr>]"
  shows "emptied {i} os (ids @ map fst (oOwned (os2 ! i))) (prune i os3) \<and> oReleased (prune i os3 ! i)"
proof -
  let ?kids = "oChildren (os ! i)"
  have par1: "same_parents os (os1 i)" unfolding os1_def by (rule same_parents_update) simp
  have below1: "below (os1 i) = below os" using below_same [OF par1] by (intro ext) simp
  have len: "length (os1 i) = length os" by (simp add: os1_def)
  have at1: "holds_any (os1 i ! j) = holds_any (os ! j)" "oOwned (os1 i ! j) = oOwned (os ! j)"
    "j \<noteq> i \<Longrightarrow> os1 i ! j = os ! j" if "j < length os" for j
    using that unfolding os1_def by (cases "i = j"; simp add: holds_any_def)+
  note E = emptiedD [OF e, unfolded below1 len]
  have notkid: "\<not> (\<exists>k \<in> set ?kids. below os k i)"
  proof
    assume "\<exists>k \<in> set ?kids. below os k i"
    then obtain k where k: "k \<in> set ?kids" "below os k i" by blast
    then show False using below_le [OF k(2) ok] tree_child [OF ok i k(1)] tree_parent [OF ok, of k i] by fastforce
  qed
  have linked: "j = i \<or> (\<exists>k \<in> set ?kids. below os k j)" if "below os i j" "holds_any (os ! j)" for j
    using below_linked [OF that(1) ok that(2)] by blast
  have released: "oReleased (os2 ! i)" "oOwned (os2 ! i) = oOwned (os ! i)"
    using E(6) [OF i notkid] i at1(2) [OF i] by (simp_all add: os1_def)
  have free: "\<not> holds_any (os2 ! j)" if "below os i j" "j \<noteq> i" for j
  proof -
    have j: "j < length os" using below_bounds [OF that(1)] by simp
    show ?thesis
    proof (cases "\<exists>k \<in> set ?kids. below os k j")
      case True
      then show ?thesis using E(5) [OF j] by blast
    next
      case False
      then have "\<not> holds_any (os ! j)" using linked [OF that(1)] that(2) by blast
      then show ?thesis using E(6) [OF j False] at1(1) [OF j] by blast
    qed
  qed
  have len2: "length os2 = length os" using E(3) len by simp
  have below2: "below os2 = below os" using E(4) by simp
  have ok3: "tree_ok os3"
    unfolding os3
  proof (rule clear_tree)
    fix c assume c: "c < length os2" "oParent (os2 ! c) = Some i"
    then have "below os i c" "c \<noteq> i"
      using below_child [OF below_self, of i os2 c] i len2 below2 tree_parent [OF E(2) c] by auto
    then show "\<not> holds_any (os2 ! c)" by (rule free)
  qed (use E(2) i len2 in simp_all)
  have par3: "same_parents os2 os3" unfolding os3 by (rule same_parents_update) simp
  have shr: "shrunk os3 (prune i os3)" by (rule prune_shrunk)
  then have "same_parents os3 (prune i os3)" by (simp add: shrunk_def relinked_def)
  from same_parents_trans [OF same_parents_trans [OF same_parents_trans [OF par1 E(1)] par3] this]
  have par: "same_parents os (prune i os3)" .
  have len3: "length os3 = length os" using len2 os3 by simp
  have at3: "j \<noteq> i \<Longrightarrow> os3 ! j = os2 ! j" "\<not> holds_any (os3 ! i)" "oReleased (os3 ! i)" for j
    using i len2 released(1) by (auto simp: os3 holds_any_def)
  have atp: "oOwned (prune i os3 ! j) = oOwned (os3 ! j)" "oReleased (prune i os3 ! j) = oReleased (os3 ! j)"
    "holds_any (prune i os3 ! j) \<Longrightarrow> holds_any (os3 ! j)" if "j < length os" for j
    using shr that shrunk_holds [OF shr, of j] len3 by (auto simp: shrunk_def relinked_def)
  have pointwise: "if \<exists>k \<in> {i}. below os k j then \<not> holds_any (prune i os3 ! j)
        else oOwned (prune i os3 ! j) = oOwned (os ! j) \<and> oReleased (prune i os3 ! j) = oReleased (os ! j) \<and>
             (holds_any (prune i os3 ! j) \<longrightarrow> holds_any (os ! j))" if j: "j < length os" for j
  proof (cases "below os i j")
    case True
    then show ?thesis using free [OF True] at3 atp(3) [OF j] by (cases "j = i") auto
  next
    case False
    then have "j \<noteq> i" using below_self [OF i] by blast
    have "\<not> (\<exists>k \<in> set ?kids. below os k j)"
    proof
      assume "\<exists>k \<in> set ?kids. below os k j"
      then obtain k where k: "k \<in> set ?kids" "below os k j" by blast
      then have "below os i k" using tree_child [OF ok i k(1)] below_child [OF below_self [OF i]] by blast
      then show False using False below_trans [OF k(2)] by blast
    qed
    from E(6) [OF j this] show ?thesis
      using False \<open>j \<noteq> i\<close> at3(1) atp [OF j] at1 [OF j] by auto
  qed
  have ids: "set (ids @ map fst (oOwned (os2 ! i))) = (\<Union>j \<in> {j. \<exists>k \<in> {i}. below os k j}. fst ` set (oOwned (os ! j)))"
  proof -
    have "set ids = (\<Union>j \<in> {j. \<exists>k \<in> set ?kids. below os k j}. fst ` set (oOwned (os ! j)))"
    proof -
      have "oOwned (os1 i ! j) = oOwned (os ! j)" if "\<exists>k \<in> set ?kids. below os k j" for j
        using that at1(2) below_bounds by blast
      then show ?thesis unfolding E(7) by (intro SUP_cong) simp_all
    qed
    moreover have "(\<Union>j \<in> {j. \<exists>k \<in> {i}. below os k j}. fst ` set (oOwned (os ! j))) =
        (\<Union>j \<in> {j. \<exists>k \<in> set ?kids. below os k j}. fst ` set (oOwned (os ! j))) \<union> fst ` set (oOwned (os ! i))"
      (is "?all = ?below \<union> ?own")
    proof
      have sub: "below os i j" if "k \<in> set ?kids" "below os k j" for j k
        using tree_child [OF ok i that(1)] below_child [OF below_self [OF i]] below_trans [OF that(2)] by blast
      show "?below \<union> ?own \<subseteq> ?all" using sub below_self [OF i] by blast
      show "?all \<subseteq> ?below \<union> ?own"
      proof
        fix x assume "x \<in> ?all"
        then obtain j where j: "below os i j" "x \<in> fst ` set (oOwned (os ! j))" by blast
        then have "holds_any (os ! j)" by (auto simp: holds_any_def)
        then show "x \<in> ?below \<union> ?own" using linked [OF j(1)] j(2) by blast
      qed
    qed
    ultimately show ?thesis using released(2) by simp
  qed
  show ?thesis
    unfolding emptied_def using par prune_tree_ok [OF ok3] i len3 pointwise ids at3(3) atp(2) [OF i] by auto
qed

lemma end_tree_emptied:
  "tree_ok os \<Longrightarrow> i < length os \<Longrightarrow> length os \<le> n + i \<Longrightarrow> quiet i os \<Longrightarrow> end_tree n i os = (ids, os') \<Longrightarrow>
   emptied {i} os ids os' \<and> oReleased (os' ! i)"
proof (induction n arbitrary: i os ids os')
  case (Suc n)
  note ok = Suc.prems(1) and i = Suc.prems(2) and quiet = Suc.prems(4) and run = Suc.prems(5)
  show ?case
  proof (cases "oReleased (os ! i)")
    case True
    have none: "\<not> holds_any (os ! j)" if "below os i j" for j
      using quiet True that below_self [OF i] unfolding quiet_def by blast
    then have "oOwned (os ! j) = []" if "below os i j" for j using that by (auto simp: holds_any_def)
    then show ?thesis using run True none ok by (auto simp: emptied_def)
  next
    case False
    let ?os1 = "os[i := (os ! i)\<lparr>oReleased := True\<rparr>]" and ?kids = "oChildren (os ! i)"
    have kids1: "oChildren (?os1 ! i) = ?kids" using i by simp
    obtain ids2 os2 where f: "fold (\<lambda>child (ids, os). case end_tree n child os of (its, os) \<Rightarrow> (ids @ its, os)) ?kids ([], ?os1)
        = (ids2, os2)" by fastforce
    let ?os3 = "os2[i := (os2 ! i)\<lparr>oOwned := [], oChildren := []\<rparr>]"
    have res: "ids = ids2 @ map fst (oOwned (os2 ! i))" "os' = prune i ?os3"
      using run False f kids1 by (simp_all add: Let_def)
    have par1: "same_parents os ?os1" by (rule same_parents_update) simp
    have below1: "below ?os1 = below os" using below_same [OF par1] by (intro ext) simp
    have at1: "holds_any (?os1 ! j) = holds_any (os ! j)" "oOwned (?os1 ! j) = oOwned (os ! j)"
      "j \<noteq> i \<Longrightarrow> ?os1 ! j = os ! j" if "j < length os" for j
      using that by (cases "i = j"; simp add: holds_any_def)+
    have kid: "below os i k \<and> i < k \<and> k < length os" if "k \<in> set ?kids" for k
      using tree_child [OF ok i that] tree_parent [OF ok, of k i] below_child [OF below_self [OF i]] by blast
    have quiet1: "quiet k ?os1" if "k \<in> set ?kids" for k
    proof -
      have "quiet k os" using quiet quiet_child kid [OF that] by blast
      moreover have "j \<noteq> i" if "below os k j" for j
        using below_le [OF that ok] kid [OF \<open>k \<in> set ?kids\<close>] by simp
      ultimately show ?thesis
        unfolding quiet_def below1 using at1 below_bounds by metis
    qed
    have "emptied ({} \<union> set ?kids) ?os1 ids2 os2"
    proof (rule fold_end [OF _ _ emptied_none f])
      fix k osc its os'
      assume k: "k \<in> set ?kids" "same_parents ?os1 osc" "tree_ok osc" "quiet k osc" "end_tree n k osc = (its, os')"
      have "length osc = length os" using k(2) by (simp add: same_parents_def)
      then show "emptied {k} osc its os'"
        using Suc.IH [OF k(3) _ _ k(4,5)] kid [OF k(1)] Suc.prems(3) by simp
    qed (use quiet1 set_released_tree [OF ok] in simp_all)
    then have e: "emptied (set ?kids) ?os1 ids2 os2" by simp
    then show ?thesis unfolding res using ending_owner [OF ok i e refl] by simp
  qed
qed simp

section \<open>What the operations on owners do\<close>

lemma ended_same:
  assumes "same_parents os os'" "tree_ok os" "tree_ok os'" "j < length os"
    and "\<And>i. below os i j \<Longrightarrow> oReleased (os' ! i) = oReleased (os ! i)"
  shows "ended os' j = ended os j"
proof -
  have "length os' = length os" using assms(1) by (simp add: same_parents_def)
  then show ?thesis using assms below_same [OF assms(1)] by (auto simp: ended_iff)
qed

text \<open>One owner's table was changed, links were dropped or added, and nothing else.\<close>

definition owned_changed :: "nat \<Rightarrow> (string \<times> bool) list \<Rightarrow> owner_state list \<Rightarrow> owner_state list \<Rightarrow> bool" where
  "owned_changed i owned os os' \<longleftrightarrow> same_parents os os' \<and> tree_ok os' \<and>
     (\<forall>j < length os. oOwned (os' ! j) = (if j = i then owned else oOwned (os ! j)) \<and>
        oReleased (os' ! j) = oReleased (os ! j) \<and> (ended os j \<longrightarrow> \<not> holds_any (os ! j) \<longrightarrow> \<not> holds_any (os' ! j)))"

lemma owned_changedD:
  assumes "owned_changed i owned os os'"
  shows "same_parents os os'" "tree_ok os'" "length os' = length os"
    "j < length os \<Longrightarrow> oOwned (os' ! j) = (if j = i then owned else oOwned (os ! j))"
    "j < length os \<Longrightarrow> oReleased (os' ! j) = oReleased (os ! j)"
    "j < length os \<Longrightarrow> ended os j \<Longrightarrow> \<not> holds_any (os ! j) \<Longrightarrow> \<not> holds_any (os' ! j)"
  using assms by (auto simp: owned_changed_def same_parents_def)

lemma owned_changed_ended:
  "owned_changed i owned os os' \<Longrightarrow> tree_ok os \<Longrightarrow> j < length os \<Longrightarrow> ended os' j = ended os j"
  by (rule ended_same) (auto dest: owned_changedD(1,2,5) below_bounds)

lemma forget_changed:
  assumes "tree_ok os" "i < length os"
  shows "owned_changed i (AList.delete key (oOwned (os ! i))) os (forget i key os)"
proof -
  let ?os = "os[i := (os ! i)\<lparr>oOwned := AList.delete key (oOwned (os ! i))\<rparr>]"
  have "tree_ok ?os" using assms by (intro tree_ok_update) (auto simp: holds_any_def AList.delete_eq)
  then have ok: "tree_ok (prune i ?os)" using assms by (intro prune_tree_ok) simp_all
  have shr: "shrunk ?os (prune i ?os)" by (rule prune_shrunk)
  have "same_parents ?os (prune i ?os)" using shr by (simp add: shrunk_def relinked_def)
  moreover have "same_parents os ?os" by (rule same_parents_update) simp
  ultimately have par: "same_parents os (prune i ?os)" using same_parents_trans by blast
  have "oOwned (prune i ?os ! j) = (if j = i then AList.delete key (oOwned (os ! i)) else oOwned (os ! j)) \<and>
      oReleased (prune i ?os ! j) = oReleased (os ! j) \<and> (\<not> holds_any (os ! j) \<longrightarrow> \<not> holds_any (prune i ?os ! j))"
    if j: "j < length os" for j
  proof -
    have "oOwned (prune i ?os ! j) = oOwned (?os ! j)" "oReleased (prune i ?os ! j) = oReleased (?os ! j)"
      using shr j by (simp_all add: shrunk_def relinked_def)
    moreover have "holds_any (prune i ?os ! j) \<Longrightarrow> holds_any (?os ! j)" using shrunk_holds [OF shr] j by simp
    moreover have "holds_any (?os ! j) \<Longrightarrow> holds_any (os ! j)"
      by (cases "j = i") (use j in \<open>auto simp: holds_any_def AList.delete_eq\<close>)
    ultimately show ?thesis using j by (cases "j = i") auto
  qed
  then show ?thesis unfolding owned_changed_def forget_def using par ok by blast
qed

lemma link_up_other: "\<not> below os j i \<Longrightarrow> i < length os \<Longrightarrow> tree_but i os \<Longrightarrow> link_up n i os ! j = os ! j"
proof (induction n i os rule: link_up.induct)
  case (2 n i os)
  show ?case
  proof (cases "oParent (os ! i)")
    case (Some p)
    let ?os = "os[p := (os ! p)\<lparr>oChildren := removeAll i (oChildren (os ! p)) @ [i]\<rparr>]"
    have p: "p < length os" using tree_butD(1) [OF 2(4) 2(3) Some] 2(3) by simp
    have "below ?os = below os" using below_same [OF same_parents_update] by (intro ext) simp
    moreover have "\<not> below os j p" using 2(2) below_child [OF _ 2(3) Some] by blast
    moreover from this have "j \<noteq> p" using below_self [OF p] by blast
    ultimately show ?thesis
      using 2(1) [OF Some] p link_step [OF 2(4,3) Some] Some by simp
  qed simp
qed simp

lemma record_changed:
  assumes "tree_ok os" "i < length os" "\<not> ended os i"
  shows "owned_changed i owned os (link_up (length os) i (os[i := (os ! i)\<lparr>oOwned := owned\<rparr>]))"
proof -
  let ?os = "os[i := (os ! i)\<lparr>oOwned := owned\<rparr>]"
  have same: "oParent (?os ! j) = oParent (os ! j)" "oChildren (?os ! j) = oChildren (os ! j)"
    "j \<noteq> i \<Longrightarrow> ?os ! j = os ! j" if "j < length os" for j
    using that by (cases "i = j"; simp)+
  have but: "tree_but i ?os"
    unfolding tree_but_def length_list_update
  proof (intro conjI allI impI ballI)
    fix j p assume j: "j < length os" "oParent (?os ! j) = Some p"
    then have p: "oParent (os ! j) = Some p" using same(1) by simp
    show "p < j" using tree_parent [OF assms(1) j(1) p] .
    then have "p < length os" using j by simp
    moreover assume "j \<noteq> i \<and> holds_any (?os ! j)"
    then have "holds_any (os ! j)" using same(3) [OF j(1)] by metis
    ultimately show "j \<in> set (oChildren (?os ! p))" using tree_link [OF assms(1) j(1) p] same(2) by simp
  next
    fix j c assume j: "j < length os" "c \<in> set (oChildren (?os ! j))"
    then have c: "c < length os \<and> oParent (os ! c) = Some j" using same(2) tree_child [OF assms(1)] by simp
    then show "c < length os" "oParent (?os ! c) = Some j" using same(1) by simp_all
  qed
  let ?os' = "link_up (length os) i ?os"
  have ok: "tree_ok ?os'" using link_up_tree_ok [OF but] assms(2) by simp
  have rel: "relinked ?os ?os'" by (rule link_up_relinked)
  have par1: "same_parents os ?os" by (rule same_parents_update) simp
  then have par: "same_parents os ?os'" using rel same_parents_trans by (auto simp: relinked_def)
  have "\<not> holds_any (?os' ! j)" if j: "j < length os" "ended os j" "\<not> holds_any (os ! j)" for j
  proof -
    obtain k where k: "below os k j" "oReleased (os ! k)" using ended_iff [OF assms(1) j(1)] j(2) by blast
    have nb: "\<not> below os j i"
      using assms(2,3) k below_trans [of os j i k] by (auto simp: ended_iff [OF assms(1,2)])
    then have "\<not> below ?os j i" using below_same [OF par1] by simp
    then have "?os' ! j = ?os ! j" using link_up_other [OF _ _ but] assms(2) by simp
    moreover have "j \<noteq> i" using nb below_self [OF assms(2)] by blast
    ultimately show ?thesis using same(3) [OF j(1)] j(3) by simp
  qed
  moreover have "oOwned (?os' ! j) = (if j = i then owned else oOwned (os ! j))" "oReleased (?os' ! j) = oReleased (os ! j)"
    if j: "j < length os" for j
  proof -
    have "oOwned (?os' ! j) = oOwned (?os ! j)" "oReleased (?os' ! j) = oReleased (?os ! j)"
      using rel j by (simp_all add: relinked_def)
    then show "oOwned (?os' ! j) = (if j = i then owned else oOwned (os ! j))" "oReleased (?os' ! j) = oReleased (os ! j)"
      using j by (cases "j = i"; simp)+
  qed
  ultimately show ?thesis unfolding owned_changed_def using par ok by blast
qed

end
