(* ===== verification/Live_Inv.thy ===== *)
theory Live_Inv
  imports Live_Tree Decimal
begin

text \<open>
  The invariant of a scope: each table holds each id once, every binding and attachment in a table
  is not released and belongs to a living owner that lists its id, every listed id is in a table
  for that owner, and an owner that ended holds nothing.  Inside a release some ids are no longer
  listed: \<open>P\<close> is the set of these.
\<close>

section \<open>The invariant\<close>

definition table_ok :: "string set \<Rightarrow> owner_state list \<Rightarrow> (string \<times> nat) list \<Rightarrow> (nat \<times> bool) list \<Rightarrow> bool" where
  "table_ok P os tbl objs \<longleftrightarrow> distinct (map fst tbl) \<and>
     (\<forall>key b. map_of tbl key = Some b \<longrightarrow> b < length objs \<and> \<not> snd (objs ! b) \<and> fst (objs ! b) < length os \<and>
        (key \<in> P \<or> key \<in> fst ` set (oOwned (os ! fst (objs ! b))) \<and> \<not> ended os (fst (objs ! b))) \<and>
        (\<forall>key'. map_of tbl key' = Some b \<longrightarrow> key' = key))"

definition listed :: "owner_state list \<Rightarrow> ((string \<times> nat) list \<times> (nat \<times> bool) list) list \<Rightarrow> bool" where
  "listed os tables \<longleftrightarrow>
     (\<forall>i < length os. \<forall>key \<in> fst ` set (oOwned (os ! i)).
        \<exists>(tbl, objs) \<in> set tables. \<exists>b. map_of tbl key = Some b \<and> fst (objs ! b) = i)"

definition owners_ok :: "nat option \<Rightarrow> owner_state list \<Rightarrow> bool" where
  "owners_ok root os \<longleftrightarrow> tree_ok os \<and>
     (\<forall>i < length os. ended os i \<longrightarrow> \<not> holds_any (os ! i)) \<and>
     (\<forall>i < length os. oParent (os ! i) = None \<longrightarrow> oReleased (os ! i) \<or> root = Some i) \<and>
     (\<forall>i. root = Some i \<longrightarrow> i < length os \<and> oParent (os ! i) = None)"

definition binding_objs :: "live_scope \<Rightarrow> (nat \<times> bool) list" where
  "binding_objs s = map (\<lambda>b. (bOwner b, bReleased b)) (lvBindings s)"

definition attachment_objs :: "live_scope \<Rightarrow> (nat \<times> bool) list" where
  "attachment_objs s = map (\<lambda>a. (atOwner a, atReleased a)) (lvAttachments s)"

text \<open>The ids of exports are the nonce and a number already passed.\<close>

definition minted :: "live_scope \<Rightarrow> string \<Rightarrow> bool" where
  "minted s key \<longleftrightarrow> (\<exists>n. 1 \<le> n \<and> n < lvNext s \<and> key = lvNonce s @ ''.'' @ int_decimal n)"

definition live_ok_but :: "string set \<Rightarrow> live_scope \<Rightarrow> bool" where
  "live_ok_but P s \<longleftrightarrow> owners_ok (lvOwner s) (lvOwners s) \<and>
     table_ok P (lvOwners s) (lvExports s) (binding_objs s) \<and>
     table_ok P (lvOwners s) (lvImports s) (attachment_objs s) \<and>
     listed (lvOwners s) [(lvExports s, binding_objs s), (lvImports s, attachment_objs s)] \<and>
     int (length (lvExports s)) \<le> MaxExports (lvOptions s) \<and> int (length (lvImports s)) \<le> MaxImports (lvOptions s) \<and>
     (lvClosed s \<longrightarrow> lvExports s = [] \<and> lvImports s = []) \<and>
     1 \<le> lvNext s \<and> (\<forall>key \<in> fst ` set (lvExports s). minted s key)"

abbreviation live_ok :: "live_scope \<Rightarrow> bool" where
  "live_ok \<equiv> live_ok_but {}"

lemma live_ok_butD:
  assumes "live_ok_but P s"
  shows "owners_ok (lvOwner s) (lvOwners s)" "tree_ok (lvOwners s)"
    "table_ok P (lvOwners s) (lvExports s) (binding_objs s)"
    "table_ok P (lvOwners s) (lvImports s) (attachment_objs s)"
    "listed (lvOwners s) [(lvExports s, binding_objs s), (lvImports s, attachment_objs s)]"
    "int (length (lvExports s)) \<le> MaxExports (lvOptions s)" "int (length (lvImports s)) \<le> MaxImports (lvOptions s)"
    "lvClosed s \<Longrightarrow> lvExports s = [] \<and> lvImports s = []"
    "1 \<le> lvNext s" "\<forall>key \<in> fst ` set (lvExports s). minted s key"
  using assms by (simp_all add: live_ok_but_def owners_ok_def)

lemma table_okD:
  assumes "table_ok P os tbl objs" "map_of tbl key = Some b"
  shows "b < length objs" "\<not> snd (objs ! b)" "fst (objs ! b) < length os"
    "key \<in> P \<or> key \<in> fst ` set (oOwned (os ! fst (objs ! b))) \<and> \<not> ended os (fst (objs ! b))"
    "map_of tbl key' = Some b \<Longrightarrow> key' = key"
  using assms unfolding table_ok_def by blast+

section \<open>Taking an entry out of a table\<close>

lemma table_delete:
  assumes tbl: "table_ok P os tbl objs" and os: "tree_ok os" and at: "map_of tbl key = Some b"
    and ch: "owned_changed (fst (objs ! b)) (AList.delete key (oOwned (os ! fst (objs ! b)))) os os'"
  shows "table_ok (insert key P) os' (AList.delete key tbl) (objs[b := (fst (objs ! b), True)])"
  unfolding table_ok_def
proof (intro conjI allI impI)
  show "distinct (map fst (AList.delete key tbl))" using tbl by (simp add: table_ok_def distinct_delete)
  note ch' = owned_changedD [OF ch] owned_changed_ended [OF ch os]
  fix k c assume k': "map_of (AList.delete key tbl) k = Some c"
  then have k: "map_of tbl k = Some c" "k \<noteq> key"
    by (auto simp: delete_conv' split: if_splits)
  have ne: "c \<noteq> b" using table_okD(5) [OF tbl k(1), of key] k(2) at by blast
  note c = table_okD [OF tbl k(1)]
  show "c < length (objs[b := (fst (objs ! b), True)])" using c(1) by simp
  show "\<not> snd (objs[b := (fst (objs ! b), True)] ! c)" using c(2) ne by simp
  show "fst (objs[b := (fst (objs ! b), True)] ! c) < length os'" using c(3) ne ch'(3) by simp
  show "k' = k" if "map_of (AList.delete key tbl) k' = Some c" for k'
    using that c(5) by (auto simp: delete_conv' split: if_splits)
  have "k \<in> fst ` set (oOwned (os' ! fst (objs ! c))) \<longleftrightarrow> k \<in> fst ` set (oOwned (os ! fst (objs ! c)))"
    using ch'(4) [OF c(3)] k(2) by (auto simp: AList.delete_eq)
  then show "k \<in> insert key P \<or> k \<in> fst ` set (oOwned (os' ! fst (objs[b := (fst (objs ! b), True)] ! c))) \<and>
      \<not> ended os' (fst (objs[b := (fst (objs ! b), True)] ! c))"
    using c(3,4) ne ch'(7) [OF c(3)] by simp
qed

lemma table_other:
  assumes tbl: "table_ok P os tbl objs" and os: "tree_ok os"
    and ch: "owned_changed i (AList.delete key (oOwned (os ! i))) os os'"
  shows "table_ok (insert key P) os' tbl objs"
  unfolding table_ok_def
proof (intro conjI allI impI)
  show "distinct (map fst tbl)" using tbl by (simp add: table_ok_def)
  fix k c assume k: "map_of tbl k = Some c"
  note c = table_okD [OF tbl k] and ch' = owned_changedD [OF ch] owned_changed_ended [OF ch os]
  show "c < length objs" "\<not> snd (objs ! c)" "fst (objs ! c) < length os'" using c(1-3) ch'(3) by simp_all
  show "map_of tbl k' = Some c \<Longrightarrow> k' = k" for k' by (rule c(5))
  show "k \<in> insert key P \<or> k \<in> fst ` set (oOwned (os' ! fst (objs ! c))) \<and> \<not> ended os' (fst (objs ! c))"
    using c(3,4) ch'(4) [OF c(3)] ch'(7) [OF c(3)] by (auto simp: AList.delete_eq)
qed

lemma owners_changed:
  assumes "owners_ok root os" "owned_changed i owned os os'"
  shows "owners_ok root os'"
proof -
  note ch = owned_changedD [OF assms(2)]
  have os: "tree_ok os" using assms(1) by (simp add: owners_ok_def)
  have "oParent (os' ! j) = oParent (os ! j)" if "j < length os" for j using ch(1) that by (simp add: same_parents_def)
  then show ?thesis
    using assms(1) ch(2,3,5,6) owned_changed_ended [OF assms(2) os] unfolding owners_ok_def by metis
qed

lemma listed_delete:
  assumes "listed os (us @ (tbl, objs) # vs)" "map_of tbl key = Some b" "b < length objs"
    and ch: "owned_changed (fst (objs ! b)) (AList.delete key (oOwned (os ! fst (objs ! b)))) os os'"
  shows "listed os' (us @ (AList.delete key tbl, objs[b := (fst (objs ! b), True)]) # vs)"
  unfolding listed_def
proof (intro allI impI ballI)
  fix i k assume i: "i < length os'" and k: "k \<in> fst ` set (oOwned (os' ! i))"
  note ch' = owned_changedD [OF ch]
  have i': "i < length os" using i ch'(3) by simp
  have owned: "k \<in> fst ` set (oOwned (os ! i))" "i = fst (objs ! b) \<Longrightarrow> k \<noteq> key"
    using k ch'(4) [OF i'] by (auto simp: AList.delete_eq split: if_splits)
  then obtain t os1 c where c: "(t, os1) \<in> set (us @ (tbl, objs) # vs)" "map_of t k = Some c" "fst (os1 ! c) = i"
    using assms(1) i' unfolding listed_def by blast
  show "\<exists>(t, os1) \<in> set (us @ (AList.delete key tbl, objs[b := (fst (objs ! b), True)]) # vs). \<exists>c. map_of t k = Some c \<and> fst (os1 ! c) = i"
  proof (cases "(t, os1) = (tbl, objs)")
    case True
    have "k \<noteq> key" using owned(2) c assms(2) True by auto
    moreover have "fst (objs[b := (fst (objs ! b), True)] ! c) = fst (objs ! c)" using assms(3) by (cases "c = b") simp_all
    ultimately show ?thesis using c True by auto
  next
    case False
    then show ?thesis using c by auto
  qed
qed

lemma table_mono: "table_ok P os tbl objs \<Longrightarrow> P \<subseteq> Q \<Longrightarrow> table_ok Q os tbl objs"
  unfolding table_ok_def by blast

lemma table_gone: "table_ok (insert key P) os tbl objs \<Longrightarrow> map_of tbl key = None \<Longrightarrow> table_ok P os tbl objs"
  unfolding table_ok_def by (metis insert_iff option.distinct(1))

lemma live_mono: "live_ok_but P s \<Longrightarrow> P \<subseteq> Q \<Longrightarrow> live_ok_but Q s"
  unfolding live_ok_but_def using table_mono by blast

lemma live_gone:
  "live_ok_but (insert key P) s \<Longrightarrow> map_of (lvExports s) key = None \<Longrightarrow> map_of (lvImports s) key = None \<Longrightarrow> live_ok_but P s"
  unfolding live_ok_but_def using table_gone by blast

lemma length_delete_int: "int (length xs) \<le> m \<Longrightarrow> int (length (AList.delete k xs)) \<le> m"
  using length_delete_le [of k xs] by linarith

lemma take_export_ok:
  assumes ok: "live_ok_but P s" and run: "take_export key s = (c, s')"
  shows "live_ok_but (insert key P) s' \<and> map_of (lvExports s') key = None \<and> lvImports s' = lvImports s"
proof (cases "map_of (lvExports s) key")
  case None
  then show ?thesis using run ok live_mono [of P s "insert key P"] by (auto simp: take_export_def)
next
  case (Some b)
  note D = live_ok_butD [OF ok]
  let ?own = "lvBindings s ! b" and ?os = "forget (bOwner (lvBindings s ! b)) key (lvOwners s)"
  have s': "s' = s\<lparr>lvBindings := (lvBindings s)[b := ?own\<lparr>bReleased := True\<rparr>], lvExports := AList.delete key (lvExports s),
      lvOwners := ?os\<rparr>" using run Some by (simp add: take_export_def Let_def)
  note T = table_okD [OF D(3) Some]
  have own: "fst (binding_objs s ! b) = bOwner ?own" using T(1) by (simp add: binding_objs_def)
  have objs: "binding_objs s' = (binding_objs s)[b := (fst (binding_objs s ! b), True)]" "attachment_objs s' = attachment_objs s"
    using T(1) by (simp_all add: binding_objs_def attachment_objs_def s' map_update)
  have ch: "owned_changed (fst (binding_objs s ! b)) (AList.delete key (oOwned (lvOwners s ! fst (binding_objs s ! b)))) (lvOwners s) ?os"
    unfolding own using forget_changed [OF D(2)] T(3) own by simp
  have "minted s' k = minted s k" for k by (simp add: minted_def s')
  moreover have "fst ` set (lvExports s') \<subseteq> fst ` set (lvExports s)" using dom_delete_subset by (simp add: s')
  ultimately have "\<forall>k \<in> fst ` set (lvExports s'). minted s' k" using D(10) by blast
  then have "live_ok_but (insert key P) s'"
    unfolding live_ok_but_def
    using owners_changed [OF D(1) ch] table_delete [OF D(3,2) Some ch] table_other [OF D(4,2) ch]
      listed_delete [of "lvOwners s" "[]", simplified, OF D(5) Some T(1) ch] length_delete_int [OF D(6)] D(7-9)
    unfolding objs by (simp add: s' objs)
  then show ?thesis by (simp add: s' delete_conv')
qed

lemma take_import_ok:
  assumes ok: "live_ok_but P s" and run: "take_import key s = (c, s')"
  shows "live_ok_but (insert key P) s' \<and> map_of (lvImports s') key = None \<and> lvExports s' = lvExports s"
proof (cases "map_of (lvImports s) key")
  case None
  then show ?thesis using run ok live_mono [of P s "insert key P"] by (auto simp: take_import_def)
next
  case (Some a)
  note D = live_ok_butD [OF ok]
  let ?held = "lvAttachments s ! a" and ?os = "forget (atOwner (lvAttachments s ! a)) key (lvOwners s)"
  have s': "s' = s\<lparr>lvAttachments := (lvAttachments s)[a := ?held\<lparr>atReleased := True\<rparr>], lvImports := AList.delete key (lvImports s),
      lvOwners := ?os\<rparr>" using run Some by (simp add: take_import_def Let_def)
  note T = table_okD [OF D(4) Some]
  have own: "fst (attachment_objs s ! a) = atOwner ?held" using T(1) by (simp add: attachment_objs_def)
  have objs: "attachment_objs s' = (attachment_objs s)[a := (fst (attachment_objs s ! a), True)]" "binding_objs s' = binding_objs s"
    using T(1) by (simp_all add: binding_objs_def attachment_objs_def s' map_update)
  have ch: "owned_changed (fst (attachment_objs s ! a)) (AList.delete key (oOwned (lvOwners s ! fst (attachment_objs s ! a)))) (lvOwners s) ?os"
    unfolding own using forget_changed [OF D(2)] T(3) own by simp
  have "live_ok_but (insert key P) s'"
    unfolding live_ok_but_def
    using owners_changed [OF D(1) ch] table_delete [OF D(4,2) Some ch] table_other [OF D(3,2) ch]
      listed_delete [of "lvOwners s" "[(lvExports s, binding_objs s)]", simplified, OF D(5) Some T(1) ch] length_delete_int [OF D(7)] D(6,8-10)
    unfolding objs by (simp add: s' objs minted_def)
  then show ?thesis by (simp add: s' delete_conv')
qed

section \<open>Releasing\<close>

text \<open>What the invariant does not see.\<close>

lemma live_ok_unseen [simp]:
  "live_ok_but P (s\<lparr>lvGone := g\<rparr>) = live_ok_but P s" "live_ok_but P (s\<lparr>lvOrder := ord\<rparr>) = live_ok_but P s"
  "live_ok_but P (s\<lparr>lvInflight := f\<rparr>) = live_ok_but P s" "live_ok_but P (s\<lparr>lvCall := n\<rparr>) = live_ok_but P s"
  "live_ok_but P (s\<lparr>lvBatches := bs\<rparr>) = live_ok_but P s" "live_ok_but P (s\<lparr>lvLog := l\<rparr>) = live_ok_but P s"
  "live_ok_but P (note_live ns s) = live_ok_but P s" "live_ok_but P (notifyRelease n' s) = live_ok_but P s"
  by (simp_all add: live_ok_but_def minted_def binding_objs_def attachment_objs_def note_live_def notifyRelease_def)

lemma live_ok_closed: "live_ok_but P s \<Longrightarrow> lvClosed s \<Longrightarrow> live_ok_but Q s"
  by (auto simp: live_ok_but_def table_ok_def)

lemma takeRelease_ok:
  assumes "live_ok_but P s" "takeRelease key tell s = (n, s')"
  shows "live_ok_but (P - {key}) s'"
proof (cases "lvClosed s")
  case True
  then show ?thesis using assms live_ok_closed by (auto simp: takeRelease_def)
next
  case False
  obtain c1 s1 where e: "take_export key s = (c1, s1)" by fastforce
  obtain c2 s2 where i: "take_import key s1 = (c2, s2)" by fastforce
  note E = take_export_ok [OF assms(1) e]
  have I: "live_ok_but (insert key P) s2" "map_of (lvImports s2) key = None" "lvExports s2 = lvExports s1"
    using take_import_ok [OF conjunct1 [OF E] i] by simp_all
  have "live_ok_but (insert key (P - {key})) s2" using I(1) by simp
  then have ok: "live_ok_but (P - {key}) s2" using live_gone I(2,3) E by metis
  have "s' = s2 \<or> (\<exists>g ord. s' = s2\<lparr>lvGone := g, lvOrder := ord\<rparr>)"
    using assms(2) False e i by (auto simp: takeRelease_def Let_def split: prod.splits if_splits)
  then show ?thesis using ok by auto
qed

lemma take_all_ok: "live_ok_but P s \<Longrightarrow> take_all ks s = (ns, s') \<Longrightarrow> live_ok_but (P - fst ` set ks) s'"
proof (induction ks arbitrary: P s ns)
  case (Cons k ks)
  obtain key tell where k: "k = (key, tell)" by fastforce
  obtain n s1 where t: "takeRelease key tell s = (n, s1)" by fastforce
  have "P - fst ` set (k # ks) = (P - {key}) - fst ` set ks" using k by auto
  then show ?case
    using Cons.IH [OF takeRelease_ok [OF Cons.prems(1) t]] Cons.prems(2) t k by (auto split: prod.splits)
qed simp

lemma notify_all_ok [simp]: "live_ok_but P (fold notifyRelease ns s) = live_ok_but P s"
  by (induction ns arbitrary: s) simp_all

lemma release_key_ok: "live_ok s \<Longrightarrow> live_ok (release_key key tell s)"
  using takeRelease_ok [of "{}" s key tell] by (auto simp: release_key_def split: prod.splits)

section \<open>Ending an owner\<close>

lemma owners_quiet: "owners_ok root os \<Longrightarrow> quiet i os"
proof -
  assume ok: "owners_ok root os"
  have "\<not> holds_any (os ! l)" if "oReleased (os ! j)" "below os j l" for j l
  proof -
    have "l < length os" using below_bounds [OF that(2)] by simp
    moreover from this have "ended os l" using ok that ended_iff by (auto simp: owners_ok_def)
    ultimately show ?thesis using ok by (simp add: owners_ok_def)
  qed
  then show ?thesis unfolding quiet_def by blast
qed

lemma end_owner_emptied:
  assumes "owners_ok root os" "i < length os" "end_owner i os = (ids, os')"
  shows "emptied {i} os ids os' \<and> oReleased (os' ! i)"
  using assms(2,3) owners_quiet [OF assms(1), of i] end_tree_emptied [of os i "length os"] assms(1)
  by (simp add: end_owner_def owners_ok_def)

lemma emptied_ended:
  assumes "emptied {i} os ids os'" "oReleased (os' ! i)" "tree_ok os" "j < length os"
  shows "ended os' j \<longleftrightarrow> below os i j \<or> ended os j"
proof -
  note E = emptiedD [OF assms(1)]
  have same: "oReleased (os' ! k) = oReleased (os ! k)" if "below os k j" "\<not> below os i j" for k
    using E(6) [of k] below_bounds [OF that(1)] that below_trans by blast
  show ?thesis
    using ended_iff [OF E(2)] ended_iff [OF assms(3,4)] assms(2,4) same unfolding E(3,4) by blast
qed

lemma emptied_owners:
  assumes ok: "owners_ok root os" and e: "emptied {i} os ids os'" and r: "oReleased (os' ! i)"
  shows "owners_ok root os'"
proof -
  note E = emptiedD [OF e]
  have os: "tree_ok os" using ok by (simp add: owners_ok_def)
  have par: "oParent (os' ! j) = oParent (os ! j)" if "j < length os" for j using E(1) that by (simp add: same_parents_def)
  have "\<not> holds_any (os' ! j)" if j: "j < length os" "ended os' j" for j
  proof (cases "below os i j")
    case False
    then have "ended os j" using emptied_ended [OF e r os j(1)] j(2) by blast
    then show ?thesis using E(6) [OF j(1)] False ok j(1) by (auto simp: owners_ok_def)
  qed (use E(5) [OF j(1)] in blast)
  moreover have "oReleased (os' ! j) \<or> root = Some j" if j: "j < length os" "oParent (os' ! j) = None" for j
  proof (cases "below os i j")
    case True
    then have "j = i" using par [OF j(1)] j(2) by (subst (asm) below_iff) auto
    then show ?thesis using r by blast
  next
    case False
    then have "oReleased (os' ! j) = oReleased (os ! j)" using E(6) [OF j(1)] by blast
    then show ?thesis using ok j par [OF j(1)] by (simp add: owners_ok_def)
  qed
  ultimately show ?thesis using ok E(2,3) par unfolding owners_ok_def by metis
qed

lemma table_emptied:
  assumes tbl: "table_ok P os tbl objs" and e: "emptied {i} os ids os'" and r: "oReleased (os' ! i)" and os: "tree_ok os"
  shows "table_ok (P \<union> set ids) os' tbl objs"
  unfolding table_ok_def
proof (intro conjI allI impI)
  show "distinct (map fst tbl)" using tbl by (simp add: table_ok_def)
  fix k c assume k: "map_of tbl k = Some c"
  note c = table_okD [OF tbl k] and E = emptiedD [OF e]
  show "c < length objs" "\<not> snd (objs ! c)" "fst (objs ! c) < length os'" using c(1-3) E(3) by simp_all
  show "map_of tbl k' = Some c \<Longrightarrow> k' = k" for k' by (rule c(5))
  show "k \<in> P \<union> set ids \<or> k \<in> fst ` set (oOwned (os' ! fst (objs ! c))) \<and> \<not> ended os' (fst (objs ! c))"
  proof (cases "below os i (fst (objs ! c))")
    case True
    then have "k \<in> fst ` set (oOwned (os ! fst (objs ! c))) \<Longrightarrow> k \<in> set ids" unfolding E(7) by blast
    then show ?thesis using c(4) by blast
  next
    case False
    then show ?thesis using c(4) E(6) [OF c(3)] emptied_ended [OF e r os c(3)] by auto
  qed
qed

lemma listed_emptied:
  assumes "listed os tables" "emptied D os ids os'"
  shows "listed os' tables"
proof -
  note E = emptiedD [OF assms(2)]
  have "k \<in> fst ` set (oOwned (os ! i))" if "i < length os" "k \<in> fst ` set (oOwned (os' ! i))" for i k
    using E(5,6) [OF that(1)] that(2) by (cases "\<exists>k \<in> D. below os k i") (auto simp: holds_any_def)
  then show ?thesis using assms(1) unfolding listed_def E(3) by blast
qed

lemma Owner_release_ok:
  assumes ok: "live_ok s" and h: "hState h < length (lvOwners s)"
  shows "live_ok (Owner_release h s)"
proof -
  obtain ids os' where e: "end_owner (hState h) (lvOwners s) = (ids, os')" by fastforce
  note D = live_ok_butD [OF ok] and E = end_owner_emptied [OF live_ok_butD(1) [OF ok] h e]
  note E1 = conjunct1 [OF E] and E2 = conjunct2 [OF E]
  have "live_ok_but (set ids) (s\<lparr>lvOwners := os'\<rparr>)"
    unfolding live_ok_but_def
    using emptied_owners [OF D(1) E1 E2] table_emptied [OF D(3) E1 E2 D(2)] table_emptied [OF D(4) E1 E2 D(2)]
      listed_emptied [OF D(5) E1] D(6-10) by (simp add: binding_objs_def attachment_objs_def minted_def)
  moreover obtain ns s2 where t: "take_all (map (\<lambda>key. (key, True)) ids) (s\<lparr>lvOwners := os'\<rparr>) = (ns, s2)" by fastforce
  ultimately have "live_ok_but (set ids - fst ` set (map (\<lambda>key. (key, True)) ids)) s2" using take_all_ok by blast
  moreover have "fst ` set (map (\<lambda>key. (key, True)) ids) = set ids" by (simp add: image_image)
  ultimately have "live_ok s2" by simp
  then show ?thesis using e t by (simp add: Owner_release_def)
qed

lemma all_ended:
  assumes ok: "owners_ok root os" and root: "\<And>i. root = Some i \<Longrightarrow> oReleased (os ! i)"
  shows "j < length os \<Longrightarrow> ended os j"
proof (induction j rule: less_induct)
  case (less j)
  have tree: "tree_ok os" using ok by (simp add: owners_ok_def)
  show ?case
  proof (cases "oParent (os ! j)")
    case None
    then have "oReleased (os ! j)" using ok root less.prems by (auto simp: owners_ok_def)
    then show ?thesis using ended_iff [OF tree less.prems] below_self [OF less.prems] by blast
  next
    case (Some p)
    then have "p < j" using tree_parent [OF tree less.prems] by blast
    then have "ended os p" "p < length os" using less by simp_all
    then show ?thesis using ended_iff [OF tree] less.prems below_child [OF _ less.prems Some] by metis
  qed
qed

lemma all_ended_empty:
  assumes "owners_ok root os" "\<And>i. root = Some i \<Longrightarrow> oReleased (os ! i)"
  shows "listed os tables"
proof -
  have "\<not> holds_any (os ! j)" if "j < length os" for j
    using all_ended [OF assms that] assms(1) that by (auto simp: owners_ok_def)
  then show ?thesis by (simp add: listed_def holds_any_def)
qed

lemma end_scope_ok:
  assumes ok: "live_ok s"
  shows "live_ok (end_scope s)"
proof (cases "lvClosed s")
  case True
  then show ?thesis using ok by (simp add: end_scope_def)
next
  case False
  note D = live_ok_butD [OF ok]
  obtain os where os: "os = (case lvOwner s of None \<Rightarrow> lvOwners s | Some i \<Rightarrow> snd (end_owner i (lvOwners s)))" by blast
  have owners: "owners_ok (lvOwner s) os \<and> (\<forall>i. lvOwner s = Some i \<longrightarrow> oReleased (os ! i))"
  proof (cases "lvOwner s")
    case None
    then show ?thesis using D(1) os by simp
  next
    case (Some i)
    then have i: "i < length (lvOwners s)" using D(1) by (simp add: owners_ok_def)
    obtain ids os' where e: "end_owner i (lvOwners s) = (ids, os')" by fastforce
    then show ?thesis
      using end_owner_emptied [OF D(1) i e] emptied_owners [OF D(1)] Some os by auto
  qed
  have state: "end_scope s = note_live (map Cancel (lvInflight s)) (s\<lparr>lvClosed := True, lvInflight := [], lvOwners := os,
      lvExports := [], lvImports := []\<rparr>)"
    using False os by (simp add: end_scope_def)
  have "0 \<le> MaxExports (lvOptions s)" "0 \<le> MaxImports (lvOptions s)" using D(6,7) by linarith+
  moreover have "owners_ok (lvOwner s) os" "\<And>t. listed os t" using owners all_ended_empty by blast+
  ultimately show ?thesis
    unfolding state live_ok_unseen using D(9) by (simp add: live_ok_but_def table_ok_def binding_objs_def attachment_objs_def)
qed

section \<open>Making owners\<close>

lemma below_append:
  assumes "tree_ok os" "j < length os"
  shows "below (os @ [o']) i j \<longleftrightarrow> below os i j"
proof -
  have a: "below os i k \<Longrightarrow> below (os @ [o']) i k" for k
    by (induction rule: below.induct) (auto intro: below.intros simp: nth_append)
  have b: "below (os @ [o']) i k \<Longrightarrow> k < length os \<Longrightarrow> below os i k" for k
  proof (induction rule: below.induct)
    case (below_child p k)
    then have "oParent (os ! k) = Some p" by (simp add: nth_append)
    moreover from this have "p < k" using tree_parent [OF assms(1) below_child.prems] by blast
    ultimately show ?case using below_child.IH below_child.prems below.below_child by simp
  qed (simp add: below_self)
  show ?thesis using a b assms(2) by blast
qed

lemma owners_append:
  assumes ok: "owners_ok root os" and o': "o' = \<lparr>oParent = parent, oChildren = [], oOwned = [], oReleased = False\<rparr>"
    and parent: "\<And>p. parent = Some p \<Longrightarrow> p < length os"
    and root': "if parent = None then root' = Some (length os) \<and> (\<forall>i. root = Some i \<longrightarrow> oReleased (os ! i)) else root' = root"
  shows "owners_ok root' (os @ [o'])" and "j < length os \<Longrightarrow> ended (os @ [o']) j = ended os j"
proof -
  have tree: "tree_ok os" using ok by (simp add: owners_ok_def)
  have free: "\<not> holds_any o'" by (simp add: o' holds_any_def)
  have tree': "tree_ok (os @ [o'])"
  proof (rule tree_okI)
    fix i p assume i: "i < length (os @ [o'])" and p: "oParent ((os @ [o']) ! i) = Some p"
    show pi: "p < i" using i p parent tree_parent [OF tree, of i p] by (auto simp: nth_append o' less_Suc_eq split: if_splits)
    assume "holds_any ((os @ [o']) ! i)"
    then have "i < length os" using i free by (auto simp: nth_append less_Suc_eq)
    then show "i \<in> set (oChildren ((os @ [o']) ! p))"
      using tree_link [OF tree, of i p] p pi \<open>holds_any ((os @ [o']) ! i)\<close> by (simp add: nth_append)
  next
    fix i c assume i: "i < length (os @ [o'])" and c: "c \<in> set (oChildren ((os @ [o']) ! i))"
    then have "i < length os" by (auto simp: nth_append less_Suc_eq o')
    then show "c < length (os @ [o']) \<and> oParent ((os @ [o']) ! c) = Some i"
      using tree_child [OF tree, of i c] c by (simp add: nth_append)
  qed
  show ended: "j < length os \<Longrightarrow> ended (os @ [o']) j = ended os j" for j
    using ended_iff [OF tree', of j] ended_iff [OF tree, of j] below_append [OF tree, of j] below_bounds
    by (auto simp: nth_append)
  show "owners_ok root' (os @ [o'])"
    unfolding owners_ok_def
  proof (intro conjI allI impI)
    show "tree_ok (os @ [o'])" by (rule tree')
    fix i
    show "\<not> holds_any ((os @ [o']) ! i)" if "i < length (os @ [o'])" "ended (os @ [o']) i"
      using that ended [of i] ok free by (auto simp: nth_append less_Suc_eq owners_ok_def)
    show "oReleased ((os @ [o']) ! i) \<or> root' = Some i" if "i < length (os @ [o'])" "oParent ((os @ [o']) ! i) = None"
      using that ok root' by (auto simp: nth_append less_Suc_eq owners_ok_def o' split: if_splits)
    show "i < length (os @ [o'])" "oParent ((os @ [o']) ! i) = None" if "root' = Some i"
      using that ok root' by (auto simp: nth_append owners_ok_def o' split: if_splits)
  qed
qed

lemma table_append:
  assumes "table_ok P os tbl objs" "\<And>j. j < length os \<Longrightarrow> ended (os @ [o']) j = ended os j"
  shows "table_ok P (os @ [o']) tbl objs"
  unfolding table_ok_def
proof (intro conjI allI impI)
  show "distinct (map fst tbl)" using assms(1) by (simp add: table_ok_def)
  fix k c assume "map_of tbl k = Some c"
  note c = table_okD [OF assms(1) this]
  show "c < length objs" "\<not> snd (objs ! c)" "fst (objs ! c) < length (os @ [o'])" using c(1-3) by simp_all
  show "map_of tbl k' = Some c \<Longrightarrow> k' = k" for k' by (rule c(5))
  show "k \<in> P \<or> k \<in> fst ` set (oOwned ((os @ [o']) ! fst (objs ! c))) \<and> \<not> ended (os @ [o']) (fst (objs ! c))"
    using c(3,4) assms(2) [OF c(3)] by (simp add: nth_append)
qed

lemma listed_append: "listed os tables \<Longrightarrow> oOwned o' = [] \<Longrightarrow> listed (os @ [o']) tables"
  by (auto simp: listed_def nth_append less_Suc_eq)

lemma append_ok:
  assumes ok: "live_ok s" and o': "o' = \<lparr>oParent = parent, oChildren = [], oOwned = [], oReleased = False\<rparr>"
    and parent: "\<And>p. parent = Some p \<Longrightarrow> p < length (lvOwners s)"
    and root': "if parent = None then root' = Some (length (lvOwners s)) \<and> (\<forall>i. lvOwner s = Some i \<longrightarrow> oReleased (lvOwners s ! i))
      else root' = lvOwner s"
  shows "live_ok (s\<lparr>lvOwner := root', lvOwners := lvOwners s @ [o']\<rparr>)"
proof -
  note D = live_ok_butD [OF ok]
  note A = owners_append [OF D(1) o' parent root']
  show ?thesis
    unfolding live_ok_but_def
    using A(1) table_append [OF D(3) A(2)] table_append [OF D(4) A(2)] listed_append [OF D(5), of o'] D(6-10) o'
    by (simp add: minted_def binding_objs_def attachment_objs_def)
qed

lemma Owner_root_ok: "live_ok s \<Longrightarrow> Owner_root s = (h, s') \<Longrightarrow> live_ok s'"
  using append_ok [of s _ None "Some (length (lvOwners s))"]
  by (auto simp: Owner_root_def split: option.splits if_splits)

lemma Child_ok: "live_ok s \<Longrightarrow> hState h < length (lvOwners s) \<Longrightarrow> Child h s = (h', s') \<Longrightarrow> live_ok s'"
proof -
  assume a: "live_ok s" "hState h < length (lvOwners s)" "Child h s = (h', s')"
  have "s' = s\<lparr>lvOwner := lvOwner s, lvOwners := lvOwners s @ [\<lparr>oParent = Some (hState h), oChildren = [], oOwned = [], oReleased = False\<rparr>]\<rparr>"
    using a(3) by (simp add: Child_def)
  then show "live_ok s'" using append_ok [OF a(1) refl, of "Some (hState h)" "lvOwner s"] a(2) by simp
qed

section \<open>Exporting and importing\<close>

lemma table_insert:
  assumes tbl: "table_ok {} os tbl objs" and os: "tree_ok os" and new: "map_of tbl key = None"
    and i: "i < length os" "\<not> ended os i"
    and ch: "owned_changed i (AList.update key v (oOwned (os ! i))) os os'"
  shows "table_ok {} os' (AList.update key (length objs) tbl) (objs @ [(i, False)])"
  unfolding table_ok_def
proof (intro conjI allI impI)
  show "distinct (map fst (AList.update key (length objs) tbl))" using tbl by (simp add: table_ok_def distinct_update)
  note ch' = owned_changedD [OF ch] owned_changed_ended [OF ch os]
  let ?objs = "objs @ [(i, False)]"
  fix k c assume at: "map_of (AList.update key (length objs) tbl) k = Some c"
  consider (new) "k = key" "c = length objs" | (old) "k \<noteq> key" "map_of tbl k = Some c"
    using at by (auto simp: update_conv' split: if_splits)
  then have "c < length ?objs \<and> \<not> snd (?objs ! c) \<and> fst (?objs ! c) < length os' \<and>
      k \<in> fst ` set (oOwned (os' ! fst (?objs ! c))) \<and> \<not> ended os' (fst (?objs ! c)) \<and>
      (\<forall>k'. map_of (AList.update key (length objs) tbl) k' = Some c \<longrightarrow> k' = k)"
  proof cases
    case new
    have "key \<in> fst ` set (oOwned (os' ! i))" using ch'(4) [OF i(1)] by (simp add: dom_update)
    have "map_of tbl k' \<noteq> Some (length objs)" for k' using table_okD(1) [OF tbl] by blast
    then have "map_of (AList.update key (length objs) tbl) k' = Some c \<Longrightarrow> k' = k" for k'
      unfolding new by (cases "k' = key") (simp_all add: update_conv')
    moreover have "?objs ! c = (i, False)" using new by simp
    ultimately show ?thesis using new i ch'(3) ch'(7) [OF i(1)] \<open>key \<in> fst ` set (oOwned (os' ! i))\<close> by simp
  next
    case old
    note c = table_okD [OF tbl old(2)]
    have "k \<in> fst ` set (oOwned (os' ! fst (objs ! c)))"
      using ch'(4) [OF c(3)] c(4) by (cases "fst (objs ! c) = i") (auto simp: dom_update)
    moreover have "?objs ! c = objs ! c" using c(1) by (simp add: nth_append)
    moreover have "k' = k" if "map_of (AList.update key (length objs) tbl) k' = Some c" for k'
      using that c(1,5) by (cases "k' = key") (simp_all add: update_conv')
    moreover have "\<not> ended os' (fst (objs ! c))" using c(4) ch'(7) [OF c(3)] by simp
    ultimately show ?thesis using c(1-3) ch'(3) by simp
  qed
  then show "c < length ?objs" "\<not> snd (?objs ! c)" "fst (?objs ! c) < length os'"
    "k \<in> {} \<or> k \<in> fst ` set (oOwned (os' ! fst (?objs ! c))) \<and> \<not> ended os' (fst (?objs ! c))"
    "map_of (AList.update key (length objs) tbl) k' = Some c \<Longrightarrow> k' = k" for k' by blast+
qed

lemma table_kept:
  assumes tbl: "table_ok {} os tbl objs" and os: "tree_ok os"
    and ch: "owned_changed i (AList.update key v (oOwned (os ! i))) os os'"
  shows "table_ok {} os' tbl objs"
  unfolding table_ok_def
proof (intro conjI allI impI)
  show "distinct (map fst tbl)" using tbl by (simp add: table_ok_def)
  fix k c assume k: "map_of tbl k = Some c"
  note c = table_okD [OF tbl k] and ch' = owned_changedD [OF ch] owned_changed_ended [OF ch os]
  show "c < length objs" "\<not> snd (objs ! c)" "fst (objs ! c) < length os'" using c(1-3) ch'(3) by simp_all
  show "map_of tbl k' = Some c \<Longrightarrow> k' = k" for k' by (rule c(5))
  show "k \<in> {} \<or> k \<in> fst ` set (oOwned (os' ! fst (objs ! c))) \<and> \<not> ended os' (fst (objs ! c))"
    using c(3,4) ch'(4) [OF c(3)] ch'(7) [OF c(3)] by (auto simp: dom_update)
qed

lemma listed_insert:
  assumes "listed os (us @ (tbl, objs) # vs)" "map_of tbl key = None" "table_ok {} os tbl objs"
    and ch: "owned_changed i (AList.update key v (oOwned (os ! i))) os os'"
  shows "listed os' (us @ (AList.update key (length objs) tbl, objs @ [(i, False)]) # vs)"
  unfolding listed_def
proof (intro allI impI ballI)
  let ?tbl = "AList.update key (length objs) tbl" and ?objs = "objs @ [(i, False)]"
  fix j k assume j: "j < length os'" and k: "k \<in> fst ` set (oOwned (os' ! j))"
  note ch' = owned_changedD [OF ch]
  have j': "j < length os" using j ch'(3) by simp
  show "\<exists>(t, os1) \<in> set (us @ (?tbl, ?objs) # vs). \<exists>c. map_of t k = Some c \<and> fst (os1 ! c) = j"
  proof (cases "j = i \<and> k = key")
    case True
    then show ?thesis by (intro bexI [of _ "(?tbl, ?objs)"]) (auto simp: update_conv')
  next
    case False
    then have "k \<in> fst ` set (oOwned (os ! j))" using k ch'(4) [OF j'] by (auto simp: dom_update split: if_splits)
    then obtain t os1 c where c: "(t, os1) \<in> set (us @ (tbl, objs) # vs)" "map_of t k = Some c" "fst (os1 ! c) = j"
      using assms(1) j' unfolding listed_def by blast
    show ?thesis
    proof (cases "(t, os1) = (tbl, objs)")
      case True
      then have t: "map_of tbl k = Some c" using c by simp
      then have "k \<noteq> key" using assms(2) by auto
      then show ?thesis
        using c True table_okD(1) [OF assms(3) t] by (intro bexI [of _ "(?tbl, ?objs)"]) (auto simp: update_conv' nth_append)
    next
      case False
      then show ?thesis using c by auto
    qed
  qed
qed

lemma record_allocation_owners:
  "\<exists>bs. record_allocation h key imported s = s\<lparr>lvOwners := link_up (length (lvOwners s)) (hState h)
     ((lvOwners s)[hState h := (lvOwners s ! hState h)\<lparr>oOwned := AList.update key imported (oOwned (lvOwners s ! hState h))\<rparr>]),
     lvBatches := bs\<rparr>"
proof (cases "hBatch h")
  case None
  then show ?thesis by (auto simp: record_allocation_def Let_def intro: exI [of _ "lvBatches s"])
next
  case (Some b)
  then show ?thesis
    by (cases "vbActive (lvBatches s ! b)")
      (auto simp: record_allocation_def Let_def intro: exI [of _ "lvBatches s"])
qed

lemma length_update: "map_of xs k = None \<Longrightarrow> length (AList.update k v xs) = Suc (length xs)"
  by (induction xs) (auto split: if_splits)

lemma refuse_ok: "live_refuse c code m s = (r, s') \<Longrightarrow> live_ok_but P s' = live_ok_but P s"
  by (auto simp: live_refuse_def)

lemma Export_ok:
  assumes ok: "live_ok s" and h: "hState h < length (lvOwners s)"
    and run: "Export_live h contract digest f s = (Inr r, s')"
  shows "live_ok s'"
proof -
  note D = live_ok_butD [OF ok]
  let ?key = "lvNonce s @ ''.'' @ int_decimal (lvNext s)" and ?b = "length (lvBindings s)" and ?i = "hState h"
  obtain g where g: "\<not> lvClosed s" "\<not> ended (lvOwners s) ?i" "int (length (lvExports s)) < MaxExports (lvOptions s)"
    "f = Some g"
    using run by (auto simp: Export_live_def live_refuse_def Let_def split: if_splits option.splits)
  let ?s = "s\<lparr>lvNext := lvNext s + 1,
      lvBindings := lvBindings s @ [\<lparr>bOwner = ?i, bContract = contract, bDigest = digest, bInvoke = g, bReleased = False\<rparr>],
      lvExports := AList.update ?key ?b (lvExports s)\<rparr>"
  let ?os = "link_up (length (lvOwners s)) ?i ((lvOwners s)[?i := (lvOwners s ! ?i)\<lparr>oOwned :=
      AList.update ?key False (oOwned (lvOwners s ! ?i))\<rparr>])"
  obtain bs where rec: "record_allocation h ?key False ?s = ?s\<lparr>lvOwners := ?os, lvBatches := bs\<rparr>"
    using record_allocation_owners [of h ?key False ?s] by auto
  have s': "s' = note_live [LiveExported contract ?key] (?s\<lparr>lvOwners := ?os, lvBatches := bs\<rparr>)"
    using run g rec by (simp add: Export_live_def live_refuse_def Let_def split: if_splits)
  have fresh: "map_of (lvExports s) ?key = None"
  proof (rule ccontr)
    assume "map_of (lvExports s) ?key \<noteq> None"
    then have "minted s ?key" using D(10) by (force dest: map_of_SomeD)
    then obtain n where n: "1 \<le> n" "n < lvNext s" "int_decimal n = int_decimal (lvNext s)" by (auto simp: minted_def)
    then show False using int_decimal_inj [of n "lvNext s"] by simp
  qed
  have ch: "owned_changed ?i (AList.update ?key False (oOwned (lvOwners s ! ?i))) (lvOwners s) ?os"
    using record_changed [OF D(2) h g(2)] .
  have len: "length (binding_objs s) = ?b" by (simp add: binding_objs_def)
  have objs: "binding_objs ?s = binding_objs s @ [(?i, False)]" by (simp add: binding_objs_def)
  have "minted ?s k" if "k \<in> fst ` set (AList.update ?key ?b (lvExports s))" for k
  proof -
    have "k = ?key \<or> minted s k" using that D(10) by (auto simp: dom_update)
    moreover have "minted ?s ?key" unfolding minted_def using D(9) by (intro exI [of _ "lvNext s"]) simp
    moreover have "minted s k \<Longrightarrow> minted ?s k" by (fastforce simp: minted_def)
    ultimately show ?thesis by blast
  qed
  then have mint: "\<forall>k \<in> fst ` set (AList.update ?key ?b (lvExports s)). minted ?s k" by blast
  have "live_ok (?s\<lparr>lvOwners := ?os, lvBatches := bs\<rparr>)"
    unfolding live_ok_but_def
    using owners_changed [OF D(1) ch] table_insert [OF D(3,2) fresh h g(2) ch, unfolded len]
      table_kept [OF D(4,2) ch] listed_insert [of "lvOwners s" "[]", simplified, OF D(5) fresh D(3) ch, unfolded len]
      D(7,9) g(1,3) length_update [OF fresh] mint objs
    by (simp add: binding_objs_def attachment_objs_def minted_def)
  then show ?thesis unfolding s' by simp
qed

lemma digestMismatch_Nil [simp]: "\<not> digestMismatch [] d"
  by (simp add: digestMismatch_def)

text \<open>The three ways \<open>attach\<close> leaves the scope.\<close>

lemma attach_state:
  "snd (attach h r contract digest s) =
     (if lvClosed s \<or> ended (lvOwners s) (hState h) \<or> refBinding r \<in> lvGone s \<or> map_of (lvExports s) (refBinding r) \<noteq> None then s
      else case map_of (lvImports s) (refBinding r) of
        Some a \<Rightarrow>
          if atContract (lvAttachments s ! a) = contract \<and> \<not> digestMismatch (atDigest (lvAttachments s ! a)) (refDigest r) \<and>
            \<not> digestMismatch (atDigest (lvAttachments s ! a)) digest \<and> atDigest (lvAttachments s ! a) = []
          then s\<lparr>lvAttachments := (lvAttachments s)[a := (lvAttachments s ! a)\<lparr>atDigest := knownDigest (refDigest r) digest\<rparr>]\<rparr>
          else s
      | None \<Rightarrow>
          if int (length (lvImports s)) \<ge> MaxImports (lvOptions s) then s
          else record_allocation h (refBinding r) True
            (s\<lparr>lvAttachments := lvAttachments s @ [\<lparr>atOwner = hState h, atContract = contract,
                 atDigest = knownDigest (refDigest r) digest, atReleased = False\<rparr>],
               lvImports := AList.update (refBinding r) (length (lvAttachments s)) (lvImports s)\<rparr>))"
  by (cases "map_of (lvExports s) (refBinding r)"; cases "map_of (lvImports s) (refBinding r)")
    (simp_all add: attach_def Let_def)

lemma attach_ok:
  assumes ok: "live_ok s" and h: "hState h < length (lvOwners s)" and run: "attach h r contract digest s = (res, s')"
  shows "live_ok s'"
proof -
  note D = live_ok_butD [OF ok]
  let ?key = "refBinding r" and ?a = "length (lvAttachments s)" and ?i = "hState h"
  let ?s = "s\<lparr>lvAttachments := lvAttachments s @ [\<lparr>atOwner = ?i, atContract = contract,
        atDigest = knownDigest (refDigest r) digest, atReleased = False\<rparr>],
      lvImports := AList.update ?key ?a (lvImports s)\<rparr>"
  consider (same) "s' = s"
    | (digest) a d where "s' = s\<lparr>lvAttachments := (lvAttachments s)[a := (lvAttachments s ! a)\<lparr>atDigest := d\<rparr>]\<rparr>"
    | (new) "\<not> lvClosed s" "\<not> ended (lvOwners s) ?i" "map_of (lvImports s) ?key = None"
        "int (length (lvImports s)) < MaxImports (lvOptions s)" "s' = record_allocation h ?key True ?s"
  proof -
    have s': "s' = snd (attach h r contract digest s)" using run by simp
    show thesis
    proof (cases "lvClosed s \<or> ended (lvOwners s) ?i \<or> ?key \<in> lvGone s \<or> map_of (lvExports s) ?key \<noteq> None")
      case True
      then show thesis using same s' by (simp only: attach_state if_True)
    next
      case False
      note st = s' [unfolded attach_state if_not_P [OF False]]
      show thesis
      proof (cases "map_of (lvImports s) ?key")
        case None
        then show thesis using st same new False by (simp split: if_splits)
      next
        case (Some a)
        then have "s' = s \<or> s' = s\<lparr>lvAttachments := (lvAttachments s)[a := (lvAttachments s ! a)\<lparr>atDigest := knownDigest (refDigest r) digest\<rparr>]\<rparr>"
          using st by (simp split: if_splits)
        then show thesis using same digest by blast
      qed
    qed
  qed
  then show ?thesis
  proof cases
    case same
    then show ?thesis using ok by simp
  next
    case digest
    have "(lvAttachments s')!j = lvAttachments s ! j \<or> j = a \<and> lvAttachments s' ! j = (lvAttachments s ! a)\<lparr>atDigest := d\<rparr>"
      if "j < length (lvAttachments s)" for j
      unfolding digest using that by (cases "j = a") simp_all
    then have "attachment_objs s' = attachment_objs s"
      unfolding attachment_objs_def by (intro nth_equalityI) (fastforce simp: digest)+
    then show ?thesis using ok by (simp add: digest live_ok_but_def minted_def binding_objs_def)
  next
    case new
    let ?os = "link_up (length (lvOwners s)) ?i ((lvOwners s)[?i := (lvOwners s ! ?i)\<lparr>oOwned :=
        AList.update ?key True (oOwned (lvOwners s ! ?i))\<rparr>])"
    obtain bs where s': "s' = ?s\<lparr>lvOwners := ?os, lvBatches := bs\<rparr>"
      using record_allocation_owners [of h ?key True ?s] new(5) by auto
    have ch: "owned_changed ?i (AList.update ?key True (oOwned (lvOwners s ! ?i))) (lvOwners s) ?os"
      using record_changed [OF D(2) h new(2)] .
    have len: "length (attachment_objs s) = ?a" by (simp add: attachment_objs_def)
    have objs: "attachment_objs ?s = attachment_objs s @ [(?i, False)]" by (simp add: attachment_objs_def)
    show ?thesis
      unfolding live_ok_but_def s'
      using owners_changed [OF D(1) ch] table_insert [OF D(4,2) new(3) h new(2) ch, unfolded len]
        table_kept [OF D(3,2) ch] listed_insert [of "lvOwners s" "[(lvExports s, binding_objs s)]", simplified, OF D(5) new(3) D(4) ch, unfolded len]
        D(6,9,10) new(1,4) length_update [OF new(3)] objs
      by (simp add: binding_objs_def attachment_objs_def minted_def)
  qed
qed

lemma Import_ok:
  assumes "live_ok s" "hState h < length (lvOwners s)" "Import_live h r contract digest s = (res, s')"
  shows "live_ok s'"
proof -
  obtain out s1 where a: "attach h r contract digest s = (out, s1)" by fastforce
  have "live_ok s1" using attach_ok [OF assms(1,2) a] .
  then show ?thesis
    using assms(1,3) a by (auto simp: Import_live_def live_refuse_def split: if_splits sum.splits)
qed

section \<open>Batches\<close>

lemma discard_all_ok: "live_ok s \<Longrightarrow> discard_all as s = (ns, s') \<Longrightarrow> live_ok s'"
proof (induction as arbitrary: s ns)
  case (Cons a as)
  show ?case
  proof (cases "current_allocation a s")
    case True
    obtain n s1 where t: "takeRelease (alId a) (alImported a) s = (n, s1)" by fastforce
    have "live_ok s1" using takeRelease_ok [OF Cons.prems(1) t] by simp
    then show ?thesis using Cons.IH Cons.prems(2) True t by (auto split: prod.splits)
  next
    case False
    then show ?thesis using Cons by simp
  qed
qed simp

lemma discard_ok: "live_ok s \<Longrightarrow> live_ok (discard as s)"
  using discard_all_ok by (auto simp: discard_def split: prod.splits)

lemma begin_batch_ok: "live_ok s \<Longrightarrow> begin_batch h s = (res, s') \<Longrightarrow> live_ok s'"
  by (auto simp: begin_batch_def live_refuse_def Let_def split: if_splits)

lemma finish_batch_ok: "live_ok s \<Longrightarrow> finish_batch b committed s = (res, s') \<Longrightarrow> live_ok s'"
proof -
  assume ok: "live_ok s" and run: "finish_batch b committed s = (res, s')"
  obtain bs where "s' = (if committed then s\<lparr>lvBatches := bs\<rparr> else discard res (s\<lparr>lvBatches := bs\<rparr>))"
    using run by (fastforce simp: finish_batch_def Let_def split: option.splits if_splits)
  then show "live_ok s'" using ok discard_ok by simp
qed

section \<open>The steps of a scope\<close>

inductive live_step :: "live_scope \<Rightarrow> live_scope \<Rightarrow> bool" where
  step_root: "Owner_root s = (h, s') \<Longrightarrow> live_step s s'"
| step_child: "hState h < length (lvOwners s) \<Longrightarrow> Child h s = (h', s') \<Longrightarrow> live_step s s'"
| step_export: "hState h < length (lvOwners s) \<Longrightarrow> Export_live h contract digest f s = (exported, s') \<Longrightarrow> live_step s s'"
| step_import: "hState h < length (lvOwners s) \<Longrightarrow> Import_live h r contract digest s = (imported, s') \<Longrightarrow> live_step s s'"
| step_release: "Release_reference r s = (released, s') \<Longrightarrow> live_step s s'"
| step_onRelease: "live_step s (onRelease data s)"
| step_end_owner: "hState h < length (lvOwners s) \<Longrightarrow> live_step s (Owner_release h s)"
| step_end: "live_step s (end_scope s)"
| step_begin: "hState h < length (lvOwners s) \<Longrightarrow> begin_batch h s = (began, s') \<Longrightarrow> live_step s s'"
| step_finish: "finish_batch b committed s = (finished, s') \<Longrightarrow> live_step s s'"
| step_discard: "live_step s (discard allocations s)"
| step_remote: "remote_turn key a s = (sent, s') \<Longrightarrow> live_step s s'"
| step_invoke: "invoke_turn cancelled s = (ticket, s') \<Longrightarrow> live_step s s'"
| step_onInvoke: "onInvoke_turn params s = (answered, s') \<Longrightarrow> live_step s s'"
| step_settle: "live_step s (settle_ticket t s)"

lemma Export_step_ok:
  "live_ok s \<Longrightarrow> hState h < length (lvOwners s) \<Longrightarrow> Export_live h contract digest f s = (res, s') \<Longrightarrow> live_ok s'"
proof (cases res)
  case (Inl e)
  assume "live_ok s" "Export_live h contract digest f s = (res, s')"
  then show ?thesis
    using Inl by (auto simp: Export_live_def live_refuse_def Let_def split: if_splits option.splits)
next
  case (Inr r)
  assume "live_ok s" "hState h < length (lvOwners s)" "Export_live h contract digest f s = (res, s')"
  then show ?thesis using Export_ok Inr by simp
qed

lemma Release_reference_ok: "live_ok s \<Longrightarrow> Release_reference r s = (res, s') \<Longrightarrow> live_ok s'"
  using release_key_ok by (auto simp: Release_reference_def live_refuse_def split: if_splits)

lemma onRelease_ok: "live_ok s \<Longrightarrow> live_ok (onRelease data s)"
  using release_key_ok by (auto simp: onRelease_def split: option.splits)

lemma turns_ok:
  "live_ok s \<Longrightarrow> remote_turn key a s = (sent, s') \<Longrightarrow> live_ok s'"
  "live_ok s \<Longrightarrow> invoke_turn cancelled s = (ticket, s') \<Longrightarrow> live_ok s'"
  "live_ok s \<Longrightarrow> onInvoke_turn params s = (answered, s') \<Longrightarrow> live_ok s'"
  by (auto simp: remote_turn_def invoke_turn_def onInvoke_turn_def take_ticket_def live_refuse_def Let_def
      split: if_splits option.splits)

lemma settle_ok: "live_ok s \<Longrightarrow> live_ok (settle_ticket t s)"
  by (simp add: settle_ticket_def)

lemma live_step_ok: "live_step s s' \<Longrightarrow> live_ok s \<Longrightarrow> live_ok s'"
  by (induction rule: live_step.induct)
    (blast intro: Owner_root_ok Child_ok Export_step_ok Import_ok Release_reference_ok onRelease_ok Owner_release_ok
      end_scope_ok begin_batch_ok finish_batch_ok discard_ok turns_ok settle_ok)+

lemma Over_ok: "Over ident nonce options = Some s \<Longrightarrow> live_ok s"
proof -
  assume "Over ident nonce options = Some s"
  then obtain o' where o': "live_normalized options = Some o'" and s: "lvOptions s = o'" "lvOwner s = None" "lvOwners s = []"
    "lvExports s = []" "lvImports s = []" "lvNext s = 1"
    by (auto simp: Over_def)
  have "0 \<le> MaxExports o'" "0 \<le> MaxImports o'" using o' by (auto simp: live_normalized_def split: if_splits)
  then show "live_ok s" by (simp add: live_ok_but_def owners_ok_def tree_ok_def table_ok_def listed_def s)
qed

definition live_start :: "live_scope \<Rightarrow> bool" where
  "live_start s \<longleftrightarrow> (\<exists>ident nonce options. Over ident nonce options = Some s)"

interpretation scope: invariant live_start live_step live_ok
  by unfold_locales (auto simp: live_start_def intro: Over_ok live_step_ok)

end
