(* ===== verification/Live_Spec.thy ===== *)
theory Live_Spec
  imports Live_Inv
begin

text \<open>
  The properties of the live scope.  The concrete scope of the witnesses has the nonce \<open>n\<close> and room
  for two exports and two imports.
\<close>

definition demo_scope :: live_scope where
  "demo_scope = \<lparr>lvId = 7, lvOptions = \<lparr>MaxExports = 2, MaxImports = 2\<rparr>, lvNonce = ''n'', lvNext = 1, lvClosed = False,
     lvExports = [], lvImports = [], lvGone = {}, lvOrder = [], lvInflight = [], lvCall = 0, lvOwner = None, lvOwners = [],
     lvBindings = [], lvAttachments = [], lvBatches = [], lvLog = []\<rparr>"

lemma demo_scope_start: "live_start demo_scope"
  by (auto simp: live_start_def demo_scope_def Over_def live_normalized_def
      intro!: exI [of _ 7] exI [of _ "''n''"] exI [of _ "\<lparr>MaxExports = 2, MaxImports = 2\<rparr>"])

definition demo_rooted :: live_scope where
  "demo_rooted = snd (Owner_root demo_scope)"

definition demo_first :: owner_handle where "demo_first = \<lparr>hState = 1, hBatch = None\<rparr>"
definition demo_second :: owner_handle where "demo_second = \<lparr>hState = 2, hBatch = None\<rparr>"

text \<open>The root with two children.\<close>

definition demo_family :: live_scope where
  "demo_family = snd (Child \<lparr>hState = 0, hBatch = None\<rparr> (snd (Child \<lparr>hState = 0, hBatch = None\<rparr> demo_rooted)))"

lemmas demo_live_defs = demo_scope_def demo_rooted_def demo_family_def demo_first_def demo_second_def Owner_root_def Child_def

lemma demo_family_reached: "reachable live_start live_step demo_family"
proof -
  have "live_step demo_scope demo_rooted"
    unfolding demo_rooted_def by (rule step_root [OF prod.collapse [symmetric]])
  moreover have "live_step demo_rooted (snd (Child \<lparr>hState = 0, hBatch = None\<rparr> demo_rooted))"
    by (rule step_child [OF _ prod.collapse [symmetric]]) (simp add: demo_live_defs)
  moreover have "live_step (snd (Child \<lparr>hState = 0, hBatch = None\<rparr> demo_rooted)) demo_family"
    unfolding demo_family_def by (rule step_child [OF _ prod.collapse [symmetric]]) (simp add: demo_live_defs)
  ultimately show ?thesis
    using reachable_start [of live_start demo_scope live_step, OF demo_scope_start] by (blast intro: reachable_step)
qed

text \<open>A reference to the id the scope will mint next, as anyone may spell it.\<close>

definition demo_guess :: reference where
  "demo_guess = \<lparr>refBinding = ''n.1'', refContract = ''c'', refDigest = [], refScope = Some 7\<rparr>"

definition demo_imported :: live_scope where
  "demo_imported = snd (Import_live demo_first demo_guess ''c'' [] demo_family)"

definition demo_exported :: live_scope where
  "demo_exported = snd (Export_live demo_second ''c'' [] (Some (Native 5)) demo_imported)"

definition demo_plain :: live_scope where
  "demo_plain = snd (Export_live demo_second ''c'' [] (Some (Native 5)) demo_family)"

lemma demo_run:
  "Decode_reference (Some (''n.1'', ''c'', None)) demo_family = Inr demo_guess"
  "fst (Import_live demo_first demo_guess ''c'' [] demo_family) = Inr (RemoteTo ''n.1'' 0)"
  "fst (Export_live demo_second ''c'' [] (Some (Native 5)) demo_imported) = Inr demo_guess"
  "onInvoke_turn (Some (''n.1'', ''c'')) demo_exported = (Inr (Native 5), demo_exported)"
  "hState demo_first < length (lvOwners demo_family)" "hState demo_second < length (lvOwners demo_family)"
  "ended (lvOwners (Owner_release demo_first demo_exported)) (hState demo_second) = False"
  "map_option leCode (case fst (onInvoke_turn (Some (''n.1'', ''c'')) (Owner_release demo_first demo_exported)) of
     Inl e \<Rightarrow> Some e | Inr f \<Rightarrow> None) = Some ReferenceIsUnknown"
  by code_simp+

lemma demo_plain_run:
  "map_of (lvExports demo_plain) ''n.1'' = Some 0" "lvClosed demo_plain = False"
  "onInvoke_turn (Some (''n.1'', ''c'')) demo_plain = (Inr (Native 5), demo_plain)"
  "oOwned (lvOwners demo_plain ! 2) = [(''n.1'', False)]" "bOwner (lvBindings demo_plain ! 0) = 2"
  by code_simp+

lemma demo_plain_reached: "reachable live_start live_step demo_plain"
  using demo_family_reached step_export [OF demo_run(6) prod.collapse [symmetric]]
  unfolding demo_plain_def by (rule reachable_step)

lemma demo_exported_reached: "reachable live_start live_step demo_exported"
proof -
  have "reachable live_start live_step demo_imported"
    using demo_family_reached step_import [OF demo_run(5) prod.collapse [symmetric]]
    unfolding demo_imported_def by (rule reachable_step)
  moreover have "hState demo_second < length (lvOwners demo_imported)" by code_simp
  ultimately show ?thesis
    using step_export [OF _ prod.collapse [symmetric]] unfolding demo_exported_def by (blast intro: reachable_step)
qed

section \<open>Bookkeeping\<close>

lemma exports_held:
  assumes "live_ok s" "map_of (lvExports s) key = Some b"
  shows "b < length (lvBindings s) \<and> \<not> bReleased (lvBindings s ! b) \<and>
    bOwner (lvBindings s ! b) < length (lvOwners s) \<and> \<not> ended (lvOwners s) (bOwner (lvBindings s ! b)) \<and>
    key \<in> fst ` set (oOwned (lvOwners s ! bOwner (lvBindings s ! b)))"
proof -
  note t = table_okD [OF live_ok_butD(3) [OF assms(1)] assms(2)]
  have "b < length (lvBindings s)" using t(1) by (simp add: binding_objs_def)
  then show ?thesis using t(2-4) by (simp add: binding_objs_def)
qed

lemma imports_held:
  assumes "live_ok s" "map_of (lvImports s) key = Some a"
  shows "a < length (lvAttachments s) \<and> \<not> atReleased (lvAttachments s ! a) \<and>
    atOwner (lvAttachments s ! a) < length (lvOwners s) \<and> \<not> ended (lvOwners s) (atOwner (lvAttachments s ! a)) \<and>
    key \<in> fst ` set (oOwned (lvOwners s ! atOwner (lvAttachments s ! a)))"
proof -
  note t = table_okD [OF live_ok_butD(4) [OF assms(1)] assms(2)]
  have "a < length (lvAttachments s)" using t(1) by (simp add: attachment_objs_def)
  then show ?thesis using t(2-4) by (simp add: attachment_objs_def)
qed

lemma owned_held:
  assumes "live_ok s" "i < length (lvOwners s)" "key \<in> fst ` set (oOwned (lvOwners s ! i))"
  shows "(\<exists>b. map_of (lvExports s) key = Some b \<and> bOwner (lvBindings s ! b) = i) \<or>
    (\<exists>a. map_of (lvImports s) key = Some a \<and> atOwner (lvAttachments s ! a) = i)"
proof -
  consider b where "map_of (lvExports s) key = Some b" "fst (binding_objs s ! b) = i"
    | a where "map_of (lvImports s) key = Some a" "fst (attachment_objs s ! a) = i"
    using live_ok_butD(5) [OF assms(1)] assms(2,3) unfolding listed_def by fastforce
  then show ?thesis
  proof cases
    case 1
    then show ?thesis using exports_held [OF assms(1) 1(1)] by (auto simp: binding_objs_def)
  next
    case 2
    then show ?thesis using imports_held [OF assms(1) 2(1)] by (auto simp: attachment_objs_def)
  qed
qed

text \<open>C24: Whatever is exported, imported, released and ended, and in which order, a scope's tables
  and its tree of owners agree: no table outgrows its bound; whatever a table holds is not released
  and belongs to an owner that did not end and that lists it; whatever an owner lists is in a table
  under its name; an owner that was released, or an ancestor of which was, owns nothing; and a
  closed scope holds nothing.\<close>

theorem live_bookkeeping:
  assumes "reachable live_start live_step s"
  shows "int (length (lvExports s)) \<le> MaxExports (lvOptions s) \<and> int (length (lvImports s)) \<le> MaxImports (lvOptions s) \<and>
    (\<forall>key b. map_of (lvExports s) key = Some b \<longrightarrow> b < length (lvBindings s) \<and> \<not> bReleased (lvBindings s ! b) \<and>
       bOwner (lvBindings s ! b) < length (lvOwners s) \<and> \<not> ended (lvOwners s) (bOwner (lvBindings s ! b)) \<and>
       key \<in> fst ` set (oOwned (lvOwners s ! bOwner (lvBindings s ! b)))) \<and>
    (\<forall>key a. map_of (lvImports s) key = Some a \<longrightarrow> a < length (lvAttachments s) \<and> \<not> atReleased (lvAttachments s ! a) \<and>
       atOwner (lvAttachments s ! a) < length (lvOwners s) \<and> \<not> ended (lvOwners s) (atOwner (lvAttachments s ! a)) \<and>
       key \<in> fst ` set (oOwned (lvOwners s ! atOwner (lvAttachments s ! a)))) \<and>
    (\<forall>i < length (lvOwners s). \<forall>key \<in> fst ` set (oOwned (lvOwners s ! i)).
       (\<exists>b. map_of (lvExports s) key = Some b \<and> bOwner (lvBindings s ! b) = i) \<or>
       (\<exists>a. map_of (lvImports s) key = Some a \<and> atOwner (lvAttachments s ! a) = i)) \<and>
    (\<forall>i < length (lvOwners s). ended (lvOwners s) i \<longrightarrow> oOwned (lvOwners s ! i) = []) \<and>
    (lvClosed s \<longrightarrow> lvExports s = [] \<and> lvImports s = [])"
proof -
  note ok = scope.always [OF assms]
  note D = live_ok_butD [OF ok]
  have "oOwned (lvOwners s ! i) = []" if "i < length (lvOwners s)" "ended (lvOwners s) i" for i
    using D(1) that by (simp add: owners_ok_def holds_any_def)
  then show ?thesis using D(6-8) exports_held [OF ok] imports_held [OF ok] owned_held [OF ok] by blast
qed

theorem live_bookkeeping_witness:
  "\<not> ended (lvOwners demo_plain) 2 \<and> \<not> bReleased (lvBindings demo_plain ! 0)"
proof -
  have "bOwner (lvBindings demo_plain ! 0) = 2" "map_of (lvExports demo_plain) ''n.1'' = Some 0" by (fact demo_plain_run)+
  moreover from this(2) live_bookkeeping [OF demo_plain_reached] have
    "\<not> bReleased (lvBindings demo_plain ! 0)" "\<not> ended (lvOwners demo_plain) (bOwner (lvBindings demo_plain ! 0))"
    by blast+
  ultimately show ?thesis by simp
qed

section \<open>Released bindings\<close>

lemma takeRelease_export:
  assumes "takeRelease key tell s = (n, s')" "\<not> lvClosed s" "map_of (lvExports s) key = Some b" "b < length (lvBindings s)"
  shows "\<not> lvClosed s' \<and> map_of (lvExports s') key = None \<and> bReleased (lvBindings s' ! b)"
proof -
  obtain c1 s1 where e: "take_export key s = (c1, s1)" by fastforce
  obtain c2 s2 where i: "take_import key s1 = (c2, s2)" by fastforce
  have s1: "\<not> lvClosed s1 \<and> map_of (lvExports s1) key = None \<and> bReleased (lvBindings s1 ! b)"
    using e assms(2-4) by (auto simp: take_export_def Let_def delete_conv')
  have "lvClosed s2 = lvClosed s1" "lvExports s2 = lvExports s1" "lvBindings s2 = lvBindings s1"
    using i by (auto simp: take_import_def Let_def split: option.splits)
  moreover have "lvClosed s' = lvClosed s2 \<and> lvExports s' = lvExports s2 \<and> lvBindings s' = lvBindings s2"
    using assms(1,2) e i by (auto simp: takeRelease_def Let_def split: prod.splits if_splits)
  ultimately show ?thesis using s1 by simp
qed

text \<open>Once a binding is released it is gone from the table, so the other side's next invocation
  is refused as unknown, and a call held here is refused as released.  In no reachable state does
  \<open>onInvoke\<close> answer \<open>reference_released\<close>.\<close>

theorem released_is_unknown:
  fixes r :: reference
  assumes "reachable live_start live_step s"
  shows "(\<forall>params e. fst (onInvoke_turn params s) = Inl e \<longrightarrow> leCode e \<noteq> ReferenceReleased) \<and>
    (\<forall>r b contract. map_of (lvExports s) (refBinding r) = Some b \<longrightarrow> refScope r = Some (lvId s) \<longrightarrow> contract \<noteq> [] \<longrightarrow>
       (\<exists>s'. Release_reference (r :: reference) s = (Inr (), s') \<and>
         (\<exists>e. fst (onInvoke_turn (Some (refBinding r, contract)) s') = Inl e \<and> leCode e = ReferenceIsUnknown) \<and>
         (\<exists>e. local_turn b s' = Inl e \<and> leCode e = ReferenceReleased)))"
proof (intro conjI allI impI)
  note ok = scope.always [OF assms] and D = live_ok_butD [OF scope.always [OF assms]]
  show "leCode e \<noteq> ReferenceReleased" if "fst (onInvoke_turn params s) = Inl e" for params e
    using that exports_held [OF ok] by (auto simp: onInvoke_turn_def live_refuse_def Let_def split: option.splits if_splits)
  fix r :: reference and b and contract :: string
  assume at: "map_of (lvExports s) (refBinding r) = Some b" and scope: "refScope r = Some (lvId s)" and contract: "contract \<noteq> []"
  let ?key = "refBinding r"
  have "minted s ?key" using D(10) map_of_SomeD [OF at] by force
  then have key: "?key \<noteq> []" by (auto simp: minted_def)
  obtain n s1 where t: "takeRelease ?key True s = (n, s1)" by fastforce
  have "\<not> lvClosed s" using D(8) at by auto
  then have s1: "\<not> lvClosed s1" "map_of (lvExports s1) ?key = None" "bReleased (lvBindings s1 ! b)"
    using takeRelease_export [OF t _ at] exports_held [OF ok at] by simp_all
  let ?s = "notifyRelease n s1"
  have "Release_reference r s = (Inr (), ?s)" using scope t by (simp add: Release_reference_def release_key_def)
  moreover have "\<exists>e. fst (onInvoke_turn (Some (?key, contract)) ?s) = Inl e \<and> leCode e = ReferenceIsUnknown"
    using key contract s1 by (simp add: onInvoke_turn_def live_refuse_def notifyRelease_def note_live_def)
  moreover have "\<exists>e. local_turn b ?s = Inl e \<and> leCode e = ReferenceReleased"
    using s1 by (simp add: local_turn_def notifyRelease_def note_live_def)
  ultimately show "\<exists>s'. Release_reference r s = (Inr (), s') \<and>
      (\<exists>e. fst (onInvoke_turn (Some (?key, contract)) s') = Inl e \<and> leCode e = ReferenceIsUnknown) \<and>
      (\<exists>e. local_turn b s' = Inl e \<and> leCode e = ReferenceReleased)" by blast
qed

theorem released_is_unknown_witness:
  "\<exists>s'. Release_reference demo_guess demo_plain = (Inr (), s') \<and>
     (\<exists>e. fst (onInvoke_turn (Some (''n.1'', ''c'')) s') = Inl e \<and> leCode e = ReferenceIsUnknown)"
proof -
  have "map_of (lvExports demo_plain) (refBinding demo_guess) = Some 0" "refScope demo_guess = Some (lvId demo_plain)"
    "refBinding demo_guess = ''n.1''" by code_simp+
  then show ?thesis using conjunct2 [OF released_is_unknown [OF demo_plain_reached]] by (metis list.distinct(1))
qed

section \<open>A guessed id\<close>

text \<open>C25: An id can be imported before it is minted.  The ids of exports are predictable, \<open>Decode\<close>
  and \<open>Import\<close> accept a reference to one that this side has not exported yet, and a later export
  then shares the id with the attachment: releasing the owner of the attachment revokes the export,
  whose owner is another one, not released, and no descendant of it.\<close>

theorem early_import_revokes_export:
  "\<exists>s importer exporter r. reachable live_start live_step s \<and>
     Decode_reference (Some (refBinding r, refContract r, None)) s = Inr r \<and>
     hState importer < length (lvOwners s) \<and> hState exporter < length (lvOwners s) \<and>
     (\<exists>f s1 s2. Import_live importer r (refContract r) [] s = (Inr f, s1) \<and>
        Export_live exporter (refContract r) [] (Some (Native 5)) s1 = (Inr r, s2) \<and>
        onInvoke_turn (Some (refBinding r, refContract r)) s2 = (Inr (Native 5), s2) \<and>
        \<not> ended (lvOwners (Owner_release importer s2)) (hState exporter) \<and>
        (\<exists>e. fst (onInvoke_turn (Some (refBinding r, refContract r)) (Owner_release importer s2)) = Inl e \<and>
           leCode e = ReferenceIsUnknown))"
proof -
  have guess: "refBinding demo_guess = ''n.1''" "refContract demo_guess = ''c''" by (simp_all add: demo_guess_def)
  have "Import_live demo_first demo_guess ''c'' [] demo_family = (Inr (RemoteTo ''n.1'' 0), demo_imported)"
    "Export_live demo_second ''c'' [] (Some (Native 5)) demo_imported = (Inr demo_guess, demo_exported)"
    using demo_run(2,3) by (simp_all add: demo_imported_def demo_exported_def prod_eq_iff)
  moreover have "\<exists>e. fst (onInvoke_turn (Some (''n.1'', ''c'')) (Owner_release demo_first demo_exported)) = Inl e \<and>
      leCode e = ReferenceIsUnknown"
    using demo_run(8) by (auto split: sum.splits)
  ultimately show ?thesis
    using demo_family_reached demo_run(1,4-7)
    apply -
    apply (rule exI [of _ demo_family], rule exI [of _ demo_first], rule exI [of _ demo_second], rule exI [of _ demo_guess])
    unfolding guess by blast
qed

end
