(* ===== verification/Duplex_Path.thy ===== *)
theory Duplex_Path
  imports Codec Utf8 Decimal
begin

text \<open>
  \<open>duplex/go/wire.go\<close>: the encoding of a wire path, a sequence of length-prefixed segments.  One
  segment is a field of a canonical encoding (the locale of \<open>Codec\<close>); the path is as many of them
  as there are.
\<close>

definition encode_segment :: "string \<Rightarrow> string" where
  "encode_segment segment = int_decimal (int (length segment)) @ CHR '':'' # segment"

text \<open>The loop of \<open>EncodePath\<close> over the segments, and \<open>ErrPath\<close> as \<open>None\<close>.\<close>

fun EncodePath :: "string list \<Rightarrow> string option" where
  "EncodePath [] = Some []"
| "EncodePath (segment # path) =
     (if \<not> valid_utf8 segment then None
      else map_option (\<lambda>encoded. encode_segment segment @ encoded) (EncodePath path))"

text \<open>One turn of the loop of \<open>DecodePath\<close>: the segment and the rest of the text.\<close>

definition decode_segment :: "string \<Rightarrow> (string \<times> string) option" where
  "decode_segment encoded =
     (case index_byte encoded CHR '':'' of
        None \<Rightarrow> None
      | Some colon \<Rightarrow>
          if colon = 0 then None
          else let digits = take colon encoded in
          if length digits > 1 \<and> digits ! 0 = CHR ''0'' then None
          else if \<not> list_all is_digit digits then None
          else let encoded = drop (colon + 1) encoded in
            (case parse_uint64 digits of
               None \<Rightarrow> None
             | Some n \<Rightarrow>
                 if n > length encoded then None
                 else if \<not> valid_utf8 (take n encoded) then None
                 else Some (take n encoded, drop n encoded)))"

lemma decode_segment_shrinks: "decode_segment encoded = Some (segment, rest) \<Longrightarrow> length rest < length encoded"
  by (auto simp: decode_segment_def Let_def index_byte_Some split: option.splits if_splits)

function DecodePath :: "string \<Rightarrow> string list option" where
  "DecodePath encoded =
     (if encoded = [] then Some []
      else case decode_segment encoded of
        None \<Rightarrow> None
      | Some (segment, rest) \<Rightarrow> map_option (\<lambda>path. segment # path) (DecodePath rest))"
  by pat_completeness auto
termination
  by (relation "measure length") (auto dest: decode_segment_shrinks)

declare DecodePath.simps [simp del]

definition segment_ok :: "string \<Rightarrow> bool" where
  "segment_ok segment \<longleftrightarrow> valid_utf8 segment \<and> length segment < 2 ^ 64"

lemma no_colon_decimal: "CHR '':'' \<notin> set (nat_decimal n)"
proof -
  have "\<not> is_digit CHR '':''" by code_simp
  then show ?thesis using nat_decimal_digits [of n] by (auto simp: list_all_iff)
qed

interpretation segment: prefix_codec encode_segment decode_segment segment_ok
proof
  fix x r :: string
  assume ok: "segment_ok x"
  let ?d = "nat_decimal (length x)"
  have parse: "parse_uint64 ?d = Some (length x)" "\<not> (length ?d > 1 \<and> ?d ! 0 = CHR ''0'')"
    using parse_uint64_canonical [of ?d "length x"] ok by (auto simp: segment_ok_def)
  have "encode_segment x @ r = ?d @ CHR '':'' # x @ r" by (simp add: encode_segment_def int_decimal_def)
  moreover have "index_byte (?d @ CHR '':'' # x @ r) CHR '':'' = Some (length ?d)"
    using no_colon_decimal by (rule index_byte_append)
  ultimately show "decode_segment (encode_segment x @ r) = Some (x, r)"
    using parse ok by (simp add: decode_segment_def Let_def nat_decimal_digits segment_ok_def)
next
  fix b r x
  assume "decode_segment b = Some (x, r)"
  then obtain colon n where at: "index_byte b CHR '':'' = Some colon"
    and digits: "\<not> (length (take colon b) > 1 \<and> take colon b ! 0 = CHR ''0'')"
    and n: "parse_uint64 (take colon b) = Some n" "n \<le> length (drop (colon + 1) b)"
    and x: "valid_utf8 x" "x = take n (drop (colon + 1) b)" "r = drop n (drop (colon + 1) b)"
    by (auto simp: decode_segment_def Let_def split: option.splits if_splits)
  have "take colon b = nat_decimal n \<and> n < 2 ^ 64" using parse_uint64_canonical [of "take colon b" n] n digits by blast
  moreover have "length x = n" using x(2) n(2) by simp
  moreover have "x @ r = drop (Suc colon) b" using x(2,3) by (simp only: append_take_drop_id Suc_eq_plus1)
  then have "b = take colon b @ CHR '':'' # x @ r" using index_byte_split [OF at] by simp
  ultimately show "segment_ok x \<and> b = encode_segment x @ r"
    using x(1) by (simp add: segment_ok_def encode_segment_def int_decimal_def)
qed

lemma EncodePath_Some:
  "EncodePath path = Some encoded \<longleftrightarrow>
     list_all valid_utf8 path \<and> encoded = concat (map encode_segment path)"
  by (induction path arbitrary: encoded) auto

lemma DecodePath_Some:
  "DecodePath encoded = Some path \<longleftrightarrow>
     list_all segment_ok path \<and> encoded = concat (map encode_segment path)"
proof (induction encoded arbitrary: path rule: DecodePath.induct)
  case (1 encoded)
  show ?case
  proof (cases "encoded = []")
    case True
    have "encode_segment x \<noteq> []" for x by (simp add: encode_segment_def)
    then show ?thesis using True by (cases path) (simp_all add: DecodePath.simps)
  next
    case False
    show ?thesis
    proof
      assume "DecodePath encoded = Some path"
      then obtain x rest path' where d: "decode_segment encoded = Some (x, rest)" "DecodePath rest = Some path'" "path = x # path'"
        using False by (subst (asm) DecodePath.simps) (auto split: option.splits)
      then show "list_all segment_ok path \<and> encoded = concat (map encode_segment path)"
        using 1 [OF False d(1) refl] segment.enc_dec [OF d(1)] by simp
    next
      assume a: "list_all segment_ok path \<and> encoded = concat (map encode_segment path)"
      then obtain x path' where path: "path = x # path'" using False by (cases path) auto
      have d: "decode_segment encoded = Some (x, concat (map encode_segment path'))"
        using a by (simp add: path segment.dec_enc)
      then show "DecodePath encoded = Some path"
        using 1 [OF False d refl, of path'] a False by (subst DecodePath.simps) (simp add: path)
    qed
  qed
qed

text \<open>C26: Decoding a path accepts exactly what encoding makes of one: a text decodes to a path when
  and only when the path's segments are UTF-8 whose length fits in 64 bits and encoding the path
  makes that text.  So different paths have different encodings, and no path has two.\<close>

theorem path_encoding_is_canonical:
  "DecodePath encoded = Some path \<longleftrightarrow>
     EncodePath path = Some encoded \<and> list_all (\<lambda>segment. length segment < 2 ^ 64) path"
  by (auto simp: DecodePath_Some EncodePath_Some segment_ok_def list_all_iff)

end
