(* ===== verification/Duplex_Wire.thy ===== *)
theory Duplex_Wire
  imports Duplex_Path
begin

text \<open>
  The send side of \<open>duplex/go/wire.go\<close>, \<open>through.go\<close> and \<open>declared.go\<close>: what a \<open>Send\<close> on a
  composed wire hands to which borrowed wire.  A borrowed wire is somebody else's \<open>bitwire.Wire\<close> and
  a number here; the mutable part of a mount or a \<open>Through\<close>, whether it is closed, is asked by its
  own number.  Every composition delegates a message once, unchanged, so the message is left out.
\<close>

datatype duplex_error = WireClosed | ErrPath | ErrNoRoute | ErrReceiverExists | ErrDeclaredValue | ErrDeclaredChildExists

text \<open>A wire, nil in Go where a child is \<open>None\<close>; the zero \<open>Declared\<close> has no node.\<close>

datatype wire =
    Borrowed nat
  | Selected wire "string list"
  | Mounted nat "(string \<times> wire option) list"
  | Through_wire nat wire
  | Bound "(wire \<times> (string \<times> wire) list) option"

definition At :: "wire \<Rightarrow> string list \<Rightarrow> wire" where
  "At root path = Selected root path"

definition selected_path :: "string list \<Rightarrow> string list \<Rightarrow> string list" where
  "selected_path selected path = selected @ path"

text \<open>The checks of a mount's \<open>destination\<close>, up to the lookup of the child.\<close>

definition mount_key :: "bool \<Rightarrow> string list \<Rightarrow> duplex_error + string" where
  "mount_key closed path =
     (if closed then Inl WireClosed
      else case path of
        [] \<Rightarrow> Inl ErrNoRoute
      | key # rest \<Rightarrow> if EncodePath path = None then Inl ErrPath else Inr key)"

definition destination :: "bool \<Rightarrow> (string \<times> wire option) list \<Rightarrow> string list \<Rightarrow> duplex_error + wire" where
  "destination closed children path =
     (case mount_key closed path of
        Inl e \<Rightarrow> Inl e
      | Inr key \<Rightarrow> (case map_of children key of Some (Some child) \<Rightarrow> Inr child | _ \<Rightarrow> Inl ErrNoRoute))"

text \<open>Which child of a declared node a path leads to: \<open>None\<close> is its origin.\<close>

definition declared_child :: "(string \<times> wire) list \<Rightarrow> string list \<Rightarrow> duplex_error + wire option" where
  "declared_child children path =
     (if EncodePath path = None then Inl ErrPath
      else case path of
        [] \<Rightarrow> Inr None
      | key # rest \<Rightarrow> (case map_of children key of None \<Rightarrow> Inl ErrNoRoute | Some child \<Rightarrow> Inr (Some child)))"

lemma size_child: "map_of children key = Some (Some child) \<Longrightarrow> size child < size (Mounted i children)"
  by (induction children) (auto split: if_splits)

lemma size_declared_child: "map_of children key = Some child \<Longrightarrow> size child < size (Bound (Some (origin, children)))"
  by (induction children) (auto split: if_splits)

lemma destination_size: "destination closed children path = Inr child \<Longrightarrow> size child < size (Mounted i children)"
  by (auto simp: destination_def split: sum.splits option.splits dest: size_child)

lemma declared_child_size: "declared_child children path = Inr (Some child) \<Longrightarrow> size child < size (Bound (Some (origin, children)))"
  by (auto simp: declared_child_def split: list.splits option.splits if_splits dest: size_declared_child)

function Send :: "(nat \<Rightarrow> bool) \<Rightarrow> wire \<Rightarrow> string list \<Rightarrow> duplex_error + (nat \<times> string list)" where
  "Send closed (Borrowed i) path = Inr (i, path)"
| "Send closed (Selected root selected) path = Send closed root (selected_path selected path)"
| "Send closed (Mounted i children) path =
     (case destination (closed i) children path of Inl e \<Rightarrow> Inl e | Inr child \<Rightarrow> Send closed child (tl path))"
| "Send closed (Through_wire i access) path = (if closed i then Inl WireClosed else Send closed access path)"
| "Send closed (Bound node) path =
     (case node of
        None \<Rightarrow> Inl ErrDeclaredValue
      | Some (origin, children) \<Rightarrow>
          (case declared_child children path of
             Inl e \<Rightarrow> Inl e
           | Inr None \<Rightarrow> Send closed origin []
           | Inr (Some child) \<Rightarrow> Send closed child (tl path)))"
  by pat_completeness auto
termination
  by (relation "measure (\<lambda>(closed, w, path). size w)") (auto dest: destination_size declared_child_size)

section \<open>Declared composition\<close>

type_synonym declared_node = "wire \<times> (string \<times> wire) list"

fun compose_children :: "(string \<times> wire option) list \<Rightarrow> (string \<times> wire) list \<Rightarrow> duplex_error + (string \<times> wire) list" where
  "compose_children [] routes = Inr routes"
| "compose_children ((key, child) # children) routes =
     (if EncodePath [key] = None then Inl ErrPath
      else case child of
        None \<Rightarrow> Inl ErrDeclaredValue
      | Some w \<Rightarrow>
          if map_of routes key \<noteq> None then Inl ErrDeclaredChildExists
          else compose_children children (routes @ [(key, w)]))"

definition ComposeDeclared :: "wire option \<Rightarrow> (string \<times> wire option) list \<Rightarrow> duplex_error + declared_node" where
  "ComposeDeclared origin children =
     (case origin of
        None \<Rightarrow> Inl ErrDeclaredValue
      | Some origin \<Rightarrow>
          (case compose_children children [] of Inl e \<Rightarrow> Inl e | Inr routes \<Rightarrow> Inr (origin, routes)))"

definition Decompose :: "declared_node option \<Rightarrow> wire option \<times> (string \<times> wire) list" where
  "Decompose d =
     (case d of
        None \<Rightarrow> (None, [])
      | Some (origin, children) \<Rightarrow> (Some origin, map (\<lambda>key. (key, the (map_of children key))) (sort (map fst children))))"

definition Bind_declared :: "declared_node option \<Rightarrow> wire" where
  "Bind_declared d = Bound d"

lemma EncodePath_key: "EncodePath [key] = None \<longleftrightarrow> \<not> valid_utf8 key"
  by simp

lemma compose_children_Inr:
  "compose_children children routes = Inr out \<longleftrightarrow>
     (\<forall>(key, child) \<in> set children. valid_utf8 key \<and> child \<noteq> None) \<and> distinct (map fst children) \<and>
     fst ` set routes \<inter> fst ` set children = {} \<and> out = routes @ map (\<lambda>(key, child). (key, the child)) children"
proof (induction children routes arbitrary: out rule: compose_children.induct)
  case (2 key child children routes)
  show ?case
  proof (cases "valid_utf8 key \<and> child \<noteq> None \<and> map_of routes key = None")
    case True
    then obtain w where w: "child = Some w" by auto
    have "key \<notin> fst ` set routes" using True by (simp add: map_of_eq_None_iff)
    then show ?thesis using 2 [of w out] True w by (auto simp: EncodePath_key)
  next
    case False
    then show ?thesis by (auto simp: EncodePath_key map_of_eq_None_iff split: option.splits)
  qed
qed auto

lemma sort_fst:
  assumes "distinct (map fst kvs)"
  shows "distinct (map fst (sort_key fst kvs))" "map_of (sort_key fst kvs) = map_of kvs"
    "sort (map fst kvs) = map fst (sort_key fst kvs)"
proof -
  show d: "distinct (map fst (sort_key fst kvs))" using assms by (simp add: distinct_map)
  show "map_of (sort_key fst kvs) = map_of kvs"
    by (rule map_of_eqI) (use assms d in \<open>auto intro!: map_of_is_SomeI\<close>)
  show "sort (map fst kvs) = map fst (sort_key fst kvs)"
    by (rule sorted_distinct_set_unique) (use assms d in simp_all)
qed

lemma Decompose_lists:
  assumes "distinct (map fst children)"
  shows "Decompose (Some (origin, children)) = (Some origin, sort_key fst children)"
proof -
  have "(fst kv, the (map_of children (fst kv))) = kv" if "kv \<in> set children" for kv
    by (metis assms map_of_is_SomeI option.sel prod.collapse that)
  then show ?thesis by (auto simp: Decompose_def sort_fst(3) [OF assms] comp_def intro: map_idI)
qed

lemma lookup_entries:
  assumes "\<forall>(key, child) \<in> set children. child \<noteq> None"
  shows "map_of (map (\<lambda>(key, child). (key, the child)) children) key =
    (case map_of children key of Some (Some child) \<Rightarrow> Some child | _ \<Rightarrow> None)"
  using assms by (induction children) auto

lemma ComposeDeclared_Inr:
  "ComposeDeclared origin children = Inr d \<longleftrightarrow>
     (\<exists>w. origin = Some w \<and> d = (w, map (\<lambda>(key, child). (key, the child)) children)) \<and>
     (\<forall>(key, child) \<in> set children. valid_utf8 key \<and> child \<noteq> None) \<and> distinct (map fst children)"
proof (cases origin)
  case (Some w)
  have "ComposeDeclared origin children = Inr d \<longleftrightarrow> (\<exists>out. compose_children children [] = Inr out \<and> d = (w, out))"
    by (auto simp: Some ComposeDeclared_def split: sum.splits)
  then show ?thesis using Some by (auto simp: compose_children_Inr)
qed (simp add: ComposeDeclared_def)

definition entries_of :: "(string \<times> wire option) list \<Rightarrow> (string \<times> wire) list" where
  "entries_of children = map (\<lambda>(key, child). (key, the child)) children"

definition present :: "(string \<times> wire) list \<Rightarrow> (string \<times> wire option) list" where
  "present children = map (\<lambda>(key, child). (key, Some child)) children"

lemma present_simps [simp]:
  "map fst (entries_of children) = map fst children" "map fst (present kvs) = map fst kvs" "entries_of (present kvs) = kvs"
  by (simp_all add: entries_of_def present_def case_prod_beta comp_def)

text \<open>What a description must be: an origin, every child there, the keys UTF-8 and distinct.\<close>

definition composable :: "wire option \<Rightarrow> (string \<times> wire option) list \<Rightarrow> bool" where
  "composable origin children \<longleftrightarrow>
     origin \<noteq> None \<and> (\<forall>(key, child) \<in> set children. valid_utf8 key \<and> child \<noteq> None) \<and> distinct (map fst children)"

definition sends_as_declared :: "wire option \<Rightarrow> (string \<times> wire option) list \<Rightarrow> declared_node \<Rightarrow> bool" where
  "sends_as_declared origin children d \<longleftrightarrow>
     (\<forall>closed path. Send closed (Bind_declared (Some d)) path =
       (if EncodePath path = None then Inl ErrPath
        else case path of
          [] \<Rightarrow> Send closed (the origin) []
        | key # rest \<Rightarrow> (case map_of children key of Some (Some child) \<Rightarrow> Send closed child rest | _ \<Rightarrow> Inl ErrNoRoute)))"

lemma composable_iff: "(\<exists>d. ComposeDeclared origin children = Inr d) \<longleftrightarrow> composable origin children"
  unfolding ComposeDeclared_Inr composable_def by auto

lemma composed_sends:
  assumes "ComposeDeclared origin children = Inr d"
  shows "sends_as_declared origin children d"
proof -
  obtain w where w: "origin = Some w" "d = (w, entries_of children)"
    and ok: "\<forall>(key, child) \<in> set children. valid_utf8 key \<and> child \<noteq> None"
    using assms unfolding ComposeDeclared_Inr entries_of_def by blast
  have there: "\<forall>(key, child) \<in> set children. child \<noteq> None" using ok by auto
  have at: "map_of (entries_of children) key = (case map_of children key of Some (Some child) \<Rightarrow> Some child | _ \<Rightarrow> None)" for key
    unfolding entries_of_def using there by (rule lookup_entries)
  have "Send closed (Bind_declared (Some d)) path =
       (if EncodePath path = None then Inl ErrPath
        else case path of
          [] \<Rightarrow> Send closed (the origin) []
        | key # rest \<Rightarrow> (case map_of children key of Some (Some child) \<Rightarrow> Send closed child rest | _ \<Rightarrow> Inl ErrNoRoute))" for closed path
  proof (cases path)
    case (Cons key rest)
    show ?thesis
    proof (cases "map_of children key")
      case (Some child)
      then show ?thesis using at [of key] by (cases child) (simp_all add: Bind_declared_def w declared_child_def Cons)
    qed (use at [of key] in \<open>simp add: Bind_declared_def w declared_child_def Cons\<close>)
  qed (simp add: Bind_declared_def w declared_child_def)
  then show ?thesis by (simp add: sends_as_declared_def)
qed

lemma composed_again:
  assumes "ComposeDeclared origin children = Inr d"
  shows "Decompose (Some d) = (origin, sort_key fst (entries_of children))"
    "\<exists>d'. ComposeDeclared (fst (Decompose (Some d))) (present (snd (Decompose (Some d)))) = Inr d' \<and>
       Decompose (Some d') = Decompose (Some d) \<and> sends_as_declared origin children d'"
proof -
  obtain w where w: "origin = Some w" "d = (w, entries_of children)"
    and ok: "\<forall>(key, child) \<in> set children. valid_utf8 key \<and> child \<noteq> None" "distinct (map fst children)"
    using assms unfolding ComposeDeclared_Inr entries_of_def by blast
  let ?kvs = "sort_key fst (entries_of children)"
  have dist: "distinct (map fst (entries_of children))" using ok(2) by simp
  note dist = dist sort_fst(1) [OF dist]
  have dec: "Decompose (Some d) = (Some w, ?kvs)" "Decompose (Some (w, ?kvs)) = (Some w, ?kvs)"
    using Decompose_lists [OF dist(1), of w] Decompose_lists [OF dist(2), of w] w(2) by (simp_all add: sort_key_id_if_sorted)
  then show "Decompose (Some d) = (origin, ?kvs)" using w(1) by simp
  have "\<forall>(key, child) \<in> set (present ?kvs). valid_utf8 key \<and> child \<noteq> None"
    using ok(1) by (auto simp: present_def entries_of_def)
  then have again: "ComposeDeclared (Some w) (present ?kvs) = Inr (w, ?kvs)"
    using dist(2) present_simps(3) [of ?kvs] unfolding ComposeDeclared_Inr entries_of_def present_simps by simp
  have same: "map_of ?kvs = map_of (entries_of children)" using dist(1) by (rule sort_fst(2))
  have "Send closed (Bind_declared (Some (w, ?kvs))) path = Send closed (Bind_declared (Some d)) path" for closed path
    unfolding Bind_declared_def w(2) Send.simps declared_child_def option.case prod.case same by (rule refl)
  then have "sends_as_declared origin children (w, ?kvs)"
    using composed_sends [OF assms] unfolding sends_as_declared_def by presburger
  then show "\<exists>d'. ComposeDeclared (fst (Decompose (Some d))) (present (snd (Decompose (Some d)))) = Inr d' \<and>
       Decompose (Some d') = Decompose (Some d) \<and> sends_as_declared origin children d'"
    using again dec by auto
qed

text \<open>C27: Declared composition loses nothing: a description is admitted exactly if it has an origin,
  every child is there, and the keys are UTF-8 and distinct; decomposing an admitted one gives back the
  origin and exactly the entries, in the order of their keys; the description and the one composed
  again from those entries both send every message where the entry named by the path's first segment
  sends the rest of it, the origin for the empty path, and nowhere else.\<close>

theorem declared_composition_round_trip:
  "case ComposeDeclared origin children of
     Inl e \<Rightarrow> \<not> composable origin children
   | Inr d \<Rightarrow> composable origin children \<and> sends_as_declared origin children d \<and>
       Decompose (Some d) = (origin, sort_key fst (entries_of children)) \<and>
       (\<exists>d'. ComposeDeclared (fst (Decompose (Some d))) (present (snd (Decompose (Some d)))) = Inr d' \<and>
          Decompose (Some d') = Decompose (Some d) \<and> sends_as_declared origin children d')"
proof (cases "ComposeDeclared origin children")
  case (Inl e)
  then show ?thesis using composable_iff [of origin children] by simp
next
  case (Inr d)
  then show ?thesis using composable_iff [of origin children] composed_sends [OF Inr] composed_again [OF Inr] by simp
qed

definition demo_children :: "(string \<times> wire option) list" where
  "demo_children = [(''b'', Some (Selected (Borrowed 1) [''x''])), (''a'', Some (Borrowed 2))]"

lemma demo_composed: "ComposeDeclared (Some (Borrowed 0)) demo_children = Inr (Borrowed 0, entries_of demo_children)"
  by code_simp

theorem declared_composition_round_trip_witness:
  "map fst (snd (Decompose (Some (Borrowed 0, entries_of demo_children)))) = [''a'', ''b''] \<and>
   Send (\<lambda>i. False) (Bind_declared (Some (Borrowed 0, entries_of demo_children))) [''b'', ''y''] = Inr (1, [''x'', ''y''])"
proof -
  note t = declared_composition_round_trip [of "Some (Borrowed 0)" demo_children, unfolded demo_composed sum.case sends_as_declared_def]
  have "sort (map fst demo_children) = [''a'', ''b'']" by code_simp
  moreover have "map fst (sort_key fst (entries_of demo_children)) = sort (map fst demo_children)"
    by (simp add: demo_children_def entries_of_def)
  moreover have "map_of demo_children ''b'' = Some (Some (Selected (Borrowed 1) [''x'']))" by code_simp
  moreover have "EncodePath [''b'', ''y''] = Some ''1:b1:y''" by code_simp
  ultimately show ?thesis using t by (simp add: selected_path_def)
qed

end
