(* ===== verification/Duplex_Mount.thy ===== *)
theory Duplex_Mount
  imports Duplex_Wire Transitions "HOL-Library.Multiset"
begin

text \<open>
  The receive side of \<open>duplex/go/wire.go\<close> and \<open>through.go\<close>: the single attachment of a mount, which
  borrows one attachment from each child, and that of a \<open>Through\<close>.  A borrowed attachment is the
  disposer its lender returned, a number here; calling it is noted in the log, as is the receiver's
  \<open>Closed\<close>.  Each section that runs under the mutex is one step, with the calls that follow it.
\<close>

section \<open>Borrowed attachments\<close>

datatype wire_note = Detached nat | ToldClosed nat int string

fun detached_by :: "wire_note list \<Rightarrow> nat list" where
  "detached_by [] = []"
| "detached_by (Detached t # ns) = t # detached_by ns"
| "detached_by (ToldClosed a code reason # ns) = detached_by ns"

lemma detached_by_append [simp]: "detached_by (xs @ ys) = detached_by xs @ detached_by ys"
  by (induction xs rule: detached_by.induct) auto

lemma detached_by_map [simp]: "detached_by (map Detached ts) = ts"
  by (induction ts) auto

definition times_told :: "nat \<Rightarrow> wire_note list \<Rightarrow> nat" where
  "times_told a ns = length (filter (\<lambda>n. case n of ToldClosed b code reason \<Rightarrow> b = a | Detached t \<Rightarrow> False) ns)"

lemma times_told_simps [simp]:
  "times_told a [] = 0"
  "times_told a (xs @ ys) = times_told a xs + times_told a ys"
  "times_told a (map Detached ts) = 0"
  "times_told a [Detached t] = 0"
  "times_told a [ToldClosed b code reason] = (if b = a then 1 else 0)"
  by (simp_all add: times_told_def filter_empty_conv)

text \<open>
  The contract of a borrower: every disposer it was given is either held or was called, and none was
  called twice.  A step conserves them; whoever can show that gets the accounting.
\<close>

locale borrowing =
  fixes start :: "'s \<Rightarrow> bool" and step :: "'s \<Rightarrow> 's \<Rightarrow> bool" and issued held returned :: "'s \<Rightarrow> nat list"
  assumes begins: "start s \<Longrightarrow> issued s = [] \<and> held s = [] \<and> returned s = []"
    and conserves: "reachable start step s \<Longrightarrow> step s s' \<Longrightarrow>
      \<exists>fresh. issued s' = issued s @ fresh \<and> distinct fresh \<and> set fresh \<inter> set (issued s) = {} \<and>
        mset (held s') + mset (returned s') = mset (held s) + mset (returned s) + mset fresh"
begin

lemma accounted: "reachable start step s \<Longrightarrow> distinct (issued s) \<and> mset (issued s) = mset (held s) + mset (returned s)"
proof (induction rule: reachable.induct)
  case (reachable_step s s')
  show ?case using conserves [OF reachable_step(1,2)] reachable_step(3) by (auto simp: ac_simps)
qed (simp add: begins)

lemma returned_once:
  assumes "reachable start step s"
  shows "distinct (returned s) \<and> set (issued s) = set (held s) \<union> set (returned s) \<and> set (held s) \<inter> set (returned s) = {}"
proof -
  have "distinct (issued s)" "mset (issued s) = mset (held s @ returned s)" using accounted [OF assms] by auto
  then have "distinct (held s @ returned s)" "set (issued s) = set (held s @ returned s)"
    by (metis mset_eq_imp_distinct_iff, metis mset_eq_setD)
  then show ?thesis by auto
qed

end

section \<open>The receiver of a mount\<close>

record child_slot =
  slDetach :: "nat option"
  slEnded :: bool

text \<open>Where the call of \<open>Receive\<close> is: before the slot of a child, in that child's \<open>Receive\<close>, or done.\<close>

datatype receive_turn = Attaching nat | Borrowing nat | Returned

record mounted_receiver =
  mrHears :: bool
  mrActive :: bool
  mrSlots :: "child_slot list"
  mrRemaining :: int
  mrTurn :: receive_turn

record mounted =
  mtKeys :: "string list"
  mtClosed :: bool
  mtCurrent :: "nat option"
  mtReceivers :: "mounted_receiver list"
  mtLog :: "wire_note list"

definition Mount :: "(string \<times> wire option) list \<Rightarrow> mounted" where
  "Mount children =
     \<lparr>mtKeys = sort (map fst (filter (\<lambda>(key, child). child \<noteq> None) children)), mtClosed = False, mtCurrent = None,
      mtReceivers = [], mtLog = []\<rparr>"

definition update_receiver :: "nat \<Rightarrow> (mounted_receiver \<Rightarrow> mounted_receiver) \<Rightarrow> mounted \<Rightarrow> mounted" where
  "update_receiver a f m = m\<lparr>mtReceivers := (mtReceivers m)[a := f (mtReceivers m ! a)]\<rparr>"

definition mount_note :: "wire_note list \<Rightarrow> mounted \<Rightarrow> mounted" where
  "mount_note ns m = m\<lparr>mtLog := mtLog m @ ns\<rparr>"

text \<open>A child's message is delivered under the child's key.\<close>

definition mounted_message :: "string \<Rightarrow> string list \<Rightarrow> string list" where
  "mounted_message key path = [key] @ path"

datatype receive_error = OwnError duplex_error | LenderError string

definition Receive_begin :: "bool \<Rightarrow> mounted \<Rightarrow> (receive_error + nat) \<times> mounted" where
  "Receive_begin hears m =
     (if mtClosed m then (Inl (OwnError WireClosed), m)
      else if mtCurrent m \<noteq> None then (Inl (OwnError ErrReceiverExists), m)
      else
        let a = length (mtReceivers m); n = length (mtKeys m) in
        (Inr a, m\<lparr>mtReceivers := mtReceivers m @
            [\<lparr>mrHears = hears, mrActive = True, mrSlots = replicate n \<lparr>slDetach = None, slEnded = False\<rparr>,
              mrRemaining = int n, mrTurn = Attaching 0\<rparr>],
          mtCurrent := Some a\<rparr>))"

definition slot_tokens :: "child_slot \<Rightarrow> nat list" where
  "slot_tokens slot = (case slDetach slot of None \<Rightarrow> [] | Some t \<Rightarrow> [t])"

definition receiver_tokens :: "mounted_receiver \<Rightarrow> nat list" where
  "receiver_tokens r = concat (map slot_tokens (mrSlots r))"

definition releaseLocked :: "nat \<Rightarrow> mounted \<Rightarrow> nat list \<times> mounted" where
  "releaseLocked a m =
     (receiver_tokens (mtReceivers m ! a),
      update_receiver a (\<lambda>r. r\<lparr>mrActive := False, mrSlots := map (\<lambda>slot. slot\<lparr>slDetach := None\<rparr>) (mrSlots r)\<rparr>)
        (if mtCurrent m = Some a then m\<lparr>mtCurrent := None\<rparr> else m))"

definition remove_receiver :: "nat \<Rightarrow> mounted \<Rightarrow> mounted" where
  "remove_receiver a m =
     (if \<not> mrActive (mtReceivers m ! a) then m
      else case releaseLocked a m of (detaches, m) \<Rightarrow> mount_note (map Detached detaches) m)"

text \<open>A turn of the loop before a child's \<open>Receive\<close>, or after the last: \<open>None\<close> goes on.\<close>

definition Receive_next :: "nat \<Rightarrow> mounted \<Rightarrow> (receive_error + unit) option \<times> mounted" where
  "Receive_next a m =
     (case mrTurn (mtReceivers m ! a) of
        Attaching i \<Rightarrow>
          if \<not> mrActive (mtReceivers m ! a)
          then (Some (Inl (OwnError WireClosed)), update_receiver a (\<lambda>r. r\<lparr>mrTurn := Returned\<rparr>) m)
          else if i < length (mtKeys m) then (None, update_receiver a (\<lambda>r. r\<lparr>mrTurn := Borrowing i\<rparr>) m)
          else (Some (Inr ()), update_receiver a (\<lambda>r. r\<lparr>mrTurn := Returned\<rparr>) m)
      | _ \<Rightarrow> (None, m))"

text \<open>What follows a child's \<open>Receive\<close>, which answered an error, a disposer, or both.\<close>

definition Receive_child :: "nat \<Rightarrow> string option \<Rightarrow> nat option \<Rightarrow> mounted \<Rightarrow> (receive_error + unit) option \<times> mounted" where
  "Receive_child a err detach m =
     (case mrTurn (mtReceivers m ! a) of
        Borrowing i \<Rightarrow>
          let slot = mrSlots (mtReceivers m ! a) ! i;
              active = (mrActive (mtReceivers m ! a) \<and> \<not> slEnded slot);
              m = (if err = None \<and> active
                   then update_receiver a (\<lambda>r. r\<lparr>mrSlots := (mrSlots r)[i := slot\<lparr>slDetach := detach\<rparr>]\<rparr>) m else m)
          in if err \<noteq> None \<or> \<not> active then
            let m = (case detach of None \<Rightarrow> m | Some t \<Rightarrow> mount_note [Detached t] m);
                m = remove_receiver a m
            in (Some (Inl (case err of Some e \<Rightarrow> LenderError e | None \<Rightarrow> OwnError WireClosed)),
                update_receiver a (\<lambda>r. r\<lparr>mrTurn := Returned\<rparr>) m)
          else (None, update_receiver a (\<lambda>r. r\<lparr>mrTurn := Attaching (i + 1)\<rparr>) m)
      | _ \<Rightarrow> (None, m))"

definition tell_closed :: "nat \<Rightarrow> int \<Rightarrow> string \<Rightarrow> mounted \<Rightarrow> mounted" where
  "tell_closed a code reason m =
     (if mrHears (mtReceivers m ! a) then mount_note [ToldClosed a code reason] m else m)"

definition childEnded :: "nat \<Rightarrow> nat \<Rightarrow> int \<Rightarrow> string \<Rightarrow> mounted \<Rightarrow> mounted" where
  "childEnded a i code reason m =
     (let r = mtReceivers m ! a; slot = mrSlots r ! i in
      if \<not> mrActive r \<or> slEnded slot then m
      else
        let m = update_receiver a (\<lambda>r. r\<lparr>mrSlots := (mrSlots r)[i := slot\<lparr>slEnded := True\<rparr>],
                  mrRemaining := mrRemaining r - 1\<rparr>) m;
            last = (mrRemaining (mtReceivers m ! a) = 0)
        in if last then
          (case releaseLocked a m of (detaches, m) \<Rightarrow> tell_closed a code reason (mount_note (map Detached detaches) m))
        else
          mount_note (map Detached (slot_tokens slot))
            (update_receiver a (\<lambda>r. r\<lparr>mrSlots := (mrSlots r)[i := (mrSlots r ! i)\<lparr>slDetach := None\<rparr>]\<rparr>) m))"

definition Close_mount :: "int \<Rightarrow> string \<Rightarrow> mounted \<Rightarrow> mounted" where
  "Close_mount code reason m =
     (if mtClosed m then m
      else
        let m = m\<lparr>mtClosed := True\<rparr> in
        (case mtCurrent m of
           None \<Rightarrow> m
         | Some a \<Rightarrow>
             (case releaseLocked a m of (detaches, m) \<Rightarrow> tell_closed a code reason (mount_note (map Detached detaches) m))))"

text \<open>
  The runs of a mount: any call of its methods, of a disposer it returned and of the \<open>Closed\<close> it
  gave a child, in any order; the disposers the children return are all different.
\<close>

inductive mount_step :: "mounted \<times> nat list \<Rightarrow> mounted \<times> nat list \<Rightarrow> bool" where
  step_begin: "Receive_begin hears m = (r, m') \<Longrightarrow> mount_step (m, issued) (m', issued)"
| step_next: "a < length (mtReceivers m) \<Longrightarrow> Receive_next a m = (r, m') \<Longrightarrow> mount_step (m, issued) (m', issued)"
| step_child: "a < length (mtReceivers m) \<Longrightarrow> mrTurn (mtReceivers m ! a) = Borrowing i \<Longrightarrow>
    set_option detach \<inter> set issued = {} \<Longrightarrow> Receive_child a err detach m = (r, m') \<Longrightarrow>
    mount_step (m, issued) (m', issued @ (case detach of None \<Rightarrow> [] | Some t \<Rightarrow> [t]))"
| step_remove: "a < length (mtReceivers m) \<Longrightarrow> mount_step (m, issued) (remove_receiver a m, issued)"
| step_ended: "a < length (mtReceivers m) \<Longrightarrow> i < length (mtKeys m) \<Longrightarrow>
    mount_step (m, issued) (childEnded a i code reason m, issued)"
| step_close: "mount_step (m, issued) (Close_mount code reason m, issued)"

definition mount_start :: "mounted \<times> nat list \<Rightarrow> bool" where
  "mount_start s \<longleftrightarrow> (\<exists>children. s = (Mount children, []))"

definition held_by :: "mounted \<Rightarrow> nat list" where
  "held_by m = concat (map receiver_tokens (mtReceivers m))"

section \<open>The invariant\<close>

definition receiver_ok :: "nat \<Rightarrow> mounted_receiver \<Rightarrow> bool" where
  "receiver_ok n r \<longleftrightarrow>
     length (mrSlots r) = n \<and> (\<forall>slot \<in> set (mrSlots r). slEnded slot \<longrightarrow> slDetach slot = None) \<and>
     (\<not> mrActive r \<longrightarrow> receiver_tokens r = []) \<and>
     (mrActive r \<longrightarrow> mrRemaining r = int (length (filter (\<lambda>slot. \<not> slEnded slot) (mrSlots r))) \<and> (0 < n \<longrightarrow> 0 < mrRemaining r)) \<and>
     (\<forall>i. mrTurn r = Borrowing i \<longrightarrow> i < n) \<and>
     (\<forall>i. mrTurn r = Attaching i \<or> mrTurn r = Borrowing i \<longrightarrow> (\<forall>j. i \<le> j \<longrightarrow> j < n \<longrightarrow> slDetach (mrSlots r ! j) = None))"

definition mount_ok :: "mounted \<Rightarrow> bool" where
  "mount_ok m \<longleftrightarrow>
     (\<forall>a < length (mtReceivers m). receiver_ok (length (mtKeys m)) (mtReceivers m ! a) \<and>
        mrActive (mtReceivers m ! a) = (mtCurrent m = Some a) \<and>
        times_told a (mtLog m) \<le> (if mrActive (mtReceivers m ! a) then 0 else 1)) \<and>
     (\<forall>a. mtCurrent m = Some a \<longrightarrow> a < length (mtReceivers m)) \<and>
     (\<forall>a. length (mtReceivers m) \<le> a \<longrightarrow> times_told a (mtLog m) = 0) \<and>
     (mtClosed m \<longrightarrow> mtCurrent m = None)"

lemma update_receiver_simps [simp]:
  "mtKeys (update_receiver a f m) = mtKeys m" "mtClosed (update_receiver a f m) = mtClosed m"
  "mtCurrent (update_receiver a f m) = mtCurrent m" "mtLog (update_receiver a f m) = mtLog m"
  "mtReceivers (update_receiver a f m) = (mtReceivers m)[a := f (mtReceivers m ! a)]"
  by (simp_all add: update_receiver_def)

lemma mount_note_simps [simp]:
  "mtKeys (mount_note ns m) = mtKeys m" "mtClosed (mount_note ns m) = mtClosed m"
  "mtCurrent (mount_note ns m) = mtCurrent m" "mtReceivers (mount_note ns m) = mtReceivers m"
  "mtLog (mount_note ns m) = mtLog m @ ns"
  by (simp_all add: mount_note_def)

definition cleared :: "mounted_receiver \<Rightarrow> mounted_receiver" where
  "cleared r = r\<lparr>mrActive := False, mrSlots := map (\<lambda>slot. slot\<lparr>slDetach := None\<rparr>) (mrSlots r)\<rparr>"

lemma tokens_Nil: "receiver_tokens r = [] \<longleftrightarrow> (\<forall>slot \<in> set (mrSlots r). slDetach slot = None)"
  by (auto simp: receiver_tokens_def slot_tokens_def split: option.splits)

lemma cleared_simps [simp]:
  "\<not> mrActive (cleared r)" "receiver_tokens (cleared r) = []" "mrHears (cleared r) = mrHears r" "mrTurn (cleared r) = mrTurn r"
  by (simp_all add: cleared_def tokens_Nil)

lemma receiver_ok_cleared: "receiver_ok n r \<Longrightarrow> receiver_ok n (cleared r)"
  by (auto simp: receiver_ok_def cleared_def tokens_Nil)

lemma receiver_ok_turn:
  "receiver_ok n r \<Longrightarrow> (\<And>i. turn = Borrowing i \<Longrightarrow> mrTurn r = Attaching i \<and> i < n) \<Longrightarrow>
   (\<And>i. turn = Attaching i \<Longrightarrow> mrTurn r = Attaching i) \<Longrightarrow> receiver_ok n (r\<lparr>mrTurn := turn\<rparr>)"
  by (auto simp: receiver_ok_def tokens_Nil)

lemma mset_concat_update:
  assumes "a < length xs"
  shows "mset (concat (map f (xs[a := x]))) + mset (f (xs ! a)) = mset (concat (map f xs)) + mset (f x)"
  using assms
proof (induction xs arbitrary: a)
  case (Cons y ys)
  show ?case
  proof (cases a)
    case (Suc b)
    then show ?thesis using Cons.IH [of b] Cons.prems by (simp add: ac_simps)
  qed (simp add: ac_simps)
qed simp

lemma moved_tokens:
  fixes X :: "'a multiset"
  assumes "X + T = H + R" "R + D = T + F"
  shows "X + D = H + F"
proof -
  have "(X + D) + T = (X + T) + D" by (simp add: ac_simps)
  also have "\<dots> = (H + R) + D" by (simp only: assms(1))
  also have "\<dots> = H + (T + F)" by (simp only: add.assoc assms(2))
  also have "\<dots> = (H + F) + T" by (simp only: ac_simps)
  finally show ?thesis by simp
qed

text \<open>
  What a step on the receiver \<open>a\<close> may do: change it within its rules, end its activity once, tell it
  once when it ends, and move tokens from it into the log.
\<close>

definition touches :: "nat \<Rightarrow> nat list \<Rightarrow> mounted \<Rightarrow> mounted \<Rightarrow> bool" where
  "touches a fresh m m' \<longleftrightarrow>
     (\<exists>r' ns. mtReceivers m' = (mtReceivers m)[a := r'] \<and> mtKeys m' = mtKeys m \<and> mtLog m' = mtLog m @ ns \<and>
        receiver_ok (length (mtKeys m)) r' \<and> (mrActive r' \<longrightarrow> mrActive (mtReceivers m ! a)) \<and>
        mtCurrent m' = (if mtCurrent m = Some a \<and> \<not> mrActive r' then None else mtCurrent m) \<and>
        (mtClosed m' \<longrightarrow> mtClosed m \<or> mtCurrent m' = None) \<and>
        (\<forall>b. times_told b ns \<le> (if b = a \<and> mrActive (mtReceivers m ! a) \<and> \<not> mrActive r' then 1 else 0)) \<and>
        mset (receiver_tokens r') + mset (detached_by ns) = mset (receiver_tokens (mtReceivers m ! a)) + mset fresh)"

lemma mount_okD:
  assumes "mount_ok m" "a < length (mtReceivers m)"
  shows "receiver_ok (length (mtKeys m)) (mtReceivers m ! a)" "mrActive (mtReceivers m ! a) = (mtCurrent m = Some a)"
    "times_told a (mtLog m) \<le> (if mrActive (mtReceivers m ! a) then 0 else 1)"
  using assms by (auto simp: mount_ok_def)

lemma mount_ok_rest:
  assumes "mount_ok m"
  shows "mtCurrent m = Some b \<Longrightarrow> b < length (mtReceivers m)" "length (mtReceivers m) \<le> b \<Longrightarrow> times_told b (mtLog m) = 0"
    "mtClosed m \<Longrightarrow> mtCurrent m = None"
  using assms unfolding mount_ok_def by blast+

lemma touches_ok:
  assumes ok: "mount_ok m" and a: "a < length (mtReceivers m)" and t: "touches a fresh m m'"
  shows "mount_ok m'" "mset (held_by m') + mset (detached_by (mtLog m')) = mset (held_by m) + mset (detached_by (mtLog m)) + mset fresh"
proof -
  obtain r' ns where m': "mtReceivers m' = (mtReceivers m)[a := r']" "mtKeys m' = mtKeys m" "mtLog m' = mtLog m @ ns"
    and r': "receiver_ok (length (mtKeys m)) r'" "mrActive r' \<longrightarrow> mrActive (mtReceivers m ! a)"
    and cur: "mtCurrent m' = (if mtCurrent m = Some a \<and> \<not> mrActive r' then None else mtCurrent m)"
    and closed: "mtClosed m' \<longrightarrow> mtClosed m \<or> mtCurrent m' = None"
    and told: "\<And>b. times_told b ns \<le> (if b = a \<and> mrActive (mtReceivers m ! a) \<and> \<not> mrActive r' then 1 else 0)"
    and tokens: "mset (receiver_tokens r') + mset (detached_by ns) = mset (receiver_tokens (mtReceivers m ! a)) + mset fresh"
    using t unfolding touches_def by blast
  note old = mount_okD [OF ok]
  have "receiver_ok (length (mtKeys m')) (mtReceivers m' ! b) \<and> mrActive (mtReceivers m' ! b) = (mtCurrent m' = Some b) \<and>
      times_told b (mtLog m') \<le> (if mrActive (mtReceivers m' ! b) then 0 else 1)" if b: "b < length (mtReceivers m')" for b
  proof (cases "b = a")
    case True
    then show ?thesis using old [OF a] m' r' cur told [of a] a by (auto split: if_splits)
  next
    case False
    then show ?thesis using old [of b] m' cur told [of b] b by (auto split: if_splits)
  qed
  moreover have "times_told b (mtLog m') = 0" if "length (mtReceivers m') \<le> b" for b
    using mount_ok_rest(2) [OF ok, of b] that told [of b] m' a by simp
  moreover have "b < length (mtReceivers m')" if "mtCurrent m' = Some b" for b
    using mount_ok_rest(1) [OF ok, of b] that cur m'(1) by (simp split: if_splits)
  moreover have "mtCurrent m' = None" if "mtClosed m'"
    using mount_ok_rest(3) [OF ok] that cur closed by (auto split: if_splits)
  ultimately show "mount_ok m'" unfolding mount_ok_def by blast
  have "mset (held_by m') + mset (receiver_tokens (mtReceivers m ! a)) = mset (held_by m) + mset (receiver_tokens r')"
    unfolding held_by_def m' by (rule mset_concat_update [OF a])
  then have "mset (held_by m') + mset (detached_by ns) = mset (held_by m) + mset fresh" using tokens by (rule moved_tokens)
  then show "mset (held_by m') + mset (detached_by (mtLog m')) = mset (held_by m) + mset (detached_by (mtLog m)) + mset fresh"
    by (simp add: m' ac_simps)
qed

lemma releaseLocked_eq:
  "releaseLocked a m = (receiver_tokens (mtReceivers m ! a),
     update_receiver a cleared (if mtCurrent m = Some a then m\<lparr>mtCurrent := None\<rparr> else m))"
  by (simp add: releaseLocked_def cleared_def)

lemma touches_idle: "mount_ok m \<Longrightarrow> a < length (mtReceivers m) \<Longrightarrow> touches a [] m m"
  unfolding touches_def
  by (rule exI [of _ "mtReceivers m ! a"], rule exI [of _ "[]"]) (auto dest: mount_okD)

lemma touches_remove:
  assumes "mount_ok m" "a < length (mtReceivers m)"
  shows "touches a [] m (remove_receiver a m)"
proof (cases "mrActive (mtReceivers m ! a)")
  case True
  then show ?thesis
    using mount_okD [OF assms] unfolding touches_def
    by (intro exI [of _ "cleared (mtReceivers m ! a)"] exI [of _ "map Detached (receiver_tokens (mtReceivers m ! a))"])
      (auto simp: remove_receiver_def releaseLocked_eq receiver_ok_cleared)
qed (use touches_idle [OF assms] in \<open>simp add: remove_receiver_def\<close>)

lemma touches_turn:
  assumes "mount_ok m" "a < length (mtReceivers m)"
    and "receiver_ok (length (mtKeys m)) ((mtReceivers m ! a)\<lparr>mrTurn := turn\<rparr>)"
  shows "touches a [] m (update_receiver a (\<lambda>r. r\<lparr>mrTurn := turn\<rparr>) m)"
  using mount_okD [OF assms(1,2)] assms(3) unfolding touches_def
  by (intro exI [of _ "(mtReceivers m ! a)\<lparr>mrTurn := turn\<rparr>"] exI [of _ "[]"]) (auto simp: receiver_tokens_def)

lemma receiver_ok_returned: "receiver_ok n r \<Longrightarrow> receiver_ok n (r\<lparr>mrTurn := Returned\<rparr>)"
  by (auto simp: receiver_ok_def tokens_Nil)

lemma touches_next:
  assumes "mount_ok m" "a < length (mtReceivers m)" "Receive_next a m = (r, m')"
  shows "touches a [] m m'"
proof (cases "mrTurn (mtReceivers m ! a)")
  case (Attaching i)
  have ok: "receiver_ok (length (mtKeys m)) (mtReceivers m ! a)" using mount_okD [OF assms(1,2)] by simp
  have "receiver_ok (length (mtKeys m)) ((mtReceivers m ! a)\<lparr>mrTurn := Borrowing i\<rparr>)" if "i < length (mtKeys m)"
    using ok that Attaching by (auto simp: receiver_ok_def tokens_Nil)
  then show ?thesis using assms(3) Attaching touches_turn [OF assms(1,2)] receiver_ok_returned [OF ok]
    by (auto simp: Receive_next_def split: if_splits)
qed (use assms(3) touches_idle [OF assms(1,2)] in \<open>simp_all add: Receive_next_def\<close>)

lemma count_update:
  "i < length xs \<Longrightarrow> P x = P (xs ! i) \<Longrightarrow> length (filter P (xs[i := x])) = length (filter P xs)"
proof (induction xs arbitrary: i)
  case (Cons y ys)
  then show ?case by (cases i) auto
qed simp

lemma receiver_ok_slot:
  assumes ok: "receiver_ok n r" and turn: "mrTurn r = Borrowing i" and active: "mrActive r" "\<not> slEnded (mrSlots r ! i)"
  shows "receiver_ok n (r\<lparr>mrSlots := (mrSlots r)[i := (mrSlots r ! i)\<lparr>slDetach := detach\<rparr>], mrTurn := Attaching (i + 1)\<rparr>)"
proof -
  let ?slots = "(mrSlots r)[i := (mrSlots r ! i)\<lparr>slDetach := detach\<rparr>]"
  have i: "i < n" "length (mrSlots r) = n" and none: "\<And>j. i \<le> j \<Longrightarrow> j < n \<Longrightarrow> slDetach (mrSlots r ! j) = None"
    and ended: "\<forall>slot \<in> set (mrSlots r). slEnded slot \<longrightarrow> slDetach slot = None"
    and left: "mrRemaining r = int (length (filter (\<lambda>slot. \<not> slEnded slot) (mrSlots r)))" "0 < mrRemaining r"
    using ok turn active unfolding receiver_ok_def by auto
  have "length (filter (\<lambda>slot. \<not> slEnded slot) ?slots) = length (filter (\<lambda>slot. \<not> slEnded slot) (mrSlots r))"
    by (rule count_update) (use i in auto)
  moreover have "\<forall>slot \<in> set ?slots. slEnded slot \<longrightarrow> slDetach slot = None"
    using ended active(2) set_update_subset_insert [of "mrSlots r" i] by fastforce
  moreover have "slDetach (?slots ! j) = None" if "i + 1 \<le> j" "j < n" for j using none [of j] that by simp
  ultimately show ?thesis using i active(1) left unfolding receiver_ok_def by simp
qed

lemma touches_child:
  assumes m: "mount_ok m" and a: "a < length (mtReceivers m)" and turn: "mrTurn (mtReceivers m ! a) = Borrowing i"
    and r: "Receive_child a err detach m = (r, m')"
  shows "touches a (case detach of None \<Rightarrow> [] | Some t \<Rightarrow> [t]) m m'"
proof -
  let ?r = "mtReceivers m ! a" and ?n = "length (mtKeys m)" and ?fresh = "case detach of None \<Rightarrow> [] | Some t \<Rightarrow> [t]"
  let ?slot = "mrSlots ?r ! i"
  have ok: "receiver_ok ?n ?r" using mount_okD [OF m a] by simp
  have i: "i < ?n" "i < length (mrSlots ?r)" using ok turn by (auto simp: receiver_ok_def)
  show ?thesis
  proof (cases "err \<noteq> None \<or> \<not> (mrActive ?r \<and> \<not> slEnded ?slot)")
    case False
    let ?r' = "?r\<lparr>mrSlots := (mrSlots ?r)[i := ?slot\<lparr>slDetach := detach\<rparr>], mrTurn := Attaching (i + 1)\<rparr>"
    have m': "m' = update_receiver a (\<lambda>r. r\<lparr>mrTurn := Attaching (i + 1)\<rparr>)
        (update_receiver a (\<lambda>r. r\<lparr>mrSlots := (mrSlots r)[i := ?slot\<lparr>slDetach := detach\<rparr>]\<rparr>) m)"
      using r turn False by (simp add: Receive_child_def Let_def)
    have none: "slDetach ?slot = None" using ok turn False by (auto simp: receiver_ok_def)
    have "mset (receiver_tokens ?r') = mset (receiver_tokens ?r) + mset ?fresh"
      using mset_concat_update [OF i(2), of slot_tokens "?slot\<lparr>slDetach := detach\<rparr>"] none
      by (simp add: receiver_tokens_def slot_tokens_def)
    moreover have "receiver_ok ?n ?r'" using receiver_ok_slot [OF ok turn] False by simp
    ultimately show ?thesis unfolding touches_def
      by (intro exI [of _ ?r'] exI [of _ "[]"]) (use False mount_okD(2) [OF m a] m' a mount_ok_rest(3) [OF m] in auto)
  next
    case True
    let ?r' = "(if mrActive ?r then cleared ?r else ?r)\<lparr>mrTurn := Returned\<rparr>"
    let ?ns = "map Detached ?fresh @ (if mrActive ?r then map Detached (receiver_tokens ?r) else [])"
    have "m' = update_receiver a (\<lambda>r. r\<lparr>mrTurn := Returned\<rparr>) (remove_receiver a
        (case detach of None \<Rightarrow> m | Some t \<Rightarrow> mount_note [Detached t] m))"
      using r turn True by (auto simp: Receive_child_def Let_def)
    then have m': "m' = m\<lparr>mtReceivers := (mtReceivers m)[a := ?r'], mtLog := mtLog m @ ?ns,
        mtCurrent := (if mrActive ?r then None else mtCurrent m)\<rparr>"
      using mount_okD(2) [OF m a] a
      by (auto simp: remove_receiver_def releaseLocked_eq update_receiver_def mount_note_def split: option.split)
    have "receiver_ok ?n ?r'" using ok receiver_ok_cleared receiver_ok_returned by auto
    then show ?thesis unfolding touches_def
      by (intro exI [of _ ?r'] exI [of _ ?ns]) (use mount_okD(2) [OF m a] m' mount_ok_rest(3) [OF m] in \<open>auto simp: receiver_tokens_def slot_tokens_def cleared_def\<close>)
  qed
qed

lemma count_ended:
  "i < length xs \<Longrightarrow> \<not> slEnded (xs ! i) \<Longrightarrow> slEnded x \<Longrightarrow>
   int (length (filter (\<lambda>slot. \<not> slEnded slot) (xs[i := x]))) = int (length (filter (\<lambda>slot. \<not> slEnded slot) xs)) - 1"
proof (induction xs arbitrary: i)
  case (Cons y ys)
  then show ?case by (cases i) auto
qed simp

lemma receiver_ok_ended:
  assumes ok: "receiver_ok n r" and i: "i < n" and active: "mrActive r" "\<not> slEnded (mrSlots r ! i)" "mrRemaining r \<noteq> 1"
  shows "receiver_ok n (r\<lparr>mrRemaining := mrRemaining r - 1, mrSlots := (mrSlots r)[i := \<lparr>slDetach = None, slEnded = True\<rparr>]\<rparr>)"
proof -
  let ?slots = "(mrSlots r)[i := \<lparr>slDetach = None, slEnded = True\<rparr>]"
  have n: "length (mrSlots r) = n" and ended: "\<forall>slot \<in> set (mrSlots r). slEnded slot \<longrightarrow> slDetach slot = None"
    and left: "mrRemaining r = int (length (filter (\<lambda>slot. \<not> slEnded slot) (mrSlots r)))" "0 < n \<longrightarrow> 0 < mrRemaining r"
    using ok active(1) unfolding receiver_ok_def by auto
  have "int (length (filter (\<lambda>slot. \<not> slEnded slot) ?slots)) = int (length (filter (\<lambda>slot. \<not> slEnded slot) (mrSlots r))) - 1"
    using count_ended [of i "mrSlots r"] i active(2) n by simp
  moreover have "\<forall>slot \<in> set ?slots. slEnded slot \<longrightarrow> slDetach slot = None"
    using ended set_update_subset_insert [of "mrSlots r" i] by fastforce
  ultimately show ?thesis using ok i n left active unfolding receiver_ok_def by (auto simp: nth_list_update)
qed

lemma tell_closed_eq:
  "tell_closed a code reason m = mount_note (if mrHears (mtReceivers m ! a) then [ToldClosed a code reason] else []) m"
  by (simp add: tell_closed_def mount_note_def)

lemma touches_end:
  assumes m: "mount_ok m" and a: "a < length (mtReceivers m)" and active: "mrActive (mtReceivers m ! a)"
    and r': "receiver_ok (length (mtKeys m)) r'" "\<not> mrActive r'" "receiver_tokens r' = []"
    and m': "mtReceivers m' = (mtReceivers m)[a := r']" "mtKeys m' = mtKeys m" "mtCurrent m' = None"
    and told: "mtLog m' = mtLog m @ map Detached (receiver_tokens (mtReceivers m ! a)) @ (if hears then [ToldClosed a code reason] else [])"
  shows "touches a [] m m'"
  unfolding touches_def
  by (intro exI [of _ r'] exI [of _ "map Detached (receiver_tokens (mtReceivers m ! a)) @ (if hears then [ToldClosed a code reason] else [])"])
     (use mount_okD(2) [OF m a] active r' m' told in auto)

lemma touches_ended:
  assumes m: "mount_ok m" and a: "a < length (mtReceivers m)" and i: "i < length (mtKeys m)"
  shows "touches a [] m (childEnded a i code reason m)"
proof -
  let ?r = "mtReceivers m ! a" and ?n = "length (mtKeys m)"
  let ?slot = "mrSlots ?r ! i"
  let ?r1 = "?r\<lparr>mrSlots := (mrSlots ?r)[i := ?slot\<lparr>slEnded := True\<rparr>], mrRemaining := mrRemaining ?r - 1\<rparr>"
  have ok: "receiver_ok ?n ?r" using mount_okD [OF m a] by simp
  then have len: "length (mrSlots ?r) = ?n" by (simp add: receiver_ok_def)
  show ?thesis
  proof (cases "mrActive ?r \<and> \<not> slEnded ?slot")
    case False
    then show ?thesis using touches_idle [OF m a] by (auto simp: childEnded_def Let_def)
  next
    case True
    show ?thesis
    proof (cases "mrRemaining ?r = 1")
      case last: True
      have "slot_tokens (?slot\<lparr>slEnded := True\<rparr>) = map slot_tokens (mrSlots ?r) ! i" using i len by (simp add: slot_tokens_def)
      then have "receiver_tokens ?r1 = receiver_tokens ?r" by (simp add: receiver_tokens_def map_update)
      moreover have "receiver_ok ?n (cleared ?r1)" using ok len by (auto simp: receiver_ok_def cleared_def tokens_Nil)
      ultimately show ?thesis
        using True last a mount_okD(2) [OF m a]
        by (intro touches_end [OF m a, where r' = "cleared ?r1" and hears = "mrHears ?r"])
           (auto simp: childEnded_def Let_def releaseLocked_eq tell_closed_eq)
    next
      case False
      let ?r2 = "?r\<lparr>mrRemaining := mrRemaining ?r - 1, mrSlots := (mrSlots ?r)[i := \<lparr>slDetach = None, slEnded = True\<rparr>]\<rparr>"
      have r2: "receiver_ok ?n ?r2" using receiver_ok_ended [OF ok i] True False by simp
      have tokens: "mset (receiver_tokens ?r2) + mset (slot_tokens ?slot) = mset (receiver_tokens ?r)"
        using mset_concat_update [of i "mrSlots ?r" slot_tokens "\<lparr>slDetach = None, slEnded = True\<rparr>"] i len
        by (simp add: receiver_tokens_def slot_tokens_def)
      have ended: "?slot\<lparr>slEnded := True, slDetach := None\<rparr> = \<lparr>slDetach = None, slEnded = True\<rparr>" by simp
      have "childEnded a i code reason m = m\<lparr>mtReceivers := (mtReceivers m)[a := ?r2], mtLog := mtLog m @ map Detached (slot_tokens ?slot)\<rparr>"
        using True False i len a by (simp add: childEnded_def Let_def update_receiver_def mount_note_def ended)
      then show ?thesis unfolding touches_def
        by (intro exI [of _ ?r2] exI [of _ "map Detached (slot_tokens ?slot)"])
           (use r2 tokens True mount_okD(2) [OF m a] in simp)
    qed
  qed
qed

lemma touches_close:
  assumes "mount_ok m" "mtCurrent m = Some a" "\<not> mtClosed m"
  shows "touches a [] m (Close_mount code reason m)"
proof -
  have a: "a < length (mtReceivers m)" using mount_ok_rest(1) [OF assms(1,2)] .
  have "mrActive (mtReceivers m ! a)" using mount_okD(2) [OF assms(1) a] assms(2) by simp
  then show ?thesis
    using assms a receiver_ok_cleared [OF mount_okD(1) [OF assms(1) a]]
    by (intro touches_end [OF assms(1) a, where r' = "cleared (mtReceivers m ! a)" and hears = "mrHears (mtReceivers m ! a)"])
       (auto simp: Close_mount_def Let_def releaseLocked_eq tell_closed_eq)
qed

section \<open>The accounting of a mount\<close>

lemma mount_begin:
  assumes m: "mount_ok m" and r: "Receive_begin hears m = (r, m')"
  shows "mount_ok m' \<and> held_by m' = held_by m \<and> mtLog m' = mtLog m"
proof (cases "mtClosed m \<or> mtCurrent m \<noteq> None")
  case True
  then show ?thesis using r m by (auto simp: Receive_begin_def split: if_splits)
next
  case False
  let ?n = "length (mtKeys m)" and ?b = "length (mtReceivers m)"
  let ?r = "\<lparr>mrHears = hears, mrActive = True, mrSlots = replicate ?n \<lparr>slDetach = None, slEnded = False\<rparr>,
     mrRemaining = int ?n, mrTurn = Attaching 0\<rparr>"
  have m': "m' = m\<lparr>mtReceivers := mtReceivers m @ [?r], mtCurrent := Some ?b\<rparr>"
    using r False by (simp add: Receive_begin_def Let_def)
  have new: "receiver_ok ?n ?r" "receiver_tokens ?r = []" by (simp_all add: receiver_ok_def tokens_Nil)
  have "receiver_ok (length (mtKeys m')) (mtReceivers m' ! a) \<and> mrActive (mtReceivers m' ! a) = (mtCurrent m' = Some a) \<and>
      times_told a (mtLog m') \<le> (if mrActive (mtReceivers m' ! a) then 0 else 1)" if "a < length (mtReceivers m')" for a
  proof (cases "a = ?b")
    case True
    then show ?thesis using new mount_ok_rest(2) [OF m, of a] by (simp add: m')
  next
    case old: False
    then have a: "a < ?b" using that m' by simp
    show ?thesis using mount_okD [OF m a] old False a by (simp add: m' nth_append)
  qed
  moreover have "times_told a (mtLog m') = 0" if "length (mtReceivers m') \<le> a" for a
    using mount_ok_rest(2) [OF m, of a] that by (simp add: m')
  moreover have "\<And>a. mtCurrent m' = Some a \<Longrightarrow> a < length (mtReceivers m')" "mtClosed m' \<Longrightarrow> mtCurrent m' = None"
    using False by (simp_all add: m')
  ultimately have "mount_ok m'" unfolding mount_ok_def by blast
  then show ?thesis using new(2) by (simp add: m' held_by_def)
qed

lemma mount_ok_closing:
  assumes "mount_ok m" "mtCurrent m = None"
  shows "mount_ok (m\<lparr>mtClosed := True\<rparr>)"
proof -
  let ?m = "m\<lparr>mtClosed := True\<rparr>"
  have same: "mtReceivers ?m = mtReceivers m" "mtKeys ?m = mtKeys m" "mtCurrent ?m = mtCurrent m" "mtLog ?m = mtLog m" by simp_all
  show ?thesis using assms unfolding mount_ok_def same by blast
qed

definition mount_inv :: "mounted \<times> nat list \<Rightarrow> bool" where
  "mount_inv s \<longleftrightarrow> mount_ok (fst s)"

lemma mount_step_touches:
  assumes "mount_step s s'" "mount_ok (fst s)"
  shows "mount_ok (fst s') \<and> (\<exists>fresh. snd s' = snd s @ fresh \<and> distinct fresh \<and> set fresh \<inter> set (snd s) = {} \<and>
    mset (held_by (fst s')) + mset (detached_by (mtLog (fst s'))) =
      mset (held_by (fst s)) + mset (detached_by (mtLog (fst s))) + mset fresh)"
proof -
  have idle: ?thesis if "mount_ok (fst s')" "snd s' = snd s" "mset (held_by (fst s')) + mset (detached_by (mtLog (fst s'))) =
      mset (held_by (fst s)) + mset (detached_by (mtLog (fst s)))"
    using that by simp
  have kept: ?thesis if "a < length (mtReceivers (fst s))" "touches a [] (fst s) (fst s')" "snd s' = snd s" for a
    using idle touches_ok [OF assms(2) that(1,2)] that(3) by simp
  show ?thesis
    using assms
  proof cases
    case (step_begin hears m r m' issued)
    then show ?thesis using idle mount_begin [of m hears r m'] assms(2) by simp
  next
    case (step_next a m r m' issued)
    then show ?thesis using kept touches_next [of m a r m'] assms(2) by simp
  next
    case (step_child a m i detach issued err r m')
    let ?fresh = "case detach of None \<Rightarrow> [] | Some t \<Rightarrow> [t]"
    have "touches a ?fresh m m'" using touches_child step_child assms(2) by simp
    then show ?thesis using touches_ok [of m a ?fresh m'] step_child assms(2) by (auto split: option.splits)
  next
    case (step_remove a m issued)
    then show ?thesis using kept touches_remove [of m a] assms(2) by simp
  next
    case (step_ended a m i issued code reason)
    then show ?thesis using kept touches_ended [of m a i code reason] assms(2) by simp
  next
    case (step_close m issued code reason)
    have m: "mount_ok m" using assms(2) step_close by simp
    show ?thesis
    proof (cases "mtClosed m \<or> mtCurrent m = None")
      case True
      then have c: "Close_mount code reason m = m \<or> Close_mount code reason m = m\<lparr>mtClosed := True\<rparr> \<and> mtCurrent m = None"
        by (auto simp: Close_mount_def Let_def)
      have "mount_ok (m\<lparr>mtClosed := True\<rparr>)" if "mtCurrent m = None" using mount_ok_closing [OF m that] .
      then show ?thesis using idle c m step_close by (auto simp: held_by_def)
    next
      case False
      then obtain a where a: "mtCurrent m = Some a" by auto
      show ?thesis
        using kept [of a] touches_close [OF m a] mount_ok_rest(1) [OF m a] False step_close by simp
    qed
  qed
qed

lemma Mount_ok: "mount_ok (Mount children)"
  by (simp add: mount_ok_def Mount_def)

interpretation mount: invariant mount_start mount_step mount_inv
  by unfold_locales (auto simp: mount_start_def mount_inv_def Mount_ok mount_step_touches)

interpretation mount_lent: borrowing mount_start mount_step snd "\<lambda>s. held_by (fst s)" "\<lambda>s. detached_by (mtLog (fst s))"
proof
  show "snd s = [] \<and> held_by (fst s) = [] \<and> detached_by (mtLog (fst s)) = []" if "mount_start s" for s
    using that by (auto simp: mount_start_def Mount_def held_by_def)
next
  fix s s' assume "reachable mount_start mount_step s" "mount_step s s'"
  then show "\<exists>fresh. snd s' = snd s @ fresh \<and> distinct fresh \<and> set fresh \<inter> set (snd s) = {} \<and>
      mset (held_by (fst s')) + mset (detached_by (mtLog (fst s'))) =
        mset (held_by (fst s)) + mset (detached_by (mtLog (fst s))) + mset fresh"
    using mount_step_touches mount.always by (auto simp: mount_inv_def)
qed

lemma held_token:
  assumes "mount_ok m" "t \<in> set (held_by m)"
  shows "\<exists>a. mtCurrent m = Some a \<and> (\<exists>slot \<in> set (mrSlots (mtReceivers m ! a)). slDetach slot = Some t \<and> \<not> slEnded slot)"
proof -
  obtain r where "r \<in> set (mtReceivers m)" "t \<in> set (receiver_tokens r)" using assms(2) by (auto simp: held_by_def)
  then obtain a where a: "a < length (mtReceivers m)" "t \<in> set (receiver_tokens (mtReceivers m ! a))"
    by (metis in_set_conv_nth)
  then obtain slot where slot: "slot \<in> set (mrSlots (mtReceivers m ! a))" "slDetach slot = Some t"
    by (auto simp: receiver_tokens_def slot_tokens_def split: option.splits)
  have "mrActive (mtReceivers m ! a)" "\<not> slEnded slot"
    using mount_okD(1) [OF assms(1) a(1)] a(2) slot by (auto simp: receiver_ok_def)
  then show ?thesis using slot mount_okD(2) [OF assms(1) a(1)] by auto
qed

text \<open>C28: A mount returns every attachment it borrowed, once: in every state its methods, its
  disposers and the children's endings can lead to, each disposer a child gave it was either called
  once, or belongs to the attachment the mount has now and to a child of it that has not ended; a
  closed mount has called all of them.  A receiver is told \<open>Closed\<close> at most once, and only when its
  attachment is over; and an attachment whose children all ended is over.\<close>

theorem mount_returns_what_it_borrows:
  assumes "reachable mount_start mount_step (m, issued)"
  shows "distinct (detached_by (mtLog m)) \<and> set (detached_by (mtLog m)) \<subseteq> set issued \<and>
    (\<forall>t \<in> set issued - set (detached_by (mtLog m)). \<exists>a. mtCurrent m = Some a \<and>
       (\<exists>slot \<in> set (mrSlots (mtReceivers m ! a)). slDetach slot = Some t \<and> \<not> slEnded slot)) \<and>
    (mtClosed m \<longrightarrow> set (detached_by (mtLog m)) = set issued) \<and>
    (\<forall>a. times_told a (mtLog m) \<le> (if mtCurrent m = Some a then 0 else 1)) \<and>
    (\<forall>a. mtCurrent m = Some a \<longrightarrow> mtKeys m \<noteq> [] \<longrightarrow> (\<exists>slot \<in> set (mrSlots (mtReceivers m ! a)). \<not> slEnded slot))"
proof -
  have ok: "mount_ok m" using mount.always [OF assms] by (simp add: mount_inv_def)
  have lent: "distinct (detached_by (mtLog m))" "set issued = set (held_by m) \<union> set (detached_by (mtLog m))"
    using mount_lent.returned_once [OF assms] by auto
  have "held_by m = []" if "mtClosed m"
    using held_token [OF ok] mount_ok_rest(3) [OF ok that] by (cases "held_by m") auto
  moreover have "times_told a (mtLog m) \<le> (if mtCurrent m = Some a then 0 else 1)" for a
    using mount_okD [OF ok, of a] mount_ok_rest(1,2) [OF ok, of a] by (cases "a < length (mtReceivers m)") auto
  moreover have "\<exists>slot \<in> set (mrSlots (mtReceivers m ! a)). \<not> slEnded slot" if "mtCurrent m = Some a" "mtKeys m \<noteq> []" for a
  proof -
    have a: "a < length (mtReceivers m)" using mount_ok_rest(1) [OF ok that(1)] .
    have "0 < length (filter (\<lambda>slot. \<not> slEnded slot) (mrSlots (mtReceivers m ! a)))"
      using mount_okD(1,2) [OF ok a] that by (auto simp: receiver_ok_def)
    then show ?thesis by (auto simp: filter_empty_conv)
  qed
  ultimately show ?thesis using lent held_token [OF ok] by auto
qed

definition demo_mount :: mounted where
  "demo_mount = Mount [(''k'', Some (Borrowed 0)), (''gone'', None)]"

definition demo_mounted :: mounted where
  "demo_mounted = snd (Receive_child 0 None (Some 7) (snd (Receive_next 0 (snd (Receive_begin True demo_mount)))))"

lemma demo_mounted_reached: "reachable mount_start mount_step (demo_mounted, [7])"
proof -
  let ?m1 = "snd (Receive_begin True demo_mount)"
  let ?m2 = "snd (Receive_next 0 ?m1)"
  have "reachable mount_start mount_step (demo_mount, [])"
    by (rule reachable_start) (auto simp: mount_start_def demo_mount_def)
  moreover have "mount_step (demo_mount, []) (?m1, [])" by (rule step_begin [of True _ "fst (Receive_begin True demo_mount)"]) simp
  moreover have "mount_step (?m1, []) (?m2, [])"
    by (rule step_next [of 0 _ "fst (Receive_next 0 ?m1)"]) (simp_all add: Receive_begin_def demo_mount_def Mount_def Let_def)
  moreover have "mount_step (?m2, []) (demo_mounted, [] @ (case Some 7 of None \<Rightarrow> [] | Some t \<Rightarrow> [t]))"
  proof (rule step_child [of 0 _ 0 _ _ None "fst (Receive_child 0 None (Some 7) ?m2)"])
    show "0 < length (mtReceivers ?m2)" "mrTurn (mtReceivers ?m2 ! 0) = Borrowing 0" by code_simp+
  qed (simp_all add: demo_mounted_def)
  ultimately show ?thesis by (metis append_Nil option.simps(5) reachable_step)
qed

theorem mount_returns_what_it_borrows_witness:
  "mtCurrent demo_mounted = Some 0 \<and> set (detached_by (mtLog (Close_mount 1000 [] demo_mounted))) = {7} \<and>
   times_told 0 (mtLog (Close_mount 1000 [] demo_mounted)) \<le> 1"
proof -
  have "mount_step (demo_mounted, [7]) (Close_mount 1000 [] demo_mounted, [7])" by (rule step_close)
  then have r: "reachable mount_start mount_step (Close_mount 1000 [] demo_mounted, [7])"
    using demo_mounted_reached by (rule reachable_step [rotated])
  have "mtCurrent demo_mounted = Some 0" "mtClosed (Close_mount 1000 [] demo_mounted)"
    "mtCurrent (Close_mount 1000 [] demo_mounted) = None" by code_simp+
  then show ?thesis using mount_returns_what_it_borrows [OF r] by auto
qed

end
