(* ===== verification/Duplex_Through.thy ===== *)
theory Duplex_Through
  imports Duplex_Mount
begin

text \<open>
  \<open>duplex/go/through.go\<close>: the single attachment of a \<open>Through\<close>, borrowed from its origin.  The
  pointer to the attached receiver, which Go compares, is the number of the call that attached it.
\<close>

record through =
  thClosed :: bool
  thDetach :: "nat option"
  thReceiver :: "nat option"
  thHears :: "bool list"
  thPending :: "nat list"
  thLog :: "wire_note list"

definition Through :: through where
  "Through = \<lparr>thClosed = False, thDetach = None, thReceiver = None, thHears = [], thPending = [], thLog = []\<rparr>"

definition through_note :: "wire_note list \<Rightarrow> through \<Rightarrow> through" where
  "through_note ns w = w\<lparr>thLog := thLog w @ ns\<rparr>"

definition detach_notes :: "nat option \<Rightarrow> wire_note list" where
  "detach_notes detach = (case detach of None \<Rightarrow> [] | Some t \<Rightarrow> [Detached t])"

definition Through_begin :: "bool \<Rightarrow> through \<Rightarrow> (receive_error + nat) \<times> through" where
  "Through_begin hears w =
     (if thClosed w then (Inl (OwnError WireClosed), w)
      else if thReceiver w \<noteq> None then (Inl (OwnError ErrReceiverExists), w)
      else
        let attached = length (thHears w) in
        (Inr attached, w\<lparr>thHears := thHears w @ [hears], thReceiver := Some attached, thPending := thPending w @ [attached]\<rparr>))"

text \<open>After the origin's \<open>Receive\<close>, which answered an error or a disposer.\<close>

definition Through_attached :: "nat \<Rightarrow> string + nat \<Rightarrow> through \<Rightarrow> (receive_error + unit) \<times> through" where
  "Through_attached a answer w =
     (let w = w\<lparr>thPending := removeAll a (thPending w)\<rparr>; current = (thReceiver w = Some a) in
      case answer of
        Inl e \<Rightarrow> (Inl (LenderError e), if current then w\<lparr>thReceiver := None\<rparr> else w)
      | Inr t \<Rightarrow>
          if current then (Inr (), w\<lparr>thDetach := Some t\<rparr>)
          else (Inl (OwnError WireClosed), through_note [Detached t] w))"

definition Through_release :: "nat \<Rightarrow> through \<Rightarrow> through" where
  "Through_release a w =
     (if thReceiver w \<noteq> Some a then w
      else through_note (detach_notes (thDetach w)) (w\<lparr>thReceiver := None, thDetach := None\<rparr>))"

text \<open>\<open>end\<close>, called by the origin for a receiver it had, or by \<open>Close\<close> for none.\<close>

definition Through_end :: "nat option \<Rightarrow> int \<Rightarrow> string \<Rightarrow> through \<Rightarrow> through" where
  "Through_end attached code reason w =
     (if thClosed w then w
      else
        let current = thReceiver w; detach = thDetach w;
            w = w\<lparr>thClosed := True, thReceiver := None, thDetach := None\<rparr>;
            w = through_note (detach_notes detach) w
        in (case current of
              None \<Rightarrow> w
            | Some a \<Rightarrow>
                if (attached = None \<or> attached = Some a) \<and> thHears w ! a
                then through_note [ToldClosed a code reason] w else w))"

definition Through_Close :: "int \<Rightarrow> string \<Rightarrow> through \<Rightarrow> through" where
  "Through_Close code reason w = Through_end None code reason w"

inductive through_step :: "through \<times> nat list \<Rightarrow> through \<times> nat list \<Rightarrow> bool" where
  through_step_begin: "Through_begin hears w = (r, w') \<Longrightarrow> through_step (w, issued) (w', issued)"
| through_step_attached: "a \<in> set (thPending w) \<Longrightarrow> (\<And>t. answer = Inr t \<Longrightarrow> t \<notin> set issued) \<Longrightarrow>
    Through_attached a answer w = (r, w') \<Longrightarrow>
    through_step (w, issued) (w', issued @ (case answer of Inl e \<Rightarrow> [] | Inr t \<Rightarrow> [t]))"
| through_step_release: "through_step (w, issued) (Through_release a w, issued)"
| through_step_end: "a < length (thHears w) \<Longrightarrow> through_step (w, issued) (Through_end (Some a) code reason w, issued)"
| through_step_close: "through_step (w, issued) (Through_Close code reason w, issued)"

definition through_start :: "through \<times> nat list \<Rightarrow> bool" where
  "through_start s \<longleftrightarrow> s = (Through, [])"

lemma detach_notes_simps [simp]:
  "detached_by (detach_notes d) = (case d of None \<Rightarrow> [] | Some t \<Rightarrow> [t])" "times_told a (detach_notes d) = 0"
  by (simp_all add: detach_notes_def split: option.split)

definition told_ok :: "bool \<Rightarrow> nat \<Rightarrow> wire_note list \<Rightarrow> bool" where
  "told_ok closed n log \<longleftrightarrow> (\<forall>a. times_told a log \<le> (if closed \<and> a < n then 1 else 0))"

lemma told_ok_note:
  assumes "told_ok closed n log" "closed \<longrightarrow> closed'" "n \<le> n'"
  shows "told_ok closed' n' (log @ detach_notes d)"
proof -
  have "times_told a log \<le> (if closed' \<and> a < n' then 1 else 0)" for a
    using assms(1) [unfolded told_ok_def, rule_format, of a] assms(2,3) by (auto split: if_splits)
  then show ?thesis unfolding told_ok_def by simp
qed

lemma told_ok_more: "told_ok closed n log \<Longrightarrow> n \<le> n' \<Longrightarrow> told_ok closed n' log"
  using told_ok_note [of closed n log closed n' None] by (simp add: detach_notes_def)

lemma told_ok_tell:
  assumes "told_ok False n log" "a < n"
  shows "told_ok True n ((log @ detach_notes d) @ [ToldClosed a code reason])"
proof -
  have "times_told b log = 0" for b using assms(1) [unfolded told_ok_def, rule_format, of b] by simp
  then show ?thesis using assms(2) unfolding told_ok_def by simp
qed

definition through_ok :: "through \<times> nat list \<Rightarrow> bool" where
  "through_ok s \<longleftrightarrow> (case s of (w, issued) \<Rightarrow>
     (thReceiver w = None \<longrightarrow> thDetach w = None) \<and> (thClosed w \<longrightarrow> thReceiver w = None) \<and>
     (\<forall>a \<in> set (thPending w). thReceiver w = Some a \<longrightarrow> thDetach w = None) \<and>
     (\<forall>a. thReceiver w = Some a \<longrightarrow> a < length (thHears w)) \<and>
     (\<forall>a \<in> set (thPending w). a < length (thHears w)) \<and>
     told_ok (thClosed w) (length (thHears w)) (thLog w))"

lemma through_note_simps [simp]:
  "thClosed (through_note ns w) = thClosed w" "thDetach (through_note ns w) = thDetach w"
  "thReceiver (through_note ns w) = thReceiver w" "thHears (through_note ns w) = thHears w"
  "thPending (through_note ns w) = thPending w" "thLog (through_note ns w) = thLog w @ ns"
  by (simp_all add: through_note_def)

lemmas through_defs = Through_begin_def Through_attached_def Through_release_def Through_end_def Through_Close_def

definition thHeld :: "through \<Rightarrow> nat list" where
  "thHeld w = (case thDetach w of None \<Rightarrow> [] | Some t \<Rightarrow> [t])"

definition through_conserves :: "through \<times> nat list \<Rightarrow> through \<times> nat list \<Rightarrow> bool" where
  "through_conserves s s' \<longleftrightarrow> (\<exists>fresh. snd s' = snd s @ fresh \<and> distinct fresh \<and> set fresh \<inter> set (snd s) = {} \<and>
     mset (thHeld (fst s')) + mset (detached_by (thLog (fst s'))) =
       mset (thHeld (fst s)) + mset (detached_by (thLog (fst s))) + mset fresh)"

lemma through_end_ok:
  assumes "through_ok (w, issued)"
  shows "through_ok (Through_end attached code reason w, issued) \<and>
    through_conserves (w, issued) (Through_end attached code reason w, issued)"
proof (cases "thClosed w")
  case True
  then show ?thesis using assms by (simp add: Through_end_def through_conserves_def)
next
  case False
  let ?w = "through_note (detach_notes (thDetach w)) (w\<lparr>thClosed := True, thReceiver := None, thDetach := None\<rparr>)"
  have told: "told_ok False (length (thHears w)) (thLog w)" and pending: "\<forall>a \<in> set (thPending w). a < length (thHears w)"
    using assms False by (simp_all add: through_ok_def)
  have ends: "Through_end attached code reason w = ?w \<or>
      (\<exists>a. thReceiver w = Some a \<and> Through_end attached code reason w = through_note [ToldClosed a code reason] ?w)"
    using False by (auto simp: Through_end_def Let_def split: option.splits)
  have "told_ok True (length (thHears w)) (thLog w @ detach_notes (thDetach w))" using told by (rule told_ok_note) simp_all
  moreover have "told_ok True (length (thHears w)) ((thLog w @ detach_notes (thDetach w)) @ [ToldClosed a code reason])"
    if "thReceiver w = Some a" for a
    using told by (rule told_ok_tell) (use assms that in \<open>simp add: through_ok_def\<close>)
  ultimately show ?thesis using ends pending
    by (elim disjE exE conjE) (simp_all add: through_ok_def through_conserves_def thHeld_def split: option.split)
qed

lemma through_step_ok:
  assumes "through_ok s" "through_step s s'"
  shows "through_ok s' \<and> through_conserves s s'"
  using assms(2,1)
proof cases
  case (through_step_begin hears w r w' issued)
  show ?thesis
  proof (cases "thClosed w \<or> thReceiver w \<noteq> None")
    case True
    then show ?thesis using through_step_begin assms(1) by (auto simp: Through_begin_def through_conserves_def split: if_splits)
  next
    case False
    let ?n = "length (thHears w)"
    have w': "w' = w\<lparr>thHears := thHears w @ [hears], thReceiver := Some ?n, thPending := thPending w @ [?n]\<rparr>"
      using False through_step_begin by (simp add: Through_begin_def Let_def)
    have ok: "through_ok (w, issued)" using assms(1) through_step_begin by simp
    then have told: "told_ok (thClosed w) (length (thHears w)) (thLog w)" "thDetach w = None"
      and pending: "\<forall>a \<in> set (thPending w). a < ?n" using False by (simp_all add: through_ok_def)
    have "told_ok (thClosed w) (Suc ?n) (thLog w)" using told(1) by (rule told_ok_more) simp
    then have "through_ok (w', issued)" using told(2) pending False by (auto simp: through_ok_def w')
    then show ?thesis using through_step_begin by (simp add: through_conserves_def w' thHeld_def)
  qed
next
  case (through_step_attached a w answer issued r w')
  have ok: "through_ok (w, issued)" using assms(1) through_step_attached by simp
  then have told: "told_ok (thClosed w) (length (thHears w)) (thLog w)" by (simp add: through_ok_def)
  have told': "told_ok (thClosed w) (length (thHears w)) (thLog w @ [Detached t])" for t
    using told_ok_note [OF told, of "thClosed w" "length (thHears w)" "Some t"] by (simp add: detach_notes_def)
  show ?thesis
    using through_step_attached ok told' by (cases answer; cases "thReceiver w = Some a")
      (auto simp: through_ok_def through_conserves_def Through_attached_def thHeld_def Let_def)
next
  case (through_step_release w issued a)
  have ok: "through_ok (w, issued)" using assms(1) through_step_release by simp
  then have "told_ok (thClosed w) (length (thHears w)) (thLog w)" by (simp add: through_ok_def)
  then have "told_ok (thClosed w) (length (thHears w)) (thLog w @ detach_notes (thDetach w))" by (rule told_ok_note) simp_all
  then show ?thesis using ok through_step_release
    by (auto simp: through_ok_def through_conserves_def Through_release_def thHeld_def split: option.split)
next
  case (through_step_end a w issued code reason)
  then show ?thesis using assms(1) through_end_ok [of w issued "Some a" code reason] by simp
next
  case (through_step_close w issued code reason)
  then show ?thesis using assms(1) through_end_ok [of w issued None code reason] by (simp add: Through_Close_def)
qed

lemma Through_start_ok: "through_ok (Through, [])"
  by (simp add: through_ok_def Through_def told_ok_def)

interpretation through: invariant through_start through_step through_ok
  by unfold_locales (auto simp: through_start_def Through_start_ok through_step_ok)

interpretation through_lent: borrowing through_start through_step snd "\<lambda>s. thHeld (fst s)" "\<lambda>s. detached_by (thLog (fst s))"
proof
  show "snd s = [] \<and> thHeld (fst s) = [] \<and> detached_by (thLog (fst s)) = []" if "through_start s" for s
    using that by (simp add: through_start_def Through_def thHeld_def)
next
  fix s s' assume "reachable through_start through_step s" "through_step s s'"
  then show "\<exists>fresh. snd s' = snd s @ fresh \<and> distinct fresh \<and> set fresh \<inter> set (snd s) = {} \<and>
      mset (thHeld (fst s')) + mset (detached_by (thLog (fst s'))) =
        mset (thHeld (fst s)) + mset (detached_by (thLog (fst s))) + mset fresh"
    using through_step_ok through.always unfolding through_conserves_def by blast
qed

text \<open>A \<open>Through\<close> returns every attachment its origin lent it, once: a disposer that was not
  called yet is the one of the receiver attached now, and a closed \<open>Through\<close> has called all of them;
  a receiver is told \<open>Closed\<close> at most once, and not before the \<open>Through\<close> is closed.\<close>

theorem through_returns_what_it_borrows:
  assumes "reachable through_start through_step (w, issued)"
  shows "distinct (detached_by (thLog w)) \<and> set (detached_by (thLog w)) \<subseteq> set issued \<and>
    (\<forall>t \<in> set issued - set (detached_by (thLog w)). thDetach w = Some t \<and> thReceiver w \<noteq> None) \<and>
    (thClosed w \<longrightarrow> set (detached_by (thLog w)) = set issued) \<and>
    (\<forall>a. times_told a (thLog w) \<le> (if thClosed w then 1 else 0))"
proof -
  have ok: "through_ok (w, issued)" using through.always [OF assms] .
  have lent: "distinct (detached_by (thLog w))" "set issued = set (thHeld w) \<union> set (detached_by (thLog w))"
    using through_lent.returned_once [OF assms] by auto
  have "t \<in> set (thHeld w) \<Longrightarrow> thDetach w = Some t \<and> thReceiver w \<noteq> None \<and> \<not> thClosed w" for t
    using ok by (auto simp: thHeld_def through_ok_def split: option.splits)
  moreover have "times_told a (thLog w) \<le> (if thClosed w then 1 else 0)" for a
    using ok by (auto simp: through_ok_def told_ok_def dest: spec [of _ a] split: if_splits)
  ultimately show ?thesis using lent by auto
qed

definition demo_through :: through where
  "demo_through = snd (Through_attached 0 (Inr 4) (snd (Through_begin True Through)))"

theorem through_returns_what_it_borrows_witness:
  "thDetach demo_through = Some 4 \<and> set (detached_by (thLog (Through_Close 1000 [] demo_through))) = {4}"
proof -
  let ?w1 = "snd (Through_begin True Through)"
  have "reachable through_start through_step (Through, [])" by (rule reachable_start) (simp add: through_start_def)
  moreover have "through_step (Through, []) (?w1, [])" by (rule through_step_begin [of True _ "fst (Through_begin True Through)"]) simp
  moreover have "through_step (?w1, []) (demo_through, [] @ (case (Inr 4 :: string + nat) of Inl e \<Rightarrow> [] | Inr t \<Rightarrow> [t]))"
    by (rule through_step_attached [of 0 _ "Inr 4" _ "fst (Through_attached 0 (Inr 4) ?w1)"])
       (simp_all add: demo_through_def Through_begin_def Through_def Let_def)
  moreover have "through_step (demo_through, [4]) (Through_Close 1000 [] demo_through, [4])" by (rule through_step_close)
  ultimately have "reachable through_start through_step (Through_Close 1000 [] demo_through, [4])"
    by (metis append_Nil reachable_step sum.simps(6))
  moreover have "thClosed (Through_Close 1000 [] demo_through)" "thDetach demo_through = Some 4" by code_simp+
  ultimately show ?thesis using through_returns_what_it_borrows by fastforce
qed

end
