(* ===== verification/Duplex_Pipe.thy ===== *)
theory Duplex_Pipe
  imports Duplex_Frame Transitions
begin

text \<open>
  \<open>duplex/go/pipe.go\<close>: the two ends of a connection in memory.  A \<open>select\<close> takes any case that is
  ready; which one is an argument, and a case that is not ready has no result.  \<open>Send\<close> and
  \<open>Receive\<close> are two selects each, and anything can happen between them.
\<close>

datatype pipe_error = EndClosed | NoKind | RemoteClosed int string | ContextEnded | OverLimit nat int

datatype ready = OwnDone | RemoteDone | FrameReady | ContextDone | DefaultCase

record pipe_end =
  peLimit :: int
  peFrames :: "frame list"
  peDone :: bool
  peClosed :: "(int \<times> string) option"

text \<open>An end is named by a boolean; \<open>peFrames\<close> of an end are the frames it sent.\<close>

type_synonym pipe = "bool \<Rightarrow> pipe_end"

definition inFlight :: nat where "inFlight = 8"

definition Pipe :: "int \<Rightarrow> pipe" where
  "Pipe limit = (\<lambda>e. \<lparr>peLimit = limit, peFrames = [], peDone = False, peClosed = None\<rparr>)"

definition end_pipe :: "bool \<Rightarrow> (int \<times> string) option \<Rightarrow> pipe \<Rightarrow> pipe" where
  "end_pipe e closed p = (if peDone (p e) then p else p(e := (p e)\<lparr>peDone := True, peClosed := closed\<rparr>))"

definition remoteError :: "bool \<Rightarrow> pipe \<Rightarrow> pipe_error" where
  "remoteError e p =
     (case peClosed (p (\<not> e)) of
        Some (code, reason) \<Rightarrow> RemoteClosed code reason
      | None \<Rightarrow> RemoteClosed CodeAbnormalClosure [])"

definition send_first :: "bool \<Rightarrow> frame \<Rightarrow> ready \<Rightarrow> pipe \<Rightarrow> (pipe_error + unit) option" where
  "send_first e f taken p =
     (if Kind f \<noteq> Text \<and> Kind f \<noteq> Binary then Some (Inl NoKind)
      else case taken of
        OwnDone \<Rightarrow> if peDone (p e) then Some (Inl EndClosed) else None
      | RemoteDone \<Rightarrow> if peDone (p (\<not> e)) then Some (Inl (remoteError e p)) else None
      | DefaultCase \<Rightarrow> if \<not> peDone (p e) \<and> \<not> peDone (p (\<not> e)) then Some (Inr ()) else None
      | _ \<Rightarrow> None)"

definition send_second :: "bool \<Rightarrow> frame \<Rightarrow> bool \<Rightarrow> ready \<Rightarrow> pipe \<Rightarrow> ((pipe_error + unit) \<times> pipe) option" where
  "send_second e f cancelled taken p =
     (case taken of
        FrameReady \<Rightarrow>
          if length (peFrames (p e)) < inFlight
          then Some (Inr (), p(e := (p e)\<lparr>peFrames := peFrames (p e) @ [f]\<rparr>)) else None
      | ContextDone \<Rightarrow> if cancelled then Some (Inl ContextEnded, p) else None
      | OwnDone \<Rightarrow> if peDone (p e) then Some (Inl EndClosed, p) else None
      | RemoteDone \<Rightarrow> if peDone (p (\<not> e)) then Some (Inl (remoteError e p), p) else None
      | DefaultCase \<Rightarrow> None)"

definition receive_first :: "bool \<Rightarrow> ready \<Rightarrow> pipe \<Rightarrow> (pipe_error + unit) option" where
  "receive_first e taken p =
     (case taken of
        OwnDone \<Rightarrow> if peDone (p e) then Some (Inl EndClosed) else None
      | DefaultCase \<Rightarrow> if \<not> peDone (p e) then Some (Inr ()) else None
      | _ \<Rightarrow> None)"

definition deliver_frame :: "bool \<Rightarrow> frame \<Rightarrow> pipe \<Rightarrow> (pipe_error + frame) \<times> pipe" where
  "deliver_frame e f p =
     (if peLimit (p e) > 0 \<and> int (length (Data f)) > peLimit (p e)
      then (Inl (OverLimit (length (Data f)) (peLimit (p e))), end_pipe e None p)
      else (Inr f, p))"

definition receive_frame :: "bool \<Rightarrow> pipe \<Rightarrow> ((pipe_error + frame) \<times> pipe) option" where
  "receive_frame e p =
     (case peFrames (p (\<not> e)) of
        [] \<Rightarrow> None
      | f # fs \<Rightarrow> Some (deliver_frame e f (p((\<not> e) := (p (\<not> e))\<lparr>peFrames := fs\<rparr>))))"

definition receive_second :: "bool \<Rightarrow> bool \<Rightarrow> ready \<Rightarrow> pipe \<Rightarrow> ((pipe_error + frame) \<times> pipe) option" where
  "receive_second e cancelled taken p =
     (case taken of
        FrameReady \<Rightarrow> receive_frame e p
      | ContextDone \<Rightarrow> if cancelled then Some (Inl ContextEnded, p) else None
      | OwnDone \<Rightarrow> if peDone (p e) then Some (Inl EndClosed, p) else None
      | RemoteDone \<Rightarrow>
          if peDone (p (\<not> e))
          then (case receive_frame e p of None \<Rightarrow> Some (Inl (remoteError e p), p) | Some r \<Rightarrow> Some r)
          else None
      | DefaultCase \<Rightarrow> None)"

definition Close_pipe :: "bool \<Rightarrow> int \<Rightarrow> string \<Rightarrow> pipe \<Rightarrow> pipe" where
  "Close_pipe e code reason p = end_pipe e (Some (code, reason)) p"

definition Abort_pipe :: "bool \<Rightarrow> pipe \<Rightarrow> pipe" where
  "Abort_pipe e p = end_pipe e None p"

section \<open>The runs of a pipe\<close>

text \<open>
  Beside the pipe, a run keeps the call each end is in and what happened: the frames whose \<open>Send\<close>
  succeeded, those a \<open>Receive\<close> returned, and those it refused for their size.
\<close>

record pipe_run =
  prPipe :: pipe
  prSending :: "bool \<Rightarrow> frame option"
  prReceiving :: "bool \<Rightarrow> bool"
  prSent :: "bool \<Rightarrow> frame list"
  prGot :: "bool \<Rightarrow> frame list"
  prRefused :: "bool \<Rightarrow> frame list"

definition send_done :: "bool \<Rightarrow> frame \<Rightarrow> (pipe_error + unit) \<times> pipe \<Rightarrow> pipe_run \<Rightarrow> pipe_run" where
  "send_done e f answer s =
     (case answer of (r, p) \<Rightarrow>
        s\<lparr>prPipe := p, prSending := (prSending s)(e := None),
          prSent := (case r of Inl _ \<Rightarrow> prSent s | Inr _ \<Rightarrow> (prSent s)(e := prSent s e @ [f]))\<rparr>)"

definition receive_done :: "bool \<Rightarrow> (pipe_error + frame) \<times> pipe \<Rightarrow> pipe_run \<Rightarrow> pipe_run" where
  "receive_done e answer s =
     (case answer of (r, p) \<Rightarrow>
        let s' = s\<lparr>prPipe := p, prReceiving := (prReceiving s)(e := False)\<rparr> in
        (case r of
           Inr f \<Rightarrow> s'\<lparr>prGot := (prGot s)(e := prGot s e @ [f])\<rparr>
         | Inl (OverLimit n limit) \<Rightarrow> s'\<lparr>prRefused := (prRefused s)(e := prRefused s e @ [hd (peFrames (prPipe s (\<not> e)))])\<rparr>
         | Inl _ \<Rightarrow> s'))"

inductive pipe_step :: "pipe_run \<Rightarrow> pipe_run \<Rightarrow> bool" where
  pipe_send: "prSending s e = None \<Longrightarrow> send_first e f taken (prPipe s) = Some (Inr ()) \<Longrightarrow>
    pipe_step s (s\<lparr>prSending := (prSending s)(e := Some f)\<rparr>)"
| pipe_sent: "prSending s e = Some f \<Longrightarrow> send_second e f cancelled taken (prPipe s) = Some answer \<Longrightarrow>
    pipe_step s (send_done e f answer s)"
| pipe_receive: "\<not> prReceiving s e \<Longrightarrow> receive_first e taken (prPipe s) = Some (Inr ()) \<Longrightarrow>
    pipe_step s (s\<lparr>prReceiving := (prReceiving s)(e := True)\<rparr>)"
| pipe_received: "prReceiving s e \<Longrightarrow> receive_second e cancelled taken (prPipe s) = Some answer \<Longrightarrow>
    pipe_step s (receive_done e answer s)"
| pipe_close: "pipe_step s (s\<lparr>prPipe := Close_pipe e code reason (prPipe s)\<rparr>)"
| pipe_abort: "pipe_step s (s\<lparr>prPipe := Abort_pipe e (prPipe s)\<rparr>)"

definition pipe_start :: "pipe_run \<Rightarrow> bool" where
  "pipe_start s \<longleftrightarrow> (\<exists>limit. s = \<lparr>prPipe = Pipe limit, prSending = \<lambda>e. None, prReceiving = \<lambda>e. False,
     prSent = \<lambda>e. [], prGot = \<lambda>e. [], prRefused = \<lambda>e. []\<rparr>)"

definition fits :: "int \<Rightarrow> frame \<Rightarrow> bool" where
  "fits limit f \<longleftrightarrow> (0 < limit \<longrightarrow> int (length (Data f)) \<le> limit)"

definition framed :: "frame \<Rightarrow> bool" where
  "framed f \<longleftrightarrow> Kind f = Text \<or> Kind f = Binary"

definition direction_ok :: "pipe_run \<Rightarrow> bool \<Rightarrow> bool" where
  "direction_ok s e \<longleftrightarrow>
     prSent s e = prGot s (\<not> e) @ prRefused s (\<not> e) @ peFrames (prPipe s e) \<and>
     length (peFrames (prPipe s e)) \<le> inFlight \<and>
     (\<forall>f \<in> set (prSent s e). framed f) \<and> (\<forall>f. prSending s e = Some f \<longrightarrow> framed f) \<and>
     (\<forall>f \<in> set (prGot s (\<not> e)). fits (peLimit (prPipe s (\<not> e))) f) \<and>
     (prRefused s (\<not> e) = [] \<or>
        (\<exists>f. prRefused s (\<not> e) = [f] \<and> \<not> fits (peLimit (prPipe s (\<not> e))) f) \<and>
        peDone (prPipe s (\<not> e)) \<and> \<not> prReceiving s (\<not> e))"

definition pipe_ok :: "pipe_run \<Rightarrow> bool" where
  "pipe_ok s \<longleftrightarrow> (\<forall>e. direction_ok s e)"

lemma receive_frame_Some:
  "receive_frame e p = Some answer \<longleftrightarrow>
     (\<exists>f fs. peFrames (p (\<not> e)) = f # fs \<and> answer = deliver_frame e f (p((\<not> e) := (p (\<not> e))\<lparr>peFrames := fs\<rparr>)))"
  by (auto simp: receive_frame_def split: list.splits)

lemma end_pipe_simps [simp]:
  "peLimit (end_pipe e closed p d) = peLimit (p d)" "peFrames (end_pipe e closed p d) = peFrames (p d)"
  "peDone (end_pipe e closed p d) \<longleftrightarrow> peDone (p d) \<or> d = e"
  by (auto simp: end_pipe_def)

lemma direction_end: "direction_ok s e \<Longrightarrow> direction_ok (s\<lparr>prPipe := end_pipe d closed (prPipe s)\<rparr>) e"
  by (auto simp: direction_ok_def)

lemma direction_send: "direction_ok s d \<Longrightarrow> framed f \<Longrightarrow> direction_ok (s\<lparr>prSending := (prSending s)(e := Some f)\<rparr>) d"
  by (auto simp: direction_ok_def)

lemma send_second_Some:
  assumes "send_second e f cancelled taken p = Some (r, p')"
  shows "(\<exists>x. r = Inl x) \<and> p' = p \<or>
    r = Inr () \<and> length (peFrames (p e)) < inFlight \<and> p' = p(e := (p e)\<lparr>peFrames := peFrames (p e) @ [f]\<rparr>)"
proof (cases taken)
  case FrameReady
  then show ?thesis using assms unfolding send_second_def by (simp split: if_splits)
qed (use assms in \<open>auto simp: send_second_def split: if_splits\<close>)

lemma direction_sent:
  assumes ok: "direction_ok s d" and f: "prSending s e = Some f" and frames: "framed f"
    and second: "send_second e f cancelled taken (prPipe s) = Some answer"
  shows "direction_ok (send_done e f answer s) d"
proof -
  obtain r p where answer: "answer = (r, p)" by (cases answer)
  consider (error) x where "r = Inl x" "p = prPipe s"
    | (room) "r = Inr ()" "length (peFrames (prPipe s e)) < inFlight"
        "p = (prPipe s)(e := (prPipe s e)\<lparr>peFrames := peFrames (prPipe s e) @ [f]\<rparr>)"
    using send_second_Some [OF second [unfolded answer]] by blast
  then show ?thesis
  proof cases
    case error
    then show ?thesis using ok by (simp add: direction_ok_def send_done_def answer)
  next
    case room
    then show ?thesis using ok frames by (cases "e = d") (auto simp: direction_ok_def send_done_def answer)
  qed
qed

lemma direction_receive:
  assumes "direction_ok s d" "receive_first e taken (prPipe s) = Some (Inr ())"
  shows "direction_ok (s\<lparr>prReceiving := (prReceiving s)(e := True)\<rparr>) d"
proof -
  have "\<not> peDone (prPipe s e)" using assms(2) by (auto simp: receive_first_def split: ready.splits if_splits)
  then show ?thesis using assms(1) by (auto simp: direction_ok_def)
qed

lemma direction_got:
  assumes ok: "direction_ok s d" and receiving: "prReceiving s e"
    and answer: "answer = deliver_frame e f ((prPipe s)((\<not> e) := (prPipe s (\<not> e))\<lparr>peFrames := fs\<rparr>))"
    and frames: "peFrames (prPipe s (\<not> e)) = f # fs"
  shows "direction_ok (receive_done e answer s) d"
proof -
  let ?p = "(prPipe s)((\<not> e) := (prPipe s (\<not> e))\<lparr>peFrames := fs\<rparr>)"
  consider (over) "answer = (Inl (OverLimit (length (Data f)) (peLimit (prPipe s e))), end_pipe e None ?p)" "\<not> fits (peLimit (prPipe s e)) f"
    | (fine) "answer = (Inr f, ?p)" "fits (peLimit (prPipe s e)) f"
    using answer by (auto simp: deliver_frame_def fits_def split: if_splits)
  then show ?thesis
  proof cases
    case over
    show ?thesis using ok over receiving frames
      by (cases "d = (\<not> e)") (auto simp: direction_ok_def receive_done_def Let_def)
  next
    case fine
    show ?thesis using ok fine receiving frames
      by (cases "d = (\<not> e)") (auto simp: direction_ok_def receive_done_def Let_def)
  qed
qed

lemma direction_received:
  assumes ok: "direction_ok s d" and receiving: "prReceiving s e"
    and second: "receive_second e cancelled taken (prPipe s) = Some answer"
  shows "direction_ok (receive_done e answer s) d"
proof -
  consider (none) x where "answer = (Inl x, prPipe s)" "\<forall>n limit. x \<noteq> OverLimit n limit"
    | (frame) "receive_frame e (prPipe s) = Some answer"
    using second by (auto simp: receive_second_def remoteError_def split: ready.splits if_splits option.splits)
  then show ?thesis
  proof cases
    case none
    then show ?thesis using ok by (auto simp: direction_ok_def receive_done_def Let_def split: pipe_error.split)
  next
    case frame
    then show ?thesis using direction_got [OF ok receiving] unfolding receive_frame_Some by blast
  qed
qed

lemma pipe_step_ok:
  assumes "pipe_ok s" "pipe_step s s'"
  shows "pipe_ok s'"
  unfolding pipe_ok_def
proof
  fix d
  have ok: "direction_ok s e" for e using assms(1) by (simp add: pipe_ok_def)
  show "direction_ok s' d"
    using assms(2)
  proof cases
    case (pipe_send e f taken)
    then show ?thesis using direction_send [OF ok] by (auto simp: send_first_def framed_def split: if_splits)
  next
    case (pipe_sent e f cancelled taken answer)
    have "framed f" using ok [of e] pipe_sent(2) by (auto simp: direction_ok_def)
    then show ?thesis using direction_sent [OF ok] pipe_sent by simp
  next
    case (pipe_receive e taken)
    then show ?thesis using direction_receive [OF ok] by simp
  next
    case (pipe_received e cancelled taken answer)
    then show ?thesis using direction_received [OF ok] by simp
  next
    case (pipe_close e code reason)
    then show ?thesis using direction_end [OF ok] by (simp add: Close_pipe_def)
  next
    case (pipe_abort e)
    then show ?thesis using direction_end [OF ok] by (simp add: Abort_pipe_def)
  qed
qed

lemma pipe_start_ok: "pipe_start s \<Longrightarrow> pipe_ok s"
  by (auto simp: pipe_start_def pipe_ok_def direction_ok_def Pipe_def)

interpretation pipe: invariant pipe_start pipe_step pipe_ok
  by unfold_locales (fact pipe_start_ok pipe_step_ok)+

text \<open>C29: A pipe delivers what was sent, in order, and nothing else: the frames whose \<open>Send\<close>
  succeeded on one end are those \<open>Receive\<close> returned on the other, then at most one it refused for
  its size, after which that end is dead, then at most eight in flight; every frame returned is text
  or binary and within the receiver's limit.  A \<open>Receive\<close> that reports the other end's close has
  returned every frame sent there, and reports the code and reason of that close, or an abnormal
  closure after an abort.\<close>

theorem pipe_delivers_in_order:
  assumes "reachable pipe_start pipe_step s"
  shows "(\<forall>e. prSent s e = prGot s (\<not> e) @ prRefused s (\<not> e) @ peFrames (prPipe s e) \<and>
       length (peFrames (prPipe s e)) \<le> 8 \<and>
       (\<forall>f \<in> set (prGot s (\<not> e)). framed f \<and> fits (peLimit (prPipe s (\<not> e))) f) \<and>
       (prRefused s (\<not> e) = [] \<or> peDone (prPipe s (\<not> e)) \<and> length (prRefused s (\<not> e)) = 1)) \<and>
    (\<forall>e cancelled taken code reason p. prReceiving s e \<longrightarrow>
       receive_second e cancelled taken (prPipe s) = Some (Inl (RemoteClosed code reason), p) \<longrightarrow>
       prGot s e = prSent s (\<not> e) \<and> peDone (prPipe s (\<not> e)) \<and>
       (code, reason) = (case peClosed (prPipe s (\<not> e)) of None \<Rightarrow> (1006, []) | Some told \<Rightarrow> told))"
proof -
  have ok: "direction_ok s e" for e using pipe.always [OF assms] by (simp add: pipe_ok_def)
  have "prGot s e = prSent s (\<not> e) \<and> peDone (prPipe s (\<not> e)) \<and>
       (code, reason) = (case peClosed (prPipe s (\<not> e)) of None \<Rightarrow> (1006, []) | Some told \<Rightarrow> told)"
    if r: "prReceiving s e" "receive_second e cancelled taken (prPipe s) = Some (Inl (RemoteClosed code reason), p)"
    for e cancelled taken code reason p
  proof -
    have none: "receive_frame e (prPipe s) = None" "remoteError e (prPipe s) = RemoteClosed code reason" "peDone (prPipe s (\<not> e))"
      using r(2) by (auto simp: receive_second_def receive_frame_Some deliver_frame_def split: ready.splits if_splits option.splits)
    have "peFrames (prPipe s (\<not> e)) = []" using none(1) by (auto simp: receive_frame_def split: list.splits)
    moreover have "prRefused s e = []" using ok [of "\<not> e"] r(1) by (auto simp: direction_ok_def)
    ultimately show ?thesis using ok [of "\<not> e"] none(2,3)
      by (auto simp: direction_ok_def remoteError_def CodeAbnormalClosure_def split: option.splits)
  qed
  moreover have "prSent s e = prGot s (\<not> e) @ prRefused s (\<not> e) @ peFrames (prPipe s e) \<and>
       length (peFrames (prPipe s e)) \<le> 8 \<and>
       (\<forall>f \<in> set (prGot s (\<not> e)). framed f \<and> fits (peLimit (prPipe s (\<not> e))) f) \<and>
       (prRefused s (\<not> e) = [] \<or> peDone (prPipe s (\<not> e)) \<and> length (prRefused s (\<not> e)) = 1)" for e
    using ok [of e] by (auto simp: direction_ok_def inFlight_def)
  ultimately show ?thesis by blast
qed

definition demo_frame :: frame where
  "demo_frame = \<lparr>Kind = Text, Data = ''hi''\<rparr>"

definition demo_pipe :: pipe_run where
  "demo_pipe = \<lparr>prPipe = Pipe 4, prSending = \<lambda>e. None, prReceiving = \<lambda>e. False, prSent = \<lambda>e. [], prGot = \<lambda>e. [],
     prRefused = \<lambda>e. []\<rparr>"

definition demo_sent :: pipe_run where
  "demo_sent = (let s = demo_pipe\<lparr>prSending := (prSending demo_pipe)(True := Some demo_frame)\<rparr> in
     send_done True demo_frame (the (send_second True demo_frame False FrameReady (prPipe s))) s)"

definition demo_closed :: pipe_run where
  "demo_closed = (let s = demo_sent\<lparr>prReceiving := (prReceiving demo_sent)(False := True)\<rparr>;
       s = receive_done False (the (receive_second False False FrameReady (prPipe s))) s;
       s = s\<lparr>prPipe := Close_pipe True 1000 ''bye'' (prPipe s)\<rparr>
     in s\<lparr>prReceiving := (prReceiving s)(False := True)\<rparr>)"

lemma the_step: "x \<noteq> None \<Longrightarrow> x = Some (the x)"
  by simp

lemma demo_sent_reached: "reachable pipe_start pipe_step demo_sent"
proof -
  let ?s = "demo_pipe\<lparr>prSending := (prSending demo_pipe)(True := Some demo_frame)\<rparr>"
  have "reachable pipe_start pipe_step demo_pipe" by (rule reachable_start) (auto simp: pipe_start_def demo_pipe_def)
  moreover have "pipe_step demo_pipe ?s" by (rule pipe_send [where taken = DefaultCase]) code_simp+
  moreover have "pipe_step ?s demo_sent"
    unfolding demo_sent_def Let_def
    by (rule pipe_sent [where cancelled = False and taken = FrameReady]) (simp, rule the_step, code_simp)
  ultimately show ?thesis by (blast intro: reachable_step)
qed

lemma demo_closed_reached: "reachable pipe_start pipe_step demo_closed"
proof -
  let ?s1 = "demo_sent\<lparr>prReceiving := (prReceiving demo_sent)(False := True)\<rparr>"
  let ?s2 = "receive_done False (the (receive_second False False FrameReady (prPipe ?s1))) ?s1"
  let ?s3 = "?s2\<lparr>prPipe := Close_pipe True 1000 ''bye'' (prPipe ?s2)\<rparr>"
  have "pipe_step demo_sent ?s1" by (rule pipe_receive [where taken = DefaultCase]) code_simp+
  moreover have "pipe_step ?s1 ?s2"
    by (rule pipe_received [where cancelled = False and taken = FrameReady]) (simp, rule the_step, code_simp)
  moreover have "pipe_step ?s2 ?s3" by (rule pipe_close)
  moreover have "pipe_step ?s3 demo_closed"
    unfolding demo_closed_def Let_def by (rule pipe_receive [where taken = DefaultCase]) code_simp+
  ultimately show ?thesis using demo_sent_reached by (blast intro: reachable_step)
qed

theorem pipe_delivers_in_order_witness:
  "prGot demo_closed False = [demo_frame] \<and> prSent demo_closed True = prGot demo_closed False \<and>
   peClosed (prPipe demo_closed True) = Some (1000, ''bye'')"
proof -
  have got: "prGot demo_closed False = [demo_frame]" "prReceiving demo_closed False"
    "peClosed (prPipe demo_closed True) = Some (1000, ''bye'')" by code_simp+
  have "receive_second False False RemoteDone (prPipe demo_closed) = Some (Inl (RemoteClosed 1000 ''bye''), prPipe demo_closed)"
  proof -
    have "peDone (prPipe demo_closed True)" "receive_frame False (prPipe demo_closed) = None"
      "remoteError False (prPipe demo_closed) = RemoteClosed 1000 ''bye''" by code_simp+
    then show ?thesis by (simp add: receive_second_def)
  qed
  then have "prGot demo_closed False = prSent demo_closed (\<not> False)"
    using conjunct2 [OF pipe_delivers_in_order [OF demo_closed_reached]] got(2) by blast
  then show ?thesis using got by simp
qed

text \<open>
  \<open>Send\<close> on an end that was closed here answers the other end's close, not \<open>ErrClosed\<close>, when that
  end is closed too and the select takes its case.
\<close>

lemma send_after_both_closed:
  "\<exists>s. reachable pipe_start pipe_step s \<and> peDone (prPipe s True) \<and>
     send_first True demo_frame RemoteDone (prPipe s) = Some (Inl (RemoteClosed 1001 []))"
proof -
  let ?s1 = "demo_pipe\<lparr>prPipe := Close_pipe False 1001 [] (prPipe demo_pipe)\<rparr>"
  let ?s2 = "?s1\<lparr>prPipe := Close_pipe True 1000 [] (prPipe ?s1)\<rparr>"
  have "reachable pipe_start pipe_step demo_pipe" by (rule reachable_start) (auto simp: pipe_start_def demo_pipe_def)
  then have "reachable pipe_start pipe_step ?s2" by (blast intro: reachable_step pipe_close)
  moreover have "peDone (prPipe ?s2 True)" "send_first True demo_frame RemoteDone (prPipe ?s2) = Some (Inl (RemoteClosed 1001 []))"
    by code_simp+
  ultimately show ?thesis by blast
qed

end
