(* ===== verification/Duplex_Record.thy ===== *)
theory Duplex_Record
  imports Duplex_Path Transitions
begin

text \<open>
  \<open>duplex/go/record.go\<close>: a recorder that appends each admitted message to a log before it forwards it,
  and followers that replay the log and then take the records live.  The storage is an interface
  (\<open>WireLog\<close>), its operations an argument; the recorder's goroutine, each follower's goroutine and the
  callers are steps that interleave, each a section between two points where others can act.  What a
  target is handed is kept in the state, in the order of the calls.
\<close>

type_synonym 'm message = "string list \<times> 'm"
type_synonym 'm wire_record = "nat \<times> 'm message"

definition maxRecordSequence :: int where
  "maxRecordSequence = 2 ^ 53 - 1"

datatype record_error =
    RecordClosed | RecordPath | ErrRecordSequence | ErrRecordOverflow | RecordContext | RecordStorage string | TargetRefused
  | BadOptions

text \<open>The operations of a \<open>WireLog\<close>; the first argument says whether the context has ended.\<close>

record ('l, 'm) log_ops =
  logHead :: "bool \<Rightarrow> 'l \<Rightarrow> record_error + nat"
  logAppend :: "bool \<Rightarrow> string list \<Rightarrow> 'm \<Rightarrow> 'l \<Rightarrow> (record_error + nat) \<times> 'l"
  logRead :: "bool \<Rightarrow> nat \<Rightarrow> 'l \<Rightarrow> record_error + 'm wire_record"

section \<open>The log in memory\<close>

definition memory_log :: "('m wire_record list, 'm) log_ops" where
  "memory_log = \<lparr>
     logHead = (\<lambda>ended l. if ended then Inl RecordContext else Inr (length l)),
     logAppend = (\<lambda>ended p m l.
       if ended then (Inl RecordContext, l)
       else let n = length l + 1 in
         if int n > maxRecordSequence then (Inl ErrRecordSequence, l) else (Inr n, l @ [(n, p, m)])),
     logRead = (\<lambda>ended n l.
       if ended then Inl RecordContext
       else if n = 0 \<or> n > length l then Inl ErrRecordSequence else Inr (l ! (n - 1)))\<rparr>"

section \<open>The recorder and its followers\<close>

datatype 'm record_command = RecordMessage "'m message" | AskHead nat | AskFollow nat

datatype follower_turn = Running | Finished

record 'm follower =
  fwHead :: nat
  fwAfter :: nat
  fwNext :: nat
  fwLive :: "'m wire_record list"
  fwStopped :: bool
  fwCancelled :: bool
  fwError :: "record_error option"
  fwTurn :: follower_turn
  fwSent :: "'m wire_record list"

datatype 'm run_turn = Taking | Holding "'m message" | Recorded "'m wire_record" | Offered "'m wire_record" "nat list" | Stopped

record ('l, 'm) recorder =
  rdLog :: 'l
  rdMax :: nat
  rdQueue :: "'m record_command list"
  rdClosed :: bool
  rdError :: "record_error option"
  rdHead :: nat
  rdFollowing :: "nat list"
  rdFollowers :: "'m follower list"
  rdTurn :: "'m run_turn"
  rdSent :: "'m message list"
  rdAdmitted :: "'m message list"
  rdAsked :: "nat list"
  rdHeads :: "(nat \<times> nat) list"

text \<open>\<open>Record\<close>; \<open>ended\<close> is the state of the setup's context, and \<open>0\<close> selects the default bound.\<close>

definition Record :: "('l, 'm) log_ops \<Rightarrow> bool \<Rightarrow> int \<Rightarrow> 'l \<Rightarrow> record_error + ('l, 'm) recorder" where
  "Record ops ended bound l =
     (let bound = (if bound = 0 then 64 else bound) in
      if bound < 1 then Inl BadOptions
      else if ended then Inl RecordContext
      else case logHead ops ended l of
        Inl e \<Rightarrow> Inl e
      | Inr head \<Rightarrow>
          if int head > maxRecordSequence then Inl ErrRecordSequence
          else Inr \<lparr>rdLog = l, rdMax = nat bound, rdQueue = [], rdClosed = False, rdError = None, rdHead = head,
            rdFollowing = [], rdFollowers = [], rdTurn = Taking, rdSent = [], rdAdmitted = [], rdAsked = [], rdHeads = []\<rparr>)"

definition update_follower :: "nat \<Rightarrow> ('m follower \<Rightarrow> 'm follower) \<Rightarrow> ('l, 'm) recorder \<Rightarrow> ('l, 'm) recorder" where
  "update_follower i g s = s\<lparr>rdFollowers := (rdFollowers s)[i := g (rdFollowers s ! i)]\<rparr>"

definition end_recorder :: "record_error option \<Rightarrow> ('l, 'm) recorder \<Rightarrow> ('l, 'm) recorder" where
  "end_recorder e s = (if rdClosed s then s else s\<lparr>rdClosed := True, rdError := e\<rparr>)"

definition admit_command :: "'m record_command \<Rightarrow> ('l, 'm) recorder \<Rightarrow> (record_error + unit) \<times> ('l, 'm) recorder" where
  "admit_command command s =
     (if rdClosed s then (Inl RecordClosed, s)
      else if length (rdQueue s) < rdMax s then (Inr (), s\<lparr>rdQueue := rdQueue s @ [command]\<rparr>)
      else (Inl ErrRecordOverflow, end_recorder (Some ErrRecordOverflow) s))"

definition Send_record :: "'m message \<Rightarrow> ('l, 'm) recorder \<Rightarrow> (record_error + unit) \<times> ('l, 'm) recorder" where
  "Send_record message s =
     (if EncodePath (fst message) = None then (Inl RecordPath, s)
      else case admit_command (RecordMessage message) s of
        (Inl e, s) \<Rightarrow> (Inl e, s)
      | (Inr u, s) \<Rightarrow> (Inr (), s\<lparr>rdAdmitted := rdAdmitted s @ [message]\<rparr>))"

text \<open>\<open>Head\<close> up to the wait for its answer; the question keeps how many messages were admitted before it.\<close>

definition Head_ask :: "bool \<Rightarrow> ('l, 'm) recorder \<Rightarrow> (record_error + nat) \<times> ('l, 'm) recorder" where
  "Head_ask ended s =
     (if ended then (Inl RecordContext, s)
      else case admit_command (AskHead (length (rdAsked s))) s of
        (Inl e, s) \<Rightarrow> (Inl e, s)
      | (Inr u, s) \<Rightarrow> (Inr (length (rdAsked s)), s\<lparr>rdAsked := rdAsked s @ [length (rdAdmitted s)]\<rparr>))"

definition Follow_ask :: "bool \<Rightarrow> nat \<Rightarrow> ('l, 'm) recorder \<Rightarrow> (record_error + unit) \<times> ('l, 'm) recorder" where
  "Follow_ask ended after s = (if ended then (Inl RecordContext, s) else admit_command (AskFollow after) s)"

definition end_follower :: "nat \<Rightarrow> record_error option \<Rightarrow> ('l, 'm) recorder \<Rightarrow> ('l, 'm) recorder" where
  "end_follower i e s =
     (if fwStopped (rdFollowers s ! i) then s
      else (update_follower i (\<lambda>f. f\<lparr>fwStopped := True, fwCancelled := True, fwError := e\<rparr>) s)
        \<lparr>rdFollowing := removeAll i (rdFollowing s)\<rparr>)"

section \<open>The recorder's goroutine\<close>

text \<open>The closure \<open>Follow\<close> queues: the answer is the follower's number.\<close>

definition register_follower :: "bool \<Rightarrow> nat \<Rightarrow> ('l, 'm) recorder \<Rightarrow> (record_error + nat) \<times> ('l, 'm) recorder" where
  "register_follower ended after s =
     (if ended then (Inl RecordContext, s)
      else if after > rdHead s then (Inl ErrRecordSequence, s)
      else if rdClosed s then (Inl RecordClosed, s)
      else
        let i = length (rdFollowers s) in
        (Inr i, s\<lparr>rdFollowers := rdFollowers s @ [\<lparr>fwHead = rdHead s, fwAfter = after, fwNext = after + 1, fwLive = [],
             fwStopped = False, fwCancelled = False, fwError = None, fwTurn = Running, fwSent = []\<rparr>],
           rdFollowing := rdFollowing s @ [i]\<rparr>))"

text \<open>One command from the queue; \<open>ended\<close> is the state of a follow's own context.\<close>

definition run_take :: "bool \<Rightarrow> ('l, 'm) recorder \<Rightarrow> ('l, 'm) recorder" where
  "run_take ended s =
     (case rdQueue s of
        [] \<Rightarrow> s
      | command # queue \<Rightarrow>
          let s = s\<lparr>rdQueue := queue\<rparr> in
          if rdClosed s then s\<lparr>rdTurn := Stopped, rdQueue := []\<rparr>
          else (case command of
            RecordMessage message \<Rightarrow> s\<lparr>rdTurn := Holding message\<rparr>
          | AskHead k \<Rightarrow> s\<lparr>rdHeads := rdHeads s @ [(k, rdHead s)]\<rparr>
          | AskFollow after \<Rightarrow> snd (register_follower ended after s)))"

definition run_stop :: "('l, 'm) recorder \<Rightarrow> ('l, 'm) recorder" where
  "run_stop s = s\<lparr>rdTurn := Stopped, rdQueue := []\<rparr>"

definition run_append :: "('l, 'm) log_ops \<Rightarrow> 'm message \<Rightarrow> ('l, 'm) recorder \<Rightarrow> ('l, 'm) recorder" where
  "run_append ops message s =
     (case logAppend ops (rdClosed s) (fst message) (snd message) (rdLog s) of
        (Inl e, l) \<Rightarrow> run_stop (end_recorder (Some e) (s\<lparr>rdLog := l\<rparr>))
      | (Inr n, l) \<Rightarrow>
          if n \<noteq> rdHead s + 1 \<or> int n > maxRecordSequence
          then run_stop (end_recorder (Some ErrRecordSequence) (s\<lparr>rdLog := l\<rparr>))
          else s\<lparr>rdLog := l, rdHead := n, rdTurn := Recorded (n, message)\<rparr>)"

definition offer :: "nat \<Rightarrow> 'm wire_record \<Rightarrow> 'm follower \<Rightarrow> bool \<times> 'm follower" where
  "offer bound r f =
     (if fwStopped f then (True, f)
      else if length (fwLive f) < bound then (True, f\<lparr>fwLive := fwLive f @ [r]\<rparr>)
      else (False, f))"

definition run_offer :: "'m wire_record \<Rightarrow> ('l, 'm) recorder \<Rightarrow> ('l, 'm) recorder" where
  "run_offer r s =
     s\<lparr>rdFollowers := map (\<lambda>(i, f). if i \<in> set (rdFollowing s) then snd (offer (rdMax s) r f) else f)
         (enumerate 0 (rdFollowers s)),
       rdTurn := Offered r (filter (\<lambda>i. \<not> fst (offer (rdMax s) r (rdFollowers s ! i))) (rdFollowing s))\<rparr>"

definition run_forward :: "bool \<Rightarrow> 'm wire_record \<Rightarrow> nat list \<Rightarrow> ('l, 'm) recorder \<Rightarrow> ('l, 'm) recorder" where
  "run_forward refused r overflow s =
     (let s = fold (\<lambda>i. end_follower i (Some ErrRecordOverflow)) overflow s in
      if rdClosed s then run_stop s
      else
        let s = s\<lparr>rdSent := rdSent s @ [snd r]\<rparr> in
        if refused then run_stop (end_recorder (Some TargetRefused) s) else s\<lparr>rdTurn := Taking\<rparr>)"

section \<open>A follower's goroutine\<close>

text \<open>The deferred part of its \<open>run\<close>.\<close>

definition follower_exit :: "nat \<Rightarrow> ('l, 'm) recorder \<Rightarrow> ('l, 'm) recorder" where
  "follower_exit i s =
     (let s = end_follower i (if fwCancelled (rdFollowers s ! i) then Some RecordContext else None) s in
      update_follower i (\<lambda>f. f\<lparr>fwTurn := Finished, fwLive := []\<rparr>) s)"

definition follower_send :: "nat \<Rightarrow> bool \<Rightarrow> 'm wire_record \<Rightarrow> ('l, 'm) recorder \<Rightarrow> bool \<times> ('l, 'm) recorder" where
  "follower_send i refused r s =
     (if fwCancelled (rdFollowers s ! i) then (False, s)
      else
        let s = update_follower i (\<lambda>f. f\<lparr>fwSent := fwSent f @ [r]\<rparr>) s in
        if refused then (False, end_follower i (Some TargetRefused) s) else (True, s))"

definition follower_replay :: "('l, 'm) log_ops \<Rightarrow> nat \<Rightarrow> bool \<Rightarrow> ('l, 'm) recorder \<Rightarrow> ('l, 'm) recorder" where
  "follower_replay ops i refused s =
     (let f = rdFollowers s ! i in
      case logRead ops (fwCancelled f) (fwNext f) (rdLog s) of
        Inl e \<Rightarrow> if fwCancelled f then follower_exit i s else follower_exit i (end_follower i (Some e) s)
      | Inr r \<Rightarrow>
          if fst r \<noteq> fwNext f then follower_exit i (end_follower i (Some ErrRecordSequence) s)
          else (case follower_send i refused r s of
            (True, s) \<Rightarrow> update_follower i (\<lambda>f. f\<lparr>fwNext := fwNext f + 1\<rparr>) s
          | (False, s) \<Rightarrow> follower_exit i s))"

definition follower_take :: "nat \<Rightarrow> bool \<Rightarrow> ('l, 'm) recorder \<Rightarrow> ('l, 'm) recorder" where
  "follower_take i refused s =
     (case fwLive (rdFollowers s ! i) of
        [] \<Rightarrow> s
      | r # live \<Rightarrow>
          (case follower_send i refused r s of
             (True, s) \<Rightarrow> update_follower i (\<lambda>f. f\<lparr>fwLive := live\<rparr>) s
           | (False, s) \<Rightarrow> follower_exit i s))"

definition follower_cancel :: "nat \<Rightarrow> ('l, 'm) recorder \<Rightarrow> ('l, 'm) recorder" where
  "follower_cancel i s = update_follower i (\<lambda>f. f\<lparr>fwCancelled := True\<rparr>) s"

section \<open>The runs\<close>

inductive record_step :: "('l, 'm) log_ops \<Rightarrow> ('l, 'm) recorder \<Rightarrow> ('l, 'm) recorder \<Rightarrow> bool" for ops where
  step_send: "Send_record message s = (answer, s') \<Longrightarrow> record_step ops s s'"
| step_head: "Head_ask ended s = (answer, s') \<Longrightarrow> record_step ops s s'"
| step_follow: "Follow_ask ended after s = (answer, s') \<Longrightarrow> record_step ops s s'"
| step_close: "record_step ops s (end_recorder None s)"
| step_take: "rdTurn s = Taking \<Longrightarrow> record_step ops s (run_take ended s)"
| step_stop: "rdTurn s = Taking \<Longrightarrow> rdClosed s \<Longrightarrow> record_step ops s (run_stop s)"
| step_append: "rdTurn s = Holding message \<Longrightarrow> record_step ops s (run_append ops message s)"
| step_offer: "rdTurn s = Recorded r \<Longrightarrow> record_step ops s (run_offer r s)"
| step_forward: "rdTurn s = Offered r overflow \<Longrightarrow> record_step ops s (run_forward refused r overflow s)"
| step_end_follower: "i < length (rdFollowers s) \<Longrightarrow> record_step ops s (end_follower i e s)"
| step_cancel: "i < length (rdFollowers s) \<Longrightarrow> record_step ops s (follower_cancel i s)"
| step_replay: "i < length (rdFollowers s) \<Longrightarrow> fwTurn (rdFollowers s ! i) = Running \<Longrightarrow>
    fwNext (rdFollowers s ! i) \<le> fwHead (rdFollowers s ! i) \<Longrightarrow> record_step ops s (follower_replay ops i refused s)"
| step_live: "i < length (rdFollowers s) \<Longrightarrow> fwTurn (rdFollowers s ! i) = Running \<Longrightarrow>
    fwHead (rdFollowers s ! i) < fwNext (rdFollowers s ! i) \<Longrightarrow> record_step ops s (follower_take i refused s)"
| step_exit: "i < length (rdFollowers s) \<Longrightarrow> fwTurn (rdFollowers s ! i) = Running \<Longrightarrow>
    fwHead (rdFollowers s ! i) < fwNext (rdFollowers s ! i) \<Longrightarrow> fwCancelled (rdFollowers s ! i) \<Longrightarrow>
    record_step ops s (follower_exit i s)"

definition record_start :: "('l, 'm) log_ops \<Rightarrow> 'l \<Rightarrow> ('l, 'm) recorder \<Rightarrow> bool" where
  "record_start ops l s \<longleftrightarrow> (\<exists>ended bound. Record ops ended bound l = Inr s)"

end
