(* ===== verification/Duplex_Record_Inv.thy ===== *)
theory Duplex_Record_Inv
  imports Duplex_Record
begin

text \<open>
  What a recorder and its followers promise over any storage that appends and reads as \<open>WireLog\<close> says
  (the locale), and that the log in memory does.
\<close>

section \<open>Stretches of a log\<close>

definition recs :: "nat \<Rightarrow> nat \<Rightarrow> 'm message list \<Rightarrow> 'm wire_record list" where
  "recs a n es = map (\<lambda>k. (Suc k, es ! k)) [a..<n]"

lemma recs_append: "n \<le> length es \<Longrightarrow> recs a n (es @ xs) = recs a n es"
  by (auto simp: recs_def nth_append)

lemma recs_Suc: "a \<le> n \<Longrightarrow> recs a (Suc n) es = recs a n es @ [(Suc n, es ! n)]"
  by (simp add: recs_def)

lemma recs_Cons: "a < n \<Longrightarrow> recs a n es = (Suc a, es ! a) # recs (Suc a) n es"
  by (simp add: recs_def upt_conv_Cons)

lemma recs_empty [simp]: "n \<le> a \<Longrightarrow> recs a n es = []"
  by (simp add: recs_def)

lemma length_recs [simp]: "length (recs a n es) = n - a"
  by (simp add: recs_def)

lemma recs_prefix:
  assumes "xs @ ys = recs a n es"
  shows "xs = recs a (a + length xs) es" "xs = [] \<or> a + length xs \<le> n"
proof -
  have len: "length xs + length ys = n - a" using arg_cong [OF assms, of length] by simp
  have "xs = take (length xs) (recs a n es)" using assms by (metis append_eq_conv_conj)
  also have "\<dots> = map (\<lambda>k. (Suc k, es ! k)) (take (length xs) [a..<n])" by (simp add: recs_def take_map)
  also have "\<dots> = recs a (a + length xs) es"
    using len by (cases "a \<le> n") (auto simp: recs_def)
  finally show "xs = recs a (a + length xs) es" .
  show "xs = [] \<or> a + length xs \<le> n" using len by (cases xs) auto
qed

section \<open>The invariant\<close>

definition follower_ok :: "'m message list \<Rightarrow> nat option \<Rightarrow> 'm follower \<Rightarrow> bool" where
  "follower_ok es u f \<longleftrightarrow>
     fwAfter f + length (fwSent f) \<le> length es \<and> fwSent f = recs (fwAfter f) (fwAfter f + length (fwSent f)) es \<and>
     (fwTurn f = Running \<longrightarrow>
        fwAfter f \<le> fwHead f \<and> fwHead f \<le> length es \<and> fwAfter f < fwNext f \<and> fwNext f \<le> fwHead f + 1 \<and>
        (\<exists>n. fwHead f \<le> n \<and> n \<le> length es \<and>
           fwSent f @ recs (fwNext f - 1) (fwHead f) es @ fwLive f = recs (fwAfter f) n es \<and>
           (\<forall>m. u = Some m \<longrightarrow> n = m)))"

fun queued :: "'m record_command list \<Rightarrow> 'm message list" where
  "queued [] = []"
| "queued (RecordMessage m # q) = m # queued q"
| "queued (AskHead k # q) = queued q"
| "queued (AskFollow after # q) = queued q"

fun fences_ok :: "nat \<Rightarrow> nat list \<Rightarrow> nat \<Rightarrow> 'm record_command list \<Rightarrow> bool" where
  "fences_ok start asked n [] = True"
| "fences_ok start asked n (RecordMessage m # q) = fences_ok start asked (Suc n) q"
| "fences_ok start asked n (AskHead k # q) = (k < length asked \<and> start + asked ! k = n \<and> fences_ok start asked n q)"
| "fences_ok start asked n (AskFollow after # q) = fences_ok start asked n q"

lemma queued_append [simp]: "queued (q @ q') = queued q @ queued q'"
  by (induction q rule: queued.induct) auto

lemma fences_append: "fences_ok start asked n (q @ q') \<longleftrightarrow> fences_ok start asked n q \<and> fences_ok start asked (n + length (queued q)) q'"
  by (induction start asked n q rule: fences_ok.induct) auto

lemma fences_more: "fences_ok start asked n q \<Longrightarrow> fences_ok start (asked @ ks) n q"
  by (induction start asked n q rule: fences_ok.induct) (auto simp: nth_append)

fun turn_messages :: "'m run_turn \<Rightarrow> 'm message list" where
  "turn_messages (Holding m) = [m]"
| "turn_messages turn = []"

fun turn_unsent :: "'m run_turn \<Rightarrow> 'm message list" where
  "turn_unsent (Recorded r) = [snd r]"
| "turn_unsent (Offered r overflow) = [snd r]"
| "turn_unsent turn = []"

text \<open>Up to which record every follower of the recorder was offered the log, unless its queue was full.\<close>

definition offered_to :: "('l, 'm) recorder \<Rightarrow> nat \<Rightarrow> nat option" where
  "offered_to s i =
     (if i \<notin> set (rdFollowing s) then None
      else case rdTurn s of
        Recorded r \<Rightarrow> Some (rdHead s - 1)
      | Offered r overflow \<Rightarrow> if i \<in> set overflow then None else Some (rdHead s)
      | _ \<Rightarrow> Some (rdHead s))"

definition recorder_ok :: "'m message list \<Rightarrow> 'm message list \<Rightarrow> ('l, 'm) recorder \<Rightarrow> bool" where
  "recorder_ok base es s \<longleftrightarrow>
     rdHead s \<le> length es \<and> prefix es (base @ rdAdmitted s) \<and> prefix (base @ rdSent s) es \<and>
     (rdTurn s \<noteq> Stopped \<longrightarrow>
        rdHead s = length es \<and> base @ rdAdmitted s = es @ turn_messages (rdTurn s) @ queued (rdQueue s) \<and>
        base @ rdSent s @ turn_unsent (rdTurn s) = es \<and>
        fences_ok (length base) (rdAsked s) (length es + length (turn_messages (rdTurn s))) (rdQueue s)) \<and>
     (rdTurn s = Stopped \<longrightarrow> rdClosed s \<and> rdQueue s = []) \<and>
     (\<forall>r. rdTurn s = Recorded r \<or> (\<exists>overflow. rdTurn s = Offered r overflow) \<longrightarrow> 0 < rdHead s \<and> r = (rdHead s, es ! (rdHead s - 1))) \<and>
     (\<forall>(k, h) \<in> set (rdHeads s). k < length (rdAsked s) \<and> h = length base + rdAsked s ! k \<and> h \<le> length es)"

definition followers_ok :: "'m message list \<Rightarrow> ('l, 'm) recorder \<Rightarrow> bool" where
  "followers_ok es s \<longleftrightarrow>
     (\<forall>i < length (rdFollowers s). follower_ok es (offered_to s i) (rdFollowers s ! i)) \<and>
     (\<forall>i \<in> set (rdFollowing s). i < length (rdFollowers s) \<and> \<not> fwStopped (rdFollowers s ! i))"

lemma follower_ok_less: "follower_ok es u f \<Longrightarrow> follower_ok es None f"
  by (auto simp: follower_ok_def)

lemma follower_ok_more:
  assumes "follower_ok es u f"
  shows "follower_ok (es @ xs) u f"
proof -
  have "recs (fwAfter f) (fwAfter f + length (fwSent f)) (es @ xs) = recs (fwAfter f) (fwAfter f + length (fwSent f)) es"
    by (rule recs_append) (use assms in \<open>simp add: follower_ok_def\<close>)
  moreover have "recs (fwNext f - 1) (fwHead f) (es @ xs) = recs (fwNext f - 1) (fwHead f) es" if "fwTurn f = Running"
    using assms that by (auto simp: follower_ok_def intro: recs_append)
  moreover have "recs (fwAfter f) n (es @ xs) = recs (fwAfter f) n es" if "n \<le> length es" for n
    using that by (rule recs_append)
  ultimately show ?thesis using assms unfolding follower_ok_def by fastforce
qed

text \<open>The flags of a follower do not matter to its records.\<close>

lemma follower_ok_flags [simp]:
  "follower_ok es u (f\<lparr>fwStopped := b\<rparr>) = follower_ok es u f"
  "follower_ok es u (f\<lparr>fwCancelled := b\<rparr>) = follower_ok es u f"
  "follower_ok es u (f\<lparr>fwError := e\<rparr>) = follower_ok es u f"
  by (simp_all add: follower_ok_def)

lemma follower_ok_finished: "follower_ok es u f \<Longrightarrow> follower_ok es u' (f\<lparr>fwLive := [], fwTurn := Finished\<rparr>)"
  by (simp add: follower_ok_def)

lemma follower_ok_offer:
  assumes ok: "follower_ok es (Some n) f" and r: "r = (Suc n, es ! n)" and n: "n < length es" and live: "\<not> fwStopped f"
  shows "follower_ok es (if fst (offer bound r f) then Some (Suc n) else None) (snd (offer bound r f))"
proof (cases "length (fwLive f) < bound")
  case True
  have "recs (fwAfter f) (Suc n) es = recs (fwAfter f) n es @ [r]" if "fwTurn f = Running"
    using ok that unfolding r follower_ok_def by (intro recs_Suc) auto
  then show ?thesis using ok n live True by (auto simp: follower_ok_def offer_def)
next
  case False
  then show ?thesis using follower_ok_less [OF ok] live by (simp add: offer_def)
qed

text \<open>A follower hands on the next record: replayed, or the first of those it holds.\<close>

lemma follower_ok_replay:
  assumes ok: "follower_ok es u f" and turn: "fwTurn f = Running" and left: "fwNext f \<le> fwHead f"
    and r: "r = (fwNext f, es ! (fwNext f - 1))"
  shows "follower_ok es u (f\<lparr>fwSent := fwSent f @ [r], fwNext := fwNext f + 1\<rparr>)"
proof -
  obtain n where n: "fwHead f \<le> n" "n \<le> length es" "\<forall>m. u = Some m \<longrightarrow> n = m"
    and all: "fwSent f @ recs (fwNext f - 1) (fwHead f) es @ fwLive f = recs (fwAfter f) n es"
    and order: "fwAfter f < fwNext f" "fwAfter f \<le> fwHead f" "fwHead f \<le> length es"
    using ok turn by (auto simp: follower_ok_def)
  have "recs (fwNext f - 1) (fwHead f) es = r # recs (fwNext f) (fwHead f) es"
    using left order(1) r by (subst recs_Cons) simp_all
  then have all': "(fwSent f @ [r]) @ recs (fwNext f) (fwHead f) es @ fwLive f = recs (fwAfter f) n es" using all by simp
  have "fwSent f @ [r] = recs (fwAfter f) (fwAfter f + length (fwSent f @ [r])) es" "fwAfter f + length (fwSent f @ [r]) \<le> n"
    using recs_prefix [OF all'] by auto
  then show ?thesis using all' n order left turn unfolding follower_ok_def by auto
qed

lemma follower_ok_take:
  assumes ok: "follower_ok es u f" and turn: "fwTurn f = Running" and past: "fwHead f < fwNext f" and live: "fwLive f = r # live"
  shows "follower_ok es u (f\<lparr>fwSent := fwSent f @ [r], fwLive := live\<rparr>)"
proof -
  obtain n where n: "fwHead f \<le> n" "n \<le> length es" "\<forall>m. u = Some m \<longrightarrow> n = m"
    and all: "fwSent f @ recs (fwNext f - 1) (fwHead f) es @ fwLive f = recs (fwAfter f) n es"
    and order: "fwAfter f < fwNext f" "fwAfter f \<le> fwHead f" "fwHead f \<le> length es" "fwNext f \<le> fwHead f + 1"
    using ok turn by (auto simp: follower_ok_def)
  have all': "(fwSent f @ [r]) @ recs (fwNext f - 1) (fwHead f) es @ live = recs (fwAfter f) n es" using all past live by simp
  have "fwSent f @ [r] = recs (fwAfter f) (fwAfter f + length (fwSent f @ [r])) es" "fwAfter f + length (fwSent f @ [r]) \<le> n"
    using recs_prefix [OF all'] by auto
  then show ?thesis using all' n order turn unfolding follower_ok_def by auto
qed

section \<open>The callers\<close>

definition inv_ok :: "'m message list \<Rightarrow> 'm message list \<Rightarrow> ('l, 'm) recorder \<Rightarrow> bool" where
  "inv_ok base es s \<longleftrightarrow> recorder_ok base es s \<and> followers_ok es s"

lemma followers_ok_same:
  assumes "followers_ok es s" "rdFollowers s' = rdFollowers s" "rdFollowing s' = rdFollowing s" "rdTurn s' = rdTurn s" "rdHead s' = rdHead s"
  shows "followers_ok es s'"
proof -
  have "offered_to s' = offered_to s" by (rule ext) (simp only: offered_to_def assms(3-5))
  then show ?thesis using assms(1-3) unfolding followers_ok_def by simp
qed

lemma followers_ok_turn:
  assumes "followers_ok es s" "rdFollowers s' = rdFollowers s" "rdFollowing s' = rdFollowing s" "rdHead s' = rdHead s"
    and "rdTurn s = Taking \<or> (\<exists>m. rdTurn s = Holding m)" "\<forall>r overflow. rdTurn s' \<noteq> Recorded r \<and> rdTurn s' \<noteq> Offered r overflow"
  shows "followers_ok es s'"
proof -
  have "offered_to s' i = offered_to s i" for i
    using assms(3-6) by (auto simp: offered_to_def split: run_turn.split)
  then show ?thesis using assms(1-3) by (simp add: followers_ok_def)
qed

lemma end_recorder_ok: "inv_ok base es s \<Longrightarrow> inv_ok base es (end_recorder e s)"
  using followers_ok_same [of es s "end_recorder e s"]
  by (auto simp: inv_ok_def recorder_ok_def end_recorder_def)

lemma queue_ok:
  assumes ok: "inv_ok base es s" and turn: "\<not> rdClosed s"
    and fence: "fences_ok (length base) asked (length es + length (turn_messages (rdTurn s)) + length (queued (rdQueue s))) [command]"
    and asked: "asked = rdAsked s @ ks" and admitted: "admitted = rdAdmitted s @ queued [command]"
  shows "inv_ok base es (s\<lparr>rdQueue := rdQueue s @ [command], rdAdmitted := admitted, rdAsked := asked\<rparr>)"
proof -
  have "prefix es (base @ admitted)" using ok admitted unfolding inv_ok_def recorder_ok_def by (metis append.assoc prefix_prefix)
  then show ?thesis
    using ok turn fence followers_ok_same [of es s "s\<lparr>rdQueue := rdQueue s @ [command], rdAdmitted := admitted, rdAsked := asked\<rparr>"]
    by (auto simp: inv_ok_def recorder_ok_def asked admitted fences_append nth_append intro: fences_more)
qed

lemma admit_command_cases:
  "admit_command command s = (Inl RecordClosed, s) \<and> rdClosed s \<or>
   admit_command command s = (Inl ErrRecordOverflow, end_recorder (Some ErrRecordOverflow) s) \<or>
   admit_command command s = (Inr (), s\<lparr>rdQueue := rdQueue s @ [command]\<rparr>) \<and> \<not> rdClosed s"
  by (auto simp: admit_command_def)

lemma admitted_length:
  assumes "inv_ok base es s" "rdTurn s \<noteq> Stopped"
  shows "length base + length (rdAdmitted s) = length es + length (turn_messages (rdTurn s)) + length (queued (rdQueue s))"
proof -
  have "base @ rdAdmitted s = es @ turn_messages (rdTurn s) @ queued (rdQueue s)"
    using assms by (simp add: inv_ok_def recorder_ok_def)
  from arg_cong [OF this, of length] show ?thesis by simp
qed

lemma caller_ok:
  assumes ok: "inv_ok base es s"
  shows "Send_record message s = (r, s') \<Longrightarrow> inv_ok base es s'"
    "Head_ask ended s = (r', s') \<Longrightarrow> inv_ok base es s'"
    "Follow_ask ended after s = (r, s') \<Longrightarrow> inv_ok base es s'"
proof -
  have opened: "rdTurn s \<noteq> Stopped" if "\<not> rdClosed s" using ok that by (auto simp: inv_ok_def recorder_ok_def)
  show "inv_ok base es s'" if "Send_record message s = (r, s')"
    using that admit_command_cases [of "RecordMessage message" s] ok end_recorder_ok [OF ok]
      queue_ok [OF ok, of "rdAsked s" "RecordMessage message" "[]" "rdAdmitted s @ [message]"]
    by (auto simp: Send_record_def split: if_splits)
  show "inv_ok base es s'" if "Head_ask ended s = (r', s')"
    using that admit_command_cases [of "AskHead (length (rdAsked s))" s] ok end_recorder_ok [OF ok]
      queue_ok [OF ok, of "rdAsked s @ [length (rdAdmitted s)]" "AskHead (length (rdAsked s))" "[length (rdAdmitted s)]" "rdAdmitted s"]
      admitted_length [OF ok opened]
    by (auto simp: Head_ask_def split: if_splits)
  show "inv_ok base es s'" if "Follow_ask ended after s = (r, s')"
    using that admit_command_cases [of "AskFollow after" s] ok end_recorder_ok [OF ok]
      queue_ok [OF ok, of "rdAsked s" "AskFollow after" "[]" "rdAdmitted s"]
    by (auto simp: Follow_ask_def split: if_splits)
qed

section \<open>The recorder's goroutine\<close>

lemma recorder_ok_same:
  assumes "recorder_ok base es s" "rdHead s' = rdHead s" "rdAdmitted s' = rdAdmitted s" "rdSent s' = rdSent s" "rdTurn s' = rdTurn s"
    "rdQueue s' = rdQueue s" "rdAsked s' = rdAsked s" "rdClosed s' = rdClosed s" "rdHeads s' = rdHeads s"
  shows "recorder_ok base es s'"
  using assms(1) unfolding recorder_ok_def assms(2-9) .

lemma run_stop_ok:
  assumes "inv_ok base es s" "rdClosed s" "rdTurn s = Taking \<or> (\<exists>m. rdTurn s = Holding m)"
  shows "inv_ok base es (run_stop s)"
  using assms followers_ok_turn [of es s "run_stop s"] by (auto simp: inv_ok_def recorder_ok_def run_stop_def)

lemma register_ok:
  assumes ok: "inv_ok base es s" and turn: "rdTurn s = Taking" and r: "register_follower ended after s = (r, s')"
  shows "inv_ok base es s'"
proof (cases "ended \<or> after > rdHead s \<or> rdClosed s")
  case True
  then show ?thesis using ok r by (auto simp: register_follower_def split: if_splits)
next
  case False
  let ?i = "length (rdFollowers s)"
  let ?f = "\<lparr>fwHead = rdHead s, fwAfter = after, fwNext = after + 1, fwLive = [], fwStopped = False, fwCancelled = False,
     fwError = None, fwTurn = Running, fwSent = []\<rparr>"
  have s': "s' = s\<lparr>rdFollowers := rdFollowers s @ [?f], rdFollowing := rdFollowing s @ [?i]\<rparr>"
    using r False by (simp add: register_follower_def Let_def)
  have head: "rdHead s = length es" using ok turn by (simp add: inv_ok_def recorder_ok_def)
  have new: "follower_ok es (Some (rdHead s)) ?f" using False head by (auto simp: follower_ok_def)
  have fs: "followers_ok es s" using ok by (simp add: inv_ok_def)
  then have old: "i < ?i" if "i \<in> set (rdFollowing s)" for i using that by (simp add: followers_ok_def)
  have "follower_ok es (offered_to s' i) (rdFollowers s' ! i)" if "i < length (rdFollowers s')" for i
  proof (cases "i = ?i")
    case True
    then show ?thesis using new turn by (simp add: s' offered_to_def)
  next
    case False
    then have "offered_to s' i = offered_to s i" "i < ?i" using that turn by (simp_all add: s' offered_to_def)
    then show ?thesis using fs by (simp add: s' nth_append followers_ok_def)
  qed
  moreover have "i < length (rdFollowers s') \<and> \<not> fwStopped (rdFollowers s' ! i)" if "i \<in> set (rdFollowing s')" for i
    using that fs by (auto simp: s' nth_append followers_ok_def)
  ultimately have "followers_ok es s'" by (simp add: followers_ok_def)
  moreover have "recorder_ok base es s'"
    by (rule recorder_ok_same [of base es s]) (use ok in \<open>simp_all add: s' inv_ok_def\<close>)
  ultimately show ?thesis by (simp add: inv_ok_def)
qed

lemma run_take_ok:
  assumes ok: "inv_ok base es s" and turn: "rdTurn s = Taking"
  shows "inv_ok base es (run_take ended s)"
proof (cases "rdQueue s")
  case Nil
  then show ?thesis using ok by (simp add: run_take_def)
next
  case (Cons command queue)
  let ?s = "s\<lparr>rdQueue := queue\<rparr>"
  have r: "recorder_ok base es s" and fs: "followers_ok es s" using ok by (simp_all add: inv_ok_def)
  have same: "followers_ok es ?s" using fs by (rule followers_ok_same) simp_all
  show ?thesis
  proof (cases "rdClosed s")
    case True
    then show ?thesis using r Cons followers_ok_turn [OF fs, of "?s\<lparr>rdTurn := Stopped, rdQueue := []\<rparr>"] turn
      by (auto simp: run_take_def Let_def inv_ok_def recorder_ok_def)
  next
    case False
    show ?thesis
    proof (cases command)
      case (RecordMessage m)
      then have "run_take ended s = ?s\<lparr>rdTurn := Holding m\<rparr>" using Cons False by (simp add: run_take_def Let_def)
      moreover have "recorder_ok base es (?s\<lparr>rdTurn := Holding m\<rparr>)"
        using r Cons turn RecordMessage by (simp add: recorder_ok_def)
      moreover have "followers_ok es (?s\<lparr>rdTurn := Holding m\<rparr>)" using fs by (rule followers_ok_turn) (use turn in simp_all)
      ultimately show ?thesis by (simp add: inv_ok_def)
    next
      case (AskHead k)
      then have t: "run_take ended s = ?s\<lparr>rdHeads := rdHeads s @ [(k, rdHead s)]\<rparr>" using Cons False by (simp add: run_take_def Let_def)
      have "recorder_ok base es (?s\<lparr>rdHeads := rdHeads s @ [(k, rdHead s)]\<rparr>)"
        using r Cons turn AskHead by (auto simp: recorder_ok_def)
      moreover have "followers_ok es (?s\<lparr>rdHeads := rdHeads s @ [(k, rdHead s)]\<rparr>)" using fs by (rule followers_ok_same) simp_all
      ultimately show ?thesis by (simp add: inv_ok_def t)
    next
      case (AskFollow after)
      then have "run_take ended s = snd (register_follower ended after ?s)" using Cons False by (simp add: run_take_def Let_def)
      moreover have "inv_ok base es ?s" using r Cons turn AskFollow same by (simp add: inv_ok_def recorder_ok_def)
      ultimately show ?thesis using register_ok [of base es ?s ended after] turn by (metis prod.collapse recorder.surjective recorder.update_convs(3) recorder.select_convs(9))
    qed
  qed
qed

lemma update_follower_simps [simp]:
  "rdLog (update_follower i g s) = rdLog s" "rdQueue (update_follower i g s) = rdQueue s" "rdClosed (update_follower i g s) = rdClosed s"
  "rdHead (update_follower i g s) = rdHead s" "rdFollowing (update_follower i g s) = rdFollowing s"
  "rdTurn (update_follower i g s) = rdTurn s" "rdSent (update_follower i g s) = rdSent s"
  "rdAdmitted (update_follower i g s) = rdAdmitted s" "rdAsked (update_follower i g s) = rdAsked s"
  "rdHeads (update_follower i g s) = rdHeads s" "rdMax (update_follower i g s) = rdMax s"
  "rdFollowers (update_follower i g s) = (rdFollowers s)[i := g (rdFollowers s ! i)]"
  by (simp_all add: update_follower_def)

lemma end_follower_simps [simp]:
  "rdLog (end_follower i e s) = rdLog s" "rdQueue (end_follower i e s) = rdQueue s" "rdClosed (end_follower i e s) = rdClosed s"
  "rdHead (end_follower i e s) = rdHead s" "rdTurn (end_follower i e s) = rdTurn s" "rdSent (end_follower i e s) = rdSent s"
  "rdAdmitted (end_follower i e s) = rdAdmitted s" "rdAsked (end_follower i e s) = rdAsked s"
  "rdHeads (end_follower i e s) = rdHeads s" "rdMax (end_follower i e s) = rdMax s"
  "length (rdFollowers (end_follower i e s)) = length (rdFollowers s)"
  by (simp_all add: end_follower_def)

lemma offered_to_same:
  "rdHead s' = rdHead s \<Longrightarrow> rdTurn s' = rdTurn s \<Longrightarrow> (j \<in> set (rdFollowing s')) = (j \<in> set (rdFollowing s)) \<Longrightarrow>
   offered_to s' j = offered_to s j"
  by (simp only: offered_to_def)

lemma recorder_ok_update: "recorder_ok base es s \<Longrightarrow> recorder_ok base es (update_follower i g s)"
  by (rule recorder_ok_same) simp_all

lemma recorder_ok_end: "recorder_ok base es s \<Longrightarrow> recorder_ok base es (end_follower i e s)"
  by (rule recorder_ok_same) simp_all

lemma followers_ok_update:
  assumes fs: "followers_ok es s" and i: "i < length (rdFollowers s)"
    and f: "follower_ok es (offered_to s i) (rdFollowers s ! i) \<Longrightarrow> follower_ok es (offered_to s i) (g (rdFollowers s ! i))"
    and stopped: "i \<in> set (rdFollowing s) \<Longrightarrow> \<not> fwStopped (rdFollowers s ! i) \<Longrightarrow> \<not> fwStopped (g (rdFollowers s ! i))"
  shows "followers_ok es (update_follower i g s)"
proof -
  have same: "offered_to (update_follower i g s) = offered_to s" by (rule ext) (simp only: offered_to_def update_follower_simps)
  have "follower_ok es (offered_to s i) (g (rdFollowers s ! i))" using fs i f unfolding followers_ok_def by blast
  then show ?thesis using fs i stopped unfolding followers_ok_def same by (auto simp: nth_list_update)
qed

lemma followers_ok_end:
  assumes fs: "followers_ok es s" and i: "i < length (rdFollowers s)"
  shows "followers_ok es (end_follower i e s)"
proof (cases "fwStopped (rdFollowers s ! i)")
  case True
  then show ?thesis using fs by (simp add: end_follower_def)
next
  case False
  let ?g = "\<lambda>f. f\<lparr>fwStopped := True, fwCancelled := True, fwError := e\<rparr>"
  let ?s = "(update_follower i ?g s)\<lparr>rdFollowing := removeAll i (rdFollowing s)\<rparr>"
  have s: "end_follower i e s = ?s" using False by (simp add: end_follower_def)
  have same: "offered_to ?s j = (if j = i then None else offered_to s j)" for j
  proof (cases "j = i")
    case True
    then show ?thesis by (simp add: offered_to_def)
  next
    case False
    have "offered_to ?s j = offered_to s j" by (rule offered_to_same) (use False in simp_all)
    then show ?thesis using False by simp
  qed
  have "follower_ok es (offered_to ?s j) (rdFollowers ?s ! j)" if "j < length (rdFollowers ?s)" for j
  proof (cases "j = i")
    case True
    then show ?thesis using fs i follower_ok_less unfolding same followers_ok_def by auto
  next
    case False
    then show ?thesis using fs that unfolding same followers_ok_def by simp
  qed
  moreover have "j < length (rdFollowers ?s) \<and> \<not> fwStopped (rdFollowers ?s ! j)" if "j \<in> set (rdFollowing ?s)" for j
    using fs that unfolding followers_ok_def by auto
  ultimately show ?thesis unfolding s followers_ok_def by blast
qed

lemma end_follower_ok: "inv_ok base es s \<Longrightarrow> i < length (rdFollowers s) \<Longrightarrow> inv_ok base es (end_follower i e s)"
  by (simp add: inv_ok_def recorder_ok_end followers_ok_end)

lemma follower_cancel_ok: "inv_ok base es s \<Longrightarrow> i < length (rdFollowers s) \<Longrightarrow> inv_ok base es (follower_cancel i s)"
  unfolding inv_ok_def follower_cancel_def by (auto intro!: recorder_ok_update followers_ok_update)

lemma follower_exit_ok:
  assumes "inv_ok base es s" "i < length (rdFollowers s)"
  shows "inv_ok base es (follower_exit i s)"
proof -
  let ?s = "end_follower i (if fwCancelled (rdFollowers s ! i) then Some RecordContext else None) s"
  have "inv_ok base es ?s" using assms by (rule end_follower_ok)
  moreover have "followers_ok es (update_follower i (\<lambda>f. f\<lparr>fwTurn := Finished, fwLive := []\<rparr>) ?s)" if "followers_ok es ?s"
    using that by (rule followers_ok_update) (use assms(2) in \<open>auto simp: follower_ok_def\<close>)
  ultimately show ?thesis by (simp add: inv_ok_def follower_exit_def Let_def recorder_ok_update)
qed

lemma run_offer_ok:
  assumes ok: "inv_ok base es s" and turn: "rdTurn s = Recorded r"
  shows "inv_ok base es (run_offer r s)"
proof -
  let ?s = "run_offer r s"
  have r: "0 < rdHead s" "r = (rdHead s, es ! (rdHead s - 1))" "rdHead s = length es" and rec: "recorder_ok base es s"
    using ok turn by (auto simp: inv_ok_def recorder_ok_def)
  have fs: "followers_ok es s" using ok by (simp add: inv_ok_def)
  have len: "length (rdFollowers ?s) = length (rdFollowers s)" by (simp add: run_offer_def)
  have at: "rdFollowers ?s ! i = (if i \<in> set (rdFollowing s) then snd (offer (rdMax s) r (rdFollowers s ! i)) else rdFollowers s ! i)"
    if "i < length (rdFollowers s)" for i
    using that by (simp add: run_offer_def nth_enumerate_eq)
  have stopped: "fwStopped (snd (offer bound r f)) = fwStopped f" for bound and f :: "'a follower" by (simp add: offer_def)
  have "follower_ok es (offered_to ?s i) (rdFollowers ?s ! i)" if i: "i < length (rdFollowers s)" for i
  proof (cases "i \<in> set (rdFollowing s)")
    case True
    have "follower_ok es (Some (rdHead s - 1)) (rdFollowers s ! i)" "\<not> fwStopped (rdFollowers s ! i)"
      using fs i True turn by (auto simp: followers_ok_def offered_to_def)
    then have "follower_ok es (if fst (offer (rdMax s) r (rdFollowers s ! i)) then Some (Suc (rdHead s - 1)) else None)
        (snd (offer (rdMax s) r (rdFollowers s ! i)))"
      by (intro follower_ok_offer) (use r in auto)
    moreover have "offered_to ?s i = (if fst (offer (rdMax s) r (rdFollowers s ! i)) then Some (Suc (rdHead s - 1)) else None)"
      using True r(1) by (simp add: offered_to_def run_offer_def)
    ultimately show ?thesis using True at [OF i] by simp
  next
    case False
    have "offered_to s i = None" "offered_to ?s i = None" using False by (simp_all add: offered_to_def run_offer_def)
    moreover have "rdFollowers ?s ! i = rdFollowers s ! i" using False at [OF i] by simp
    ultimately show ?thesis using fs i unfolding followers_ok_def by metis
  qed
  moreover have "i < length (rdFollowers ?s) \<and> \<not> fwStopped (rdFollowers ?s ! i)" if "i \<in> set (rdFollowing ?s)" for i
    using that fs len at [of i] stopped by (auto simp: followers_ok_def run_offer_def)
  ultimately have "followers_ok es ?s" unfolding followers_ok_def len by blast
  moreover have "recorder_ok base es ?s" using rec turn r by (auto simp: recorder_ok_def run_offer_def)
  ultimately show ?thesis by (simp add: inv_ok_def)
qed

lemma fold_end_follower:
  fixes e :: "record_error option"
  assumes "inv_ok base es s" "\<forall>i \<in> set is. i < length (rdFollowers s)"
  defines "s' \<equiv> fold (\<lambda>i. end_follower i e) is s"
  shows "inv_ok base es s' \<and> rdTurn s' = rdTurn s \<and> rdClosed s' = rdClosed s \<and> rdHead s' = rdHead s \<and>
    length (rdFollowers s') = length (rdFollowers s) \<and> set (rdFollowing s') \<subseteq> set (rdFollowing s) - set is"
  using assms(1,2) unfolding s'_def
proof (induction "is" arbitrary: s)
  case (Cons i "is")
  let ?s = "end_follower i e s"
  have i: "i < length (rdFollowers s)" using Cons.prems(2) by simp
  have s: "inv_ok base es ?s" using end_follower_ok [OF Cons.prems(1) i] .
  have "set (rdFollowing ?s) \<subseteq> set (rdFollowing s) - {i}"
    using Cons.prems(1) by (auto simp: end_follower_def inv_ok_def followers_ok_def)
  moreover have "set (rdFollowing (fold (\<lambda>i. end_follower i e) is ?s)) \<subseteq> set (rdFollowing ?s) - set is"
    using Cons.IH [OF s] Cons.prems(2) by simp
  ultimately show ?case using Cons.IH [OF s] Cons.prems(2) by auto
qed simp

lemma run_forward_ok:
  assumes ok: "inv_ok base es s" and turn: "rdTurn s = Offered r overflow" and flow: "\<forall>i \<in> set overflow. i < length (rdFollowers s)"
  shows "inv_ok base es (run_forward refused r overflow s)"
proof -
  let ?s = "fold (\<lambda>i. end_follower i (Some ErrRecordOverflow)) overflow s"
  have s: "inv_ok base es ?s" "rdTurn ?s = Offered r overflow" and out: "set (rdFollowing ?s) \<inter> set overflow = {}"
    using fold_end_follower [OF ok flow, of "Some ErrRecordOverflow"] turn by auto
  have rec: "recorder_ok base es ?s" and fs: "followers_ok es ?s" using s(1) by (simp_all add: inv_ok_def)
  have r: "r = (rdHead ?s, es ! (rdHead ?s - 1))" "rdHead ?s = length es" "base @ rdSent ?s @ [snd r] = es" "0 < rdHead ?s"
    using rec s(2) by (auto simp: recorder_ok_def)
  have move: "followers_ok es s2" if "rdFollowers s2 = rdFollowers ?s" "rdFollowing s2 = rdFollowing ?s" "rdHead s2 = rdHead ?s"
    "rdTurn s2 = Taking \<or> rdTurn s2 = Stopped" for s2 :: "('b, 'a) recorder"
  proof -
    have "offered_to s2 i = offered_to ?s i" for i
      using that s(2) out by (auto simp: offered_to_def split: run_turn.split)
    then show ?thesis using fs that(1,2) by (simp add: followers_ok_def)
  qed
  let ?sent = "?s\<lparr>rdSent := rdSent ?s @ [snd r]\<rparr>"
  have closed: "inv_ok base es (run_stop ?s)" if "rdClosed ?s"
    using rec s(2) that move [of "run_stop ?s"] by (auto simp: inv_ok_def recorder_ok_def run_stop_def)
  have refuse: "inv_ok base es (run_stop (end_recorder (Some TargetRefused) ?sent))" if "\<not> rdClosed ?s"
    using rec s(2) r that move [of "run_stop (end_recorder (Some TargetRefused) ?sent)"]
    by (auto simp: inv_ok_def recorder_ok_def run_stop_def end_recorder_def)
  have go: "inv_ok base es (?sent\<lparr>rdTurn := Taking\<rparr>)"
    using rec s(2) r move [of "?sent\<lparr>rdTurn := Taking\<rparr>"] by (auto simp: inv_ok_def recorder_ok_def)
  show ?thesis using closed refuse go by (simp add: run_forward_def Let_def)
qed

section \<open>A follower's goroutine\<close>

lemma update_twice: "update_follower i g (update_follower i h s) = update_follower i (\<lambda>f. g (h f)) s"
  if "i < length (rdFollowers s)"
  using that by (simp add: update_follower_def)

lemma finish_commutes:
  "f\<lparr>fwSent := rs, fwStopped := True, fwCancelled := True, fwError := e, fwTurn := Finished, fwLive := []\<rparr> =
   f\<lparr>fwSent := rs, fwTurn := Finished, fwLive := [], fwStopped := True, fwCancelled := True, fwError := e\<rparr>"
  by (cases f) simp

text \<open>After a send the follower has handed on the record; what it does next keeps that.\<close>

lemma follower_send_ok:
  assumes ok: "inv_ok base es s" and i: "i < length (rdFollowers s)"
    and good: "follower_ok es (offered_to s i) (g ((rdFollowers s ! i)\<lparr>fwSent := fwSent (rdFollowers s ! i) @ [r]\<rparr>))"
    and bad: "follower_ok es (offered_to s i) ((rdFollowers s ! i)\<lparr>fwSent := fwSent (rdFollowers s ! i) @ [r], fwTurn := Finished\<rparr>)"
    and flags: "fwStopped (g ((rdFollowers s ! i)\<lparr>fwSent := fwSent (rdFollowers s ! i) @ [r]\<rparr>)) = fwStopped (rdFollowers s ! i)"
    and answer: "follower_send i refused r s = (sent, s')"
  shows "inv_ok base es (if sent then update_follower i g s' else follower_exit i s')"
proof (cases "fwCancelled (rdFollowers s ! i)")
  case True
  then show ?thesis using follower_exit_ok [OF ok i] answer by (auto simp: follower_send_def)
next
  case False
  let ?h = "\<lambda>f. f\<lparr>fwSent := fwSent f @ [r]\<rparr>"
  let ?s = "update_follower i ?h s"
  have rec: "recorder_ok base es s" and fs: "followers_ok es s" using ok by (simp_all add: inv_ok_def)
  show ?thesis
  proof (cases refused)
    case False
    have "sent" "s' = ?s" using answer False \<open>\<not> fwCancelled _\<close> by (auto simp: follower_send_def Let_def split: if_splits)
    moreover have "followers_ok es (update_follower i (\<lambda>f. g (?h f)) s)"
      using fs i by (rule followers_ok_update) (use good flags in auto)
    ultimately show ?thesis using rec i by (simp add: inv_ok_def update_twice recorder_ok_update)
  next
    case True
    then have s': "\<not> sent" "s' = end_follower i (Some TargetRefused) ?s"
      using answer \<open>\<not> fwCancelled _\<close> by (auto simp: follower_send_def Let_def split: if_splits)
    have "follower_exit i s' = update_follower i (\<lambda>f. f\<lparr>fwTurn := Finished, fwLive := []\<rparr>) s'"
      using i by (simp add: s'(2) follower_exit_def Let_def end_follower_def)
    also have "\<dots> = end_follower i (Some TargetRefused) (update_follower i (\<lambda>f. (?h f)\<lparr>fwTurn := Finished, fwLive := []\<rparr>) s)"
      using i by (intro recorder.equality) (simp_all add: s'(2) end_follower_def update_follower_def finish_commutes)
    finally have e: "follower_exit i s' = \<dots>" .
    have "followers_ok es (update_follower i (\<lambda>f. (?h f)\<lparr>fwTurn := Finished, fwLive := []\<rparr>) s)"
      using fs i by (rule followers_ok_update) (use bad in \<open>auto simp: follower_ok_def\<close>)
    then have "inv_ok base es (update_follower i (\<lambda>f. (?h f)\<lparr>fwTurn := Finished, fwLive := []\<rparr>) s)"
      using rec by (simp add: inv_ok_def recorder_ok_update)
    then show ?thesis using s'(1) e end_follower_ok i by fastforce
  qed
qed

definition flow_ok :: "('l, 'm) recorder \<Rightarrow> bool" where
  "flow_ok s \<longleftrightarrow> (\<forall>r overflow. rdTurn s = Offered r overflow \<longrightarrow> (\<forall>i \<in> set overflow. i < length (rdFollowers s)))"

lemma flow_ok_kept:
  "flow_ok s \<Longrightarrow> rdTurn s' = rdTurn s \<Longrightarrow> length (rdFollowers s) \<le> length (rdFollowers s') \<Longrightarrow> flow_ok s'"
  unfolding flow_ok_def by (metis less_le_trans)

lemma flow_ok_other: "(\<And>r overflow. rdTurn s \<noteq> Offered r overflow) \<Longrightarrow> flow_ok s"
  by (simp add: flow_ok_def)

lemma follower_ok_cut:
  "follower_ok es u (f\<lparr>fwSent := rs, fwLive := live\<rparr>) \<Longrightarrow> follower_ok es u (f\<lparr>fwSent := rs, fwTurn := Finished\<rparr>)"
  "follower_ok es u (f\<lparr>fwSent := rs, fwNext := n\<rparr>) \<Longrightarrow> follower_ok es u (f\<lparr>fwSent := rs, fwTurn := Finished\<rparr>)"
  by (simp_all add: follower_ok_def)

lemma follower_take_ok:
  assumes ok: "inv_ok base es s" and i: "i < length (rdFollowers s)"
    and turn: "fwTurn (rdFollowers s ! i) = Running" "fwHead (rdFollowers s ! i) < fwNext (rdFollowers s ! i)"
  shows "inv_ok base es (follower_take i refused s)"
proof (cases "fwLive (rdFollowers s ! i)")
  case Nil
  then show ?thesis using ok by (simp add: follower_take_def)
next
  case (Cons r live)
  let ?f = "rdFollowers s ! i"
  have f: "follower_ok es (offered_to s i) ?f" using ok i by (simp add: inv_ok_def followers_ok_def)
  have taken: "follower_ok es (offered_to s i) (?f\<lparr>fwSent := fwSent ?f @ [r], fwLive := live\<rparr>)"
    using follower_ok_take [OF f turn Cons] .
  obtain sent s' where a: "follower_send i refused r s = (sent, s')" by fastforce
  have "inv_ok base es (if sent then update_follower i (\<lambda>f. f\<lparr>fwLive := live\<rparr>) s' else follower_exit i s')"
    by (rule follower_send_ok [OF ok i _ _ _ a]) (use taken in \<open>simp_all add: follower_ok_cut\<close>)
  then show ?thesis using a Cons by (simp add: follower_take_def split: if_splits)
qed

lemma follower_replay_ok:
  assumes ok: "inv_ok base es s" and i: "i < length (rdFollowers s)"
    and turn: "fwTurn (rdFollowers s ! i) = Running" "fwNext (rdFollowers s ! i) \<le> fwHead (rdFollowers s ! i)"
    and read: "\<And>r. logRead ops (fwCancelled (rdFollowers s ! i)) (fwNext (rdFollowers s ! i)) (rdLog s) = Inr r \<Longrightarrow>
      r = (fwNext (rdFollowers s ! i), es ! (fwNext (rdFollowers s ! i) - 1))"
  shows "inv_ok base es (follower_replay ops i refused s)"
proof -
  let ?f = "rdFollowers s ! i"
  have f: "follower_ok es (offered_to s i) ?f" using ok i by (simp add: inv_ok_def followers_ok_def)
  show ?thesis
  proof (cases "logRead ops (fwCancelled ?f) (fwNext ?f) (rdLog s)")
    case (Inl e)
    have "inv_ok base es (follower_exit i (end_follower i (Some e) s))"
      by (rule follower_exit_ok [OF end_follower_ok [OF ok i]]) (use i in simp)
    then show ?thesis using Inl follower_exit_ok [OF ok i] by (simp add: follower_replay_def Let_def)
  next
    case (Inr r)
    have r: "r = (fwNext ?f, es ! (fwNext ?f - 1))" using read [OF Inr] .
    have sent: "follower_ok es (offered_to s i) (?f\<lparr>fwSent := fwSent ?f @ [r], fwNext := fwNext ?f + 1\<rparr>)"
      using follower_ok_replay [OF f turn r] .
    obtain went s' where a: "follower_send i refused r s = (went, s')" by fastforce
    have "inv_ok base es (if went then update_follower i (\<lambda>f. f\<lparr>fwNext := fwNext f + 1\<rparr>) s' else follower_exit i s')"
      by (rule follower_send_ok [OF ok i _ _ _ a]) (use sent in \<open>simp_all add: follower_ok_cut\<close>)
    then show ?thesis using a Inr r by (simp add: follower_replay_def Let_def split: if_splits)
  qed
qed

text \<open>What most steps leave alone: the log, and the followers a full queue was found at.\<close>

definition recorder_quiet :: "('l, 'm) recorder \<Rightarrow> ('l, 'm) recorder \<Rightarrow> bool" where
  "recorder_quiet s s' \<longleftrightarrow> rdLog s' = rdLog s \<and>
     (rdTurn s' = rdTurn s \<and> length (rdFollowers s) \<le> length (rdFollowers s') \<or> (\<forall>r overflow. rdTurn s' \<noteq> Offered r overflow))"

lemma quiet_flow: "recorder_quiet s s' \<Longrightarrow> flow_ok s \<Longrightarrow> flow_ok s'"
  using flow_ok_kept flow_ok_other unfolding recorder_quiet_def by metis

lemma quiet_callers:
  "Send_record message s = (r, s') \<Longrightarrow> recorder_quiet s s'" "Head_ask ended s = (r', s') \<Longrightarrow> recorder_quiet s s'"
  "Follow_ask ended after s = (r, s') \<Longrightarrow> recorder_quiet s s'" "recorder_quiet s (end_recorder e s)"
  by (auto simp: Send_record_def Head_ask_def Follow_ask_def admit_command_def end_recorder_def recorder_quiet_def split: if_splits)

lemma quiet_take: "rdTurn s = Taking \<Longrightarrow> recorder_quiet s (run_take ended s)"
  by (auto simp: run_take_def register_follower_def recorder_quiet_def Let_def split: list.splits record_command.splits)

lemma quiet_forward: "recorder_quiet s (run_forward refused r overflow s)"
proof -
  have "rdLog (fold (\<lambda>i. end_follower i e) is s) = rdLog s" for e "is" by (induction "is" arbitrary: s) simp_all
  then show ?thesis by (simp add: recorder_quiet_def run_forward_def Let_def run_stop_def end_recorder_def)
qed

lemma exit_simps [simp]:
  "rdLog (follower_exit i s) = rdLog s" "rdTurn (follower_exit i s) = rdTurn s" "length (rdFollowers (follower_exit i s)) = length (rdFollowers s)"
  by (simp_all add: follower_exit_def Let_def)

lemma send_simps:
  "follower_send i refused r s = (sent, s') \<Longrightarrow> rdLog s' = rdLog s \<and> rdTurn s' = rdTurn s \<and> length (rdFollowers s') = length (rdFollowers s)"
  by (auto simp: follower_send_def Let_def split: if_splits)

lemma quiet_follower:
  "recorder_quiet s (end_follower i e s)" "recorder_quiet s (follower_cancel i s)" "recorder_quiet s (follower_exit i s)"
  "recorder_quiet s (follower_take i refused s)" "recorder_quiet s (follower_replay ops i refused s)"
proof -
  show "recorder_quiet s (end_follower i e s)" "recorder_quiet s (follower_cancel i s)" "recorder_quiet s (follower_exit i s)"
    by (simp_all add: recorder_quiet_def follower_cancel_def)
  show "recorder_quiet s (follower_take i refused s)"
    by (auto simp: recorder_quiet_def follower_take_def split: list.split prod.split bool.split dest: send_simps)
  show "recorder_quiet s (follower_replay ops i refused s)"
    by (auto simp: recorder_quiet_def follower_replay_def Let_def split: sum.split prod.split bool.split dest: send_simps)
qed

section \<open>Over any storage that keeps its promises\<close>

locale wire_log =
  fixes ops :: "('l, 'm) log_ops" and entries :: "'l \<Rightarrow> 'm message list" and good :: "'l \<Rightarrow> bool"
  assumes head_counts: "good l \<Longrightarrow> logHead ops ended l = Inr n \<Longrightarrow> n = length (entries l)"
    and append_extends: "good l \<Longrightarrow> logAppend ops ended p m l = (Inr n, l') \<Longrightarrow>
      good l' \<and> n = length (entries l) + 1 \<and> entries l' = entries l @ [(p, m)]"
    and append_refuses: "good l \<Longrightarrow> logAppend ops ended p m l = (Inl e, l') \<Longrightarrow> good l' \<and> entries l' = entries l"
    and read_finds: "good l \<Longrightarrow> logRead ops ended n l = Inr r \<Longrightarrow>
      0 < n \<and> n \<le> length (entries l) \<and> r = (n, entries l ! (n - 1))"
begin

lemma run_append_ok:
  assumes good: "good (rdLog s)" and ok: "inv_ok base (entries (rdLog s)) s" and turn: "rdTurn s = Holding message"
  shows "good (rdLog (run_append ops message s)) \<and> inv_ok base (entries (rdLog (run_append ops message s))) (run_append ops message s)"
proof -
  obtain answer l where a: "logAppend ops (rdClosed s) (fst message) (snd message) (rdLog s) = (answer, l)" by fastforce
  let ?es = "entries (rdLog s)"
  have rec: "recorder_ok base ?es s" and fs: "followers_ok ?es s" using ok by (simp_all add: inv_ok_def)
  have admitted: "base @ rdAdmitted s = ?es @ [message] @ queued (rdQueue s)" "base @ rdSent s = ?es" "rdHead s = length ?es"
    using rec turn by (auto simp: recorder_ok_def)
  show ?thesis
  proof (cases answer)
    case (Inl e)
    then have l: "good l" "entries l = ?es" using a append_refuses [OF good] by blast+
    let ?s = "run_stop (end_recorder (Some e) (s\<lparr>rdLog := l\<rparr>))"
    have "followers_ok ?es ?s" using fs by (rule followers_ok_turn) (use turn in \<open>simp_all add: run_stop_def end_recorder_def\<close>)
    moreover have "recorder_ok base ?es ?s" using rec by (auto simp: recorder_ok_def run_stop_def end_recorder_def)
    moreover have "run_append ops message s = ?s" "rdLog ?s = l" using a Inl by (simp_all add: run_append_def run_stop_def end_recorder_def)
    ultimately show ?thesis using l by (simp add: inv_ok_def)
  next
    case (Inr n)
    then have n: "n = length ?es + 1" and l: "good l" "entries l = ?es @ [message]" using a append_extends [OF good] by fastforce+
    have more: "followers_ok (?es @ [message]) s" using fs follower_ok_more unfolding followers_ok_def by blast
    show ?thesis
    proof (cases "int n > maxRecordSequence")
      case True
      let ?s = "run_stop (end_recorder (Some ErrRecordSequence) (s\<lparr>rdLog := l\<rparr>))"
      have "followers_ok (?es @ [message]) ?s" using more by (rule followers_ok_turn) (use turn in \<open>simp_all add: run_stop_def end_recorder_def\<close>)
      moreover have "recorder_ok base (?es @ [message]) ?s"
        using rec admitted by (auto simp: recorder_ok_def run_stop_def end_recorder_def)
      moreover have "run_append ops message s = ?s" "rdLog ?s = l" using a Inr True by (simp_all add: run_append_def run_stop_def end_recorder_def)
      ultimately show ?thesis using l by (simp add: inv_ok_def)
    next
      case False
      let ?s = "s\<lparr>rdLog := l, rdHead := n, rdTurn := Recorded (n, message)\<rparr>"
      have "offered_to ?s i = offered_to s i" for i using turn n admitted(3) by (simp add: offered_to_def)
      then have "followers_ok (?es @ [message]) ?s" using more by (simp add: followers_ok_def)
      moreover have "recorder_ok base (?es @ [message]) ?s" using rec admitted n turn by (auto simp: recorder_ok_def)
      ultimately show ?thesis using a Inr False l n admitted(3) by (simp add: run_append_def inv_ok_def)
    qed
  qed
qed

definition record_inv :: "'l \<Rightarrow> ('l, 'm) recorder \<Rightarrow> bool" where
  "record_inv l s \<longleftrightarrow> good (rdLog s) \<and> inv_ok (entries l) (entries (rdLog s)) s \<and> flow_ok s"

lemma record_start_inv: "good l \<Longrightarrow> record_start ops l s \<Longrightarrow> record_inv l s"
  by (auto simp: record_start_def Record_def Let_def record_inv_def inv_ok_def recorder_ok_def followers_ok_def flow_ok_def
      split: if_splits sum.splits dest: head_counts)

lemma record_step_inv:
  assumes inv: "record_inv l s" and step: "record_step ops s s'"
  shows "record_inv l s'"
proof -
  have good: "good (rdLog s)" and ok: "inv_ok (entries l) (entries (rdLog s)) s" and flow: "flow_ok s"
    using inv by (simp_all add: record_inv_def)
  have calm: ?thesis if "recorder_quiet s s'" "inv_ok (entries l) (entries (rdLog s)) s'"
    using that good quiet_flow [OF that(1) flow] unfolding record_inv_def recorder_quiet_def by simp
  show ?thesis
    using step
  proof cases
    case (step_send message answer)
    then show ?thesis using calm caller_ok(1) [OF ok] quiet_callers(1) by blast
  next
    case (step_head ended answer)
    then show ?thesis using calm caller_ok(2) [OF ok] quiet_callers(2) by blast
  next
    case (step_follow ended after answer)
    then show ?thesis using calm caller_ok(3) [OF ok] quiet_callers(3) by blast
  next
    case step_close
    then show ?thesis using calm end_recorder_ok [OF ok] quiet_callers(4) by blast
  next
    case (step_take ended)
    then show ?thesis using calm run_take_ok [OF ok] quiet_take by blast
  next
    case step_stop
    then show ?thesis using calm run_stop_ok [OF ok] by (simp add: recorder_quiet_def run_stop_def)
  next
    case (step_append message)
    have "rdTurn (run_append ops message s) \<noteq> Offered r overflow" for r overflow
      by (simp add: run_append_def run_stop_def end_recorder_def split: prod.split sum.split)
    then have "flow_ok (run_append ops message s)" by (rule flow_ok_other)
    then show ?thesis using run_append_ok [OF good ok step_append(2)] step_append(1) by (simp add: record_inv_def)
  next
    case (step_offer r)
    have "flow_ok (run_offer r s)" using ok by (auto simp: flow_ok_def run_offer_def inv_ok_def followers_ok_def)
    then show ?thesis using run_offer_ok [OF ok] step_offer good by (simp add: record_inv_def run_offer_def)
  next
    case (step_forward r overflow refused)
    have "\<forall>i \<in> set overflow. i < length (rdFollowers s)" using flow step_forward(2) unfolding flow_ok_def by blast
    then show ?thesis using calm run_forward_ok [OF ok] quiet_forward step_forward by blast
  next
    case (step_end_follower i e)
    then show ?thesis using calm end_follower_ok [OF ok] quiet_follower(1) by blast
  next
    case (step_cancel i)
    then show ?thesis using calm follower_cancel_ok [OF ok] quiet_follower(2) by blast
  next
    case (step_replay i refused)
    have "inv_ok (entries l) (entries (rdLog s)) (follower_replay ops i refused s)"
      by (rule follower_replay_ok [OF ok step_replay(2-4)]) (use read_finds [OF good] in blast)
    then show ?thesis using calm quiet_follower(5) step_replay(1) by blast
  next
    case (step_live i refused)
    then show ?thesis using calm follower_take_ok [OF ok] quiet_follower(4) by blast
  next
    case (step_exit i)
    then show ?thesis using calm follower_exit_ok [OF ok] quiet_follower(3) by blast
  qed
qed

text \<open>What the clients of the recorder see, in terms of the log's entries.\<close>

lemma recorder_promises:
  assumes "good l" "reachable (record_start ops l) (record_step ops) s"
  shows "record_inv l s"
  using assms(2) by (induction rule: reachable.induct) (use assms(1) record_start_inv record_step_inv in blast)+

end

end
