(* ===== verification/Duplex_Spec.thy ===== *)
theory Duplex_Spec
  imports Duplex_Record_Inv
begin

text \<open>
  The properties of a recorder over the log in memory, which keeps the promises of \<open>WireLog\<close>.
\<close>

section \<open>The log in memory keeps its promises\<close>

definition wire_memory_entries :: "'m wire_record list \<Rightarrow> 'm message list" where
  "wire_memory_entries l = map snd l"

definition wire_memory_good :: "'m wire_record list \<Rightarrow> bool" where
  "wire_memory_good l \<longleftrightarrow> map fst l = [1..<length l + 1]"

interpretation wire_memory: wire_log memory_log wire_memory_entries wire_memory_good
proof
  show "n = length (wire_memory_entries l)" if "wire_memory_good l" "logHead memory_log ended l = Inr n" for l :: "'m wire_record list" and ended n
    using that by (simp add: memory_log_def wire_memory_entries_def split: if_splits)
next
  show "wire_memory_good l' \<and> n = length (wire_memory_entries l) + 1 \<and> wire_memory_entries l' = wire_memory_entries l @ [(p, m)]"
    if "wire_memory_good l" "logAppend memory_log ended p m l = (Inr n, l')" for l l' :: "'m wire_record list" and ended p m n
    using that by (auto simp: memory_log_def wire_memory_entries_def wire_memory_good_def Let_def split: if_splits)
next
  show "wire_memory_good l' \<and> wire_memory_entries l' = wire_memory_entries l"
    if "wire_memory_good l" "logAppend memory_log ended p m l = (Inl e, l')" for l l' :: "'m wire_record list" and ended p m e
    using that by (auto simp: memory_log_def Let_def split: if_splits)
next
  fix l :: "'m wire_record list" and ended n r
  assume good: "wire_memory_good l" and read: "logRead memory_log ended n l = Inr r"
  then have n: "0 < n" "n \<le> length l" "r = l ! (n - 1)" by (auto simp: memory_log_def split: if_splits)
  have "map fst l ! (n - 1) = [1..<length l + 1] ! (n - 1)" using good by (simp add: wire_memory_good_def)
  moreover have "[1..<length l + 1] ! (n - 1) = n" using n by (subst nth_upt) auto
  ultimately have "fst r = n" using n by simp
  then show "0 < n \<and> n \<le> length (wire_memory_entries l) \<and> r = (n, wire_memory_entries l ! (n - 1))"
    using n by (simp add: wire_memory_entries_def prod_eq_iff)
qed

definition recording :: "('m wire_record list, 'm) recorder \<Rightarrow> bool" where
  "recording s \<longleftrightarrow> reachable (record_start memory_log []) (record_step memory_log) s"

lemma recording_inv: "recording s \<Longrightarrow> inv_ok [] (wire_memory_entries (rdLog s)) s \<and> wire_memory_good (rdLog s)"
  using wire_memory.recorder_promises [of "[]" s] by (simp add: recording_def wire_memory.record_inv_def wire_memory_good_def wire_memory_entries_def)

lemma good_nth: "wire_memory_good l \<Longrightarrow> k < length l \<Longrightarrow> l ! k = (Suc k, wire_memory_entries l ! k)"
proof -
  assume a: "wire_memory_good l" "k < length l"
  have "fst (l ! k) = [1..<length l + 1] ! k" using a by (metis wire_memory_good_def nth_map)
  also have "\<dots> = Suc k" using a(2) by (subst nth_upt) auto
  finally show "l ! k = (Suc k, wire_memory_entries l ! k)" using a(2) by (cases "l ! k") (simp add: wire_memory_entries_def)
qed

lemma recs_log:
  assumes "wire_memory_good l" "n \<le> length l"
  shows "recs a n (wire_memory_entries l) = drop a (take n l)"
  by (rule nth_equalityI) (use assms in \<open>auto simp: recs_def good_nth\<close>)

section \<open>The recorder\<close>

text \<open>C30: The log is the admitted messages, in the order of admission, and the target is sent the
  log: at every moment the recorded entries are a prefix of what \<open>Send\<close> admitted, numbered from one
  without a gap, and what the target was handed is a prefix of the recorded entries, behind by at
  most the record being handed on.  An answer of \<open>Head\<close> is the number of messages admitted before the
  question, and all of these are recorded.\<close>

theorem record_keeps_admission_order:
  assumes "recording s"
  shows "prefix (map snd (rdLog s)) (rdAdmitted s) \<and> map fst (rdLog s) = [1..<length (rdLog s) + 1] \<and>
    prefix (rdSent s) (map snd (rdLog s)) \<and>
    (rdTurn s \<noteq> Stopped \<longrightarrow> length (rdLog s) \<le> length (rdSent s) + 1) \<and>
    (\<forall>(k, h) \<in> set (rdHeads s). h = rdAsked s ! k \<and> h \<le> length (rdLog s))"
proof -
  have rec: "recorder_ok [] (wire_memory_entries (rdLog s)) s" and good: "wire_memory_good (rdLog s)"
    using recording_inv [OF assms] by (simp_all add: inv_ok_def)
  have "length (rdLog s) \<le> length (rdSent s) + 1" if "rdTurn s \<noteq> Stopped"
  proof -
    have "rdSent s @ turn_unsent (rdTurn s) = wire_memory_entries (rdLog s)" using rec that by (simp add: recorder_ok_def)
    from arg_cong [OF this, of length] show ?thesis by (cases "rdTurn s") (simp_all add: wire_memory_entries_def)
  qed
  then show ?thesis using rec good by (auto simp: recorder_ok_def wire_memory_entries_def wire_memory_good_def)
qed

definition demo_message :: "nat message" where
  "demo_message = ([''a''], 5)"

definition demo_following :: "(nat wire_record list, nat) recorder" where
  "demo_following = (case Record memory_log False 0 [] of
     Inr s \<Rightarrow> run_take False (snd (Follow_ask False 0 s)) | Inl e \<Rightarrow> undefined)"

definition demo_holding :: "(nat wire_record list, nat) recorder" where
  "demo_holding = run_take False (snd (Send_record demo_message demo_following))"

definition demo_recorded :: "(nat wire_record list, nat) recorder" where
  "demo_recorded = run_forward False (1, demo_message) [] (run_offer (1, demo_message) (run_append memory_log demo_message demo_holding))"

definition demo_followed :: "(nat wire_record list, nat) recorder" where
  "demo_followed = follower_take 0 False demo_recorded"

lemma recording_step: "recording s \<Longrightarrow> record_step memory_log s s' \<Longrightarrow> recording s'"
  unfolding recording_def by (rule reachable_step)

lemma demo_following: "recording demo_following"
proof -
  obtain s :: "(nat wire_record list, nat) recorder" where s: "Record memory_log False 0 [] = Inr s"
    by (simp add: Record_def memory_log_def maxRecordSequence_def)
  then have "recording s" unfolding recording_def by (intro reachable_start) (auto simp: record_start_def)
  moreover have "rdTurn (snd (Follow_ask False 0 s)) = Taking"
    using s by (auto simp: Record_def memory_log_def maxRecordSequence_def Follow_ask_def admit_command_def end_recorder_def Let_def)
  ultimately have "recording (run_take False (snd (Follow_ask False 0 s)))"
    by (metis recording_step step_follow step_take prod.collapse)
  then show ?thesis by (simp add: demo_following_def s)
qed

lemma demo_recorded: "recording demo_recorded" "recording demo_followed"
proof -
  let ?s1 = "snd (Send_record demo_message demo_following)"
  let ?s3 = "run_append memory_log demo_message demo_holding"
  let ?s4 = "run_offer (1, demo_message) ?s3"
  have turns: "rdTurn ?s1 = Taking" "rdTurn demo_holding = Holding demo_message" "rdTurn ?s3 = Recorded (1, demo_message)"
    "rdTurn ?s4 = Offered (1, demo_message) []" "0 < length (rdFollowers demo_recorded)"
    "fwTurn (rdFollowers demo_recorded ! 0) = Running"
    "fwHead (rdFollowers demo_recorded ! 0) < fwNext (rdFollowers demo_recorded ! 0)"
    by code_simp+
  have "recording ?s1" using demo_following by (metis recording_step step_send prod.collapse)
  then have "recording demo_holding" unfolding demo_holding_def by (rule recording_step) (rule step_take [OF turns(1)])
  then have "recording ?s3" by (rule recording_step) (rule step_append [OF turns(2)])
  then have "recording ?s4" by (rule recording_step) (rule step_offer [OF turns(3)])
  then show d: "recording demo_recorded" unfolding demo_recorded_def by (rule recording_step) (rule step_forward [OF turns(4)])
  show "recording demo_followed" unfolding demo_followed_def
    using d by (rule recording_step) (rule step_live [OF turns(5-7)])
qed

theorem record_keeps_admission_order_witness:
  "rdLog demo_recorded = [(1, demo_message)] \<and> prefix (rdSent demo_recorded) [demo_message] \<and> rdSent demo_recorded = [demo_message]"
proof -
  have "rdLog demo_recorded = [(1, demo_message)]" "rdSent demo_recorded = [demo_message]" by code_simp+
  then show ?thesis using record_keeps_admission_order [OF demo_recorded(1)] by simp
qed

text \<open>C31: A follower is handed every record after its cursor, once and in order: what its target
  was sent is the stretch of the log that begins right after the cursor.  While it follows, what it
  was sent, what it has yet to replay and what it holds are the whole log from its cursor on, unless
  its queue was full at the last record and it is about to be ended for it.\<close>

theorem follower_misses_nothing:
  assumes "recording s" "i < length (rdFollowers s)"
  shows "fwSent (rdFollowers s ! i) = take (length (fwSent (rdFollowers s ! i))) (drop (fwAfter (rdFollowers s ! i)) (rdLog s)) \<and>
    (i \<in> set (rdFollowing s) \<longrightarrow> fwTurn (rdFollowers s ! i) = Running \<longrightarrow> rdTurn s \<in> {Taking, Stopped} \<longrightarrow>
       fwSent (rdFollowers s ! i) @ drop (fwNext (rdFollowers s ! i) - 1) (take (fwHead (rdFollowers s ! i)) (rdLog s)) @
         fwLive (rdFollowers s ! i) = drop (fwAfter (rdFollowers s ! i)) (take (rdHead s) (rdLog s)))"
proof -
  let ?f = "rdFollowers s ! i" and ?es = "wire_memory_entries (rdLog s)"
  have fs: "followers_ok ?es s" and good: "wire_memory_good (rdLog s)" using recording_inv [OF assms(1)] by (simp_all add: inv_ok_def)
  then have f: "follower_ok ?es (offered_to s i) ?f" using assms(2) by (simp add: followers_ok_def)
  have len: "length ?es = length (rdLog s)" by (simp add: wire_memory_entries_def)
  have sent: "fwSent ?f = recs (fwAfter ?f) (fwAfter ?f + length (fwSent ?f)) ?es" "fwAfter ?f + length (fwSent ?f) \<le> length (rdLog s)"
    using f len by (simp_all add: follower_ok_def)
  have "fwSent ?f = take (length (fwSent ?f)) (drop (fwAfter ?f) (rdLog s))"
    using sent recs_log [OF good sent(2)] by (simp add: take_drop add.commute)
  moreover have "fwSent ?f @ drop (fwNext ?f - 1) (take (fwHead ?f) (rdLog s)) @ fwLive ?f = drop (fwAfter ?f) (take (rdHead s) (rdLog s))"
    if following: "i \<in> set (rdFollowing s)" "fwTurn ?f = Running" "rdTurn s \<in> {Taking, Stopped}"
  proof -
    have "offered_to s i = Some (rdHead s)" using following by (auto simp: offered_to_def)
    then obtain n where n: "fwSent ?f @ recs (fwNext ?f - 1) (fwHead ?f) ?es @ fwLive ?f = recs (fwAfter ?f) n ?es"
        "n = rdHead s" "n \<le> length (rdLog s)" "fwHead ?f \<le> length (rdLog s)"
      using f following(2) len by (auto simp: follower_ok_def)
    then show ?thesis using recs_log [OF good, of n] recs_log [OF good, of "fwHead ?f"] by simp
  qed
  ultimately show ?thesis by blast
qed

theorem follower_misses_nothing_witness:
  "length (fwSent (rdFollowers demo_followed ! 0)) = 1 \<and> fwSent (rdFollowers demo_followed ! 0) = take 1 (rdLog demo_followed)"
proof -
  have "0 < length (rdFollowers demo_followed)" "fwAfter (rdFollowers demo_followed ! 0) = 0"
    "length (fwSent (rdFollowers demo_followed ! 0)) = 1" by code_simp+
  then show ?thesis using follower_misses_nothing [OF demo_recorded(2), of 0] by simp
qed

end
