(* ===== verification/Scalar_Json.thy ===== *)
theory Scalar_Json
  imports Json
begin

text \<open>
  The guard of \<open>internal/scalarjson\<close> over the bytes of a JSON text, and what it means for the
  decoder behind it: a text that passes is read without a replacement character being put in.
\<close>

section \<open>The guard\<close>

text \<open>\<open>quoted\<close> is \<open>inString\<close>; the list is what the index has not passed yet.\<close>

function raw_scan :: "bool \<Rightarrow> string \<Rightarrow> bool" where
  "raw_scan quoted s =
     (case s of
        [] \<Rightarrow> True
      | c # t \<Rightarrow>
          if c = CHR 0x22 then raw_scan (\<not> quoted) t
          else if \<not> quoted \<or> c \<noteq> CHR 0x5C then raw_scan quoted t
          else (case t of
              [] \<Rightarrow> True
            | e # u \<Rightarrow>
                if e \<noteq> CHR ''u'' then raw_scan quoted u
                else (case hexUnit u of
                    None \<Rightarrow> raw_scan quoted u
                  | Some unit \<Rightarrow>
                      if low_surrogate unit then False
                      else if \<not> high_surrogate unit then raw_scan quoted (drop 4 u)
                      else (case drop 4 u of
                          c' # e' # w \<Rightarrow>
                            if c' \<noteq> CHR 0x5C \<or> e' \<noteq> CHR ''u'' then False
                            else (case hexUnit w of
                                None \<Rightarrow> False
                              | Some low \<Rightarrow> if \<not> low_surrogate low then False else raw_scan quoted (drop 4 w))
                        | _ \<Rightarrow> False))))"
  by pat_completeness auto
termination
proof (relation "measure (\<lambda>(q, s). length s)", goal_cases)
  case (7 q s c t e u unit c' rest e' w low)
  then have "length (c' # e' # w) \<le> length u" by (metis length_drop diff_le_self)
  then show ?case using 7 by simp
qed auto

declare raw_scan.simps [simp del]

definition Raw :: "string \<Rightarrow> bool" where
  "Raw data \<longleftrightarrow> valid_utf8 data \<and> raw_scan False data"

section \<open>What the guard sees of a text\<close>

lemma raw_scan_Nil [simp]: "raw_scan q []"
  by (simp add: raw_scan.simps)

lemma raw_scan_quote [simp]: "raw_scan q (CHR 0x22 # t) = raw_scan (\<not> q) t"
  by (simp add: raw_scan.simps [of q "CHR 0x22 # t"])

lemma raw_scan_outside: "c \<noteq> CHR 0x22 \<Longrightarrow> raw_scan False (c # t) = raw_scan False t"
  by (simp add: raw_scan.simps [of False "c # t"])

lemma raw_scan_plain: "plain_char c \<Longrightarrow> raw_scan q (c # t) = raw_scan q t"
  by (simp add: raw_scan.simps [of q "c # t"] plain_char_def)

lemma raw_scan_escape: "e \<in> escapes \<Longrightarrow> raw_scan True (CHR 0x5C # e # u) = raw_scan True u"
  by (auto simp: raw_scan.simps [of True "CHR 0x5C # e # u"])

lemma raw_scan_plains: "list_all plain_char w \<Longrightarrow> raw_scan q (w @ t) = raw_scan q t"
  by (induction w) (simp_all add: raw_scan_plain)

lemma scan_body_plains: "list_all plain_char w \<Longrightarrow> scan_body (w @ t) = map_option (apfst (append w)) (scan_body t)"
  by (induction w) (cases "scan_body t"; auto simp: scan_body_plain)+

lemma scan_body_split: "scan_body s = Some (b, r) \<Longrightarrow> s = b @ CHR 0x22 # r"
  by (induction rule: scan_body_induct) (auto, metis append_take_drop_id append.assoc)

lemma hexUnit_take: "hexUnit u = Some n \<Longrightarrow> hexUnit (take 4 u @ b) = Some n"
  by (auto simp: hexUnit_def split: if_splits)

lemma hex_value_ascii: "hex_value c = Some d \<Longrightarrow> (of_char c :: nat) < 0x80"
  by (auto simp: hex_value_def is_digit_def less_eq_char_def split: if_splits)

lemma hex_units_ascii: "hex_units n s = Some k \<Longrightarrow> \<forall>c \<in> set s. (of_char c :: nat) < 0x80"
  by (induction n s rule: hex_units.induct) (auto split: option.splits dest: hex_value_ascii)

lemma valid_utf8_ascii_prefix: "\<forall>c \<in> set w. (of_char c :: nat) < 0x80 \<Longrightarrow> valid_utf8 (w @ s) = valid_utf8 s"
  by (induction w) auto

lemma hexUnit_utf8: "hexUnit u = Some n \<Longrightarrow> valid_utf8 (take 4 u @ b) = valid_utf8 b"
  by (auto simp: hexUnit_def split: if_splits dest: hex_units_ascii intro!: valid_utf8_ascii_prefix)

text \<open>An ASCII byte ends whatever precedes it.\<close>

lemma decode_rune_before_ascii:
  "u \<noteq> [] \<Longrightarrow> (of_char c :: nat) < 0x80 \<Longrightarrow> decode_rune (u @ c # v) = decode_rune u"
  by (auto simp: decode_rune_def decode2_def decode3_def decode4_def Let_def byte_in_def neq_Nil_conv split: list.splits)

lemma valid_utf8_before_ascii:
  "(of_char c :: nat) < 0x80 \<Longrightarrow> valid_utf8 (u @ c # v) \<longleftrightarrow> valid_utf8 u \<and> valid_utf8 v"
proof (induction u rule: valid_utf8.induct)
  case (1 u)
  show ?case
  proof (cases "u = []")
    case True
    then show ?thesis using 1 by simp
  next
    case False
    obtain r n where d: "decode_rune u = (r, n)" by force
    then have "n \<le> length u" using decode_rune_size_prod [OF False] by blast
    then have "valid_utf8 (u @ c # v) \<longleftrightarrow> \<not> (r = rune_error \<and> n = 1) \<and> valid_utf8 (drop n u @ c # v)"
      using d decode_rune_before_ascii [OF False "1.prems", of v] False by (simp add: valid_utf8.simps [of "u @ c # v"])
    then show ?thesis
      using "1.IH" [OF False d [symmetric] _ "1.prems"] d False by (auto simp: valid_utf8.simps [of u])
  qed
qed

section \<open>A body that passes is read exactly\<close>

lemma unquote_Nil [simp]: "unquote exact [] = Some []"
  by (simp add: unquote.simps)

lemma unquote_escape: "e \<in> escapes \<Longrightarrow> unquote exact (CHR 0x5C # e # u) = map_option (Cons (unescape e)) (unquote exact u)"
  by (auto simp: unquote.simps [of exact "CHR 0x5C # e # u"])

lemma unquote_unit:
  "hexUnit u = Some n \<Longrightarrow>
     unquote exact (CHR 0x5C # CHR ''u'' # u) =
       (if high_surrogate n \<and> low_half (drop 4 u) \<noteq> None then
          map_option (append (encode_rune (0x10000 + (n - 0xD800) * 0x400 + (the (low_half (drop 4 u)) - 0xDC00)))) (unquote exact (drop 10 u))
        else if high_surrogate n \<or> low_surrogate n then
          if exact then None else map_option (append replacement) (unquote exact (drop 4 u))
        else map_option (append (encode_rune n)) (unquote exact (drop 4 u)))"
  by (simp add: unquote.simps [of exact "CHR 0x5C # CHR ''u'' # u"])

lemma unquote_rune:
  "c \<noteq> CHR 0x5C \<Longrightarrow> decode_rune (c # t) = (x, n) \<Longrightarrow>
     unquote exact (c # t) =
       (if x = rune_error \<and> n = 1 then if exact then None else map_option (append replacement) (unquote exact t)
        else map_option (append (take n (c # t))) (unquote exact (drop n (c # t))))"
  by (simp add: unquote.simps [of exact "c # t"])

lemma low_half_scan:
  assumes "scan_body s = Some (b, r)"
  shows "low_half b = low_half s"
  using assms
proof (cases rule: scan_body_cases)
  case (plain c t b')
  then show ?thesis by (auto simp: low_half_def plain_char_def split: list.splits)
next
  case (escape e u b')
  then show ?thesis by (auto simp: low_half_def)
next
  case (unit_escape u n b')
  then show ?thesis by (simp add: low_half_def hexUnit_take)
qed (auto simp: low_half_def split: list.splits)

lemma raw_scan_unit:
  assumes "hexUnit u = Some n"
  shows "raw_scan True (CHR 0x5C # CHR ''u'' # u) =
       (if high_surrogate n then low_half (drop 4 u) \<noteq> None \<and> raw_scan True (drop 10 u)
        else \<not> low_surrogate n \<and> raw_scan True (drop 4 u))"
proof -
  have apart: "high_surrogate n \<Longrightarrow> \<not> low_surrogate n" by (simp add: high_surrogate_def low_surrogate_def)
  have far: "drop 10 u = drop 6 (drop 4 u)" by simp
  obtain v where v: "drop 4 u = v" by simp
  show ?thesis
    unfolding raw_scan.simps [of True "CHR 0x5C # CHR ''u'' # u"] far v
    using assms apart by (simp add: v low_half_def split: list.split option.split)
qed

theorem body_exact:
  assumes "scan_body s = Some (b, r)"
  shows "(valid_utf8 b \<and> raw_scan True s) \<longleftrightarrow> (unquote True b \<noteq> None \<and> raw_scan False r)"
  using assms
proof (induction "length s" arbitrary: s b rule: less_induct)
  case less
  from less.prems show ?case
  proof (cases rule: scan_body_cases)
    case end_quote
    then show ?thesis by simp
  next
    case (plain c t b')
    obtain x n where d: "decode_rune (c # b') = (x, n)" by force
    have c: "c \<noteq> CHR 0x5C" using plain(1) by (simp add: plain_char_def)
    show ?thesis
    proof (cases "x = rune_error \<and> n = 1")
      case True
      then show ?thesis using plain(4) d c by (simp add: valid_utf8.simps [of "c # b'"] unquote_rune)
    next
      case False
      have n: "0 < n" "n \<le> length b" using decode_rune_size_prod [OF _ d] plain(4) by simp_all
      have "list_all plain_char (take n b)"
      proof -
        have "n = 1 \<or> (\<forall>c \<in> set (take n (c # b')). 0x80 \<le> (of_char c :: nat))"
          using decode_rune_take [OF _ d False] by auto
        then show ?thesis using plain(1,4) by (auto simp: list_all_iff plain_char_def)
      qed
      moreover have s: "s = take n b @ drop n b @ CHR 0x22 # r" using scan_body_split [OF less.prems] by simp
      moreover obtain s' where s': "s' = drop n b @ CHR 0x22 # r" by simp
      ultimately have w: "s = take n b @ s'" "raw_scan True s = raw_scan True s'"
        "scan_body s = map_option (apfst (append (take n b))) (scan_body s')"
        by (simp_all add: raw_scan_plains scan_body_plains)
      then have "scan_body s' = Some (drop n b, r)"
        using less.prems by (auto simp: apfst_def map_prod_def split: prod.splits)
          (metis append_take_drop_id same_append_eq)+
      moreover have "length s' < length s" using w(1) n by simp
      moreover have "valid_utf8 b = valid_utf8 (drop n b)" "(unquote True b = None) = (unquote True (drop n b) = None)"
        unfolding plain(4) valid_utf8.simps [of "c # b'"] unquote_rune [OF c d] using d False by auto
      ultimately show ?thesis using less.hyps [of s' "drop n b"] w(2) by simp
    qed
  next
    case (escape e u b')
    have "(of_char e :: nat) < 0x80" using escape(1) by auto
    then show ?thesis using escape less.hyps [of u b'] by (simp add: raw_scan_escape unquote_escape)
  next
    case (unit_escape u n b')
    have IH: "(valid_utf8 b' \<and> raw_scan True (drop 4 u)) = (unquote True b' \<noteq> None \<and> raw_scan False r)"
      using less.hyps [of "drop 4 u" b'] unit_escape by simp
    have b: "valid_utf8 b = valid_utf8 b'" "hexUnit (take 4 u @ b') = Some n" "drop 4 (take 4 u @ b') = b'"
      using unit_escape(1,4) hexUnit_utf8 [OF unit_escape(1)] by (auto simp: hexUnit_take hexUnit_def split: if_splits)
    have raw: "raw_scan True s = (if high_surrogate n then low_half b' \<noteq> None \<and> raw_scan True (drop 10 u)
        else \<not> low_surrogate n \<and> raw_scan True (drop 4 u))"
      using raw_scan_unit [OF unit_escape(1)] low_half_scan [OF unit_escape(3)] unit_escape(2) by simp
    show ?thesis
    proof (cases "high_surrogate n \<and> low_half b' \<noteq> None")
      case True
      from unit_escape(3) have pair: "scan_body (drop 10 u) = Some (drop 6 b', r) \<and> valid_utf8 b' = valid_utf8 (drop 6 b')"
      proof (cases rule: scan_body_cases)
        case (unit_escape u' n' b'')
        have "length (take 4 u') = 4" using unit_escape(1) by (auto simp: hexUnit_def split: if_splits)
        then have "drop 6 b' = b''" using unit_escape(4) by simp
        moreover have "drop 10 u = drop 6 (drop 4 u)" by simp
        then have "drop 10 u = drop 4 u'" unfolding unit_escape(2) by simp
        ultimately show ?thesis
          using unit_escape hexUnit_utf8 [OF unit_escape(1)] by simp_all
      qed (use True in \<open>auto simp: low_half_def plain_char_def split: list.splits if_splits\<close>)
      have "drop 10 (take 4 u @ b') = drop 6 b'" using unit_escape(1) by (auto simp: hexUnit_def split: if_splits)
      moreover have "length (drop 10 u) < length s" using unit_escape(2) by simp
      ultimately show ?thesis
        using True raw b pair less.hyps [of "drop 10 u" "drop 6 b'"] unit_escape(4) by (simp add: unquote_unit)
    next
      case False
      then show ?thesis using raw b IH unit_escape(4) by (auto simp: unquote_unit)
    qed
  qed
qed

section \<open>A text that passes is read exactly\<close>

definition exact_tokens :: "token list \<Rightarrow> bool" where
  "exact_tokens ts \<longleftrightarrow> (\<forall>b. Quoted b \<in> set ts \<longrightarrow> unquote True b \<noteq> None)"

lemma exact_tokens_simps [simp]:
  "exact_tokens []"
  "exact_tokens (t # ts) \<longleftrightarrow> (case t of Quoted b \<Rightarrow> unquote True b \<noteq> None | _ \<Rightarrow> True) \<and> exact_tokens ts"
  by (auto simp: exact_tokens_def split: token.splits)

lemma atom_char_ascii: "atom_char c \<Longrightarrow> (of_char c :: nat) < 0x80 \<and> c \<noteq> CHR 0x22"
  by (auto simp: atom_char_def is_digit_def is_lower_def less_eq_char_def)

lemma raw_atom: "list_all atom_char w \<Longrightarrow> raw_scan False (w @ s) = raw_scan False s \<and> valid_utf8 (w @ s) = valid_utf8 s"
  by (induction w) (auto simp: raw_scan_outside dest: atom_char_ascii)

lemma lex_exact: "lex s = Some ts \<Longrightarrow> Raw s \<longleftrightarrow> exact_tokens ts"
proof (induction s arbitrary: ts rule: lex.induct)
  case (1 s)
  show ?case
  proof (cases s)
    case Nil
    then show ?thesis using "1.prems" by (simp add: lex.simps Raw_def)
  next
    case (Cons c t)
    have outside: "(of_char c :: nat) < 0x80 \<Longrightarrow> c \<noteq> CHR 0x22 \<Longrightarrow> Raw s = Raw t"
      using Cons by (simp add: Raw_def raw_scan_outside)
    consider "json_space c" | "\<not> json_space c" "c = CHR 0x22" | m where "\<not> json_space c" "c \<noteq> CHR 0x22" "mark_of c = Some m"
      | "\<not> json_space c" "c \<noteq> CHR 0x22" "mark_of c = None" by blast
    then show ?thesis
    proof cases
      case 1
      then have "(of_char c :: nat) < 0x80" "c \<noteq> CHR 0x22" by (auto simp: json_space_def)
      then show ?thesis using outside "1.IH"(1) [OF Cons 1] "1.prems" 1 Cons by (simp add: lex.simps [of "c # t"])
    next
      case 2
      then obtain b r ts' where b: "scan_body t = Some (b, r)" "lex r = Some ts'" "ts = Quoted b # ts'"
        using "1.prems" unfolding Cons lex.simps [of "c # t"] by (auto split: option.splits)
      have "Raw s \<longleftrightarrow> valid_utf8 t \<and> raw_scan True t" using Cons 2 by (simp add: Raw_def)
      also have "\<dots> \<longleftrightarrow> valid_utf8 b \<and> valid_utf8 r \<and> raw_scan True t"
        using scan_body_split [OF b(1)] by (simp add: valid_utf8_before_ascii)
      also have "\<dots> \<longleftrightarrow> unquote True b \<noteq> None \<and> Raw r" using body_exact [OF b(1)] by (auto simp: Raw_def)
      also have "Raw r \<longleftrightarrow> exact_tokens ts'" using "1.IH"(2) [OF Cons 2 b(1) refl b(2)] .
      finally show ?thesis using b(3) by simp
    next
      case 3
      then obtain ts' where ts: "lex t = Some ts'" "ts = m # ts'" using "1.prems" unfolding Cons lex.simps [of "c # t"] by auto
      have m: "(of_char c :: nat) < 0x80" "case m of Quoted b \<Rightarrow> False | _ \<Rightarrow> True"
        using 3(3) by (auto simp: mark_of_def split: if_splits)
      then show ?thesis using outside "1.IH"(4) [OF Cons 3 ts(1)] 3(2) ts(2) by (auto split: token.splits)
    next
      case 4
      then obtain v ts' where v: "atom_char c" "atom_of (c # takeWhile atom_char t) = Some v" "lex (dropWhile atom_char t) = Some ts'"
          "ts = Atom v # ts'"
        using "1.prems" 4 unfolding Cons lex.simps [of "c # t"] by (auto split: option.splits if_splits)
      have "list_all atom_char (c # takeWhile atom_char t)" using v(1) by (auto simp: list_all_iff dest: set_takeWhileD)
      from raw_atom [OF this, of "dropWhile atom_char t"] have "Raw s = Raw (dropWhile atom_char t)" using Cons by (simp add: Raw_def)
      moreover have "\<not> \<not> atom_char c" using v(1) by simp
      ultimately show ?thesis using "1.IH"(3) [OF Cons 4 _ v(2) v(3)] v(4) by simp
    qed
  qed
qed

lemma unquote_exact: "unquote True b = Some x \<Longrightarrow> unquote False b = Some x"
proof (induction "length b" arbitrary: b x rule: less_induct)
  case less
  show ?case
  proof (cases b)
    case Nil
    then show ?thesis using less.prems by simp
  next
    case (Cons c t)
    show ?thesis
    proof (cases "c = CHR 0x5C")
      case True
      then show ?thesis
        using less.prems less.hyps unfolding Cons unquote.simps [of _ "c # t"]
        by (auto split: list.splits option.splits if_splits)
    next
      case False
      obtain r n where d: "decode_rune (c # t) = (r, n)" by force
      then show ?thesis
        using less.prems less.hyps [of "drop n b"] Cons False decode_rune_size_prod [OF _ d]
        by (auto simp: unquote_rune split: if_splits)
    qed
  qed
qed

lemma token_step_exact:
  assumes "token_step False t s = Some s'"
  shows "token_step True t s = (if case t of Quoted b \<Rightarrow> unquote True b \<noteq> None | _ \<Rightarrow> True then Some s' else None)"
proof (cases t)
  case (Quoted b)
  then show ?thesis
    using assms unquote_exact [of b]
    by (cases s) (auto simp: token_step_def value_token_def key_token_def after_token_def split: expect.splits list.splits nesting.splits)
qed (use assms in \<open>cases s; auto simp: token_step_def value_token_def key_token_def split: expect.splits\<close>)+

lemma run_tokens_exact:
  "run_tokens False ts s = Some s' \<Longrightarrow> run_tokens True ts s = (if exact_tokens ts then Some s' else None)"
  by (induction ts arbitrary: s) (auto split: option.splits simp: token_step_exact)

lemma raw_decides:
  assumes "parse_json False s = Some v"
  shows "parse_json True s = (if Raw s then Some v else None)"
proof -
  obtain ts where ts: "lex s = Some ts" "run_tokens False ts (Value, []) = Some (After v, [])"
    using assms by (auto simp: parse_json_def split: option.splits prod.splits expect.splits list.splits)
  show ?thesis
    using run_tokens_exact [OF ts(2)] lex_exact [OF ts(1)] ts(1) by (simp add: parse_json_def)
qed

lemma parse_exactly:
  assumes "parse_json True s = Some v"
  shows "Raw s \<and> parse_json False s = Some v"
proof -
  obtain ts where ts: "lex s = Some ts" "run_tokens True ts (Value, []) = Some (After v, [])"
    using assms by (auto simp: parse_json_def split: option.splits prod.splits expect.splits list.splits)
  have run: "run_tokens True ts st = Some st' \<Longrightarrow> run_tokens False ts st = Some st'" for ts st st'
  proof (induction ts arbitrary: st)
    case (Cons t ts)
    have "token_step True t st = Some st1 \<Longrightarrow> token_step False t st = Some st1" for st1
      using unquote_exact
      by (cases st; cases t) (auto simp: token_step_def value_token_def key_token_def after_token_def
          split: expect.splits list.splits nesting.splits)
    then show ?case using Cons by (auto split: option.splits)
  qed simp
  then have "parse_json False s = Some v" using ts by (simp add: parse_json_def)
  then show ?thesis using raw_decides assms by (auto split: if_splits)
qed

end
