(* ===== verification/Peer_Frame.thy ===== *)
theory Peer_Frame
  imports Json_Decode Scalar_Json
begin

text \<open>
  The frames of the profile, from \<open>runtime/go/peer.go\<close>, \<open>meta.go\<close> and \<open>trace.go\<close>: what a frame is,
  how \<open>decodeFrame\<close> reads one from the text of a message, the members an encoder writes, and the
  forms of ids, traces, carriages and close reasons.
\<close>

section \<open>Frames\<close>

record public_error =
  erCode :: string
  erMessage :: string
  erData :: "json option"

record profile_frame =
  pfVersion :: int
  pfKind :: string
  pfID :: string
  pfMethod :: string
  pfParams :: "json option"
  pfResult :: "json option"
  pfError :: "public_error option"
  pfEvent :: string
  pfData :: "json option"
  pfTraceparent :: string
  pfTracestate :: string
  pfMeta :: "(string \<times> string) list option"

definition empty_frame :: profile_frame where
  "empty_frame = \<lparr>pfVersion = 0, pfKind = [], pfID = [], pfMethod = [], pfParams = None, pfResult = None, pfError = None,
     pfEvent = [], pfData = None, pfTraceparent = [], pfTracestate = [], pfMeta = None\<rparr>"

section \<open>Ids, traces and carriages\<close>

definition validID :: "string \<Rightarrow> string \<Rightarrow> bool" where
  "validID i p =
     (if \<not> has_prefix i p then False
      else let n = drop (length p) i in
        if n = [] \<or> hd n = CHR ''0'' then False
        else if \<not> list_all is_digit n then False
        else length n \<le> 20)"

definition validTraceparent :: "string \<Rightarrow> bool" where
  "validTraceparent value =
     (if length value \<noteq> 55 \<or> value ! 2 \<noteq> CHR ''-'' \<or> value ! 35 \<noteq> CHR ''-'' \<or> value ! 52 \<noteq> CHR ''-'' then False
      else list_all (\<lambda>i. i = 2 \<or> i = 35 \<or> i = 52 \<or> is_digit (value ! i) \<or> CHR ''a'' \<le> value ! i \<and> value ! i \<le> CHR ''f'') [0..<length value])"

definition metaReserved :: string where
  "metaReserved = ''nightseam.''"

text \<open>\<open>WithMeta\<close> and \<open>outgoingMeta\<close>: what a frame sent under a carriage carries.\<close>

definition outgoing_meta :: "(string \<times> string) list \<Rightarrow> (string \<times> string) list option" where
  "outgoing_meta m =
     (let carried = filter (\<lambda>(k, v). \<not> has_prefix k metaReserved) m in if carried = [] then None else Some carried)"

text \<open>Of members with one name the last is the one a map keeps.\<close>

definition is_text :: "json option \<Rightarrow> bool" where
  "is_text v \<longleftrightarrow> (case v of Some (JString s) \<Rightarrow> True | _ \<Rightarrow> False)"

definition validMeta :: "json \<Rightarrow> bool" where
  "validMeta raw =
     (case raw of
        JObject ms \<Rightarrow> list_all (\<lambda>(k, v). \<not> has_prefix k metaReserved \<and> is_text (map_of (rev ms) k)) ms
      | _ \<Rightarrow> False)"

text \<open>
  The default propagator's \<open>Inject\<close>, of the trace its context holds and the random ids it draws.
\<close>

definition inject_trace :: "(string \<times> string) option \<Rightarrow> string \<Rightarrow> string \<Rightarrow> string \<times> string" where
  "inject_trace parent trace_id span_id =
     (case parent of
        Some (p, state) \<Rightarrow>
          if validTraceparent p then (take 36 p @ span_id @ drop 52 p, state)
          else (''00-'' @ trace_id @ ''-'' @ span_id @ ''-01'', [])
      | None \<Rightarrow> (''00-'' @ trace_id @ ''-'' @ span_id @ ''-01'', []))"

section \<open>Reading a frame\<close>

definition decode_meta_member :: "string \<times> json \<Rightarrow> (string \<times> string) list \<Rightarrow> (string \<times> string) list option" where
  "decode_meta_member kv m = map_option (\<lambda>s. AList.update (fst kv) s m) (into_string (snd kv) [])"

definition into_meta :: "json \<Rightarrow> (string \<times> string) list option option" where
  "into_meta v =
     (case v of
        JNull \<Rightarrow> Some None
      | JObject ms \<Rightarrow> map_option Some (decode_members decode_meta_member ms [])
      | _ \<Rightarrow> None)"

definition decode_error_member :: "string \<times> json \<Rightarrow> public_error \<Rightarrow> public_error option" where
  "decode_error_member kv e =
     (case member_of [''code'', ''message'', ''data''] (fst kv) of
        None \<Rightarrow> None
      | Some n \<Rightarrow>
          if n = ''code'' then map_option (\<lambda>s. e\<lparr>erCode := s\<rparr>) (into_string (snd kv) (erCode e))
          else if n = ''message'' then map_option (\<lambda>s. e\<lparr>erMessage := s\<rparr>) (into_string (snd kv) (erMessage e))
          else Some (e\<lparr>erData := Some (snd kv)\<rparr>))"

definition into_error :: "json \<Rightarrow> public_error option option" where
  "into_error v =
     (case v of
        JNull \<Rightarrow> Some None
      | JObject ms \<Rightarrow> map_option Some (decode_members decode_error_member ms \<lparr>erCode = [], erMessage = [], erData = None\<rparr>)
      | _ \<Rightarrow> None)"

definition frame_names :: "string list" where
  "frame_names = [''version'', ''kind'', ''id'', ''method'', ''params'', ''result'', ''error'', ''event'', ''data'',
     ''traceparent'', ''tracestate'', ''meta'']"

definition decode_frame_member :: "string \<times> json \<Rightarrow> profile_frame \<Rightarrow> profile_frame option" where
  "decode_frame_member kv f =
     (case member_of frame_names (fst kv) of
        None \<Rightarrow> None
      | Some n \<Rightarrow>
          let v = snd kv in
          if n = ''version'' then map_option (\<lambda>x. f\<lparr>pfVersion := x\<rparr>) (into_int v (pfVersion f))
          else if n = ''kind'' then map_option (\<lambda>x. f\<lparr>pfKind := x\<rparr>) (into_string v (pfKind f))
          else if n = ''id'' then map_option (\<lambda>x. f\<lparr>pfID := x\<rparr>) (into_string v (pfID f))
          else if n = ''method'' then map_option (\<lambda>x. f\<lparr>pfMethod := x\<rparr>) (into_string v (pfMethod f))
          else if n = ''params'' then Some (f\<lparr>pfParams := Some v\<rparr>)
          else if n = ''result'' then Some (f\<lparr>pfResult := Some v\<rparr>)
          else if n = ''error'' then map_option (\<lambda>x. f\<lparr>pfError := x\<rparr>) (into_error v)
          else if n = ''event'' then map_option (\<lambda>x. f\<lparr>pfEvent := x\<rparr>) (into_string v (pfEvent f))
          else if n = ''data'' then Some (f\<lparr>pfData := Some v\<rparr>)
          else if n = ''traceparent'' then map_option (\<lambda>x. f\<lparr>pfTraceparent := x\<rparr>) (into_string v (pfTraceparent f))
          else if n = ''tracestate'' then map_option (\<lambda>x. f\<lparr>pfTracestate := x\<rparr>) (into_string v (pfTracestate f))
          else map_option (\<lambda>x. f\<lparr>pfMeta := x\<rparr>) (into_meta v))"

datatype frame_refusal = FrameUnicode | FrameMembers | FrameMember | FrameVersion | FrameShape

definition frameMembers :: "string \<Rightarrow> (string \<times> json) list option" where
  "frameMembers data =
     (case parse_json False data of
        Some (JObject ms) \<Rightarrow> if distinct (map fst ms) then Some ms else None
      | _ \<Rightarrow> None)"

text \<open>The members a frame of a kind may have, and what the frame's fields must be.\<close>

definition allowed_members :: "string \<Rightarrow> string list" where
  "allowed_members kind =
     [''version'', ''kind'', ''traceparent'', ''tracestate''] @
     (if kind = ''request'' then [''id'', ''method'', ''params'', ''meta'']
      else if kind = ''response'' then [''id'', ''result'', ''error'']
      else if kind = ''event'' then [''event'', ''data'', ''meta'']
      else if kind = ''cancel'' then [''id''] else [])"

definition frame_shape :: "profile_frame \<Rightarrow> string set \<Rightarrow> bool" where
  "frame_shape f names =
     (if pfKind f = ''request'' then
        pfID f \<noteq> [] \<and> pfMethod f \<noteq> [] \<and> pfParams f \<noteq> None \<and> pfResult f = None \<and> pfError f = None \<and> pfEvent f = [] \<and> pfData f = None
      else if pfKind f = ''response'' then
        pfID f \<noteq> [] \<and> pfMethod f = [] \<and> pfParams f = None \<and> (pfResult f \<noteq> None) \<noteq> (pfError f \<noteq> None) \<and> pfEvent f = [] \<and>
        pfData f = None \<and> pfMeta f = None \<and> (''result'' \<in> names) \<noteq> (''error'' \<in> names)
      else if pfKind f = ''event'' then
        pfID f = [] \<and> pfMethod f = [] \<and> pfParams f = None \<and> pfResult f = None \<and> pfError f = None \<and> pfEvent f \<noteq> [] \<and> pfData f \<noteq> None
      else if pfKind f = ''cancel'' then
        pfID f \<noteq> [] \<and> pfMethod f = [] \<and> pfParams f = None \<and> pfResult f = None \<and> pfError f = None \<and> pfEvent f = [] \<and>
        pfData f = None \<and> pfMeta f = None
      else False)"

definition decodeFrame :: "string \<Rightarrow> frame_refusal + profile_frame" where
  "decodeFrame data =
     (if \<not> Raw data then Inl FrameUnicode
      else case frameMembers data of
        None \<Rightarrow> Inl FrameMembers
      | Some ms \<Rightarrow>
          (case decode_members decode_frame_member ms empty_frame of
             None \<Rightarrow> Inl FrameMember
           | Some f \<Rightarrow>
               if pfVersion f \<noteq> 1 then Inl FrameVersion
               else if frame_shape f (fst ` set ms)
                  \<and> list_all (\<lambda>(k, v). k \<in> set (allowed_members (pfKind f))) ms
                  \<and> (case pfError f of Some e \<Rightarrow> erCode e \<noteq> [] \<and> erMessage e \<noteq> [] | None \<Rightarrow> True)
                  \<and> (''traceparent'' \<in> fst ` set ms \<longrightarrow> validTraceparent (pfTraceparent f))
                  \<and> (case map_of ms ''meta'' of Some raw \<Rightarrow> validMeta raw | None \<Rightarrow> True)
               then Inr f else Inl FrameShape))"

section \<open>What an encoder writes\<close>

definition omit_string :: "string \<Rightarrow> string \<Rightarrow> (string \<times> json) list" where
  "omit_string k s = (if s = [] then [] else [(k, JString s)])"

definition omit_raw :: "string \<Rightarrow> json option \<Rightarrow> (string \<times> json) list" where
  "omit_raw k r = (case r of None \<Rightarrow> [] | Some v \<Rightarrow> [(k, v)])"

definition error_json :: "public_error \<Rightarrow> json" where
  "error_json e = JObject ([(''code'', JString (erCode e)), (''message'', JString (erMessage e))] @ omit_raw ''data'' (erData e))"

definition meta_json :: "(string \<times> string) list \<Rightarrow> json" where
  "meta_json m = JObject (map (\<lambda>(k, v). (k, JString v)) m)"

definition frame_members :: "profile_frame \<Rightarrow> (string \<times> json) list" where
  "frame_members f =
     [(''version'', JNumber (int_decimal (pfVersion f))), (''kind'', JString (pfKind f))] @
     omit_string ''id'' (pfID f) @ omit_string ''method'' (pfMethod f) @ omit_raw ''params'' (pfParams f) @
     omit_raw ''result'' (pfResult f) @ omit_raw ''error'' (map_option error_json (pfError f)) @
     omit_string ''event'' (pfEvent f) @ omit_raw ''data'' (pfData f) @
     omit_string ''traceparent'' (pfTraceparent f) @ omit_string ''tracestate'' (pfTracestate f) @
     (case pfMeta f of None \<Rightarrow> [] | Some m \<Rightarrow> if m = [] then [] else [(''meta'', meta_json m)])"

section \<open>Close reasons\<close>

text \<open>The loop of \<open>closeReason\<close> drops the last byte until the text is valid.\<close>

fun trim_reason :: "nat \<Rightarrow> string \<Rightarrow> string" where
  "trim_reason 0 reason = []"
| "trim_reason (Suc n) reason = (if valid_utf8 (take (Suc n) reason) then take (Suc n) reason else trim_reason n reason)"

definition closeReason :: "string \<Rightarrow> string" where
  "closeReason reason = (if length reason \<le> 123 then reason else trim_reason 123 reason)"

section \<open>The frames of the profile\<close>

text \<open>
  What \<open>docs/wire/profile.md\<close> lets a frame of each kind carry, apart from how the decoder checks it:
  a traceparent is four groups of lowercase hexadecimal digits, and every key of a carriage is given
  once and is not a reserved one.
\<close>

definition hex_group :: "nat \<Rightarrow> string \<Rightarrow> bool" where
  "hex_group n s \<longleftrightarrow> length s = n \<and> (\<forall>c \<in> set s. is_digit c \<or> CHR ''a'' \<le> c \<and> c \<le> CHR ''f'')"

definition traced :: "string \<Rightarrow> bool" where
  "traced t \<longleftrightarrow> t = [] \<or> (\<exists>version trace span flags. t = version @ ''-'' @ trace @ ''-'' @ span @ ''-'' @ flags \<and>
     hex_group 2 version \<and> hex_group 32 trace \<and> hex_group 16 span \<and> hex_group 2 flags)"

definition carriage :: "(string \<times> string) list option \<Rightarrow> bool" where
  "carriage c \<longleftrightarrow> (\<forall>m. c = Some m \<longrightarrow> distinct (map fst m) \<and> (\<forall>(k, v) \<in> set m. \<not> has_prefix k metaReserved))"

inductive frame_ok :: "profile_frame \<Rightarrow> bool" where
  ok_request: "frame_ok \<lparr>pfVersion = 1, pfKind = ''request'', pfID = i, pfMethod = m, pfParams = Some v, pfResult = None, pfError = None,
     pfEvent = [], pfData = None, pfTraceparent = t, pfTracestate = ts, pfMeta = c\<rparr>"
    if "i \<noteq> []" "m \<noteq> []" "traced t" "carriage c"
| ok_result: "frame_ok \<lparr>pfVersion = 1, pfKind = ''response'', pfID = i, pfMethod = [], pfParams = None, pfResult = Some v, pfError = None,
     pfEvent = [], pfData = None, pfTraceparent = t, pfTracestate = ts, pfMeta = None\<rparr>"
    if "i \<noteq> []" "traced t"
| ok_error: "frame_ok \<lparr>pfVersion = 1, pfKind = ''response'', pfID = i, pfMethod = [], pfParams = None, pfResult = None, pfError = Some e,
     pfEvent = [], pfData = None, pfTraceparent = t, pfTracestate = ts, pfMeta = None\<rparr>"
    if "i \<noteq> []" "erCode e \<noteq> []" "erMessage e \<noteq> []" "traced t"
| ok_event: "frame_ok \<lparr>pfVersion = 1, pfKind = ''event'', pfID = [], pfMethod = [], pfParams = None, pfResult = None, pfError = None,
     pfEvent = n, pfData = Some v, pfTraceparent = t, pfTracestate = ts, pfMeta = c\<rparr>"
    if "n \<noteq> []" "traced t" "carriage c"
| ok_cancel: "frame_ok \<lparr>pfVersion = 1, pfKind = ''cancel'', pfID = i, pfMethod = [], pfParams = None, pfResult = None, pfError = None,
     pfEvent = [], pfData = None, pfTraceparent = t, pfTracestate = ts, pfMeta = None\<rparr>"
    if "i \<noteq> []" "traced t"

text \<open>The encoder leaves an empty carriage out; a peer makes none.\<close>

definition without_empty :: "profile_frame \<Rightarrow> profile_frame" where
  "without_empty f = (if pfMeta f = Some [] then f\<lparr>pfMeta := None\<rparr> else f)"

definition own_frame :: "profile_frame \<Rightarrow> bool" where
  "own_frame f \<longleftrightarrow> frame_ok f \<and> pfMeta f \<noteq> Some []"

lemma hex_groups:
  assumes "length value = 55" "value ! 2 = CHR ''-''" "value ! 35 = CHR ''-''" "value ! 52 = CHR ''-''"
  shows "value = take 2 value @ ''-'' @ take 32 (drop 3 value) @ ''-'' @ take 16 (drop 36 value) @ ''-'' @ drop 53 value"
proof -
  have next_one: "drop n value = value ! n # drop (Suc n) value" if "n < 55" for n
    using that assms(1) by (simp add: Cons_nth_drop_Suc)
  have "drop 3 value = take 32 (drop 3 value) @ drop 35 value" using append_take_drop_id [of 32 "drop 3 value"] by simp
  moreover have "drop 36 value = take 16 (drop 36 value) @ drop 52 value" using append_take_drop_id [of 16 "drop 36 value"] by simp
  moreover have "drop 2 value = ''-'' @ drop 3 value" "drop 35 value = ''-'' @ drop 36 value" "drop 52 value = ''-'' @ drop 53 value"
    using next_one [of 2] next_one [of 35] next_one [of 52] assms(2-4) by simp_all
  ultimately show ?thesis by (metis append.assoc append_take_drop_id)
qed

lemma validTraceparent_iff: "validTraceparent value \<longleftrightarrow> value \<noteq> [] \<and> traced value"
proof
  let ?hex = "\<lambda>c. is_digit c \<or> CHR ''a'' \<le> c \<and> c \<le> CHR ''f''"
  assume v: "validTraceparent value"
  then have shape: "length value = 55" "value ! 2 = CHR ''-''" "value ! 35 = CHR ''-''" "value ! 52 = CHR ''-''"
    by (simp_all add: validTraceparent_def split: if_splits)
  have hex: "?hex (value ! i)" if "i < 55" "i \<noteq> 2" "i \<noteq> 35" "i \<noteq> 52" for i
    using v that shape by (auto simp: validTraceparent_def list_all_iff)
  have group: "hex_group n (take n (drop k value))" if "n + k \<le> 55" "2 \<notin> {k..<n + k}" "35 \<notin> {k..<n + k}" "52 \<notin> {k..<n + k}" for n k
    unfolding hex_group_def
  proof (intro conjI ballI)
    show "length (take n (drop k value)) = n" using that shape(1) by simp
    fix c assume "c \<in> set (take n (drop k value))"
    then obtain i where i: "i < n" "c = value ! (k + i)" using that(1) shape(1) by (auto simp: in_set_conv_nth)
    then have "k + i < 55" "k + i \<noteq> 2" "k + i \<noteq> 35" "k + i \<noteq> 52" using that by auto
    then show "?hex c" unfolding i(2) by (rule hex)
  qed
  have "drop 53 value = take 2 (drop 53 value)" using shape(1) by simp
  then have "value = take 2 (drop 0 value) @ ''-'' @ take 32 (drop 3 value) @ ''-'' @ take 16 (drop 36 value) @ ''-'' @ take 2 (drop 53 value)"
    using hex_groups [OF shape] by simp
  moreover have "hex_group 2 (take 2 (drop 0 value))" "hex_group 32 (take 32 (drop 3 value))" "hex_group 16 (take 16 (drop 36 value))"
    "hex_group 2 (take 2 (drop 53 value))"
    by (intro group; simp)+
  moreover have "value \<noteq> []" using shape(1) by auto
  ultimately show "value \<noteq> [] \<and> traced value" unfolding traced_def by blast
next
  let ?hex = "\<lambda>c. is_digit c \<or> CHR ''a'' \<le> c \<and> c \<le> CHR ''f''"
  assume "value \<noteq> [] \<and> traced value"
  then obtain a b c d where v: "value = a @ ''-'' @ b @ ''-'' @ c @ ''-'' @ d" and g: "hex_group 2 a" "hex_group 32 b" "hex_group 16 c" "hex_group 2 d"
    unfolding traced_def by blast
  have l: "length a = 2" "length b = 32" "length c = 16" "length d = 2" using g by (simp_all add: hex_group_def)
  have digits: "\<forall>x \<in> set a \<union> set b \<union> set c \<union> set d. ?hex x" using g by (auto simp: hex_group_def)
  have hex: "?hex (value ! i)" if i: "i < 55" "i \<noteq> 2" "i \<noteq> 35" "i \<noteq> 52" for i
  proof -
    consider "i < 2" | "3 \<le> i" "i < 35" | "36 \<le> i" "i < 52" | "53 \<le> i" "i < 55" using i by linarith
    then have "value ! i \<in> set a \<union> set b \<union> set c \<union> set d"
    proof cases
      case 2
      then have "i - 3 < 32" by linarith
      then show ?thesis using 2 by (simp add: v l nth_append nth_Cons')
    next
      case 3
      then have "i - 36 < 16" by linarith
      then show ?thesis using 3 by (simp add: v l nth_append nth_Cons')
    qed (simp_all add: v l nth_append nth_Cons')
    then show ?thesis using digits by blast
  qed
  have "value ! 2 = CHR ''-''" "value ! 35 = CHR ''-''" "value ! 52 = CHR ''-''" "length value = 55"
    by (simp_all add: v l nth_append)
  moreover have "i = 2 \<or> i = 35 \<or> i = 52 \<or> is_digit (value ! i) \<or> CHR ''a'' \<le> value ! i \<and> value ! i \<le> CHR ''f''" if "i \<in> set [0..<55]" for i
    using hex [of i] that by auto
  ultimately show "validTraceparent value" by (simp add: validTraceparent_def list_all_iff)
qed

text \<open>Which members a frame has, in order.\<close>

definition chosen :: "('a \<times> bool) list \<Rightarrow> 'a list" where
  "chosen xs = map fst (filter snd xs)"

lemma chosen_simps [simp]: "chosen [] = []" "chosen ((k, b) # xs) = (if b then k # chosen xs else chosen xs)"
  by (simp_all add: chosen_def)

lemma distinct_chosen: "distinct (map fst xs) \<Longrightarrow> distinct (chosen xs)"
  by (induction xs) (auto simp: chosen_def)

definition frame_choice :: "profile_frame \<Rightarrow> (string \<times> bool) list" where
  "frame_choice f = [(''version'', True), (''kind'', True), (''id'', pfID f \<noteq> []), (''method'', pfMethod f \<noteq> []),
     (''params'', pfParams f \<noteq> None), (''result'', pfResult f \<noteq> None), (''error'', pfError f \<noteq> None), (''event'', pfEvent f \<noteq> []),
     (''data'', pfData f \<noteq> None), (''traceparent'', pfTraceparent f \<noteq> []), (''tracestate'', pfTracestate f \<noteq> []),
     (''meta'', case pfMeta f of None \<Rightarrow> False | Some m \<Rightarrow> m \<noteq> [])]"

lemma chosen_append: "chosen (xs @ ys) = chosen xs @ chosen ys"
  by (simp add: chosen_def)

lemma names_omit:
  "map fst (omit_string k s) = chosen [(k, s \<noteq> [])]"
  "map fst (omit_raw k r) = chosen [(k, r \<noteq> None)]"
  "map fst (omit_raw k (map_option g e)) = chosen [(k, e \<noteq> None)]"
  "map fst (case m of None \<Rightarrow> [] | Some m' \<Rightarrow> if m' = [] then [] else [(k, h m')]) = chosen [(k, case m of None \<Rightarrow> False | Some m' \<Rightarrow> m' \<noteq> [])]"
  "map fst [(k, v), (k', v')] = chosen [(k, True), (k', True)]"
  by (simp_all add: omit_string_def omit_raw_def split: option.split)

lemma frame_member_names: "map fst (frame_members f) = chosen (frame_choice f)"
  unfolding frame_members_def frame_choice_def map_append names_omit by (simp only: chosen_append [symmetric] append.simps option.map_disc_iff)

lemma frame_members_distinct: "distinct (map fst (frame_members f))"
  unfolding frame_member_names by (rule distinct_chosen) (simp add: frame_choice_def)

lemma set_chosen: "set (chosen xs) = {k. (k, True) \<in> set xs}"
  by (induction xs) (auto split: if_splits)

lemma frame_name_in: "k \<in> fst ` set (frame_members f) \<longleftrightarrow> (k, True) \<in> set (frame_choice f)"
  using arg_cong [OF frame_member_names, of set f] unfolding set_chosen set_map by blast

lemma frame_ok_iff:
  "frame_ok f \<longleftrightarrow> pfVersion f = 1 \<and> frame_shape f (fst ` set (frame_members f)) \<and>
     (case pfError f of Some e \<Rightarrow> erCode e \<noteq> [] \<and> erMessage e \<noteq> [] | None \<Rightarrow> True) \<and> traced (pfTraceparent f) \<and> carriage (pfMeta f)"
proof
  assume "frame_ok f"
  then show "pfVersion f = 1 \<and> frame_shape f (fst ` set (frame_members f)) \<and>
     (case pfError f of Some e \<Rightarrow> erCode e \<noteq> [] \<and> erMessage e \<noteq> [] | None \<Rightarrow> True) \<and> traced (pfTraceparent f) \<and> carriage (pfMeta f)"
    by cases (simp_all add: frame_shape_def frame_name_in frame_choice_def carriage_def)
next
  assume f: "pfVersion f = 1 \<and> frame_shape f (fst ` set (frame_members f)) \<and>
     (case pfError f of Some e \<Rightarrow> erCode e \<noteq> [] \<and> erMessage e \<noteq> [] | None \<Rightarrow> True) \<and> traced (pfTraceparent f) \<and> carriage (pfMeta f)"
  then show "frame_ok f"
    by (cases f) (auto simp: frame_shape_def frame_ok.simps split: if_splits)
qed

lemma own_frame_iff:
  "own_frame f \<longleftrightarrow> pfVersion f = 1 \<and> frame_shape f (fst ` set (frame_members f)) \<and>
     (case pfError f of Some e \<Rightarrow> erCode e \<noteq> [] \<and> erMessage e \<noteq> [] | None \<Rightarrow> True) \<and>
     (pfTraceparent f = [] \<or> validTraceparent (pfTraceparent f)) \<and>
     (case pfMeta f of None \<Rightarrow> True | Some m \<Rightarrow> m \<noteq> [] \<and> distinct (map fst m) \<and> list_all (\<lambda>(k, v). \<not> has_prefix k metaReserved) m)"
  unfolding own_frame_def frame_ok_iff validTraceparent_iff
  by (auto simp: traced_def carriage_def list_all_iff split: option.split)

section \<open>A frame a peer makes is read back\<close>

lemma decode_members_append: "decode_members d (ms @ ns) a = (case decode_members d ms a of None \<Rightarrow> None | Some a' \<Rightarrow> decode_members d ns a')"
  by (induction ms arbitrary: a) (auto split: option.splits)

lemma decode_meta_json:
  "distinct (map fst (m @ n)) \<Longrightarrow> decode_members decode_meta_member (map (\<lambda>(k, v). (k, JString v)) n) m = Some (m @ n)"
proof (induction n arbitrary: m)
  case (Cons kv n)
  obtain k v where kv: "kv = (k, v)" by force
  have "AList.update k v m = m @ [(k, v)]" if "k \<notin> fst ` set m" for k :: string and v :: string and m
    using that by (induction m) auto
  then show ?case using Cons kv by (auto simp: decode_meta_member_def into_string_def)
qed simp

lemma into_meta_json: "distinct (map fst m) \<Longrightarrow> into_meta (meta_json m) = Some (Some m)"
  using decode_meta_json [of "[]" m] by (simp add: into_meta_def meta_json_def)

lemma into_error_json: "into_error (error_json e) = Some (Some e)"
  by (cases e; cases "erData e") (simp_all add: into_error_def error_json_def omit_raw_def decode_error_member_def member_of_def into_string_def)

lemma version_json: "into_int (JNumber (int_decimal 1)) n = Some 1"
  by code_simp

lemma frame_string_segment:
  "pfID a = [] \<Longrightarrow> decode_members decode_frame_member (omit_string ''id'' s @ ms) a = decode_members decode_frame_member ms (a\<lparr>pfID := s\<rparr>)"
  "pfMethod a = [] \<Longrightarrow> decode_members decode_frame_member (omit_string ''method'' s @ ms) a = decode_members decode_frame_member ms (a\<lparr>pfMethod := s\<rparr>)"
  "pfEvent a = [] \<Longrightarrow> decode_members decode_frame_member (omit_string ''event'' s @ ms) a = decode_members decode_frame_member ms (a\<lparr>pfEvent := s\<rparr>)"
  "pfTraceparent a = [] \<Longrightarrow> decode_members decode_frame_member (omit_string ''traceparent'' s @ ms) a = decode_members decode_frame_member ms (a\<lparr>pfTraceparent := s\<rparr>)"
  "pfTracestate a = [] \<Longrightarrow> decode_members decode_frame_member (omit_string ''tracestate'' s @ ms) a = decode_members decode_frame_member ms (a\<lparr>pfTracestate := s\<rparr>)"
  by (cases a; simp add: omit_string_def decode_frame_member_def member_of_def frame_names_def into_string_def)+

lemma frame_raw_segment:
  "pfParams a = None \<Longrightarrow> decode_members decode_frame_member (omit_raw ''params'' r @ ms) a = decode_members decode_frame_member ms (a\<lparr>pfParams := r\<rparr>)"
  "pfResult a = None \<Longrightarrow> decode_members decode_frame_member (omit_raw ''result'' r @ ms) a = decode_members decode_frame_member ms (a\<lparr>pfResult := r\<rparr>)"
  "pfData a = None \<Longrightarrow> decode_members decode_frame_member (omit_raw ''data'' r @ ms) a = decode_members decode_frame_member ms (a\<lparr>pfData := r\<rparr>)"
  "pfError a = None \<Longrightarrow> decode_members decode_frame_member (omit_raw ''error'' (map_option error_json e) @ ms) a =
     decode_members decode_frame_member ms (a\<lparr>pfError := e\<rparr>)"
  by (cases a; cases r; cases e; simp add: omit_raw_def decode_frame_member_def member_of_def frame_names_def into_error_json)+

lemma decode_frame_members:
  assumes "own_frame f"
  shows "decode_members decode_frame_member (frame_members f) empty_frame = Some f"
proof -
  have meta: "decode_members decode_frame_member (case pfMeta f of None \<Rightarrow> [] | Some m \<Rightarrow> if m = [] then [] else [(''meta'', meta_json m)]) a
      = Some (a\<lparr>pfMeta := pfMeta f\<rparr>)" if "pfMeta a = None" for a
  proof (cases "pfMeta f")
    case None
    then show ?thesis using that by (cases a) simp
  next
    case (Some m)
    then show ?thesis
      using assms that into_meta_json [of m]
      by (cases a) (simp add: own_frame_iff decode_frame_member_def member_of_def frame_names_def)
  qed
  have start: "decode_members decode_frame_member ([(''version'', JNumber (int_decimal (pfVersion f))), (''kind'', JString (pfKind f))] @ ms) empty_frame
      = decode_members decode_frame_member ms (empty_frame\<lparr>pfVersion := 1, pfKind := pfKind f\<rparr>)" for ms
    using assms version_json by (simp add: own_frame_iff decode_frame_member_def member_of_def frame_names_def into_string_def)
  have version: "pfVersion f = 1" using assms by (simp add: own_frame_iff)
  show ?thesis
    unfolding frame_members_def start
    by (simp add: frame_string_segment frame_raw_segment meta empty_frame_def) (cases f; use version in simp)
qed

lemma frame_members_allowed:
  assumes "own_frame f"
  shows "list_all (\<lambda>(k, v). k \<in> set (allowed_members (pfKind f))) (frame_members f)"
proof -
  have "k \<in> set (allowed_members (pfKind f))" if "(k, True) \<in> set (frame_choice f)" for k
    using assms that by (auto simp: own_frame_iff frame_shape_def frame_choice_def allowed_members_def split: if_splits option.splits)
  then show ?thesis using frame_name_in by (force simp: list_all_iff)
qed

lemma frame_meta_member:
  "map_of (frame_members f) ''meta'' = (case pfMeta f of None \<Rightarrow> None | Some m \<Rightarrow> if m = [] then None else Some (meta_json m))"
proof -
  have "k \<noteq> n \<Longrightarrow> map_of (omit_string k s) n = None" "k \<noteq> n \<Longrightarrow> map_of (omit_raw k r) n = None" for k n s r
    by (simp_all add: omit_string_def omit_raw_def split: option.split)
  then show ?thesis by (simp add: frame_members_def map_add_def split: option.split)
qed

lemma meta_member_text: "(k, v) \<in> set m \<Longrightarrow> is_text (map_of (rev (map (\<lambda>(k, v). (k, JString v)) m)) k)"
proof -
  assume "(k, v) \<in> set m"
  then have "(k, JString v) \<in> set (rev (map (\<lambda>(k, v). (k, JString v)) m))" by force
  then have "k \<in> fst ` set (rev (map (\<lambda>(k, v). (k, JString v)) m))" by (rule image_eqI [rotated]) simp
  then have "map_of (rev (map (\<lambda>(k, v). (k, JString v)) m)) k \<noteq> None" by (simp only: map_of_eq_None_iff not_not)
  then obtain x where x: "map_of (rev (map (\<lambda>(k, v). (k, JString v)) m)) k = Some x" by auto
  then have "\<exists>s. x = JString s" using map_of_SomeD [OF x] by auto
  then show ?thesis using x by (auto simp: is_text_def)
qed

lemma validMeta_json: "list_all (\<lambda>(k, v). \<not> has_prefix k metaReserved) m \<Longrightarrow> validMeta (meta_json m)"
  using meta_member_text by (fastforce simp: validMeta_def meta_json_def list_all_iff)

lemma own_frame_is_read_back:
  assumes "parse_json True d = Some (JObject (frame_members f))" and "own_frame f"
  shows "decodeFrame d = Inr f"
proof -
  have raw: "Raw d" "parse_json False d = Some (JObject (frame_members f))"
    using parse_exactly [OF assms(1)] by simp_all
  have trace: "''traceparent'' \<in> fst ` set (frame_members f) \<longleftrightarrow> pfTraceparent f \<noteq> []"
    using frame_name_in [of "''traceparent''" f] by (simp add: frame_choice_def)
  have meta: "case map_of (frame_members f) ''meta'' of Some raw \<Rightarrow> validMeta raw | None \<Rightarrow> True"
    using assms(2) validMeta_json
    by (auto simp: own_frame_iff frame_meta_member split: option.splits)
  show ?thesis
    using raw assms(2) trace meta frame_members_distinct [of f] frame_members_allowed [OF assms(2)] decode_frame_members [OF assms(2)]
    by (simp add: decodeFrame_def frameMembers_def own_frame_iff)
qed

section \<open>Only frames of the profile are read\<close>

lemma decode_meta_keys:
  "decode_members decode_meta_member ms m = Some n \<Longrightarrow> distinct (map fst m) \<Longrightarrow>
     distinct (map fst n) \<and> fst ` set n \<subseteq> fst ` set m \<union> fst ` set ms"
proof (induction ms arbitrary: m)
  case (Cons kv ms)
  obtain k v where kv: "kv = (k, v)" by force
  obtain m' where m': "decode_meta_member (k, v) m = Some m'" "decode_members decode_meta_member ms m' = Some n"
    using Cons.prems(1) kv by (auto split: option.splits)
  then obtain s where s: "m' = AList.update k s m" by (auto simp: decode_meta_member_def)
  have "distinct (map fst m')" using s Cons.prems(2) by (simp add: distinct_update)
  note IH = Cons.IH [OF m'(2) this]
  have "fst ` set m' = insert k (fst ` set m)" by (simp add: s dom_update)
  then show ?case using IH kv by auto
qed simp

lemma read_carriage:
  assumes "validMeta raw" "into_meta raw = Some c"
  shows "carriage c"
proof -
  obtain ms where raw: "raw = JObject ms" using assms(1) by (cases raw) (auto simp: validMeta_def)
  then have ms: "raw = JObject ms" "\<forall>k \<in> fst ` set ms. \<not> has_prefix k metaReserved"
    using assms(1) by (fastforce simp: validMeta_def list_all_iff)+
  then obtain m where m: "c = Some m" "decode_members decode_meta_member ms [] = Some m" using assms(2) by (auto simp: into_meta_def)
  have "distinct (map fst m) \<and> fst ` set m \<subseteq> fst ` set ms" using decode_meta_keys [OF m(2)] by simp
  then show ?thesis using m(1) ms(2) by (fastforce simp: carriage_def)
qed

text \<open>A member of another name leaves the trace and the carriage alone.\<close>

lemma plain_member: "k \<in> set names \<Longrightarrow> member_of names k = Some k"
  by (simp add: member_of_def)

lemma decode_member_traceparent:
  "decode_frame_member (k, v) a = Some b \<Longrightarrow> k \<in> set frame_names \<Longrightarrow> k \<noteq> ''traceparent'' \<Longrightarrow> pfTraceparent b = pfTraceparent a"
  by (auto simp: decode_frame_member_def plain_member Let_def split: if_splits)

lemma decode_member_meta:
  assumes "decode_frame_member (k, v) a = Some b" "k \<in> set frame_names"
  shows "if k = ''meta'' then into_meta v = Some (pfMeta b) else pfMeta b = pfMeta a"
proof (cases "k = ''meta''")
  case True
  then show ?thesis using assms(1) plain_member [OF assms(2)] by (auto simp: decode_frame_member_def Let_def)
next
  case False
  then have "k \<in> {''version'', ''kind'', ''id'', ''method'', ''params'', ''result'', ''error'', ''event'', ''data'', ''traceparent'', ''tracestate''}"
    using assms(2) by (auto simp: frame_names_def)
  then show ?thesis using assms(1) plain_member [OF assms(2)] by (auto simp: decode_frame_member_def)
qed

lemma decode_members_other:
  "decode_members decode_frame_member ms a = Some f \<Longrightarrow> fst ` set ms \<subseteq> set frame_names \<Longrightarrow> distinct (map fst ms) \<Longrightarrow>
     (case map_of ms ''meta'' of None \<Rightarrow> pfMeta f = pfMeta a | Some v \<Rightarrow> into_meta v = Some (pfMeta f)) \<and>
     (''traceparent'' \<notin> fst ` set ms \<longrightarrow> pfTraceparent f = pfTraceparent a)"
proof (induction ms arbitrary: a)
  case (Cons kv ms)
  obtain k v where kv: "kv = (k, v)" by force
  obtain b where b: "decode_frame_member (k, v) a = Some b" "decode_members decode_frame_member ms b = Some f"
    using Cons.prems kv by (auto split: option.splits)
  have k: "k \<in> set frame_names" "fst ` set ms \<subseteq> set frame_names" "distinct (map fst ms)" "map_of ms k = None"
    using Cons.prems kv by (auto simp: map_of_eq_None_iff)
  show ?case using Cons.IH [OF b(2) k(2,3)] decode_member_meta [OF b(1) k(1)] decode_member_traceparent [OF b(1) k(1)] k(4) kv
    by (auto split: option.splits if_splits)
qed simp

lemma allowed_names: "set (allowed_members k) \<subseteq> set frame_names"
  by (auto simp: allowed_members_def frame_names_def split: if_splits)

lemma only_profile_frames_are_read:
  assumes "decodeFrame d = Inr f"
  shows "frame_ok f"
proof -
  obtain ms where members: "frameMembers d = Some ms" and ms: "decode_members decode_frame_member ms empty_frame = Some f" "pfVersion f = 1"
    "frame_shape f (fst ` set ms)" "list_all (\<lambda>(k, v). k \<in> set (allowed_members (pfKind f))) ms"
    "case pfError f of Some e \<Rightarrow> erCode e \<noteq> [] \<and> erMessage e \<noteq> [] | None \<Rightarrow> True"
    "''traceparent'' \<in> fst ` set ms \<longrightarrow> validTraceparent (pfTraceparent f)"
    "case map_of ms ''meta'' of Some raw \<Rightarrow> validMeta raw | None \<Rightarrow> True"
    using assms by (auto simp: decodeFrame_def split: if_splits option.splits)
  have names: "fst ` set ms \<subseteq> set frame_names" using ms(4) allowed_names by (fastforce simp: list_all_iff)
  have "distinct (map fst ms)" using members by (auto simp: frameMembers_def split: option.splits json.splits if_splits)
  note other = decode_members_other [OF ms(1) names this]
  have "traced (pfTraceparent f)"
    using other ms(6) validTraceparent_iff by (cases "''traceparent'' \<in> fst ` set ms") (auto simp: empty_frame_def traced_def)
  moreover have "carriage (pfMeta f)"
    using other ms(7) read_carriage by (cases "map_of ms ''meta''") (auto simp: empty_frame_def carriage_def)
  moreover have "frame_shape f (fst ` set (frame_members f))"
    using ms(3) unfolding frame_shape_def frame_name_in by (simp add: frame_choice_def split: if_splits) blast?
  ultimately show ?thesis using ms(2,5) by (simp add: frame_ok_iff)
qed

text \<open>A frame and the frame without an empty carriage have one encoding.\<close>

lemma frame_members_without_empty [simp]: "frame_members (without_empty f) = frame_members f"
  by (simp add: frame_members_def without_empty_def)

lemma own_frame_without_empty: "frame_ok f \<Longrightarrow> own_frame (without_empty f)"
  by (induction rule: frame_ok.induct) (auto simp: own_frame_def without_empty_def carriage_def intro: frame_ok.intros)

end
