(* ===== verification/Peer_Model.thy ===== *)
theory Peer_Model
  imports Peer_Frame Duplex_Frame
begin

text \<open>
  A peer of \<open>runtime/go/peer.go\<close>: its calls, its queue of frames, its reader, the handlers it runs
  and its end.  Each definition is a section that runs under a lock, or a turn of one of the
  peer's goroutines, on a record of the peer's state; a select is an argument that names the case
  taken.  What an encoder makes of a frame is the argument \<open>render\<close>.
\<close>

section \<open>State\<close>

datatype peer_error =
    PeerClosed | Backpressure | ContextEnded | TransportFailed | EventPanic | SerialsExhausted | RejectionTooLarge
  | NotText | FrameTooLarge | BadFrame frame_refusal | BadID | SerialNotIncreased | DuplicateActive
  | BadName | Unencodable | FrameOverLimit | CallBusy | CallExhausted | Registered | BadLimits | BadRole

datatype ctx_end = Cancelled | DeadlineExceeded

datatype conn_close = Aborted | ClosedWith int string

datatype call_outcome = Result json | Undecodable | Failed public_error | Withdrawn ctx_end | Over peer_error

type_synonym trace = "string \<times> string"
type_synonym queued_frame = "string \<times> profile_frame"

record peer_call =
  clID :: string
  clSerial :: nat
  clMethod :: string
  clParams :: json
  clTrace :: trace
  clMeta :: "(string \<times> string) list option"
  clImmediate :: bool
  clCtx :: "ctx_end option"
  clPublished :: bool
  clReply :: "(public_error + json) option"
  clCompleted :: bool
  clOutcome :: "call_outcome option"

datatype body_turn = BodyRunning | BodyReturned | BodyGone

datatype answer_turn = Unanswered | Enqueueing profile_frame bool | WaitingRoom profile_frame bool | Answered

record peer_request =
  rqID :: string
  rqMethod :: string
  rqParams :: json
  rqTrace :: trace
  rqMeta :: "(string \<times> string) list option"
  rqCtx :: "ctx_end option"
  rqBody :: body_turn
  rqAnswer :: answer_turn

record queued_event =
  qeName :: string
  qeData :: json
  qeTrace :: trace
  qeMeta :: "(string \<times> string) list option"

datatype reader_turn = Reading | Pacing queued_event | ReaderDone

record emitter =
  emFrame :: profile_frame
  emImmediate :: bool
  emCtx :: "ctx_end option"

record limits =
  maxHandlers :: nat
  maxPending :: nat
  queueCap :: nat
  maxFrame :: int

record peer =
  prServer :: bool
  prLimits :: limits
  prNext :: nat
  prAdmitted :: nat
  prPublishing :: "(nat \<times> bool) option"
  prErr :: "peer_error option"
  prEnding :: conn_close
  prOver :: bool
  prCtx :: bool
  prConn :: "conn_close option"
  prCalls :: "peer_call list"
  prPending :: "(string \<times> nat) list"
  prRequests :: "peer_request list"
  prIncoming :: "(string \<times> nat) list"
  prSlots :: nat
  prHandlers :: "string list"
  prEventHandlers :: "string list"
  prListeners :: "nat list"
  prListenerID :: nat
  prEmitters :: "emitter list"
  prOutputs :: "queued_frame list"
  prWriter :: bool
  prWriting :: "queued_frame option"
  prReader :: reader_turn
  prEvents :: "queued_event list"
  prHandling :: bool
  prQueued :: "queued_frame list"
  prReceived :: "profile_frame list"
  prDelivered :: "(queued_event \<times> bool \<times> nat list) list"

text \<open>
  \<open>prPublishing\<close> is the call that holds the gate, and whether its frame waits for room.
  The last three are logs: every frame the queue took, every frame the reader accepted, and every
  event the event loop delivered, with whether it had a handler and which listeners saw it.
\<close>

section \<open>Making a peer\<close>

definition role_prefix :: "bool \<Rightarrow> string" where
  "role_prefix server = (if server then ''s:'' else ''c:'')"

record peer_options =
  opHandlers :: "(string \<times> bool) list"
  opEvents :: "(string \<times> bool) list"
  opMaxHandlers :: int
  opMaxPending :: int
  opQueue :: int
  opMaxFrame :: int
  opRequestTimeout :: int
  opWriteTimeout :: int

text \<open>A handler in the options is its name and whether it is there at all.\<close>

definition normalized_limit :: "int \<Rightarrow> int \<Rightarrow> int" where
  "normalized_limit standard n = (if n = 0 then standard else n)"

definition peer_options_normalized :: "peer_options \<Rightarrow> peer_error + limits" where
  "peer_options_normalized opts =
     (if opMaxHandlers opts < 0 \<or> opMaxPending opts < 0 \<or> opQueue opts < 0 \<or> opMaxFrame opts < 0
         \<or> opRequestTimeout opts < 0 \<or> opWriteTimeout opts < 0 then Inl BadLimits
      else
        let l = \<lparr>maxHandlers = nat (normalized_limit 64 (opMaxHandlers opts)), maxPending = nat (normalized_limit 128 (opMaxPending opts)),
                 queueCap = nat (normalized_limit 128 (opQueue opts)), maxFrame = normalized_limit 1048576 (opMaxFrame opts)\<rparr> in
        if list_ex (\<lambda>(name, there). name = [] \<or> \<not> there) (opHandlers opts) then Inl BadName
        else if list_ex (\<lambda>(name, there). name = [] \<or> \<not> there) (opEvents opts) then Inl BadName
        else Inr l)"

definition fresh_peer :: "bool \<Rightarrow> limits \<Rightarrow> string list \<Rightarrow> string list \<Rightarrow> peer" where
  "fresh_peer server l handlers events =
     \<lparr>prServer = server, prLimits = l, prNext = 0, prAdmitted = 0, prPublishing = None, prErr = None, prEnding = Aborted,
      prOver = False, prCtx = False, prConn = None, prCalls = [], prPending = [], prRequests = [], prIncoming = [], prSlots = 0,
      prHandlers = handlers, prEventHandlers = events, prListeners = [], prListenerID = 0, prEmitters = [], prOutputs = [],
      prWriter = True, prWriting = None, prReader = Reading, prEvents = [], prHandling = False, prQueued = [], prReceived = [],
      prDelivered = []\<rparr>"

definition newPeer :: "string \<Rightarrow> peer_options \<Rightarrow> peer_error + peer" where
  "newPeer role opts =
     (if role \<noteq> ''client'' \<and> role \<noteq> ''server'' then Inl BadRole
      else case peer_options_normalized opts of
        Inl e \<Rightarrow> Inl e
      | Inr l \<Rightarrow> Inr (fresh_peer (role = ''server'') l (map fst (opHandlers opts)) (map fst (opEvents opts))))"

section \<open>Ending\<close>

text \<open>
  \<open>end\<close> up to the point where the error is recorded, and the rest of it: the context is cancelled,
  \<open>done\<close> closed, and the connection closed or aborted.
\<close>

definition end_peer :: "peer_error \<Rightarrow> conn_close \<Rightarrow> peer \<Rightarrow> peer" where
  "end_peer e close p = (if prErr p \<noteq> None then p else p\<lparr>prErr := Some e, prEnding := close\<rparr>)"

definition end_finish :: "peer \<Rightarrow> peer" where
  "end_finish p = p\<lparr>prOver := True, prCtx := True,
     prConn := Some (case prEnding p of Aborted \<Rightarrow> Aborted | ClosedWith code reason \<Rightarrow> ClosedWith code (closeReason reason))\<rparr>"

definition fail_peer :: "peer_error \<Rightarrow> peer \<Rightarrow> peer" where
  "fail_peer e p = end_peer e Aborted p"

definition CodeDuplex :: int where "CodeDuplex = 4011"

definition refuse_peer :: "peer_error \<Rightarrow> string \<Rightarrow> peer \<Rightarrow> peer" where
  "refuse_peer e why p = end_peer e (ClosedWith CodeDuplex why) p"

definition Close_peer :: "peer \<Rightarrow> peer" where
  "Close_peer p = end_peer PeerClosed (ClosedWith CodeNormal []) p"

section \<open>Registration\<close>

definition Handle :: "string \<Rightarrow> bool \<Rightarrow> peer \<Rightarrow> (peer_error + unit) \<times> peer" where
  "Handle m there p =
     (if m = [] \<or> \<not> there then (Inl BadName, p)
      else case prErr p of
        Some e \<Rightarrow> (Inl e, p)
      | None \<Rightarrow> if m \<in> set (prHandlers p) then (Inl Registered, p) else (Inr (), p\<lparr>prHandlers := m # prHandlers p\<rparr>))"

definition HandleEvent :: "string \<Rightarrow> bool \<Rightarrow> peer \<Rightarrow> (peer_error + unit) \<times> peer" where
  "HandleEvent m there p =
     (if m = [] \<or> \<not> there then (Inl BadName, p)
      else case prErr p of
        Some e \<Rightarrow> (Inl e, p)
      | None \<Rightarrow> if m \<in> set (prEventHandlers p) then (Inl Registered, p) else (Inr (), p\<lparr>prEventHandlers := m # prEventHandlers p\<rparr>))"

definition OnEvent :: "peer \<Rightarrow> nat \<times> peer" where
  "OnEvent p = (prListenerID p + 1, p\<lparr>prListenerID := prListenerID p + 1, prListeners := prListeners p @ [prListenerID p + 1]\<rparr>)"

definition unsubscribe :: "nat \<Rightarrow> peer \<Rightarrow> peer" where
  "unsubscribe i p = p\<lparr>prListeners := removeAll i (prListeners p)\<rparr>"

section \<open>The queue of frames\<close>

definition queued :: "string \<Rightarrow> profile_frame \<Rightarrow> peer \<Rightarrow> peer" where
  "queued d f p = p\<lparr>prOutputs := prOutputs p @ [(d, f)], prQueued := prQueued p @ [(d, f)]\<rparr>"

definition has_room :: "peer \<Rightarrow> bool" where
  "has_room p \<longleftrightarrow> length (prOutputs p) < queueCap (prLimits p)"

text \<open>
  \<open>enqueueFrame\<close> up to its wait: \<open>Inr True\<close> when the frame was queued, \<open>Inr False\<close> when it has to
  wait.  \<open>noticed\<close> is whether its look at \<open>done\<close> came after the end.
\<close>

definition enqueue_first :: "(profile_frame \<Rightarrow> string option) \<Rightarrow> bool \<Rightarrow> bool \<Rightarrow> profile_frame \<Rightarrow> peer \<Rightarrow> (peer_error + bool) \<times> peer" where
  "enqueue_first render ended noticed f p =
     (if ended then (Inl ContextEnded, p)
      else case render f of
        None \<Rightarrow> (Inl Unencodable, p)
      | Some d \<Rightarrow>
          if int (length d) > maxFrame (prLimits p) then (Inl FrameOverLimit, p)
          else if prOver p \<and> noticed then (Inl (the (prErr p)), p)
          else if has_room p then (Inr True, queued d f p)
          else (Inr False, p))"

datatype taken = Room | ContextDone | PeerDone | TimerFired

text \<open>
  The wait: \<open>None\<close> when the case taken is not ready.  A frame of a routed wire does not wait, so
  only the last case is left to it.
\<close>

definition enqueue_wait ::
    "(profile_frame \<Rightarrow> string option) \<Rightarrow> bool \<Rightarrow> bool \<Rightarrow> taken \<Rightarrow> profile_frame \<Rightarrow> peer \<Rightarrow> ((peer_error + unit) \<times> peer) option" where
  "enqueue_wait render immediate ended t f p =
     (case t of
        TimerFired \<Rightarrow> Some (Inl Backpressure, fail_peer Backpressure p)
      | Room \<Rightarrow> if \<not> immediate \<and> has_room p then Some (Inr (), queued (the (render f)) f p) else None
      | ContextDone \<Rightarrow> if \<not> immediate \<and> ended then Some (Inl ContextEnded, p) else None
      | PeerDone \<Rightarrow> if \<not> immediate \<and> prOver p then Some (Inl (the (prErr p)), p) else None)"

section \<open>Calls\<close>

definition maxRequestSerial :: int where
  "maxRequestSerial = 9223372036854775807"

definition mint :: "bool \<Rightarrow> nat \<Rightarrow> string" where
  "mint server n = role_prefix server @ nat_decimal n"

definition update_call :: "nat \<Rightarrow> (peer_call \<Rightarrow> peer_call) \<Rightarrow> peer \<Rightarrow> peer" where
  "update_call i g p = p\<lparr>prCalls := (prCalls p)[i := g (prCalls p ! i)]\<rparr>"

definition request_frame :: "peer_call \<Rightarrow> profile_frame" where
  "request_frame c = empty_frame\<lparr>pfVersion := 1, pfKind := ''request'', pfID := clID c, pfMethod := clMethod c,
     pfParams := Some (clParams c), pfTraceparent := fst (clTrace c), pfTracestate := snd (clTrace c), pfMeta := clMeta c\<rparr>"

text \<open>
  \<open>beginCallTrace\<close> up to the queue.  \<open>params\<close> is what encoding them gave; a call that reaches the
  queue holds the gate \<open>publish\<close> until its frame is queued or refused.
\<close>

definition beginCall ::
    "bool \<Rightarrow> string \<Rightarrow> json option \<Rightarrow> trace \<Rightarrow> (string \<times> string) list \<Rightarrow> bool \<Rightarrow> peer \<Rightarrow> (peer_error + nat) \<times> peer" where
  "beginCall ended m params t carried immediate p =
     (if m = [] then (Inl BadName, p)
      else if ended then (Inl ContextEnded, p)
      else case params of
        None \<Rightarrow> (Inl Unencodable, p)
      | Some v \<Rightarrow>
          if int (prNext p) = maxRequestSerial then (Inl CallExhausted, fail_peer SerialsExhausted p)
          else
            let p = p\<lparr>prNext := prNext p + 1\<rparr>; i = mint (prServer p) (prNext p) in
            (case prErr p of
               Some e \<Rightarrow> (Inl e, p)
             | None \<Rightarrow>
                 if length (prPending p) \<ge> maxPending (prLimits p) then (Inl CallBusy, p)
                 else (Inr (length (prCalls p)),
                   p\<lparr>prPending := prPending p @ [(i, length (prCalls p))], prPublishing := Some (length (prCalls p), False),
                     prCalls := prCalls p @ [\<lparr>clID = i, clSerial = prNext p, clMethod = m, clParams = v, clTrace = t,
                       clMeta = outgoing_meta carried, clImmediate = immediate, clCtx = None, clPublished = False, clReply = None,
                       clCompleted = False, clOutcome = None\<rparr>]\<rparr>)))"

definition finish_call :: "nat \<Rightarrow> peer \<Rightarrow> peer" where
  "finish_call i p = p\<lparr>prPending := AList.delete (clID (prCalls p ! i)) (prPending p)\<rparr>"

definition call_published :: "nat \<Rightarrow> peer \<Rightarrow> peer" where
  "call_published i p = (update_call i (\<lambda>c. c\<lparr>clPublished := True\<rparr>) p)\<lparr>prPublishing := None\<rparr>"

definition call_unpublished :: "nat \<Rightarrow> peer_error \<Rightarrow> peer \<Rightarrow> peer" where
  "call_unpublished i e p =
     update_call i (\<lambda>c. c\<lparr>clCompleted := True, clOutcome := Some (Over e)\<rparr>) (finish_call i (p\<lparr>prPublishing := None\<rparr>))"

definition publish_first :: "(profile_frame \<Rightarrow> string option) \<Rightarrow> bool \<Rightarrow> nat \<Rightarrow> peer \<Rightarrow> (peer_error + bool) \<times> peer" where
  "publish_first render noticed i p =
     (case enqueue_first render (clCtx (prCalls p ! i) \<noteq> None) noticed (request_frame (prCalls p ! i)) p of
        (Inl e, p) \<Rightarrow> (Inl e, call_unpublished i e p)
      | (Inr True, p) \<Rightarrow> (Inr True, call_published i p)
      | (Inr False, p) \<Rightarrow> (Inr False, p\<lparr>prPublishing := Some (i, True)\<rparr>))"

definition publish_wait :: "(profile_frame \<Rightarrow> string option) \<Rightarrow> taken \<Rightarrow> nat \<Rightarrow> peer \<Rightarrow> ((peer_error + unit) \<times> peer) option" where
  "publish_wait render t i p =
     (case enqueue_wait render (clImmediate (prCalls p ! i)) (clCtx (prCalls p ! i) \<noteq> None) t (request_frame (prCalls p ! i)) p of
        None \<Rightarrow> None
      | Some (Inl e, p) \<Rightarrow> Some (Inl e, call_unpublished i e p)
      | Some (Inr u, p) \<Rightarrow> Some (Inr u, call_published i p))"

definition cancel_frame :: "peer_call \<Rightarrow> profile_frame" where
  "cancel_frame c = empty_frame\<lparr>pfVersion := 1, pfKind := ''cancel'', pfID := clID c,
     pfTraceparent := fst (clTrace c), pfTracestate := snd (clTrace c)\<rparr>"

definition cancelRequest :: "(profile_frame \<Rightarrow> string option) \<Rightarrow> bool \<Rightarrow> nat \<Rightarrow> peer \<Rightarrow> peer" where
  "cancelRequest render noticed i p =
     (case render (cancel_frame (prCalls p ! i)) of
        None \<Rightarrow> p
      | Some d \<Rightarrow>
          if int (length d) > maxFrame (prLimits p) then p
          else if prOver p \<and> noticed then p
          else if has_room p then queued d (cancel_frame (prCalls p ! i)) p
          else p)"

text \<open>\<open>complete\<close>, which runs once for a call.\<close>

definition complete_call :: "(profile_frame \<Rightarrow> string option) \<Rightarrow> bool \<Rightarrow> bool \<Rightarrow> nat \<Rightarrow> peer \<Rightarrow> peer" where
  "complete_call render noticed withdrawn i p =
     (if clCompleted (prCalls p ! i) then p
      else let p = update_call i (\<lambda>c. c\<lparr>clCompleted := True\<rparr>) p in
        if withdrawn then cancelRequest render noticed i p else p)"

definition settle_call :: "nat \<Rightarrow> call_outcome \<Rightarrow> peer \<Rightarrow> peer" where
  "settle_call i out p = finish_call i (update_call i (\<lambda>c. c\<lparr>clOutcome := Some out\<rparr>) p)"

datatype awaited = ReplyReady bool | CallerDone | CarrierDone

text \<open>\<open>awaitReply\<close> and what \<open>await\<close> does with it; a reply's argument is whether its result decodes.\<close>

definition await_turn :: "(profile_frame \<Rightarrow> string option) \<Rightarrow> bool \<Rightarrow> awaited \<Rightarrow> nat \<Rightarrow> peer \<Rightarrow> peer option" where
  "await_turn render noticed a i p =
     (case a of
        ReplyReady decodes \<Rightarrow>
          (case clReply (prCalls p ! i) of
             None \<Rightarrow> None
           | Some (Inl e) \<Rightarrow> Some (settle_call i (Failed e) (complete_call render noticed False i p))
           | Some (Inr v) \<Rightarrow> Some (settle_call i (if decodes then Result v else Undecodable) (complete_call render noticed False i p)))
      | CallerDone \<Rightarrow>
          (case clCtx (prCalls p ! i) of
             None \<Rightarrow> None
           | Some e \<Rightarrow> Some (settle_call i (Withdrawn e) (complete_call render noticed True i p)))
      | CarrierDone \<Rightarrow>
          if prOver p then Some (settle_call i (Over (the (prErr p))) (complete_call render noticed False i p)) else None)"

definition end_call_ctx :: "ctx_end \<Rightarrow> nat \<Rightarrow> peer \<Rightarrow> peer" where
  "end_call_ctx e i p = update_call i (\<lambda>c. if clCtx c = None then c\<lparr>clCtx := Some e\<rparr> else c) p"

definition withdraw_call :: "(profile_frame \<Rightarrow> string option) \<Rightarrow> bool \<Rightarrow> nat \<Rightarrow> peer \<Rightarrow> peer" where
  "withdraw_call render noticed i p = complete_call render noticed True i (end_call_ctx Cancelled i p)"

section \<open>Events going out\<close>

definition event_frame :: "string \<Rightarrow> json \<Rightarrow> trace \<Rightarrow> (string \<times> string) list \<Rightarrow> profile_frame" where
  "event_frame name v t carried = empty_frame\<lparr>pfVersion := 1, pfKind := ''event'', pfEvent := name, pfData := Some v,
     pfTraceparent := fst t, pfTracestate := snd t, pfMeta := outgoing_meta carried\<rparr>"

definition emit_first ::
    "(profile_frame \<Rightarrow> string option) \<Rightarrow> bool \<Rightarrow> bool \<Rightarrow> string \<Rightarrow> json option \<Rightarrow> trace \<Rightarrow> (string \<times> string) list \<Rightarrow> bool \<Rightarrow> peer \<Rightarrow>
     (peer_error + bool) \<times> peer" where
  "emit_first render ended noticed name payload t carried immediate p =
     (if name = [] then (Inl BadName, p)
      else case payload of
        None \<Rightarrow> (Inl Unencodable, p)
      | Some v \<Rightarrow>
          (case enqueue_first render ended noticed (event_frame name v t carried) p of
             (Inr False, p) \<Rightarrow> (Inr False, p\<lparr>prEmitters := prEmitters p @
               [\<lparr>emFrame = event_frame name v t carried, emImmediate = immediate, emCtx = None\<rparr>]\<rparr>)
           | r \<Rightarrow> r))"

definition emit_wait :: "(profile_frame \<Rightarrow> string option) \<Rightarrow> taken \<Rightarrow> nat \<Rightarrow> peer \<Rightarrow> ((peer_error + unit) \<times> peer) option" where
  "emit_wait render t k p =
     (let e = prEmitters p ! k in
      case enqueue_wait render (emImmediate e) (emCtx e \<noteq> None) t (emFrame e) p of
        None \<Rightarrow> None
      | Some (r, p) \<Rightarrow> Some (r, p\<lparr>prEmitters := take k (prEmitters p) @ drop (Suc k) (prEmitters p)\<rparr>))"

definition end_emit_ctx :: "ctx_end \<Rightarrow> nat \<Rightarrow> peer \<Rightarrow> peer" where
  "end_emit_ctx e k p = p\<lparr>prEmitters := (prEmitters p)[k := (prEmitters p ! k)\<lparr>emCtx := Some e\<rparr>]\<rparr>"

section \<open>The writer\<close>

definition write_take :: "peer \<Rightarrow> peer" where
  "write_take p = (case prOutputs p of [] \<Rightarrow> p | m # ms \<Rightarrow> p\<lparr>prOutputs := ms, prWriting := Some m\<rparr>)"

definition write_done :: "bool \<Rightarrow> peer \<Rightarrow> peer" where
  "write_done sent p =
     (if sent then p\<lparr>prWriting := None\<rparr> else (fail_peer TransportFailed p)\<lparr>prWriting := None, prWriter := False\<rparr>)"

definition writer_stop :: "peer \<Rightarrow> peer" where
  "writer_stop p = p\<lparr>prWriter := False\<rparr>"

section \<open>The reader\<close>

definition serial_of :: "string \<Rightarrow> string \<Rightarrow> nat option" where
  "serial_of i p = parse_uint64 (if has_prefix i p then drop (length p) i else i)"

definition admit_request :: "string \<Rightarrow> string \<Rightarrow> peer \<Rightarrow> bool \<times> peer" where
  "admit_request i pre p =
     (case serial_of i pre of
        None \<Rightarrow> (False, p)
      | Some n \<Rightarrow>
          if n = 0 then (False, p)
          else if n \<le> prAdmitted p then (False, p)
          else (True, p\<lparr>prAdmitted := n\<rparr>))"

definition response_frame :: "string \<Rightarrow> trace \<Rightarrow> public_error + json \<Rightarrow> profile_frame" where
  "response_frame i t r = empty_frame\<lparr>pfVersion := 1, pfKind := ''response'', pfID := i,
     pfResult := (case r of Inl e \<Rightarrow> None | Inr v \<Rightarrow> Some v), pfError := (case r of Inl e \<Rightarrow> Some e | Inr v \<Rightarrow> None),
     pfTraceparent := fst t, pfTracestate := snd t\<rparr>"

definition response_of :: "profile_frame \<Rightarrow> public_error + json" where
  "response_of f = (case pfError f of Some e \<Rightarrow> Inl e | None \<Rightarrow> Inr (the (pfResult f)))"

definition frame_trace :: "profile_frame \<Rightarrow> trace" where
  "frame_trace f = (pfTraceparent f, pfTracestate f)"

definition public :: "string \<Rightarrow> string \<Rightarrow> public_error" where
  "public code message = \<lparr>erCode = code, erMessage = message, erData = None\<rparr>"

definition rejectRequest :: "(profile_frame \<Rightarrow> string option) \<Rightarrow> bool \<Rightarrow> string \<Rightarrow> trace \<Rightarrow> public_error \<Rightarrow> peer \<Rightarrow> peer" where
  "rejectRequest render noticed i t e p =
     (case render (response_frame i t (Inl e)) of
        None \<Rightarrow> fail_peer RejectionTooLarge p
      | Some d \<Rightarrow>
          if int (length d) > maxFrame (prLimits p) then fail_peer RejectionTooLarge p
          else if prOver p \<and> noticed then p
          else if has_room p then queued d (response_frame i t (Inl e)) p
          else if prOver p then p
          else fail_peer Backpressure p)"

text \<open>\<open>fallback\<close> is whether the attached namespace has a handler for the name.\<close>

definition startRequest :: "(profile_frame \<Rightarrow> string option) \<Rightarrow> bool \<Rightarrow> bool \<Rightarrow> profile_frame \<Rightarrow> peer \<Rightarrow> peer" where
  "startRequest render noticed fallback f p =
     (if map_of (prIncoming p) (pfID f) \<noteq> None
      then refuse_peer DuplicateActive ''duplicate active duplex request identifier'' p
      else if \<not> fallback \<and> pfMethod f \<notin> set (prHandlers p)
      then rejectRequest render noticed (pfID f) (frame_trace f) (public ''method_not_found'' ''Unknown method'') p
      else if prSlots p \<ge> maxHandlers (prLimits p)
      then rejectRequest render noticed (pfID f) (frame_trace f) (public ''busy'' ''Too many concurrent requests'') p
      else p\<lparr>prSlots := prSlots p + 1, prIncoming := prIncoming p @ [(pfID f, length (prRequests p))],
        prRequests := prRequests p @ [\<lparr>rqID = pfID f, rqMethod = pfMethod f, rqParams = the (pfParams f), rqTrace = frame_trace f,
          rqMeta = pfMeta f, rqCtx = None, rqBody = BodyRunning, rqAnswer = Unanswered\<rparr>]\<rparr>)"

definition deliver_response :: "profile_frame \<Rightarrow> peer \<Rightarrow> peer" where
  "deliver_response f p =
     (case map_of (prPending p) (pfID f) of
        None \<Rightarrow> p
      | Some i \<Rightarrow> update_call i (\<lambda>c. c\<lparr>clReply := Some (response_of f)\<rparr>) (p\<lparr>prPending := AList.delete (pfID f) (prPending p)\<rparr>))"

definition update_request :: "nat \<Rightarrow> (peer_request \<Rightarrow> peer_request) \<Rightarrow> peer \<Rightarrow> peer" where
  "update_request i g p = p\<lparr>prRequests := (prRequests p)[i := g (prRequests p ! i)]\<rparr>"

definition end_request_ctx :: "ctx_end \<Rightarrow> nat \<Rightarrow> peer \<Rightarrow> peer" where
  "end_request_ctx e i p = update_request i (\<lambda>r. if rqCtx r = None then r\<lparr>rqCtx := Some e\<rparr> else r) p"

definition deliver_cancel :: "profile_frame \<Rightarrow> peer \<Rightarrow> peer" where
  "deliver_cancel f p = (case map_of (prIncoming p) (pfID f) of None \<Rightarrow> p | Some i \<Rightarrow> end_request_ctx Cancelled i p)"

definition event_of :: "profile_frame \<Rightarrow> queued_event" where
  "event_of f = \<lparr>qeName = pfEvent f, qeData = the (pfData f), qeTrace = frame_trace f, qeMeta = pfMeta f\<rparr>"

definition event_room :: "peer \<Rightarrow> bool" where
  "event_room p \<longleftrightarrow> length (prEvents p) < queueCap (prLimits p)"

definition enqueueEvent :: "queued_event \<Rightarrow> peer \<Rightarrow> peer" where
  "enqueueEvent e p = (if event_room p then p\<lparr>prEvents := prEvents p @ [e]\<rparr> else p\<lparr>prReader := Pacing e\<rparr>)"

text \<open>The second select of \<open>enqueueEvent\<close>, and the reader's return where it fails.\<close>

definition pacing_wait :: "taken \<Rightarrow> queued_event \<Rightarrow> peer \<Rightarrow> peer option" where
  "pacing_wait t e p =
     (case t of
        Room \<Rightarrow> if event_room p then Some (p\<lparr>prEvents := prEvents p @ [e], prReader := Reading\<rparr>) else None
      | PeerDone \<Rightarrow> if prOver p then Some (p\<lparr>prReader := ReaderDone\<rparr>) else None
      | TimerFired \<Rightarrow> Some ((fail_peer Backpressure p)\<lparr>prReader := ReaderDone\<rparr>)
      | ContextDone \<Rightarrow> None)"

definition dispatch_frame :: "(profile_frame \<Rightarrow> string option) \<Rightarrow> bool \<Rightarrow> bool \<Rightarrow> profile_frame \<Rightarrow> peer \<Rightarrow> peer" where
  "dispatch_frame render noticed fallback f p =
     (if pfKind f = ''response'' then deliver_response f p
      else if pfKind f = ''cancel'' then deliver_cancel f p
      else if pfKind f = ''request'' then startRequest render noticed fallback f p
      else if pfKind f = ''event'' then enqueueEvent (event_of f) p
      else p)"

definition stop_reader :: "peer \<Rightarrow> peer" where
  "stop_reader p = p\<lparr>prReader := ReaderDone\<rparr>"

definition received :: "profile_frame \<Rightarrow> peer \<Rightarrow> peer" where
  "received f p = p\<lparr>prReceived := prReceived p @ [f]\<rparr>"

text \<open>One turn of \<open>readLoop\<close> on a frame of the connection; \<open>why\<close> is the text of a decoding error.\<close>

definition read_turn :: "(profile_frame \<Rightarrow> string option) \<Rightarrow> bool \<Rightarrow> bool \<Rightarrow> string \<Rightarrow> frame \<Rightarrow> peer \<Rightarrow> peer" where
  "read_turn render noticed fallback why m p =
     (if Kind m \<noteq> Text then stop_reader (refuse_peer NotText ''duplex requires JSON text frames'' p)
      else if int (length (Data m)) > maxFrame (prLimits p)
      then stop_reader (refuse_peer FrameTooLarge ''duplex frame exceeds size limit'' p)
      else case decodeFrame (Data m) of
        Inl e \<Rightarrow> stop_reader (refuse_peer (BadFrame e) why p)
      | Inr f \<Rightarrow>
          let pre = role_prefix (if pfKind f = ''response'' then prServer p else \<not> prServer p) in
          if pfID f \<noteq> [] \<and> \<not> validID (pfID f) pre
          then stop_reader (refuse_peer BadID ''invalid duplex request identifier'' p)
          else if pfID f \<noteq> [] \<and> pfKind f = ''request'' then
            (case admit_request (pfID f) pre p of
               (False, p) \<Rightarrow> stop_reader (refuse_peer SerialNotIncreased ''duplex request serial did not increase'' p)
             | (True, p) \<Rightarrow> dispatch_frame render noticed fallback f (received f p))
          else dispatch_frame render noticed fallback f (received f p))"

definition read_error :: "peer \<Rightarrow> peer" where
  "read_error p = stop_reader (fail_peer TransportFailed p)"

section \<open>Handlers\<close>

datatype handler_outcome = Success "json option" | PublicFailure public_error | ContextFailure | OtherFailure

text \<open>What \<open>respond\<close> answers with; a result that cannot be encoded is \<open>Success None\<close>.\<close>

definition answer_of :: "handler_outcome \<Rightarrow> public_error + json" where
  "answer_of h =
     (case h of
        Success (Some v) \<Rightarrow> Inr v
      | Success None \<Rightarrow> Inl (public ''internal'' ''Internal error'')
      | PublicFailure e \<Rightarrow> if erCode e \<noteq> [] \<and> erMessage e \<noteq> [] then Inl e else Inl (public ''internal'' ''Internal error'')
      | ContextFailure \<Rightarrow> Inl (public ''cancelled'' ''Request cancelled'')
      | OtherFailure \<Rightarrow> Inl (public ''internal'' ''Internal error''))"

definition request_ctx :: "peer \<Rightarrow> nat \<Rightarrow> ctx_end option" where
  "request_ctx p i = (case rqCtx (prRequests p ! i) of Some e \<Rightarrow> Some e | None \<Rightarrow> if prCtx p then Some Cancelled else None)"

definition respond_with :: "nat \<Rightarrow> handler_outcome \<Rightarrow> peer \<Rightarrow> peer" where
  "respond_with i h p =
     update_request i (\<lambda>r. r\<lparr>rqAnswer := Enqueueing (response_frame (rqID r) (rqTrace r) (answer_of h)) False\<rparr>) p"

text \<open>The deadline's callback.\<close>

definition answer_deadline :: "nat \<Rightarrow> peer \<Rightarrow> peer option" where
  "answer_deadline i p =
     (if request_ctx p i = Some DeadlineExceeded \<and> rqAnswer (prRequests p ! i) = Unanswered
      then Some (respond_with i ContextFailure p) else None)"

definition body_returns :: "nat \<Rightarrow> handler_outcome \<Rightarrow> peer \<Rightarrow> peer" where
  "body_returns i h p =
     (let ctx = request_ctx p i;
          h = (case h of Success v \<Rightarrow> if ctx \<noteq> None then ContextFailure else h | _ \<Rightarrow> h);
          p = update_request i (\<lambda>r. r\<lparr>rqBody := BodyReturned\<rparr>) p
      in if rqAnswer (prRequests p ! i) = Unanswered
         then respond_with i (if ctx = Some DeadlineExceeded then ContextFailure else h) p
         else p)"

definition answered :: "nat \<Rightarrow> peer \<Rightarrow> peer" where
  "answered i p = update_request i (\<lambda>r. r\<lparr>rqAnswer := Answered\<rparr>) p"

text \<open>
  What follows a refusal of the queue: once a frame that says so, unless the peer is ending.
\<close>

definition answer_refused :: "nat \<Rightarrow> bool \<Rightarrow> peer_error \<Rightarrow> peer \<Rightarrow> peer" where
  "answer_refused i again e p =
     (if again then answered i (fail_peer e p)
      else if prCtx p then answered i p
      else update_request i (\<lambda>r. r\<lparr>rqAnswer := Enqueueing
        (response_frame (rqID r) (rqTrace r) (Inl (public ''internal'' ''Response could not be encoded''))) True\<rparr>) p)"

definition answer_first :: "(profile_frame \<Rightarrow> string option) \<Rightarrow> bool \<Rightarrow> nat \<Rightarrow> profile_frame \<Rightarrow> bool \<Rightarrow> peer \<Rightarrow> peer" where
  "answer_first render noticed i f again p =
     (case enqueue_first render (prCtx p) noticed f p of
        (Inl e, p) \<Rightarrow> answer_refused i again e p
      | (Inr True, p) \<Rightarrow> answered i p
      | (Inr False, p) \<Rightarrow> update_request i (\<lambda>r. r\<lparr>rqAnswer := WaitingRoom f again\<rparr>) p)"

definition answer_wait :: "(profile_frame \<Rightarrow> string option) \<Rightarrow> taken \<Rightarrow> nat \<Rightarrow> profile_frame \<Rightarrow> bool \<Rightarrow> peer \<Rightarrow> peer option" where
  "answer_wait render t i f again p =
     (case enqueue_wait render False (prCtx p) t f p of
        None \<Rightarrow> None
      | Some (Inl e, p) \<Rightarrow> Some (answer_refused i again e p)
      | Some (Inr u, p) \<Rightarrow> Some (answered i p))"

definition request_exit :: "nat \<Rightarrow> peer \<Rightarrow> peer" where
  "request_exit i p =
     (update_request i (\<lambda>r. r\<lparr>rqBody := BodyGone\<rparr>) p)
       \<lparr>prIncoming := AList.delete (rqID (prRequests p ! i)) (prIncoming p), prSlots := prSlots p - 1\<rparr>"

section \<open>The event loop\<close>

definition event_take :: "bool \<Rightarrow> peer \<Rightarrow> peer" where
  "event_take fallback p =
     (case prEvents p of
        [] \<Rightarrow> p
      | e # es \<Rightarrow> p\<lparr>prEvents := es, prHandling := True,
          prDelivered := prDelivered p @ [(e, fallback \<or> qeName e \<in> set (prEventHandlers p), prListeners p)]\<rparr>)"

definition event_done :: "bool \<Rightarrow> peer \<Rightarrow> peer" where
  "event_done panicked p = (if panicked then fail_peer EventPanic p else p)\<lparr>prHandling := False\<rparr>"

end
