(* ===== verification/Peer_Inv.thy ===== *)
theory Peer_Inv
  imports Peer_Model Transitions "HOL-Library.Sublist"
begin

text \<open>
  What holds of one peer in every state its goroutines can reach, whatever the other side sends: its
  serials grow, its pending and incoming tables name what they should, no request is answered
  twice, and the bounds of the options hold.
\<close>

section \<open>The steps of a peer\<close>

definition trace_ok :: "trace \<Rightarrow> bool" where
  "trace_ok t \<longleftrightarrow> fst t = [] \<or> validTraceparent (fst t)"

text \<open>
  What a propagator injects is a trace a frame may carry; a carriage is a map.  The steps that need
  the connection are apart: \<open>write_done\<close> and \<open>read_turn\<close>.
\<close>

inductive peer_step :: "(profile_frame \<Rightarrow> string option) \<Rightarrow> peer \<Rightarrow> peer \<Rightarrow> bool" for render where
  step_begin: "prPublishing p = None \<Longrightarrow> trace_ok t \<Longrightarrow> distinct (map fst carried) \<Longrightarrow>
    beginCall ended m params t carried immediate p = (r, p') \<Longrightarrow> peer_step render p p'"
| step_publish: "prPublishing p = Some (i, False) \<Longrightarrow> publish_first render noticed i p = (r, p') \<Longrightarrow> peer_step render p p'"
| step_publish_wait: "prPublishing p = Some (i, True) \<Longrightarrow> publish_wait render t i p = Some (r, p') \<Longrightarrow> peer_step render p p'"
| step_await: "i < length (prCalls p) \<Longrightarrow> clPublished (prCalls p ! i) \<Longrightarrow> clOutcome (prCalls p ! i) = None \<Longrightarrow>
    await_turn render noticed a i p = Some p' \<Longrightarrow> peer_step render p p'"
| step_call_ctx: "i < length (prCalls p) \<Longrightarrow> peer_step render p (end_call_ctx e i p)"
| step_withdraw: "i < length (prCalls p) \<Longrightarrow> clPublished (prCalls p ! i) \<Longrightarrow> peer_step render p (withdraw_call render noticed i p)"
| step_emit: "trace_ok t \<Longrightarrow> distinct (map fst carried) \<Longrightarrow>
    emit_first render ended noticed name payload t carried immediate p = (r, p') \<Longrightarrow> peer_step render p p'"
| step_emit_wait: "k < length (prEmitters p) \<Longrightarrow> emit_wait render t k p = Some (r, p') \<Longrightarrow> peer_step render p p'"
| step_emit_ctx: "k < length (prEmitters p) \<Longrightarrow> peer_step render p (end_emit_ctx e k p)"
| step_write: "prWriter p \<Longrightarrow> prWriting p = None \<Longrightarrow> peer_step render p (write_take p)"
| step_writer_stop: "prOver p \<Longrightarrow> prWriting p = None \<Longrightarrow> peer_step render p (writer_stop p)"
| step_pacing: "prReader p = Pacing e \<Longrightarrow> pacing_wait t e p = Some p' \<Longrightarrow> peer_step render p p'"
| step_read_error: "prReader p = Reading \<Longrightarrow> peer_step render p (read_error p)"
| step_request_ctx: "i < length (prRequests p) \<Longrightarrow> peer_step render p (end_request_ctx e i p)"
| step_deadline: "i < length (prRequests p) \<Longrightarrow> answer_deadline i p = Some p' \<Longrightarrow> peer_step render p p'"
| step_body: "i < length (prRequests p) \<Longrightarrow> rqBody (prRequests p ! i) = BodyRunning \<Longrightarrow> peer_step render p (body_returns i h p)"
| step_answer: "i < length (prRequests p) \<Longrightarrow> rqAnswer (prRequests p ! i) = Enqueueing f again \<Longrightarrow>
    peer_step render p (answer_first render noticed i f again p)"
| step_answer_wait: "i < length (prRequests p) \<Longrightarrow> rqAnswer (prRequests p ! i) = WaitingRoom f again \<Longrightarrow>
    answer_wait render t i f again p = Some p' \<Longrightarrow> peer_step render p p'"
| step_exit: "i < length (prRequests p) \<Longrightarrow> rqBody (prRequests p ! i) = BodyReturned \<Longrightarrow> rqAnswer (prRequests p ! i) = Answered \<Longrightarrow>
    peer_step render p (request_exit i p)"
| step_event: "\<not> prHandling p \<Longrightarrow> peer_step render p (event_take fallback p)"
| step_event_done: "prHandling p \<Longrightarrow> peer_step render p (event_done panicked p)"
| step_handle: "Handle m there p = (r, p') \<Longrightarrow> peer_step render p p'"
| step_handle_event: "HandleEvent m there p = (r, p') \<Longrightarrow> peer_step render p p'"
| step_on_event: "OnEvent p = (n, p') \<Longrightarrow> peer_step render p p'"
| step_unsubscribe: "peer_step render p (unsubscribe n p)"
| step_close: "peer_step render p (Close_peer p)"
| step_ctx: "peer_step render p (p\<lparr>prCtx := True\<rparr>)"
| step_ctx_end: "prCtx p \<Longrightarrow> peer_step render p (fail_peer ContextEnded p)"
| step_finish: "prErr p \<noteq> None \<Longrightarrow> \<not> prOver p \<Longrightarrow> peer_step render p (end_finish p)"

text \<open>A peer over a connection that may bring anything.\<close>

inductive peer_move :: "(profile_frame \<Rightarrow> string option) \<Rightarrow> peer \<Rightarrow> peer \<Rightarrow> bool" for render where
  move_step: "peer_step render p p' \<Longrightarrow> peer_move render p p'"
| move_write: "prWriting p = Some m \<Longrightarrow> peer_move render p (write_done sent p)"
| move_read: "prReader p = Reading \<Longrightarrow> peer_move render p (read_turn render noticed fallback why m p)"

definition peer_start :: "peer \<Rightarrow> bool" where
  "peer_start p \<longleftrightarrow> (\<exists>role opts. newPeer role opts = Inr p)"

section \<open>Fields the helpers leave alone\<close>

lemma end_peer_simps [simp]:
  "prServer (end_peer e c p) = prServer p"
  "prLimits (end_peer e c p) = prLimits p"
  "prNext (end_peer e c p) = prNext p"
  "prAdmitted (end_peer e c p) = prAdmitted p"
  "prPublishing (end_peer e c p) = prPublishing p"
  "prOver (end_peer e c p) = prOver p"
  "prCtx (end_peer e c p) = prCtx p"
  "prConn (end_peer e c p) = prConn p"
  "prCalls (end_peer e c p) = prCalls p"
  "prPending (end_peer e c p) = prPending p"
  "prRequests (end_peer e c p) = prRequests p"
  "prIncoming (end_peer e c p) = prIncoming p"
  "prSlots (end_peer e c p) = prSlots p"
  "prHandlers (end_peer e c p) = prHandlers p"
  "prEventHandlers (end_peer e c p) = prEventHandlers p"
  "prListeners (end_peer e c p) = prListeners p"
  "prListenerID (end_peer e c p) = prListenerID p"
  "prEmitters (end_peer e c p) = prEmitters p"
  "prOutputs (end_peer e c p) = prOutputs p"
  "prWriter (end_peer e c p) = prWriter p"
  "prWriting (end_peer e c p) = prWriting p"
  "prReader (end_peer e c p) = prReader p"
  "prEvents (end_peer e c p) = prEvents p"
  "prHandling (end_peer e c p) = prHandling p"
  "prQueued (end_peer e c p) = prQueued p"
  "prReceived (end_peer e c p) = prReceived p"
  "prDelivered (end_peer e c p) = prDelivered p"
  by (simp_all add: end_peer_def)

lemma queued_simps [simp]:
  "prServer (queued d f p) = prServer p"
  "prLimits (queued d f p) = prLimits p"
  "prNext (queued d f p) = prNext p"
  "prAdmitted (queued d f p) = prAdmitted p"
  "prPublishing (queued d f p) = prPublishing p"
  "prErr (queued d f p) = prErr p"
  "prEnding (queued d f p) = prEnding p"
  "prOver (queued d f p) = prOver p"
  "prCtx (queued d f p) = prCtx p"
  "prConn (queued d f p) = prConn p"
  "prCalls (queued d f p) = prCalls p"
  "prPending (queued d f p) = prPending p"
  "prRequests (queued d f p) = prRequests p"
  "prIncoming (queued d f p) = prIncoming p"
  "prSlots (queued d f p) = prSlots p"
  "prHandlers (queued d f p) = prHandlers p"
  "prEventHandlers (queued d f p) = prEventHandlers p"
  "prListeners (queued d f p) = prListeners p"
  "prListenerID (queued d f p) = prListenerID p"
  "prEmitters (queued d f p) = prEmitters p"
  "prWriter (queued d f p) = prWriter p"
  "prWriting (queued d f p) = prWriting p"
  "prReader (queued d f p) = prReader p"
  "prEvents (queued d f p) = prEvents p"
  "prHandling (queued d f p) = prHandling p"
  "prReceived (queued d f p) = prReceived p"
  "prDelivered (queued d f p) = prDelivered p"
  by (simp_all add: queued_def)

lemma update_call_simps [simp]:
  "prServer (update_call i g p) = prServer p"
  "prLimits (update_call i g p) = prLimits p"
  "prNext (update_call i g p) = prNext p"
  "prAdmitted (update_call i g p) = prAdmitted p"
  "prPublishing (update_call i g p) = prPublishing p"
  "prErr (update_call i g p) = prErr p"
  "prEnding (update_call i g p) = prEnding p"
  "prOver (update_call i g p) = prOver p"
  "prCtx (update_call i g p) = prCtx p"
  "prConn (update_call i g p) = prConn p"
  "prPending (update_call i g p) = prPending p"
  "prRequests (update_call i g p) = prRequests p"
  "prIncoming (update_call i g p) = prIncoming p"
  "prSlots (update_call i g p) = prSlots p"
  "prHandlers (update_call i g p) = prHandlers p"
  "prEventHandlers (update_call i g p) = prEventHandlers p"
  "prListeners (update_call i g p) = prListeners p"
  "prListenerID (update_call i g p) = prListenerID p"
  "prEmitters (update_call i g p) = prEmitters p"
  "prOutputs (update_call i g p) = prOutputs p"
  "prWriter (update_call i g p) = prWriter p"
  "prWriting (update_call i g p) = prWriting p"
  "prReader (update_call i g p) = prReader p"
  "prEvents (update_call i g p) = prEvents p"
  "prHandling (update_call i g p) = prHandling p"
  "prQueued (update_call i g p) = prQueued p"
  "prReceived (update_call i g p) = prReceived p"
  "prDelivered (update_call i g p) = prDelivered p"
  by (simp_all add: update_call_def)

lemma update_request_simps [simp]:
  "prServer (update_request i h p) = prServer p"
  "prLimits (update_request i h p) = prLimits p"
  "prNext (update_request i h p) = prNext p"
  "prAdmitted (update_request i h p) = prAdmitted p"
  "prPublishing (update_request i h p) = prPublishing p"
  "prErr (update_request i h p) = prErr p"
  "prEnding (update_request i h p) = prEnding p"
  "prOver (update_request i h p) = prOver p"
  "prCtx (update_request i h p) = prCtx p"
  "prConn (update_request i h p) = prConn p"
  "prCalls (update_request i h p) = prCalls p"
  "prPending (update_request i h p) = prPending p"
  "prIncoming (update_request i h p) = prIncoming p"
  "prSlots (update_request i h p) = prSlots p"
  "prHandlers (update_request i h p) = prHandlers p"
  "prEventHandlers (update_request i h p) = prEventHandlers p"
  "prListeners (update_request i h p) = prListeners p"
  "prListenerID (update_request i h p) = prListenerID p"
  "prEmitters (update_request i h p) = prEmitters p"
  "prOutputs (update_request i h p) = prOutputs p"
  "prWriter (update_request i h p) = prWriter p"
  "prWriting (update_request i h p) = prWriting p"
  "prReader (update_request i h p) = prReader p"
  "prEvents (update_request i h p) = prEvents p"
  "prHandling (update_request i h p) = prHandling p"
  "prQueued (update_request i h p) = prQueued p"
  "prReceived (update_request i h p) = prReceived p"
  "prDelivered (update_request i h p) = prDelivered p"
  by (simp_all add: update_request_def)

lemma finish_call_simps [simp]:
  "prServer (finish_call i p) = prServer p"
  "prLimits (finish_call i p) = prLimits p"
  "prNext (finish_call i p) = prNext p"
  "prAdmitted (finish_call i p) = prAdmitted p"
  "prPublishing (finish_call i p) = prPublishing p"
  "prErr (finish_call i p) = prErr p"
  "prEnding (finish_call i p) = prEnding p"
  "prOver (finish_call i p) = prOver p"
  "prCtx (finish_call i p) = prCtx p"
  "prConn (finish_call i p) = prConn p"
  "prCalls (finish_call i p) = prCalls p"
  "prRequests (finish_call i p) = prRequests p"
  "prIncoming (finish_call i p) = prIncoming p"
  "prSlots (finish_call i p) = prSlots p"
  "prHandlers (finish_call i p) = prHandlers p"
  "prEventHandlers (finish_call i p) = prEventHandlers p"
  "prListeners (finish_call i p) = prListeners p"
  "prListenerID (finish_call i p) = prListenerID p"
  "prEmitters (finish_call i p) = prEmitters p"
  "prOutputs (finish_call i p) = prOutputs p"
  "prWriter (finish_call i p) = prWriter p"
  "prWriting (finish_call i p) = prWriting p"
  "prReader (finish_call i p) = prReader p"
  "prEvents (finish_call i p) = prEvents p"
  "prHandling (finish_call i p) = prHandling p"
  "prQueued (finish_call i p) = prQueued p"
  "prReceived (finish_call i p) = prReceived p"
  "prDelivered (finish_call i p) = prDelivered p"
  by (simp_all add: finish_call_def)

lemma received_simps [simp]:
  "prServer (received f p) = prServer p"
  "prLimits (received f p) = prLimits p"
  "prNext (received f p) = prNext p"
  "prAdmitted (received f p) = prAdmitted p"
  "prPublishing (received f p) = prPublishing p"
  "prErr (received f p) = prErr p"
  "prEnding (received f p) = prEnding p"
  "prOver (received f p) = prOver p"
  "prCtx (received f p) = prCtx p"
  "prConn (received f p) = prConn p"
  "prCalls (received f p) = prCalls p"
  "prPending (received f p) = prPending p"
  "prRequests (received f p) = prRequests p"
  "prIncoming (received f p) = prIncoming p"
  "prSlots (received f p) = prSlots p"
  "prHandlers (received f p) = prHandlers p"
  "prEventHandlers (received f p) = prEventHandlers p"
  "prListeners (received f p) = prListeners p"
  "prListenerID (received f p) = prListenerID p"
  "prEmitters (received f p) = prEmitters p"
  "prOutputs (received f p) = prOutputs p"
  "prWriter (received f p) = prWriter p"
  "prWriting (received f p) = prWriting p"
  "prReader (received f p) = prReader p"
  "prEvents (received f p) = prEvents p"
  "prHandling (received f p) = prHandling p"
  "prQueued (received f p) = prQueued p"
  "prDelivered (received f p) = prDelivered p"
  by (simp_all add: received_def)

lemma stop_reader_simps [simp]:
  "prServer (stop_reader p) = prServer p"
  "prLimits (stop_reader p) = prLimits p"
  "prNext (stop_reader p) = prNext p"
  "prAdmitted (stop_reader p) = prAdmitted p"
  "prPublishing (stop_reader p) = prPublishing p"
  "prErr (stop_reader p) = prErr p"
  "prEnding (stop_reader p) = prEnding p"
  "prOver (stop_reader p) = prOver p"
  "prCtx (stop_reader p) = prCtx p"
  "prConn (stop_reader p) = prConn p"
  "prCalls (stop_reader p) = prCalls p"
  "prPending (stop_reader p) = prPending p"
  "prRequests (stop_reader p) = prRequests p"
  "prIncoming (stop_reader p) = prIncoming p"
  "prSlots (stop_reader p) = prSlots p"
  "prHandlers (stop_reader p) = prHandlers p"
  "prEventHandlers (stop_reader p) = prEventHandlers p"
  "prListeners (stop_reader p) = prListeners p"
  "prListenerID (stop_reader p) = prListenerID p"
  "prEmitters (stop_reader p) = prEmitters p"
  "prOutputs (stop_reader p) = prOutputs p"
  "prWriter (stop_reader p) = prWriter p"
  "prWriting (stop_reader p) = prWriting p"
  "prEvents (stop_reader p) = prEvents p"
  "prHandling (stop_reader p) = prHandling p"
  "prQueued (stop_reader p) = prQueued p"
  "prReceived (stop_reader p) = prReceived p"
  "prDelivered (stop_reader p) = prDelivered p"
  by (simp_all add: stop_reader_def)

lemma fail_peer_is [simp]: "fail_peer e p = end_peer e Aborted p" "refuse_peer e why p = end_peer e (ClosedWith CodeDuplex why) p"
  by (simp_all add: fail_peer_def refuse_peer_def)

lemma end_peer_err: "prErr (end_peer e c p) = (if prErr p = None then Some e else prErr p)"
  by (simp add: end_peer_def)

lemma queue_simps [simp]: "prQueued (queued d f p) = prQueued p @ [(d, f)]" "prOutputs (queued d f p) = prOutputs p @ [(d, f)]"
  by (simp_all add: queued_def)

lemma received_reader [simp]: "prReceived (received f p) = prReceived p @ [f]" "prReader (stop_reader p) = ReaderDone"
  by (simp_all add: received_def stop_reader_def)

lemma calls_simps [simp]: "prCalls (update_call i g p) = (prCalls p)[i := g (prCalls p ! i)]"
  "prRequests (update_request i h p) = (prRequests p)[i := h (prRequests p ! i)]"
  "prPending (finish_call i p) = AList.delete (clID (prCalls p ! i)) (prPending p)"
  by (simp_all add: update_call_def update_request_def finish_call_def)

section \<open>The invariant\<close>

abbreviation of_kind :: "string \<Rightarrow> profile_frame list \<Rightarrow> profile_frame list" where
  "of_kind k fs \<equiv> filter (\<lambda>f. pfKind f = k) fs"

definition sent_frames :: "queued_frame list \<Rightarrow> profile_frame list" where
  "sent_frames ms = map snd ms"

definition frame_key :: "profile_frame \<Rightarrow> string \<times> string \<times> json" where
  "frame_key f = (pfID f, pfMethod f, the (pfParams f))"

definition call_key :: "peer_call \<Rightarrow> string \<times> string \<times> json" where
  "call_key c = (clID c, clMethod c, clParams c)"

definition request_key :: "peer_request \<Rightarrow> string \<times> string \<times> json" where
  "request_key r = (rqID r, rqMethod r, rqParams r)"

definition answers_of :: "queued_frame list \<Rightarrow> (string \<times> (public_error + json)) list" where
  "answers_of ms = map (\<lambda>f. (pfID f, response_of f)) (of_kind ''response'' (sent_frames ms))"

definition meta_ok :: "(string \<times> string) list option \<Rightarrow> bool" where
  "meta_ok m \<longleftrightarrow> (case m of None \<Rightarrow> True | Some m \<Rightarrow> m \<noteq> [] \<and> distinct (map fst m) \<and> list_all (\<lambda>(k, v). \<not> has_prefix k metaReserved) m)"

definition call_ok :: "bool \<Rightarrow> nat \<Rightarrow> peer_call \<Rightarrow> bool" where
  "call_ok server n c \<longleftrightarrow> clID c = mint server (clSerial c) \<and> 0 < clSerial c \<and> clSerial c \<le> n \<and> clMethod c \<noteq> [] \<and>
     trace_ok (clTrace c) \<and> meta_ok (clMeta c)"

definition calls_ok ::
    "bool \<Rightarrow> limits \<Rightarrow> nat \<Rightarrow> (nat \<times> bool) option \<Rightarrow> peer_call list \<Rightarrow> (string \<times> nat) list \<Rightarrow> queued_frame list \<Rightarrow> bool" where
  "calls_ok server lim n publishing calls pending ms \<longleftrightarrow>
     int n \<le> maxRequestSerial \<and> (\<forall>c \<in> set calls. call_ok server n c) \<and> sorted_wrt (<) (map clSerial calls) \<and>
     (case publishing of None \<Rightarrow> True | Some (i, w) \<Rightarrow> Suc i = length calls \<and> \<not> clPublished (calls ! i)) \<and>
     map frame_key (of_kind ''request'' (sent_frames ms)) = map call_key (filter clPublished calls) \<and>
     distinct (map fst pending) \<and> (\<forall>(x, i) \<in> set pending. i < length calls \<and> clID (calls ! i) = x) \<and>
     length pending \<le> maxPending lim"

definition fits :: "(profile_frame \<Rightarrow> string option) \<Rightarrow> limits \<Rightarrow> profile_frame \<Rightarrow> bool" where
  "fits render lim f \<longleftrightarrow> (\<exists>d. render f = Some d \<and> int (length d) \<le> maxFrame lim)"

definition message_ok :: "(profile_frame \<Rightarrow> string option) \<Rightarrow> limits \<Rightarrow> peer_call list \<Rightarrow> queued_frame \<Rightarrow> bool" where
  "message_ok render lim calls m \<longleftrightarrow> render (snd m) = Some (fst m) \<and> int (length (fst m)) \<le> maxFrame lim \<and> own_frame (snd m) \<and>
     (pfKind (snd m) = ''cancel'' \<longrightarrow> pfID (snd m) \<in> clID ` set calls)"

definition answer_frame :: "peer_request \<Rightarrow> profile_frame \<Rightarrow> bool" where
  "answer_frame r f \<longleftrightarrow> (\<exists>x. f = response_frame (rqID r) (rqTrace r) x \<and> (case x of Inl e \<Rightarrow> erCode e \<noteq> [] \<and> erMessage e \<noteq> [] | Inr v \<Rightarrow> True))"

definition answer_ok :: "(profile_frame \<Rightarrow> string option) \<Rightarrow> limits \<Rightarrow> peer_request \<Rightarrow> bool" where
  "answer_ok render lim r \<longleftrightarrow> (case rqAnswer r of
     Enqueueing f again \<Rightarrow> answer_frame r f
   | WaitingRoom f again \<Rightarrow> answer_frame r f \<and> fits render lim f
   | _ \<Rightarrow> True)"

definition frames_ok ::
    "(profile_frame \<Rightarrow> string option) \<Rightarrow> limits \<Rightarrow> (nat \<times> bool) option \<Rightarrow> peer_call list \<Rightarrow> emitter list \<Rightarrow> peer_request list \<Rightarrow>
     queued_frame list \<Rightarrow> bool" where
  "frames_ok render lim publishing calls emitters requests ms \<longleftrightarrow>
     (\<forall>m \<in> set ms. message_ok render lim calls m) \<and>
     (\<forall>e \<in> set emitters. own_frame (emFrame e) \<and> pfKind (emFrame e) = ''event'' \<and> fits render lim (emFrame e)) \<and>
     (case publishing of Some (i, True) \<Rightarrow> fits render lim (request_frame (calls ! i)) | _ \<Rightarrow> True) \<and>
     (\<forall>r \<in> set requests. answer_ok render lim r)"

definition serial :: "string \<Rightarrow> string \<Rightarrow> nat" where
  "serial pre x = the (serial_of x pre)"

definition received_ok :: "bool \<Rightarrow> nat \<Rightarrow> profile_frame list \<Rightarrow> bool" where
  "received_ok server adm fs \<longleftrightarrow>
     (\<forall>f \<in> set fs. trace_ok (frame_trace f)) \<and>
     (\<forall>f \<in> set (of_kind ''request'' fs). pfID f \<noteq> [] \<and> serial (role_prefix (\<not> server)) (pfID f) \<le> adm) \<and>
     sorted_wrt (<) (map (serial (role_prefix (\<not> server)) \<circ> pfID) (of_kind ''request'' fs)) \<and>
     (adm = 0 \<or> (\<exists>f \<in> set (of_kind ''request'' fs). serial (role_prefix (\<not> server)) (pfID f) = adm))"

definition requests_ok ::
    "limits \<Rightarrow> peer_request list \<Rightarrow> (string \<times> nat) list \<Rightarrow> nat \<Rightarrow> queued_frame list \<Rightarrow> profile_frame list \<Rightarrow> bool" where
  "requests_ok lim requests incoming slots ms fs \<longleftrightarrow>
     subseq (map request_key requests) (map frame_key (of_kind ''request'' fs)) \<and>
     (\<forall>r \<in> set requests. trace_ok (rqTrace r) \<and> (rqBody r = BodyGone \<longrightarrow> rqAnswer r = Answered)) \<and>
     set incoming = {(rqID (requests ! i), i) | i. i < length requests \<and> rqBody (requests ! i) \<noteq> BodyGone} \<and>
     distinct (map fst incoming) \<and> slots = length incoming \<and> slots \<le> maxHandlers lim \<and>
     distinct (map fst (answers_of ms)) \<and>
     (\<forall>(x, a) \<in> set (answers_of ms). x \<in> pfID ` set (of_kind ''request'' fs)) \<and>
     (\<forall>r \<in> set requests. rqID r \<in> fst ` set (answers_of ms) \<longrightarrow> rqAnswer r = Answered) \<and>
     (\<forall>(x, a) \<in> set (answers_of ms). (\<exists>v. a = Inr v) \<longrightarrow> x \<in> rqID ` set requests)"

definition replied :: "profile_frame list \<Rightarrow> string \<Rightarrow> public_error + json \<Rightarrow> bool" where
  "replied fs x a \<longleftrightarrow> (\<exists>f \<in> set fs. pfKind f = ''response'' \<and> pfID f = x \<and> response_of f = a)"

definition reply_ok :: "profile_frame list \<Rightarrow> peer_call \<Rightarrow> bool" where
  "reply_ok fs c \<longleftrightarrow>
     (\<forall>a. clReply c = Some a \<longrightarrow> replied fs (clID c) a) \<and>
     (\<forall>v. clOutcome c = Some (Result v) \<longrightarrow> replied fs (clID c) (Inr v)) \<and>
     (\<forall>e. clOutcome c = Some (Failed e) \<longrightarrow> replied fs (clID c) (Inl e))"

definition replies_ok :: "peer_call list \<Rightarrow> profile_frame list \<Rightarrow> bool" where
  "replies_ok calls fs \<longleftrightarrow> (\<forall>c \<in> set calls. reply_ok fs c)"

definition events_ok :: "limits \<Rightarrow> profile_frame list \<Rightarrow> queued_event list \<Rightarrow> queued_event list \<Rightarrow> reader_turn \<Rightarrow> bool" where
  "events_ok lim fs delivered events reader \<longleftrightarrow>
     (\<exists>lost. map event_of (of_kind ''event'' fs) = delivered @ events @ (case reader of Pacing e \<Rightarrow> [e] | _ \<Rightarrow> []) @ lost \<and>
        (reader \<noteq> ReaderDone \<longrightarrow> lost = [])) \<and> length events \<le> queueCap lim"

definition peer_ok :: "(profile_frame \<Rightarrow> string option) \<Rightarrow> peer \<Rightarrow> bool" where
  "peer_ok render p \<longleftrightarrow>
     calls_ok (prServer p) (prLimits p) (prNext p) (prPublishing p) (prCalls p) (prPending p) (prQueued p) \<and>
     frames_ok render (prLimits p) (prPublishing p) (prCalls p) (prEmitters p) (prRequests p) (prQueued p) \<and>
     received_ok (prServer p) (prAdmitted p) (prReceived p) \<and>
     requests_ok (prLimits p) (prRequests p) (prIncoming p) (prSlots p) (prQueued p) (prReceived p) \<and>
     replies_ok (prCalls p) (prReceived p) \<and>
     events_ok (prLimits p) (prReceived p) (map fst (prDelivered p)) (prEvents p) (prReader p) \<and>
     length (prOutputs p) \<le> queueCap (prLimits p) \<and> (prOver p \<longrightarrow> prErr p \<noteq> None)"

section \<open>What keeps the parts\<close>

definition call_same :: "peer_call \<Rightarrow> peer_call \<Rightarrow> bool" where
  "call_same c c' \<longleftrightarrow> clID c' = clID c \<and> clSerial c' = clSerial c \<and> clMethod c' = clMethod c \<and> clParams c' = clParams c \<and>
     clTrace c' = clTrace c \<and> clMeta c' = clMeta c \<and> clPublished c' = clPublished c"

lemma map_filter_same:
  "i < length xs \<Longrightarrow> f y = f (xs ! i) \<Longrightarrow> P y = P (xs ! i) \<Longrightarrow> map f (filter P (xs[i := y])) = map f (filter P xs)"
  by (induction xs arbitrary: i) (auto split: nat.splits)

lemma call_same_ids: "i < length calls \<Longrightarrow> call_same (calls ! i) c \<Longrightarrow> clID ` set (calls[i := c]) = clID ` set calls"
  using map_same [of i calls clID c] by (metis call_same_def set_map)

lemma calls_ok_update:
  assumes ok: "calls_ok s lim n pub calls pending ms" and i: "i < length calls" and same: "call_same (calls ! i) c"
  shows "calls_ok s lim n pub (calls[i := c]) pending ms"
proof -
  have "call_ok s n (calls ! i)" using ok i by (simp add: calls_ok_def)
  then have "call_ok s n c" using same by (simp add: call_ok_def call_same_def)
  then have "\<forall>c \<in> set (calls[i := c]). call_ok s n c" using ok i by (intro set_update_all) (simp_all add: calls_ok_def)
  moreover have "map clSerial (calls[i := c]) = map clSerial calls" "map clID (calls[i := c]) = map clID calls"
    "map call_key (filter clPublished (calls[i := c])) = map call_key (filter clPublished calls)"
    "\<And>j. clPublished (calls[i := c] ! j) = clPublished (calls ! j)" "\<And>j. clID (calls[i := c] ! j) = clID (calls ! j)"
    using i same by (auto simp: call_same_def call_key_def map_same map_filter_same nth_list_update)
  ultimately show ?thesis using ok by (simp add: calls_ok_def split: option.splits prod.splits)
qed

lemma delete_eq_filter: "AList.delete x al = filter (\<lambda>(y, v). x \<noteq> y) al"
  by (simp add: AList.delete_eq)

lemma calls_ok_delete: "calls_ok s lim n pub calls pending ms \<Longrightarrow> calls_ok s lim n pub calls (AList.delete x pending) ms"
proof -
  assume ok: "calls_ok s lim n pub calls pending ms"
  have "length (AList.delete x pending) \<le> length pending" by (rule length_delete_le)
  moreover have "set (AList.delete x pending) \<subseteq> set pending" by (simp add: delete_eq_filter)
  ultimately have "\<forall>(y, i) \<in> set (AList.delete x pending). i < length calls \<and> clID (calls ! i) = y"
    "length (AList.delete x pending) \<le> maxPending lim"
    using ok by (auto simp: calls_ok_def)
  then show ?thesis using ok by (simp add: calls_ok_def distinct_delete)
qed

lemma sent_frames_snoc [simp]: "sent_frames (ms @ [(d, f)]) = sent_frames ms @ [f]"
  by (simp add: sent_frames_def)

lemma calls_ok_queue: "calls_ok s lim n pub calls pending ms \<Longrightarrow> pfKind f \<noteq> ''request'' \<Longrightarrow> calls_ok s lim n pub calls pending (ms @ [(d, f)])"
  by (simp add: calls_ok_def)

lemma answers_snoc:
  "answers_of (ms @ [(d, f)]) = (if pfKind f = ''response'' then answers_of ms @ [(pfID f, response_of f)] else answers_of ms)"
  by (simp add: answers_of_def)

lemma requests_ok_queue:
  "requests_ok lim requests incoming slots ms fs \<Longrightarrow> pfKind f \<noteq> ''response'' \<Longrightarrow> requests_ok lim requests incoming slots (ms @ [(d, f)]) fs"
  by (simp add: requests_ok_def answers_snoc)

lemma frames_ok_queue:
  "frames_ok render lim pub calls emitters requests ms \<Longrightarrow> message_ok render lim calls m \<Longrightarrow>
     frames_ok render lim pub calls emitters requests (ms @ [m])"
  by (auto simp: frames_ok_def)

lemma message_ok_update:
  "i < length calls \<Longrightarrow> call_same (calls ! i) c \<Longrightarrow> message_ok render lim (calls[i := c]) m = message_ok render lim calls m"
  by (simp add: message_ok_def call_same_ids)

lemma request_frame_same: "call_same c c' \<Longrightarrow> request_frame c' = request_frame c"
  by (simp add: call_same_def request_frame_def)

lemma frames_ok_update:
  assumes "frames_ok render lim pub calls emitters requests ms" "i < length calls" "call_same (calls ! i) c"
  shows "frames_ok render lim pub (calls[i := c]) emitters requests ms"
proof -
  have "request_frame (calls[i := c] ! j) = request_frame (calls ! j)" for j
    using assms(2,3) request_frame_same by (metis nth_list_update_eq nth_list_update_neq)
  then show ?thesis using assms by (simp add: frames_ok_def message_ok_update split: option.splits prod.splits bool.splits)
qed

definition reply_same :: "peer_call \<Rightarrow> peer_call \<Rightarrow> bool" where
  "reply_same c c' \<longleftrightarrow> clID c' = clID c \<and> clReply c' = clReply c \<and>
     (clOutcome c' = clOutcome c \<or> (case clOutcome c' of Some (Result v) \<Rightarrow> clReply c = Some (Inr v) | Some (Failed e) \<Rightarrow> clReply c = Some (Inl e) | _ \<Rightarrow> True))"

lemma replies_ok_update:
  "replies_ok calls fs \<Longrightarrow> i < length calls \<Longrightarrow> reply_same (calls ! i) c \<Longrightarrow> replies_ok (calls[i := c]) fs"
  unfolding replies_ok_def
  by (rule set_update_all, assumption, assumption)
    (drule bspec, erule nth_mem, auto simp: reply_same_def reply_ok_def split: option.splits call_outcome.splits)

section \<open>What keeps the whole\<close>

lemma peer_ok_parts:
  assumes "peer_ok render p"
  shows "calls_ok (prServer p) (prLimits p) (prNext p) (prPublishing p) (prCalls p) (prPending p) (prQueued p)"
    and "frames_ok render (prLimits p) (prPublishing p) (prCalls p) (prEmitters p) (prRequests p) (prQueued p)"
    and "received_ok (prServer p) (prAdmitted p) (prReceived p)"
    and "requests_ok (prLimits p) (prRequests p) (prIncoming p) (prSlots p) (prQueued p) (prReceived p)"
    and "replies_ok (prCalls p) (prReceived p)"
    and "events_ok (prLimits p) (prReceived p) (map fst (prDelivered p)) (prEvents p) (prReader p)"
    and "length (prOutputs p) \<le> queueCap (prLimits p)" and "prOver p \<Longrightarrow> prErr p \<noteq> None"
  using assms by (simp_all add: peer_ok_def)

lemma peer_ok_end [simp]: "peer_ok render p \<Longrightarrow> peer_ok render (end_peer e c p)"
  by (simp add: peer_ok_def end_peer_err)

lemma peer_ok_update_call:
  "peer_ok render p \<Longrightarrow> i < length (prCalls p) \<Longrightarrow> call_same (prCalls p ! i) (g (prCalls p ! i)) \<Longrightarrow>
     reply_same (prCalls p ! i) (g (prCalls p ! i)) \<Longrightarrow> peer_ok render (update_call i g p)"
  by (simp add: peer_ok_def calls_ok_update frames_ok_update replies_ok_update)

lemma peer_ok_finish_call: "peer_ok render p \<Longrightarrow> peer_ok render (finish_call i p)"
  by (simp add: peer_ok_def calls_ok_delete)

lemma peer_ok_queue:
  "peer_ok render p \<Longrightarrow> message_ok render (prLimits p) (prCalls p) (d, f) \<Longrightarrow> has_room p \<Longrightarrow> pfKind f \<noteq> ''request'' \<Longrightarrow>
     pfKind f \<noteq> ''response'' \<Longrightarrow> peer_ok render (queued d f p)"
  by (simp add: peer_ok_def calls_ok_queue frames_ok_queue requests_ok_queue has_room_def)

lemma complete_call_length [simp]: "length (prCalls (complete_call render noticed w i p)) = length (prCalls p)"
  by (simp add: complete_call_def cancelRequest_def Let_def split: option.split)

section \<open>The frames a peer makes\<close>

lemma mint_not_Nil [simp]: "mint s n \<noteq> []"
  by (simp add: mint_def role_prefix_def)

lemma own_frame_request:
  "clID c \<noteq> [] \<Longrightarrow> clMethod c \<noteq> [] \<Longrightarrow> trace_ok (clTrace c) \<Longrightarrow> meta_ok (clMeta c) \<Longrightarrow> own_frame (request_frame c)"
  by (auto simp: own_frame_iff frame_shape_def request_frame_def empty_frame_def trace_ok_def meta_ok_def split: option.splits)

lemma own_frame_cancel: "clID c \<noteq> [] \<Longrightarrow> trace_ok (clTrace c) \<Longrightarrow> own_frame (cancel_frame c)"
  by (auto simp: own_frame_iff frame_shape_def cancel_frame_def empty_frame_def trace_ok_def)

lemma own_frame_event:
  "name \<noteq> [] \<Longrightarrow> trace_ok t \<Longrightarrow> meta_ok (outgoing_meta carried) \<Longrightarrow> own_frame (event_frame name v t carried)"
  by (auto simp: own_frame_iff frame_shape_def event_frame_def empty_frame_def trace_ok_def meta_ok_def split: option.splits)

lemma own_frame_response:
  "x \<noteq> [] \<Longrightarrow> trace_ok t \<Longrightarrow> (case r of Inl e \<Rightarrow> erCode e \<noteq> [] \<and> erMessage e \<noteq> [] | Inr v \<Rightarrow> True) \<Longrightarrow> own_frame (response_frame x t r)"
  by (cases r) (auto simp: own_frame_iff frame_shape_def response_frame_def empty_frame_def trace_ok_def frame_name_in frame_choice_def)

lemma meta_ok_outgoing: "distinct (map fst carried) \<Longrightarrow> meta_ok (outgoing_meta carried)"
  by (auto simp: meta_ok_def outgoing_meta_def Let_def distinct_map_filter list_all_iff)

lemma frame_kinds [simp]:
  "pfKind (request_frame c) = ''request''" "pfKind (cancel_frame c) = ''cancel''" "pfKind (event_frame name v t m) = ''event''"
  "pfKind (response_frame x t r) = ''response''" "pfID (cancel_frame c) = clID c" "pfID (response_frame x t r) = x"
  "response_of (response_frame x t r) = r" "frame_key (request_frame c) = call_key c"
  by (simp_all add: request_frame_def cancel_frame_def event_frame_def response_frame_def response_of_def frame_key_def call_key_def
      split: sum.split)

section \<open>Calls\<close>

lemma call_okD:
  "peer_ok render p \<Longrightarrow> i < length (prCalls p) \<Longrightarrow> call_ok (prServer p) (prNext p) (prCalls p ! i)"
  by (simp add: peer_ok_def calls_ok_def)

lemma peer_ok_cancelRequest:
  assumes ok: "peer_ok render p" and i: "i < length (prCalls p)"
  shows "peer_ok render (cancelRequest render noticed i p)"
proof (cases "render (cancel_frame (prCalls p ! i))")
  case (Some d)
  have "own_frame (cancel_frame (prCalls p ! i))"
    using call_okD [OF ok i] by (simp add: call_ok_def own_frame_cancel)
  then have "int (length d) \<le> maxFrame (prLimits p) \<Longrightarrow> message_ok render (prLimits p) (prCalls p) (d, cancel_frame (prCalls p ! i))"
    using Some i by (simp add: message_ok_def)
  then show ?thesis using ok Some by (simp add: cancelRequest_def peer_ok_queue)
qed (use ok in \<open>simp add: cancelRequest_def\<close>)

lemma peer_ok_complete:
  assumes ok: "peer_ok render p" and i: "i < length (prCalls p)"
  shows "peer_ok render (complete_call render noticed w i p)"
proof -
  have "peer_ok render (update_call i (\<lambda>c. c\<lparr>clCompleted := True\<rparr>) p)"
    using ok i by (intro peer_ok_update_call) (simp_all add: call_same_def reply_same_def)
  then show ?thesis using ok i by (simp add: complete_call_def Let_def peer_ok_cancelRequest)
qed

lemma complete_call_reply: "clReply (prCalls (complete_call render noticed w i p) ! j) = clReply (prCalls p ! j)"
proof -
  have "clReply ((prCalls p)[i := (prCalls p ! i)\<lparr>clCompleted := True\<rparr>] ! j) = clReply (prCalls p ! j)"
    by (cases "i = j"; cases "i < length (prCalls p)") (simp_all add: list_update_beyond)
  then show ?thesis by (simp add: complete_call_def cancelRequest_def Let_def split: option.split)
qed

lemma peer_ok_settle:
  "peer_ok render p \<Longrightarrow> i < length (prCalls p) \<Longrightarrow>
     (case out of Result v \<Rightarrow> clReply (prCalls p ! i) = Some (Inr v) | Failed e \<Rightarrow> clReply (prCalls p ! i) = Some (Inl e) | _ \<Rightarrow> True) \<Longrightarrow>
     peer_ok render (settle_call i out p)"
  unfolding settle_call_def
  by (intro peer_ok_finish_call peer_ok_update_call) (auto simp: call_same_def reply_same_def split: call_outcome.splits)

lemma peer_ok_await:
  assumes "peer_ok render p" "i < length (prCalls p)" "await_turn render noticed a i p = Some p'"
  shows "peer_ok render p'"
  using assms(3) assms(1,2)
  by (auto simp: await_turn_def complete_call_reply peer_ok_complete split: awaited.splits option.splits sum.splits if_splits
      intro!: peer_ok_settle)

lemma peer_ok_call_ctx: "peer_ok render p \<Longrightarrow> i < length (prCalls p) \<Longrightarrow> peer_ok render (end_call_ctx e i p)"
  unfolding end_call_ctx_def by (intro peer_ok_update_call) (auto simp: call_same_def reply_same_def)

lemma peer_ok_withdraw: "peer_ok render p \<Longrightarrow> i < length (prCalls p) \<Longrightarrow> peer_ok render (withdraw_call render noticed i p)"
  unfolding withdraw_call_def by (intro peer_ok_complete peer_ok_call_ctx) (simp_all add: end_call_ctx_def)

lemma calls_ok_next:
  "calls_ok s lim n pub calls pending ms \<Longrightarrow> int n \<noteq> maxRequestSerial \<Longrightarrow> calls_ok s lim (Suc n) pub calls pending ms"
  by (auto simp: calls_ok_def call_ok_def)

lemma nat_decimal_mint: "mint s m = mint s n \<Longrightarrow> m = n"
  by (auto simp: mint_def dest: nat_decimal_inj)

lemma calls_ok_begin:
  assumes ok: "calls_ok s lim n None calls pending ms" and n: "int n \<noteq> maxRequestSerial"
    and c: "call_ok s (Suc n) c" "clSerial c = Suc n" "\<not> clPublished c" and room: "length pending < maxPending lim"
  shows "calls_ok s lim (Suc n) (Some (length calls, False)) (calls @ [c]) (pending @ [(clID c, length calls)]) ms"
proof -
  have old: "\<forall>c \<in> set calls. call_ok s n c" using ok by (simp add: calls_ok_def)
  then have "\<forall>c' \<in> set calls. clSerial c' < clSerial c" using c(2) by (auto simp: call_ok_def)
  moreover have "clID c \<notin> fst ` set pending"
  proof
    assume "clID c \<in> fst ` set pending"
    then obtain i where "i < length calls" "clID (calls ! i) = clID c" using ok by (auto simp: calls_ok_def)
    moreover from this(1) have "call_ok s n (calls ! i)" using old by simp
    ultimately have "mint s (Suc n) = mint s (clSerial (calls ! i))" "clSerial (calls ! i) \<le> n" using c by (simp_all add: call_ok_def)
    then show False using nat_decimal_mint by fastforce
  qed
  moreover have "\<forall>c \<in> set calls. call_ok s (Suc n) c" using old by (auto simp: call_ok_def)
  moreover have "\<forall>(x, i) \<in> set pending. i < length (calls @ [c]) \<and> clID ((calls @ [c]) ! i) = x"
    using ok by (auto simp: calls_ok_def nth_append)
  ultimately show ?thesis
    using ok n c room by (simp add: calls_ok_def sorted_wrt_append)
qed

lemma frames_ok_begin:
  "frames_ok render lim None calls emitters requests ms \<Longrightarrow> frames_ok render lim (Some (length calls, False)) (calls @ [c]) emitters requests ms"
  by (auto simp: frames_ok_def message_ok_def)

lemma replies_ok_begin: "replies_ok calls fs \<Longrightarrow> clReply c = None \<Longrightarrow> clOutcome c = None \<Longrightarrow> replies_ok (calls @ [c]) fs"
  by (auto simp: replies_ok_def reply_ok_def)

lemma peer_ok_begin:
  assumes ok: "peer_ok render p" and gate: "prPublishing p = None" and t: "trace_ok t" "distinct (map fst carried)"
    and begin_: "beginCall ended m params t carried immediate p = (r, p')"
  shows "peer_ok render p'"
proof (cases "m = [] \<or> ended \<or> params = None")
  case True
  then show ?thesis using begin_ ok by (auto simp: beginCall_def split: if_splits option.splits)
next
  case False
  then obtain v where v: "params = Some v" by auto
  show ?thesis
  proof (cases "int (prNext p) = maxRequestSerial")
    case True
    then show ?thesis using begin_ ok False v by (auto simp: beginCall_def)
  next
    case n: False
    let ?c = "\<lparr>clID = mint (prServer p) (Suc (prNext p)), clSerial = Suc (prNext p), clMethod = m, clParams = v, clTrace = t,
      clMeta = outgoing_meta carried, clImmediate = immediate, clCtx = None, clPublished = False, clReply = None,
      clCompleted = False, clOutcome = None\<rparr>"
    have next_: "peer_ok render (p\<lparr>prNext := Suc (prNext p)\<rparr>)" using ok n by (simp add: peer_ok_def calls_ok_next)
    show ?thesis
    proof (cases "prErr p = None \<and> length (prPending p) < maxPending (prLimits p)")
      case True
      have "call_ok (prServer p) (Suc (prNext p)) ?c" using t False by (simp add: call_ok_def meta_ok_outgoing)
      from calls_ok_begin [OF _ n this] have
        "calls_ok (prServer p) (prLimits p) (Suc (prNext p)) (Some (length (prCalls p), False)) (prCalls p @ [?c])
           (prPending p @ [(clID ?c, length (prCalls p))]) (prQueued p)"
        using ok gate True by (simp add: peer_ok_def)
      then show ?thesis
        using begin_ ok False v n True gate
        by (auto simp: beginCall_def Let_def peer_ok_def frames_ok_begin replies_ok_begin split: option.splits)
    next
      case False
      then show ?thesis
        using begin_ next_ \<open>\<not> (m = [] \<or> ended \<or> params = None)\<close> v n by (auto simp: beginCall_def Let_def split: option.splits if_splits)
    qed
  qed
qed

section \<open>The gate\<close>

lemma calls_ok_gate:
  "calls_ok s lim n (Some (i, w)) calls pending ms \<Longrightarrow> calls_ok s lim n None calls pending ms"
  "calls_ok s lim n (Some (i, w)) calls pending ms \<Longrightarrow> calls_ok s lim n (Some (i, w')) calls pending ms"
  by (simp_all add: calls_ok_def)

lemma frames_ok_gate:
  "frames_ok render lim pub calls emitters requests ms \<Longrightarrow> frames_ok render lim None calls emitters requests ms"
  "frames_ok render lim pub calls emitters requests ms \<Longrightarrow> fits render lim (request_frame (calls ! i)) \<Longrightarrow>
     frames_ok render lim (Some (i, w)) calls emitters requests ms"
  by (simp_all add: frames_ok_def split: bool.split)

lemma gate_length: "peer_ok render p \<Longrightarrow> prPublishing p = Some (i, w) \<Longrightarrow> i < length (prCalls p)"
  by (auto simp: peer_ok_def calls_ok_def)

lemma calls_ok_publish:
  assumes ok: "calls_ok s lim n (Some (i, w)) calls pending ms"
  shows "calls_ok s lim n None (calls[i := (calls ! i)\<lparr>clPublished := True\<rparr>]) pending (ms @ [(d, request_frame (calls ! i))])"
proof -
  obtain c cs where calls: "calls = cs @ [c]" "i = length cs" "\<not> clPublished c"
    using ok by (cases calls rule: rev_cases) (auto simp: calls_ok_def)
  have "call_ok s n c" using ok calls by (simp add: calls_ok_def)
  then have "call_ok s n (c\<lparr>clPublished := True\<rparr>)" by (simp add: call_ok_def)
  moreover have "clID ((cs @ [c\<lparr>clPublished := True\<rparr>]) ! j) = clID ((cs @ [c]) ! j)" for j
    by (cases "j < length cs"; cases "j = length cs") (simp_all add: nth_append)
  moreover have "call_key (c\<lparr>clPublished := True\<rparr>) = call_key c" by (simp add: call_key_def)
  ultimately show ?thesis using ok calls by (simp add: calls_ok_def)
qed

lemma peer_ok_unpublished:
  assumes ok: "peer_ok render p" and gate: "prPublishing p = Some (i, w)"
  shows "peer_ok render (call_unpublished i e p)"
proof -
  have "peer_ok render (p\<lparr>prPublishing := None\<rparr>)"
    using ok calls_ok_gate(1) [OF peer_ok_parts(1) [OF ok, unfolded gate]] frames_ok_gate(1) [OF peer_ok_parts(2) [OF ok]]
    by (simp add: peer_ok_def)
  then show ?thesis
    using gate_length [OF ok gate] unfolding call_unpublished_def
    by (intro peer_ok_update_call peer_ok_finish_call) (simp_all add: call_same_def reply_same_def)
qed

lemma peer_ok_published:
  assumes ok: "peer_ok render p" and gate: "prPublishing p = Some (i, w)"
    and d: "render (request_frame (prCalls p ! i)) = Some d" "int (length d) \<le> maxFrame (prLimits p)" and room: "has_room p"
  shows "peer_ok render (call_published i (queued d (request_frame (prCalls p ! i)) p))"
proof -
  let ?c = "(prCalls p ! i)\<lparr>clPublished := True\<rparr>" and ?f = "request_frame (prCalls p ! i)"
  have i: "i < length (prCalls p)" using gate_length [OF ok gate] .
  have c: "call_ok (prServer p) (prNext p) (prCalls p ! i)" using call_okD [OF ok i] .
  then have f: "own_frame ?f" by (intro own_frame_request) (simp_all add: call_ok_def)
  have "message_ok render (prLimits p) (prCalls p) (d, ?f)" using d f by (simp add: message_ok_def)
  moreover have ids: "clID ` set ((prCalls p)[i := ?c]) = clID ` set (prCalls p)"
    using i map_same [of i "prCalls p" clID ?c] by (metis list.set_map peer_call.select_convs(1) peer_call.surjective peer_call.update_convs(9))
  moreover have "frames_ok render (prLimits p) None (prCalls p) (prEmitters p) (prRequests p) (prQueued p)"
    by (rule frames_ok_gate(1) [OF peer_ok_parts(2) [OF ok]])
  ultimately have "frames_ok render (prLimits p) None ((prCalls p)[i := ?c]) (prEmitters p) (prRequests p) (prQueued p @ [(d, ?f)])"
    by (auto simp: frames_ok_def message_ok_def)
  moreover have "replies_ok ((prCalls p)[i := ?c]) (prReceived p)"
    using ok i by (intro replies_ok_update) (simp_all add: peer_ok_def reply_same_def)
  moreover have "calls_ok (prServer p) (prLimits p) (prNext p) None ((prCalls p)[i := ?c]) (prPending p) (prQueued p @ [(d, ?f)])"
    by (rule calls_ok_publish [OF peer_ok_parts(1) [OF ok, unfolded gate]])
  ultimately show ?thesis
    using ok room by (simp add: peer_ok_def call_published_def requests_ok_queue has_room_def)
qed

lemma enqueue_first_cases:
  assumes "enqueue_first render ended noticed f p = (r, p')"
  obtains (refused) e where "r = Inl e" "p' = p"
  | (room) d where "r = Inr True" "render f = Some d" "int (length d) \<le> maxFrame (prLimits p)" "has_room p" "p' = queued d f p"
  | (wait) "r = Inr False" "fits render (prLimits p) f" "p' = p"
proof (cases "ended \<or> render f = None")
  case True
  then have "isl r \<and> p' = p" using assms by (cases ended) (auto simp: enqueue_first_def)
  then show thesis using refused [of "projl r"] by simp
next
  case False
  then obtain d where d: "\<not> ended" "render f = Some d" by auto
  consider "maxFrame (prLimits p) < int (length d)" | "\<not> maxFrame (prLimits p) < int (length d)" "prOver p \<and> noticed"
    | "\<not> maxFrame (prLimits p) < int (length d)" "\<not> (prOver p \<and> noticed)" "has_room p"
    | "\<not> maxFrame (prLimits p) < int (length d)" "\<not> (prOver p \<and> noticed)" "\<not> has_room p" by blast
  then show thesis
  proof cases
    case 3
    then have "r = Inr True \<and> p' = queued d f p" using assms d by (auto simp: enqueue_first_def split: if_splits)
    then show thesis using d 3 room [of d] by simp
  next
    case 4
    then have "r = Inr False \<and> p' = p" using assms d by (auto simp: enqueue_first_def split: if_splits)
    moreover have "fits render (prLimits p) f" using d 4 by (simp add: fits_def)
    ultimately show thesis using wait by simp
  next
    case 1
    then have "isl r \<and> p' = p" using assms d by (auto simp: enqueue_first_def)
    then show thesis using refused [of "projl r"] by simp
  next
    case 2
    then have "isl r \<and> p' = p" using assms d by (auto simp: enqueue_first_def)
    then show thesis using refused [of "projl r"] by simp
  qed
qed

lemma enqueue_wait_cases:
  assumes "enqueue_wait render immediate ended t f p = Some (r, p')" "fits render (prLimits p) f"
  obtains (refused) e where "r = Inl e" "p' = p \<or> p' = end_peer Backpressure Aborted p"
  | (room) d where "r = Inr ()" "render f = Some d" "int (length d) \<le> maxFrame (prLimits p)" "has_room p" "p' = queued d f p"
proof (cases "t = Room")
  case True
  then have "has_room p" "r = Inr ()" "p' = queued (the (render f)) f p" using assms(1) by (simp_all add: enqueue_wait_def split: if_splits)
  then show thesis using assms(2) room by (auto simp: fits_def)
next
  case False
  then have "isl r \<and> (p' = p \<or> p' = end_peer Backpressure Aborted p)"
    using assms(1) by (cases t) (auto simp: enqueue_wait_def split: if_splits)
  then show thesis using refused [of "projl r"] by simp
qed

lemma peer_ok_publish_first:
  assumes ok: "peer_ok render p" and gate: "prPublishing p = Some (i, w)" and run: "publish_first render noticed i p = (r, p')"
  shows "peer_ok render p'"
proof -
  obtain q s where e: "enqueue_first render (clCtx (prCalls p ! i) \<noteq> None) noticed (request_frame (prCalls p ! i)) p = (s, q)" by force
  then show ?thesis
  proof (cases rule: enqueue_first_cases)
    case (refused x)
    then show ?thesis using run e peer_ok_unpublished [OF ok gate] by (auto simp: publish_first_def)
  next
    case (room d)
    then show ?thesis using run e peer_ok_published [OF ok gate] by (auto simp: publish_first_def)
  next
    case wait
    then have "peer_ok render (p\<lparr>prPublishing := Some (i, True)\<rparr>)"
      using ok calls_ok_gate(2) [OF peer_ok_parts(1) [OF ok, unfolded gate]] frames_ok_gate(2) [OF peer_ok_parts(2) [OF ok]]
      by (simp add: peer_ok_def)
    then show ?thesis using run e wait by (auto simp: publish_first_def)
  qed
qed

lemma peer_ok_publish_wait:
  assumes ok: "peer_ok render p" and gate: "prPublishing p = Some (i, True)" and run: "publish_wait render t i p = Some (r, p')"
  shows "peer_ok render p'"
proof -
  have fit: "fits render (prLimits p) (request_frame (prCalls p ! i))" using ok gate by (simp add: peer_ok_def frames_ok_def)
  obtain s q where e: "enqueue_wait render (clImmediate (prCalls p ! i)) (clCtx (prCalls p ! i) \<noteq> None) t (request_frame (prCalls p ! i)) p = Some (s, q)"
    using run by (auto simp: publish_wait_def split: option.splits)
  then show ?thesis using fit
  proof (cases rule: enqueue_wait_cases)
    case (refused x)
    then have "peer_ok render q" "prPublishing q = Some (i, True)" using ok gate by auto
    then show ?thesis using run e refused(1) peer_ok_unpublished by (auto simp: publish_wait_def)
  next
    case (room d)
    then show ?thesis using run e peer_ok_published [OF ok gate] by (auto simp: publish_wait_def)
  qed
qed

section \<open>Events going out\<close>

lemma peer_ok_emitters:
  "peer_ok render p \<Longrightarrow> \<forall>e \<in> set es. own_frame (emFrame e) \<and> pfKind (emFrame e) = ''event'' \<and> fits render (prLimits p) (emFrame e) \<Longrightarrow>
     peer_ok render (p\<lparr>prEmitters := es\<rparr>)"
  by (simp add: peer_ok_def frames_ok_def)

lemma emitters_okD:
  "peer_ok render p \<Longrightarrow> \<forall>e \<in> set (prEmitters p). own_frame (emFrame e) \<and> pfKind (emFrame e) = ''event'' \<and> fits render (prLimits p) (emFrame e)"
  by (simp add: peer_ok_def frames_ok_def)

lemma peer_ok_emit:
  assumes ok: "peer_ok render p" and t: "trace_ok t" "distinct (map fst carried)"
    and run: "emit_first render ended noticed name payload t carried immediate p = (r, p')"
  shows "peer_ok render p'"
proof (cases "name = [] \<or> payload = None")
  case True
  then show ?thesis using run ok by (auto simp: emit_first_def split: if_splits)
next
  case False
  then obtain v where v: "payload = Some v" by auto
  let ?f = "event_frame name v t carried"
  have f: "own_frame ?f" using False t by (simp add: own_frame_event meta_ok_outgoing)
  obtain s q where e: "enqueue_first render ended noticed ?f p = (s, q)" by force
  then show ?thesis
  proof (cases rule: enqueue_first_cases)
    case (room d)
    then show ?thesis using run e False v ok f by (auto simp: emit_first_def message_ok_def intro!: peer_ok_queue)
  next
    case wait
    have "peer_ok render (p\<lparr>prEmitters := prEmitters p @ [\<lparr>emFrame = ?f, emImmediate = immediate, emCtx = None\<rparr>]\<rparr>)"
      using emitters_okD [OF ok] wait f by (intro peer_ok_emitters [OF ok]) auto
    then show ?thesis using run e False v wait by (auto simp: emit_first_def)
  qed (use run e False v ok in \<open>auto simp: emit_first_def\<close>)
qed

lemma peer_ok_emit_wait:
  assumes ok: "peer_ok render p" and k: "k < length (prEmitters p)" and run: "emit_wait render t k p = Some (r, p')"
  shows "peer_ok render p'"
proof -
  let ?e = "prEmitters p ! k"
  let ?es = "take k (prEmitters p) @ drop (Suc k) (prEmitters p)"
  have e: "own_frame (emFrame ?e)" "pfKind (emFrame ?e) = ''event''" "fits render (prLimits p) (emFrame ?e)"
    using emitters_okD [OF ok] k by simp_all
  have es: "\<forall>e \<in> set ?es. own_frame (emFrame e) \<and> pfKind (emFrame e) = ''event'' \<and> fits render (prLimits p) (emFrame e)"
    using emitters_okD [OF ok] by (auto dest: in_set_takeD in_set_dropD)
  obtain s q where w: "enqueue_wait render (emImmediate ?e) (emCtx ?e \<noteq> None) t (emFrame ?e) p = Some (s, q)"
    and p': "p' = q\<lparr>prEmitters := take k (prEmitters q) @ drop (Suc k) (prEmitters q)\<rparr>"
    using run by (auto simp: emit_wait_def Let_def split: option.splits)
  have "peer_ok render q \<and> prEmitters q = prEmitters p \<and> prLimits q = prLimits p"
    using w e(3)
  proof (cases rule: enqueue_wait_cases)
    case (room d)
    then show ?thesis using ok e by (auto simp: message_ok_def intro!: peer_ok_queue)
  qed (use ok in auto)
  then show ?thesis using peer_ok_emitters [of render q] es p' by simp
qed

end
