(* ===== verification/Peer_Requests.thy ===== *)
theory Peer_Requests
  imports Peer_Inv
begin

text \<open>
  The invariant of \<open>Peer_Inv\<close> is kept by the operations on requests, by the reader, by the event
  loop and by the end: so it holds in every state of a peer.
\<close>

section \<open>Requests\<close>

definition request_same :: "peer_request \<Rightarrow> peer_request \<Rightarrow> bool" where
  "request_same r r' \<longleftrightarrow> request_key r' = request_key r \<and> rqTrace r' = rqTrace r \<and> (rqBody r' = BodyGone \<longleftrightarrow> rqBody r = BodyGone)"

lemma request_same_id: "request_same r r' \<Longrightarrow> rqID r' = rqID r"
  by (simp add: request_same_def request_key_def)

lemma requests_ok_parts:
  assumes "requests_ok lim requests incoming slots ms fs"
  shows "subseq (map request_key requests) (map frame_key (of_kind ''request'' fs))"
    and "\<forall>r \<in> set requests. trace_ok (rqTrace r) \<and> (rqBody r = BodyGone \<longrightarrow> rqAnswer r = Answered)"
    and "set incoming = {(rqID (requests ! i), i) | i. i < length requests \<and> rqBody (requests ! i) \<noteq> BodyGone}"
    and "distinct (map fst incoming)" and "slots = length incoming" and "slots \<le> maxHandlers lim"
    and "distinct (map fst (answers_of ms))"
    and "\<forall>(x, a) \<in> set (answers_of ms). x \<in> pfID ` set (of_kind ''request'' fs)"
    and "\<forall>r \<in> set requests. rqID r \<in> fst ` set (answers_of ms) \<longrightarrow> rqAnswer r = Answered"
    and "\<forall>(x, a) \<in> set (answers_of ms). (\<exists>v. a = Inr v) \<longrightarrow> x \<in> rqID ` set requests"
  using assms unfolding requests_ok_def by blast+

lemma requests_ok_update:
  assumes ok: "requests_ok lim requests incoming slots ms fs" and i: "i < length requests"
    and same: "request_same (requests ! i) r"
    and answer: "rqAnswer r = Answered \<or> rqBody r \<noteq> BodyGone \<and> rqID r \<notin> fst ` set (answers_of ms)"
  shows "requests_ok lim (requests[i := r]) incoming slots ms fs"
proof -
  have at: "rqID (requests[i := r] ! j) = rqID (requests ! j)" "(rqBody (requests[i := r] ! j) = BodyGone) = (rqBody (requests ! j) = BodyGone)" for j
    using same i by (cases "j = i"; simp add: request_same_def request_key_def)+
  have keys: "map request_key (requests[i := r]) = map request_key requests" "map rqID (requests[i := r]) = map rqID requests"
    using same i by (auto intro!: map_same simp: request_same_def request_key_def)
  have "\<forall>r \<in> set (requests[i := r]). trace_ok (rqTrace r) \<and> (rqBody r = BodyGone \<longrightarrow> rqAnswer r = Answered)"
    using requests_ok_parts(2) [OF ok] same i answer by (intro set_update_all) (auto simp: request_same_def)
  moreover have "\<forall>r \<in> set (requests[i := r]). rqID r \<in> fst ` set (answers_of ms) \<longrightarrow> rqAnswer r = Answered"
    using requests_ok_parts(9) [OF ok] answer i by (intro set_update_all) auto
  moreover have "rqID ` set (requests[i := r]) = rqID ` set requests" using keys(2) by (metis set_map)
  ultimately show ?thesis using ok at keys(1) by (simp add: requests_ok_def)
qed

lemma frames_ok_request:
  "frames_ok render lim pub calls emitters requests ms \<Longrightarrow> answer_ok render lim r \<Longrightarrow> i < length requests \<Longrightarrow>
     frames_ok render lim pub calls emitters (requests[i := r]) ms"
  unfolding frames_ok_def using set_update_all [of i requests "answer_ok render lim" r] by blast

lemma peer_ok_request:
  "peer_ok render p \<Longrightarrow> i < length (prRequests p) \<Longrightarrow> request_same (prRequests p ! i) (h (prRequests p ! i)) \<Longrightarrow>
     rqAnswer (h (prRequests p ! i)) = Answered \<or>
       rqBody (h (prRequests p ! i)) \<noteq> BodyGone \<and> rqID (prRequests p ! i) \<notin> fst ` set (answers_of (prQueued p)) \<Longrightarrow>
     answer_ok render (prLimits p) (h (prRequests p ! i)) \<Longrightarrow> peer_ok render (update_request i h p)"
  by (simp add: peer_ok_def requests_ok_update frames_ok_request request_same_id)

lemma unanswered_id:
  assumes "peer_ok render p" "i < length (prRequests p)" "rqAnswer (prRequests p ! i) \<noteq> Answered"
  shows "rqBody (prRequests p ! i) \<noteq> BodyGone \<and> rqID (prRequests p ! i) \<notin> fst ` set (answers_of (prQueued p))"
  using requests_ok_parts(2,9) [OF peer_ok_parts(4) [OF assms(1)]] assms(2,3) by (meson nth_mem)

lemma request_answer_ok:
  "peer_ok render p \<Longrightarrow> i < length (prRequests p) \<Longrightarrow> answer_ok render (prLimits p) (prRequests p ! i)"
  by (simp add: peer_ok_def frames_ok_def)

lemma peer_ok_request_ctx: "peer_ok render p \<Longrightarrow> i < length (prRequests p) \<Longrightarrow> peer_ok render (end_request_ctx e i p)"
proof -
  assume ok: "peer_ok render p" and i: "i < length (prRequests p)"
  have answer: "rqAnswer (prRequests p ! i) = Answered \<or>
      rqBody (prRequests p ! i) \<noteq> BodyGone \<and> rqID (prRequests p ! i) \<notin> fst ` set (answers_of (prQueued p))"
    using unanswered_id [OF ok i] by blast
  show ?thesis
    unfolding end_request_ctx_def using ok i answer request_answer_ok [OF ok i]
    by (intro peer_ok_request) (auto simp: request_same_def request_key_def answer_ok_def answer_frame_def split: answer_turn.splits)
qed

lemma answer_of_good: "case answer_of h of Inl e \<Rightarrow> erCode e \<noteq> [] \<and> erMessage e \<noteq> [] | Inr v \<Rightarrow> True"
  by (auto simp: answer_of_def public_def split: handler_outcome.splits option.splits)

lemma peer_ok_respond:
  assumes ok: "peer_ok render p" and i: "i < length (prRequests p)" and fresh: "rqAnswer (prRequests p ! i) \<noteq> Answered"
    and x: "case x of Inl e \<Rightarrow> erCode e \<noteq> [] \<and> erMessage e \<noteq> [] | Inr v \<Rightarrow> True"
  shows "peer_ok render (update_request i (\<lambda>r. r\<lparr>rqAnswer := Enqueueing (response_frame (rqID r) (rqTrace r) x) again\<rparr>) p)"
  using unanswered_id [OF ok i fresh] ok i x
  by (intro peer_ok_request) (auto simp: request_same_def request_key_def answer_ok_def answer_frame_def)

lemma peer_ok_deadline:
  "peer_ok render p \<Longrightarrow> i < length (prRequests p) \<Longrightarrow> answer_deadline i p = Some p' \<Longrightarrow> peer_ok render p'"
  using peer_ok_respond [OF _ _ _ answer_of_good] by (auto simp: answer_deadline_def respond_with_def split: if_splits)

lemma peer_ok_body:
  assumes ok: "peer_ok render p" and i: "i < length (prRequests p)" and run: "rqBody (prRequests p ! i) = BodyRunning"
  shows "peer_ok render (body_returns i h p)"
proof -
  let ?p = "update_request i (\<lambda>r. r\<lparr>rqBody := BodyReturned\<rparr>) p"
  have answer: "rqAnswer (prRequests p ! i) = Answered \<or> rqID (prRequests p ! i) \<notin> fst ` set (answers_of (prQueued p))"
    using unanswered_id [OF ok i] by blast
  have step: "peer_ok render ?p"
    using ok i run answer request_answer_ok [OF ok i]
    by (intro peer_ok_request) (auto simp: request_same_def request_key_def answer_ok_def answer_frame_def split: answer_turn.splits)
  show ?thesis
    using step peer_ok_respond [OF step _ _ answer_of_good] i by (simp add: body_returns_def Let_def respond_with_def)
qed

text \<open>A response enters the queue.\<close>

lemma received_ids_distinct:
  assumes "received_ok s adm fs"
  shows "distinct (map pfID (of_kind ''request'' fs))"
proof -
  have "sorted_wrt (<) (map (serial (role_prefix (\<not> s)) \<circ> pfID) (of_kind ''request'' fs))"
    using assms by (simp add: received_ok_def)
  then have "distinct (map (serial (role_prefix (\<not> s)) \<circ> pfID) (of_kind ''request'' fs))"
    using strict_sorted_iff by blast
  then have "distinct (map (serial (role_prefix (\<not> s))) (map pfID (of_kind ''request'' fs)))" by simp
  then show ?thesis by (rule distinct_map [THEN iffD1, THEN conjunct1])
qed

lemma request_ids_subseq:
  "requests_ok lim requests incoming slots ms fs \<Longrightarrow> subseq (map rqID requests) (map pfID (of_kind ''request'' fs))"
  using subseq_map [OF requests_ok_parts(1), of lim requests incoming slots ms fs fst]
  by (simp add: comp_def request_key_def frame_key_def)

lemma request_ids_distinct:
  "peer_ok render p \<Longrightarrow> distinct (map rqID (prRequests p))"
  using subseq_distinct_kept [OF request_ids_subseq [OF peer_ok_parts(4)] received_ids_distinct [OF peer_ok_parts(3)]] .

lemma request_id_received:
  assumes ok: "peer_ok render p" and i: "i < length (prRequests p)"
  shows "rqID (prRequests p ! i) \<in> pfID ` set (of_kind ''request'' (prReceived p))" "rqID (prRequests p ! i) \<noteq> []"
proof -
  show *: "rqID (prRequests p ! i) \<in> pfID ` set (of_kind ''request'' (prReceived p))"
  proof -
    have "rqID (prRequests p ! i) \<in> set (map rqID (prRequests p))" using i by simp
    then have "rqID (prRequests p ! i) \<in> set (map pfID (of_kind ''request'' (prReceived p)))"
      using subseq_set [OF request_ids_subseq [OF peer_ok_parts(4) [OF ok]]] by (rule rev_subsetD)
    then show ?thesis by (simp only: set_map)
  qed
  obtain f where "f \<in> set (of_kind ''request'' (prReceived p))" "rqID (prRequests p ! i) = pfID f" using * by (rule imageE)
  moreover have "\<forall>f \<in> set (of_kind ''request'' (prReceived p)). pfID f \<noteq> []"
    using peer_ok_parts(3) [OF ok] unfolding received_ok_def by blast
  ultimately show "rqID (prRequests p ! i) \<noteq> []" by simp
qed

lemma answer_own_frame:
  assumes ok: "peer_ok render p" and i: "i < length (prRequests p)" and f: "answer_frame (prRequests p ! i) f"
  shows "own_frame f"
proof -
  have "trace_ok (rqTrace (prRequests p ! i))" using requests_ok_parts(2) [OF peer_ok_parts(4) [OF ok]] i by simp
  then show ?thesis using f request_id_received(2) [OF ok i] by (auto simp: answer_frame_def intro!: own_frame_response)
qed

lemma requests_ok_answer:
  assumes ok: "requests_ok lim requests incoming slots ms fs" and i: "i < length requests"
    and r: "request_key r = request_key (requests ! i)" "rqTrace r = rqTrace (requests ! i)" "rqBody r = rqBody (requests ! i)" "rqAnswer r = Answered"
    and fresh: "rqID r \<notin> fst ` set (answers_of ms)" and known: "rqID r \<in> pfID ` set (of_kind ''request'' fs)"
    and f: "pfKind f = ''response''" "pfID f = rqID r" and ids: "distinct (map rqID requests)"
  shows "requests_ok lim (requests[i := r]) incoming slots (ms @ [(d, f)]) fs"
proof -
  have same: "rqID r = rqID (requests ! i)" using r by (simp add: request_key_def)
  have ok': "requests_ok lim (requests[i := r]) incoming slots ms fs"
    using r i by (intro requests_ok_update [OF ok]) (simp_all add: request_same_def)
  have "distinct (map rqID (requests[i := r]))" using ids map_same [OF i, of rqID r] same by simp
  then have only: "x = r" if "x \<in> set (requests[i := r])" "rqID x = rqID r" for x
    using that i by (metis distinct_map inj_onD set_update_memI)
  have answers: "answers_of (ms @ [(d, f)]) = answers_of ms @ [(rqID r, response_of f)]" using f by (simp add: answers_snoc)
  have kept: "rqID r \<in> rqID ` set (requests[i := r])" using i by (simp add: set_update_memI)
  note parts = requests_ok_parts [OF ok']
  have "\<forall>x \<in> set (requests[i := r]). rqID x \<in> fst ` set (answers_of (ms @ [(d, f)])) \<longrightarrow> rqAnswer x = Answered"
    using parts(9) only r(4) unfolding answers by auto
  moreover have "\<forall>(x, a) \<in> set (answers_of (ms @ [(d, f)])). (\<exists>v. a = Inr v) \<longrightarrow> x \<in> rqID ` set (requests[i := r])"
    using parts(10) kept unfolding answers by auto
  moreover have "\<forall>(x, a) \<in> set (answers_of (ms @ [(d, f)])). x \<in> pfID ` set (of_kind ''request'' fs)"
    using parts(8) known unfolding answers by auto
  moreover have "distinct (map fst (answers_of (ms @ [(d, f)])))" using parts(7) fresh unfolding answers by simp
  ultimately show ?thesis unfolding requests_ok_def using parts(1-6) by simp
qed

lemma peer_ok_answer_queued:
  assumes ok: "peer_ok render p" and i: "i < length (prRequests p)" and fresh: "rqAnswer (prRequests p ! i) \<noteq> Answered"
    and f: "answer_frame (prRequests p ! i) f" and d: "render f = Some d" "int (length d) \<le> maxFrame (prLimits p)" and room: "has_room p"
  shows "peer_ok render (answered i (queued d f p))"
proof -
  let ?r = "(prRequests p ! i)\<lparr>rqAnswer := Answered\<rparr>"
  have kind: "pfKind f = ''response''" "pfID f = rqID (prRequests p ! i)" using f by (auto simp: answer_frame_def)
  have "message_ok render (prLimits p) (prCalls p) (d, f)" using d kind answer_own_frame [OF ok i f] by (simp add: message_ok_def)
  then have "frames_ok render (prLimits p) (prPublishing p) (prCalls p) (prEmitters p) ((prRequests p)[i := ?r]) (prQueued p @ [(d, f)])"
    using frames_ok_queue frames_ok_request [OF peer_ok_parts(2) [OF ok] _ i, of ?r] by (simp add: answer_ok_def)
  moreover have "requests_ok (prLimits p) ((prRequests p)[i := ?r]) (prIncoming p) (prSlots p) (prQueued p @ [(d, f)]) (prReceived p)"
    using unanswered_id [OF ok i fresh] request_id_received(1) [OF ok i] request_ids_distinct [OF ok] kind
    by (intro requests_ok_answer [OF peer_ok_parts(4) [OF ok] i]) (simp_all add: request_key_def)
  ultimately show ?thesis
    using ok room kind calls_ok_queue [OF peer_ok_parts(1) [OF ok], of f d] by (simp add: peer_ok_def answered_def has_room_def)
qed

lemma peer_ok_answered: "peer_ok render p \<Longrightarrow> i < length (prRequests p) \<Longrightarrow> peer_ok render (answered i p)"
  unfolding answered_def by (intro peer_ok_request) (simp_all add: request_same_def request_key_def answer_ok_def)

lemma peer_ok_turn:
  "peer_ok render p \<Longrightarrow> i < length (prRequests p) \<Longrightarrow> rqAnswer (prRequests p ! i) \<noteq> Answered \<Longrightarrow>
     answer_ok render (prLimits p) ((prRequests p ! i)\<lparr>rqAnswer := t\<rparr>) \<Longrightarrow>
     peer_ok render (update_request i (\<lambda>r. r\<lparr>rqAnswer := t\<rparr>) p)"
  using unanswered_id by (intro peer_ok_request) (simp_all add: request_same_def request_key_def)

lemma public_good: "c \<noteq> [] \<Longrightarrow> m \<noteq> [] \<Longrightarrow> erCode (public c m) \<noteq> [] \<and> erMessage (public c m) \<noteq> []"
  by (simp add: public_def)

lemma peer_ok_refused:
  "peer_ok render p \<Longrightarrow> i < length (prRequests p) \<Longrightarrow> rqAnswer (prRequests p ! i) \<noteq> Answered \<Longrightarrow> peer_ok render (answer_refused i again e p)"
  unfolding answer_refused_def
  using peer_ok_respond [of render p i "Inl (public ''internal'' ''Response could not be encoded'')" True]
  by (simp add: peer_ok_answered public_good)

lemma answer_frame_of:
  "peer_ok render p \<Longrightarrow> i < length (prRequests p) \<Longrightarrow> rqAnswer (prRequests p ! i) = Enqueueing f again \<Longrightarrow> answer_frame (prRequests p ! i) f"
  "peer_ok render p \<Longrightarrow> i < length (prRequests p) \<Longrightarrow> rqAnswer (prRequests p ! i) = WaitingRoom f again \<Longrightarrow>
     answer_frame (prRequests p ! i) f \<and> fits render (prLimits p) f"
  using request_answer_ok [of render p i] by (simp_all add: answer_ok_def)

lemma peer_ok_answer:
  assumes ok: "peer_ok render p" and i: "i < length (prRequests p)" and turn: "rqAnswer (prRequests p ! i) = Enqueueing f again"
  shows "peer_ok render (answer_first render noticed i f again p)"
proof -
  have fresh: "rqAnswer (prRequests p ! i) \<noteq> Answered" using turn by simp
  note f = answer_frame_of(1) [OF ok i turn]
  obtain s q where e: "enqueue_first render (prCtx p) noticed f p = (s, q)" by force
  then show ?thesis
  proof (cases rule: enqueue_first_cases)
    case (refused x)
    then show ?thesis using e peer_ok_refused [OF ok i fresh] by (simp add: answer_first_def)
  next
    case (room d)
    then show ?thesis using e peer_ok_answer_queued [OF ok i fresh f] by (simp add: answer_first_def)
  next
    case wait
    then show ?thesis using e f peer_ok_turn [OF ok i fresh] by (simp add: answer_first_def answer_ok_def answer_frame_def)
  qed
qed

lemma peer_ok_answer_wait:
  assumes ok: "peer_ok render p" and i: "i < length (prRequests p)" and turn: "rqAnswer (prRequests p ! i) = WaitingRoom f again"
    and run: "answer_wait render t i f again p = Some p'"
  shows "peer_ok render p'"
proof -
  have fresh: "rqAnswer (prRequests p ! i) \<noteq> Answered" using turn by simp
  note f = answer_frame_of(2) [OF ok i turn]
  obtain s q where e: "enqueue_wait render False (prCtx p) t f p = Some (s, q)"
    using run by (auto simp: answer_wait_def split: option.splits)
  then show ?thesis using conjunct2 [OF f]
  proof (cases rule: enqueue_wait_cases)
    case (refused x)
    then have "peer_ok render q" "prRequests q = prRequests p" using ok by auto
    then have "peer_ok render (answer_refused i again x q)" using i fresh by (intro peer_ok_refused) simp_all
    then show ?thesis using run e refused(1) by (simp add: answer_wait_def)
  next
    case (room d)
    then show ?thesis using run e peer_ok_answer_queued [OF ok i fresh conjunct1 [OF f]] by (simp add: answer_wait_def)
  qed
qed

section \<open>A request's goroutine leaves\<close>

definition active :: "peer_request list \<Rightarrow> (string \<times> nat) set" where
  "active requests = {(rqID (requests ! i), i) | i. i < length requests \<and> rqBody (requests ! i) \<noteq> BodyGone}"

lemma delete_absent: "x \<notin> fst ` set al \<Longrightarrow> AList.delete x al = al"
  by (induction al) auto

lemma length_delete_one: "distinct (map fst al) \<Longrightarrow> x \<in> fst ` set al \<Longrightarrow> length al = Suc (length (AList.delete x al))"
  by (induction al) (auto simp: delete_absent)

lemma active_gone:
  assumes ids: "distinct (map rqID requests)" and i: "i < length requests" and r: "rqID r = rqID (requests ! i)" "rqBody r = BodyGone"
  shows "active (requests[i := r]) = {a \<in> active requests. fst a \<noteq> rqID (requests ! i)}"
proof -
  have other: "rqID (requests ! j) = rqID (requests ! i) \<longleftrightarrow> j = i" if "j < length requests" for j
    using ids that i nth_eq_iff_index_eq [of "map rqID requests" j i] by simp
  show ?thesis
    unfolding active_def using i r other by (auto simp: nth_list_update) (metis nth_list_update_neq)
qed

lemma requests_ok_exit:
  assumes ok: "requests_ok lim requests incoming slots ms fs" and ids: "distinct (map rqID requests)" and i: "i < length requests"
    and body: "rqBody (requests ! i) \<noteq> BodyGone" "rqAnswer (requests ! i) = Answered"
  shows "requests_ok lim (requests[i := (requests ! i)\<lparr>rqBody := BodyGone\<rparr>]) (AList.delete (rqID (requests ! i)) incoming) (slots - 1) ms fs"
proof -
  let ?r = "(requests ! i)\<lparr>rqBody := BodyGone\<rparr>" and ?x = "rqID (requests ! i)"
  note parts = requests_ok_parts [OF ok]
  have in_set: "set incoming = active requests" using parts(3) by (simp add: active_def)
  then have at: "(?x, i) \<in> set incoming" using i body by (auto simp: active_def)
  have new: "set (AList.delete ?x incoming) = active (requests[i := ?r])"
    using active_gone [OF ids i, of ?r] in_set by (auto simp: delete_eq_filter)
  have count: "length incoming = Suc (length (AList.delete ?x incoming))"
    using at parts(4) by (intro length_delete_one) force+
  have "map request_key (requests[i := ?r]) = map request_key requests" "map rqID (requests[i := ?r]) = map rqID requests"
    using i by (auto intro!: map_same simp: request_key_def)
  moreover from this(2) have "rqID ` set (requests[i := ?r]) = rqID ` set requests" by (metis set_map)
  moreover have "\<forall>r \<in> set (requests[i := ?r]). trace_ok (rqTrace r) \<and> (rqBody r = BodyGone \<longrightarrow> rqAnswer r = Answered)"
    using parts(2) i body by (intro set_update_all) auto
  moreover have "\<forall>r \<in> set (requests[i := ?r]). rqID r \<in> fst ` set (answers_of ms) \<longrightarrow> rqAnswer r = Answered"
    using parts(9) i body by (intro set_update_all) auto
  ultimately show ?thesis
    unfolding requests_ok_def using parts new count distinct_delete [OF parts(4)] by (simp add: active_def)
qed

lemma peer_ok_exit:
  assumes ok: "peer_ok render p" and i: "i < length (prRequests p)"
    and body: "rqBody (prRequests p ! i) = BodyReturned" "rqAnswer (prRequests p ! i) = Answered"
  shows "peer_ok render (request_exit i p)"
proof -
  have "requests_ok (prLimits p) ((prRequests p)[i := (prRequests p ! i)\<lparr>rqBody := BodyGone\<rparr>])
      (AList.delete (rqID (prRequests p ! i)) (prIncoming p)) (prSlots p - 1) (prQueued p) (prReceived p)"
    using body by (intro requests_ok_exit [OF peer_ok_parts(4) [OF ok] request_ids_distinct [OF ok] i]) simp_all
  moreover have "answer_ok render (prLimits p) ((prRequests p ! i)\<lparr>rqBody := BodyGone\<rparr>)" using body by (simp add: answer_ok_def)
  ultimately show ?thesis
    using ok frames_ok_request [OF peer_ok_parts(2) [OF ok] _ i] by (simp add: peer_ok_def request_exit_def)
qed

section \<open>What a frame brings\<close>

lemma decoded_frame:
  assumes "decodeFrame d = Inr f"
  shows "trace_ok (frame_trace f)" and "\<exists>names. frame_shape f names" and "pfError f \<noteq> None \<Longrightarrow> erCode (the (pfError f)) \<noteq> [] \<and> erMessage (the (pfError f)) \<noteq> []"
proof -
  note f = only_profile_frames_are_read [OF assms, unfolded frame_ok_iff]
  show "trace_ok (frame_trace f)" using f validTraceparent_iff [of "pfTraceparent f"] unfolding trace_ok_def frame_trace_def fst_conv by blast
  show "\<exists>names. frame_shape f names" using f by blast
  show "pfError f \<noteq> None \<Longrightarrow> erCode (the (pfError f)) \<noteq> [] \<and> erMessage (the (pfError f)) \<noteq> []" using f by (cases "pfError f") simp_all
qed

lemma received_ok_other:
  "received_ok s adm fs \<Longrightarrow> trace_ok (frame_trace f) \<Longrightarrow> pfKind f \<noteq> ''request'' \<Longrightarrow> received_ok s adm (fs @ [f])"
  by (simp add: received_ok_def)

lemma received_ok_request:
  assumes ok: "received_ok s adm fs" and t: "trace_ok (frame_trace f)" and f: "pfKind f = ''request''" "pfID f \<noteq> []"
    and n: "serial (role_prefix (\<not> s)) (pfID f) = n" "adm < n"
  shows "received_ok s n (fs @ [f])"
proof -
  have old: "\<forall>g \<in> set (of_kind ''request'' fs). pfID g \<noteq> [] \<and> serial (role_prefix (\<not> s)) (pfID g) \<le> adm"
    using ok unfolding received_ok_def by blast
  then have "\<forall>g \<in> set (of_kind ''request'' fs). pfID g \<noteq> [] \<and> serial (role_prefix (\<not> s)) (pfID g) < n" using n(2) by fastforce
  moreover have "sorted_wrt (<) (map (serial (role_prefix (\<not> s)) \<circ> pfID) (of_kind ''request'' fs))"
    and "\<forall>g \<in> set fs. trace_ok (frame_trace g)"
    using ok unfolding received_ok_def by blast+
  ultimately show ?thesis using t f n(1) by (auto simp: received_ok_def sorted_wrt_append less_imp_le)
qed

lemma fresh_serial_id:
  assumes ok: "received_ok s adm fs" and n: "adm < serial (role_prefix (\<not> s)) x"
  shows "x \<notin> pfID ` set (of_kind ''request'' fs)"
proof
  assume "x \<in> pfID ` set (of_kind ''request'' fs)"
  then obtain g where "g \<in> set (of_kind ''request'' fs)" "x = pfID g" by (rule imageE)
  moreover have "\<forall>g \<in> set (of_kind ''request'' fs). serial (role_prefix (\<not> s)) (pfID g) \<le> adm"
    using ok unfolding received_ok_def by blast
  ultimately show False using n by fastforce
qed

lemma of_kind_snoc: "of_kind k (fs @ [f]) = of_kind k fs @ (if pfKind f = k then [f] else [])"
  by simp

lemma requests_ok_received:
  assumes "requests_ok lim requests incoming slots ms fs"
  shows "requests_ok lim requests incoming slots ms (fs @ [f])"
proof -
  note parts = requests_ok_parts [OF assms]
  have "subseq (map request_key requests) (map frame_key (of_kind ''request'' (fs @ [f])))"
    unfolding of_kind_snoc map_append using parts(1) by (rule list_emb_prefix)
  moreover have "\<forall>(x, a) \<in> set (answers_of ms). x \<in> pfID ` set (of_kind ''request'' (fs @ [f]))"
    using parts(8) unfolding of_kind_snoc set_append by blast
  ultimately show ?thesis unfolding requests_ok_def using parts by simp
qed

lemma replies_ok_received: "replies_ok calls fs \<Longrightarrow> replies_ok calls (fs @ [f])"
  by (auto simp: replies_ok_def reply_ok_def replied_def)

lemma fresh_request:
  assumes ok: "requests_ok lim requests incoming slots ms fs" and fresh: "x \<notin> pfID ` set (of_kind ''request'' fs)"
  shows "\<forall>q \<in> set requests. rqID q \<noteq> x"
proof -
  have "set (map rqID requests) \<subseteq> set (map pfID (of_kind ''request'' fs))" using subseq_set [OF request_ids_subseq [OF ok]] .
  moreover have "x \<notin> set (map pfID (of_kind ''request'' fs))" using fresh by (simp only: set_map not_False_eq_True)
  ultimately have "x \<notin> set (map rqID requests)" by (rule contra_subsetD)
  then show ?thesis by auto
qed

lemma active_snoc: "rqBody r \<noteq> BodyGone \<Longrightarrow> active (requests @ [r]) = insert (rqID r, length requests) (active requests)"
  (is "?B \<Longrightarrow> ?L = ?R")
proof -
  assume body: ?B
  have "(x, i) \<in> ?L \<longleftrightarrow> (x, i) \<in> ?R" for x i
    unfolding active_def using body by (cases "i = length requests") (auto simp: nth_append)
  then show ?thesis by auto
qed

lemma requests_ok_new:
  assumes ok: "requests_ok lim requests incoming slots ms fs" and f: "pfKind f = ''request''"
    and fresh: "pfID f \<notin> pfID ` set (of_kind ''request'' fs)" and t: "trace_ok (frame_trace f)" and room: "slots < maxHandlers lim"
    and r: "request_key r = frame_key f" "rqTrace r = frame_trace f" "rqBody r = BodyRunning"
  shows "requests_ok lim (requests @ [r]) (incoming @ [(pfID f, length requests)]) (slots + 1) ms (fs @ [f])"
proof -
  note parts = requests_ok_parts [OF ok]
  have x: "rqID r = pfID f" using r(1) by (simp add: request_key_def frame_key_def)
  have unanswered: "pfID f \<notin> fst ` set (answers_of ms)" using parts(8) fresh by fastforce
  have new_id: "\<forall>q \<in> set requests. rqID q \<noteq> pfID f" using fresh_request [OF ok fresh] .
  then have absent: "pfID f \<notin> fst ` set incoming" using parts(3) by auto
  have "subseq (map request_key (requests @ [r])) (map frame_key (of_kind ''request'' (fs @ [f])))"
    unfolding of_kind_snoc map_append using f r(1) by (intro list_emb_append_mono parts(1)) simp
  moreover have "set (incoming @ [(pfID f, length requests)]) = active (requests @ [r])"
    using parts(3) r(3) x by (simp add: active_snoc active_def [symmetric])
  moreover have "\<forall>(x, a) \<in> set (answers_of ms). x \<in> pfID ` set (of_kind ''request'' (fs @ [f]))"
    using requests_ok_parts(8) [OF requests_ok_received [OF ok]] .
  moreover have "\<forall>(x, a) \<in> set (answers_of ms). (\<exists>v. a = Inr v) \<longrightarrow> x \<in> rqID ` set (requests @ [r])"
    using parts(10) by auto
  ultimately show ?thesis
    unfolding requests_ok_def using parts(2,4,5,6,7,9) absent unanswered t r room x by (simp add: active_def)
qed

lemma requests_ok_reject:
  assumes ok: "requests_ok lim requests incoming slots ms fs" and f: "pfKind f = ''request''"
    and fresh: "pfID f \<notin> pfID ` set (of_kind ''request'' fs)"
  shows "requests_ok lim requests incoming slots (ms @ [(d, response_frame (pfID f) t (Inl e))]) (fs @ [f])"
proof -
  note parts = requests_ok_parts [OF requests_ok_received [OF ok, of f]]
  have answers: "answers_of (ms @ [(d, response_frame (pfID f) t (Inl e))]) = answers_of ms @ [(pfID f, Inl e)]" by (simp add: answers_snoc)
  have unanswered: "pfID f \<notin> fst ` set (answers_of ms)" using requests_ok_parts(8) [OF ok] fresh by fastforce
  have new_id: "\<forall>q \<in> set requests. rqID q \<noteq> pfID f" using fresh_request [OF ok fresh] .
  then have "\<forall>r \<in> set requests. rqID r \<in> fst ` set (answers_of ms @ [(pfID f, Inl e)]) \<longrightarrow> rqAnswer r = Answered"
    using parts(9) by simp
  moreover have "\<forall>(x, a) \<in> set (answers_of ms @ [(pfID f, Inl e)]). x \<in> pfID ` set (of_kind ''request'' (fs @ [f]))"
    using parts(8) f by (auto simp: of_kind_snoc)
  moreover have "distinct (map fst (answers_of ms @ [(pfID f, Inl e)]))" using parts(7) unanswered by simp
  moreover have "\<forall>(x, a) \<in> set (answers_of ms @ [(pfID f, Inl e)]). (\<exists>v. a = Inr v) \<longrightarrow> x \<in> rqID ` set requests"
    using parts(10) by auto
  ultimately show ?thesis unfolding requests_ok_def answers using parts(1-6) by simp
qed

lemma events_ok_other:
  "events_ok lim fs delivered events reader \<Longrightarrow> pfKind f \<noteq> ''event'' \<Longrightarrow> events_ok lim (fs @ [f]) delivered events reader"
  by (simp add: events_ok_def)

lemma events_ok_stop: "events_ok lim fs delivered events reader \<Longrightarrow> events_ok lim fs delivered events ReaderDone"
  unfolding events_ok_def by auto

lemma events_ok_queue:
  "events_ok lim fs delivered events Reading \<Longrightarrow> pfKind f = ''event'' \<Longrightarrow> length events < queueCap lim \<Longrightarrow>
     events_ok lim (fs @ [f]) delivered (events @ [event_of f]) Reading"
  "events_ok lim fs delivered events Reading \<Longrightarrow> pfKind f = ''event'' \<Longrightarrow>
     events_ok lim (fs @ [f]) delivered events (Pacing (event_of f))"
  "events_ok lim fs delivered events (Pacing e) \<Longrightarrow> length events < queueCap lim \<Longrightarrow> events_ok lim fs delivered (events @ [e]) Reading"
  by (auto simp: events_ok_def)

lemma events_ok_take: "events_ok lim fs delivered (e # es) reader \<Longrightarrow> events_ok lim fs (delivered @ [e]) es reader"
  by (auto simp: events_ok_def)

section \<open>The reader\<close>

lemma peer_ok_stop: "peer_ok render p \<Longrightarrow> peer_ok render (stop_reader p)"
  using events_ok_stop by (fastforce simp: peer_ok_def)

text \<open>A frame that is not a request is logged.\<close>

lemma peer_ok_received:
  "peer_ok render p \<Longrightarrow> trace_ok (frame_trace f) \<Longrightarrow> pfKind f \<noteq> ''request'' \<Longrightarrow> pfKind f \<noteq> ''event'' \<Longrightarrow> peer_ok render (received f p)"
  by (simp add: peer_ok_def received_ok_other requests_ok_received replies_ok_received events_ok_other)

lemma peer_ok_response:
  assumes ok: "peer_ok render p" and f: "trace_ok (frame_trace f)" "pfKind f = ''response''"
  shows "peer_ok render (deliver_response f (received f p))"
proof (cases "map_of (prPending p) (pfID f)")
  case (Some i)
  have at: "i < length (prCalls p)" "clID (prCalls p ! i) = pfID f"
    using map_of_SomeD [OF Some] ok by (auto simp: peer_ok_def calls_ok_def)
  let ?c = "(prCalls p ! i)\<lparr>clReply := Some (response_of f)\<rparr>"
  have rec: "peer_ok render (received f p)" using peer_ok_received ok f by simp
  have "reply_ok (prReceived p @ [f]) (prCalls p ! i)"
    using peer_ok_parts(5) [OF rec] at(1) by (simp add: replies_ok_def)
  then have "reply_ok (prReceived p @ [f]) ?c" using at(2) f(2) by (auto simp: reply_ok_def replied_def)
  then have "replies_ok ((prCalls p)[i := ?c]) (prReceived p @ [f])"
    using peer_ok_parts(5) [OF rec] at(1) unfolding replies_ok_def by (intro set_update_all) simp_all
  moreover have "call_same (prCalls p ! i) ?c" by (simp add: call_same_def)
  ultimately show ?thesis
    using rec Some at by (simp add: deliver_response_def peer_ok_def calls_ok_delete calls_ok_update frames_ok_update)
qed (use peer_ok_received ok f in \<open>simp add: deliver_response_def\<close>)

lemma peer_ok_cancel:
  assumes ok: "peer_ok render p" and f: "trace_ok (frame_trace f)" "pfKind f = ''cancel''"
  shows "peer_ok render (deliver_cancel f (received f p))"
proof -
  have rec: "peer_ok render (received f p)" using peer_ok_received ok f by simp
  have "i < length (prRequests p)" if "map_of (prIncoming p) (pfID f) = Some i" for i
    using map_of_SomeD [OF that] requests_ok_parts(3) [OF peer_ok_parts(4) [OF ok]] by auto
  then show ?thesis using rec peer_ok_request_ctx [OF rec] by (simp add: deliver_cancel_def split: option.split)
qed

lemma peer_ok_event:
  assumes ok: "peer_ok render p" and f: "trace_ok (frame_trace f)" "pfKind f = ''event''" and reader: "prReader p = Reading"
  shows "peer_ok render (enqueueEvent (event_of f) (received f p))"
  using ok f reader
  by (simp add: enqueueEvent_def peer_ok_def received_ok_other requests_ok_received replies_ok_received events_ok_queue event_room_def)

text \<open>A request whose serial is above all earlier ones.\<close>

definition admitted_next :: "profile_frame \<Rightarrow> peer \<Rightarrow> bool" where
  "admitted_next f p \<longleftrightarrow> pfKind f = ''request'' \<and> pfID f \<noteq> [] \<and> trace_ok (frame_trace f) \<and>
     prAdmitted p < serial (role_prefix (\<not> prServer p)) (pfID f)"

definition admitted :: "profile_frame \<Rightarrow> peer \<Rightarrow> peer" where
  "admitted f p = received f (p\<lparr>prAdmitted := serial (role_prefix (\<not> prServer p)) (pfID f)\<rparr>)"

lemma peer_ok_admitted:
  "peer_ok render p \<Longrightarrow> admitted_next f p \<Longrightarrow> peer_ok render (admitted f p)"
  using received_ok_request [of "prServer p" "prAdmitted p" "prReceived p" f "serial (role_prefix (\<not> prServer p)) (pfID f)"]
  by (simp add: peer_ok_def admitted_next_def admitted_def requests_ok_received replies_ok_received events_ok_other)

lemma admitted_fresh:
  "peer_ok render p \<Longrightarrow> admitted_next f p \<Longrightarrow> pfID f \<notin> pfID ` set (of_kind ''request'' (prReceived p))"
  by (simp only: admitted_next_def fresh_serial_id [OF peer_ok_parts(3)] not_False_eq_True)

lemma peer_ok_reject:
  assumes ok: "peer_ok render p" and f: "admitted_next f p" and e: "erCode e \<noteq> []" "erMessage e \<noteq> []"
  shows "peer_ok render (rejectRequest render noticed (pfID f) (frame_trace f) e (admitted f p))"
proof (cases "render (response_frame (pfID f) (frame_trace f) (Inl e))")
  case (Some d)
  let ?g = "response_frame (pfID f) (frame_trace f) (Inl e)"
  note adm = peer_ok_admitted [OF ok f]
  have f': "pfKind f = ''request''" "pfID f \<noteq> []" "trace_ok (frame_trace f)" using f by (simp_all add: admitted_next_def)
  then have g: "own_frame ?g" using e by (intro own_frame_response) simp_all
  have *: "peer_ok render (queued d ?g (admitted f p))" if "has_room p" "int (length d) \<le> maxFrame (prLimits p)"
  proof -
    have "message_ok render (prLimits p) (prCalls p) (d, ?g)" using that(2) Some g by (simp add: message_ok_def)
    moreover have "requests_ok (prLimits p) (prRequests p) (prIncoming p) (prSlots p) (prQueued p @ [(d, ?g)]) (prReceived p @ [f])"
      by (rule requests_ok_reject [OF peer_ok_parts(4) [OF ok] f'(1) admitted_fresh [OF ok f]])
    ultimately show ?thesis
      using adm that by (simp add: peer_ok_def admitted_def calls_ok_queue frames_ok_queue has_room_def)
  qed
  have room: "has_room (admitted f p) = has_room p" "maxFrame (prLimits (admitted f p)) = maxFrame (prLimits p)"
    by (simp_all add: has_room_def admitted_def received_def)
  then show ?thesis using adm Some * by (simp add: rejectRequest_def)
qed (use peer_ok_admitted [OF ok f] in \<open>simp add: rejectRequest_def\<close>)

text \<open>An id that is in use never comes again, whatever the other side sends.\<close>

lemma admitted_inactive:
  assumes ok: "peer_ok render p" and f: "admitted_next f p"
  shows "map_of (prIncoming p) (pfID f) = None"
proof -
  have "\<forall>q \<in> set (prRequests p). rqID q \<noteq> pfID f" using fresh_request [OF peer_ok_parts(4) [OF ok] admitted_fresh [OF ok f]] .
  then have "pfID f \<notin> fst ` set (prIncoming p)" using requests_ok_parts(3) [OF peer_ok_parts(4) [OF ok]] by auto
  then show ?thesis by (simp add: map_of_eq_None_iff)
qed

lemma peer_ok_start_request:
  assumes ok: "peer_ok render p" and f: "admitted_next f p"
  shows "peer_ok render (startRequest render noticed fallback f (admitted f p))"
proof -
  let ?r = "\<lparr>rqID = pfID f, rqMethod = pfMethod f, rqParams = the (pfParams f), rqTrace = frame_trace f,
          rqMeta = pfMeta f, rqCtx = None, rqBody = BodyRunning, rqAnswer = Unanswered\<rparr>"
  note adm = peer_ok_admitted [OF ok f]
  have f': "pfKind f = ''request''" "trace_ok (frame_trace f)" using f by (simp_all add: admitted_next_def)
  have simps: "prIncoming (admitted f p) = prIncoming p" "prSlots (admitted f p) = prSlots p" "prLimits (admitted f p) = prLimits p"
    "prRequests (admitted f p) = prRequests p" "prHandlers (admitted f p) = prHandlers p" by (simp_all add: admitted_def)
  have new: "requests_ok (prLimits p) (prRequests p @ [?r]) (prIncoming p @ [(pfID f, length (prRequests p))]) (prSlots p + 1)
      (prQueued p) (prReceived p @ [f])" if "prSlots p < maxHandlers (prLimits p)"
    using f' that by (intro requests_ok_new [OF peer_ok_parts(4) [OF ok] _ admitted_fresh [OF ok f]])
      (simp_all add: request_key_def frame_key_def)
  have frames: "frames_ok render (prLimits p) (prPublishing p) (prCalls p) (prEmitters p) (prRequests p @ [?r]) (prQueued p)"
    using peer_ok_parts(2) [OF ok] by (auto simp: frames_ok_def answer_ok_def)
  have started: "peer_ok render ((admitted f p)\<lparr>prSlots := prSlots p + 1, prIncoming := prIncoming p @ [(pfID f, length (prRequests p))],
        prRequests := prRequests p @ [?r]\<rparr>)" if "prSlots p < maxHandlers (prLimits p)"
    using adm new [OF that] frames by (simp add: peer_ok_def admitted_def)
  show ?thesis
    unfolding startRequest_def simps admitted_inactive [OF ok f]
    using started peer_ok_reject [OF ok f] public_good by simp
qed

lemma admit_cases:
  assumes "admit_request x pre p = (b, p')"
  obtains "\<not> b" "p' = p" | "b" "prAdmitted p < serial pre x" "p' = p\<lparr>prAdmitted := serial pre x\<rparr>"
proof -
  have "\<not> b \<and> p' = p \<or> b \<and> prAdmitted p < serial pre x \<and> p' = p\<lparr>prAdmitted := serial pre x\<rparr>"
    using assms by (cases "serial_of x pre") (auto simp: admit_request_def serial_def split: if_splits)
  then show thesis using that by blast
qed

lemma shape_kind:
  "frame_shape f names \<Longrightarrow> pfKind f = ''request'' \<or> pfKind f = ''response'' \<or> pfKind f = ''event'' \<or> pfKind f = ''cancel''"
  "frame_shape f names \<Longrightarrow> pfKind f \<noteq> ''event'' \<Longrightarrow> pfID f \<noteq> []"
  unfolding frame_shape_def by argo+

lemma read_turn_cases:
  obtains (refused) e w where "e \<noteq> DuplicateActive" "read_turn render noticed fallback why m p = stop_reader (refuse_peer e w p)"
  | (request) f where "admitted_next f p" "read_turn render noticed fallback why m p = startRequest render noticed fallback f (admitted f p)"
  | (other) f where "trace_ok (frame_trace f)" "pfKind f = ''response'' \<or> pfKind f = ''event'' \<or> pfKind f = ''cancel''"
      "read_turn render noticed fallback why m p = dispatch_frame render noticed fallback f (received f p)"
proof (cases "Kind m \<noteq> Text \<or> int (length (Data m)) > maxFrame (prLimits p) \<or> isl (decodeFrame (Data m))")
  case True
  then consider "Kind m \<noteq> Text" | "Kind m = Text" "maxFrame (prLimits p) < int (length (Data m))"
    | e where "Kind m = Text" "\<not> maxFrame (prLimits p) < int (length (Data m))" "decodeFrame (Data m) = Inl e"
    by (metis isl_def)
  then show thesis
  proof cases
    case 1
    then show thesis using refused [of NotText] by (simp add: read_turn_def)
  next
    case 2
    then show thesis using refused [of FrameTooLarge] by (simp add: read_turn_def)
  next
    case (3 e)
    then show thesis using refused [of "BadFrame e"] by (simp add: read_turn_def)
  qed
next
  case False
  then obtain f where f: "decodeFrame (Data m) = Inr f" by (metis isl_def sum.exhaust)
  let ?pre = "role_prefix (if pfKind f = ''response'' then prServer p else \<not> prServer p)"
  obtain names where shape: "frame_shape f names" using decoded_frame(2) [OF f] by blast
  have t: "trace_ok (frame_trace f)" using decoded_frame(1) [OF f] .
  show thesis
  proof (cases "pfID f \<noteq> [] \<and> \<not> validID (pfID f) ?pre")
    case True
    then show thesis using f False refused [of BadID] by (simp add: read_turn_def Let_def)
  next
    case valid: False
    show thesis
    proof (cases "pfKind f = ''request''")
      case True
      then have id: "pfID f \<noteq> []" using shape_kind(2) [OF shape] by simp
      obtain b p' where a: "admit_request (pfID f) (role_prefix (\<not> prServer p)) p = (b, p')" by force
      then show thesis
      proof (cases rule: admit_cases)
        case 1
        then show thesis using f False valid True id a refused [of SerialNotIncreased] by (simp add: read_turn_def Let_def)
      next
        case 2
        then have "admitted_next f p" "received f p' = admitted f p" using True id t by (simp_all add: admitted_next_def admitted_def)
        then show thesis
          using f False valid True id a 2(1) request by (simp add: read_turn_def Let_def dispatch_frame_def)
      qed
    next
      case kind: False
      then have "read_turn render noticed fallback why m p = dispatch_frame render noticed fallback f (received f p)"
        using f False valid by (cases "pfKind f = ''response''") (auto simp add: read_turn_def Let_def)
      then show thesis using other t kind shape_kind(1) [OF shape] by blast
    qed
  qed
qed

lemma peer_ok_read:
  assumes ok: "peer_ok render p" and reader: "prReader p = Reading"
  shows "peer_ok render (read_turn render noticed fallback why m p)"
proof (cases rule: read_turn_cases [of render noticed fallback why m p])
  case (refused e w)
  then show ?thesis using ok by (simp add: peer_ok_stop)
next
  case (request f)
  then show ?thesis using peer_ok_start_request [OF ok] by simp
next
  case (other f)
  then show ?thesis
    using peer_ok_response [OF ok other(1)] peer_ok_cancel [OF ok other(1)] peer_ok_event [OF ok other(1) _ reader]
    by (auto simp: dispatch_frame_def)
qed

section \<open>The rest of a peer\<close>

lemma peer_ok_write_take: "peer_ok render p \<Longrightarrow> peer_ok render (write_take p)"
  by (cases "prOutputs p") (simp_all add: write_take_def peer_ok_def)

lemma peer_ok_write_done: "peer_ok render p \<Longrightarrow> peer_ok render (write_done sent p)"
  using peer_ok_end [of render p TransportFailed Aborted] by (simp add: write_done_def peer_ok_def)

lemma peer_ok_pacing: "peer_ok render p \<Longrightarrow> prReader p = Pacing e \<Longrightarrow> pacing_wait t e p = Some p' \<Longrightarrow> peer_ok render p'"
  using peer_ok_end [of render p Backpressure Aborted]
  by (cases t) (auto simp: pacing_wait_def peer_ok_def event_room_def events_ok_queue(3) end_peer_err split: if_splits intro: events_ok_stop)

lemma peer_ok_event_take: "peer_ok render p \<Longrightarrow> peer_ok render (event_take fallback p)"
  by (auto simp: event_take_def peer_ok_def events_ok_take split: list.split)

lemma peer_ok_event_done: "peer_ok render p \<Longrightarrow> peer_ok render (event_done panicked p)"
  using peer_ok_end [of render p EventPanic Aborted] by (simp add: event_done_def peer_ok_def)

lemma peer_ok_registration:
  assumes "peer_ok render p"
  shows "Handle m there p = (r, p') \<Longrightarrow> peer_ok render p'"
    and "HandleEvent m there p = (r, p') \<Longrightarrow> peer_ok render p'"
    and "OnEvent p = (n, p') \<Longrightarrow> peer_ok render p'" and "peer_ok render (unsubscribe n p)"
  using assms by (auto simp: Handle_def HandleEvent_def OnEvent_def unsubscribe_def peer_ok_def split: if_splits option.splits)

lemma peer_ok_over:
  "peer_ok render p \<Longrightarrow> prErr p \<noteq> None \<Longrightarrow> peer_ok render (end_finish p)"
  "peer_ok render p \<Longrightarrow> peer_ok render (p\<lparr>prCtx := True\<rparr>)"
  "peer_ok render p \<Longrightarrow> peer_ok render (writer_stop p)"
  by (simp_all add: end_finish_def writer_stop_def peer_ok_def)

lemma peer_ok_emit_ctx: "peer_ok render p \<Longrightarrow> k < length (prEmitters p) \<Longrightarrow> peer_ok render (end_emit_ctx e k p)"
  unfolding end_emit_ctx_def using emitters_okD [of render p]
  by (intro peer_ok_emitters set_update_all) simp_all

lemma peer_ok_read_error: "peer_ok render p \<Longrightarrow> peer_ok render (read_error p)"
  by (simp add: read_error_def peer_ok_stop)

lemma peer_step_ok:
  assumes "peer_step render p p'" and ok: "peer_ok render p"
  shows "peer_ok render p'"
  using assms(1)
proof cases
  case step_begin
  then show ?thesis using peer_ok_begin [OF ok] by blast
next
  case step_publish
  then show ?thesis using peer_ok_publish_first [OF ok] by blast
next
  case step_publish_wait
  then show ?thesis using peer_ok_publish_wait [OF ok] by blast
next
  case step_await
  then show ?thesis using peer_ok_await [OF ok] by blast
next
  case step_call_ctx
  then show ?thesis using peer_ok_call_ctx [OF ok] by simp
next
  case step_withdraw
  then show ?thesis using peer_ok_withdraw [OF ok] by simp
next
  case step_emit
  then show ?thesis using peer_ok_emit [OF ok] by blast
next
  case step_emit_wait
  then show ?thesis using peer_ok_emit_wait [OF ok] by blast
next
  case step_emit_ctx
  then show ?thesis using peer_ok_emit_ctx [OF ok] by simp
next
  case step_pacing
  then show ?thesis using peer_ok_pacing [OF ok] by blast
next
  case step_request_ctx
  then show ?thesis using peer_ok_request_ctx [OF ok] by simp
next
  case step_deadline
  then show ?thesis using peer_ok_deadline [OF ok] by blast
next
  case step_body
  then show ?thesis using peer_ok_body [OF ok] by simp
next
  case step_answer
  then show ?thesis using peer_ok_answer [OF ok] by simp
next
  case step_answer_wait
  then show ?thesis using peer_ok_answer_wait [OF ok] by blast
next
  case step_exit
  then show ?thesis using peer_ok_exit [OF ok] by simp
next
  case step_handle
  then show ?thesis using peer_ok_registration(1) [OF ok] by blast
next
  case step_handle_event
  then show ?thesis using peer_ok_registration(2) [OF ok] by blast
next
  case step_on_event
  then show ?thesis using peer_ok_registration(3) [OF ok] by blast
qed (use ok in \<open>simp_all add: peer_ok_write_take peer_ok_read_error peer_ok_event_take peer_ok_event_done peer_ok_over
      peer_ok_registration(4) Close_peer_def\<close>)

lemma newPeer_fresh: "newPeer role opts = Inr p \<Longrightarrow> \<exists>l hs es. p = fresh_peer (role = ''server'') l hs es \<and> peer_options_normalized opts = Inr l"
  by (auto simp: newPeer_def split: if_splits sum.splits)

lemma fresh_peer_ok: "peer_ok render (fresh_peer s l hs es)"
  by (auto simp: peer_ok_def fresh_peer_def calls_ok_def frames_ok_def received_ok_def requests_ok_def replies_ok_def events_ok_def
      sent_frames_def answers_of_def maxRequestSerial_def)

interpretation whole_peer: invariant peer_start "peer_move render" "peer_ok render"
proof unfold_locales
  show "peer_ok render p" if "peer_start p" for p
    using that newPeer_fresh fresh_peer_ok unfolding peer_start_def by metis
next
  fix p p' assume ok: "peer_ok render p" and "peer_move render p p'"
  from this(2) show "peer_ok render p'"
  proof cases
    case move_step
    then show ?thesis using peer_step_ok ok by blast
  next
    case move_write
    then show ?thesis using peer_ok_write_done [OF ok] by simp
  next
    case move_read
    then show ?thesis using peer_ok_read [OF ok] by simp
  qed
qed

end
