(* ===== verification/Peer_Flow.thy ===== *)
theory Peer_Flow
  imports Peer_Requests
begin

text \<open>
  Two peers over one connection that keeps its messages in order: what one side's reader accepted
  is, frame by frame, what the other side's queue took first.
\<close>

section \<open>Steps that send at most\<close>

definition refusal :: "peer_error \<Rightarrow> bool" where
  "refusal e \<longleftrightarrow> (case e of NotText \<Rightarrow> True | FrameTooLarge \<Rightarrow> True | BadFrame r \<Rightarrow> True | BadID \<Rightarrow> True
     | SerialNotIncreased \<Rightarrow> True | DuplicateActive \<Rightarrow> True | _ \<Rightarrow> False)"

text \<open>What the peer still has to send: the frame being written and the queue.\<close>

definition pipeline :: "peer \<Rightarrow> queued_frame list" where
  "pipeline p = (case prWriting p of None \<Rightarrow> [] | Some m \<Rightarrow> [m]) @ prOutputs p"

definition err_kept :: "peer \<Rightarrow> peer \<Rightarrow> bool" where
  "err_kept p p' \<longleftrightarrow> prErr p' = prErr p \<or> prErr p = None \<and> (\<exists>e. prErr p' = Some e \<and> \<not> refusal e)"

definition writer_ok :: "peer \<Rightarrow> bool" where
  "writer_ok p \<longleftrightarrow> (prWriting p \<noteq> None \<longrightarrow> prWriter p)"

definition quiet :: "peer \<Rightarrow> peer \<Rightarrow> bool" where
  "quiet p p' \<longleftrightarrow> (\<exists>ms. prQueued p' = prQueued p @ ms \<and> pipeline p' = pipeline p @ ms) \<and> prReceived p' = prReceived p \<and>
     prServer p' = prServer p \<and> prLimits p' = prLimits p \<and> (prWriter p' \<longrightarrow> prWriter p) \<and> (writer_ok p \<longrightarrow> writer_ok p') \<and>
     err_kept p p' \<and> (prReader p = ReaderDone \<longrightarrow> prReader p' = ReaderDone)"

lemma quiet_refl [simp]: "quiet p p"
  by (simp add: quiet_def err_kept_def)

lemma quiet_trans: "quiet p q \<Longrightarrow> quiet q r \<Longrightarrow> quiet p r"
  unfolding quiet_def err_kept_def by (metis append.assoc)

lemma quiet_end: "\<not> refusal e \<or> prErr p \<noteq> None \<Longrightarrow> quiet p (end_peer e c p)"
  by (auto simp: quiet_def err_kept_def end_peer_err pipeline_def writer_ok_def)

lemma quiet_queued: "quiet p (queued d f p)"
  by (simp add: quiet_def err_kept_def pipeline_def writer_ok_def)

lemma quiet_same:
  "prQueued p' = prQueued p \<Longrightarrow> prOutputs p' = prOutputs p \<Longrightarrow> prWriting p' = prWriting p \<Longrightarrow> prReceived p' = prReceived p \<Longrightarrow>
     prServer p' = prServer p \<Longrightarrow> prLimits p' = prLimits p \<Longrightarrow> prWriter p' = prWriter p \<Longrightarrow> prErr p' = prErr p \<Longrightarrow>
     (prReader p = ReaderDone \<Longrightarrow> prReader p' = ReaderDone) \<Longrightarrow> quiet p p'"
  by (simp add: quiet_def err_kept_def pipeline_def writer_ok_def)

lemma quiet_updates: "quiet p (update_call i g p)" "quiet p (update_request i h p)" "quiet p (finish_call i p)"
  by (rule quiet_same; simp)+

text \<open>The refusals of the queue end a peer with its own error, or with one that is no refusal.\<close>

definition err_ok :: "peer_error \<Rightarrow> peer \<Rightarrow> bool" where
  "err_ok e p \<longleftrightarrow> \<not> refusal e \<or> prErr p \<noteq> None"

lemma enqueue_first_quiet:
  "enqueue_first render ended noticed f p = (r, q) \<Longrightarrow> prOver p \<longrightarrow> prErr p \<noteq> None \<Longrightarrow>
     quiet p q \<and> (\<forall>e. r = Inl e \<longrightarrow> err_ok e q)"
  by (auto simp: enqueue_first_def err_ok_def refusal_def quiet_queued split: option.splits if_splits)

lemma enqueue_wait_quiet:
  assumes "enqueue_wait render immediate ended t f p = Some (r, q)" "prOver p \<longrightarrow> prErr p \<noteq> None"
  shows "quiet p q \<and> (\<forall>e. r = Inl e \<longrightarrow> err_ok e q)"
proof -
  have "quiet p (end_peer Backpressure Aborted p)" by (rule quiet_end) (simp add: refusal_def)
  then show ?thesis
    using assms by (cases t) (auto simp: enqueue_wait_def err_ok_def refusal_def quiet_queued split: if_splits)
qed

lemma quiet_publish_ends: "quiet p (call_published i p)" "quiet p (call_unpublished i e p)"
  by (rule quiet_same; simp add: call_published_def call_unpublished_def)+

lemma quiet_cancelRequest: "quiet p (cancelRequest render noticed i p)"
  by (simp add: cancelRequest_def quiet_queued split: option.split)

lemma quiet_complete: "quiet p (complete_call render noticed w i p)"
  unfolding complete_call_def Let_def
  by (auto intro: quiet_updates quiet_trans [OF quiet_updates(1) quiet_cancelRequest])

lemma quiet_settle: "quiet p (settle_call i out p)"
  unfolding settle_call_def by (rule quiet_trans [OF quiet_updates(1) quiet_updates(3)])

lemma quiet_await: "await_turn render noticed a i p = Some p' \<Longrightarrow> quiet p p'"
  using quiet_trans [OF quiet_complete quiet_settle]
  by (auto simp: await_turn_def split: awaited.splits option.splits sum.splits if_splits)

lemma quiet_refused: "err_ok e p \<Longrightarrow> quiet p (answer_refused i again e p)"
  unfolding answer_refused_def answered_def err_ok_def
  using quiet_trans [OF quiet_end quiet_updates(2)] quiet_updates(2) by simp

lemma quiet_answered: "quiet p (answered i p)"
  by (simp add: answered_def quiet_updates)

lemma quiet_begin: "beginCall ended m params t carried immediate p = (r, p') \<Longrightarrow> quiet p p'"
proof -
  assume run: "beginCall ended m params t carried immediate p = (r, p')"
  have "quiet p (end_peer SerialsExhausted Aborted p)" by (rule quiet_end) (simp add: refusal_def)
  then show ?thesis
    using run by (auto simp: beginCall_def Let_def intro!: quiet_same split: if_splits option.splits)
qed

lemma publish_first_quiet: "publish_first render noticed i p = (r, p') \<Longrightarrow> prOver p \<longrightarrow> prErr p \<noteq> None \<Longrightarrow> quiet p p'"
proof -
  assume run: "publish_first render noticed i p = (r, p')" and over: "prOver p \<longrightarrow> prErr p \<noteq> None"
  obtain s q where e: "enqueue_first render (clCtx (prCalls p ! i) \<noteq> None) noticed (request_frame (prCalls p ! i)) p = (s, q)" by force
  have q: "quiet p q" using enqueue_first_quiet [OF e over] by simp
  have "quiet q (q\<lparr>prPublishing := x\<rparr>)" for x by (rule quiet_same) simp_all
  then have "quiet q p'" using run e quiet_publish_ends by (auto simp: publish_first_def split: sum.splits bool.splits)
  then show ?thesis by (rule quiet_trans [OF q])
qed

lemma publish_wait_quiet: "publish_wait render t i p = Some (r, p') \<Longrightarrow> prOver p \<longrightarrow> prErr p \<noteq> None \<Longrightarrow> quiet p p'"
proof -
  assume run: "publish_wait render t i p = Some (r, p')" and over: "prOver p \<longrightarrow> prErr p \<noteq> None"
  obtain s q where e: "enqueue_wait render (clImmediate (prCalls p ! i)) (clCtx (prCalls p ! i) \<noteq> None) t (request_frame (prCalls p ! i)) p = Some (s, q)"
    using run by (auto simp: publish_wait_def split: option.splits)
  have q: "quiet p q" using enqueue_wait_quiet [OF e over] by simp
  have "quiet q p'" using run e quiet_publish_ends by (auto simp: publish_wait_def split: sum.splits)
  then show ?thesis by (rule quiet_trans [OF q])
qed

lemma emit_first_quiet: "emit_first render ended noticed name v t carried immediate p = (r, p') \<Longrightarrow> prOver p \<longrightarrow> prErr p \<noteq> None \<Longrightarrow> quiet p p'"
proof (cases "name = [] \<or> v = None")
  case False
  assume run: "emit_first render ended noticed name v t carried immediate p = (r, p')" and over: "prOver p \<longrightarrow> prErr p \<noteq> None"
  obtain w where w: "v = Some w" using False by auto
  obtain s q where e: "enqueue_first render ended noticed (event_frame name w t carried) p = (s, q)" by force
  have q: "quiet p q" using enqueue_first_quiet [OF e over] by simp
  have "quiet q (q\<lparr>prEmitters := x\<rparr>)" for x by (rule quiet_same) simp_all
  then have "quiet q p'" using run e False w by (auto simp: emit_first_def split: sum.splits bool.splits)
  then show ?thesis by (rule quiet_trans [OF q])
qed (auto simp: emit_first_def split: if_splits)

lemma emit_wait_quiet: "emit_wait render t k p = Some (r, p') \<Longrightarrow> prOver p \<longrightarrow> prErr p \<noteq> None \<Longrightarrow> quiet p p'"
proof -
  assume run: "emit_wait render t k p = Some (r, p')" and over: "prOver p \<longrightarrow> prErr p \<noteq> None"
  obtain s q where e: "enqueue_wait render (emImmediate (prEmitters p ! k)) (emCtx (prEmitters p ! k) \<noteq> None) t (emFrame (prEmitters p ! k)) p = Some (s, q)"
    and p': "p' = q\<lparr>prEmitters := take k (prEmitters q) @ drop (Suc k) (prEmitters q)\<rparr>"
    using run by (auto simp: emit_wait_def Let_def split: option.splits)
  have "quiet q p'" unfolding p' by (rule quiet_same) simp_all
  then show ?thesis using enqueue_wait_quiet [OF e over] quiet_trans by blast
qed

lemma answer_first_quiet: "prOver p \<longrightarrow> prErr p \<noteq> None \<Longrightarrow> quiet p (answer_first render noticed i f again p)"
proof -
  assume over: "prOver p \<longrightarrow> prErr p \<noteq> None"
  obtain s q where e: "enqueue_first render (prCtx p) noticed f p = (s, q)" by force
  have q: "quiet p q \<and> (\<forall>e. s = Inl e \<longrightarrow> err_ok e q)" using enqueue_first_quiet [OF e over] .
  then have "quiet q (answer_first render noticed i f again p)"
    using e quiet_refused quiet_answered quiet_updates(2) by (auto simp: answer_first_def split: sum.splits bool.splits)
  then show ?thesis using q quiet_trans by blast
qed

lemma answer_wait_quiet: "answer_wait render t i f again p = Some p' \<Longrightarrow> prOver p \<longrightarrow> prErr p \<noteq> None \<Longrightarrow> quiet p p'"
proof -
  assume run: "answer_wait render t i f again p = Some p'" and over: "prOver p \<longrightarrow> prErr p \<noteq> None"
  obtain s q where e: "enqueue_wait render False (prCtx p) t f p = Some (s, q)"
    using run by (auto simp: answer_wait_def split: option.splits)
  have q: "quiet p q \<and> (\<forall>e. s = Inl e \<longrightarrow> err_ok e q)" using enqueue_wait_quiet [OF e over] .
  then have "quiet q p'" using run e quiet_refused quiet_answered by (auto simp: answer_wait_def split: sum.splits)
  then show ?thesis using q quiet_trans by blast
qed

lemma quiet_respond: "quiet p (respond_with i h p)"
  by (simp add: respond_with_def quiet_updates)

lemma quiet_body: "quiet p (body_returns i h p)"
  unfolding body_returns_def Let_def
  using quiet_updates(2) quiet_trans [OF quiet_updates(2) quiet_respond] by simp

lemma quiet_withdraw: "quiet p (withdraw_call render noticed i p)"
  unfolding withdraw_call_def end_call_ctx_def by (rule quiet_trans [OF quiet_updates(1) quiet_complete])

lemma quiet_write_take: "prWriter p \<Longrightarrow> prWriting p = None \<Longrightarrow> quiet p (write_take p)"
  by (cases "prOutputs p") (simp_all add: write_take_def quiet_def err_kept_def pipeline_def writer_ok_def)

lemma quiet_stop: "quiet p (stop_reader p)"
  by (rule quiet_same) (simp_all add: stop_reader_def)

lemma quiet_pacing: "prReader p = Pacing e \<Longrightarrow> pacing_wait t e p = Some p' \<Longrightarrow> quiet p p'"
proof -
  assume reader: "prReader p = Pacing e" and run: "pacing_wait t e p = Some p'"
  have "quiet p ((end_peer Backpressure Aborted p)\<lparr>prReader := ReaderDone\<rparr>)"
    by (rule quiet_trans [OF quiet_end quiet_same]) (simp_all add: refusal_def)
  then show ?thesis using run reader by (cases t) (auto simp: pacing_wait_def intro!: quiet_same split: if_splits)
qed

lemma quiet_event_done: "quiet p (event_done panicked p)"
proof -
  have "quiet p ((end_peer EventPanic Aborted p)\<lparr>prHandling := False\<rparr>)"
    by (rule quiet_trans [OF quiet_end quiet_same]) (simp_all add: refusal_def)
  moreover have "quiet p (p\<lparr>prHandling := False\<rparr>)" by (rule quiet_same) simp_all
  ultimately show ?thesis by (simp add: event_done_def)
qed

lemma quiet_read_error: "quiet p (read_error p)"
  unfolding read_error_def fail_peer_is by (rule quiet_trans [OF quiet_end quiet_stop]) (simp add: refusal_def)

lemma quiet_registration:
  "Handle m there p = (r, p') \<Longrightarrow> quiet p p'" "HandleEvent m there p = (r, p') \<Longrightarrow> quiet p p'"
  "OnEvent p = (n, p') \<Longrightarrow> quiet p p'" "quiet p (unsubscribe n p)"
  by (auto simp: Handle_def HandleEvent_def OnEvent_def unsubscribe_def intro!: quiet_same split: if_splits option.splits)

lemma quiet_ends:
  "quiet p (Close_peer p)" "quiet p (fail_peer ContextEnded p)" "quiet p (p\<lparr>prCtx := True\<rparr>)" "quiet p (end_finish p)"
  unfolding Close_peer_def fail_peer_is end_finish_def
  by (auto intro!: quiet_end quiet_same simp: refusal_def)

lemma quiet_writer_stop: "prWriting p = None \<Longrightarrow> quiet p (writer_stop p)"
  by (simp add: writer_stop_def quiet_def err_kept_def pipeline_def writer_ok_def)

lemma quiet_event_take: "quiet p (event_take fallback p)"
  by (rule quiet_same) (simp_all add: event_take_def split: list.split)

lemma quiet_exit: "quiet p (request_exit i p)" "quiet p (end_emit_ctx e k p)"
  by (rule quiet_same; simp add: request_exit_def end_emit_ctx_def)+

lemma peer_step_quiet:
  assumes "peer_step render p p'" and over: "prOver p \<longrightarrow> prErr p \<noteq> None"
  shows "quiet p p'"
  using assms(1)
proof cases
  case step_begin
  then show ?thesis using quiet_begin by blast
next
  case step_publish
  then show ?thesis using publish_first_quiet over by blast
next
  case step_publish_wait
  then show ?thesis using publish_wait_quiet over by blast
next
  case step_await
  then show ?thesis using quiet_await by blast
next
  case step_emit
  then show ?thesis using emit_first_quiet over by blast
next
  case step_emit_wait
  then show ?thesis using emit_wait_quiet over by blast
next
  case step_pacing
  then show ?thesis using quiet_pacing by blast
next
  case step_deadline
  then show ?thesis using quiet_respond by (auto simp: answer_deadline_def split: if_splits)
next
  case step_answer
  then show ?thesis using answer_first_quiet over by blast
next
  case step_answer_wait
  then show ?thesis using answer_wait_quiet over by blast
next
  case step_handle
  then show ?thesis using quiet_registration(1) by blast
next
  case step_handle_event
  then show ?thesis using quiet_registration(2) by blast
next
  case step_on_event
  then show ?thesis using quiet_registration(3) by blast
qed (simp_all only: quiet_write_take quiet_writer_stop quiet_read_error quiet_body quiet_withdraw quiet_event_take quiet_event_done quiet_exit
      quiet_ends quiet_registration(4) end_call_ctx_def end_request_ctx_def quiet_updates)

section \<open>Reading what the other side wrote\<close>

text \<open>The encoder writes what the frame holds; \<open>own_frame_is_read_back\<close> is what it comes to.\<close>

definition exact_encoder :: "(profile_frame \<Rightarrow> string option) \<Rightarrow> bool" where
  "exact_encoder render \<longleftrightarrow> (\<forall>f d. own_frame f \<longrightarrow> render f = Some d \<longrightarrow> parse_json True d = Some (JObject (frame_members f)))"

definition sender_role :: "profile_frame \<Rightarrow> bool \<Rightarrow> bool" where
  "sender_role f server = (if pfKind f = ''response'' then server else \<not> server)"

definition acceptable :: "profile_frame \<Rightarrow> peer \<Rightarrow> bool" where
  "acceptable f q \<longleftrightarrow> (pfID f \<noteq> [] \<longrightarrow> validID (pfID f) (role_prefix (sender_role f (prServer q)))) \<and>
     (pfKind f = ''request'' \<longrightarrow> serial_of (pfID f) (role_prefix (\<not> prServer q)) \<noteq> None \<and>
        prAdmitted q < serial (role_prefix (\<not> prServer q)) (pfID f))"

lemma quiet_reject: "quiet p (rejectRequest render noticed x t e p)"
proof -
  have "quiet p (end_peer RejectionTooLarge Aborted p)" "quiet p (end_peer Backpressure Aborted p)"
    by (rule quiet_end; simp add: refusal_def)+
  then show ?thesis by (simp add: rejectRequest_def quiet_queued split: option.split)
qed

lemma quiet_dispatch:
  "pfKind f = ''request'' \<longrightarrow> map_of (prIncoming p) (pfID f) = None \<Longrightarrow> prReader p = Reading \<Longrightarrow>
     quiet p (dispatch_frame render noticed fallback f p)"
proof -
  assume reader: "prReader p = Reading" and fresh: "pfKind f = ''request'' \<longrightarrow> map_of (prIncoming p) (pfID f) = None"
  have "quiet p (deliver_response f p)"
    by (rule quiet_same) (simp_all add: deliver_response_def split: option.split)
  moreover have "quiet p (deliver_cancel f p)"
    by (simp add: deliver_cancel_def end_request_ctx_def quiet_updates split: option.split)
  moreover have "quiet p (enqueueEvent e p)" for e
    by (rule quiet_same) (simp_all add: enqueueEvent_def reader)
  moreover have "quiet p (startRequest render noticed fallback f p)" if "map_of (prIncoming p) (pfID f) = None"
    using that by (auto simp: startRequest_def quiet_reject intro!: quiet_same)
  ultimately show ?thesis using fresh by (simp add: dispatch_frame_def)
qed

text \<open>Whatever a peer reads, it never ends for an id in use: the serials of ids grow.\<close>

lemma read_turn_duplicate:
  assumes ok: "peer_ok render p" and err: "prErr p \<noteq> Some DuplicateActive" and reader: "prReader p = Reading"
  shows "prErr (read_turn render noticed fallback why m p) \<noteq> Some DuplicateActive"
proof (cases rule: read_turn_cases [of render noticed fallback why m p])
  case (refused e w)
  then show ?thesis using err by (simp add: end_peer_err)
next
  case (request f)
  then have f: "pfKind f = ''request''" "map_of (prIncoming (admitted f p)) (pfID f) = None" "prErr (admitted f p) = prErr p"
    "prReader (admitted f p) = Reading"
    using admitted_inactive [OF ok] reader by (simp_all add: admitted_next_def admitted_def)
  then have "quiet (admitted f p) (startRequest render noticed fallback f (admitted f p))"
    using quiet_dispatch [of f "admitted f p"] f by (simp add: dispatch_frame_def)
  then show ?thesis using err request(2) f(3) by (auto simp: quiet_def err_kept_def refusal_def)
next
  case (other f)
  then have "quiet (received f p) (read_turn render noticed fallback why m p)"
    using quiet_dispatch [of f "received f p"] reader by auto
  then show ?thesis using err by (auto simp: quiet_def err_kept_def refusal_def)
qed

definition never_duplicate :: "(profile_frame \<Rightarrow> string option) \<Rightarrow> peer \<Rightarrow> bool" where
  "never_duplicate render p \<longleftrightarrow> peer_ok render p \<and> prErr p \<noteq> Some DuplicateActive"

interpretation serials_grow: invariant peer_start "peer_move render" "never_duplicate render"
proof unfold_locales
  show "never_duplicate render p" if start: "peer_start p" for p
  proof -
    obtain l hs es role where "p = fresh_peer (role = ''server'') l hs es"
      using start newPeer_fresh unfolding peer_start_def by blast
    then have "prErr p = None" by (simp add: fresh_peer_def)
    then show ?thesis using whole_peer.initial [OF start] by (simp add: never_duplicate_def)
  qed
next
  fix p p' assume ok: "never_duplicate render p" and move: "peer_move render p p'"
  have peer: "peer_ok render p" "prErr p \<noteq> Some DuplicateActive" using ok by (simp_all add: never_duplicate_def)
  from move have "prErr p' \<noteq> Some DuplicateActive"
  proof cases
    case move_step
    then have "quiet p p'" using peer_step_quiet peer_ok_parts(8) [OF peer(1)] by blast
    then show ?thesis using peer(2) by (auto simp: quiet_def err_kept_def refusal_def)
  next
    case move_write
    then show ?thesis using peer(2) by (auto simp: write_done_def end_peer_err)
  next
    case move_read
    then show ?thesis using read_turn_duplicate [OF peer] by simp
  qed
  then show "never_duplicate render p'" using whole_peer.kept [OF peer(1) move] by (simp add: never_duplicate_def)
qed

lemma read_accepts:
  assumes exact: "exact_encoder render" and q: "peer_ok render q" and d: "render f = Some d" "own_frame f" "int (length d) \<le> maxFrame (prLimits q)"
    and f: "acceptable f q" and reader: "prReader q = Reading"
  shows "quiet (received f q) (read_turn render noticed fallback why \<lparr>Kind = Text, Data = d\<rparr> q)"
proof -
  have decoded: "decodeFrame d = Inr f"
    using exact d(1,2) by (intro own_frame_is_read_back) (simp_all add: exact_encoder_def)
  obtain names where shape: "frame_shape f names" using decoded_frame(2) [OF decoded] by blast
  have t: "trace_ok (frame_trace f)" using decoded_frame(1) [OF decoded] .
  have id: "pfID f \<noteq> [] \<longrightarrow> validID (pfID f) (role_prefix (if pfKind f = ''response'' then prServer q else \<not> prServer q))"
    using f by (simp add: acceptable_def sender_role_def)
  show ?thesis
  proof (cases "pfKind f = ''request''")
    case True
    then have some: "pfID f \<noteq> []" "serial_of (pfID f) (role_prefix (\<not> prServer q)) \<noteq> None"
      "prAdmitted q < serial (role_prefix (\<not> prServer q)) (pfID f)"
      using f shape_kind(2) [OF shape] by (simp_all add: acceptable_def)
    then have adm: "admit_request (pfID f) (role_prefix (\<not> prServer q)) q = (True, q\<lparr>prAdmitted := serial (role_prefix (\<not> prServer q)) (pfID f)\<rparr>)"
      by (auto simp: admit_request_def serial_def)
    have next_: "admitted_next f q" using True some t by (simp add: admitted_next_def)
    have "quiet (received f q) (admitted f q)" by (rule quiet_same) (simp_all add: admitted_def)
    moreover have "quiet (admitted f q) (dispatch_frame render noticed fallback f (admitted f q))"
      using admitted_inactive [OF q next_] reader by (intro quiet_dispatch) (simp_all add: admitted_def)
    moreover have "read_turn render noticed fallback why \<lparr>Kind = Text, Data = d\<rparr> q = dispatch_frame render noticed fallback f (admitted f q)"
      using decoded d(3) id True some(1) adm by (simp add: read_turn_def admitted_def)
    ultimately show ?thesis using quiet_trans by metis
  next
    case False
    then have "read_turn render noticed fallback why \<lparr>Kind = Text, Data = d\<rparr> q = dispatch_frame render noticed fallback f (received f q)"
      using decoded d(3) id by (cases "pfKind f = ''response''") (auto simp add: read_turn_def Let_def)
    moreover have "quiet (received f q) (dispatch_frame render noticed fallback f (received f q))"
      using False reader by (intro quiet_dispatch) simp_all
    ultimately show ?thesis by simp
  qed
qed

section \<open>Ids on the wire\<close>

lemma nat_decimal_length: "n < 10 ^ Suc k \<Longrightarrow> length (nat_decimal n) \<le> Suc k"
proof (induction k arbitrary: n)
  case 0
  then show ?case by (subst nat_decimal.simps) simp
next
  case (Suc k)
  have "n div 10 < 10 ^ Suc k" using Suc.prems by (simp add: div_less_iff_less_mult)
  from Suc.IH [OF this] show ?case by (subst nat_decimal.simps) simp
qed

lemma mint_drop [simp]: "has_prefix (mint s n) (role_prefix s)" "drop (length (role_prefix s)) (mint s n) = nat_decimal n"
  by (simp_all add: mint_def has_prefix_def)

lemma mint_valid:
  assumes "0 < n" "int n \<le> maxRequestSerial"
  shows "validID (mint s n) (role_prefix s)" "serial_of (mint s n) (role_prefix s) = Some n" "serial (role_prefix s) (mint s n) = n"
proof -
  have n: "n \<le> 9223372036854775807" using assms(2) by (simp add: maxRequestSerial_def)
  then have "n < 10 ^ Suc 19" by simp
  then have "length (nat_decimal n) \<le> 20" using nat_decimal_length [of n 19] by simp
  then show "validID (mint s n) (role_prefix s)"
    using nat_decimal_digits nat_decimal_no_zero [OF assms(1)] by (simp add: validID_def Let_def)
  show some: "serial_of (mint s n) (role_prefix s) = Some n"
    using n nat_decimal_value [of n] by (simp add: serial_of_def parse_uint64_def)
  then show "serial (role_prefix s) (mint s n) = n" by (simp add: serial_def)
qed

section \<open>Two peers and what is between them\<close>

record link =
  lkClient :: peer
  lkServer :: peer
  lkUp :: "queued_frame list"
  lkDown :: "queued_frame list"

text \<open>
  \<open>lkUp\<close> and \<open>lkDown\<close> hold the frames written and not yet read.  A write that fails may or may not have
  put its frame on the connection.  Each peer has options of its own.
\<close>

inductive link_move :: "(profile_frame \<Rightarrow> string option) \<Rightarrow> link \<Rightarrow> link \<Rightarrow> bool" for render where
  client_step: "peer_step render (lkClient w) p \<Longrightarrow> link_move render w (w\<lparr>lkClient := p\<rparr>)"
| server_step: "peer_step render (lkServer w) p \<Longrightarrow> link_move render w (w\<lparr>lkServer := p\<rparr>)"
| client_write: "prWriting (lkClient w) = Some m \<Longrightarrow> sent \<longrightarrow> arrives \<Longrightarrow>
    link_move render w (w\<lparr>lkClient := write_done sent (lkClient w), lkUp := lkUp w @ (if arrives then [m] else [])\<rparr>)"
| server_write: "prWriting (lkServer w) = Some m \<Longrightarrow> sent \<longrightarrow> arrives \<Longrightarrow>
    link_move render w (w\<lparr>lkServer := write_done sent (lkServer w), lkDown := lkDown w @ (if arrives then [m] else [])\<rparr>)"
| client_read: "prReader (lkClient w) = Reading \<Longrightarrow> lkDown w = m # ms \<Longrightarrow>
    link_move render w (w\<lparr>lkClient := read_turn render noticed fallback why \<lparr>Kind = Text, Data = fst m\<rparr> (lkClient w), lkDown := ms\<rparr>)"
| server_read: "prReader (lkServer w) = Reading \<Longrightarrow> lkUp w = m # ms \<Longrightarrow>
    link_move render w (w\<lparr>lkServer := read_turn render noticed fallback why \<lparr>Kind = Text, Data = fst m\<rparr> (lkServer w), lkUp := ms\<rparr>)"

definition link_start :: "link \<Rightarrow> bool" where
  "link_start w \<longleftrightarrow> (\<exists>copts sopts. newPeer ''client'' copts = Inr (lkClient w) \<and> newPeer ''server'' sopts = Inr (lkServer w)) \<and>
     lkUp w = [] \<and> lkDown w = []"

section \<open>One direction\<close>

text \<open>A reader that has stopped takes nothing more, and may have dropped the frame it stopped for.\<close>

definition flow_ok :: "peer \<Rightarrow> peer \<Rightarrow> queued_frame list \<Rightarrow> bool" where
  "flow_ok p q net \<longleftrightarrow> writer_ok p \<and>
     (\<exists>read left gone. prQueued p = read @ left @ gone \<and> sent_frames read = prReceived q \<and> (prWriter p \<longrightarrow> gone = pipeline p) \<and>
        (prReader q = ReaderDone \<or> left = net))"

lemma flow_ok_sender: "flow_ok p q net \<Longrightarrow> quiet p p' \<Longrightarrow> flow_ok p' q net"
proof -
  assume ok: "flow_ok p q net" and quiet: "quiet p p'"
  obtain read left gone where r: "prQueued p = read @ left @ gone" "sent_frames read = prReceived q" "prWriter p \<longrightarrow> gone = pipeline p"
    "prReader q = ReaderDone \<or> left = net"
    using ok by (auto simp: flow_ok_def)
  obtain ms where ms: "prQueued p' = prQueued p @ ms" "pipeline p' = pipeline p @ ms" using quiet by (auto simp: quiet_def)
  have "prQueued p' = read @ left @ (gone @ ms)" "prWriter p' \<longrightarrow> gone @ ms = pipeline p'" using ms r quiet by (auto simp: quiet_def)
  then show ?thesis using ok quiet r(2,4) by (auto simp: flow_ok_def quiet_def)
qed

lemma flow_ok_receiver:
  "flow_ok p q net \<Longrightarrow> prReceived q' = prReceived q \<Longrightarrow> (prReader q = ReaderDone \<Longrightarrow> prReader q' = ReaderDone) \<Longrightarrow> flow_ok p q' net"
  by (auto simp: flow_ok_def)

lemma write_done_simps [simp]:
  "prQueued (write_done sent p) = prQueued p" "prReceived (write_done sent p) = prReceived p" "prServer (write_done sent p) = prServer p"
  "prLimits (write_done sent p) = prLimits p" "prOutputs (write_done sent p) = prOutputs p" "prWriting (write_done sent p) = None"
  "prWriter (write_done sent p) = (sent \<and> prWriter p)" "prOver (write_done sent p) = prOver p"
  by (simp_all add: write_done_def)

lemma flow_ok_write:
  assumes "flow_ok p q net" "prWriting p = Some m" "sent \<longrightarrow> arrives"
  shows "flow_ok (write_done sent p) q (net @ (if arrives then [m] else []))"
proof -
  obtain read left gone where r: "prQueued p = read @ left @ gone" "sent_frames read = prReceived q" "prWriter p \<longrightarrow> gone = pipeline p"
    "prReader q = ReaderDone \<or> left = net"
    using assms(1) by (auto simp: flow_ok_def)
  have gone: "gone = m # prOutputs p" using assms r(3) by (simp add: flow_ok_def writer_ok_def pipeline_def)
  show ?thesis
  proof (cases arrives)
    case True
    then have "prQueued p = read @ (left @ [m]) @ prOutputs p" using r(1) gone by simp
    moreover have "prReader q = ReaderDone \<or> left @ [m] = net @ [m]" using r(4) by simp
    ultimately have "\<exists>read left gone. prQueued p = read @ left @ gone \<and> sent_frames read = prReceived q \<and> gone = prOutputs p \<and>
        (prReader q = ReaderDone \<or> left = net @ [m])"
      using r(2) by blast
    then show ?thesis using True by (auto simp: flow_ok_def writer_ok_def pipeline_def)
  next
    case False
    then have "\<not> sent" using assms(3) by simp
    then show ?thesis using r False by (auto simp: flow_ok_def writer_ok_def)
  qed
qed

lemma flow_ok_next:
  assumes "flow_ok p q (m # net)" "prReader q = Reading"
  shows "\<exists>read gone. prQueued p = read @ (m # net) @ gone \<and> sent_frames read = prReceived q"
  using assms by (auto simp: flow_ok_def)

lemma flow_ok_read:
  assumes ok: "flow_ok p q (m # net)" "prReader q = Reading" and q': "prReceived q' = prReceived q @ [snd m]"
  shows "flow_ok p q' net"
proof -
  obtain read gone where r: "prQueued p = read @ (m # net) @ gone" "sent_frames read = prReceived q" "prWriter p \<longrightarrow> gone = pipeline p"
    using ok by (auto simp: flow_ok_def)
  have "prQueued p = (read @ [m]) @ net @ gone" "sent_frames (read @ [m]) = prReceived q'" using r q' by (simp_all add: sent_frames_def)
  then show ?thesis using ok(1) r(3) unfolding flow_ok_def by blast
qed

lemma flow_ok_stopped: "flow_ok p q net \<Longrightarrow> prReceived q' = prReceived q \<Longrightarrow> prReader q' = ReaderDone \<Longrightarrow> flow_ok p q' net'"
  by (auto simp: flow_ok_def)

text \<open>What was accepted is a first part of what was sent.\<close>

lemma flow_prefix: "flow_ok p q net \<Longrightarrow> \<exists>rest. sent_frames (prQueued p) = prReceived q @ rest"
  by (force simp: flow_ok_def sent_frames_def)

lemma flow_subset: "flow_ok p q net \<Longrightarrow> set (prReceived q) \<subseteq> set (sent_frames (prQueued p))"
  using flow_prefix by fastforce

text \<open>The next frame is one the other side accepts.\<close>

lemma requests_sent:
  "peer_ok render p \<Longrightarrow> map frame_key (of_kind ''request'' (sent_frames (prQueued p))) = map call_key (filter clPublished (prCalls p))"
  by (drule peer_ok_parts(1)) (simp only: calls_ok_def)

lemma sent_request:
  assumes ok: "peer_ok render p" and f: "f \<in> set (sent_frames (prQueued p))" "pfKind f = ''request''"
  shows "\<exists>c \<in> set (prCalls p). clPublished c \<and> frame_key f = call_key c"
proof -
  have "frame_key f \<in> set (map frame_key (of_kind ''request'' (sent_frames (prQueued p))))" using f by simp
  then have "frame_key f \<in> set (map call_key (filter clPublished (prCalls p)))" by (simp only: requests_sent [OF ok])
  then show ?thesis by auto
qed

lemma call_id_valid:
  assumes ok: "peer_ok render p" and c: "c \<in> set (prCalls p)"
  shows "validID (clID c) (role_prefix (prServer p))" "serial_of (clID c) (role_prefix (prServer p)) = Some (clSerial c)"
    "serial (role_prefix (prServer p)) (clID c) = clSerial c" "0 < clSerial c"
proof -
  have "clID c = mint (prServer p) (clSerial c)" "0 < clSerial c" "int (clSerial c) \<le> maxRequestSerial"
    using peer_ok_parts(1) [OF ok] c by (auto simp: calls_ok_def call_ok_def)
  then show "validID (clID c) (role_prefix (prServer p))" "serial_of (clID c) (role_prefix (prServer p)) = Some (clSerial c)"
    "serial (role_prefix (prServer p)) (clID c) = clSerial c" "0 < clSerial c"
    using mint_valid [of "clSerial c" "prServer p"] by simp_all
qed

lemma request_serials:
  assumes ok: "peer_ok render p"
  shows "sorted_wrt (<) (map (\<lambda>f. serial (role_prefix (prServer p)) (pfID f)) (of_kind ''request'' (sent_frames (prQueued p))))"
proof -
  let ?s = "serial (role_prefix (prServer p))"
  have "map (?s \<circ> fst) (map frame_key (of_kind ''request'' (sent_frames (prQueued p)))) = map (?s \<circ> fst) (map call_key (filter clPublished (prCalls p)))"
    by (simp only: requests_sent [OF ok])
  also have "\<dots> = map clSerial (filter clPublished (prCalls p))"
    using call_id_valid(3) [OF ok] by (simp add: call_key_def)
  finally have *: "map (\<lambda>f. ?s (pfID f)) (of_kind ''request'' (sent_frames (prQueued p))) = map clSerial (filter clPublished (prCalls p))"
    by (simp add: frame_key_def comp_def)
  have "sorted_wrt (<) (map clSerial (prCalls p))" using peer_ok_parts(1) [OF ok] by (simp add: calls_ok_def)
  then have "sorted_wrt (<) (map clSerial (filter clPublished (prCalls p)))" by (simp add: sorted_wrt_map sorted_wrt_filter)
  then show ?thesis by (simp only: *)
qed

lemma next_acceptable:
  assumes p: "peer_ok render p" and q: "peer_ok render q" and role: "prServer q = (\<not> prServer p)"
    and down: "flow_ok p q (m # net)" "prReader q = Reading" and up: "flow_ok q p net'"
  shows "acceptable (snd m) q"
proof -
  obtain read gone where r: "prQueued p = read @ (m # net) @ gone" "sent_frames read = prReceived q"
    using flow_ok_next [OF down] by blast
  let ?f = "snd m" and ?s = "serial (role_prefix (prServer p))"
  have f: "?f \<in> set (sent_frames (prQueued p))" using r(1) by (simp add: sent_frames_def)
  have m: "message_ok render (prLimits p) (prCalls p) m" using peer_ok_parts(2) [OF p] r(1) by (simp add: frames_ok_def)
  then have shape: "frame_shape ?f (fst ` set (frame_members ?f))" by (simp add: message_ok_def own_frame_iff)
  consider (request) "pfKind ?f = ''request''" | (response) "pfKind ?f = ''response''" | (event) "pfKind ?f = ''event''" | (cancel) "pfKind ?f = ''cancel''"
    using shape_kind(1) [OF shape] by blast
  then show ?thesis
  proof cases
    case request
    obtain c where c: "c \<in> set (prCalls p)" "frame_key ?f = call_key c" using sent_request [OF p f request] by blast
    then have id: "pfID ?f = clID c" by (simp add: frame_key_def call_key_def)
    have "sent_frames (prQueued p) = (prReceived q @ [?f]) @ sent_frames (net @ gone)" using r by (simp add: sent_frames_def)
    then have sorted: "sorted_wrt (<) (map (\<lambda>f. ?s (pfID f)) (of_kind ''request'' (prReceived q @ [?f])))"
      using request_serials [OF p] by (simp only: filter_append map_append sorted_wrt_append [of _ _ "map _ (of_kind _ (sent_frames (net @ gone)))"])
    have "prAdmitted q < ?s (pfID ?f)"
    proof (cases "prAdmitted q = 0")
      case True
      then show ?thesis using call_id_valid(3,4) [OF p c(1)] id by simp
    next
      case False
      then obtain g where "g \<in> set (of_kind ''request'' (prReceived q))" "?s (pfID g) = prAdmitted q"
        using peer_ok_parts(3) [OF q] role unfolding received_ok_def by auto
      then show ?thesis using sorted request by (auto simp: sorted_wrt_append)
    qed
    then show ?thesis using call_id_valid [OF p c(1)] id role request by (simp add: acceptable_def sender_role_def)
  next
    case cancel
    then obtain c where "c \<in> set (prCalls p)" "pfID ?f = clID c" using m by (auto simp: message_ok_def)
    then show ?thesis using call_id_valid(1) [OF p] role cancel by (simp add: acceptable_def sender_role_def)
  next
    case event
    then show ?thesis using shape by (simp add: acceptable_def frame_shape_def)
  next
    case response
    then have "(pfID ?f, response_of ?f) \<in> set (answers_of (prQueued p))" using f by (auto simp: answers_of_def)
    then obtain g where g: "g \<in> set (of_kind ''request'' (prReceived p))" "pfID ?f = pfID g"
      using requests_ok_parts(8) [OF peer_ok_parts(4) [OF p]] by blast
    then have "g \<in> set (sent_frames (prQueued q))" "pfKind g = ''request''" using flow_subset [OF up] by auto
    then obtain c where "c \<in> set (prCalls q)" "frame_key g = call_key c" using sent_request [OF q] by blast
    then show ?thesis using call_id_valid(1) [OF q] g(2) role response by (simp add: acceptable_def sender_role_def frame_key_def call_key_def)
  qed
qed

section \<open>Both directions\<close>

text \<open>A peer that ended for a frame of the other side ended for one over its own limit and within the other's.\<close>

definition unrefused :: "peer \<Rightarrow> peer \<Rightarrow> bool" where
  "unrefused p q \<longleftrightarrow> (\<forall>e. prErr p = Some e \<longrightarrow> refusal e \<longrightarrow> e = FrameTooLarge \<and> maxFrame (prLimits p) < maxFrame (prLimits q))"

definition link_ok :: "(profile_frame \<Rightarrow> string option) \<Rightarrow> link \<Rightarrow> bool" where
  "link_ok render w \<longleftrightarrow> peer_ok render (lkClient w) \<and> peer_ok render (lkServer w) \<and> \<not> prServer (lkClient w) \<and> prServer (lkServer w) \<and>
     flow_ok (lkClient w) (lkServer w) (lkUp w) \<and> flow_ok (lkServer w) (lkClient w) (lkDown w) \<and>
     unrefused (lkClient w) (lkServer w) \<and> unrefused (lkServer w) (lkClient w)"

text \<open>The same of one side and the other, for the moves of either.\<close>

definition side_ok :: "(profile_frame \<Rightarrow> string option) \<Rightarrow> peer \<Rightarrow> queued_frame list \<Rightarrow> peer \<Rightarrow> queued_frame list \<Rightarrow> bool" where
  "side_ok render p out q inp \<longleftrightarrow> peer_ok render p \<and> peer_ok render q \<and> prServer q = (\<not> prServer p) \<and>
     flow_ok p q out \<and> flow_ok q p inp \<and> unrefused p q \<and> unrefused q p"

lemma link_ok_sides:
  "link_ok render w \<longleftrightarrow> \<not> prServer (lkClient w) \<and> side_ok render (lkClient w) (lkUp w) (lkServer w) (lkDown w)"
  by (auto simp: link_ok_def side_ok_def)

lemma side_ok_turn: "side_ok render p out q inp \<longleftrightarrow> side_ok render q inp p out"
  by (auto simp: side_ok_def)

lemma unrefused_quiet: "unrefused p q \<Longrightarrow> quiet p p' \<Longrightarrow> unrefused p' q"
  by (auto simp: unrefused_def quiet_def err_kept_def)

lemma unrefused_limits: "unrefused q p \<Longrightarrow> prLimits p' = prLimits p \<Longrightarrow> unrefused q p'"
  by (simp add: unrefused_def)

lemma side_ok_step: "side_ok render p out q inp \<Longrightarrow> peer_step render p p' \<Longrightarrow> side_ok render p' out q inp \<and> prServer p' = prServer p"
proof -
  assume ok: "side_ok render p out q inp" and step: "peer_step render p p'"
  have peer: "peer_ok render p" using ok by (simp add: side_ok_def)
  have quiet: "quiet p p'" by (rule peer_step_quiet [OF step]) (rule impI, rule peer_ok_parts(8) [OF peer])
  have same: "prReceived p' = prReceived p" "prServer p' = prServer p" "prLimits p' = prLimits p"
    "prReader p = ReaderDone \<Longrightarrow> prReader p' = ReaderDone"
    using quiet unfolding quiet_def by blast+
  have "flow_ok p' q out" using ok by (intro flow_ok_sender [OF _ quiet]) (simp add: side_ok_def)
  moreover have "flow_ok q p' inp" using ok by (intro flow_ok_receiver [OF _ same(1)] same(4)) (simp_all add: side_ok_def)
  moreover have "unrefused p' q" using ok by (intro unrefused_quiet [OF _ quiet]) (simp add: side_ok_def)
  moreover have "unrefused q p'" using ok by (intro unrefused_limits [OF _ same(3)]) (simp add: side_ok_def)
  ultimately show ?thesis using ok same(2,3) peer_step_ok [OF step peer] by (simp add: side_ok_def)
qed

lemma side_ok_write:
  assumes ok: "side_ok render p out q inp" and m: "prWriting p = Some m" "sent \<longrightarrow> arrives"
  shows "side_ok render (write_done sent p) (out @ (if arrives then [m] else [])) q inp"
proof -
  have parts: "peer_ok render p" "peer_ok render q" "prServer q = (\<not> prServer p)" "flow_ok p q out" "flow_ok q p inp"
    "unrefused p q" "unrefused q p"
    using ok by (simp_all add: side_ok_def)
  have err: "prErr (write_done sent p) = prErr p \<or> prErr (write_done sent p) = Some TransportFailed" and reader: "prReader (write_done sent p) = prReader p"
    by (simp_all add: write_done_def end_peer_err)
  have "unrefused (write_done sent p) q"
    using parts(6) err unfolding unrefused_def by (auto simp: refusal_def)
  moreover have "unrefused q (write_done sent p)" by (rule unrefused_limits [OF parts(7)]) simp
  moreover have "flow_ok q (write_done sent p) inp" by (rule flow_ok_receiver [OF parts(5)]) (simp_all add: reader)
  ultimately show ?thesis using parts(1-3) flow_ok_write [OF parts(4) m] by (simp add: side_ok_def peer_ok_write_done)
qed

lemma side_ok_read:
  assumes exact: "exact_encoder render" and ok: "side_ok render p out q (m # inp)" and reader: "prReader p = Reading"
  shows "side_ok render (read_turn render noticed fallback why \<lparr>Kind = Text, Data = fst m\<rparr> p) out q inp \<and>
    prServer (read_turn render noticed fallback why \<lparr>Kind = Text, Data = fst m\<rparr> p) = prServer p"
proof -
  let ?p = "read_turn render noticed fallback why \<lparr>Kind = Text, Data = fst m\<rparr> p"
  have p: "peer_ok render p" and q: "peer_ok render q" and flows: "flow_ok p q out" "flow_ok q p (m # inp)"
    using ok by (simp_all add: side_ok_def)
  have "m \<in> set (prQueued q)" using flow_ok_next [OF flows(2) reader] by auto
  then have m: "message_ok render (prLimits q) (prCalls q) m" using peer_ok_parts(2) [OF q] by (simp add: frames_ok_def)
  have unrefused: "unrefused p q" "unrefused q p" "prServer q = (\<not> prServer p)" using ok by (simp_all add: side_ok_def)
  show ?thesis
  proof (cases "int (length (fst m)) \<le> maxFrame (prLimits p)")
    case True
    have "acceptable (snd m) p" using ok by (intro next_acceptable [OF q p _ flows(2) reader flows(1)]) (simp add: side_ok_def)
    then have quiet: "quiet (received (snd m) p) ?p"
      using m True by (intro read_accepts [OF exact p _ _ _ _ reader]) (simp_all add: message_ok_def)
    have r: "prReceived ?p = prReceived p @ [snd m]" "prLimits ?p = prLimits p" using quiet by (simp_all add: quiet_def)
    have "flow_ok (received (snd m) p) q out"
      using flows(1) by (simp add: flow_ok_def pipeline_def writer_ok_def)
    then have "flow_ok ?p q out" using quiet by (rule flow_ok_sender)
    moreover have "flow_ok q ?p inp" using flows(2) reader r(1) by (rule flow_ok_read)
    moreover have "unrefused (received (snd m) p) q" using unrefused(1) by (simp add: unrefused_def)
    then have "unrefused ?p q" using quiet by (rule unrefused_quiet)
    ultimately show ?thesis
      using quiet peer_ok_read [OF p reader] q unrefused unrefused_limits [OF unrefused(2) r(2)] by (simp add: side_ok_def quiet_def)
  next
    case False
    then have stop: "?p = stop_reader (refuse_peer FrameTooLarge ''duplex frame exceeds size limit'' p)" by (simp add: read_turn_def)
    have size: "maxFrame (prLimits p) < maxFrame (prLimits q)" using m False by (simp add: message_ok_def)
    have "prReceived ?p = prReceived p" "prReader ?p = ReaderDone" "prServer ?p = prServer p" "prLimits ?p = prLimits p"
      unfolding stop by (simp_all add: stop_reader_def fail_peer_is)
    moreover have "flow_ok ?p q out"
      using flows(1) unfolding stop by (simp add: flow_ok_def pipeline_def writer_ok_def stop_reader_def fail_peer_is)
    moreover have "unrefused ?p q"
      using unrefused(1) size unfolding stop by (auto simp: unrefused_def stop_reader_def fail_peer_is end_peer_err)
    ultimately show ?thesis
      using flow_ok_stopped [OF flows(2)] unrefused unrefused_limits [OF unrefused(2)] peer_ok_read [OF p reader] q by (simp add: side_ok_def)
  qed
qed

lemma link_ok_start: "link_start w \<Longrightarrow> link_ok render w"
proof -
  assume start: "link_start w"
  then obtain copts sopts where new: "newPeer ''client'' copts = Inr (lkClient w)" "newPeer ''server'' sopts = Inr (lkServer w)"
    by (auto simp: link_start_def)
  have "\<exists>l hs es. lkClient w = fresh_peer False l hs es" "\<exists>l hs es. lkServer w = fresh_peer True l hs es"
    using newPeer_fresh [OF new(1)] newPeer_fresh [OF new(2)] by auto
  then show ?thesis
    using start fresh_peer_ok
    by (auto simp: link_ok_def link_start_def flow_ok_def unrefused_def writer_ok_def pipeline_def sent_frames_def fresh_peer_def)
qed

lemma link_ok_move:
  assumes exact: "exact_encoder render" and ok: "link_ok render w" and move: "link_move render w w'"
  shows "link_ok render w'"
proof -
  have sides: "side_ok render (lkClient w) (lkUp w) (lkServer w) (lkDown w)" "side_ok render (lkServer w) (lkDown w) (lkClient w) (lkUp w)"
    "\<not> prServer (lkClient w)"
    using ok side_ok_turn by (auto simp: link_ok_sides)
  from move show ?thesis
  proof cases
    case (client_step p)
    then show ?thesis using side_ok_step [OF sides(1)] sides(3) by (simp add: link_ok_sides)
  next
    case (server_step p)
    then show ?thesis using side_ok_step [OF sides(2)] sides(3) side_ok_turn by (simp add: link_ok_sides)
  next
    case (client_write m sent arrives)
    then show ?thesis using side_ok_write [OF sides(1)] sides(3) by (simp add: link_ok_sides)
  next
    case (server_write m sent arrives)
    then show ?thesis using side_ok_write [OF sides(2)] sides(3) side_ok_turn by (simp add: link_ok_sides)
  next
    case (client_read m ms)
    then show ?thesis using side_ok_read [OF exact sides(1) [unfolded client_read(3)]] sides(3) by (simp add: link_ok_sides)
  next
    case (server_read m ms)
    then show ?thesis using side_ok_read [OF exact sides(2) [unfolded server_read(3)]] sides(3) side_ok_turn by (simp add: link_ok_sides)
  qed
qed

text \<open>With an encoder that writes what the frame holds, it holds of every state.\<close>

definition exactly :: "(profile_frame \<Rightarrow> string option) \<Rightarrow> link \<Rightarrow> bool" where
  "exactly render w \<longleftrightarrow> exact_encoder render \<longrightarrow> link_ok render w"

interpretation whole_link: invariant link_start "link_move render" "exactly render"
  by unfold_locales (auto simp: exactly_def link_ok_start intro: link_ok_move)

lemma link_reach: "exact_encoder render \<Longrightarrow> reachable link_start (link_move render) w \<Longrightarrow> link_ok render w"
  using whole_link.always by (simp add: exactly_def)

end
