(* ===== verification/Json_Print.thy ===== *)
theory Json_Print
  imports Scalar_Json
begin

text \<open>
  A printer of JSON values and its round trip through the parser: what the examples write stands
  for what an encoder writes, of which the code relies only on being read back.
\<close>

definition hex_lower :: "nat \<Rightarrow> char" where
  "hex_lower n = (if n < 10 then char_of (48 + n) else char_of (87 + n))"

definition quote_char :: "char \<Rightarrow> string" where
  "quote_char c =
     (if c = CHR 0x22 \<or> c = CHR 0x5C then [CHR 0x5C, c]
      else if (of_char c :: nat) < 0x20
      then [CHR 0x5C, CHR ''u'', CHR ''0'', CHR ''0'', hex_lower (of_char c div 16), hex_lower (of_char c mod 16)]
      else [c])"

definition quote_body :: "string \<Rightarrow> string" where
  "quote_body s = concat (map quote_char s)"

fun tokens_of :: "json \<Rightarrow> token list" and items_of :: "json list \<Rightarrow> token list" and
  members_of :: "(string \<times> json) list \<Rightarrow> token list" where
  "tokens_of (JString s) = [Quoted (quote_body s)]"
| "tokens_of (JArray vs) = OpenArray # (case vs of [] \<Rightarrow> [CloseArray] | v # rest \<Rightarrow> tokens_of v @ items_of rest)"
| "tokens_of (JObject ms) =
     OpenObject # (case ms of [] \<Rightarrow> [CloseObject] | (k, v) # rest \<Rightarrow> Quoted (quote_body k) # Colon # tokens_of v @ members_of rest)"
| "tokens_of v = [Atom v]"
| "items_of [] = [CloseArray]"
| "items_of (v # vs) = Comma # tokens_of v @ items_of vs"
| "members_of [] = [CloseObject]"
| "members_of ((k, v) # ms) = Comma # Quoted (quote_body k) # Colon # tokens_of v @ members_of ms"

definition token_text :: "token \<Rightarrow> string" where
  "token_text t =
     (case t of
        OpenObject \<Rightarrow> ''{'' | CloseObject \<Rightarrow> ''}'' | OpenArray \<Rightarrow> ''['' | CloseArray \<Rightarrow> '']'' | Colon \<Rightarrow> '':'' | Comma \<Rightarrow> '',''
      | Quoted b \<Rightarrow> CHR 0x22 # b @ [CHR 0x22]
      | Atom v \<Rightarrow> (case v of JNull \<Rightarrow> ''null'' | JBool b \<Rightarrow> (if b then ''true'' else ''false'') | JNumber n \<Rightarrow> n | _ \<Rightarrow> []))"

definition json_text :: "json \<Rightarrow> string" where
  "json_text v = concat (map token_text (tokens_of v))"

fun json_ok :: "json \<Rightarrow> bool" where
  "json_ok (JString s) = valid_utf8 s"
| "json_ok (JNumber n) = valid_number n"
| "json_ok (JArray vs) = (\<forall>v \<in> set vs. json_ok v)"
| "json_ok (JObject ms) = (\<forall>(k, v) \<in> set ms. valid_utf8 k \<and> json_ok v)"
| "json_ok _ = True"

fun json_depth :: "json \<Rightarrow> nat" where
  "json_depth (JArray vs) = Suc (Max (insert 0 (json_depth ` set vs)))"
| "json_depth (JObject ms) = Suc (Max (insert 0 ((\<lambda>(k, v). json_depth v) ` set ms)))"
| "json_depth _ = 0"

section \<open>Strings\<close>

lemma hex_value_lower: "n < 16 \<Longrightarrow> hex_value (hex_lower n) = Some n"
proof -
  assume "n < 16"
  then have "n \<in> {0, 1, 2, 3, 4, 5, 6, 7, 8, 9, 10, 11, 12, 13, 14, 15}" by simp presburger
  then show ?thesis by (auto simp: hex_lower_def hex_value_def is_digit_def less_eq_char_def)
qed

lemma hexUnit_four: "hexUnit (a # b # c # d # s) = hex_units 0 [a, b, c, d]"
  by (simp add: hexUnit_def)

lemma append_one: "append [c] = Cons c"
  by (simp add: fun_eq_iff)

lemma hexUnit_control:
  "(of_char c :: nat) < 0x20 \<Longrightarrow>
     hexUnit (CHR ''0'' # CHR ''0'' # hex_lower (of_char c div 16) # hex_lower (of_char c mod 16) # s) = Some (of_char c)"
proof -
  have z: "hex_value (CHR ''0'') = Some 0" by (simp add: hex_value_def is_digit_def less_eq_char_def)
  assume "(of_char c :: nat) < 0x20"
  then have "(of_char c div 16 :: nat) < 16" "(of_char c mod 16 :: nat) < 16" by auto
  then show ?thesis by (simp add: hexUnit_four z hex_value_lower)
qed

lemma scan_quote_char: "scan_body (quote_char c @ s) = map_option (apfst (append (quote_char c))) (scan_body s)"
proof (cases "(of_char c :: nat) < 0x20")
  case True
  then have "c \<noteq> CHR 0x22" "c \<noteq> CHR 0x5C" by auto
  then show ?thesis using True scan_body_unit hexUnit_control [OF True, of s] by (simp add: quote_char_def)
next
  case False
  then show ?thesis by (auto simp: quote_char_def scan_body_escape scan_body_plain plain_char_def append_one)
qed

lemma scan_quote_body: "scan_body (quote_body s @ CHR 0x22 # r) = Some (quote_body s, r)"
  by (induction s) (simp_all add: quote_body_def scan_quote_char)

lemma unquote_quote_char:
  assumes "(of_char c :: nat) < 0x80"
  shows "unquote exact (quote_char c @ s) = map_option (Cons c) (unquote exact s)"
proof (cases "(of_char c :: nat) < 0x20")
  case True
  then have "c \<noteq> CHR 0x22" "c \<noteq> CHR 0x5C" "\<not> high_surrogate (of_char c)" "\<not> low_surrogate (of_char c)" "encode_rune (of_char c) = [c]"
    by (auto simp: high_surrogate_def low_surrogate_def encode_rune_def)
  then show ?thesis
    using True unquote_unit [OF hexUnit_control [OF True, of s], of exact] by (simp add: quote_char_def append_one)
next
  case False
  have "decode_rune (c # s) = (int (of_char c), 1)" using assms by (rule decode_rune_ascii)
  moreover have "unescape CHR 0x22 = CHR 0x22" "unescape CHR 0x5C = CHR 0x5C" by (simp_all add: unescape_def)
  ultimately show ?thesis
    using False assms unquote_rune [of c s] by (auto simp: quote_char_def unquote_escape append_one)
qed

lemma quote_body_append: "quote_body (u @ v) = quote_body u @ quote_body v"
  by (simp add: quote_body_def)

lemma quote_body_high: "\<forall>c \<in> set s. 0x80 \<le> (of_char c :: nat) \<Longrightarrow> quote_body s = s"
  by (induction s) (auto simp: quote_body_def quote_char_def)

lemma quote_char_head: "(of_char c :: nat) < 0x80 \<Longrightarrow> \<exists>d r. quote_char c = d # r \<and> (of_char d :: nat) < 0x80"
  by (auto simp: quote_char_def)

text \<open>What a complete rune decodes to does not depend on what follows it.\<close>

lemma decode_rune_prefix:
  assumes "s \<noteq> []" "decode_rune s = (r, n)" "\<not> (r = rune_error \<and> n = 1)" "take n t = take n s" "n \<le> length t"
  shows "decode_rune t = (r, n)"
proof -
  obtain c0 s' where s: "s = c0 # s'" using assms(1) by (cases s) auto
  have "0 < n" using assms(1,2) decode_rune_size_prod by blast
  then obtain t' where t: "t = c0 # t'" using assms(4,5) s by (cases t; cases n) auto
  show ?thesis
    using assms(2-5)
    by (auto simp: s t decode_rune_def decode2_def decode3_def decode4_def Let_def split: if_splits list.splits)
qed

lemma unquote_quote_body: "valid_utf8 s \<Longrightarrow> unquote exact (quote_body s) = Some s"
proof (induction s rule: valid_utf8.induct)
  case (1 s)
  show ?case
  proof (cases s)
    case Nil
    then show ?thesis by (simp add: quote_body_def)
  next
    case (Cons c t)
    obtain r n where d: "decode_rune s = (r, n)" by force
    have v: "\<not> (r = rune_error \<and> n = 1)" "valid_utf8 (drop n s)"
      using "1.prems" d unfolding valid_utf8.simps [of s] by (simp_all add: Cons split: if_splits)
    have IH: "unquote exact (quote_body (drop n s)) = Some (drop n s)" using "1.IH" [OF _ d [symmetric] v] Cons by simp
    have n: "0 < n" "n \<le> length s" using decode_rune_size_prod [OF _ d] Cons by simp_all
    show ?thesis
    proof (cases "(of_char c :: nat) < 0x80")
      case True
      then have "n = 1" using d Cons by (simp add: decode_rune_ascii)
      then show ?thesis using IH Cons unquote_quote_char [OF True, of exact "quote_body t"] by (simp add: quote_body_def)
    next
      case False
      have high: "\<forall>c \<in> set (take n s). 0x80 \<le> (of_char c :: nat)"
      proof (cases "n = 1")
        case True
        then show ?thesis using False Cons by simp
      qed (use decode_rune_take [OF _ d v(1)] Cons in auto)
      have body: "quote_body s = take n s @ quote_body (drop n s)"
        using quote_body_append [of "take n s" "drop n s"] quote_body_high [OF high] by simp
      have "decode_rune (quote_body s) = (r, n)"
        using decode_rune_prefix [OF _ d v(1), of "quote_body s"] n Cons body by simp
      moreover obtain c' t' where q: "quote_body s = c # t'" using body n Cons by (cases n) auto
      moreover have "c \<noteq> CHR 0x5C" using False by auto
      ultimately have "unquote exact (quote_body s) = map_option (append (take n (quote_body s))) (unquote exact (drop n (quote_body s)))"
        using unquote_rune [of c t' r n exact] v(1) by auto
      also have "\<dots> = Some s" using body n IH by simp
      finally show ?thesis .
    qed
  qed
qed

section \<open>Values\<close>

lemma run_tokens_append: "run_tokens exact (ts @ us) s = (case run_tokens exact ts s of None \<Rightarrow> None | Some s' \<Rightarrow> run_tokens exact us s')"
  by (induction ts arbitrary: s) (auto split: option.splits)

lemma quoted_key: "valid_utf8 k \<Longrightarrow> key_token exact ms (Quoted (quote_body k)) st = Some (AfterKey ms k, st)"
  by (simp add: key_token_def unquote_quote_body)

lemma json_depth_array: "v \<in> set vs \<Longrightarrow> json_depth v < json_depth (JArray vs)"
  by (simp add: less_Suc_eq_le)

lemma json_depth_object: "(k, v) \<in> set ms \<Longrightarrow> json_depth v < json_depth (JObject ms)"
  by (auto simp: less_Suc_eq_le intro!: Max_ge)

text \<open>
  Where a value may stand, its tokens leave it read; so do the rest of an array and of an object.
\<close>

definition reads_value :: "bool \<Rightarrow> json \<Rightarrow> bool" where
  "reads_value exact v \<longleftrightarrow> (\<forall>e st us. e \<in> {Value, FirstValue} \<longrightarrow> int (length st + json_depth v) \<le> maxNestingDepth \<longrightarrow>
     run_tokens exact (tokens_of v @ us) (e, st) = run_tokens exact us (After v, st))"

lemma reads_valueD:
  "reads_value exact v \<Longrightarrow> e \<in> {Value, FirstValue} \<Longrightarrow> int (length st + json_depth v) \<le> maxNestingDepth \<Longrightarrow>
     run_tokens exact (tokens_of v @ us) (e, st) = run_tokens exact us (After v, st)"
  unfolding reads_value_def by blast

lemma reads_items:
  "\<forall>v \<in> set vs. reads_value exact v \<and> int (Suc (length st) + json_depth v) \<le> maxNestingDepth \<Longrightarrow>
     run_tokens exact (items_of vs @ us) (After w, InArray ws # st) = run_tokens exact us (After (JArray (ws @ w # vs)), st)"
proof (induction vs arbitrary: w ws)
  case Nil
  then show ?case by (simp add: token_step_def after_token_def)
next
  case (Cons v vs)
  then show ?case by (simp add: token_step_def after_token_def reads_valueD)
qed

lemma reads_members:
  "\<forall>(k, v) \<in> set ms. valid_utf8 k \<and> reads_value exact v \<and> int (Suc (length st) + json_depth v) \<le> maxNestingDepth \<Longrightarrow>
     run_tokens exact (members_of ms @ us) (After w, InObject ns j # st) = run_tokens exact us (After (JObject (ns @ (j, w) # ms)), st)"
proof (induction ms arbitrary: w ns j)
  case Nil
  then show ?case by (simp add: token_step_def after_token_def)
next
  case (Cons m ms)
  obtain k v where m: "m = (k, v)" by force
  then show ?case using Cons by (simp add: token_step_def after_token_def quoted_key reads_valueD)
qed

lemma reads_array:
  assumes "\<forall>v \<in> set vs. reads_value exact v"
  shows "reads_value exact (JArray vs)"
  unfolding reads_value_def
proof (intro allI impI)
  fix e :: expect and st :: "nesting list" and us :: "token list"
  assume e: "e \<in> {Value, FirstValue}" and depth: "int (length st + json_depth (JArray vs)) \<le> maxNestingDepth"
  have inner: "int (Suc (length st) + json_depth v) \<le> maxNestingDepth" if "v \<in> set vs" for v
    using json_depth_array [OF that] depth by linarith
  have opened: "token_step exact OpenArray (e, st) = Some (FirstValue, InArray [] # st)"
    using e depth by (auto simp: token_step_def value_token_def open_context_def)
  show "run_tokens exact (tokens_of (JArray vs) @ us) (e, st) = run_tokens exact us (After (JArray vs), st)"
  proof (cases vs)
    case Nil
    then show ?thesis using opened by (simp add: token_step_def)
  next
    case (Cons v rest)
    have "run_tokens exact (tokens_of v @ items_of rest @ us) (FirstValue, InArray [] # st)
        = run_tokens exact (items_of rest @ us) (After v, InArray [] # st)"
      using assms Cons inner [of v] by (intro reads_valueD) auto
    also have "\<dots> = run_tokens exact us (After (JArray vs), st)"
      using reads_items [of rest exact st us v "[]"] assms Cons inner by simp
    finally show ?thesis using opened Cons by simp
  qed
qed

lemma reads_object:
  assumes "\<forall>(k, v) \<in> set ms. valid_utf8 k \<and> reads_value exact v"
  shows "reads_value exact (JObject ms)"
  unfolding reads_value_def
proof (intro allI impI)
  fix e :: expect and st :: "nesting list" and us :: "token list"
  assume e: "e \<in> {Value, FirstValue}" and depth: "int (length st + json_depth (JObject ms)) \<le> maxNestingDepth"
  have inner: "int (Suc (length st) + json_depth v) \<le> maxNestingDepth" if "(k, v) \<in> set ms" for k v
    using json_depth_object [OF that] depth by linarith
  have opened: "token_step exact OpenObject (e, st) = Some (FirstKey, InObject [] [] # st)"
    using e depth by (auto simp: token_step_def value_token_def open_context_def)
  show "run_tokens exact (tokens_of (JObject ms) @ us) (e, st) = run_tokens exact us (After (JObject ms), st)"
  proof (cases ms)
    case Nil
    then show ?thesis using opened by (simp add: token_step_def)
  next
    case (Cons m rest)
    obtain k v where m: "m = (k, v)" by force
    have "run_tokens exact (tokens_of v @ members_of rest @ us) (Value, InObject [] k # st)
        = run_tokens exact (members_of rest @ us) (After v, InObject [] k # st)"
      using assms Cons m inner [of k v] by (intro reads_valueD) auto
    also have "\<dots> = run_tokens exact us (After (JObject ms), st)"
    proof -
      have "\<forall>(k, v) \<in> set rest. valid_utf8 k \<and> reads_value exact v \<and> int (Suc (length st) + json_depth v) \<le> maxNestingDepth"
        using assms Cons inner by fastforce
      from reads_members [OF this, of us v "[]" k] show ?thesis using Cons m by simp
    qed
    finally have "run_tokens exact (tokens_of v @ members_of rest @ us) (Value, InObject [] k # st) = run_tokens exact us (After (JObject ms), st)" .
    moreover have "token_step exact (Quoted (quote_body k)) (FirstKey, InObject [] [] # st) = Some (AfterKey [] k, InObject [] [] # st)"
      "token_step exact Colon (AfterKey [] k, InObject [] [] # st) = Some (Value, InObject [] k # st)"
      using assms Cons m quoted_key [of k] by (simp_all add: token_step_def)
    ultimately show ?thesis using opened Cons m by simp
  qed
qed

lemma reads_any: "json_ok v \<Longrightarrow> reads_value exact v"
proof (induction v)
  case (JArray vs)
  then show ?case by (intro reads_array) auto
next
  case (JObject ms)
  then show ?case by (intro reads_object) fastforce
qed (auto simp: reads_value_def token_step_def value_token_def unquote_quote_body)

section \<open>Texts\<close>

definition is_atom :: "token \<Rightarrow> bool" where
  "is_atom t \<longleftrightarrow> (case t of Atom v \<Rightarrow> True | _ \<Rightarrow> False)"

definition token_ok :: "token \<Rightarrow> bool" where
  "token_ok t \<longleftrightarrow> (case t of
     Atom v \<Rightarrow> v = JNull \<or> (\<exists>b. v = JBool b) \<or> (\<exists>n. v = JNumber n \<and> valid_number n)
   | Quoted b \<Rightarrow> \<exists>s. b = quote_body s
   | _ \<Rightarrow> True)"

definition after_value :: "token list \<Rightarrow> bool" where
  "after_value ts \<longleftrightarrow> (case ts of [] \<Rightarrow> True | t # _ \<Rightarrow> \<not> is_atom t)"

fun spaced :: "token list \<Rightarrow> bool" where
  "spaced [] = True"
| "spaced (t # ts) \<longleftrightarrow> token_ok t \<and> (is_atom t \<longrightarrow> after_value ts) \<and> spaced ts"

lemma number_exponent_chars: "number_exponent s \<Longrightarrow> list_all atom_char s"
  by (auto simp: number_exponent_def Let_def list_all_iff atom_char_def is_lower_def less_eq_char_def split: list.splits if_splits)

lemma digits_chars: "list_all atom_char (dropWhile is_digit s) \<Longrightarrow> list_all atom_char s"
  by (induction s) (auto simp: atom_char_def split: if_splits)

lemma number_fraction_chars: "number_fraction s \<Longrightarrow> list_all atom_char s"
  by (auto simp: number_fraction_def atom_char_def split: list.splits if_splits dest: number_exponent_chars intro: digits_chars)

lemma valid_number_chars: "valid_number n \<Longrightarrow> list_all atom_char n"
  by (auto simp: valid_number_def Let_def atom_char_def split: list.splits if_splits
      dest!: number_fraction_chars dest: digits_chars simp: is_digit_def)

lemma valid_number_atom: "valid_number n \<Longrightarrow> n \<noteq> [] \<and> atom_of n = Some (JNumber n)"
  by (auto simp: atom_of_def valid_number_def is_digit_def less_eq_char_def)

lemma takeWhile_stop: "list_all P w \<Longrightarrow> (r = [] \<or> \<not> P (hd r)) \<Longrightarrow> takeWhile P (w @ r) = w \<and> dropWhile P (w @ r) = r"
  by (induction w) (cases r; auto)+

lemma lex_atom:
  assumes "w \<noteq> []" "list_all atom_char w" "atom_of w = Some v" "r = [] \<or> \<not> atom_char (hd r)"
  shows "lex (w @ r) = map_option (Cons (Atom v)) (lex r)"
proof -
  obtain c t where w: "w = c # t" using assms(1) by (cases w) auto
  have c: "atom_char c" using assms(2) w by simp
  then have "\<not> json_space c" "c \<noteq> CHR 0x22" "mark_of c = None"
    by (auto simp: json_space_def mark_of_def atom_char_def is_digit_def is_lower_def less_eq_char_def)
  then show ?thesis
    using assms w c takeWhile_stop [of atom_char t r] unfolding w append_Cons lex.simps [of "c # t @ r"] by simp
qed

lemma lex_mark: "mark_of c = Some m \<Longrightarrow> lex (c # t) = map_option (Cons m) (lex t)"
  by (auto simp: lex.simps [of "c # t"] mark_of_def json_space_def split: if_splits)

lemma token_text_head: "token_ok t \<Longrightarrow> \<not> is_atom t \<Longrightarrow> \<exists>c r. token_text t = c # r \<and> \<not> atom_char c"
  by (cases t) (auto simp: token_text_def is_atom_def atom_char_def is_digit_def is_lower_def less_eq_char_def)

lemma atom_text:
  assumes "token_ok (Atom v)"
  shows "token_text (Atom v) \<noteq> [] \<and> list_all atom_char (token_text (Atom v)) \<and> atom_of (token_text (Atom v)) = Some v"
proof -
  consider "v = JNull" | b where "v = JBool b" | n where "v = JNumber n" "valid_number n"
    using assms by (auto simp: token_ok_def)
  then show ?thesis
  proof cases
    case 3
    then show ?thesis using valid_number_chars valid_number_atom by (simp add: token_text_def)
  next
    case (2 b)
    then show ?thesis by (cases b) (simp_all add: token_text_def atom_of_def atom_char_def is_lower_def less_eq_char_def)
  qed (simp add: token_text_def atom_of_def atom_char_def is_lower_def less_eq_char_def)
qed

lemma mark_text: "t \<in> {OpenObject, CloseObject, OpenArray, CloseArray, Colon, Comma} \<Longrightarrow> \<exists>c. token_text t = [c] \<and> mark_of c = Some t"
  by (elim insertE emptyE) (simp_all add: token_text_def mark_of_def)

lemma lex_text: "spaced ts \<Longrightarrow> lex (concat (map token_text ts)) = Some ts"
proof (induction ts)
  case Nil
  then show ?case by (simp add: lex.simps)
next
  case (Cons t ts)
  let ?r = "concat (map token_text ts)"
  have IH: "lex ?r = Some ts" using Cons by simp
  show ?case
  proof (cases t)
    case (Quoted b)
    then obtain x where "b = quote_body x" using Cons.prems by (auto simp: token_ok_def)
    then have "token_text t @ ?r = CHR 0x22 # quote_body x @ CHR 0x22 # ?r" using Quoted by (simp add: token_text_def)
    then show ?thesis
      using Quoted IH scan_quote_body [of x ?r] \<open>b = quote_body x\<close> lex.simps [of "CHR 0x22 # quote_body x @ CHR 0x22 # ?r"]
      by (simp add: json_space_def)
  next
    case (Atom v)
    have stop: "?r = [] \<or> \<not> atom_char (hd ?r)"
    proof (cases ts)
      case (Cons u us)
      then show ?thesis using Cons.prems Atom token_text_head [of u] by (auto simp: after_value_def is_atom_def)
    qed simp
    have w: "token_text t \<noteq> []" "list_all atom_char (token_text t)" "atom_of (token_text t) = Some v"
      using Cons.prems Atom atom_text [of v] by simp_all
    show ?thesis using lex_atom [OF w stop] IH Atom by simp
  qed (use IH lex_mark mark_text [of t] in auto)
qed

lemma spaced_tokens:
  "json_ok v \<Longrightarrow> spaced us \<Longrightarrow> after_value us \<Longrightarrow> spaced (tokens_of v @ us)"
  "\<forall>v \<in> set vs. json_ok v \<Longrightarrow> spaced us \<Longrightarrow> spaced (items_of vs @ us) \<and> after_value (items_of vs @ us)"
  "\<forall>(k, v) \<in> set ms. json_ok v \<Longrightarrow> spaced us \<Longrightarrow> spaced (members_of ms @ us) \<and> after_value (members_of ms @ us)"
proof (induction v and vs and ms arbitrary: us and us and us rule: tokens_of_items_of_members_of.induct)
  case (2 vs)
  then show ?case by (cases vs) (auto simp: token_ok_def is_atom_def)
next
  case (3 ms)
  show ?case
  proof (cases ms)
    case Nil
    then show ?thesis using 3 by (simp add: token_ok_def is_atom_def)
  next
    case (Cons m rest)
    obtain k v where m: "m = (k, v)" by force
    have "spaced (members_of rest @ us) \<and> after_value (members_of rest @ us)"
      using 3 Cons m by (intro "3.IH"(2)) auto
    moreover from this have "spaced (tokens_of v @ members_of rest @ us)" using 3 Cons m by (intro "3.IH"(1)) auto
    ultimately show ?thesis using Cons m by (auto simp: token_ok_def is_atom_def)
  qed
qed (auto simp: token_ok_def is_atom_def after_value_def)

lemma parse_json_text:
  assumes "json_ok v" "int (json_depth v) \<le> maxNestingDepth"
  shows "parse_json exact (json_text v) = Some v"
proof -
  have "lex (json_text v) = Some (tokens_of v)"
    unfolding json_text_def using lex_text spaced_tokens(1) [OF assms(1), of "[]"] by (simp add: after_value_def)
  moreover have "run_tokens exact (tokens_of v) (Value, []) = Some (After v, [])"
    using reads_valueD [OF reads_any [OF assms(1)], of Value "[]" exact "[]"] assms(2) by simp
  ultimately show ?thesis by (simp add: parse_json_def)
qed

end
