(* ===== verification/Peer_Sample.thy ===== *)
theory Peer_Sample
  imports Peer_Flow Json_Print
begin

text \<open>
  A run of two peers, step by step: a call, an event, both read, the answer and its reply.  The
  properties of \<open>Peer_Spec\<close> are applied to it.
\<close>

section \<open>An encoder and the states of the run\<close>

text \<open>The encoder: the printer of \<open>Json_Print\<close>, where it writes a text that is read back.\<close>

definition sample_render :: "profile_frame \<Rightarrow> string option" where
  "sample_render f = (let v = JObject (frame_members f) in if json_ok v \<and> int (json_depth v) \<le> maxNestingDepth then Some (json_text v) else None)"

lemma sample_exact: "exact_encoder sample_render"
  by (auto simp: exact_encoder_def sample_render_def Let_def parse_json_text split: if_splits)

definition sample_message :: "profile_frame \<Rightarrow> queued_frame" where
  "sample_message f = (the (sample_render f), f)"

definition sample_options :: peer_options where
  "sample_options = \<lparr>opHandlers = [], opEvents = [], opMaxHandlers = 1, opMaxPending = 2, opQueue = 2, opMaxFrame = 1000,
     opRequestTimeout = 0, opWriteTimeout = 0\<rparr>"

definition sample_limits :: limits where
  "sample_limits = \<lparr>maxHandlers = 1, maxPending = 2, queueCap = 2, maxFrame = 1000\<rparr>"

definition sample_call :: peer_call where
  "sample_call = \<lparr>clID = ''c:1'', clSerial = 1, clMethod = ''echo'', clParams = JNull, clTrace = ([], []), clMeta = None,
     clImmediate = False, clCtx = None, clPublished = False, clReply = None, clCompleted = False, clOutcome = None\<rparr>"

definition sample_event :: profile_frame where
  "sample_event = event_frame ''tick'' JNull ([], []) []"

definition sample_answer :: profile_frame where
  "sample_answer = response_frame ''c:1'' ([], []) (Inr (JBool True))"

definition sample_request :: peer_request where
  "sample_request = \<lparr>rqID = ''c:1'', rqMethod = ''echo'', rqParams = JNull, rqTrace = ([], []), rqMeta = None, rqCtx = None,
     rqBody = BodyRunning, rqAnswer = Unanswered\<rparr>"

definition client0 :: peer where "client0 = fresh_peer False sample_limits [] []"
definition server0 :: peer where "server0 = fresh_peer True sample_limits [] []"

definition client1 :: peer where
  "client1 = client0\<lparr>prNext := 1, prPublishing := Some (0, False), prCalls := [sample_call], prPending := [(''c:1'', 0)]\<rparr>"

definition client2 :: peer where
  "client2 = client1\<lparr>prPublishing := None, prCalls := [sample_call\<lparr>clPublished := True\<rparr>], prOutputs := [sample_message (request_frame sample_call)],
     prQueued := [sample_message (request_frame sample_call)]\<rparr>"

definition client3 :: peer where
  "client3 = client2\<lparr>prOutputs := [sample_message (request_frame sample_call), sample_message sample_event],
     prQueued := [sample_message (request_frame sample_call), sample_message sample_event]\<rparr>"

definition client4 :: peer where
  "client4 = client3\<lparr>prOutputs := []\<rparr>"

definition server1 :: peer where
  "server1 = server0\<lparr>prAdmitted := 1, prSlots := 1, prIncoming := [(''c:1'', 0)], prRequests := [sample_request], prReceived := [request_frame sample_call]\<rparr>"

definition server2 :: peer where
  "server2 = server1\<lparr>prEvents := [event_of sample_event], prReceived := [request_frame sample_call, sample_event]\<rparr>"

definition server3 :: peer where
  "server3 = server2\<lparr>prRequests := [sample_request\<lparr>rqBody := BodyReturned, rqAnswer := Enqueueing sample_answer False\<rparr>]\<rparr>"

definition server4 :: peer where
  "server4 = server2\<lparr>prRequests := [sample_request\<lparr>rqBody := BodyReturned, rqAnswer := Answered\<rparr>],
     prOutputs := [sample_message sample_answer], prQueued := [sample_message sample_answer]\<rparr>"

definition server5 :: peer where
  "server5 = server4\<lparr>prOutputs := []\<rparr>"

definition server6 :: peer where
  "server6 = server5\<lparr>prEvents := [], prHandling := True, prDelivered := [(event_of sample_event, False, [])]\<rparr>"

definition client5 :: peer where
  "client5 = client4\<lparr>prPending := [], prCalls := [sample_call\<lparr>clPublished := True, clReply := Some (Inr (JBool True))\<rparr>], prReceived := [sample_answer]\<rparr>"

definition client6 :: peer where
  "client6 = client4\<lparr>prPending := [], prCalls := [sample_call\<lparr>clPublished := True, clReply := Some (Inr (JBool True)), clCompleted := True,
     clOutcome := Some (Result (JBool True))\<rparr>], prReceived := [sample_answer]\<rparr>"

section \<open>The steps\<close>

lemma sample_new: "newPeer ''client'' sample_options = Inr client0" "newPeer ''server'' sample_options = Inr server0"
  by code_simp+

lemma sample_begin: "beginCall False ''echo'' (Some JNull) ([], []) [] False client0 = (Inr 0, client1)"
  by code_simp

lemma sample_publish: "publish_first sample_render False 0 client1 = (Inr True, client2)"
  by code_simp

lemma sample_emit: "emit_first sample_render False False ''tick'' (Some JNull) ([], []) [] False client2 = (Inr True, client3)"
  by code_simp

lemma sample_read_request:
  "read_turn sample_render False True [] \<lparr>Kind = Text, Data = fst (sample_message (request_frame sample_call))\<rparr> server0 = server1"
  by code_simp

lemma sample_read_event:
  "read_turn sample_render False True [] \<lparr>Kind = Text, Data = fst (sample_message sample_event)\<rparr> server1 = server2"
  by code_simp

lemma sample_body: "body_returns 0 (Success (Some (JBool True))) server2 = server3"
  by code_simp

lemma sample_answer_queued: "answer_first sample_render False 0 sample_answer False server3 = server4"
  by code_simp

lemma sample_read_answer:
  "read_turn sample_render False True [] \<lparr>Kind = Text, Data = fst (sample_message sample_answer)\<rparr> client4 = client5"
  by code_simp

lemma sample_await: "await_turn sample_render False (ReplyReady True) 0 client5 = Some client6"
  by code_simp

lemma sample_take: "event_take False server5 = server6"
  by code_simp

section \<open>The run\<close>

lemma reach_client:
  "reachable link_start (link_move render) \<lparr>lkClient = c, lkServer = s, lkUp = u, lkDown = d\<rparr> \<Longrightarrow> peer_step render c c' \<Longrightarrow>
     reachable link_start (link_move render) \<lparr>lkClient = c', lkServer = s, lkUp = u, lkDown = d\<rparr>"
  using client_step [of render "\<lparr>lkClient = c, lkServer = s, lkUp = u, lkDown = d\<rparr>" c'] by (auto intro: reachable_step)

lemma reach_server:
  "reachable link_start (link_move render) \<lparr>lkClient = c, lkServer = s, lkUp = u, lkDown = d\<rparr> \<Longrightarrow> peer_step render s s' \<Longrightarrow>
     reachable link_start (link_move render) \<lparr>lkClient = c, lkServer = s', lkUp = u, lkDown = d\<rparr>"
  using server_step [of render "\<lparr>lkClient = c, lkServer = s, lkUp = u, lkDown = d\<rparr>" s'] by (auto intro: reachable_step)

lemma reach_client_sends:
  assumes "reachable link_start (link_move render) \<lparr>lkClient = c, lkServer = s, lkUp = u, lkDown = d\<rparr>"
    and "prWriter c" "prWriting c = None" "prOutputs c = m # ms"
  shows "reachable link_start (link_move render) \<lparr>lkClient = c\<lparr>prOutputs := ms\<rparr>, lkServer = s, lkUp = u @ [m], lkDown = d\<rparr>"
proof -
  have same: "c\<lparr>prOutputs := ms, prWriting := None\<rparr> = c\<lparr>prOutputs := ms\<rparr>" using assms(3) by (cases c) simp
  have "peer_step render c (c\<lparr>prOutputs := ms, prWriting := Some m\<rparr>)"
    using step_write [OF assms(2,3), of render] assms(4) by (simp add: write_take_def)
  from reachable_step [OF reach_client [OF assms(1) this] client_write [where m = m and sent = True and arrives = True]]
  have "reachable link_start (link_move render) \<lparr>lkClient = c\<lparr>prOutputs := ms, prWriting := None\<rparr>, lkServer = s, lkUp = u @ [m], lkDown = d\<rparr>" by (simp add: write_done_def)
  then show ?thesis using same by simp
qed

lemma reach_server_sends:
  assumes "reachable link_start (link_move render) \<lparr>lkClient = c, lkServer = s, lkUp = u, lkDown = d\<rparr>"
    and "prWriter s" "prWriting s = None" "prOutputs s = m # ms"
  shows "reachable link_start (link_move render) \<lparr>lkClient = c, lkServer = s\<lparr>prOutputs := ms\<rparr>, lkUp = u, lkDown = d @ [m]\<rparr>"
proof -
  have same: "s\<lparr>prOutputs := ms, prWriting := None\<rparr> = s\<lparr>prOutputs := ms\<rparr>" using assms(3) by (cases s) simp
  have "peer_step render s (s\<lparr>prOutputs := ms, prWriting := Some m\<rparr>)"
    using step_write [OF assms(2,3), of render] assms(4) by (simp add: write_take_def)
  from reachable_step [OF reach_server [OF assms(1) this] server_write [where m = m and sent = True and arrives = True]]
  have "reachable link_start (link_move render) \<lparr>lkClient = c, lkServer = s\<lparr>prOutputs := ms, prWriting := None\<rparr>, lkUp = u, lkDown = d @ [m]\<rparr>" by (simp add: write_done_def)
  then show ?thesis using same by simp
qed

lemma reach_server_reads:
  assumes "reachable link_start (link_move render) \<lparr>lkClient = c, lkServer = s, lkUp = m # u, lkDown = d\<rparr>" and "prReader s = Reading"
    and "read_turn render noticed fallback why \<lparr>Kind = Text, Data = fst m\<rparr> s = s'"
  shows "reachable link_start (link_move render) \<lparr>lkClient = c, lkServer = s', lkUp = u, lkDown = d\<rparr>"
  using reachable_step [OF assms(1) server_read [of "\<lparr>lkClient = c, lkServer = s, lkUp = m # u, lkDown = d\<rparr>" m u render noticed fallback why]] assms(2,3)
  by simp

lemma reach_client_reads:
  assumes "reachable link_start (link_move render) \<lparr>lkClient = c, lkServer = s, lkUp = u, lkDown = m # d\<rparr>" and "prReader c = Reading"
    and "read_turn render noticed fallback why \<lparr>Kind = Text, Data = fst m\<rparr> c = c'"
  shows "reachable link_start (link_move render) \<lparr>lkClient = c', lkServer = s, lkUp = u, lkDown = d\<rparr>"
  using reachable_step [OF assms(1) client_read [of "\<lparr>lkClient = c, lkServer = s, lkUp = u, lkDown = m # d\<rparr>" m d render noticed fallback why]] assms(2,3)
  by simp

lemmas sample_states = client1_def client2_def client3_def client4_def client5_def server1_def server2_def server3_def server4_def server5_def
  client0_def server0_def fresh_peer_def

lemma sample_trace: "trace_ok ([], [])"
  by (simp add: trace_ok_def)

lemma sample_client_steps:
  "peer_step sample_render client0 client1" "peer_step sample_render client1 client2" "peer_step sample_render client2 client3"
  "peer_step sample_render client5 client6"
proof -
  show "peer_step sample_render client0 client1"
    by (rule step_begin [OF _ sample_trace _ sample_begin]) (simp_all add: sample_states)
  show "peer_step sample_render client1 client2" by (rule step_publish [OF _ sample_publish]) (simp add: sample_states)
  show "peer_step sample_render client2 client3" by (rule step_emit [OF sample_trace _ sample_emit]) simp
  show "peer_step sample_render client5 client6" by (rule step_await [OF _ _ _ sample_await]) (simp_all add: sample_states sample_call_def)
qed

lemma sample_server_steps:
  "peer_step sample_render server2 server3" "peer_step sample_render server3 server4" "peer_step sample_render server5 server6"
proof -
  show "peer_step sample_render server2 server3"
    unfolding sample_body [symmetric] by (rule step_body) (simp_all add: sample_states sample_request_def)
  show "peer_step sample_render server3 server4"
    unfolding sample_answer_queued [symmetric] by (rule step_answer) (simp_all add: sample_states)
  show "peer_step sample_render server5 server6"
    unfolding sample_take [symmetric] by (rule step_event) (simp add: sample_states)
qed

definition sample_end :: link where
  "sample_end = \<lparr>lkClient = client6, lkServer = server6, lkUp = [], lkDown = []\<rparr>"

lemma sample_reached: "reachable link_start (link_move sample_render) sample_end"
proof -
  let ?R = "reachable link_start (link_move sample_render)"
  let ?m1 = "sample_message (request_frame sample_call)" and ?m2 = "sample_message sample_event" and ?m3 = "sample_message sample_answer"
  have "link_start \<lparr>lkClient = client0, lkServer = server0, lkUp = [], lkDown = []\<rparr>"
    using sample_new by (auto simp: link_start_def client0_def server0_def fresh_peer_def)
  then have "?R \<lparr>lkClient = client0, lkServer = server0, lkUp = [], lkDown = []\<rparr>" by (rule reachable_start)
  then have "?R \<lparr>lkClient = client3, lkServer = server0, lkUp = [], lkDown = []\<rparr>"
    using sample_client_steps reach_client by blast
  from reach_client_sends [OF this, of ?m1 "[?m2]"]
  have "?R \<lparr>lkClient = client3\<lparr>prOutputs := [?m2]\<rparr>, lkServer = server0, lkUp = [?m1], lkDown = []\<rparr>" by (simp add: sample_states)
  from reach_client_sends [OF this, of ?m2 "[]"]
  have "?R \<lparr>lkClient = client4, lkServer = server0, lkUp = [?m1, ?m2], lkDown = []\<rparr>" by (simp add: sample_states)
  from reach_server_reads [OF this _ sample_read_request]
  have "?R \<lparr>lkClient = client4, lkServer = server1, lkUp = [?m2], lkDown = []\<rparr>" by (simp add: server0_def fresh_peer_def)
  from reach_server_reads [OF this _ sample_read_event]
  have "?R \<lparr>lkClient = client4, lkServer = server2, lkUp = [], lkDown = []\<rparr>" by (simp add: server1_def server0_def fresh_peer_def)
  then have "?R \<lparr>lkClient = client4, lkServer = server4, lkUp = [], lkDown = []\<rparr>"
    using sample_server_steps reach_server by blast
  from reach_server_sends [OF this, of ?m3 "[]"]
  have "?R \<lparr>lkClient = client4, lkServer = server5, lkUp = [], lkDown = [?m3]\<rparr>" by (simp add: sample_states)
  from reach_client_reads [OF this _ sample_read_answer]
  have "?R \<lparr>lkClient = client5, lkServer = server5, lkUp = [], lkDown = []\<rparr>" by (simp add: client4_def client3_def client2_def client1_def client0_def fresh_peer_def)
  then show ?thesis
    unfolding sample_end_def using sample_client_steps(4) sample_server_steps(3) reach_client reach_server by blast
qed

text \<open>The server of it on its own.\<close>

lemma sample_peer_reached: "reachable peer_start (peer_move sample_render) server4"
proof -
  let ?R = "reachable peer_start (peer_move sample_render)"
  have "peer_start server0" unfolding peer_start_def using sample_new(2) by blast
  then have start: "?R server0" by (rule reachable_start)
  have "peer_move sample_render server0 server1"
    unfolding sample_read_request [symmetric] by (rule move_read) (simp add: server0_def fresh_peer_def)
  moreover have "peer_move sample_render server1 server2"
    unfolding sample_read_event [symmetric] by (rule move_read) (simp add: server1_def server0_def fresh_peer_def)
  ultimately have "?R server2" using start reachable_step by metis
  then show ?thesis using sample_server_steps(1,2) move_step reachable_step by metis
qed

text \<open>A server with a limit of its own, less than the client's, and the request it refuses.\<close>

definition small_server :: peer where
  "small_server = fresh_peer True (sample_limits\<lparr>maxFrame := 10\<rparr>) [] []"

definition refused_server :: peer where
  "refused_server = read_turn sample_render False True [] \<lparr>Kind = Text, Data = fst (sample_message (request_frame sample_call))\<rparr> small_server"

lemma small_new: "newPeer ''server'' (sample_options\<lparr>opMaxFrame := 10\<rparr>) = Inr small_server"
  by code_simp

lemma refused_server_err: "prErr refused_server = Some FrameTooLarge"
  by code_simp

definition refused_end :: link where
  "refused_end = \<lparr>lkClient = client2\<lparr>prOutputs := []\<rparr>, lkServer = refused_server, lkUp = [], lkDown = []\<rparr>"

lemma refused_reached: "reachable link_start (link_move sample_render) refused_end"
proof -
  let ?R = "reachable link_start (link_move sample_render)"
  let ?m = "sample_message (request_frame sample_call)"
  have "link_start \<lparr>lkClient = client0, lkServer = small_server, lkUp = [], lkDown = []\<rparr>"
    using sample_new(1) small_new by (auto simp: link_start_def)
  then have "?R \<lparr>lkClient = client0, lkServer = small_server, lkUp = [], lkDown = []\<rparr>" by (rule reachable_start)
  then have "?R \<lparr>lkClient = client2, lkServer = small_server, lkUp = [], lkDown = []\<rparr>"
    using sample_client_steps(1,2) reach_client by blast
  from reach_client_sends [OF this, of ?m "[]"]
  have "?R \<lparr>lkClient = client2\<lparr>prOutputs := []\<rparr>, lkServer = small_server, lkUp = [?m], lkDown = []\<rparr>" by (simp add: sample_states)
  from reach_server_reads [OF this _ refused_server_def [symmetric]]
  show ?thesis unfolding refused_end_def by (simp add: small_server_def fresh_peer_def)
qed

end
