(* ===== verification/Peer_Text.thy ===== *)
theory Peer_Text
  imports Peer_Requests Json_Print
begin

text \<open>
  The reason of a close frame is cut on a rune.
\<close>

section \<open>Close reasons\<close>

lemma rune_width: "decode_rune s = (r, n) \<Longrightarrow> n \<le> 4"
  by (auto simp: decode_rune_def decode2_def decode3_def decode4_def Let_def split: if_splits list.splits)

lemma valid_cut: "valid_utf8 s \<Longrightarrow> k \<le> length s \<Longrightarrow> \<exists>j. j \<le> k \<and> k \<le> j + 3 \<and> valid_utf8 (take j s)"
proof (induction s arbitrary: k rule: valid_utf8.induct)
  case (1 s)
  show ?case
  proof (cases "s = []")
    case True
    then show ?thesis using "1.prems" by simp
  next
    case ne: False
    obtain r n where d: "decode_rune s = (r, n)" by force
    have v: "\<not> (r = rune_error \<and> n = 1)" "valid_utf8 (drop n s)"
      using "1.prems"(1) ne d by (simp_all add: valid_utf8.simps [of s] split: if_splits)
    show ?thesis
    proof (cases "k < n")
      case True
      then show ?thesis using rune_width [OF d] by (intro exI [of _ 0]) simp
    next
      case False
      have "\<exists>j. j \<le> k - n \<and> k - n \<le> j + 3 \<and> valid_utf8 (take j (drop n s))"
        using "1.prems"(2) by (intro "1.IH" [OF ne d [symmetric] v]) simp
      then obtain j where j: "j \<le> k - n" "k - n \<le> j + 3" "valid_utf8 (take j (drop n s))" by blast
      have "decode_rune (take (n + j) s) = (r, n)"
        using decode_rune_size_prod [OF ne d] by (intro decode_rune_prefix [OF ne d v(1)]) simp_all
      moreover have "take (n + j) s \<noteq> []" using ne decode_rune_size_prod [OF ne d] by simp
      ultimately have "valid_utf8 (take (n + j) s)"
        using v(1) j(3) by (subst valid_utf8.simps) (simp add: drop_take)
      moreover have "n + j \<le> k" "k \<le> n + j + 3" using j False by arith+
      ultimately show ?thesis by blast
    qed
  qed
qed

lemma trim_reason_is:
  "\<exists>j \<le> n. trim_reason n s = take j s \<and> valid_utf8 (take j s) \<and> (\<forall>i. j < i \<and> i \<le> n \<longrightarrow> \<not> valid_utf8 (take i s))"
proof (induction n)
  case (Suc n)
  then obtain j where "j \<le> n" "trim_reason n s = take j s" "valid_utf8 (take j s)" "\<forall>i. j < i \<and> i \<le> n \<longrightarrow> \<not> valid_utf8 (take i s)"
    by blast
  note j = this
  show ?case
  proof (cases "valid_utf8 (take (Suc n) s)")
    case True
    then show ?thesis by (intro exI [of _ "Suc n"] conjI allI impI) auto
  next
    case False
    then show ?thesis using j by (intro exI [of _ j]) (auto simp: le_Suc_eq)
  qed
qed simp

lemma closeReason_cut:
  assumes "valid_utf8 reason" "123 < length reason"
  shows "120 \<le> length (closeReason reason)" "length (closeReason reason) \<le> 123" "valid_utf8 (closeReason reason)"
    "prefix (closeReason reason) reason"
    "length (closeReason reason) < i \<and> i \<le> 123 \<longrightarrow> \<not> valid_utf8 (take i reason)"
proof -
  obtain j where j: "j \<le> 123" "trim_reason 123 reason = take j reason" "valid_utf8 (take j reason)"
    "\<forall>i. j < i \<and> i \<le> 123 \<longrightarrow> \<not> valid_utf8 (take i reason)"
    using trim_reason_is [of 123 reason] by blast
  obtain k where k: "k \<le> 123" "123 \<le> k + 3" "valid_utf8 (take k reason)" using valid_cut [OF assms(1), of 123] assms(2) by auto
  have "k \<le> j" using j(4) k(1,3) by (meson not_le)
  then have "length (take j reason) \<le> 123" "120 \<le> length (take j reason)" "length (take j reason) = j" using k j(1) assms(2) by simp_all
  moreover have "closeReason reason = take j reason" using assms(2) j(2) by (simp add: closeReason_def)
  ultimately show "120 \<le> length (closeReason reason)" "length (closeReason reason) \<le> 123" "valid_utf8 (closeReason reason)"
    "prefix (closeReason reason) reason"
    "length (closeReason reason) < i \<and> i \<le> 123 \<longrightarrow> \<not> valid_utf8 (take i reason)"
    using j(3,4) take_is_prefix by simp_all
qed

end
