(* ===== verification/Peer_Spec.thy ===== *)
theory Peer_Spec
  imports Peer_Sample Peer_Text
begin

text \<open>
  What a peer promises: two peers never refuse each other's frames, a call's result is what the
  other side answered to that call, requests start at most once and in order, events arrive in
  order, and the bounds of its options hold whatever the other side sends.
\<close>

section \<open>One side and the other\<close>

definition sides :: "link \<Rightarrow> peer \<Rightarrow> peer \<Rightarrow> bool" where
  "sides w p q \<longleftrightarrow> p = lkClient w \<and> q = lkServer w \<or> p = lkServer w \<and> q = lkClient w"

lemma sides_facts:
  assumes "exact_encoder render" "reachable link_start (link_move render) w" "sides w p q"
  shows "peer_ok render p" and "peer_ok render q" and "\<exists>rest. sent_frames (prQueued p) = prReceived q @ rest"
    and "\<exists>rest. sent_frames (prQueued q) = prReceived p @ rest" and "unrefused p q"
  using link_reach [OF assms(1,2)] assms(3) flow_prefix unfolding link_ok_def sides_def by blast+

lemma filter_key_one: "distinct (map fst al) \<Longrightarrow> (x, a) \<in> set al \<Longrightarrow> filter (\<lambda>b. fst b = x) al = [(x, a)]"
proof (induction al)
  case (Cons b al)
  then show ?case by (cases "fst b = x") (auto simp: filter_empty_conv rev_image_eqI)
qed simp

lemma active_card: "card (active rs) = length (filter (\<lambda>r. rqBody r \<noteq> BodyGone) rs)"
proof (induction rs rule: rev_induct)
  case Nil
  then show ?case by (simp add: active_def)
next
  case (snoc r rs)
  have fin: "finite (active rs)" "(rqID r, length rs) \<notin> active rs" by (auto simp: active_def)
  show ?case
  proof (cases "rqBody r = BodyGone")
    case True
    then have "active (rs @ [r]) = active rs" by (auto simp: active_def nth_append less_Suc_eq)
    then show ?thesis using snoc True by simp
  next
    case False
    then show ?thesis using snoc fin by (simp add: active_snoc)
  qed
qed

text \<open>A response was queued for a request that came, and a result for one that ran.\<close>

lemma answer_of_request:
  assumes p: "peer_ok render p" and f: "f \<in> set (sent_frames (prQueued p))" "pfKind f = ''response''" "response_of f = Inr v"
  shows "\<exists>r \<in> set (prRequests p). rqID r = pfID f \<and> rqAnswer r = Answered"
proof -
  have a: "(pfID f, Inr v) \<in> set (answers_of (prQueued p))" using f by (force simp: answers_of_def)
  note parts = requests_ok_parts [OF peer_ok_parts(4) [OF p]]
  obtain r where r: "r \<in> set (prRequests p)" "rqID r = pfID f" using parts(10) a by force
  moreover have "rqID r \<in> fst ` set (answers_of (prQueued p))" using a r(2) by force
  ultimately show ?thesis using parts(9) by blast
qed

lemma call_ids_distinct:
  assumes p: "peer_ok render p" and c: "c \<in> set (prCalls p)" "d \<in> set (prCalls p)" "clID c = clID d"
  shows "c = d"
proof -
  have "sorted_wrt (<) (map clSerial (prCalls p))" using peer_ok_parts(1) [OF p] by (simp add: calls_ok_def)
  then have "distinct (map clSerial (prCalls p))" using strict_sorted_iff by blast
  moreover have "clSerial c = clSerial d" using call_id_valid(3) [OF p] c by metis
  ultimately show ?thesis using c by (meson distinct_map inj_onD)
qed

lemma request_of_call:
  assumes p: "peer_ok render p" and q: "peer_ok render q" and flow: "\<exists>rest. sent_frames (prQueued p) = prReceived q @ rest"
    and r: "r \<in> set (prRequests q)"
  shows "\<exists>c \<in> set (prCalls p). clPublished c \<and> request_key r = call_key c"
proof -
  have "request_key r \<in> set (map request_key (prRequests q))" using r by simp
  then have "request_key r \<in> set (map frame_key (of_kind ''request'' (prReceived q)))"
    using subseq_set [OF requests_ok_parts(1) [OF peer_ok_parts(4) [OF q]]] by blast
  then obtain f where f: "f \<in> set (prReceived q)" "pfKind f = ''request''" "frame_key f = request_key r" by auto
  then have "f \<in> set (sent_frames (prQueued p))" using flow by auto
  then show ?thesis using sent_request [OF p _ f(2)] f(3) by simp
qed

text \<open>C32: Two peers over one ordered connection, each with options of its own and with propagators
  that inject a well-formed traceparent or none, refuse of each other's frames none but those over
  the limit: if a peer ends for a frame it read, that frame is longer than its own
  \<open>MaxFrameBytes\<close>, which is then less than the other side's; it never ends for a frame that is
  no text, malformed, or of an id that is invalid, no larger than the ones before, or in use,
  whatever calls, events, answers, cancellations and losses happen.\<close>

theorem peers_never_refuse:
  assumes "exact_encoder render" and "reachable link_start (link_move render) w" and "sides w p q"
    and "prErr p = Some e" and "refusal e"
  shows "e = FrameTooLarge \<and> maxFrame (prLimits p) < maxFrame (prLimits q)"
  using sides_facts(5) [OF assms(1-3)] assms(4,5) by (simp add: unrefused_def)

lemma peers_never_refuse_witness: "maxFrame (prLimits refused_server) < maxFrame (prLimits (client2\<lparr>prOutputs := []\<rparr>))"
proof -
  have "sides refused_end refused_server (client2\<lparr>prOutputs := []\<rparr>)" by (simp add: sides_def refused_end_def)
  from peers_never_refuse [OF sample_exact refused_reached this refused_server_err] show ?thesis by (simp add: refusal_def)
qed

text \<open>C33: Over such a connection, a call's result is what the other side queued, once, as the answer to a request with the
  call's id, method and params that its handler ran.\<close>

theorem result_answers_the_call:
  assumes "exact_encoder render" and "reachable link_start (link_move render) w" and "sides w p q"
    and "c \<in> set (prCalls p)" and "clOutcome c = Some (Result v)"
  shows "(\<exists>r \<in> set (prRequests q). rqID r = clID c \<and> rqMethod r = clMethod c \<and> rqParams r = clParams c \<and> rqAnswer r = Answered) \<and>
    filter (\<lambda>a. fst a = clID c) (answers_of (prQueued q)) = [(clID c, Inr v)]"
proof -
  note facts = sides_facts [OF assms(1-3)]
  have "replied (prReceived p) (clID c) (Inr v)"
    using peer_ok_parts(5) [OF facts(1)] assms(4,5) by (simp add: replies_ok_def reply_ok_def)
  then obtain f where f: "f \<in> set (prReceived p)" "pfKind f = ''response''" "pfID f = clID c" "response_of f = Inr v"
    by (auto simp: replied_def)
  then have sent: "f \<in> set (sent_frames (prQueued q))" using facts(4) by auto
  obtain r where r: "r \<in> set (prRequests q)" "rqID r = clID c" "rqAnswer r = Answered"
    using answer_of_request [OF facts(2) sent f(2,4)] f(3) by auto
  obtain d where d: "d \<in> set (prCalls p)" "request_key r = call_key d" using request_of_call [OF facts(1,2,3) r(1)] by blast
  then have "clID d = clID c" using r(2) by (simp add: request_key_def call_key_def)
  then have "d = c" by (rule call_ids_distinct [OF facts(1) d(1) assms(4)])
  then have "rqMethod r = clMethod c" "rqParams r = clParams c" using d(2) by (simp_all add: request_key_def call_key_def)
  moreover have "f \<in> set (of_kind ''response'' (sent_frames (prQueued q)))" using sent f(2) by simp
  then have "(pfID f, response_of f) \<in> set (answers_of (prQueued q))" unfolding answers_of_def by simp
  then have "(clID c, Inr v) \<in> set (answers_of (prQueued q))" unfolding f(3,4) .
  then have "filter (\<lambda>a. fst a = clID c) (answers_of (prQueued q)) = [(clID c, Inr v)]"
    using filter_key_one [OF requests_ok_parts(7) [OF peer_ok_parts(4) [OF facts(2)]]] by blast
  ultimately show ?thesis using r by blast
qed

lemma result_answers_the_call_witness:
  "\<exists>r \<in> set (prRequests server6). rqID r = ''c:1'' \<and> rqMethod r = ''echo'' \<and> rqParams r = JNull \<and> rqAnswer r = Answered"
proof -
  let ?c = "sample_call\<lparr>clPublished := True, clReply := Some (Inr (JBool True)), clCompleted := True, clOutcome := Some (Result (JBool True))\<rparr>"
  have "sides sample_end client6 server6" by (simp add: sides_def sample_end_def)
  moreover have "?c \<in> set (prCalls client6)" by (simp add: client6_def)
  ultimately show ?thesis
    using result_answers_the_call [OF sample_exact sample_reached, of client6 server6 ?c "JBool True"] by (simp add: sample_call_def)
qed


text \<open>C34: Over such a connection, the requests a peer starts are the calls the other side published, each at most once and
  in the order they were published, with their method and params.\<close>

theorem requests_start_once_in_order:
  assumes "exact_encoder render" and "reachable link_start (link_move render) w" and "sides w p q"
  shows "subseq (map request_key (prRequests q)) (map call_key (filter clPublished (prCalls p))) \<and> distinct (map rqID (prRequests q))"
proof -
  note facts = sides_facts [OF assms]
  obtain rest where rest: "sent_frames (prQueued p) = prReceived q @ rest" using facts(3) by blast
  have "map call_key (filter clPublished (prCalls p)) =
      map frame_key (of_kind ''request'' (prReceived q)) @ map frame_key (of_kind ''request'' rest)"
    unfolding requests_sent [OF facts(1), symmetric] rest by simp
  moreover have "subseq (map request_key (prRequests q)) (map frame_key (of_kind ''request'' (prReceived q)))"
    using requests_ok_parts(1) [OF peer_ok_parts(4) [OF facts(2)]] .
  ultimately show ?thesis using request_ids_distinct [OF facts(2)] list_emb_prefix by metis
qed

lemma requests_start_once_in_order_witness:
  "subseq (map request_key (prRequests server6)) (map call_key (filter clPublished (prCalls client6)))"
  using requests_start_once_in_order [OF sample_exact sample_reached, of client6 server6] by (simp add: sides_def sample_end_def)


text \<open>C35: Over such a connection, the events a peer's event loop delivers are the events the other side emitted, as they were
  and in the order they were emitted, none of them left out before the last one delivered.\<close>

theorem events_arrive_in_order:
  assumes "exact_encoder render" and "reachable link_start (link_move render) w" and "sides w p q"
  shows "prefix (map fst (prDelivered q)) (map event_of (of_kind ''event'' (sent_frames (prQueued p))))"
proof -
  note facts = sides_facts [OF assms]
  obtain rest where "sent_frames (prQueued p) = prReceived q @ rest" using facts(3) by blast
  moreover obtain more where "map event_of (of_kind ''event'' (prReceived q)) = map fst (prDelivered q) @ more"
    using peer_ok_parts(6) [OF facts(2)] by (auto simp: events_ok_def)
  ultimately show ?thesis by simp
qed

lemma events_arrive_in_order_witness:
  "prefix (map fst (prDelivered server6)) (map event_of (of_kind ''event'' (sent_frames (prQueued client6))))"
  using events_arrive_in_order [OF sample_exact sample_reached, of client6 server6] by (simp add: sides_def sample_end_def)


section \<open>Against any other side\<close>

text \<open>C36: Whatever the other side sends: the calls that wait for a reply, the requests that run, the
  frames in the queue and the events in the queue stay within the limits, the slots taken are the
  requests that have not left, and every frame queued is within the size limit.\<close>

theorem peer_stays_within_limits:
  assumes "reachable peer_start (peer_move render) p"
  shows "length (prPending p) \<le> maxPending (prLimits p) \<and> prSlots p \<le> maxHandlers (prLimits p) \<and>
    prSlots p = length (filter (\<lambda>r. rqBody r \<noteq> BodyGone) (prRequests p)) \<and>
    length (prOutputs p) \<le> queueCap (prLimits p) \<and> length (prEvents p) \<le> queueCap (prLimits p) \<and>
    (\<forall>(d, f) \<in> set (prQueued p). int (length d) \<le> maxFrame (prLimits p))"
proof -
  have ok: "peer_ok render p" by (rule whole_peer.always [OF assms])
  note parts = requests_ok_parts [OF peer_ok_parts(4) [OF ok]]
  have "length (prIncoming p) = card (active (prRequests p))"
    using parts(3,4) by (metis active_def distinct_card distinct_map)
  then have "prSlots p = length (filter (\<lambda>r. rqBody r \<noteq> BodyGone) (prRequests p))" using parts(5) by (simp add: active_card)
  moreover have "\<forall>(d, f) \<in> set (prQueued p). int (length d) \<le> maxFrame (prLimits p)"
    using peer_ok_parts(2) [OF ok] by (auto simp: frames_ok_def message_ok_def)
  ultimately show ?thesis using ok parts(6) by (simp add: peer_ok_def calls_ok_def events_ok_def)
qed

lemma peer_stays_within_limits_witness: "prSlots server4 \<le> 1 \<and> length (prOutputs server4) \<le> 2"
proof -
  have "prLimits server4 = sample_limits" by (simp add: sample_states)
  then show ?thesis using peer_stays_within_limits [OF sample_peer_reached] by (simp add: sample_limits_def)
qed


text \<open>C37: Whatever the other side sends, a peer answers a request at most once, answers only
  requests that came, answers with a result only a request it started, and never ends for a request
  whose id is in use: serials only grow.\<close>

theorem answers_at_most_once:
  assumes "reachable peer_start (peer_move render) p"
  shows "distinct (map fst (answers_of (prQueued p))) \<and>
    (\<forall>(x, a) \<in> set (answers_of (prQueued p)). x \<in> pfID ` set (of_kind ''request'' (prReceived p)) \<and>
       (isl a \<or> x \<in> rqID ` set (prRequests p))) \<and>
    prErr p \<noteq> Some DuplicateActive"
proof -
  have ok: "peer_ok render p" and dup: "prErr p \<noteq> Some DuplicateActive"
    using serials_grow.always [OF assms] by (simp_all add: never_duplicate_def)
  note parts = requests_ok_parts [OF peer_ok_parts(4) [OF ok]]
  have "isl a \<or> x \<in> rqID ` set (prRequests p)" if "(x, a) \<in> set (answers_of (prQueued p))" for x a
    using parts(10) that by (cases a) auto
  then show ?thesis using parts(7,8) dup by blast
qed

lemma answers_at_most_once_witness: "distinct (map fst (answers_of (prQueued server4))) \<and> prErr server4 \<noteq> Some DuplicateActive"
  using answers_at_most_once [OF sample_peer_reached] by simp

section \<open>Texts\<close>

text \<open>C38: The guard before the decoder is exact: of a text the lenient decoder reads, it passes the
  ones that are read with no character replaced, as the same value, and refuses the others.\<close>

theorem raw_reads_exactly:
  assumes "parse_json False s = Some v"
  shows "parse_json True s = (if Raw s then Some v else None)"
  using raw_decides [OF assms] .

lemma raw_reads_exactly_witness: "parse_json True [CHR 0x22, CHR 0xFF, CHR 0x22] = None"
proof -
  have "parse_json False [CHR 0x22, CHR 0xFF, CHR 0x22] = Some (JString replacement)"
    and "\<not> Raw [CHR 0x22, CHR 0xFF, CHR 0x22]" by code_simp+
  then show ?thesis using raw_reads_exactly by simp
qed

text \<open>C39: What a peer reads is what the profile says a frame is: whatever the bytes, a decoded frame
  has version 1, the members its kind must have and no other, a complete error, a well-formed
  traceparent or none, and a carriage of distinct keys none of which is reserved; and every such
  frame is read back from its own encoding as it was, a carriage with no entries as none.\<close>

theorem frames_follow_the_profile:
  assumes "parse_json True d = Some (JObject (frame_members g))"
  shows "(decodeFrame raw = Inr f \<longrightarrow> frame_ok f) \<and> (frame_ok g \<longrightarrow> decodeFrame d = Inr (without_empty g))"
  using only_profile_frames_are_read own_frame_is_read_back [of d "without_empty g"] own_frame_without_empty assms by auto

lemma frames_follow_the_profile_witness:
  "frame_ok sample_event \<and> decodeFrame (json_text (JObject (frame_members sample_event))) = Inr sample_event"
proof -
  have "json_ok (JObject (frame_members sample_event)) \<and> int (json_depth (JObject (frame_members sample_event))) \<le> maxNestingDepth"
    by code_simp
  moreover have "frame_ok sample_event"
    unfolding sample_event_def event_frame_def empty_frame_def outgoing_meta_def by (simp add: ok_event traced_def carriage_def)
  moreover have "without_empty sample_event = sample_event" by (simp add: without_empty_def sample_event_def event_frame_def empty_frame_def outgoing_meta_def)
  ultimately show ?thesis using frames_follow_the_profile [OF parse_json_text] by auto
qed

text \<open>C40: A close reason is the text it was given when that fits a close frame, and of a longer valid
  text the longest valid beginning of at most 123 bytes, which has at least 120.\<close>

theorem close_reason_is_cut_on_a_rune:
  assumes "valid_utf8 reason"
  shows "valid_utf8 (closeReason reason) \<and> prefix (closeReason reason) reason \<and> length (closeReason reason) \<le> 123 \<and>
    min (length reason) 120 \<le> length (closeReason reason) \<and>
    (\<forall>i. length (closeReason reason) < i \<and> i \<le> min (length reason) 123 \<longrightarrow> \<not> valid_utf8 (take i reason))"
proof (cases "length reason \<le> 123")
  case False
  then show ?thesis using closeReason_cut [OF assms] by simp
qed (use assms in \<open>simp add: closeReason_def\<close>)

lemma close_reason_is_cut_on_a_rune_witness:
  "120 \<le> length (closeReason (replicate 122 CHR ''a'' @ [CHR 0xE2, CHR 0x82, CHR 0xAC]))"
proof -
  have "valid_utf8 (replicate 122 CHR ''a'' @ [CHR 0xE2, CHR 0x82, CHR 0xAC])" by code_simp
  from close_reason_is_cut_on_a_rune [OF this] show ?thesis by simp
qed

end
