(* ===== verification/Spec2Isabelle.thy ===== *)
theory Spec2Isabelle
  imports Grant_Spec Pattern_Spec Tunnel_Spec Auth_Spec Login_Spec Live_Spec Duplex_Through Duplex_Pipe Duplex_Spec
    Peer_Spec
begin

text \<open>
  Nightseam generates, from declared families of types, operations and events, the protocol code two
  programs speak over one duplex connection, and brings the runtime that code runs on.  This
  development models the parts of the Go implementation that decide something: who may call what,
  which text a pattern accepts, how channels share one connection, and which references are alive.

  The parts and their theories (file and function names are those under \<open>src/\<close>; a definition
  keeps the name of the Go function or type it translates, with a suffix where HOL has the name):

  \<^item> Shared: \<open>Prelude\<close> (results, bytes, the fact collections), \<open>Strings\<close> and \<open>Utf8\<close> (what the code
    uses of Go's \<open>strings\<close>, \<open>strconv\<close> and \<open>unicode/utf8\<close>), \<open>Base64\<close>, \<open>Codec\<close> (the locale of one
    field of a canonical encoding) and \<open>Transitions\<close> (reachable states, the locale of an invariant).

  \<^item> Grants, \<open>auth/go/grant\<close>: \<open>Grant_Body\<close> is the body of a grant with its rules, \<open>Encode\<close> and
    \<open>Decode\<close>; \<open>Grant_Chain\<close> is \<open>chain.go\<close> and \<open>envelope.go\<close>, the evaluation of a chain and
    issuance, with the locale of attenuation; \<open>Grant_Spec\<close> holds the properties: which chains are
    accepted, that authority never widens along one, that the encoding is canonical and which
    refusal is given.  Archon's envelopes are a parameter.

  \<^item> Patterns, \<open>internal/pattern\<close>: \<open>Charset\<close> and \<open>Pattern_Parse\<close> are \<open>compile.go\<close> and
    \<open>dialect.go\<close>, \<open>Pattern_Match\<close> is \<open>match.go\<close>; the \<open>_Correct\<close> theories prove that the parser
    returns well-formed trees on every source and that the memoised matcher computes the relational
    meaning \<open>sem\<close>; \<open>Pattern_Spec\<close> holds the properties.  Go's own engine is a parameter.

  \<^item> The tunnel, \<open>tunnel/go\<close>: \<open>Tunnel_Model\<close> has one side's state and its sections; the calls
    that end a connection (\<open>Close\<close>, \<open>Abort\<close>, \<open>fail\<close>, \<open>onClose\<close>, a failed open, \<open>watch\<close>) leave the
    sections they have still to run in the field \<open>running\<close>, so that everything else interleaves with
    them.  \<open>Tunnel_Json\<close> is the JSON of a frame's event and back, \<open>Tunnel_Inv\<close> the invariant of one
    side, \<open>Tunnel_Ends\<close> the invariant of the calls in progress, \<open>Tunnel_Flow\<close> two sides over a
    connection and the conservation of credit, \<open>Tunnel_Wake\<close> the waits on the wake channels,
    \<open>Tunnel_Spec\<close> the properties.  A frame's arrival is one step, the lookup with what follows on the
    connection: the lookup only reads the table, and one reader takes the messages in order.

  \<^item> Authorization, \<open>auth/go\<close>: \<open>Auth_Audience\<close> (\<open>audience.go\<close>), \<open>Auth_Connection\<close> (\<open>code.go\<close>,
    \<open>connection.go\<close>), \<open>Auth_Exposure\<close> and \<open>Auth_Binding\<close> (\<open>exposure.go\<close>) with the properties in
    \<open>Auth_Spec\<close>; \<open>Auth_Login\<close> (\<open>login.go\<close>) and \<open>Login_Store\<close>, the locale of a compare-and-set store,
    its interpretation on the in-memory store and the abstract lifecycle, with the properties in
    \<open>Login_Spec\<close>.  The possession and login schemes are parameters.

  \<^item> Live references, \<open>live/go\<close>: \<open>Live_Model\<close> is \<open>live.go\<close>, \<open>owner.go\<close> and \<open>export.go\<close>, one scope
    whose Go pointers are indices into lists that only grow; \<open>Live_Tree\<close> the tree of owners,
    \<open>Live_Inv\<close> the invariant and the step relation, \<open>Live_Spec\<close> the properties.

  \<^item> The duplex package, \<open>duplex/go\<close>: \<open>Duplex_Frame\<close> (\<open>duplex.go\<close>), \<open>Duplex_Path\<close> (the encoding of
    paths) and \<open>Duplex_Wire\<close> (sending over selected, mounted, declared and composed wires, from
    \<open>wire.go\<close>, \<open>through.go\<close> and \<open>declared.go\<close>); \<open>Duplex_Mount\<close> and \<open>Duplex_Through\<close> are the two
    endpoints that borrow attachments, with the locale \<open>borrowing\<close>; \<open>Duplex_Pipe\<close> is \<open>pipe.go\<close>;
    \<open>Duplex_Record\<close> is \<open>record.go\<close>, \<open>Duplex_Record_Inv\<close> its invariant over any log that keeps the
    promises of the locale \<open>wire_log\<close>, and \<open>Duplex_Spec\<close> the properties over the log in memory.

  \<^item> The runtime peer, \<open>runtime/go\<close>: \<open>Json\<close> reads JSON text the way \<open>encoding/json\<close> does into an
    \<open>any\<close> and into raw messages, \<open>Scalar_Json\<close> is the guard \<open>internal/scalarjson\<close> that every frame
    passes first, \<open>Json_Print\<close> a printer for examples; \<open>Peer_Frame\<close> is the data of a connection and
    \<open>decodeFrame\<close> with \<open>meta.go\<close> and \<open>trace.go\<close>; \<open>Peer_Model\<close> has the state of one peer, the sections
    under its mutex and the turns of its goroutines (\<open>peer.go\<close>), where the function \<open>render\<close> stands
    for the encoder of a frame; \<open>Peer_Inv\<close> and \<open>Peer_Requests\<close> hold the invariant of one peer whatever
    the other side sends; \<open>Peer_Flow\<close> puts two peers over a connection that keeps the order of what is
    written, under the hypothesis \<open>exact_encoder\<close> that an encoded frame, its strings being valid UTF-8,
    is read back as it was; the two peers have options of their own, and their propagators inject a
    well-formed traceparent or none.  What a frame may be is stated apart from the decoder, as the
    inductive \<open>frame_ok\<close> after \<open>docs/wire/profile.md\<close>.  \<open>Json_Decode\<close> is how \<open>encoding/json\<close> fills a
    struct, \<open>Peer_Text\<close> relates bytes and close reasons, \<open>Peer_Sample\<close> is a connection whose runs are
    computed, \<open>Peer_Spec\<close> the properties.  The second select of \<open>rejectRequest\<close>, after it
    yields, is covered by the turns of the writer between its sections.

  How they interact: the tunnel and the live scope both run over a peer of \<open>runtime/go\<close>; their models
  were made of the calls they need of it and keep what is emitted and observed as a log, and the order
  they rely on is \<open>events_arrive_in_order\<close> of the peer's own model; the exposure asks the connection's \<open>Call\<close>, which
  asks \<open>Verify\<close> of the grant chain; the login service asks \<open>Inspect\<close>.

  What the steps are.  A mutex makes a section atomic, so each section is one function on a record of
  the state, and the runs of a component are the sequences of its sections in any order
  (\<open>reachable\<close>).  A call that goes through several sections leaves those it has still to run in the
  state, or is a step per section.  A select or a wait is a step that is enabled when its channel is ready.

  Fuel.  The matcher's repetition loops take \<open>length inp + 2\<close> turns of fuel, more than the
  positions they can reach, and \<open>Pattern_Match_Correct\<close> proves that they never run out; the parser
  takes \<open>2 * length s + 1\<close>, as every level consumes a byte, and \<open>compile_returns_wellformed\<close> says
  that it always returns; the walks in the tree of owners take the number of owners, as a parent is
  made before its children.

  Bounds.  Expiries, depths, lengths and sequence numbers that the code keeps in fixed-width
  integers are words; counters the code keeps in \<open>int\<close> or \<open>int64\<close> and only increments are unbounded
  integers, so the models hold as long as these do not wrap.

  Not modelled: of the peer its observer and the attachments of its wire, and contexts and timers as
  such (their ends are steps that may come at any time); the transports below it (sockets); the
  validation of values against descriptors, the declaration model and its checker, the text
  generators and documents, the command line, telemetry, and the conformance suites and examples.
\<close>

end
